(* ===== verification/Sth_Prelude.thy ===== *)
theory Sth_Prelude
  imports Main "HOL-Library.Word"
begin

text \<open>
  Shared ground of the development: the machine types of the C code, byte-addressed
  memory with little-endian 32-bit accesses, the result type for code that may stop the
  machine, and the lemmas about them that the components use.

  The C types map as follows: \<open>uint8_t\<close>/\<open>char\<close> (unsigned on ARM) is \<open>8 word\<close>,
  \<open>uint32_t\<close>, \<open>addr_t\<close>, \<open>size_t\<close> and pointers are \<open>32 word\<close>, \<open>BOOL\<close> is \<open>bool\<close>.
\<close>

unbundle bit_operations_syntax

named_theorems mem_simps \<open>reading memory after writing it\<close>
named_theorems word_arith_simps \<open>small facts about 32-bit masks and offsets\<close>

section \<open>Machine types\<close>

type_synonym u8 = "8 word"
type_synonym u16 = "16 word"
type_synonym u32 = "32 word"
type_synonym mem = "u32 \<Rightarrow> u8"

lemma unat_u32_less [simp]: "unat (w :: u32) < 4294967296"
  using unsigned_less [of w] by simp

lemma unat_u32_le [simp]: "unat (w :: u32) \<le> 4294967296"
  by (rule less_imp_le) simp

lemma u32_4_1 [simp]: "((4 :: u32) \<le> 1) = False" "((1 :: u32) < 4) = True"
  by (simp_all add: word_le_nat_alt word_less_nat_alt)

lemma unat_dec [word_arith_simps]: "(w :: u32) \<noteq> 0 \<Longrightarrow> unat (w - 1) = unat w - 1"
  by (rule unat_minus_one)

lemma unat_inc: "unat (w :: u32) < 4294967295 \<Longrightarrow> unat (w + 1) = unat w + 1"
  by (simp add: unat_word_ariths)

lemma unat_dec_less: "(w :: u32) \<noteq> 0 \<Longrightarrow> unat (w - 1) < unat w"
  by (simp add: unat_dec unat_gt_0)

lemma unat_of_nat_u32 [simp]: "i < 4294967296 \<Longrightarrow> unat (of_nat i :: u32) = i"
  by (simp add: unat_of_nat take_bit_eq_mod)

lemma word_unat_of_nat_self: "of_nat (unat (w :: u32)) = w"
  by simp

lemma unat_minus_1_u32 [simp]: "unat (- 1 :: u32) = 4294967295"
  by (simp add: unsigned_minus_1_eq_mask mask_eq_exp_minus_1)

text \<open>A C \<open>int\<close> is the signed reading of a word.\<close>

lemma sint_uint_u32: "sint (w :: u32) = (if uint w < 2147483648 then uint w else uint w - 4294967296)"
proof -
  define x where "x = uint w"
  have x: "0 \<le> x" "x < 4294967296" using unsigned_less [of w] by (simp_all add: x_def)
  then have "x div 2147483648 = (if x < 2147483648 then 0 else 1)" by auto
  moreover have "sint w = signed_take_bit 31 x" by (simp add: sint_uint x_def)
  ultimately show ?thesis using x unfolding x_def [symmetric]
    by (auto simp: signed_take_bit_eq_take_bit_minus bit_iff_odd take_bit_eq_mod)
qed

lemma uint_int_unat: "uint (w :: u32) = int (unat w)"
  by simp

lemma sint_nonneg_u32: "0 \<le> sint (w :: u32) \<longleftrightarrow> unat w < 2147483648"
proof -
  have "unat w < 4294967296" by simp
  then show ?thesis unfolding sint_uint_u32 uint_int_unat by (simp del: of_nat_unat unat_u32_less)
qed

lemma sint_eq_unat: "unat (v :: u32) < 2147483648 \<Longrightarrow> sint v = int (unat v)"
  unfolding sint_uint_u32 uint_int_unat by (simp del: of_nat_unat)

lemma sint_of_nat_u32: "n < 2147483648 \<Longrightarrow> sint (of_nat n :: u32) = int n"
  by (simp add: sint_eq_unat del: of_nat_unat)

lemma nat_sint_diff: "m < 2147483648 \<Longrightarrow> n < 2147483648 \<Longrightarrow> nat (sint (of_nat m :: u32) - sint (of_nat n :: u32)) = m - n"
  by (simp only: sint_of_nat_u32 nat_minus_as_int)

lemma sint_less_u32:
  "unat (v :: u32) < 2147483648 \<Longrightarrow> unat (w :: u32) < 2147483648 \<Longrightarrow> sint v < sint w \<longleftrightarrow> unat v < unat w"
  by (simp add: sint_eq_unat del: of_nat_unat)

text \<open>Offsets from a base, after the base has moved: the index of a byte in a later block.\<close>

lemma unat_off:
  fixes a d :: u32
  assumes "k + j \<le> 4294967296"
  shows "unat (a - (d + of_nat k)) < j \<longleftrightarrow> k \<le> unat (a - d) \<and> unat (a - d) < k + j"
proof (cases "k < 4294967296")
  case True
  have "unat (a - (d + of_nat k)) = unat ((a - d) - of_nat k)" by (simp add: algebra_simps)
  also have "\<dots> = (if k \<le> unat (a - d) then unat (a - d) - k else unat (a - d) + 4294967296 - k)"
    using True by (simp add: unat_sub_if' word_size)
  finally show ?thesis using assms by auto
next
  case False
  then have "j = 0" using assms by simp
  then show ?thesis by simp
qed

section \<open>Memory\<close>

text \<open>
  A 32-bit load and store at a byte address, little-endian as the ARM targets are
  configured. Addresses wrap at the end of the address space, as pointers do.
\<close>

definition load32 :: "mem \<Rightarrow> u32 \<Rightarrow> u32" where
  "load32 m a =
     ucast (m a) OR push_bit 8 (ucast (m (a + 1)))
     OR push_bit 16 (ucast (m (a + 2))) OR push_bit 24 (ucast (m (a + 3)))"

definition store32 :: "mem \<Rightarrow> u32 \<Rightarrow> u32 \<Rightarrow> mem" where
  "store32 m a v = m(a := ucast v, a + 1 := ucast (drop_bit 8 v),
     a + 2 := ucast (drop_bit 16 v), a + 3 := ucast (drop_bit 24 v))"

text \<open>Two words do not overlap when each starts at least four bytes after the other.\<close>

definition disj4 :: "u32 \<Rightarrow> u32 \<Rightarrow> bool" where
  "disj4 a b \<longleftrightarrow> 4 \<le> b - a \<and> 4 \<le> a - b"

lemma word_bytes_join:
  fixes v :: u32
  shows "ucast (ucast v :: u8) OR push_bit 8 (ucast (ucast (drop_bit 8 v) :: u8))
     OR push_bit 16 (ucast (ucast (drop_bit 16 v) :: u8))
     OR push_bit 24 (ucast (ucast (drop_bit 24 v) :: u8)) = v"
proof (rule bit_word_eqI)
  fix n assume "n < LENGTH(32)"
  then consider "n < 8" | "8 \<le> n" "n < 16" | "16 \<le> n" "n < 24" | "24 \<le> n" "n < 32"
    by force
  then show "bit (ucast (ucast v :: u8) OR push_bit 8 (ucast (ucast (drop_bit 8 v) :: u8))
     OR push_bit 16 (ucast (ucast (drop_bit 16 v) :: u8))
     OR push_bit 24 (ucast (ucast (drop_bit 24 v) :: u8)) :: u32) n = bit v n"
    by cases (auto simp: bit_simps)
qed

lemma load32_store32_same [simp, mem_simps]: "load32 (store32 m a v) a = v"
  by (simp add: load32_def store32_def word_bytes_join)

text \<open>An offset below four is one of the four byte positions of a word.\<close>

lemma word_less4_cases:
  fixes d :: u32
  assumes "d < 4"
  obtains "d = 0" | "d = 1" | "d = 2" | "d = 3"
proof -
  have "unat d < 4" using assms by (simp add: word_less_nat_alt)
  then consider "unat d = 0" | "unat d = 1" | "unat d = 2" | "unat d = 3" by arith
  then show thesis
  proof cases
    case 1 then show ?thesis using that(1) by unat_arith
  next
    case 2 then show ?thesis using that(2) by unat_arith
  next
    case 3 then show ?thesis using that(3) by unat_arith
  next
    case 4 then show ?thesis using that(4) by unat_arith
  qed
qed

lemma disj4_off:
  assumes "disj4 a b" "i < 4" "j < 4"
  shows "a + i \<noteq> b + j"
proof
  assume e: "a + i = b + j"
  from e have "b - a = i - j" and "a - b = j - i" by (simp_all add: algebra_simps)
  then have "4 \<le> i - j" "4 \<le> j - i" using assms(1) by (simp_all add: disj4_def)
  moreover have "i - j < 4 \<or> j - i < 4"
    using assms(2,3) by (cases "j \<le> i") (unat_arith, unat_arith)
  ultimately show False by (auto simp: not_less [symmetric])
qed

lemma disj4_sym: "disj4 a b \<longleftrightarrow> disj4 b a"
  by (auto simp: disj4_def)

lemma load32_store32_other [mem_simps]:
  assumes "disj4 a b"
  shows "load32 (store32 m a v) b = load32 m b"
proof -
  have ne: "b \<noteq> a + i" "b + j \<noteq> a" "b + j \<noteq> a + i" "b \<noteq> a" if "i < 4" "j < 4" for i j
    using disj4_off [OF assms, of i j] disj4_off [OF assms, of i 0] disj4_off [OF assms, of 0 j]
      disj4_off [OF assms, of 0 0] that by auto
  show ?thesis
    by (simp add: load32_def store32_def ne [of 1 1] ne [of 1 2] ne [of 1 3] ne [of 2 1]
        ne [of 2 2] ne [of 2 3] ne [of 3 1] ne [of 3 2] ne [of 3 3])
qed

lemma and_3_take_bit: "(a :: u32) AND 3 = take_bit 2 a"
  by (simp add: take_bit_eq_mask mask_eq_exp_minus_1)

lemma low_bits_zero_ge4:
  fixes x :: u32
  assumes "x AND 3 = 0" "x \<noteq> 0"
  shows "4 \<le> x"
proof (rule ccontr)
  assume "\<not> 4 \<le> x"
  then have "x < 4" by simp
  then show False by (cases rule: word_less4_cases) (use assms in simp_all)
qed

lemma uint_and_3: "uint ((a :: u32) AND 3) = uint a mod 4"
  by (simp add: and_3_take_bit unsigned_take_bit_eq take_bit_eq_mod uint_mod_distrib)

lemma and_3_diff:
  fixes a b :: u32
  assumes "a AND 3 = b AND 3"
  shows "(b - a) AND 3 = 0"
proof -
  have e: "uint a mod 4 = uint b mod 4"
    using assms by (metis uint_and_3)
  have "uint ((b - a) AND 3) = (uint b - uint a) mod 4"
    by (simp add: uint_and_3 uint_word_ariths mod_mod_cancel)
  also have "\<dots> = 0" using e by (metis mod_diff_eq diff_self mod_0)
  finally show ?thesis by (simp add: uint_0_iff)
qed

lemma aligned_disj4:
  fixes a b :: u32
  assumes "a AND 3 = b AND 3" "a \<noteq> b"
  shows "disj4 a b"
  unfolding disj4_def
  using assms by (auto intro!: low_bits_zero_ge4 and_3_diff)

lemma load32_store32_aligned [mem_simps]:
  assumes "a AND 3 = 0" "b AND 3 = 0"
  shows "load32 (store32 m a v) b = (if a = b then v else load32 m b)"
proof (cases "a = b")
  case False
  with assms have "disj4 a b" by (intro aligned_disj4) simp_all
  with False show ?thesis by (simp add: load32_store32_other)
qed simp

text \<open>A store changes no byte outside its four.\<close>

lemma store32_outside:
  assumes "\<not> b - a < 4"
  shows "store32 m a v b = m b"
proof -
  have "b \<noteq> a" "b \<noteq> a + 1" "b \<noteq> a + 2" "b \<noteq> a + 3" using assms by auto
  then show ?thesis by (simp add: store32_def)
qed

section \<open>Alignment\<close>

text \<open>An address is \<open>n\<close>-aligned when its low \<open>n\<close> bits are zero. Descriptors are an aligned address
  with flags in the low bits, so both halves can be read back with masks.\<close>

definition aligned :: "nat \<Rightarrow> u32 \<Rightarrow> bool" where
  "aligned n a \<longleftrightarrow> take_bit n a = 0"

lemma aligned_0 [simp]: "aligned n 0"
  by (simp add: aligned_def)

lemma aligned_le: "aligned n a \<Longrightarrow> m \<le> n \<Longrightarrow> aligned m a"
  by (metis aligned_def min_absorb1 take_bit_of_0 take_bit_take_bit)

lemma aligned_dvd: "aligned n a \<longleftrightarrow> 2 ^ n dvd a"
  by (simp add: aligned_def take_bit_eq_0_iff)

lemma aligned_add [intro]: "aligned n a \<Longrightarrow> aligned n b \<Longrightarrow> aligned n (a + b)"
  by (simp add: aligned_dvd)

lemma aligned_diff [intro]: "aligned n a \<Longrightarrow> aligned n b \<Longrightarrow> aligned n (a - b)"
  by (simp add: aligned_dvd)

lemma aligned_add_iff: "aligned n b \<Longrightarrow> aligned n (a + b) \<longleftrightarrow> aligned n a"
  using aligned_diff [of n "a + b" b] by auto

lemma aligned_mult: "aligned n b \<Longrightarrow> aligned n (b * c)"
  by (simp add: aligned_dvd)

lemma unat_take_bit_u32: "unat (take_bit n (a :: u32)) = unat a mod 2 ^ n"
  by (simp only: unsigned_take_bit_eq) (rule take_bit_eq_mod)

lemma aligned_unat: "aligned n a \<longleftrightarrow> unat a mod 2 ^ n = 0"
  by (metis aligned_def unat_take_bit_u32 unat_0 word_unat_eq_iff)

lemma aligned_2_iff: "aligned 2 a \<longleftrightarrow> a AND 3 = 0"
  by (simp add: aligned_def and_3_take_bit)

lemma aligned_bit: "aligned n a \<Longrightarrow> bit a i \<Longrightarrow> n \<le> i"
  by (metis aligned_def bit_take_bit_iff bit_0_eq bot_apply bot_bool_def not_le)

lemma low_bit: "take_bit n (k :: u32) = k \<Longrightarrow> bit k i \<Longrightarrow> i < n"
  by (metis bit_take_bit_iff)

lemma aligned_and_low: "aligned n a \<Longrightarrow> take_bit n k = k \<Longrightarrow> a AND k = 0"
  by (rule bit_eqI) (auto simp: bit_and_iff dest!: aligned_bit low_bit)

lemma aligned_and_high: "aligned n a \<Longrightarrow> a AND NOT (mask n) = a"
  by (rule bit_word_eqI) (auto simp: bit_simps dest: aligned_bit)

lemma low_and_high: "take_bit n (k :: u32) = k \<Longrightarrow> k AND NOT (mask n) = 0"
  by (rule bit_word_eqI) (auto simp: bit_simps dest: low_bit)

lemma aligned_or_high:
  "aligned n a \<Longrightarrow> take_bit n k = k \<Longrightarrow> (a OR k) AND NOT (mask n) = a"
  by (simp add: word_ao_dist aligned_and_high low_and_high)

lemma aligned_add_or: "aligned n a \<Longrightarrow> take_bit n k = k \<Longrightarrow> a + k = a OR k"
  by (simp add: disjunctive_add_eq_or aligned_and_low)

lemma take_bit_less_u32: "unat (k :: u32) < 2 ^ n \<Longrightarrow> take_bit n k = k"
  by (simp add: word_unat_eq_iff unat_take_bit_u32)

lemma low_and: "take_bit n (a :: u32) = a \<Longrightarrow> take_bit n (a AND k) = a AND k"
  by (metis take_bit_eq_mask and.assoc and.commute)

lemma low_or: "take_bit n (a :: u32) = a \<Longrightarrow> take_bit n k = k \<Longrightarrow> take_bit n (a OR k) = a OR k"
  by (simp add: take_bit_or)

lemma aligned_and_keep:
  assumes "aligned n a" "take_bit n (NOT k) = NOT k"
  shows "a AND k = a"
proof (rule bit_word_eqI)
  fix i assume "i < LENGTH(32)"
  moreover have "bit k i" if "bit a i"
  proof (rule ccontr)
    assume "\<not> bit k i"
    then have "bit (NOT k) i" using \<open>i < LENGTH(32)\<close> by (simp add: bit_simps)
    then have "i < n" by (rule low_bit [OF assms(2)])
    with aligned_bit [OF assms(1) that] show False by simp
  qed
  ultimately show "bit (a AND k) i = bit a i" by (auto simp: bit_and_iff)
qed

lemma unat_4_mult: "unat (i :: u32) < 2 ^ 30 \<Longrightarrow> unat (4 * i) = 4 * unat i"
  by (simp add: unat_word_ariths)

lemma index4_eq_iff:
  fixes i j a :: u32
  assumes "unat i < 2 ^ 30" "unat j < 2 ^ 30"
  shows "a + 4 * i = a + 4 * j \<longleftrightarrow> i = j"
proof
  assume "a + 4 * i = a + 4 * j"
  then have "unat (4 * i) = unat (4 * j)" by simp
  then show "i = j"
    using unat_4_mult [OF assms(1)] unat_4_mult [OF assms(2)] by (simp add: word_unat_eq_iff)
qed simp

lemma NOT_section_mask: "NOT (0xFFF00000 :: u32) = mask 20"
  by (simp add: word_uint_eq_iff mask_eq_exp_minus_1)

lemma aligned_index4: "aligned 2 a \<Longrightarrow> aligned 2 (a + 4 * i)"
  by (intro aligned_add aligned_mult) (simp_all add: aligned_def)

lemma unat_drop_bit_u32: "unat (drop_bit n (a :: u32)) = unat a div 2 ^ n"
proof -
  have "unat (drop_bit n a) = drop_bit n (take_bit 32 (unat a))"
    by (simp only: unsigned_drop_bit_eq) simp
  also have "take_bit 32 (unat a) = unat a" by (simp add: take_bit_nat_eq_self_iff)
  finally show ?thesis by (simp add: drop_bit_eq_div)
qed

lemma unat_drop_bit_20: "unat (drop_bit 20 (a :: u32)) < 4096"
  by (simp add: unat_drop_bit_u32) (use unat_u32_less [of a] in linarith)

text \<open>A word access at an aligned address.\<close>

lemma load32_store32_al [mem_simps]:
  assumes "aligned 2 a" "aligned 2 b"
  shows "load32 (store32 m a v) b = (if a = b then v else load32 m b)"
  using assms by (intro load32_store32_aligned) (simp_all add: aligned_2_iff)

section \<open>Code that may stop the machine\<close>

text \<open>
  \<open>hyper_panic\<close>, \<open>terminate\<close>, the handlers that spin, a loop that does not end and the use of a
  null pointer never return to the guest. A function that may end there returns \<open>Inl\<close> of the
  reason; \<open>bindE\<close> sequences two steps, and \<open>panic_if\<close> is the guard \<open>if (bad) hyper_panic(...)\<close>.
\<close>

datatype halt =
    Hyper_panic string u32
  | Unknown_hypercall u32 u32
  | Undef_exception u32 u32
  | Endless_loop string
  | Null_pointer string

type_synonym 'a res = "halt + 'a"

definition bindE :: "'a res \<Rightarrow> ('a \<Rightarrow> 'b res) \<Rightarrow> 'b res" where
  "bindE r f = (case r of Inl e \<Rightarrow> Inl e | Inr x \<Rightarrow> f x)"

definition panic_if :: "bool \<Rightarrow> string \<Rightarrow> u32 \<Rightarrow> 'a res \<Rightarrow> 'a res" where
  "panic_if bad msg code k = (if bad then Inl (Hyper_panic msg code) else k)"

lemma bindE_simps [simp]:
  "bindE (Inl e) f = Inl e"
  "bindE (Inr x) f = f x"
  by (simp_all add: bindE_def)

lemma bindE_Inr_iff [simp]: "bindE r f = Inr y \<longleftrightarrow> (\<exists>x. r = Inr x \<and> f x = Inr y)"
  by (cases r) auto

lemma panic_if_Inr_iff [simp]: "panic_if c msg code k = Inr y \<longleftrightarrow> \<not> c \<and> k = Inr y"
  by (simp add: panic_if_def)

lemma panic_if_Inl_iff:
  "panic_if c msg code k = Inl e \<longleftrightarrow> (c \<and> e = Hyper_panic msg code) \<or> (\<not> c \<and> k = Inl e)"
  by (auto simp: panic_if_def)

text \<open>Running one step per element of a list, stopping at the first halt.\<close>

fun foldE :: "('b \<Rightarrow> 'a \<Rightarrow> 'a res) \<Rightarrow> 'b list \<Rightarrow> 'a \<Rightarrow> 'a res" where
  "foldE f [] s = Inr s"
| "foldE f (x # xs) s = bindE (f x s) (foldE f xs)"

section \<open>Invariants of a transition system\<close>

text \<open>The contract of an invariant: it holds initially and every step keeps it; then it holds in
  every reachable state.\<close>

locale invariant_system =
  fixes init :: "'s \<Rightarrow> bool"
    and step :: "'s \<Rightarrow> 's \<Rightarrow> bool"
    and inv :: "'s \<Rightarrow> bool"
  assumes init_inv: "init s \<Longrightarrow> inv s"
    and step_inv: "inv s \<Longrightarrow> step s t \<Longrightarrow> inv t"
begin

lemma steps_inv: "step\<^sup>*\<^sup>* s t \<Longrightarrow> inv s \<Longrightarrow> inv t"
  by (induction rule: rtranclp_induct) (auto intro: step_inv)

lemma reachable_inv: "init s \<Longrightarrow> step\<^sup>*\<^sup>* s t \<Longrightarrow> inv t"
  using steps_inv init_inv by blast

text \<open>A relation between a state and its successor that every step respects holds along a run
  when it is transitive.\<close>

lemma steps_rel:
  assumes "step\<^sup>*\<^sup>* s t" "inv s" "\<And>u. R u u" "\<And>u v w. R u v \<Longrightarrow> R v w \<Longrightarrow> R u w"
    and "\<And>u v. inv u \<Longrightarrow> step u v \<Longrightarrow> R u v"
  shows "R s t"
  using assms(1)
proof (induction rule: rtranclp_induct)
  case (step u v)
  moreover from step.hyps(1) assms(2) have "inv u" by (rule steps_inv)
  ultimately show ?case using assms(4,5) by blast
qed (rule assms(3))

end

text \<open>Where the SoC maps its devices (\<open>soc_defs.h\<close> of the board's SoC).\<close>

definition IO_VA_ADDRESS :: "u32 \<Rightarrow> u32" where
  "IO_VA_ADDRESS x = x + 0xB2000000"

end
