(* ===== verification/Uc_String.thy ===== *)
theory Uc_String
  imports Sth_Prelude
begin

text \<open>
  The C library functions of \<open>library/uc/src/string.c\<close> over byte memory. A pointer walk
  is a recursion on the pointers; a count is kept at its 32-bit width, so that
  \<open>while(len--)\<close> and \<open>while(--n)\<close> wrap where the code wraps. Loops that stop only at a zero
  byte are partial functions: \<open>None\<close> is a walk that never returns.
\<close>

section \<open>memcpy, memset, memcmp\<close>

fun memcpy_loop :: "mem \<Rightarrow> u32 \<Rightarrow> u32 \<Rightarrow> nat \<Rightarrow> mem" where
  "memcpy_loop m pDst pSrc 0 = m"
| "memcpy_loop m pDst pSrc (Suc len) =
     memcpy_loop (m(pDst := m pSrc)) (pDst + 1) (pSrc + 1) len"

definition memcpy :: "mem \<Rightarrow> u32 \<Rightarrow> u32 \<Rightarrow> u32 \<Rightarrow> u32 \<times> mem" where
  "memcpy m dst src len = (dst, memcpy_loop m dst src (unat len))"

fun memset_loop :: "mem \<Rightarrow> u32 \<Rightarrow> u8 \<Rightarrow> nat \<Rightarrow> mem" where
  "memset_loop m tmp v 0 = m"
| "memset_loop m tmp v (Suc num) = memset_loop (m(tmp := v)) (tmp + 1) v num"

definition memset :: "mem \<Rightarrow> u32 \<Rightarrow> u32 \<Rightarrow> u32 \<Rightarrow> u32 \<times> mem" where
  "memset m ptr value num = (ptr, memset_loop m ptr (ucast value) (unat num))"

fun memcmp_loop :: "mem \<Rightarrow> u32 \<Rightarrow> u32 \<Rightarrow> nat \<Rightarrow> int" where
  "memcmp_loop m tmp1 tmp2 0 = 0"
| "memcmp_loop m tmp1 tmp2 (Suc n) =
     (let c = uint (m tmp1) - uint (m tmp2)
      in if c \<noteq> 0 then c else memcmp_loop m (tmp1 + 1) (tmp2 + 1) n)"

definition memcmp :: "mem \<Rightarrow> u32 \<Rightarrow> u32 \<Rightarrow> u32 \<Rightarrow> int" where
  "memcmp m ptr1 ptr2 n = memcmp_loop m ptr1 ptr2 (unat n)"

section \<open>Zero-terminated strings\<close>

partial_function (option) strlen_loop :: "mem \<Rightarrow> u32 \<Rightarrow> nat \<Rightarrow> nat option" where
  "strlen_loop m str ret = (if m str \<noteq> 0 then strlen_loop m (str + 1) (Suc ret) else Some ret)"

definition strlen :: "mem \<Rightarrow> u32 \<Rightarrow> nat option" where
  "strlen m str = strlen_loop m str 0"

partial_function (option) strcpy_loop :: "mem \<Rightarrow> u32 \<Rightarrow> u32 \<Rightarrow> mem option" where
  "strcpy_loop m dst src =
     (let m' = m(dst := m src)
      in if m' src \<noteq> 0 then strcpy_loop m' (dst + 1) (src + 1) else Some m')"

definition strcpy :: "mem \<Rightarrow> u32 \<Rightarrow> u32 \<Rightarrow> (u32 \<times> mem) option" where
  "strcpy m dst0 src = map_option (Pair dst0) (strcpy_loop m dst0 src)"

text \<open>
  \<open>strncpy\<close>: the copy loop leaves at the zero byte without touching \<open>n\<close>, or when \<open>--n\<close>
  reaches zero; the fill loop then decrements \<open>n\<close> again before it tests it.
\<close>

function strncpy_copy :: "mem \<Rightarrow> u32 \<Rightarrow> u32 \<Rightarrow> u32 \<Rightarrow> mem \<times> u32 \<times> u32" where
  "strncpy_copy m dst src n =
     (let m' = m(dst := m src)
      in if m' src \<noteq> 0
         then (if n - 1 \<noteq> 0 then strncpy_copy m' (dst + 1) (src + 1) (n - 1)
               else (m', dst + 1, n - 1))
         else (m', dst + 1, n))"
  by pat_completeness auto
termination
  by (relation "measure (\<lambda>(m, dst, src, n). unat (n - 1))")
     (use unat_dec_less [of "n - 1" for n] in auto)

function strncpy_fill :: "mem \<Rightarrow> u32 \<Rightarrow> u32 \<Rightarrow> mem" where
  "strncpy_fill m dst n =
     (if n - 1 \<noteq> 0 then strncpy_fill (m(dst := 0)) (dst + 1) (n - 1) else m)"
  by pat_completeness auto
termination
  by (relation "measure (\<lambda>(m, dst, n). unat (n - 1))")
     (use unat_dec_less [of "n - 1" for n] in auto)

declare strncpy_copy.simps [simp del] strncpy_fill.simps [simp del]

definition strncpy :: "mem \<Rightarrow> u32 \<Rightarrow> u32 \<Rightarrow> u32 \<Rightarrow> u32 \<times> mem" where
  "strncpy m dst0 src n =
     (case strncpy_copy m dst0 src n of (m', dst, n') \<Rightarrow> (dst0, strncpy_fill m' dst n'))"

partial_function (option) strcmp :: "mem \<Rightarrow> u32 \<Rightarrow> u32 \<Rightarrow> int option" where
  "strcmp m s1 s2 =
     (if m s2 \<noteq> 0 \<and> m s1 = m s2 then strcmp m (s1 + 1) (s2 + 1)
      else Some (uint (m s1) - uint (m s2)))"

fun strncmp_loop :: "mem \<Rightarrow> u32 \<Rightarrow> u32 \<Rightarrow> nat \<Rightarrow> int" where
  "strncmp_loop m s1 s2 0 = 0"
| "strncmp_loop m s1 s2 (Suc n) =
     (if m s1 \<noteq> m s2 then (if m s1 < m s2 then -1 else 1)
      else if m s1 = 0 then 0
      else strncmp_loop m (s1 + 1) (s2 + 1) n)"

definition strncmp :: "mem \<Rightarrow> u32 \<Rightarrow> u32 \<Rightarrow> u32 \<Rightarrow> int" where
  "strncmp m s1 s2 n = strncmp_loop m s1 s2 (unat n)"

section \<open>What the block operations do to memory\<close>

lemma unat_off_Suc:
  fixes a d :: u32
  assumes "Suc n \<le> 2 ^ 32"
  shows "unat (a - (d + 1)) < n \<longleftrightarrow> a \<noteq> d \<and> unat (a - d) < Suc n"
proof -
  have "unat (a - d) = 0 \<longleftrightarrow> a = d" by (simp add: unsigned_eq_0_iff)
  then show ?thesis using unat_off [of 1 n a d] assms by auto
qed

lemma memset_loop_apply [mem_simps]:
  "n \<le> 2 ^ 32 \<Longrightarrow> memset_loop m p v n a = (if unat (a - p) < n then v else m a)"
proof (induction n arbitrary: m p)
  case (Suc n)
  then show ?case by (auto simp: unat_off_Suc)
qed simp

text \<open>
  A forward copy is right when the destination does not start strictly inside the source:
  no byte is overwritten before it is read.
\<close>

definition forward_ok :: "u32 \<Rightarrow> u32 \<Rightarrow> nat \<Rightarrow> bool" where
  "forward_ok d s n \<longleftrightarrow> d = s \<or> n \<le> unat (d - s)"

lemma memcpy_loop_apply [mem_simps]:
  assumes "n \<le> 2 ^ 32" "forward_ok d s n"
  shows "memcpy_loop m d s n a = (if unat (a - d) < n then m (s + (a - d)) else m a)"
  using assms
proof (induction n arbitrary: m d s)
  case (Suc n)
  have "forward_ok (d + 1) (s + 1) n" using Suc.prems(2) by (auto simp: forward_ok_def)
  then have IH: "memcpy_loop (m(d := m s)) (d + 1) (s + 1) n a =
      (if unat (a - (d + 1)) < n then (m(d := m s)) (s + 1 + (a - (d + 1))) else (m(d := m s)) a)"
    using Suc.prems(1) by (intro Suc.IH) simp_all
  have e: "s + 1 + (a - (d + 1)) = s + (a - d)" by simp
  have "s + (a - d) \<noteq> d" if "unat (a - d) < Suc n" "a \<noteq> d"
  proof
    assume "s + (a - d) = d"
    then have "a - d = d - s" by (simp add: algebra_simps)
    then show False using that Suc.prems(2) by (auto simp: forward_ok_def)
  qed
  then show ?case
    using Suc.prems(1) by (auto simp: IH e unat_off_Suc simp del: add_diff_eq)
qed simp

lemma memcpy_apply:
  "forward_ok dst src (unat len) \<Longrightarrow>
     snd (memcpy m dst src len) a = (if a - dst < len then m (src + (a - dst)) else m a)"
  by (simp add: memcpy_def memcpy_loop_apply word_less_nat_alt)

lemma memset_apply:
  "snd (memset m p v len) a = (if a - p < len then ucast v else m a)"
  by (simp add: memset_def memset_loop_apply word_less_nat_alt)

text \<open>Words inside and outside a block that is filled or copied.\<close>

lemma unat_add_small:
  fixes a p :: u32
  assumes "unat (a - p) + k < 4294967296"
  shows "unat (a + of_nat k - p) = unat (a - p) + k"
proof -
  have "a + of_nat k - p = (a - p) + of_nat k" by simp
  moreover have "k < 4294967296" using assms by simp
  ultimately show ?thesis using assms
    by (simp only: unat_word_ariths unat_of_nat_u32) simp
qed

lemma unat_add_123:
  fixes a p :: u32
  assumes "unat (a - p) + 4 \<le> 4294967296"
  shows "unat (a + 1 - p) = unat (a - p) + 1" "unat (a + 2 - p) = unat (a - p) + 2"
    "unat (a + 3 - p) = unat (a - p) + 3"
  using unat_add_small [of a p 1] unat_add_small [of a p 2] unat_add_small [of a p 3] assms
  by simp_all

lemma load32_memset_zero:
  assumes "unat (a - p) + 4 \<le> n" "n \<le> 2 ^ 32"
  shows "load32 (memset_loop m p 0 n) a = 0"
proof -
  have "unat (a - p) + 4 \<le> 4294967296" using assms by simp
  note o = unat_add_123 [OF this]
  show ?thesis using assms by (simp add: load32_def memset_loop_apply o)
qed

lemma load32_memset_other:
  assumes "n \<le> unat (a - p)" "unat (a - p) + 4 \<le> 2 ^ 32"
  shows "load32 (memset_loop m p v n) a = load32 m a"
proof -
  have "unat (a - p) + 4 \<le> 4294967296" "n \<le> 2 ^ 32" using assms by simp_all
  note o = unat_add_123 [OF this(1)] this(2)
  show ?thesis using assms by (simp add: load32_def memset_loop_apply o)
qed

lemma load32_memcpy_in:
  assumes "unat (a - d) + 4 \<le> n" "n \<le> 2 ^ 32" "forward_ok d s n"
  shows "load32 (memcpy_loop m d s n) a = load32 m (s + (a - d))"
proof -
  have "unat (a - d) + 4 \<le> 4294967296" using assms by simp
  note o = unat_add_123 [OF this]
  have e: "s + (a + k - d) = s + (a - d) + k" for k by simp
  show ?thesis using assms
    by (simp add: load32_def memcpy_loop_apply [OF assms(2,3)] o e del: add_diff_eq)
qed

lemma load32_memcpy_other:
  assumes "n \<le> unat (a - d)" "unat (a - d) + 4 \<le> 2 ^ 32" "forward_ok d s n"
  shows "load32 (memcpy_loop m d s n) a = load32 m a"
proof -
  have "unat (a - d) + 4 \<le> 4294967296" "n \<le> 2 ^ 32" using assms by simp_all
  note o = unat_add_123 [OF this(1)] this(2)
  show ?thesis using assms by (simp add: load32_def memcpy_loop_apply [OF o(4) assms(3)] o)
qed

section \<open>C strings\<close>

text \<open>
  \<open>cstr m p xs\<close>: the bytes from \<open>p\<close> on are \<open>xs\<close>, none of them zero, and then a zero byte.
\<close>

fun cstr :: "mem \<Rightarrow> u32 \<Rightarrow> u8 list \<Rightarrow> bool" where
  "cstr m p [] \<longleftrightarrow> m p = 0"
| "cstr m p (x # xs) \<longleftrightarrow> m p = x \<and> x \<noteq> 0 \<and> cstr m (p + 1) xs"

lemma cstr_unique: "cstr m p xs \<Longrightarrow> cstr m p ys \<Longrightarrow> xs = ys"
proof (induction xs arbitrary: p ys)
  case Nil then show ?case by (cases ys) auto
next
  case (Cons x xs) then show ?case by (cases ys) auto
qed

lemma strlen_loop_cstr: "cstr m p xs \<Longrightarrow> strlen_loop m p k = Some (k + length xs)"
  by (induction xs arbitrary: p k) (simp_all add: strlen_loop.simps)

lemma strlen_loop_SomeD:
  assumes "strlen_loop m p k = Some r"
  shows "\<exists>xs. cstr m p xs \<and> r = k + length xs"
proof (rule strlen_loop.raw_induct
    [where P = "\<lambda>m p k r. \<exists>xs. cstr m p xs \<and> r = k + length xs", OF _ assms])
  fix f m p k r
  assume IH: "\<And>m p k r. f m p k = Some r \<Longrightarrow> \<exists>xs. cstr m p xs \<and> r = k + length xs"
    and eq: "(if m p \<noteq> 0 then f m (p + 1) (Suc k) else Some k) = Some r"
  show "\<exists>xs. cstr m p xs \<and> r = k + length xs"
  proof (cases "m p = 0")
    case True
    with eq show ?thesis by (intro exI [of _ "[]"]) simp
  next
    case False
    with eq have "f m (p + 1) (Suc k) = Some r" by simp
    from IH [OF this] obtain xs where "cstr m (p + 1) xs" "r = Suc k + length xs" by blast
    with False show ?thesis by (intro exI [of _ "m p # xs"]) simp
  qed
qed

text \<open>\<open>strlen\<close> returns exactly on zero-terminated memory, and returns the length.\<close>

lemma strlen_eq_Some_iff: "strlen m p = Some n \<longleftrightarrow> (\<exists>xs. cstr m p xs \<and> length xs = n)"
  by (auto simp: strlen_def strlen_loop_cstr dest!: strlen_loop_SomeD)

subsection \<open>strcmp\<close>

fun str_order :: "u8 list \<Rightarrow> u8 list \<Rightarrow> int" where
  "str_order [] [] = 0"
| "str_order [] (y # ys) = - uint y"
| "str_order (x # xs) [] = uint x"
| "str_order (x # xs) (y # ys) = (if x = y then str_order xs ys else uint x - uint y)"

lemma uint_eq_iff: "uint x = uint y \<longleftrightarrow> x = y"
  by (rule word_uint_eq_iff [symmetric])

lemma str_order_0_iff:
  "0 \<notin> set xs \<Longrightarrow> 0 \<notin> set ys \<Longrightarrow> str_order xs ys = 0 \<longleftrightarrow> xs = ys"
  by (induction xs ys rule: str_order.induct) (auto simp: uint_0_iff uint_eq_iff)

lemma cstr_no_zero: "cstr m p xs \<Longrightarrow> 0 \<notin> set xs"
  by (induction xs arbitrary: p) auto

lemma strcmp_cstr:
  "cstr m s1 xs \<Longrightarrow> cstr m s2 ys \<Longrightarrow> strcmp m s1 s2 = Some (str_order xs ys)"
proof (induction xs ys arbitrary: s1 s2 rule: str_order.induct)
  case (4 x xs y ys)
  then show ?case by (subst strcmp.simps) auto
qed (subst strcmp.simps; auto)+

text \<open>Comparing two C strings.\<close>

lemma strcmp_equal_iff:
  assumes "cstr m s1 xs" "cstr m s2 ys"
  shows "strcmp m s1 s2 = Some 0 \<longleftrightarrow> xs = ys"
  using assms by (simp add: strcmp_cstr str_order_0_iff cstr_no_zero)

subsection \<open>memcmp\<close>

lemma memcmp_loop_0_iff:
  "memcmp_loop m p q n = 0 \<longleftrightarrow> (\<forall>i < n. m (p + of_nat i) = m (q + of_nat i))"
proof (induction n arbitrary: p q)
  case (Suc n)
  then show ?case
    by (auto simp: Let_def uint_eq_iff less_Suc_eq_0_disj add.assoc)
qed simp

subsection \<open>strcpy\<close>

text \<open>Writing below the first byte still to be read keeps the rest of the string.\<close>

lemma cstr_upd_outside:
  assumes "cstr m p xs" "\<And>i. i \<le> length xs \<Longrightarrow> a \<noteq> p + of_nat i"
  shows "cstr (m(a := v)) p xs"
  using assms
proof (induction xs arbitrary: p)
  case Nil
  then show ?case using Nil(2) [of 0] by simp
next
  case (Cons x xs)
  have "cstr (m(a := v)) (p + 1) xs"
  proof (rule Cons.IH)
    show "a \<noteq> p + 1 + of_nat i" if "i \<le> length xs" for i
      using Cons.prems(2) [of "Suc i"] that by (simp add: ac_simps)
  qed (use Cons.prems in simp)
  moreover have "a \<noteq> p" using Cons.prems(2) [of 0] by simp
  ultimately show ?case using Cons.prems(1) by (simp add: fun_upd_def)
qed

lemma cstr_nth: "cstr m p xs \<Longrightarrow> i < length xs \<Longrightarrow> m (p + of_nat i) = xs ! i \<and> xs ! i \<noteq> 0"
proof (induction xs arbitrary: p i)
  case (Cons x xs)
  then show ?case by (cases i) (force simp: add.assoc)+
qed simp

lemma cstr_end: "cstr m p xs \<Longrightarrow> m (p + of_nat (length xs)) = 0"
  by (induction xs arbitrary: p) (force simp: add.assoc)+

lemma cstr_length: "cstr m p xs \<Longrightarrow> length xs < 2 ^ 32"
proof (rule ccontr)
  assume c: "cstr m p xs" and "\<not> length xs < 2 ^ 32"
  then have l: "length xs = (length xs - 2 ^ 32) + 2 ^ 32" by simp
  have "(of_nat (length xs) :: u32) = of_nat (length xs - 2 ^ 32)"
    by (subst l) (simp add: word_of_nat_eq_iff take_bit_eq_mod)
  moreover have "m (p + of_nat (length xs - 2 ^ 32)) \<noteq> 0"
    using cstr_nth [OF c, of "length xs - 2 ^ 32"] l by simp
  ultimately show False using cstr_end [OF c] by simp
qed

lemma forward_ok_not_hit:
  assumes "forward_ok d s (Suc n)" "i < n" "n < 2 ^ 32"
  shows "d \<noteq> s + 1 + of_nat i"
proof
  assume d: "d = s + 1 + of_nat i"
  have "unat (of_nat (Suc i) :: u32) = Suc i"
    using assms by (simp only: unat_of_nat take_bit_eq_mod) simp
  moreover have "d - s = of_nat (Suc i)" using d by simp
  ultimately show False using assms by (auto simp: forward_ok_def)
qed

lemma forward_ok_step: "forward_ok d s (Suc n) \<Longrightarrow> forward_ok (d + 1) (s + 1) n"
  by (auto simp: forward_ok_def)

lemma cstr_keep_step:
  assumes "cstr m src (x # xs)" "forward_ok dst src (Suc (Suc (length xs)))"
  shows "cstr (m(dst := m src)) (src + 1) xs"
proof (rule cstr_upd_outside)
  show "cstr m (src + 1) xs" using assms(1) by simp
  show "dst \<noteq> src + 1 + of_nat i" if "i \<le> length xs" for i
    using assms(2) that cstr_length [OF assms(1)] by (intro forward_ok_not_hit [where n = "Suc (length xs)"]) auto
qed

lemma strcpy_loop_cstr:
  "cstr m src xs \<Longrightarrow> forward_ok dst src (Suc (length xs)) \<Longrightarrow>
     strcpy_loop m dst src = Some (memcpy_loop m dst src (Suc (length xs)))"
proof (induction xs arbitrary: m dst src)
  case Nil
  then show ?case by (simp add: strcpy_loop.simps Let_def fun_upd_def)
next
  case (Cons x xs)
  from cstr_keep_step [OF Cons.prems(1)] Cons.prems(2)
  have c: "cstr (m(dst := m src)) (src + 1) xs" by simp
  have "strcpy_loop (m(dst := m src)) (dst + 1) (src + 1) =
      Some (memcpy_loop (m(dst := m src)) (dst + 1) (src + 1) (Suc (length xs)))"
    using Cons.prems(2) by (intro Cons.IH [OF c]) (auto intro: forward_ok_step)
  then show ?case using Cons.prems(1) by (subst strcpy_loop.simps) (auto simp: Let_def)
qed

subsection \<open>strncpy\<close>

lemma strncpy_fill_apply [mem_simps]:
  "strncpy_fill m d n a = (if unat (a - d) < unat (n - 1) then 0 else m a)"
proof (induction m d n rule: strncpy_fill.induct)
  case (1 m d n)
  show ?case
  proof (cases "n - 1 = 0")
    case True
    then show ?thesis by (subst strncpy_fill.simps) simp
  next
    case False
    then have e: "unat (n - 1) = Suc (unat (n - 1 - 1))"
      using unat_dec [of "n - 1"] unat_gt_0 [of "n - 1"] by simp
    then have "Suc (unat (n - 1 - 1)) \<le> 2 ^ 32" using unat_u32_le [of "n - 1"] by simp
    from unat_off_Suc [OF this, of a d] False 1 e show ?thesis
      by (subst strncpy_fill.simps) (auto simp: fun_upd_def)
  qed
qed

lemma strncpy_copy_cstr:
  "cstr m src xs \<Longrightarrow> forward_ok dst src (Suc (length xs)) \<Longrightarrow> length xs < unat n \<Longrightarrow>
     strncpy_copy m dst src n =
       (memcpy_loop m dst src (Suc (length xs)), dst + of_nat (Suc (length xs)), n - of_nat (length xs))"
proof (induction xs arbitrary: m dst src n)
  case Nil
  then show ?case by (subst strncpy_copy.simps) (simp add: Let_def)
next
  case (Cons x xs)
  have c: "cstr (m(dst := m src)) (src + 1) xs"
    using cstr_keep_step [OF Cons.prems(1)] Cons.prems(2) by simp
  have n0: "n \<noteq> 0" using Cons.prems(3) by auto
  have n: "n - 1 \<noteq> 0" "length xs < unat (n - 1)"
    using Cons.prems(3) unat_dec [OF n0] by auto
  have "strncpy_copy (m(dst := m src)) (dst + 1) (src + 1) (n - 1) =
      (memcpy_loop (m(dst := m src)) (dst + 1) (src + 1) (Suc (length xs)),
        dst + 1 + of_nat (Suc (length xs)), n - 1 - of_nat (length xs))"
    using Cons.prems(2) n by (intro Cons.IH [OF c]) (auto intro: forward_ok_step)
  then show ?case using Cons.prems(1) n by (subst strncpy_copy.simps) (auto simp: Let_def algebra_simps)
qed

lemma strncpy_copy_full:
  "(\<And>i. i < unat n \<Longrightarrow> m (src + of_nat i) \<noteq> 0) \<Longrightarrow> n \<noteq> 0 \<Longrightarrow>
     \<exists>m'. strncpy_copy m dst src n = (m', dst + n, 0)"
proof (induction m dst src n rule: strncpy_copy.induct)
  case (1 m dst src n)
  let ?m = "m(dst := m src)"
  have s: "m src \<noteq> 0" using "1.prems"(1) [of 0] "1.prems"(2) by (simp add: unat_gt_0)
  then have s': "?m src \<noteq> 0" by simp
  show ?case
  proof (cases "n - 1 = 0")
    case True
    then have "n = 1" by simp
    then show ?thesis using s' by (subst strncpy_copy.simps) (simp add: Let_def)
  next
    case False
    have "?m (src + 1 + of_nat i) \<noteq> 0" if "i < unat (n - 1)" for i
      using that s "1.prems"(1) [of "Suc i"] "1.prems"(2) unat_dec [of n] by (simp add: ac_simps)
    from "1.IH" [OF refl s' False this False] obtain m'
      where "strncpy_copy ?m (dst + 1) (src + 1) (n - 1) = (m', dst + 1 + (n - 1), 0)"
      by (auto simp: fun_upd_def)
    then show ?thesis using s' False by (subst strncpy_copy.simps) (auto simp: Let_def fun_upd_def)
  qed
qed

section \<open>Properties\<close>

lemma memcpy_loop_cstr_apply:
  assumes "cstr m src xs" "forward_ok dst src (Suc (length xs))"
  shows "memcpy_loop m dst src (Suc (length xs)) a =
    (if unat (a - dst) < length xs then xs ! unat (a - dst)
     else if unat (a - dst) = length xs then 0 else m a)"
proof -
  have "Suc (length xs) \<le> 2 ^ 32" using cstr_length [OF assms(1)] by simp
  moreover have "m (src + (a - dst)) = xs ! unat (a - dst)" if "unat (a - dst) < length xs"
    using cstr_nth [OF assms(1) that] by simp
  moreover have "m (src + (a - dst)) = 0" if "unat (a - dst) = length xs"
    using cstr_end [OF assms(1)] that [symmetric] by simp
  ultimately show ?thesis using memcpy_loop_apply [OF _ assms(2)] by (auto simp: less_Suc_eq)
qed

lemma cstrI:
  "(\<And>i. i < length xs \<Longrightarrow> m (p + of_nat i) = xs ! i \<and> xs ! i \<noteq> 0) \<Longrightarrow>
     m (p + of_nat (length xs)) = 0 \<Longrightarrow> cstr m p xs"
proof (induction xs arbitrary: p)
  case (Cons x xs)
  have "cstr m (p + 1) xs"
  proof (rule Cons.IH)
    fix i assume "i < length xs"
    then show "m (p + 1 + of_nat i) = xs ! i \<and> xs ! i \<noteq> 0"
      using Cons.prems(1) [of "Suc i"] by (simp add: ac_simps)
  qed (use Cons.prems(2) in \<open>simp add: ac_simps\<close>)
  then show ?case using Cons.prems(1) [of 0] by auto
qed simp

lemma unat_add_diff_of_nat: "i < 2 ^ 32 \<Longrightarrow> unat ((d :: u32) + of_nat i - d) = i"
  by (simp add: unat_of_nat take_bit_eq_mod)

text \<open>\<open>strcpy\<close> returns on every zero-terminated source that it does not overwrite ahead
  of its reads; afterwards the destination holds the same string, so \<open>strlen\<close> agrees and
  \<open>strcmp\<close> against the original text is zero, and no byte outside the copy changes.\<close>

theorem strcpy_copies_string:
  assumes "cstr m src xs" "forward_ok dst src (Suc (length xs))"
  shows "\<exists>m'. strcpy m dst src = Some (dst, m') \<and> cstr m' dst xs
    \<and> strlen m' dst = strlen m src
    \<and> (\<forall>a. length xs < unat (a - dst) \<longrightarrow> m' a = m a)"
proof -
  let ?m = "memcpy_loop m dst src (Suc (length xs))"
  have l: "length xs < 2 ^ 32" by (rule cstr_length [OF assms(1)])
  have "strcpy m dst src = Some (dst, ?m)"
    using strcpy_loop_cstr [OF assms] by (simp add: strcpy_def)
  moreover have c: "cstr ?m dst xs"
  proof (rule cstrI)
    fix i assume "i < length xs"
    with l show "?m (dst + of_nat i) = xs ! i \<and> xs ! i \<noteq> 0"
      using cstr_nth [OF assms(1)] unat_add_diff_of_nat [of i dst]
      by (simp only: memcpy_loop_cstr_apply [OF assms]) simp
  next
    show "?m (dst + of_nat (length xs)) = 0"
      using l unat_add_diff_of_nat [of "length xs" dst]
      by (simp only: memcpy_loop_cstr_apply [OF assms]) simp
  qed
  moreover have "strlen ?m dst = Some (length xs)" "strlen m src = Some (length xs)"
    using c assms(1) by (auto simp: strlen_eq_Some_iff)
  moreover have "\<forall>a. length xs < unat (a - dst) \<longrightarrow> ?m a = m a"
    by (simp only: memcpy_loop_cstr_apply [OF assms]) simp
  ultimately show ?thesis by metis
qed

definition demo_mem :: mem where
  "demo_mem = (\<lambda>a. 0)(0x100 := 72, 0x101 := 105)"

theorem strcpy_copies_string_witness:
  "\<exists>m'. strcpy demo_mem 0x200 0x100 = Some (0x200, m') \<and> cstr m' 0x200 [72, 105]
    \<and> strlen m' 0x200 = strlen demo_mem 0x100
    \<and> (\<forall>a. length [72 :: u8, 105] < unat (a - 0x200) \<longrightarrow> m' a = demo_mem a)"
proof (rule strcpy_copies_string)
  show "cstr demo_mem 0x100 [72, 105]" by (simp add: demo_mem_def)
  show "forward_ok 0x200 0x100 (Suc (length [72 :: u8, 105]))" by (simp add: forward_ok_def)
qed

text \<open>When the string fits (\<open>strlen(src) < n\<close>), \<open>strncpy\<close> writes the string, pads it
  with zeros up to \<open>n\<close> bytes, and changes nothing else.\<close>

theorem strncpy_fits:
  assumes "cstr m src xs" "forward_ok dst src (Suc (length xs))" "length xs < unat n"
  shows "fst (strncpy m dst src n) = dst
    \<and> snd (strncpy m dst src n) a =
        (if unat (a - dst) < length xs then xs ! unat (a - dst)
         else if a - dst < n then 0 else m a)"
proof -
  let ?k = "Suc (length xs)"
  have k: "?k \<le> unat n" using assms(3) by simp
  then have l: "?k < 4294967296" by (rule le_less_trans) simp
  have "n - of_nat (length xs) - 1 = n - of_nat ?k" by simp
  then have f: "unat (n - of_nat (length xs) - 1) = unat n - ?k"
    using k l by (simp only: unat_sub_if' unat_of_nat_u32 if_True)
  have o: "unat (a - (dst + of_nat ?k)) < unat n - ?k \<longleftrightarrow> ?k \<le> unat (a - dst) \<and> unat (a - dst) < unat n"
    using unat_off [of ?k "unat n - ?k" a dst] k by simp
  show ?thesis
    using k by (auto simp: strncpy_def strncpy_copy_cstr [OF assms] strncpy_fill_apply f o
        memcpy_loop_cstr_apply [OF assms(1,2)] word_less_nat_alt
        simp del: of_nat_Suc memcpy_loop.simps)
qed

theorem strncpy_fits_witness:
  "fst (strncpy demo_mem 0x200 0x100 4) = 0x200 \<and> snd (strncpy demo_mem 0x200 0x100 4) 0x201 = 105
   \<and> snd (strncpy demo_mem 0x200 0x100 4) 0x203 = 0"
proof -
  have c: "cstr demo_mem 0x100 [72, 105]" by (simp add: demo_mem_def)
  have f: "forward_ok 0x200 0x100 (Suc (length [72 :: u8, 105]))" by (simp add: forward_ok_def)
  have l: "length [72 :: u8, 105] < unat (4 :: u32)" by simp
  show ?thesis
    using strncpy_fits [OF c f l, of "0x201"] strncpy_fits [OF c f l, of "0x203"] by simp
qed

text \<open>when the first \<open>n\<close> bytes of the source hold no zero byte (\<open>strlen(src) >= n\<close>), the
  copy loop leaves \<open>n\<close> at zero and the fill loop's \<open>while(--n)\<close> wraps: \<open>strncpy\<close> clears the
  whole address space except one byte.\<close>

theorem strncpy_truncation_clears_memory:
  assumes "n \<noteq> 0" "\<And>i. i < unat n \<Longrightarrow> m (src + of_nat i) \<noteq> 0" "a \<noteq> dst + n - 1"
  shows "snd (strncpy m dst src n) a = 0"
proof -
  obtain m' where m': "strncpy_copy m dst src n = (m', dst + n, 0)"
    using strncpy_copy_full [of n m src dst] assms(1,2) by blast
  have "a - (dst + n) \<noteq> - 1" using assms(3) by (auto simp: algebra_simps)
  then have "unat (a - (dst + n)) \<noteq> unat (- 1 :: u32)" by (simp only: word_unat_eq_iff not_False_eq_True)
  moreover have m1: "unat (- 1 :: u32) = 4294967295"
    by (simp add: unsigned_minus_1_eq_mask mask_eq_exp_minus_1)
  moreover have "unat (a - (dst + n)) < 4294967296" by simp
  ultimately have "unat (a - (dst + n)) < unat (0 - 1 :: u32)"
    unfolding diff_0 m1 by arith
  then show ?thesis by (simp add: strncpy_def m' strncpy_fill_apply)
qed

theorem strncpy_truncation_witness:
  "snd (strncpy demo_mem 0x200 0x100 2) 0 = 0 \<and> snd (strncpy demo_mem 0x200 0x100 2) 0x100 = 0
   \<and> demo_mem 0x100 = 72"
proof -
  have z: "demo_mem (0x100 + of_nat i) \<noteq> 0" if "i < unat (2 :: u32)" for i
  proof -
    have "i = 0 \<or> i = 1" using that by (simp, arith)
    then show ?thesis by (auto simp: demo_mem_def)
  qed
  have c: "snd (strncpy demo_mem 0x200 0x100 2) a = 0" if "a \<noteq> 0x200 + 2 - 1" for a
    by (rule strncpy_truncation_clears_memory) (use z that in auto)
  show ?thesis using c [of 0] c [of "0x100"] by (simp add: demo_mem_def)
qed

end
