(* ===== verification/Arm_Machine.thy ===== *)
theory Arm_Machine
  imports Sth_Prelude
begin

text \<open>
  The machine under the hypervisor: address constants and descriptor macros
  (\<open>arm_common.h\<close>, \<open>mmu.h\<close>, \<open>hyper_config.h\<close>, \<open>types.h\<close>), the system coprocessor of
  \<open>cpu_cop.h\<close>, and the record of the state the C code reads and writes. A coprocessor write
  or barrier updates the register and is appended to a trace, newest first.
\<close>

section \<open>Constants\<close>

text \<open>The build of \<open>target\<close>: platform \<open>beagleboard\<close>, software \<open>trusted linux\<close>.\<close>

definition HAL_PHYS_START :: u32 where [simp]: "HAL_PHYS_START = 0x80000000"
definition HAL_VIRT_START :: u32 where [simp]: "HAL_VIRT_START = 0xF0000000"
definition HAL_OFFSET :: u32 where [simp]: "HAL_OFFSET = HAL_PHYS_START - HAL_VIRT_START"
definition GET_VIRT :: "u32 \<Rightarrow> u32" where "GET_VIRT phy = phy - HAL_OFFSET"
definition GET_PHYS :: "u32 \<Rightarrow> u32" where "GET_PHYS vir = vir + HAL_OFFSET"

lemma GET_VIRT_PHYS [simp]: "GET_VIRT (GET_PHYS a) = a" "GET_PHYS (GET_VIRT a) = a"
  by (simp_all add: GET_VIRT_def GET_PHYS_def)

lemma GET_PHYS_add: "GET_PHYS (a + k) = GET_PHYS a + k"
  by (simp add: GET_PHYS_def)

text \<open>Processor modes and interrupt masks.\<close>

definition ARM_MODE_USER :: u32 where [simp]: "ARM_MODE_USER = 0x10"
definition ARM_IRQ_MASK :: u32 where [simp]: "ARM_IRQ_MASK = 0x80"
definition ARM_FIQ_MASK :: u32 where [simp]: "ARM_FIQ_MASK = 0x40"
definition ARM_INTERRUPT_MASK :: u32 where
  [simp]: "ARM_INTERRUPT_MASK = ARM_IRQ_MASK OR ARM_FIQ_MASK"
definition IRQ_MASK :: u32 where [simp]: "IRQ_MASK = 0x80"

text \<open>Pages and translation-table descriptors.\<close>

definition PAGE_BITS :: nat where [simp]: "PAGE_BITS = 12"
definition PAGE_MASK :: u32 where [simp]: "PAGE_MASK = 0xFFF"
definition ADDR_TO_PAGE :: "u32 \<Rightarrow> u32" where "ADDR_TO_PAGE adr = drop_bit PAGE_BITS adr"
definition PAGE_TO_ADDR :: "u32 \<Rightarrow> u32" where "PAGE_TO_ADDR page = push_bit PAGE_BITS page"

definition MMU_AP_SUP_RW :: u32 where [simp]: "MMU_AP_SUP_RW = 1"
definition MMU_AP_USER_RO :: u32 where [simp]: "MMU_AP_USER_RO = 2"
definition MMU_AP_USER_RW :: u32 where [simp]: "MMU_AP_USER_RW = 3"
definition MMU_FLAG_B :: u32 where [simp]: "MMU_FLAG_B = 4"
definition MMU_FLAG_C :: u32 where [simp]: "MMU_FLAG_C = 8"

definition MMU_L1_INDEX :: "u32 \<Rightarrow> u32" where "MMU_L1_INDEX adr = drop_bit 20 adr"
definition MMU_L1_TYPE :: "u32 \<Rightarrow> u32" where "MMU_L1_TYPE v = v AND 3"
definition MMU_L1_TYPE_FAULT :: u32 where [simp]: "MMU_L1_TYPE_FAULT = 0"
definition MMU_L1_TYPE_COARSE :: u32 where [simp]: "MMU_L1_TYPE_COARSE = 1"
definition MMU_L1_TYPE_SECTION :: u32 where [simp]: "MMU_L1_TYPE_SECTION = 2"
definition MMU_L1_SECTION_ADR :: "u32 \<Rightarrow> u32" where "MMU_L1_SECTION_ADR adr = adr AND 0xFFF00000"
definition MMU_L1_SECTION_MASK :: u32 where [simp]: "MMU_L1_SECTION_MASK = 0xFFF00000"
definition MMU_L1_DOMAIN_MASK :: u32 where [simp]: "MMU_L1_DOMAIN_MASK = 0x1E0"
definition MMU_L1_DOMAIN_SHIFT :: nat where [simp]: "MMU_L1_DOMAIN_SHIFT = 5"
definition MMU_SECTION_AP_SHIFT :: nat where [simp]: "MMU_SECTION_AP_SHIFT = 10"
definition MMU_L1_SECTION_SHIFT :: nat where [simp]: "MMU_L1_SECTION_SHIFT = 20"
definition MMU_L1_SECTION_SIZE :: u32 where [simp]: "MMU_L1_SECTION_SIZE = 0x100000"
definition MMU_L1_PT_ADDR :: "u32 \<Rightarrow> u32" where "MMU_L1_PT_ADDR addr = addr AND 0xFFFFFC00"
definition MMU_L2_SMALL_ADDR :: "u32 \<Rightarrow> u32" where "MMU_L2_SMALL_ADDR addr = addr AND 0xFFFFF000"
definition MMU_L2_SMALL_AP_SHIFT :: nat where [simp]: "MMU_L2_SMALL_AP_SHIFT = 4"
definition MMU_L2_SMALL_AP_MASK :: u32 where [simp]: "MMU_L2_SMALL_AP_MASK = 3"
definition MMU_COARSE_TYPE_SMALL :: u32 where [simp]: "MMU_COARSE_TYPE_SMALL = 2"

text \<open>Guest modes and memory domains (\<open>guest_config/hyper_config.h\<close>, \<open>hyper.h\<close>).\<close>

definition HC_NGUESTMODES :: u32 where [simp]: "HC_NGUESTMODES = 4"
definition HC_GM_TRUSTED :: u32 where [simp]: "HC_GM_TRUSTED = 0"
definition HC_GM_KERNEL :: u32 where [simp]: "HC_GM_KERNEL = 1"
definition HC_GM_TASK :: u32 where [simp]: "HC_GM_TASK = 2"
definition HC_GM_INTERRUPT :: u32 where [simp]: "HC_GM_INTERRUPT = 3"
definition MODE_NONE :: u32 where [simp]: "MODE_NONE = - 1"
definition HC_DOM_DEFAULT :: u32 where [simp]: "HC_DOM_DEFAULT = 0"
definition HC_DOM_KERNEL :: u32 where [simp]: "HC_DOM_KERNEL = 1"
definition HC_DOM_TASK :: u32 where [simp]: "HC_DOM_TASK = 2"
definition HC_DOM_TRUSTED :: u32 where [simp]: "HC_DOM_TRUSTED = 3"
definition MAX_TRUSTED_SIZE :: u32 where [simp]: "MAX_TRUSTED_SIZE = 0x1000000"

text \<open>The memory map entries of the board tables (\<open>types.h\<close>).\<close>

datatype memory_layout_type =
    MLT_NONE | MLT_HYPER_RAM | MLT_HYPER_ROM | MLT_USER_RAM | MLT_USER_ROM
  | MLT_TRUSTED_RAM | MLT_IO_RW_REG | MLT_IO_RO_REG | MLT_IO_HYP_REG

section \<open>Coprocessor and machine state\<close>

text \<open>
  The \<open>p15\<close> registers named in \<open>cpu_cop.h\<close>. The first operand of \<open>mcr\<close>/\<open>mrc\<close> selects a bank:
  \<open>COP_ID_CPU\<close> is the main ID register in bank 0, the cache size register (CCSIDR) in bank 1
  and the cache selection register (CSSELR) in bank 2.
\<close>

datatype cop_reg =
    COP_ID_CPU | COP_ID_CACHE_CONTROL_ARMv7_CLIDR | COP_ID_MEMORY_MODEL_FEAT
  | COP_SYSTEM_CONTROL | COP_SYSTEM_TRANSLATION_TABLE0 | COP_SYSTEM_TRANSLATION_TABLE1
  | COP_SYSTEM_DOMAIN | COP_ICACHE_INVALIDATE_ALL | COP_BRANCH_PRED_INVAL_ALL
  | COP_DCACHE_INVALIDATE_MVA | COP_DCACHE_INVALIDATE_SW
  | COP_DCACHE_CLEAN_INVALIDATE_MVA | COP_DCACHE_CLEAN_INVALIDATE_SW
  | COP_TLB_INVALIDATE_ALL | COP_TLB_INVALIDATE_ALL_INST | COP_TLB_INVALIDATE_ALL_DATA
  | COP_TLB_INVALIDATE_MVA | COP_TLB_INVALIDATE_MVA_INST | COP_TLB_INVALIDATE_MVA_DATA
  | COP_TLB_INVALIDATE_ASID | COP_MEMORY_REMAP_PRRR | COP_MEMORY_REMAP_NMRR
  | COP_CONTEXT_ID_REGISTER | COP_SOFTWARE_THREAD_ID_USER_R
  | COP_FCSE_PID

datatype event = Mcr nat cop_reg u32 | Isb | Dsb

text \<open>
  \<open>hyper_pt_start\<close> is the linker symbol of the translation tables, \<open>uninit\<close> the value an
  uninitialised local variable happens to hold, and \<open>ccsidr_of\<close> the contents of the cache size
  register for each cache selection, which the processor defines.
\<close>

record machine =
  ram :: mem
  cop :: "nat \<Rightarrow> cop_reg \<Rightarrow> u32"
  ccsidr_of :: "u32 \<Rightarrow> u32"
  trace :: "event list"
  hyper_pt_start :: u32
  l2_index_p :: u32
  uninit :: u32

definition flpt_va :: "'a machine_scheme \<Rightarrow> u32" where
  "flpt_va s = hyper_pt_start s"

definition slpt_va :: "'a machine_scheme \<Rightarrow> u32" where
  "slpt_va s = hyper_pt_start s + 0x4000"

definition COP_WRITE2 :: "nat \<Rightarrow> cop_reg \<Rightarrow> u32 \<Rightarrow> 'a machine_scheme \<Rightarrow> 'a machine_scheme" where
  "COP_WRITE2 op1 func v s =
     s\<lparr>cop := (cop s)(op1 := (cop s op1)(func := v)), trace := Mcr op1 func v # trace s\<rparr>"

definition COP_WRITE :: "cop_reg \<Rightarrow> u32 \<Rightarrow> 'a machine_scheme \<Rightarrow> 'a machine_scheme" where
  "COP_WRITE func v s = COP_WRITE2 0 func v s"

definition COP_READ2 :: "nat \<Rightarrow> cop_reg \<Rightarrow> 'a machine_scheme \<Rightarrow> u32" where
  "COP_READ2 op1 func s =
     (if op1 = 1 \<and> func = COP_ID_CPU then ccsidr_of s (cop s 2 COP_ID_CPU) else cop s op1 func)"

definition COP_READ :: "cop_reg \<Rightarrow> 'a machine_scheme \<Rightarrow> u32" where
  "COP_READ func s = COP_READ2 0 func s"

definition isb :: "'a machine_scheme \<Rightarrow> 'a machine_scheme" where
  "isb s = s\<lparr>trace := Isb # trace s\<rparr>"

definition dsb :: "'a machine_scheme \<Rightarrow> 'a machine_scheme" where
  "dsb s = s\<lparr>trace := Dsb # trace s\<rparr>"

text \<open>Word access through a pointer.\<close>

definition rd :: "u32 \<Rightarrow> 'a machine_scheme \<Rightarrow> u32" where
  "rd a s = load32 (ram s) a"

definition wr :: "u32 \<Rightarrow> u32 \<Rightarrow> 'a machine_scheme \<Rightarrow> 'a machine_scheme" where
  "wr a v s = s\<lparr>ram := store32 (ram s) a v\<rparr>"

section \<open>Frame facts\<close>

text \<open>
  What each primitive leaves alone. The update forms are the simp rules of every later proof:
  a field read after a primitive is either the new value or the old field.
\<close>

lemma cop_write_simps [simp]:
  "ram (COP_WRITE2 b r v s) = ram s"
  "cop (COP_WRITE2 b r v s) = (cop s)(b := (cop s b)(r := v))"
  "ccsidr_of (COP_WRITE2 b r v s) = ccsidr_of s"
  "hyper_pt_start (COP_WRITE2 b r v s) = hyper_pt_start s"
  "l2_index_p (COP_WRITE2 b r v s) = l2_index_p s"
  "uninit (COP_WRITE2 b r v s) = uninit s"
  "trace (COP_WRITE2 b r v s) = Mcr b r v # trace s"
  "machine.more (COP_WRITE2 b r v s) = machine.more s"
  "ram (COP_WRITE r v s) = ram s"
  "cop (COP_WRITE r v s) = (cop s)(0 := (cop s 0)(r := v))"
  "ccsidr_of (COP_WRITE r v s) = ccsidr_of s"
  "hyper_pt_start (COP_WRITE r v s) = hyper_pt_start s"
  "l2_index_p (COP_WRITE r v s) = l2_index_p s"
  "uninit (COP_WRITE r v s) = uninit s"
  "trace (COP_WRITE r v s) = Mcr 0 r v # trace s"
  "machine.more (COP_WRITE r v s) = machine.more s"
  by (simp_all add: COP_WRITE_def COP_WRITE2_def)

lemma barrier_simps [simp]:
  "ram (isb s) = ram s" "ram (dsb s) = ram s"
  "cop (isb s) = cop s" "cop (dsb s) = cop s"
  "ccsidr_of (isb s) = ccsidr_of s" "ccsidr_of (dsb s) = ccsidr_of s"
  "hyper_pt_start (isb s) = hyper_pt_start s" "hyper_pt_start (dsb s) = hyper_pt_start s"
  "l2_index_p (isb s) = l2_index_p s" "l2_index_p (dsb s) = l2_index_p s"
  "uninit (isb s) = uninit s" "uninit (dsb s) = uninit s"
  "trace (isb s) = Isb # trace s" "trace (dsb s) = Dsb # trace s"
  "machine.more (isb s) = machine.more s" "machine.more (dsb s) = machine.more s"
  by (simp_all add: isb_def dsb_def)

lemma wr_simps [simp]:
  "ram (wr a v s) = store32 (ram s) a v"
  "cop (wr a v s) = cop s" "ccsidr_of (wr a v s) = ccsidr_of s"
  "hyper_pt_start (wr a v s) = hyper_pt_start s" "l2_index_p (wr a v s) = l2_index_p s"
  "uninit (wr a v s) = uninit s" "trace (wr a v s) = trace s"
  "machine.more (wr a v s) = machine.more s"
  by (simp_all add: wr_def)

lemma flpt_slpt_simps [simp]:
  "hyper_pt_start s = hyper_pt_start t \<Longrightarrow> flpt_va s = flpt_va t \<longleftrightarrow> True"
  "hyper_pt_start s = hyper_pt_start t \<Longrightarrow> slpt_va s = slpt_va t \<longleftrightarrow> True"
  by (simp_all add: flpt_va_def slpt_va_def)

lemma rd_frame [simp]:
  "rd a (COP_WRITE r v s) = rd a s" "rd a (COP_WRITE2 b r v s) = rd a s"
  "rd a (isb s) = rd a s" "rd a (dsb s) = rd a s"
  by (simp_all add: rd_def)

lemma rd_wr_same [simp]: "rd a (wr a v s) = v"
  by (simp add: rd_def)

lemma rd_wr_aligned [mem_simps]:
  "a AND 3 = 0 \<Longrightarrow> b AND 3 = 0 \<Longrightarrow> rd b (wr a v s) = (if a = b then v else rd b s)"
  by (simp add: rd_def load32_store32_aligned)

text \<open>A machine with empty memory, used by the concrete instances.\<close>

definition demo_machine :: machine where
  "demo_machine = \<lparr>ram = (\<lambda>_. 0), cop = (\<lambda>_ _. 0), ccsidr_of = (\<lambda>_. 0), trace = [],
     hyper_pt_start = 0xF0080000, l2_index_p = 0, uninit = 0\<rparr>"

end
