(* ===== verification/Arm_Mmu.thy ===== *)
theory Arm_Mmu
  imports Uc_String Arm_Machine
begin

text \<open>
  The translation-table code of \<open>arm_mmu_pt.c\<close>: writing section descriptors, handing out
  second-level tables and filling them with small pages. The specification is the ARM
  short-descriptor walk \<open>walk\<close>: what the memory management unit reads out of the tables.
\<close>

section \<open>The code\<close>

definition map_section :: "u32 \<Rightarrow> u32 \<Rightarrow> u32 \<Rightarrow> bool \<Rightarrow> 'a machine_scheme \<Rightarrow> 'a machine_scheme" where
  "map_section page_dir va pa cache s =
     (let page_attr =
            (if cache
             then push_bit MMU_SECTION_AP_SHIFT MMU_AP_SUP_RW OR MMU_FLAG_C OR MMU_FLAG_B
                  OR MMU_L1_TYPE_SECTION
             else push_bit MMU_SECTION_AP_SHIFT 3 OR MMU_L1_TYPE_SECTION)
      in wr (page_dir + 4 * drop_bit 20 va) ((pa AND 0xFFF00000) OR page_attr) s)"

definition pt_get_empty_l2 :: "'a machine_scheme \<Rightarrow> u32 \<times> 'a machine_scheme" where
  "pt_get_empty_l2 s =
     (if 0x8000 < l2_index_p s * 0x400 then (0, s)
      else let index = l2_index_p s * 0x400
           in (GET_PHYS (slpt_va s) + index,
               s\<lparr>ram := snd (memset (ram s) (slpt_va s + index) 0 0x400),
                 l2_index_p := l2_index_p s + 1\<rparr>))"

definition pt_create_section ::
  "u32 \<Rightarrow> u32 \<Rightarrow> u32 \<Rightarrow> memory_layout_type \<Rightarrow> 'a machine_scheme \<Rightarrow> bool \<times> 'a machine_scheme" where
  "pt_create_section l1 va pa mem_type s =
     (let index = drop_bit 20 va;
          val = rd (l1 + 4 * index) s;
          typ = MMU_L1_TYPE val
      in if va AND NOT MMU_L1_SECTION_MASK = 0 \<and> typ = MMU_L1_TYPE_FAULT
         then let val = (pa OR 0x12) OR push_bit MMU_SECTION_AP_SHIFT MMU_AP_USER_RW
              in if mem_type = MLT_USER_RAM
                 then (True, wr (l1 + 4 * index)
                        ((val AND NOT 0x10) OR 0xC OR push_bit MMU_L1_DOMAIN_SHIFT HC_DOM_KERNEL) s)
                 else if mem_type = MLT_TRUSTED_RAM
                 then (True, wr (l1 + 4 * index)
                        ((val AND NOT 0x10) OR 0xC OR push_bit MMU_L1_DOMAIN_SHIFT HC_DOM_TRUSTED) s)
                 else (False, s)
         else (False, s))"

text \<open>The switch of \<open>pt_create_coarse\<close>: flags, domain and access permission. It has no default
  case, so for any other type the last two are whatever the locals held.\<close>

definition coarse_attr :: "memory_layout_type \<Rightarrow> u32 \<Rightarrow> u32 \<times> u32 \<times> u32" where
  "coarse_attr mem_type junk =
     (case mem_type of
        MLT_TRUSTED_RAM \<Rightarrow> (MMU_FLAG_B OR MMU_FLAG_C, HC_DOM_TRUSTED, MMU_AP_USER_RW)
      | MLT_IO_HYP_REG \<Rightarrow> (1, HC_DOM_DEFAULT, MMU_AP_SUP_RW)
      | MLT_IO_RW_REG \<Rightarrow> (1, HC_DOM_DEFAULT, MMU_AP_USER_RW)
      | MLT_IO_RO_REG \<Rightarrow> (1, HC_DOM_DEFAULT, MMU_AP_USER_RO)
      | MLT_USER_RAM \<Rightarrow> (MMU_FLAG_B OR MMU_FLAG_C, HC_DOM_KERNEL, MMU_AP_USER_RW)
      | MLT_USER_ROM \<Rightarrow> (MMU_FLAG_B OR MMU_FLAG_C, HC_DOM_DEFAULT, MMU_AP_USER_RO)
      | _ \<Rightarrow> (MMU_FLAG_B OR MMU_FLAG_C, junk, junk))"

fun coarse_fill :: "nat \<Rightarrow> u32 \<Rightarrow> u32 \<Rightarrow> u32 \<Rightarrow> u32 \<Rightarrow> mem \<Rightarrow> mem" where
  "coarse_fill 0 table2 slpt_index pa attr m = m"
| "coarse_fill (Suc count) table2 slpt_index pa attr m =
     coarse_fill count table2 (slpt_index + 1) (pa + 0x1000) attr
       (store32 m (table2 + 4 * slpt_index) (pa OR attr))"

definition pt_create_coarse ::
  "u32 \<Rightarrow> u32 \<Rightarrow> u32 \<Rightarrow> u32 \<Rightarrow> memory_layout_type \<Rightarrow> 'a machine_scheme \<Rightarrow> bool \<times> 'a machine_scheme" where
  "pt_create_coarse pt va pa sz mem_type s =
     (let index = MMU_L1_INDEX va;
          val = rd (pt + 4 * index) s;
          type_old = MMU_L1_TYPE val;
          (flags, domain, ap) = coarse_attr mem_type (uninit s);
          (table2_pa, s1) =
            (if type_old = MMU_L1_TYPE_FAULT
             then let (table2_pa, s0) = pt_get_empty_l2 s
                  in if table2_pa = 0 then (0, s0)
                     else (table2_pa,
                       wr (pt + 4 * index)
                         (table2_pa OR push_bit MMU_L1_DOMAIN_SHIFT domain OR MMU_L1_TYPE_COARSE) s0)
             else (MMU_L1_PT_ADDR val, s))
      in if type_old = MMU_L1_TYPE_FAULT \<and> table2_pa = 0 then (False, s1)
         else (True,
           s1\<lparr>ram := coarse_fill (unat (drop_bit 12 sz)) (GET_VIRT table2_pa)
                (drop_bit 12 (va AND 0x000FF000)) pa
                (push_bit 4 ap OR flags OR MMU_COARSE_TYPE_SMALL) (ram s1)\<rparr>))"

definition pt_map :: "u32 \<Rightarrow> u32 \<Rightarrow> u32 \<Rightarrow> memory_layout_type \<Rightarrow> 'a machine_scheme \<Rightarrow> bool \<times> 'a machine_scheme" where
  "pt_map va pa sz mem_type s = pt_create_coarse (hyper_pt_start s) va pa sz mem_type s"

section \<open>The specification: the table walk\<close>

text \<open>
  A successful walk gives the physical address, the domain of the first-level descriptor and
  the access permission.
\<close>

definition walk :: "'a machine_scheme \<Rightarrow> u32 \<Rightarrow> u32 \<Rightarrow> (u32 \<times> u32 \<times> u32) option" where
  "walk s l1 va =
     (let d = rd (l1 + 4 * drop_bit 20 va) s;
          dmn = drop_bit 5 d AND 0xF
      in if MMU_L1_TYPE d = 2
         then Some ((d AND NOT (mask 20)) OR take_bit 20 va, dmn, drop_bit 10 d AND 3)
         else if MMU_L1_TYPE d = 1
         then let e = rd (GET_VIRT (d AND NOT (mask 10)) + 4 * take_bit 8 (drop_bit 12 va)) s
              in if e AND 2 \<noteq> 0
                 then Some ((e AND NOT (mask 12)) OR take_bit 12 va, dmn, drop_bit 4 e AND 3)
                 else None
         else None)"

section \<open>Word facts about descriptors\<close>

lemma section_index:
  assumes "aligned 20 va" "unat off < 2 ^ 20"
  shows "drop_bit 20 (va + off) = drop_bit 20 va" "take_bit 20 (va + off) = off"
proof -
  have t: "take_bit 20 off = off" by (rule take_bit_less_u32 [OF assms(2)])
  have e: "va + off = va OR off" by (rule aligned_add_or [OF assms(1) t])
  show "drop_bit 20 (va + off) = drop_bit 20 va"
    unfolding e using t by (intro bit_word_eqI) (auto simp: bit_simps dest: low_bit)
  show "take_bit 20 (va + off) = off"
    unfolding e using assms(1) t
    by (intro bit_word_eqI) (auto simp: bit_simps dest: low_bit aligned_bit)
qed

text \<open>A descriptor \<open>pa OR k\<close> of an aligned address and low flags: the type, domain and access
  bits come from \<open>k\<close>, the address from \<open>pa\<close>.\<close>

lemma aligned_or_low:
  assumes "aligned n pa" "take_bit n j = j"
  shows "(pa OR k) AND j = k AND j"
  by (simp add: word_ao_dist aligned_and_low [OF assms])

lemma aligned_or_field:
  assumes "aligned n pa" "take_bit n (push_bit i j) = push_bit i j"
  shows "drop_bit i (pa OR k) AND j = drop_bit i k AND j"
proof (rule bit_word_eqI)
  fix b
  assume "b < LENGTH(32)"
  have "\<not> bit pa (i + b)" if "bit j b" "i + b < 32"
  proof
    assume "bit pa (i + b)"
    moreover have "i + b < n" by (rule low_bit [OF assms(2)]) (use that in \<open>simp add: bit_simps\<close>)
    ultimately show False using aligned_bit [OF assms(1)] by fastforce
  qed
  moreover have "\<not> bit pa (i + b)" if "\<not> i + b < 32" using that bit_imp_le_length [of pa "i + b"] by auto
  ultimately show "bit (drop_bit i (pa OR k) AND j) b = bit (drop_bit i k AND j) b"
    by (auto simp: bit_simps)
qed

section \<open>Sections\<close>

lemma rd_table_wr:
  "aligned 2 l1 \<Longrightarrow> unat i < 2 ^ 30 \<Longrightarrow> unat j < 2 ^ 30 \<Longrightarrow>
     rd (l1 + 4 * j) (wr (l1 + 4 * i) v s) = (if i = j then v else rd (l1 + 4 * j) s)"
  by (simp add: rd_def load32_store32_al aligned_index4 index4_eq_iff del: add_left_cancel)

definition section_dom :: "memory_layout_type \<Rightarrow> u32" where
  "section_dom t = (if t = MLT_USER_RAM then HC_DOM_KERNEL else HC_DOM_TRUSTED)"

lemma section_desc:
  assumes "aligned 20 pa"
  shows "(((pa OR 0x12) OR push_bit 10 3) AND NOT 0x10) OR 0xC OR k = pa OR (0xC0E OR k)"
proof -
  have "pa AND NOT 0x10 = pa" by (rule aligned_and_keep [OF assms]) simp
  moreover have "pa OR 0xC02 OR 0xC OR k = pa OR ((0xC02 OR 0xC) OR k)" by (simp only: or.assoc)
  ultimately show ?thesis by (simp add: word_ao_dist or.assoc)
qed

lemma pt_create_section_eq:
  assumes "aligned 20 pa"
  shows "pt_create_section l1 va pa t s =
    (if aligned 20 va \<and> rd (l1 + 4 * drop_bit 20 va) s AND 3 = 0 \<and> (t = MLT_USER_RAM \<or> t = MLT_TRUSTED_RAM)
     then (True, wr (l1 + 4 * drop_bit 20 va) (pa OR (0xC0E OR push_bit 5 (section_dom t))) s)
     else (False, s))"
proof -
  have "va AND NOT MMU_L1_SECTION_MASK = 0 \<longleftrightarrow> aligned 20 va"
    by (simp only: aligned_def take_bit_eq_mask MMU_L1_SECTION_MASK_def NOT_section_mask)
  then show ?thesis
    using section_desc [OF assms, of "push_bit 5 1"] section_desc [OF assms, of "push_bit 5 3"]
    by (auto simp: pt_create_section_def MMU_L1_TYPE_def section_dom_def Let_def)
qed

lemma walk_section:
  assumes "aligned 20 va" "unat off < 2 ^ 20" "aligned 20 pa"
    and d: "rd (l1 + 4 * drop_bit 20 va) s = pa OR k" and k: "take_bit 20 k = k" "k AND 3 = 2"
  shows "walk s l1 (va + off) = Some (pa + off, drop_bit 5 k AND 0xF, drop_bit 10 k AND 3)"
proof -
  have t: "take_bit 20 off = off" by (rule take_bit_less_u32 [OF assms(2)])
  have "(pa OR k) AND 3 = 2" using aligned_or_low [OF assms(3), of 3 k] k(2) by simp
  moreover have "drop_bit 5 (pa OR k) AND 0xF = drop_bit 5 k AND 0xF"
    by (rule aligned_or_field [OF assms(3)]) simp
  moreover have "drop_bit 10 (pa OR k) AND 3 = drop_bit 10 k AND 3"
    by (rule aligned_or_field [OF assms(3)]) simp
  ultimately show ?thesis
    using d aligned_or_high [OF assms(3) k(1)] aligned_add_or [OF assms(3) t]
    by (simp only: walk_def Let_def section_index [OF assms(1,2)] MMU_L1_TYPE_def) simp
qed

text \<open>C12: a section that \<open>pt_create_section\<close> reports created is what the table walk finds: every
  address of the megabyte maps to the same offset of \<open>pa\<close>, in the kernel domain for user RAM and
  in the trusted domain for trusted RAM, with user read-write access; no other first-level
  descriptor changes, and a section is only ever created where none was mapped.\<close>

theorem create_section_walk:
  assumes "pt_create_section l1 va pa t s = (True, s')"
    and "aligned 20 pa" "aligned 2 l1" "unat off < 2 ^ 20"
  shows "walk s' l1 (va + off) = Some (pa + off, section_dom t, MMU_AP_USER_RW)
    \<and> (\<forall>j. unat j < 4096 \<and> j \<noteq> drop_bit 20 va \<longrightarrow> rd (l1 + 4 * j) s' = rd (l1 + 4 * j) s)
    \<and> MMU_L1_TYPE (rd (l1 + 4 * drop_bit 20 va) s) = MMU_L1_TYPE_FAULT"
  using assms unat_drop_bit_20 [of va]
  by (auto simp: pt_create_section_eq walk_section rd_table_wr section_dom_def MMU_L1_TYPE_def
      split: if_splits)

theorem create_section_walk_witness:
  "walk (snd (pt_create_section 0xF0080000 0xF0100000 0x80100000 MLT_TRUSTED_RAM demo_machine))
     0xF0080000 (0xF0100000 + 0x1234) = Some (0x80100000 + 0x1234, 3, 3)"
proof -
  let ?r = "pt_create_section 0xF0080000 0xF0100000 0x80100000 MLT_TRUSTED_RAM demo_machine"
  have "?r = (True, snd ?r)"
    by (simp add: pt_create_section_eq aligned_def demo_machine_def rd_def load32_def)
  from create_section_walk [OF this, of "0x1234"] show ?thesis
    by (simp add: aligned_def section_dom_def)
qed

section \<open>Second-level tables\<close>

lemma coarse_fill_frame:
  assumes "aligned 2 t2" "aligned 2 b" "\<And>k. k < n \<Longrightarrow> b \<noteq> t2 + 4 * (i + of_nat k)"
  shows "load32 (coarse_fill n t2 i pa at m) b = load32 m b"
  using assms(3)
proof (induction n arbitrary: i pa m)
  case (Suc n)
  have "b \<noteq> t2 + 4 * (i + 1 + of_nat k)" if "k < n" for k
    using Suc.prems [of "Suc k"] that by (simp add: algebra_simps)
  moreover have "b \<noteq> t2 + 4 * i" using Suc.prems [of 0] by simp
  ultimately show ?case using assms(1,2) by (simp add: Suc.IH load32_store32_al aligned_index4)
qed simp

lemma coarse_fill_entry:
  assumes "aligned 2 t2" "k < n" "n \<le> 2 ^ 20"
  shows "load32 (coarse_fill n t2 i pa at m) (t2 + 4 * (i + of_nat k)) = (pa + 0x1000 * of_nat k) OR at"
  using assms(2,3)
proof (induction n arbitrary: i pa m k)
  case (Suc n)
  show ?case
  proof (cases k)
    case 0
    have "t2 + 4 * i \<noteq> t2 + 4 * (i + 1 + of_nat k')" if "k' < n" for k'
    proof
      assume "t2 + 4 * i = t2 + 4 * (i + 1 + of_nat k')"
      then have "4 * (of_nat (Suc k') :: u32) = 0" by (simp add: algebra_simps)
      moreover have "unat (4 * (of_nat (Suc k') :: u32)) = 4 * Suc k'"
        using that Suc.prems by (subst unat_4_mult) (simp_all del: of_nat_Suc)
      ultimately show False by simp
    qed
    then show ?thesis
      using assms(1) 0 by (simp add: coarse_fill_frame aligned_index4)
  next
    case (Suc k')
    have "load32 (coarse_fill n t2 (i + 1) (pa + 0x1000) at (store32 m (t2 + 4 * i) (pa OR at)))
        (t2 + 4 * (i + 1 + of_nat k')) = (pa + 0x1000 + 0x1000 * of_nat k') OR at"
      using Suc.prems Suc by (intro Suc.IH) auto
    then show ?thesis using Suc by (simp add: algebra_simps)
  qed
qed simp

definition l2_next :: "'a machine_scheme \<Rightarrow> u32" where
  "l2_next s = slpt_va s + l2_index_p s * 0x400"

text \<open>The tables are where the linker script puts them: 16K-aligned, first-level then second-level.\<close>

definition tables_ok :: "'a machine_scheme \<Rightarrow> bool" where
  "tables_ok s \<longleftrightarrow> aligned 14 (hyper_pt_start s) \<and> l2_index_p s * 0x400 \<le> 0x8000"

lemma l2_next_aligned: "tables_ok s \<Longrightarrow> aligned 10 (l2_next s)"
proof -
  assume "tables_ok s"
  then have "aligned 10 (hyper_pt_start s)" by (auto simp: tables_ok_def intro: aligned_le)
  moreover have "aligned 10 (0x400 * l2_index_p s)" by (rule aligned_mult) (simp add: aligned_def)
  moreover have "aligned 10 (0x4000 :: u32)" by (simp add: aligned_def)
  ultimately show ?thesis
    by (auto simp: l2_next_def slpt_va_def mult.commute intro!: aligned_add)
qed

lemma l1_l2_far:
  assumes "tables_ok s" "unat i < 4096"
  shows "0x400 \<le> unat (hyper_pt_start s + 4 * i - l2_next s)"
    and "unat (hyper_pt_start s + 4 * i - l2_next s) + 4 \<le> 2 ^ 32"
    and "unat j < 256 \<Longrightarrow> hyper_pt_start s + 4 * i \<noteq> l2_next s + 4 * j"
proof -
  let ?x = "l2_index_p s * 0x400"
  have x: "unat ?x \<le> 0x8000" using assms(1) by (simp add: tables_ok_def word_le_nat_alt)
  have i: "unat (4 * i) = 4 * unat i" using assms(2) by (intro unat_4_mult) simp
  have y: "unat (0x4000 + ?x) = 0x4000 + unat ?x" using x by (simp add: unat_word_ariths)
  have e: "hyper_pt_start s + 4 * i - l2_next s = 4 * i - (0x4000 + ?x)"
    by (simp add: l2_next_def slpt_va_def)
  have u: "unat (4 * i - (0x4000 + ?x)) = 4 * unat i + 4294967296 - (0x4000 + unat ?x)"
    using i y assms(2) x by (subst unat_sub_if') (simp add: word_size)
  show f: "0x400 \<le> unat (hyper_pt_start s + 4 * i - l2_next s)"
    and "unat (hyper_pt_start s + 4 * i - l2_next s) + 4 \<le> 2 ^ 32"
    unfolding e u using x assms(2) by simp_all
  assume j: "unat j < 256"
  then have "unat (4 * j) < 0x400" by (subst unat_4_mult) simp_all
  then show "hyper_pt_start s + 4 * i \<noteq> l2_next s + 4 * j" using f by auto
qed

lemma pt_get_empty_l2_eq:
  "tables_ok s \<Longrightarrow> pt_get_empty_l2 s =
     (GET_PHYS (l2_next s), s\<lparr>ram := snd (memset (ram s) (l2_next s) 0 0x400),
        l2_index_p := l2_index_p s + 1\<rparr>)"
  by (auto simp: pt_get_empty_l2_def tables_ok_def l2_next_def GET_PHYS_add Let_def)

lemma rd_l1_after_l2_clear:
  "tables_ok s \<Longrightarrow> unat i < 4096 \<Longrightarrow>
     load32 (snd (memset (ram s) (l2_next s) v 0x400)) (hyper_pt_start s + 4 * i) =
       rd (hyper_pt_start s + 4 * i) s"
  using l1_l2_far(1,2) [of s i] by (simp add: memset_def load32_memset_other rd_def)

text \<open>What the types with a case in the switch give.\<close>

definition coarse_type :: "memory_layout_type \<Rightarrow> bool" where
  "coarse_type t \<longleftrightarrow> t \<in> {MLT_TRUSTED_RAM, MLT_IO_HYP_REG, MLT_IO_RW_REG, MLT_IO_RO_REG,
     MLT_USER_RAM, MLT_USER_ROM}"

lemma coarse_attr_fields:
  assumes "coarse_type t" "coarse_attr t junk = (flags, dmn, ap)"
  shows "take_bit 10 (push_bit 5 dmn OR 1) = push_bit 5 dmn OR 1"
    "(push_bit 5 dmn OR 1) AND 3 = 1" "drop_bit 5 (push_bit 5 dmn OR 1) AND 0xF = dmn"
    "take_bit 12 (push_bit 4 ap OR flags OR 2) = push_bit 4 ap OR flags OR 2"
    "(push_bit 4 ap OR flags OR 2) AND 2 = 2" "drop_bit 4 (push_bit 4 ap OR flags OR 2) AND 3 = ap"
  using assms by (auto simp: coarse_type_def coarse_attr_def)

lemma pt_create_coarse_fresh_eq:
  assumes "tables_ok s" "GET_PHYS (l2_next s) \<noteq> 0"
    and "rd (hyper_pt_start s + 4 * drop_bit 20 va) s AND 3 = 0"
    and "coarse_attr t (uninit s) = (flags, dmn, ap)"
  shows "pt_create_coarse (hyper_pt_start s) va pa sz t s =
    (True, s\<lparr>l2_index_p := l2_index_p s + 1,
       ram := coarse_fill (unat (drop_bit 12 sz)) (l2_next s) (drop_bit 12 (va AND 0x000FF000)) pa
         (push_bit 4 ap OR flags OR 2)
         (store32 (snd (memset (ram s) (l2_next s) 0 0x400)) (hyper_pt_start s + 4 * drop_bit 20 va)
           (GET_PHYS (l2_next s) OR (push_bit 5 dmn OR 1)))\<rparr>)"
  using assms
  by (simp add: pt_create_coarse_def pt_get_empty_l2_eq MMU_L1_INDEX_def MMU_L1_TYPE_def Let_def
      wr_def or.assoc)

lemma page_split:
  fixes V O' :: nat
  assumes "V mod 4096 = 0" "V div 4096 mod 256 + O' div 4096 < 256"
  shows "(V + O') div 1048576 = V div 1048576"
    and "(V + O') div 4096 mod 256 = V div 4096 mod 256 + O' div 4096"
    and "(V + O') mod 4096 = O' mod 4096"
proof -
  obtain q where q: "V = 4096 * q" using assms(1) by auto
  obtain i r where qi: "q = 256 * i + r" "r < 256"
    by (rule that [of "q div 256" "q mod 256"]) simp_all
  define p where "p = O' div 4096"
  have r: "V div 4096 mod 256 = r" using q qi by simp
  have rp: "r + p < 256" using assms(2) r p_def by simp
  have d: "(V + O') div 4096 = 256 * i + (r + p)" using q qi p_def by simp
  have "(V + O') div 4096 div 256 = i" unfolding d using rp by simp
  moreover have "V div 4096 div 256 = i" using qi q by simp
  ultimately have "(V + O') div 4096 div 256 = V div 4096 div 256" by simp
  then show "(V + O') div 1048576 = V div 1048576"
    by (simp only: div_mult2_eq [of _ 4096 256, simplified])
  show "(V + O') div 4096 mod 256 = V div 4096 mod 256 + O' div 4096"
    unfolding d r using rp p_def by simp
  show "(V + O') mod 4096 = O' mod 4096" using q by simp
qed

lemma page_index:
  assumes "aligned 12 va" "unat (take_bit 8 (drop_bit 12 va)) + n \<le> 256" "unat off < 4096 * n"
  shows "drop_bit 20 (va + off) = drop_bit 20 va"
    and "take_bit 8 (drop_bit 12 (va + off)) = take_bit 8 (drop_bit 12 va) + of_nat (unat off div 4096)"
    and "take_bit 12 (va + off) = take_bit 12 off" and "unat off div 4096 < n"
proof -
  let ?V = "unat va" and ?O = "unat off"
  have a: "?V mod 4096 = 0" using assms(1) by (simp add: aligned_unat)
  have j: "unat (take_bit 8 (drop_bit 12 va)) = ?V div 4096 mod 256"
    by (simp add: unat_take_bit_u32 unat_drop_bit_u32)
  show k: "?O div 4096 < n" using assms(3) by (simp add: div_less_iff_less_mult mult.commute)
  then have jk: "?V div 4096 mod 256 + ?O div 4096 < 256" using assms(2) j by simp
  note sp = page_split [OF a jk]
  have "(?V + ?O) div 1048576 < 4096"
    using sp(1) unat_u32_less [of va] by (simp add: div_less_iff_less_mult)
  then have s: "unat (va + off) = ?V + ?O"
    by (simp add: unat_word_ariths div_less_iff_less_mult)
  show "drop_bit 20 (va + off) = drop_bit 20 va"
    using sp(1) by (simp add: word_unat_eq_iff unat_drop_bit_u32 s)
  have "unat (of_nat (?O div 4096) :: u32) = ?O div 4096" using jk by (intro unat_of_nat_u32) simp
  then have "unat (take_bit 8 (drop_bit 12 va) + of_nat (?O div 4096)) = ?V div 4096 mod 256 + ?O div 4096"
    using jk j by (simp only: unat_word_ariths j) simp
  then show "take_bit 8 (drop_bit 12 (va + off)) =
      take_bit 8 (drop_bit 12 va) + of_nat (?O div 4096)"
    using sp(2) by (simp only: word_unat_eq_iff) (simp add: unat_take_bit_u32 unat_drop_bit_u32 s)
  show "take_bit 12 (va + off) = take_bit 12 off"
    using sp(3) by (simp add: word_unat_eq_iff unat_take_bit_u32 s)
qed

lemma page_offset: "(off :: u32) = 0x1000 * of_nat (unat off div 4096) + take_bit 12 off"
proof -
  have l: "unat off div 4096 * 4096 \<le> unat off" by simp
  have "unat off div 4096 < 4294967296" using unat_u32_less [of off] by linarith
  then have "unat (0x1000 * of_nat (unat off div 4096) :: u32) = 4096 * (unat off div 4096)"
    using le_less_trans [OF l unat_u32_less]
    by (simp only: unat_word_ariths unat_of_nat_u32) (simp add: mult.commute)
  then show ?thesis
    using unat_u32_less [of off]
    by (simp only: word_unat_eq_iff unat_word_ariths(1) unat_take_bit_u32) simp
qed

text \<open>C13: \<open>pt_create_coarse\<close> on an unmapped megabyte builds a second-level table that the walk
  reads back: every address of the \<open>size >> 12\<close> pages from \<open>va\<close> maps to the same offset from
  \<open>pa\<close>, with the domain and the access permission the switch gives for the memory type. The
  pages must not run past the table's 256 entries, which the function does not check.\<close>

theorem create_coarse_walk:
  assumes "pt_create_coarse (hyper_pt_start s) va pa sz t s = (True, s')" "tables_ok s"
    and "rd (hyper_pt_start s + 4 * drop_bit 20 va) s AND 3 = 0"
    and "coarse_type t" "coarse_attr t (uninit s) = (flags, dmn, ap)"
    and "aligned 12 va" "aligned 12 pa"
    and "unat (take_bit 8 (drop_bit 12 va)) + unat (drop_bit 12 sz) \<le> 256"
    and "unat off < 4096 * unat (drop_bit 12 sz)"
  shows "walk s' (hyper_pt_start s) (va + off) = Some (pa + off, dmn, ap)"
proof -
  let ?H = "hyper_pt_start s" and ?t2 = "l2_next s" and ?n = "unat (drop_bit 12 sz)"
  let ?i = "drop_bit 20 va" and ?j = "take_bit 8 (drop_bit 12 va)" and ?k = "unat off div 4096"
  let ?at = "push_bit 4 ap OR flags OR 2" and ?d = "push_bit 5 dmn OR 1"
  note cf = coarse_attr_fields [OF assms(4,5)]
  note pg = page_index [OF assms(6,8,9)]
  have ne: "GET_PHYS ?t2 \<noteq> 0"
    using assms(1-3) by (auto simp: pt_create_coarse_def pt_get_empty_l2_eq MMU_L1_INDEX_def
        MMU_L1_TYPE_def Let_def split: prod.splits)
  have ji: "drop_bit 12 (va AND 0x000FF000) = ?j"
    by (simp add: drop_bit_and take_bit_eq_mask mask_eq_exp_minus_1)
  have t2: "aligned 2 ?t2" "aligned 10 ?t2" "aligned 2 ?H"
    using l2_next_aligned [OF assms(2)] assms(2) by (auto simp: tables_ok_def intro: aligned_le)
  have n: "?n \<le> 256" and i: "unat ?i < 4096" using assms(8) unat_drop_bit_20 by simp_all
  let ?m = "store32 (snd (memset (ram s) ?t2 0 0x400)) (?H + 4 * ?i) (GET_PHYS ?t2 OR ?d)"
  have r: "ram s' = coarse_fill ?n ?t2 ?j pa ?at ?m"
    using assms(1) pt_create_coarse_fresh_eq [OF assms(2) ne assms(3,5)] ji by auto
  have "?H + 4 * ?i \<noteq> ?t2 + 4 * (?j + of_nat k)" if "k < ?n" for k
  proof (rule l1_l2_far(3) [OF assms(2) i])
    have "unat (of_nat k :: u32) = k" using that n by (intro unat_of_nat_u32) simp
    then show "unat (?j + of_nat k) < 256" using that assms(8) by (simp add: unat_word_ariths)
  qed
  then have d: "rd (?H + 4 * ?i) s' = GET_PHYS ?t2 OR ?d"
    using t2 by (simp add: rd_def r coarse_fill_frame aligned_index4)
  have e: "rd (?t2 + 4 * (?j + of_nat ?k)) s' = (pa + 0x1000 * of_nat ?k) OR ?at"
    unfolding rd_def r using pg(4) n by (intro coarse_fill_entry t2(1)) simp_all
  have al: "aligned 10 (GET_PHYS ?t2)"
    using t2(2) by (auto simp: GET_PHYS_def aligned_def [of 10 "0x70000000"] intro!: aligned_diff)
  have ap: "aligned 12 (pa + 0x1000 * of_nat ?k)"
    using assms(7) by (intro aligned_add aligned_mult) (simp_all add: aligned_def)
  have o: "off = 0x1000 * of_nat ?k + take_bit 12 off"
    by (rule page_offset)
  have "take_bit 12 (take_bit 12 off) = take_bit 12 off" by simp
  from aligned_add_or [OF ap this] have po: "(pa + 0x1000 * of_nat ?k) OR take_bit 12 off = pa + off"
    by (subst (3) o) (simp only: add.assoc)
  have "(GET_PHYS ?t2 OR ?d) AND 3 = 1"
    using aligned_or_low [OF al, of 3 ?d] cf(2) by simp
  moreover have "drop_bit 5 (GET_PHYS ?t2 OR ?d) AND 0xF = dmn"
    using aligned_or_field [OF al, of 5 "0xF" ?d] cf(3) by simp
  moreover have "(pa + 0x1000 * of_nat ?k OR ?at) AND 2 = 2"
    using aligned_or_low [OF ap, of 2 ?at] cf(5) by simp
  moreover have "drop_bit 4 (pa + 0x1000 * of_nat ?k OR ?at) AND 3 = ap"
    using aligned_or_field [OF ap, of 4 3 ?at] cf(6) by simp
  ultimately show ?thesis
    using aligned_or_high [OF al cf(1)] aligned_or_high [OF ap cf(4)] po
    by (simp only: walk_def Let_def MMU_L1_TYPE_def pg(1-3) d e GET_VIRT_PHYS) simp
qed

theorem create_coarse_walk_witness:
  "walk (snd (pt_create_coarse 0xF0080000 0xFA002000 0x48002000 0x2000 MLT_IO_RO_REG demo_machine))
     0xF0080000 (0xFA002000 + 0x1010) = Some (0x48002000 + 0x1010, HC_DOM_DEFAULT, MMU_AP_USER_RO)"
proof -
  let ?r = "pt_create_coarse (hyper_pt_start demo_machine) 0xFA002000 0x48002000 0x2000 MLT_IO_RO_REG demo_machine"
  have H: "hyper_pt_start demo_machine = 0xF0080000" by (simp add: demo_machine_def)
  have t: "tables_ok demo_machine" by (simp add: tables_ok_def aligned_def demo_machine_def)
  have z: "rd a demo_machine = 0" for a by (simp add: rd_def load32_def demo_machine_def)
  have a: "coarse_attr MLT_IO_RO_REG (uninit demo_machine) = (1, HC_DOM_DEFAULT, MMU_AP_USER_RO)"
    by (simp add: coarse_attr_def)
  have "GET_PHYS (l2_next demo_machine) \<noteq> 0"
    by (simp add: GET_PHYS_def l2_next_def slpt_va_def demo_machine_def)
  then have "?r = (True, snd ?r)"
    by (subst (1 2) pt_create_coarse_fresh_eq [OF t _ _ a]) (simp_all add: z)
  from create_coarse_walk [OF this t _ _ a, of "0x1010"] show ?thesis
    by (simp add: z coarse_type_def aligned_def H)
qed

end
