(* ===== verification/Arm_Cpu.thy ===== *)
theory Arm_Cpu
  imports Arm_Machine
begin

text \<open>
  Cache, TLB and start-up code of the ARMv7-A port: \<open>armv7a/cpu_mem.c\<close>, \<open>armv7a/cpu_init.c\<close>
  and the register helpers of \<open>arm_mmu.S\<close>. The maintenance loops are modelled as they run, one
  coprocessor write at a time, so that their traces can be compared with the cache geometry.
\<close>

section \<open>TLB\<close>

definition mem_mmu_tlb_invalidate_all :: "bool \<Rightarrow> bool \<Rightarrow> 'a machine_scheme \<Rightarrow> 'a machine_scheme" where
  "mem_mmu_tlb_invalidate_all inst data s =
     (if inst \<and> data then COP_WRITE COP_TLB_INVALIDATE_ALL 0 s
      else if inst then COP_WRITE COP_TLB_INVALIDATE_ALL_INST 0 s
      else if data then COP_WRITE COP_TLB_INVALIDATE_ALL_DATA 0 s
      else s)"

definition mem_mmu_tlb_invalidate_one ::
  "bool \<Rightarrow> bool \<Rightarrow> u32 \<Rightarrow> 'a machine_scheme \<Rightarrow> 'a machine_scheme" where
  "mem_mmu_tlb_invalidate_one inst data virtual_addr s =
     (if inst \<and> data then COP_WRITE COP_TLB_INVALIDATE_MVA virtual_addr s
      else if inst then COP_WRITE COP_TLB_INVALIDATE_MVA_INST virtual_addr s
      else if data then COP_WRITE COP_TLB_INVALIDATE_MVA_DATA virtual_addr s
      else s)"

section \<open>Caches\<close>

function log2_loop :: "u32 \<Rightarrow> int \<Rightarrow> int" where
  "log2_loop temp log2n = (if temp \<noteq> 0 then log2_loop (drop_bit 1 temp) (log2n + 1) else log2n)"
  by pat_completeness auto
termination
proof (relation "measure (\<lambda>(temp, _). unat temp)")
  fix temp :: u32 and log2n :: int
  assume "temp \<noteq> 0"
  then show "((drop_bit 1 temp, log2n + 1), temp, log2n) \<in> measure (\<lambda>(temp, _). unat temp)"
    using unat_gt_0 [of temp] by (simp add: unat_drop_bit_u32)
qed simp

declare log2_loop.simps [simp del]

definition log_2_n_round_up :: "u32 \<Rightarrow> int" where
  "log_2_n_round_up n =
     (let log2n = log2_loop n (- 1) in if n AND (n - 1) \<noteq> 0 then log2n + 1 else log2n)"

text \<open>The word that selects a line: level, set and way, and the write for one line.\<close>

definition setway_word :: "u32 \<Rightarrow> nat \<Rightarrow> nat \<Rightarrow> nat \<Rightarrow> nat \<Rightarrow> u32" where
  "setway_word level log2_line_len way_shift way st =
     push_bit 1 level OR push_bit log2_line_len (of_nat st) OR push_bit way_shift (of_nat way)"

definition setway_reg :: "bool \<Rightarrow> cop_reg" where
  "setway_reg clean_it =
     (if clean_it then COP_DCACHE_CLEAN_INVALIDATE_SW else COP_DCACHE_INVALIDATE_SW)"

fun setway_sets :: "u32 \<Rightarrow> bool \<Rightarrow> nat \<Rightarrow> nat \<Rightarrow> nat \<Rightarrow> nat \<Rightarrow> 'a machine_scheme \<Rightarrow> 'a machine_scheme" where
  "setway_sets level clean_it line way_shift way 0 s = s"
| "setway_sets level clean_it line way_shift way (Suc st) s =
     setway_sets level clean_it line way_shift way st
       (COP_WRITE (setway_reg clean_it) (setway_word level line way_shift way st) s)"

fun setway_ways :: "u32 \<Rightarrow> bool \<Rightarrow> nat \<Rightarrow> nat \<Rightarrow> nat \<Rightarrow> nat \<Rightarrow> 'a machine_scheme \<Rightarrow> 'a machine_scheme" where
  "setway_ways level clean_it line way_shift num_sets 0 s = s"
| "setway_ways level clean_it line way_shift num_sets (Suc way) s =
     setway_ways level clean_it line way_shift num_sets way
       (setway_sets level clean_it line way_shift way num_sets s)"

text \<open>The geometry fields of a cache size word.\<close>

definition ccsidr_line :: "u32 \<Rightarrow> nat" where
  "ccsidr_line ccsidr = unat (ccsidr AND 7) + 2 + 2"
definition ccsidr_ways :: "u32 \<Rightarrow> nat" where
  "ccsidr_ways ccsidr = unat (drop_bit 3 (ccsidr AND push_bit 3 0x3FF)) + 1"
definition ccsidr_sets :: "u32 \<Rightarrow> nat" where
  "ccsidr_sets ccsidr = unat (drop_bit 13 (ccsidr AND push_bit 13 0x7FFF)) + 1"
definition way_shift_of :: "u32 \<Rightarrow> nat" where
  "way_shift_of ccsidr = nat (32 - log_2_n_round_up (of_nat (ccsidr_ways ccsidr)))"

definition setway :: "u32 \<Rightarrow> bool \<Rightarrow> 'a machine_scheme \<Rightarrow> 'a machine_scheme" where
  "setway level clean_it s =
     (let csselr = push_bit 1 level OR 0;
          s = COP_WRITE2 2 COP_ID_CPU csselr s;
          ccsidr = COP_READ2 1 COP_ID_CPU s
      in dsb (setway_ways level clean_it (ccsidr_line ccsidr) (way_shift_of ccsidr)
           (ccsidr_sets ccsidr) (ccsidr_ways ccsidr) s))"

fun icache_levels :: "nat \<Rightarrow> nat \<Rightarrow> u32 \<Rightarrow> bool \<Rightarrow> 'a machine_scheme \<Rightarrow> 'a machine_scheme" where
  "icache_levels 0 level clidr clean_it s = s"
| "icache_levels (Suc n) level clidr clean_it s =
     (let cache_type = drop_bit (3 * level) clidr AND 7;
          s = (if cache_type = 2 \<or> cache_type = 3 \<or> cache_type = 4
               then setway (of_nat level) clean_it s else s)
      in icache_levels n (Suc level) clidr clean_it s)"

definition mem_icache_invalidate :: "bool \<Rightarrow> 'a machine_scheme \<Rightarrow> 'a machine_scheme" where
  "mem_icache_invalidate clean_it s =
     icache_levels 8 0 (COP_READ2 1 COP_ID_CACHE_CONTROL_ARMv7_CLIDR s) clean_it s"

definition mem_cache_set_enable :: "bool \<Rightarrow> 'a machine_scheme \<Rightarrow> 'a machine_scheme" where
  "mem_cache_set_enable enable s =
     (let tmp = COP_READ COP_SYSTEM_CONTROL s;
          tmp = (if enable then tmp OR (0x1000 OR 4) else tmp AND NOT (0x1000 OR 4))
      in COP_WRITE COP_SYSTEM_CONTROL tmp s)"

definition mem_cache_invalidate :: "bool \<Rightarrow> bool \<Rightarrow> bool \<Rightarrow> 'a machine_scheme \<Rightarrow> 'a machine_scheme" where
  "mem_cache_invalidate inst_inv data_inv data_writeback s =
     (let s = (if data_inv then mem_icache_invalidate data_writeback s else s)
      in if inst_inv then COP_WRITE COP_ICACHE_INVALIDATE_ALL 1 s else s)"

text \<open>The do-while loop over an address range; it does not return when no line address is at or
  above \<open>end\<close>, because \<open>next\<close> then wraps round for ever.\<close>

datatype cache_op = FLUSH | CLEAN

definition dcache_reg :: "cache_op \<Rightarrow> cop_reg" where
  "dcache_reg op = (case op of FLUSH \<Rightarrow> COP_DCACHE_CLEAN_INVALIDATE_MVA | CLEAN \<Rightarrow> COP_DCACHE_INVALIDATE_MVA)"

partial_function (option) dcache_loop ::
  "cop_reg \<Rightarrow> u32 \<Rightarrow> u32 \<Rightarrow> u32 \<Rightarrow> 'a machine_scheme \<Rightarrow> 'a machine_scheme option" where
  "dcache_loop r next cache_size lim s =
     (let s = COP_WRITE r next s; next = next + cache_size
      in if next < lim then dcache_loop r next cache_size lim s else Some s)"

definition mem_cache_dcache_area :: "u32 \<Rightarrow> u32 \<Rightarrow> cache_op \<Rightarrow> 'a machine_scheme \<Rightarrow> 'a machine_scheme res" where
  "mem_cache_dcache_area va sz op s =
     (let csidr = COP_READ2 1 COP_ID_CPU s AND 7;
          cache_size = push_bit (unat csidr) 16
      in case dcache_loop (dcache_reg op) va cache_size (va + sz) s of
           None \<Rightarrow> Inl (Endless_loop ''mem_cache_dcache_area'')
         | Some s \<Rightarrow> Inr (dsb s))"

section \<open>MMU registers and start-up\<close>

definition mem_mmu_set_domain :: "u32 \<Rightarrow> 'a machine_scheme \<Rightarrow> 'a machine_scheme" where
  "mem_mmu_set_domain domain s = COP_WRITE COP_SYSTEM_DOMAIN domain s"

definition mem_mmu_set_translation_table :: "u32 \<Rightarrow> 'a machine_scheme \<Rightarrow> 'a machine_scheme" where
  "mem_mmu_set_translation_table base s = COP_WRITE COP_SYSTEM_TRANSLATION_TABLE0 base s"

definition mem_mmu_set_enable :: "bool \<Rightarrow> 'a machine_scheme \<Rightarrow> 'a machine_scheme" where
  "mem_mmu_set_enable enable s =
     (let r1 = COP_READ COP_SYSTEM_CONTROL s
      in COP_WRITE COP_SYSTEM_CONTROL (if enable then r1 OR 1 else r1 AND NOT 1) s)"

definition mem_mmu_pid_set :: "u32 \<Rightarrow> 'a machine_scheme \<Rightarrow> 'a machine_scheme" where
  "mem_mmu_pid_set pid s = COP_WRITE COP_FCSE_PID (push_bit 25 pid) s"

definition mem_mmu_pid_get :: "'a machine_scheme \<Rightarrow> u32" where
  "mem_mmu_pid_get s = drop_bit 25 (COP_READ COP_FCSE_PID s)"

definition cpu_init :: "'a machine_scheme \<Rightarrow> 'a machine_scheme" where
  "cpu_init s =
     (let s = mem_cache_set_enable True (mem_cache_invalidate True True True s);
          pt = GET_PHYS (hyper_pt_start s);
          ttb_flags = pt OR 0x41 OR push_bit 3 3;
          s = COP_WRITE COP_SYSTEM_TRANSLATION_TABLE1 ttb_flags s;
          s = COP_WRITE COP_MEMORY_REMAP_PRRR 0xFF0a81A8 s;
          s = COP_WRITE COP_MEMORY_REMAP_NMRR 0x40E040e0 s;
          mmu_config = COP_READ COP_SYSTEM_CONTROL s;
          mmu_config = mmu_config AND NOT 0x0120c302;
          mmu_config = mmu_config OR 0x10c03c7d;
          s = COP_WRITE COP_SYSTEM_CONTROL mmu_config s
      in mem_cache_set_enable True s)"

section \<open>Rounding up the logarithm\<close>

lemma log2_loop_bounds:
  "n \<noteq> 0 \<Longrightarrow> \<exists>e. log2_loop n k = k + 1 + int e \<and> 2 ^ e \<le> unat n \<and> unat n < 2 ^ Suc e"
proof (induction n k rule: log2_loop.induct)
  case (1 n k)
  have d: "unat (drop_bit 1 n) = unat n div 2" by (simp add: unat_drop_bit_u32)
  show ?case
  proof (cases "drop_bit 1 n = 0")
    case True
    then have "unat n div 2 = 0" using d by simp
    then have "unat n = 1" using 1(2) unat_gt_0 [of n] by linarith
    then show ?thesis
      using 1(2) True by (intro exI [of _ 0]) (simp add: log2_loop.simps [of n] log2_loop.simps [of 0])
  next
    case False
    from 1(1) [OF 1(2) False] obtain e where
      e: "log2_loop (drop_bit 1 n) (k + 1) = k + 1 + 1 + int e"
        "2 ^ e \<le> unat n div 2" "unat n div 2 < 2 ^ Suc e" unfolding d by blast
    then show ?thesis using 1(2)
      by (intro exI [of _ "Suc e"]) (auto simp: log2_loop.simps [of n])
  qed
qed

lemma bit_top:
  fixes x :: u32
  assumes "2 ^ e \<le> unat x" "unat x < 2 ^ Suc e"
  shows "bit x e"
proof -
  have "unat x div 2 ^ e = 1" using assms by (intro div_nat_eqI) auto
  then have "bit (unat x) e" by (simp add: bit_iff_odd)
  then show ?thesis by (simp add: bit_unsigned_iff)
qed

lemma and_minus_1_zero_iff:
  fixes n :: u32
  assumes "2 ^ e \<le> unat n" "unat n < 2 ^ Suc e"
  shows "n AND (n - 1) = 0 \<longleftrightarrow> unat n = 2 ^ e"
proof
  have e: "e < 32"
    using bit_imp_le_length [OF bit_top [OF assms]] by simp
  have n0: "n \<noteq> 0" using assms(1) by auto
  show "unat n = 2 ^ e" if z: "n AND (n - 1) = 0"
  proof (rule ccontr)
    assume "unat n \<noteq> 2 ^ e"
    then have "bit (n - 1) e"
      using assms unat_dec [OF n0] by (intro bit_top) simp_all
    then have "bit (n AND (n - 1)) e" using bit_top [OF assms] by (simp add: bit_and_iff)
    then show False using z by simp
  qed
  show "n AND (n - 1) = 0" if u: "unat n = 2 ^ e"
  proof -
    have "n = of_nat (unat n)" by simp
    then have "n = 2 ^ e" using u by simp
    then have "n = push_bit e 1" "n - 1 = mask e" by (simp_all add: push_bit_eq_mult mask_eq_exp_minus_1)
    then show ?thesis by (intro bit_word_eqI) (auto simp: bit_simps)
  qed
qed

text \<open>\<open>log_2_n_round_up\<close> returns the least exponent whose power of two reaches \<open>n\<close>.\<close>

lemma log_2_n_round_up_least:
  assumes "n \<noteq> 0"
  shows "\<exists>k. log_2_n_round_up n = int k \<and> unat n \<le> 2 ^ k \<and> (\<forall>j. unat n \<le> 2 ^ j \<longrightarrow> k \<le> j)"
proof -
  obtain e where e: "log2_loop n (- 1) = int e" "2 ^ e \<le> unat n" "unat n < 2 ^ Suc e"
    using log2_loop_bounds [OF assms, of "- 1"] by auto
  show ?thesis
  proof (cases "unat n = 2 ^ e")
    case True
    then show ?thesis using e and_minus_1_zero_iff [OF e(2,3)]
      by (intro exI [of _ e]) (simp add: log_2_n_round_up_def Let_def)
  next
    case False
    have "Suc e \<le> j" if "unat n \<le> 2 ^ j" for j
    proof (rule ccontr)
      assume "\<not> Suc e \<le> j"
      then have "(2 :: nat) ^ j \<le> 2 ^ e" by (intro power_increasing) simp_all
      then have "unat n \<le> 2 ^ e" using that by (rule order.trans [rotated])
      then show False using e(2) False by (metis le_antisym)
    qed
    then show ?thesis using e False and_minus_1_zero_iff [OF e(2,3)]
      by (intro exI [of _ "Suc e"]) (simp add: log_2_n_round_up_def Let_def)
  qed
qed

section \<open>Cache maintenance by set and way\<close>

lemma setway_sets_trace:
  "trace (setway_sets level c line ws way n s) =
     map (\<lambda>st. Mcr 0 (setway_reg c) (setway_word level line ws way st)) [0..<n] @ trace s"
  by (induction n arbitrary: s) simp_all

lemma setway_ways_trace:
  "trace (setway_ways level c line ws sets n s) =
     concat (map (\<lambda>way. map (\<lambda>st. Mcr 0 (setway_reg c) (setway_word level line ws way st)) [0..<sets]) [0..<n])
     @ trace s"
  by (induction n arbitrary: s) (simp_all add: setway_sets_trace)

lemma setway_sets_frame [simp]:
  "ram (setway_sets level c line ws way n s) = ram s"
  "hyper_pt_start (setway_sets level c line ws way n s) = hyper_pt_start s"
  "l2_index_p (setway_sets level c line ws way n s) = l2_index_p s"
  "uninit (setway_sets level c line ws way n s) = uninit s"
  "ccsidr_of (setway_sets level c line ws way n s) = ccsidr_of s"
  "machine.more (setway_sets level c line ws way n s) = machine.more s"
  "r \<noteq> setway_reg c \<Longrightarrow> cop (setway_sets level c line ws way n s) 0 r = cop s 0 r"
  by (induction n arbitrary: s) simp_all

lemma setway_ways_frame [simp]:
  "ram (setway_ways level c line ws sets n s) = ram s"
  "hyper_pt_start (setway_ways level c line ws sets n s) = hyper_pt_start s"
  "l2_index_p (setway_ways level c line ws sets n s) = l2_index_p s"
  "uninit (setway_ways level c line ws sets n s) = uninit s"
  "ccsidr_of (setway_ways level c line ws sets n s) = ccsidr_of s"
  "machine.more (setway_ways level c line ws sets n s) = machine.more s"
  "r \<noteq> setway_reg c \<Longrightarrow> cop (setway_ways level c line ws sets n s) 0 r = cop s 0 r"
  by (induction n arbitrary: s) simp_all

lemma and_mask_less:
  fixes w :: u32
  assumes "m = mask k" "k < 32"
  shows "unat (w AND m) < 2 ^ k"
  using assms unat_take_bit_u32 [of k w] by (simp add: take_bit_eq_mask)

lemma ccsidr_ways_le: "ccsidr_ways w \<le> 1024"
proof -
  have "unat (drop_bit 3 w AND 0x3FF) < 2 ^ 10"
    by (rule and_mask_less) (simp_all add: mask_eq_exp_minus_1)
  then show ?thesis by (simp add: ccsidr_ways_def drop_bit_and)
qed

lemma log2_ways:
  "1 \<le> n \<Longrightarrow> n \<le> 1024 \<Longrightarrow>
     \<exists>k. log_2_n_round_up (of_nat n) = int k \<and> n \<le> 2 ^ k \<and> k \<le> 10"
proof -
  assume n: "1 \<le> n" "n \<le> 1024"
  then have u: "unat (of_nat n :: u32) = n" by (intro unat_of_nat_u32) simp
  then have "(of_nat n :: u32) \<noteq> 0" using n by (metis not_one_le_zero unat_0)
  from log_2_n_round_up_least [OF this] u n show ?thesis by force
qed

lemma take_bit_of_nat_u32: "n < 2 ^ k \<Longrightarrow> k \<le> 32 \<Longrightarrow> take_bit k (of_nat n :: u32) = of_nat n"
proof (rule take_bit_less_u32)
  assume "n < 2 ^ k" "k \<le> 32"
  moreover from this have "(2 :: nat) ^ k \<le> 2 ^ 32" by (intro power_increasing) simp_all
  ultimately show "unat (of_nat n :: u32) < 2 ^ k" by (subst unat_of_nat_u32) simp_all
qed

lemma join3_fields:
  fixes L S W :: u32
  assumes "take_bit line L = L" "take_bit (ws - line) S = S" "take_bit (32 - ws) W = W" "line \<le> ws" "ws \<le> 32"
  shows "drop_bit ws (L OR push_bit line S OR push_bit ws W) = W"
    and "take_bit (ws - line) (drop_bit line (L OR push_bit line S OR push_bit ws W)) = S"
proof -
  note b = low_bit [OF assms(1)] low_bit [OF assms(2)] low_bit [OF assms(3)]
  show "drop_bit ws (L OR push_bit line S OR push_bit ws W) = W"
  proof (rule bit_word_eqI)
    fix i
    show "bit (drop_bit ws (L OR push_bit line S OR push_bit ws W)) i = bit W i"
      using b(1) [of "ws + i"] b(2) [of "ws + i - line"] b(3) [of i] assms(4)
      by (auto simp: bit_simps)
  qed
  show "take_bit (ws - line) (drop_bit line (L OR push_bit line S OR push_bit ws W)) = S"
  proof (rule bit_word_eqI)
    fix i assume "i < LENGTH(32)"
    then show "bit (take_bit (ws - line) (drop_bit line (L OR push_bit line S OR push_bit ws W))) i = bit S i"
      using b(1) [of "line + i"] b(2) [of i] assms(4,5) bit_imp_le_length [of S i]
      by (auto simp: bit_simps)
  qed
qed

lemma setway_word_fields:
  assumes "level < 8" "st < 2 ^ (ws - line)" "way < 2 ^ (32 - ws)" "4 \<le> line" "line \<le> ws" "ws \<le> 32"
  shows "drop_bit ws (setway_word level line ws way st) = of_nat way"
    and "take_bit (ws - line) (drop_bit line (setway_word level line ws way st)) = of_nat st"
proof -
  have "unat level < 8" using assms(1) by (simp add: word_less_nat_alt)
  then have "unat (push_bit 1 level) < 2 ^ 4"
    by (simp add: push_bit_eq_mult unat_word_ariths)
  then have "take_bit 4 (push_bit 1 level) = push_bit 1 level" by (rule take_bit_less_u32)
  then have "take_bit line (push_bit 1 level) = push_bit 1 level"
    using assms(4) by (metis min.absorb2 take_bit_take_bit)
  moreover have "take_bit (ws - line) (of_nat st :: u32) = of_nat st"
    using assms(2,6) by (intro take_bit_of_nat_u32) simp_all
  moreover have "take_bit (32 - ws) (of_nat way :: u32) = of_nat way"
    using assms(3) by (intro take_bit_of_nat_u32) simp_all
  ultimately show "drop_bit ws (setway_word level line ws way st) = of_nat way"
    and "take_bit (ws - line) (drop_bit line (setway_word level line ws way st)) = of_nat st"
    unfolding setway_word_def using join3_fields assms(5,6) by blast+
qed

lemma setway_trace:
  "trace (setway level c s) =
     (let w = ccsidr_of s (push_bit 1 level) in
      Dsb # concat (map (\<lambda>way. map (\<lambda>st. Mcr 0 (setway_reg c)
          (setway_word level (ccsidr_line w) (way_shift_of w) way st))
        [0..<ccsidr_sets w]) [0..<ccsidr_ways w]) @ Mcr 2 COP_ID_CPU (push_bit 1 level) # trace s)"
  by (simp add: setway_def Let_def COP_READ2_def setway_ways_trace)

lemma way_shift_ok: "22 \<le> way_shift_of w \<and> way_shift_of w \<le> 32 \<and> ccsidr_ways w \<le> 2 ^ (32 - way_shift_of w)"
proof -
  have "1 \<le> ccsidr_ways w" by (simp add: ccsidr_ways_def)
  from log2_ways [OF this ccsidr_ways_le] obtain k where
    k: "log_2_n_round_up (of_nat (ccsidr_ways w)) = int k" "ccsidr_ways w \<le> 2 ^ k" "k \<le> 10" by blast
  then have "way_shift_of w = 32 - k" by (simp add: way_shift_of_def)
  then show ?thesis using k by simp
qed

lemma ccsidr_line_bounds: "4 \<le> ccsidr_line w \<and> ccsidr_line w \<le> 11"
proof -
  have "unat (w AND 7) < 2 ^ 3" by (rule and_mask_less) (simp_all add: mask_eq_exp_minus_1)
  then show ?thesis by (simp add: ccsidr_line_def)
qed


definition demo_cache :: machine where
  "demo_cache = demo_machine\<lparr>ccsidr_of := (\<lambda>_. 0x200A)\<rparr>"


section \<open>Cache maintenance by address\<close>

lemma fold_cop_frame [simp]:
  "ram (fold (COP_WRITE r) vs s) = ram s"
  "hyper_pt_start (fold (COP_WRITE r) vs s) = hyper_pt_start s"
  "l2_index_p (fold (COP_WRITE r) vs s) = l2_index_p s"
  "uninit (fold (COP_WRITE r) vs s) = uninit s"
  "ccsidr_of (fold (COP_WRITE r) vs s) = ccsidr_of s"
  "machine.more (fold (COP_WRITE r) vs s) = machine.more s"
  "trace (fold (COP_WRITE r) vs s) = rev (map (Mcr 0 r) vs) @ trace s"
  by (induction vs arbitrary: s) simp_all

lemma fold_cop_other: "r' \<noteq> r \<or> b \<noteq> 0 \<Longrightarrow> cop (fold (COP_WRITE r) vs s) b r' = cop s b r'"
  by (induction vs arbitrary: s) auto

lemma dcache_loop_returns:
  fixes cs :: u32
  assumes "0 < unat cs" "unat lim + unat cs \<le> 2 ^ 32" "unat nxt + unat cs < 2 ^ 32"
  shows "\<exists>k. dcache_loop r nxt cs lim s =
      Some (fold (COP_WRITE r) (map (\<lambda>i. nxt + of_nat i * cs) [0..<Suc k]) s)
    \<and> unat lim \<le> unat nxt + Suc k * unat cs"
  using assms
proof (induction "unat lim - unat nxt" arbitrary: nxt s rule: less_induct)
  case less
  have u: "unat (nxt + cs) = unat nxt + unat cs" using less.prems by (simp add: unat_word_ariths)
  show ?case
  proof (cases "nxt + cs < lim")
    case False
    then have "unat lim \<le> unat nxt + unat cs" using u by (simp add: word_less_nat_alt)
    then show ?thesis using False
      by (intro exI [of _ 0]) (simp add: dcache_loop.simps [of r nxt])
  next
    case True
    then have l: "unat nxt + unat cs < unat lim" using u by (simp add: word_less_nat_alt)
    have "unat lim - unat (nxt + cs) < unat lim - unat nxt" "unat (nxt + cs) + unat cs < 2 ^ 32"
      using l u less.prems by simp_all
    from less.hyps [OF this(1) less.prems(1,2) this(2), of "COP_WRITE r nxt s"] obtain k where
      k: "dcache_loop r (nxt + cs) cs lim (COP_WRITE r nxt s) =
        Some (fold (COP_WRITE r) (map (\<lambda>i. nxt + cs + of_nat i * cs) [0..<Suc k]) (COP_WRITE r nxt s))"
        "unat lim \<le> unat (nxt + cs) + Suc k * unat cs" by blast
    have m: "map (\<lambda>i. nxt + of_nat i * cs) [0..<Suc (Suc k)] =
        nxt # map (\<lambda>i. nxt + cs + of_nat i * cs) [0..<Suc k]"
      by (subst upt_conv_Cons) (simp_all add: map_Suc_upt [symmetric] algebra_simps del: upt_Suc)
    show ?thesis
      using True k u unfolding m [symmetric]
      by (intro exI [of _ "Suc k"]) (simp add: dcache_loop.simps [of r nxt] Let_def m del: upt_Suc)
  qed
qed

lemma dcache_loop_SomeD:
  assumes "dcache_loop r nxt cs lim s = Some s'"
  shows "\<exists>k. lim \<le> nxt + of_nat (Suc k) * cs"
proof (rule dcache_loop.raw_induct
    [where P = "\<lambda>r nxt cs lim s s'. \<exists>k. lim \<le> nxt + of_nat (Suc k) * cs", OF _ assms])
  fix f :: "cop_reg \<Rightarrow> u32 \<Rightarrow> u32 \<Rightarrow> u32 \<Rightarrow> 'a machine_scheme \<Rightarrow> 'a machine_scheme option"
  fix r nxt cs lim s s'
  assume IH: "\<And>r nxt cs lim s s'. f r nxt cs lim s = Some s' \<Longrightarrow> \<exists>k. lim \<le> nxt + of_nat (Suc k) * cs"
    and e: "(let s = COP_WRITE r nxt s; nxt = nxt + cs
      in if nxt < lim then f r nxt cs lim s else Some s) = Some s'"
  show "\<exists>k. lim \<le> nxt + of_nat (Suc k) * cs"
  proof (cases "nxt + cs < lim")
    case True
    with e have "f r (nxt + cs) cs lim (COP_WRITE r nxt s) = Some s'" by (simp add: Let_def)
    from IH [OF this] obtain k where "lim \<le> nxt + cs + of_nat (Suc k) * cs" by blast
    then show ?thesis by (intro exI [of _ "Suc k"]) (simp add: algebra_simps)
  next
    case False
    then show ?thesis by (intro exI [of _ 0]) simp
  qed
qed

definition line_size :: "'a machine_scheme \<Rightarrow> nat" where
  "line_size s = 2 ^ (4 + unat (COP_READ2 1 COP_ID_CPU s AND 7))"

lemma line_size_unat: "unat (push_bit (unat (COP_READ2 1 COP_ID_CPU s AND 7)) 16 :: u32) = line_size s"
proof -
  let ?k = "unat (COP_READ2 1 COP_ID_CPU s AND 7)"
  have "?k < 2 ^ 3" by (rule and_mask_less) (simp_all add: mask_eq_exp_minus_1)
  then have k: "(2 :: nat) ^ ?k \<le> 2 ^ 7" by (intro power_increasing) simp_all
  have "push_bit ?k 16 = (of_nat (16 * 2 ^ ?k) :: u32)" by (simp add: push_bit_eq_mult)
  moreover have "unat (of_nat (16 * 2 ^ ?k) :: u32) = 16 * 2 ^ ?k"
    using k by (intro unat_of_nat_u32) simp
  ultimately show ?thesis by (simp add: line_size_def power_add)
qed

lemma line_size_bounds: "16 \<le> line_size s \<and> line_size s \<le> 2048"
proof -
  have "unat (COP_READ2 1 COP_ID_CPU s AND 7) < 2 ^ 3"
    by (rule and_mask_less) (simp_all add: mask_eq_exp_minus_1)
  then have "(2 :: nat) ^ (4 + unat (COP_READ2 1 COP_ID_CPU s AND 7)) \<le> 2 ^ 11"
    "(2 :: nat) ^ 4 \<le> 2 ^ (4 + unat (COP_READ2 1 COP_ID_CPU s AND 7))"
    by (intro power_increasing; simp)+
  then show ?thesis by (simp add: line_size_def)
qed

lemma mem_cache_dcache_area_returns:
  assumes "unat va + unat sz + line_size s < 2 ^ 32"
  shows "\<exists>k. mem_cache_dcache_area va sz op s = Inr (dsb (fold (COP_WRITE (dcache_reg op))
      (map (\<lambda>i. va + of_nat i * of_nat (line_size s)) [0..<Suc k]) s))
    \<and> unat va + unat sz \<le> unat va + Suc k * line_size s"
proof -
  let ?cs = "push_bit (unat (COP_READ2 1 COP_ID_CPU s AND 7)) 16 :: u32"
  have c: "unat ?cs = line_size s" by (rule line_size_unat)
  then have cs: "?cs = of_nat (line_size s)" using word_unat_of_nat_self by metis
  have e: "unat (va + sz) = unat va + unat sz" using assms by (simp add: unat_word_ariths)
  have "\<exists>k. dcache_loop (dcache_reg op) va ?cs (va + sz) s =
      Some (fold (COP_WRITE (dcache_reg op)) (map (\<lambda>i. va + of_nat i * ?cs) [0..<Suc k]) s)
    \<and> unat (va + sz) \<le> unat va + Suc k * unat ?cs"
    by (rule dcache_loop_returns) (use assms c e line_size_bounds [of s] in simp_all)
  then obtain k where k: "dcache_loop (dcache_reg op) va ?cs (va + sz) s =
      Some (fold (COP_WRITE (dcache_reg op)) (map (\<lambda>i. va + of_nat i * ?cs) [0..<Suc k]) s)"
    "unat (va + sz) \<le> unat va + Suc k * unat ?cs" by blast
  show ?thesis
    using k(1) [unfolded cs] k(2) [unfolded c e]
    by (intro exI [of _ k]) (simp add: mem_cache_dcache_area_def Let_def cs [simplified] del: upt_Suc)
qed

text \<open>C18: an area that starts on a line boundary and ends at least a line below the top of the
  address space is maintained completely: the call returns, leaves memory alone, and every
  address of the area lies in a line whose address was written.\<close>

theorem dcache_area_covers:
  assumes "unat va + unat sz + line_size s < 2 ^ 32" "line_size s dvd unat va"
    and "unat va \<le> unat a" "unat a < unat va + unat sz"
  shows "\<exists>s' v. mem_cache_dcache_area va sz op s = Inr s' \<and> ram s' = ram s
    \<and> Mcr 0 (dcache_reg op) v \<in> set (trace s')
    \<and> line_size s dvd unat v \<and> unat v \<le> unat a \<and> unat a < unat v + line_size s"
proof -
  let ?L = "line_size s"
  obtain k where k: "mem_cache_dcache_area va sz op s =
      Inr (dsb (fold (COP_WRITE (dcache_reg op)) (map (\<lambda>i. va + of_nat i * of_nat ?L) [0..<Suc k]) s))"
    "unat va + unat sz \<le> unat va + Suc k * ?L"
    using mem_cache_dcache_area_returns [OF assms(1)] by metis
  define i where "i = (unat a - unat va) div ?L"
  let ?v = "va + of_nat i * of_nat ?L"
  have L: "0 < ?L" using line_size_bounds [of s] by simp
  have il: "i * ?L \<le> unat a - unat va" "unat a - unat va < i * ?L + ?L"
    using L unfolding i_def by (simp_all add: dividend_less_div_times add.commute)
  have "i * ?L < Suc k * ?L" using il(1) assms(3,4) k(2) by linarith
  then have ik: "i < Suc k" using mult_less_cancel2 by blast
  have il32: "i * ?L < 4294967296" using il(1) assms(1,4) by simp
  have "of_nat i * of_nat ?L = (of_nat (i * ?L) :: u32)" by simp
  then have v: "unat ?v = unat va + i * ?L"
    using il(1) assms(1,3,4) il32 by (simp only: unat_word_ariths unat_of_nat_u32) simp
  have "Mcr 0 (dcache_reg op) ?v \<in> set (trace (dsb (fold (COP_WRITE (dcache_reg op))
      (map (\<lambda>i. va + of_nat i * of_nat ?L) [0..<Suc k]) s)))"
    using ik by (auto simp del: upt_Suc)
  then show ?thesis
    using k(1) v il assms(2,3) by (intro exI conjI [rotated]) (auto simp del: upt_Suc)
qed

text \<open>when the end of the area falls in the last line of the address space, at a higher
  offset in its line than the start, the loop never returns: \<open>next\<close> wraps and stays below
  \<open>end\<close> for ever. A guest reaches this through \<open>HYPERCALL_CACHE_OP\<close>, which passes its
  arguments on unchecked.\<close>

theorem dcache_area_endless:
  assumes "2 ^ 32 - line_size s \<le> unat (va + sz)"
    and "unat va mod line_size s < unat (va + sz) mod line_size s"
  shows "mem_cache_dcache_area va sz op s = Inl (Endless_loop ''mem_cache_dcache_area'')"
proof -
  let ?L = "line_size s" and ?lim = "va + sz"
  let ?cs = "push_bit (unat (COP_READ2 1 COP_ID_CPU s AND 7)) 16 :: u32"
  have c: "unat ?cs = ?L" by (rule line_size_unat)
  have "4 + unat (COP_READ2 1 COP_ID_CPU s AND 7) \<le> 32"
    using and_mask_less [of 7 3 "COP_READ2 1 COP_ID_CPU s"] by (simp add: mask_eq_exp_minus_1)
  then have dv: "?L dvd 4294967296"
    using le_imp_power_dvd [of _ 32 "2 :: nat"] by (simp add: line_size_def)
  then obtain q where q: "4294967296 = ?L * q" by (rule dvdE)
  have False if "?lim \<le> va + of_nat n * ?cs" for n
  proof -
    let ?x = "unat (va + of_nat n * ?cs)"
    let ?N = "unat (of_nat n :: u32)"
    have "?x = (unat va + (?N * ?L) mod 4294967296) mod 4294967296"
      by (simp only: unat_word_ariths(1,2) c) simp
    then have "?x mod ?L = (unat va + (?N * ?L) mod 4294967296) mod ?L"
      by (simp only: mod_mod_cancel [OF dv])
    also have "\<dots> = (unat va + (?N * ?L) mod 4294967296 mod ?L) mod ?L"
      by (rule mod_add_right_eq [symmetric])
    also have "(?N * ?L) mod 4294967296 mod ?L = 0"
      by (simp only: mod_mod_cancel [OF dv] mod_mult_self2_is_0)
    finally have m: "?x mod ?L = unat va mod ?L" by simp
    have top: "y div ?L = q - 1" if "4294967296 - ?L \<le> y" "y < 4294967296" for y
    proof (rule div_nat_eqI)
      show "?L * (q - 1) \<le> y" using that q by (simp add: diff_mult_distrib2)
      show "y < ?L * Suc (q - 1)" using that q by (cases q) auto
    qed
    have x: "unat ?lim \<le> ?x" using that by (simp add: word_le_nat_alt)
    have "?x div ?L = q - 1" "unat ?lim div ?L = q - 1"
      using x assms(1) by (intro top; simp)+
    then have "?x < unat ?lim"
      using m assms(2) mult_div_mod_eq [of ?L ?x] mult_div_mod_eq [of ?L "unat ?lim"] by simp
    then show False using x by simp
  qed
  then have "dcache_loop r va ?cs ?lim s = None" for r
    by (metis dcache_loop_SomeD not_None_eq)
  then show ?thesis by (simp add: mem_cache_dcache_area_def Let_def)
qed

theorem dcache_area_covers_witness:
  "\<exists>s' v. mem_cache_dcache_area 0x1000 0x80 FLUSH demo_cache = Inr s' \<and> ram s' = ram demo_cache
    \<and> Mcr 0 (dcache_reg FLUSH) v \<in> set (trace s') \<and> line_size demo_cache dvd unat v
    \<and> unat v \<le> unat (0x1050 :: u32) \<and> unat (0x1050 :: u32) < unat v + line_size demo_cache"
proof (rule dcache_area_covers)
  have "line_size demo_cache = 64" by (simp add: line_size_def demo_cache_def COP_READ2_def)
  then show "unat (0x1000 :: u32) + unat (0x80 :: u32) + line_size demo_cache < 2 ^ 32"
    and "line_size demo_cache dvd unat (0x1000 :: u32)" by simp_all
qed simp_all

theorem dcache_area_endless_witness:
  "mem_cache_dcache_area 0xFFFFFFF0 0xF CLEAN demo_cache = Inl (Endless_loop ''mem_cache_dcache_area'')"
proof (rule dcache_area_endless)
  have "line_size demo_cache = 64" by (simp add: line_size_def demo_cache_def COP_READ2_def)
  then show "2 ^ 32 - line_size demo_cache \<le> unat (0xFFFFFFF0 + 0xF :: u32)"
    and "unat (0xFFFFFFF0 :: u32) mod line_size demo_cache < unat (0xFFFFFFF0 + 0xF :: u32) mod line_size demo_cache"
    by simp_all
qed

end
