(* ===== verification/Hyp_State.thy ===== *)
theory Hyp_State
  imports Arm_Mmu Arm_Cpu
begin

text \<open>
  The data of the hypervisor (\<open>hyper.h\<close>, \<open>hyper_config_base.h\<close>, \<open>arm_common.h\<close>): the register
  context, the state of each virtual guest mode, the virtual machine, the static configurations
  of \<open>guest_config/\<close>, and the context stack of \<open>family_context_bottom.inc\<close>.
\<close>

section \<open>Contexts\<close>

record cpu_context =
  reg :: "nat \<Rightarrow> u32"
  sp :: u32
  lr :: u32
  pc :: u32
  psr :: u32

text \<open>The code walks a context as an array of 17 words; this is the word at an index.\<close>

definition ctx_word :: "cpu_context \<Rightarrow> nat \<Rightarrow> u32" where
  "ctx_word c i =
     (if i < 13 then reg c i else if i = 13 then sp c else if i = 14 then lr c
      else if i = 15 then pc c else psr c)"

definition ctx_set :: "nat \<Rightarrow> u32 \<Rightarrow> cpu_context \<Rightarrow> cpu_context" where
  "ctx_set i v c =
     (if i < 13 then c\<lparr>reg := (reg c)(i := v)\<rparr> else if i = 13 then c\<lparr>sp := v\<rparr>
      else if i = 14 then c\<lparr>lr := v\<rparr> else if i = 15 then c\<lparr>pc := v\<rparr> else c\<lparr>psr := v\<rparr>)"

lemma ctx_word_set: "i < 17 \<Longrightarrow> j < 17 \<Longrightarrow> ctx_word (ctx_set i v c) j = (if i = j then v else ctx_word c j)"
  by (auto simp: ctx_word_def ctx_set_def)

section \<open>Configuration\<close>

record hc_guest_mode =
  gm_name :: string
  domain_ac :: u32

record hc_rpc_handler =
  rh_name :: string
  rh_mode :: u32
  entry_point :: u32
  rh_sp :: u32

record hc_config =
  guest_entry_point :: u32
  guest_modes :: "hc_guest_mode list"
  rpc_handlers :: "hc_rpc_handler option"

text \<open>\<open>1 << (2 * d)\<close>: client access to domain \<open>d\<close>.\<close>

definition dom_client :: "u32 \<Rightarrow> u32" where
  "dom_client d = push_bit (2 * unat d) 1"

definition HC_DOMAC_ALL :: u32 where
  "HC_DOMAC_ALL = dom_client HC_DOM_DEFAULT OR dom_client HC_DOM_TASK OR dom_client HC_DOM_KERNEL
     OR dom_client HC_DOM_TRUSTED"
definition HC_DOMAC_KERNEL :: u32 where
  "HC_DOMAC_KERNEL = dom_client HC_DOM_DEFAULT OR dom_client HC_DOM_KERNEL OR dom_client HC_DOM_TASK"
definition HC_DOMAC_TRUSTED :: u32 where
  "HC_DOMAC_TRUSTED = dom_client HC_DOM_DEFAULT OR dom_client HC_DOM_TRUSTED"
definition HC_DOMAC_INTERRUPT :: u32 where
  "HC_DOMAC_INTERRUPT = dom_client HC_DOM_DEFAULT OR dom_client HC_DOM_KERNEL OR dom_client HC_DOM_TASK"
definition HC_DOMAC_TASK :: u32 where
  "HC_DOMAC_TASK = dom_client HC_DOM_DEFAULT OR dom_client HC_DOM_TASK"

definition TRUSTED_LOCATION :: u32 where [simp]: "TRUSTED_LOCATION = 0xF0100000"
definition TRUSTED_RPC :: u32 where [simp]: "TRUSTED_RPC = TRUSTED_LOCATION + 4"
definition TRUSTED_SP :: u32 where [simp]: "TRUSTED_SP = TRUSTED_LOCATION + 0x00100000 - 4"

definition rpc_handler_trusted :: hc_rpc_handler where
  "rpc_handler_trusted = \<lparr>rh_name = ''trusted_rpc_handler'', rh_mode = HC_GM_TRUSTED,
     entry_point = TRUSTED_RPC, rh_sp = TRUSTED_SP\<rparr>"

definition linux_config :: hc_config where
  "linux_config = \<lparr>guest_entry_point = HAL_PHYS_START + 0x1010000,
     guest_modes = [\<lparr>gm_name = ''trusted'', domain_ac = HC_DOMAC_TRUSTED\<rparr>,
       \<lparr>gm_name = ''kernel'', domain_ac = HC_DOMAC_KERNEL\<rparr>,
       \<lparr>gm_name = ''application'', domain_ac = HC_DOMAC_TASK\<rparr>,
       \<lparr>gm_name = ''interrupt'', domain_ac = HC_DOMAC_INTERRUPT\<rparr>],
     rpc_handlers = Some rpc_handler_trusted\<rparr>"

text \<open>The configuration of the minimal guest: its kernel has no task domain, its interrupt mode has
  every domain, and it declares no RPC handler.\<close>

definition MIN_DOMAC_KERNEL :: u32 where
  "MIN_DOMAC_KERNEL = dom_client HC_DOM_DEFAULT OR dom_client HC_DOM_KERNEL"

definition minimal_config :: hc_config where
  "minimal_config = \<lparr>guest_entry_point = 0xc0000000,
     guest_modes = [\<lparr>gm_name = ''trusted'', domain_ac = HC_DOMAC_TRUSTED\<rparr>,
       \<lparr>gm_name = ''kernel'', domain_ac = MIN_DOMAC_KERNEL\<rparr>,
       \<lparr>gm_name = ''application'', domain_ac = HC_DOMAC_TASK\<rparr>,
       \<lparr>gm_name = ''interrupt'', domain_ac = HC_DOMAC_ALL\<rparr>],
     rpc_handlers = None\<rparr>"

section \<open>The virtual machine\<close>

record guest_info =
  nr_syscalls :: u32
  page_offset :: u32
  phys_offset :: u32
  vmalloc_end :: u32
  guest_size :: u32

record hyper_mode_state =
  ctx :: cpu_context
  mode_config :: "hc_guest_mode option"
  rpc_for :: u32
  rpc_to :: u32

text \<open>\<open>current_mode_state\<close> is a pointer into \<open>mode_states\<close>: the index, or \<open>None\<close> for null.\<close>

record virtual_machine =
  vm_id :: u32
  current_guest_mode :: u32
  interrupted_mode :: u32
  guest_info_of :: guest_info
  exception_vector :: u32
  mode_states :: "u32 \<Rightarrow> hyper_mode_state"
  current_mode_state :: "u32 option"
  config :: hc_config

text \<open>What a slot of the context stack points to.\<close>

datatype ctx_ptr = Null_ctx | Def_context nat | Mode_context u32

text \<open>The hypervisor state: the machine, the one virtual machine, the boot flag of
  \<open>hypercalls.c\<close>, the context stack, and the user registers of the processor.\<close>

record hyp = machine +
  curr_vm :: virtual_machine
  boot :: u32
  context_stack_curr :: u32
  context_stack :: "u32 \<Rightarrow> ctx_ptr"
  def_contexts :: "nat \<Rightarrow> cpu_context"
  cpu :: cpu_context

section \<open>Access to mode states\<close>

definition upd_vm :: "(virtual_machine \<Rightarrow> virtual_machine) \<Rightarrow> hyp \<Rightarrow> hyp" where
  "upd_vm f s = s\<lparr>curr_vm := f (curr_vm s)\<rparr>"

definition mode_state :: "u32 \<Rightarrow> hyp \<Rightarrow> hyper_mode_state" where
  "mode_state m s = mode_states (curr_vm s) m"

definition upd_mode :: "u32 \<Rightarrow> (hyper_mode_state \<Rightarrow> hyper_mode_state) \<Rightarrow> hyp \<Rightarrow> hyp" where
  "upd_mode m f = upd_vm (\<lambda>vm. vm\<lparr>mode_states := (mode_states vm)(m := f (mode_states vm m))\<rparr>)"

definition mode_ctx :: "u32 \<Rightarrow> hyp \<Rightarrow> cpu_context" where
  "mode_ctx m s = ctx (mode_state m s)"

definition upd_ctx :: "u32 \<Rightarrow> (cpu_context \<Rightarrow> cpu_context) \<Rightarrow> hyp \<Rightarrow> hyp" where
  "upd_ctx m f = upd_mode m (\<lambda>ms. ms\<lparr>ctx := f (ctx ms)\<rparr>)"

text \<open>Using \<open>curr_vm->current_mode_state\<close>, which may be null before a guest runs.\<close>

definition with_cur :: "hyp \<Rightarrow> (u32 \<Rightarrow> 'a res) \<Rightarrow> 'a res" where
  "with_cur s k =
     (case current_mode_state (curr_vm s) of
        None \<Rightarrow> Inl (Null_pointer ''current_mode_state'') | Some m \<Rightarrow> k m)"

abbreviation guest_mode :: "hyp \<Rightarrow> u32" where
  "guest_mode s \<equiv> current_guest_mode (curr_vm s)"

abbreviation ginfo :: "hyp \<Rightarrow> guest_info" where
  "ginfo s \<equiv> guest_info_of (curr_vm s)"

section \<open>The context stack\<close>

definition cpu_context_current_get :: "hyp \<Rightarrow> ctx_ptr" where
  "cpu_context_current_get s = context_stack s (context_stack_curr s)"

definition cpu_context_current_set :: "ctx_ptr \<Rightarrow> hyp \<Rightarrow> hyp" where
  "cpu_context_current_set cur s =
     s\<lparr>context_stack := (context_stack s)(context_stack_curr s := cur)\<rparr>"

definition cpu_context_initial_set :: "ctx_ptr \<Rightarrow> hyp \<Rightarrow> hyp" where
  "cpu_context_initial_set cur s = s\<lparr>context_stack := (context_stack s)(1 := cur)\<rparr>"

definition cpu_context_depth_get :: "hyp \<Rightarrow> u32" where
  "cpu_context_depth_get s = context_stack_curr s"

definition ctx_at :: "ctx_ptr \<Rightarrow> hyp \<Rightarrow> cpu_context option" where
  "ctx_at p s =
     (case p of Null_ctx \<Rightarrow> None | Def_context n \<Rightarrow> Some (def_contexts s n)
      | Mode_context m \<Rightarrow> Some (mode_ctx m s))"

definition set_ctx_at :: "ctx_ptr \<Rightarrow> cpu_context \<Rightarrow> hyp \<Rightarrow> hyp" where
  "set_ctx_at p c s =
     (case p of Null_ctx \<Rightarrow> s | Def_context n \<Rightarrow> s\<lparr>def_contexts := (def_contexts s)(n := c)\<rparr>
      | Mode_context m \<Rightarrow> upd_ctx m (\<lambda>_. c) s)"

text \<open>Exception entry and exit: \<open>store_context\<close> with the return address it is given, and
  \<open>restore_context\<close> followed by the return to the guest.\<close>

definition store_context :: "u32 \<Rightarrow> hyp \<Rightarrow> hyp res" where
  "store_context ret s =
     (let r2 = context_stack_curr s + 1;
          p = context_stack s r2
      in if p = Null_ctx then Inl (Null_pointer ''context_stack'')
         else Inr (set_ctx_at p ((cpu s)\<lparr>pc := ret\<rparr>) (s\<lparr>context_stack_curr := r2\<rparr>)))"

definition restore_context :: "hyp \<Rightarrow> hyp res" where
  "restore_context s =
     (let r2 = context_stack_curr s
      in case ctx_at (context_stack s r2) s of
           None \<Rightarrow> Inl (Null_pointer ''context_stack'')
         | Some c \<Rightarrow> Inr (s\<lparr>context_stack_curr := r2 - 1, cpu := c\<rparr>))"

section \<open>Simplification of state accesses\<close>

lemma upd_vm_simps [simp]:
  "ram (upd_vm f s) = ram s" "cop (upd_vm f s) = cop s" "trace (upd_vm f s) = trace s"
  "ccsidr_of (upd_vm f s) = ccsidr_of s" "hyper_pt_start (upd_vm f s) = hyper_pt_start s"
  "l2_index_p (upd_vm f s) = l2_index_p s" "uninit (upd_vm f s) = uninit s"
  "curr_vm (upd_vm f s) = f (curr_vm s)" "boot (upd_vm f s) = boot s"
  "context_stack_curr (upd_vm f s) = context_stack_curr s"
  "context_stack (upd_vm f s) = context_stack s"
  "def_contexts (upd_vm f s) = def_contexts s" "cpu (upd_vm f s) = cpu s"
  by (simp_all add: upd_vm_def)

lemma upd_mode_simps [simp]:
  "ram (upd_mode m f s) = ram s" "cop (upd_mode m f s) = cop s" "trace (upd_mode m f s) = trace s"
  "ccsidr_of (upd_mode m f s) = ccsidr_of s" "hyper_pt_start (upd_mode m f s) = hyper_pt_start s"
  "l2_index_p (upd_mode m f s) = l2_index_p s" "uninit (upd_mode m f s) = uninit s"
  "boot (upd_mode m f s) = boot s" "context_stack_curr (upd_mode m f s) = context_stack_curr s"
  "context_stack (upd_mode m f s) = context_stack s"
  "def_contexts (upd_mode m f s) = def_contexts s" "cpu (upd_mode m f s) = cpu s"
  "mode_state n (upd_mode m f s) = (if n = m then f (mode_state m s) else mode_state n s)"
  "current_guest_mode (curr_vm (upd_mode m f s)) = guest_mode s"
  "interrupted_mode (curr_vm (upd_mode m f s)) = interrupted_mode (curr_vm s)"
  "guest_info_of (curr_vm (upd_mode m f s)) = ginfo s"
  "exception_vector (curr_vm (upd_mode m f s)) = exception_vector (curr_vm s)"
  "current_mode_state (curr_vm (upd_mode m f s)) = current_mode_state (curr_vm s)"
  "config (curr_vm (upd_mode m f s)) = config (curr_vm s)"
  by (simp_all add: upd_mode_def mode_state_def)

lemma upd_ctx_simps [simp]:
  "ram (upd_ctx m f s) = ram s" "cop (upd_ctx m f s) = cop s" "trace (upd_ctx m f s) = trace s"
  "ccsidr_of (upd_ctx m f s) = ccsidr_of s" "hyper_pt_start (upd_ctx m f s) = hyper_pt_start s"
  "l2_index_p (upd_ctx m f s) = l2_index_p s" "uninit (upd_ctx m f s) = uninit s"
  "boot (upd_ctx m f s) = boot s" "context_stack_curr (upd_ctx m f s) = context_stack_curr s"
  "context_stack (upd_ctx m f s) = context_stack s"
  "def_contexts (upd_ctx m f s) = def_contexts s" "cpu (upd_ctx m f s) = cpu s"
  "mode_ctx n (upd_ctx m f s) = (if n = m then f (mode_ctx m s) else mode_ctx n s)"
  "rpc_for (mode_state n (upd_ctx m f s)) = rpc_for (mode_state n s)"
  "rpc_to (mode_state n (upd_ctx m f s)) = rpc_to (mode_state n s)"
  "mode_config (mode_state n (upd_ctx m f s)) = mode_config (mode_state n s)"
  "current_guest_mode (curr_vm (upd_ctx m f s)) = guest_mode s"
  "interrupted_mode (curr_vm (upd_ctx m f s)) = interrupted_mode (curr_vm s)"
  "guest_info_of (curr_vm (upd_ctx m f s)) = ginfo s"
  "exception_vector (curr_vm (upd_ctx m f s)) = exception_vector (curr_vm s)"
  "current_mode_state (curr_vm (upd_ctx m f s)) = current_mode_state (curr_vm s)"
  "config (curr_vm (upd_ctx m f s)) = config (curr_vm s)"
  by (simp_all add: upd_ctx_def mode_ctx_def)

text \<open>The machine primitives leave the hypervisor's own data alone.\<close>

lemma hyp_more:
  fixes s t :: hyp
  assumes "machine.more s = machine.more t"
  shows "curr_vm s = curr_vm t" "boot s = boot t" "context_stack_curr s = context_stack_curr t"
    "context_stack s = context_stack t" "def_contexts s = def_contexts t" "cpu s = cpu t"
  using assms by (cases s; cases t; simp)+

lemma mode_state_cong: "curr_vm s = curr_vm t \<Longrightarrow> mode_state m s = mode_state m t"
  and mode_ctx_cong: "curr_vm s = curr_vm t \<Longrightarrow> mode_ctx m s = mode_ctx m t"
  by (simp_all add: mode_state_def mode_ctx_def)

lemmas machine_more = cop_write_simps(8,16) barrier_simps(13,14) wr_simps(8)

lemma hyp_prim_simps [simp]:
  fixes s :: hyp
  shows
  "curr_vm (COP_WRITE r v s) = curr_vm s" "curr_vm (COP_WRITE2 b r v s) = curr_vm s"
  "curr_vm (isb s) = curr_vm s" "curr_vm (dsb s) = curr_vm s" "curr_vm (wr a v s) = curr_vm s"
  "boot (COP_WRITE r v s) = boot s" "boot (COP_WRITE2 b r v s) = boot s"
  "boot (isb s) = boot s" "boot (dsb s) = boot s" "boot (wr a v s) = boot s"
  "context_stack_curr (COP_WRITE r v s) = context_stack_curr s"
  "context_stack_curr (COP_WRITE2 b r v s) = context_stack_curr s"
  "context_stack_curr (isb s) = context_stack_curr s"
  "context_stack_curr (dsb s) = context_stack_curr s"
  "context_stack_curr (wr a v s) = context_stack_curr s"
  "context_stack (COP_WRITE r v s) = context_stack s"
  "context_stack (COP_WRITE2 b r v s) = context_stack s"
  "context_stack (isb s) = context_stack s" "context_stack (dsb s) = context_stack s"
  "context_stack (wr a v s) = context_stack s"
  "def_contexts (COP_WRITE r v s) = def_contexts s" "def_contexts (COP_WRITE2 b r v s) = def_contexts s"
  "def_contexts (isb s) = def_contexts s" "def_contexts (dsb s) = def_contexts s"
  "def_contexts (wr a v s) = def_contexts s"
  "cpu (COP_WRITE r v s) = cpu s" "cpu (COP_WRITE2 b r v s) = cpu s"
  "cpu (isb s) = cpu s" "cpu (dsb s) = cpu s" "cpu (wr a v s) = cpu s"
  by (simp_all add: COP_WRITE_def COP_WRITE2_def isb_def dsb_def wr_def)

lemma mode_prim_simps [simp]:
  "mode_state m (COP_WRITE r v s) = mode_state m s" "mode_state m (COP_WRITE2 b r v s) = mode_state m s"
  "mode_state m (isb s) = mode_state m s" "mode_state m (dsb s) = mode_state m s"
  "mode_state m (wr a v s) = mode_state m s"
  "mode_ctx m (COP_WRITE r v s) = mode_ctx m s" "mode_ctx m (COP_WRITE2 b r v s) = mode_ctx m s"
  "mode_ctx m (isb s) = mode_ctx m s" "mode_ctx m (dsb s) = mode_ctx m s"
  "mode_ctx m (wr a v s) = mode_ctx m s"
  by (simp_all add: mode_state_def mode_ctx_def)

lemma upd_vm_rd [simp]:
  "rd a (upd_vm f s) = rd a s" "rd a (upd_mode m g s) = rd a s" "rd a (upd_ctx m h s) = rd a s"
  by (simp_all add: rd_def)

end
