(* ===== verification/Hyp_Modes.thy ===== *)
theory Hyp_Modes
  imports Hyp_State
begin

text \<open>
  Switching between the virtual guest modes: \<open>change_guest_mode\<close> of \<open>hypercalls.c\<close>, the remote
  calls of \<open>hyp_rpc.c\<close> and the interrupt operations of \<open>hyp_interrupt.c\<close>; the invariant that
  ties the virtual machine, the context stack and the domain register together.
\<close>

section \<open>The code\<close>

definition change_guest_mode :: "u32 \<Rightarrow> hyp \<Rightarrow> hyp res" where
  "change_guest_mode mode s =
     panic_if (HC_NGUESTMODES \<le> mode) ''Trying to switch to unknown guest mode'' 1
       (let s = upd_vm (\<lambda>vm. vm\<lparr>current_mode_state := Some mode\<rparr>) s;
            s = cpu_context_current_set (Mode_context mode) s;
            s = upd_vm (\<lambda>vm. vm\<lparr>current_guest_mode := mode\<rparr>) s
        in case mode_config (mode_state mode s) of
             None \<Rightarrow> Inl (Null_pointer ''mode_config'')
           | Some gm \<Rightarrow> Inr (COP_WRITE COP_SYSTEM_DOMAIN (domain_ac gm) s))"

definition hypercall_rpc :: "u32 \<Rightarrow> u32 \<Rightarrow> hyp \<Rightarrow> hyp res" where
  "hypercall_rpc rpc_op arg s =
     (case rpc_handlers (config (curr_vm s)) of
        None \<Rightarrow> Inl (Null_pointer ''rpc_handlers'')
      | Some handler \<Rightarrow>
          with_cur s (\<lambda>cur.
            let handling_mode = rh_mode handler in
            panic_if (rpc_to (mode_state cur s) \<noteq> MODE_NONE)
              ''Guest trying to start RPC while being in one'' 1
            (panic_if (guest_mode s = handling_mode) ''Guest trying to send RPC to itself'' 1
            (panic_if (rpc_for (mode_state handling_mode s) \<noteq> MODE_NONE)
              ''Guest trying to send RPC to a mode that is already handling a RPC'' 1
            (if rpc_op \<le> 4
             then
               let s = upd_mode cur (\<lambda>ms. ms\<lparr>rpc_to := handling_mode\<rparr>) s;
                   s = upd_mode handling_mode (\<lambda>ms. ms\<lparr>rpc_for := guest_mode s\<rparr>) s
               in bindE (change_guest_mode HC_GM_TRUSTED s) (\<lambda>s.
                  with_cur s (\<lambda>cur.
                    Inr (upd_ctx cur (\<lambda>c. c\<lparr>reg := (reg c)(0 := rpc_op, 1 := arg),
                           pc := entry_point handler, psr := 0xD0\<rparr>) s)))
             else Inl (Hyper_panic ''Unallowed rpc operation'' 1))))))"

definition hypercall_end_rpc :: "hyp \<Rightarrow> hyp res" where
  "hypercall_end_rpc s =
     with_cur s (\<lambda>cur.
       let calling_mode = rpc_for (mode_state cur s) in
       panic_if (calling_mode = MODE_NONE) ''Guest ended rpc without being in one'' 1
       (panic_if (rpc_to (mode_state calling_mode s) \<noteq> guest_mode s)
          ''Guest trying to end rpc but caller did not start one'' 1
        (let s = upd_mode cur (\<lambda>ms. ms\<lparr>rpc_for := MODE_NONE\<rparr>) s;
             s = upd_mode calling_mode (\<lambda>ms. ms\<lparr>rpc_to := MODE_NONE\<rparr>) s
         in change_guest_mode calling_mode s)))"

definition hypercall_interrupt_set :: "u32 \<Rightarrow> u32 \<Rightarrow> hyp \<Rightarrow> hyp res" where
  "hypercall_interrupt_set interrupt op s =
     with_cur s (\<lambda>cur.
       let interrupt = interrupt AND (ARM_IRQ_MASK OR ARM_FIQ_MASK) in
       if op = 1 then Inr (upd_ctx cur (\<lambda>c. c\<lparr>psr := psr c AND NOT interrupt\<rparr>) s)
       else if op = 0 then Inr (upd_ctx cur (\<lambda>c. c\<lparr>psr := psr c OR interrupt\<rparr>) s)
       else if op = 2 then
         Inr (upd_ctx cur (\<lambda>c. c\<lparr>psr := (psr c AND NOT (ARM_IRQ_MASK OR ARM_FIQ_MASK)) OR interrupt\<rparr>) s)
       else Inl (Hyper_panic ''Unknown interrupt operation'' 1))"

definition hypercall_end_interrupt :: "hyp \<Rightarrow> hyp res" where
  "hypercall_end_interrupt s =
     panic_if (guest_mode s \<noteq> HC_GM_INTERRUPT)
       ''Guest tried to end interrupt but not in interrupt mode.'' 1
     (panic_if (HC_NGUESTMODES \<le> interrupted_mode (curr_vm s)) ''Invalid interrupted mode value.'' 2
      (bindE (change_guest_mode (interrupted_mode (curr_vm s)) s) (\<lambda>s.
         Inr (upd_vm (\<lambda>vm. vm\<lparr>interrupted_mode := MODE_NONE\<rparr>) s))))"

section \<open>The invariant\<close>

definition mode_domain :: "u32 \<Rightarrow> u32" where
  "mode_domain m = domain_ac (guest_modes linux_config ! unat m)"

text \<open>At most one mode is in a remote call, and caller and handler name each other.\<close>

definition rpc_inv :: "hyp \<Rightarrow> bool" where
  "rpc_inv s \<longleftrightarrow>
     (\<forall>m < 4. m \<noteq> HC_GM_TRUSTED \<longrightarrow> rpc_for (mode_state m s) = MODE_NONE) \<and>
     (\<forall>m < 4. rpc_to (mode_state m s) = MODE_NONE \<or>
        (rpc_to (mode_state m s) = HC_GM_TRUSTED \<and> rpc_for (mode_state HC_GM_TRUSTED s) = m)) \<and>
     (rpc_for (mode_state HC_GM_TRUSTED s) = MODE_NONE \<or>
        (rpc_for (mode_state HC_GM_TRUSTED s) < 4 \<and> rpc_for (mode_state HC_GM_TRUSTED s) \<noteq> HC_GM_TRUSTED
         \<and> rpc_to (mode_state (rpc_for (mode_state HC_GM_TRUSTED s)) s) = HC_GM_TRUSTED))"

definition config_inv :: "hyp \<Rightarrow> bool" where
  "config_inv s \<longleftrightarrow> config (curr_vm s) = linux_config \<and>
     (\<forall>m < 4. mode_config (mode_state m s) = Some (guest_modes linux_config ! unat m))"

definition psr_inv :: "hyp \<Rightarrow> bool" where
  "psr_inv s \<longleftrightarrow> (\<forall>m < 4. psr (mode_ctx m s) AND 0xF = 0)"

definition current_inv :: "hyp \<Rightarrow> bool" where
  "current_inv s \<longleftrightarrow> guest_mode s < 4 \<and> current_mode_state (curr_vm s) = Some (guest_mode s)
     \<and> context_stack s 1 = Mode_context (guest_mode s)
     \<and> cop s 0 COP_SYSTEM_DOMAIN = mode_domain (guest_mode s)"

definition interrupted_inv :: "hyp \<Rightarrow> bool" where
  "interrupted_inv s \<longleftrightarrow> interrupted_mode (curr_vm s) = MODE_NONE \<or>
     (interrupted_mode (curr_vm s) < 4 \<and> interrupted_mode (curr_vm s) \<noteq> HC_GM_INTERRUPT)"

text \<open>\<open>vm_inv\<close> holds inside a handler, one exception deep.\<close>

definition vm_inv :: "hyp \<Rightarrow> bool" where
  "vm_inv s \<longleftrightarrow> context_stack_curr s = 1 \<and> current_inv s \<and> config_inv s \<and> psr_inv s \<and> rpc_inv s
     \<and> interrupted_inv s"

definition keeps_vm_inv :: "(hyp \<Rightarrow> hyp res) \<Rightarrow> bool" where
  "keeps_vm_inv f \<longleftrightarrow> (\<forall>s s'. vm_inv s \<and> f s = Inr s' \<longrightarrow> vm_inv s')"

section \<open>Effect of a mode change\<close>

lemma mode_state_upd_vm [simp]:
  "mode_states (f (curr_vm s)) = mode_states (curr_vm s) \<Longrightarrow> mode_state m (upd_vm f s) = mode_state m s"
  "mode_states (f (curr_vm s)) = mode_states (curr_vm s) \<Longrightarrow> mode_ctx m (upd_vm f s) = mode_ctx m s"
  by (simp_all add: mode_state_def mode_ctx_def)

lemma ctx_set_simps [simp]:
  "curr_vm (cpu_context_current_set p s) = curr_vm s"
  "mode_state m (cpu_context_current_set p s) = mode_state m s"
  "mode_ctx m (cpu_context_current_set p s) = mode_ctx m s"
  "ram (cpu_context_current_set p s) = ram s" "cop (cpu_context_current_set p s) = cop s"
  "trace (cpu_context_current_set p s) = trace s"
  "hyper_pt_start (cpu_context_current_set p s) = hyper_pt_start s"
  "l2_index_p (cpu_context_current_set p s) = l2_index_p s"
  "boot (cpu_context_current_set p s) = boot s" "cpu (cpu_context_current_set p s) = cpu s"
  "context_stack_curr (cpu_context_current_set p s) = context_stack_curr s"
  "context_stack (cpu_context_current_set p s) = (context_stack s)(context_stack_curr s := p)"
  by (simp_all add: cpu_context_current_set_def mode_state_def mode_ctx_def)

definition switched :: "u32 \<Rightarrow> u32 \<Rightarrow> hyp \<Rightarrow> hyp" where
  "switched mode ac s =
     COP_WRITE COP_SYSTEM_DOMAIN ac
       (upd_vm (\<lambda>vm. vm\<lparr>current_guest_mode := mode\<rparr>)
         (cpu_context_current_set (Mode_context mode)
           (upd_vm (\<lambda>vm. vm\<lparr>current_mode_state := Some mode\<rparr>) s)))"

lemma switched_simps [simp]:
  "guest_mode (switched m ac s) = m"
  "current_mode_state (curr_vm (switched m ac s)) = Some m"
  "interrupted_mode (curr_vm (switched m ac s)) = interrupted_mode (curr_vm s)"
  "guest_info_of (curr_vm (switched m ac s)) = ginfo s"
  "exception_vector (curr_vm (switched m ac s)) = exception_vector (curr_vm s)"
  "config (curr_vm (switched m ac s)) = config (curr_vm s)"
  "mode_state n (switched m ac s) = mode_state n s" "mode_ctx n (switched m ac s) = mode_ctx n s"
  "ram (switched m ac s) = ram s" "hyper_pt_start (switched m ac s) = hyper_pt_start s"
  "cop (switched m ac s) = (cop s)(0 := (cop s 0)(COP_SYSTEM_DOMAIN := ac))"
  "trace (switched m ac s) = Mcr 0 COP_SYSTEM_DOMAIN ac # trace s"
  "context_stack_curr (switched m ac s) = context_stack_curr s"
  "context_stack (switched m ac s) = (context_stack s)(context_stack_curr s := Mode_context m)"
  "boot (switched m ac s) = boot s" "cpu (switched m ac s) = cpu s"
  by (simp_all add: switched_def)

lemma change_guest_mode_eq:
  "config_inv s \<Longrightarrow> change_guest_mode mode s =
     panic_if (4 \<le> mode) ''Trying to switch to unknown guest mode'' 1 (Inr (switched mode (mode_domain mode) s))"
  by (auto simp: change_guest_mode_def panic_if_def config_inv_def switched_def mode_domain_def
      Let_def not_le)

lemma switched_inv:
  assumes "vm_inv s" "m < 4"
  shows "vm_inv (switched m (mode_domain m) s)"
  using assms
  by (auto simp: vm_inv_def current_inv_def config_inv_def psr_inv_def rpc_inv_def interrupted_inv_def)

lemma vm_invD:
  assumes "vm_inv s"
  shows "config_inv s" "current_mode_state (curr_vm s) = Some (guest_mode s)" "guest_mode s < 4"
    "context_stack_curr s = 1" "psr_inv s" "rpc_inv s" "interrupted_inv s" "current_inv s"
  using assms by (simp_all add: vm_inv_def current_inv_def)

lemma change_guest_mode_inv: "vm_inv s \<Longrightarrow> change_guest_mode m s = Inr s' \<Longrightarrow> vm_inv s'"
  by (auto simp: change_guest_mode_eq vm_invD intro: switched_inv)

text \<open>Changing registers of a mode keeps the invariant when the mode bits stay clear.\<close>

lemma upd_ctx_inv:
  assumes "vm_inv s" "\<And>c. psr c AND 0xF = 0 \<Longrightarrow> psr (f c) AND 0xF = 0"
  shows "vm_inv (upd_ctx m f s)"
  using assms
  by (auto simp: vm_inv_def current_inv_def config_inv_def psr_inv_def rpc_inv_def interrupted_inv_def)

lemma with_cur_eq: "vm_inv s \<Longrightarrow> with_cur s k = k (guest_mode s)"
  by (simp add: with_cur_def vm_invD)

lemma config_inv_upd_mode [simp]:
  "(\<And>ms. mode_config (f ms) = mode_config ms) \<Longrightarrow> config_inv (upd_mode m f s) \<longleftrightarrow> config_inv s"
  by (auto simp: config_inv_def)

lemma mode_ctx_upd_mode [simp]:
  "ctx (f (mode_state m s)) = ctx (mode_state m s) \<Longrightarrow> mode_ctx n (upd_mode m f s) = mode_ctx n s"
  by (simp add: mode_ctx_def)

lemma rpc_inv_trusted_to:
  assumes "rpc_inv s"
  shows "rpc_to (mode_state 0 s) = - 1"
proof -
  have "\<forall>m < 4. rpc_to (mode_state m s) = MODE_NONE \<or> rpc_for (mode_state 0 s) = m"
    using assms by (auto simp: rpc_inv_def)
  from this [rule_format, of 0] show ?thesis using assms by (auto simp: rpc_inv_def)
qed

lemma mode_domain_simps:
  "mode_domain HC_GM_TRUSTED = HC_DOMAC_TRUSTED" "mode_domain HC_GM_KERNEL = HC_DOMAC_KERNEL"
  "mode_domain HC_GM_TASK = HC_DOMAC_TASK" "mode_domain HC_GM_INTERRUPT = HC_DOMAC_INTERRUPT"
  by (simp_all add: mode_domain_def linux_config_def)

section \<open>Remote calls\<close>

definition rpc_started :: "u32 \<Rightarrow> u32 \<Rightarrow> hyp \<Rightarrow> hyp" where
  "rpc_started rpc_op arg s =
     upd_ctx HC_GM_TRUSTED (\<lambda>c. c\<lparr>reg := (reg c)(0 := rpc_op, 1 := arg), pc := TRUSTED_RPC, psr := 0xD0\<rparr>)
       (switched HC_GM_TRUSTED (mode_domain HC_GM_TRUSTED)
         (upd_mode HC_GM_TRUSTED (\<lambda>ms. ms\<lparr>rpc_for := guest_mode s\<rparr>)
           (upd_mode (guest_mode s) (\<lambda>ms. ms\<lparr>rpc_to := HC_GM_TRUSTED\<rparr>) s)))"

lemma hypercall_rpc_eq:
  "vm_inv s \<Longrightarrow> hypercall_rpc rpc_op arg s =
     (if rpc_to (mode_state (guest_mode s) s) \<noteq> MODE_NONE
      then Inl (Hyper_panic ''Guest trying to start RPC while being in one'' 1)
      else if guest_mode s = HC_GM_TRUSTED
      then Inl (Hyper_panic ''Guest trying to send RPC to itself'' 1)
      else if rpc_for (mode_state HC_GM_TRUSTED s) \<noteq> MODE_NONE
      then Inl (Hyper_panic ''Guest trying to send RPC to a mode that is already handling a RPC'' 1)
      else if rpc_op \<le> 4 then Inr (rpc_started rpc_op arg s)
      else Inl (Hyper_panic ''Unallowed rpc operation'' 1))"
proof -
  assume i: "vm_inv s"
  have h: "rpc_handlers (config (curr_vm s)) = Some rpc_handler_trusted"
    using i by (simp add: vm_inv_def config_inv_def linux_config_def)
  show ?thesis
    using vm_invD(1,2) [OF i]
    by (simp add: hypercall_rpc_def h panic_if_def Let_def change_guest_mode_eq
        rpc_handler_trusted_def rpc_started_def with_cur_def)
qed

lemma less4_split:
  fixes m :: u32
  shows "(\<forall>m < 4. P m) \<longleftrightarrow> P 0 \<and> P 1 \<and> P 2 \<and> P (3 :: u32)"
  by (auto elim!: word_less4_cases)

lemma rpc_started_inv:
  assumes "vm_inv s" "guest_mode s \<noteq> HC_GM_TRUSTED" "rpc_to (mode_state (guest_mode s) s) = MODE_NONE"
    "rpc_for (mode_state HC_GM_TRUSTED s) = MODE_NONE"
  shows "vm_inv (rpc_started rpc_op arg s)"
proof -
  have "guest_mode s < 4" "rpc_to (mode_state 0 s) = - 1"
    using vm_invD(3,6) [OF assms(1)] by (auto intro: rpc_inv_trusted_to)
  then show ?thesis
    using assms
    by (auto simp: rpc_started_def vm_inv_def current_inv_def config_inv_def psr_inv_def rpc_inv_def
        interrupted_inv_def)
qed

lemma hypercall_rpc_inv: "keeps_vm_inv (hypercall_rpc rpc_op arg)"
  by (auto simp: keeps_vm_inv_def hypercall_rpc_eq split: if_splits intro!: rpc_started_inv)

definition rpc_ended :: "hyp \<Rightarrow> hyp" where
  "rpc_ended s =
     (let c = rpc_for (mode_state HC_GM_TRUSTED s) in
      switched c (mode_domain c)
        (upd_mode c (\<lambda>ms. ms\<lparr>rpc_to := MODE_NONE\<rparr>)
          (upd_mode HC_GM_TRUSTED (\<lambda>ms. ms\<lparr>rpc_for := MODE_NONE\<rparr>) s)))"

lemma hypercall_end_rpc_eq:
  assumes i: "vm_inv s"
  shows "hypercall_end_rpc s =
     (if guest_mode s = HC_GM_TRUSTED \<and> rpc_for (mode_state HC_GM_TRUSTED s) \<noteq> MODE_NONE
      then Inr (rpc_ended s)
      else Inl (Hyper_panic ''Guest ended rpc without being in one'' 1))"
proof (cases "guest_mode s = HC_GM_TRUSTED")
  case True
  let ?c = "rpc_for (mode_state HC_GM_TRUSTED s)"
  show ?thesis
  proof (cases "?c = MODE_NONE")
    case False
    then have "?c < 4" "rpc_to (mode_state ?c s) = HC_GM_TRUSTED"
      using vm_invD(6) [OF i] by (auto simp: rpc_inv_def)
    then show ?thesis
      using True False vm_invD(1) [OF i]
      by (simp add: hypercall_end_rpc_def with_cur_eq [OF i] panic_if_def Let_def change_guest_mode_eq
          rpc_ended_def not_le)
  qed (use True in \<open>simp add: hypercall_end_rpc_def with_cur_eq [OF i] panic_if_def\<close>)
next
  case False
  then have "rpc_for (mode_state (guest_mode s) s) = MODE_NONE"
    using vm_invD(3,6) [OF i] by (simp add: rpc_inv_def)
  then show ?thesis using False by (simp add: hypercall_end_rpc_def with_cur_eq [OF i] panic_if_def)
qed

lemma rpc_ended_inv:
  assumes "vm_inv s" "guest_mode s = HC_GM_TRUSTED" "rpc_for (mode_state HC_GM_TRUSTED s) \<noteq> MODE_NONE"
  shows "vm_inv (rpc_ended s)"
proof -
  have "rpc_for (mode_state HC_GM_TRUSTED s) < 4" "rpc_to (mode_state 0 s) = - 1"
    using vm_invD(6) [OF assms(1)] assms(3) rpc_inv_trusted_to by (auto simp: rpc_inv_def)
  then show ?thesis
    using assms
    by (auto simp: rpc_ended_def Let_def vm_inv_def current_inv_def config_inv_def psr_inv_def
        rpc_inv_def interrupted_inv_def)
qed

lemma hypercall_end_rpc_inv: "keeps_vm_inv hypercall_end_rpc"
  by (auto simp: keeps_vm_inv_def hypercall_end_rpc_eq split: if_splits intro!: rpc_ended_inv)

section \<open>Interrupt operations\<close>

lemma and_or_low_zero [simp]:
  fixes p :: u32
  assumes "p AND 0xF = 0"
  shows "(p AND k) AND 0xF = 0" "j AND 0xF = 0 \<Longrightarrow> (p OR j) AND 0xF = 0"
  using assms by (simp_all add: word_ao_dist) (metis and.assoc and.commute and_zero_eq)

lemma masked_low_zero [simp]: "((x :: u32) AND 0xFFFFFFF0) AND 0xF = 0" "(0xFFFFFFF0 AND (x :: u32)) AND 0xF = 0"
  by (simp_all add: and.assoc and.commute and.left_commute)

lemma hypercall_interrupt_set_inv: "keeps_vm_inv (hypercall_interrupt_set interrupt op)"
proof -
  have "(interrupt AND 0xC0) AND 0xF = 0" by (simp add: and.assoc)
  then show ?thesis
    by (auto simp: keeps_vm_inv_def hypercall_interrupt_set_def with_cur_eq Let_def
        split: if_splits intro!: upd_ctx_inv)
qed

lemma hypercall_end_interrupt_eq:
  assumes i: "vm_inv s"
  shows "hypercall_end_interrupt s =
     (if guest_mode s \<noteq> HC_GM_INTERRUPT
      then Inl (Hyper_panic ''Guest tried to end interrupt but not in interrupt mode.'' 1)
      else if interrupted_mode (curr_vm s) = MODE_NONE
      then Inl (Hyper_panic ''Invalid interrupted mode value.'' 2)
      else Inr (upd_vm (\<lambda>vm. vm\<lparr>interrupted_mode := MODE_NONE\<rparr>)
        (switched (interrupted_mode (curr_vm s)) (mode_domain (interrupted_mode (curr_vm s))) s)))"
  using vm_invD(1,7) [OF i]
  by (auto simp: hypercall_end_interrupt_def panic_if_def change_guest_mode_eq interrupted_inv_def not_le)

lemma interrupted_upd_inv:
  "vm_inv s \<Longrightarrow> n = MODE_NONE \<or> (n < 4 \<and> n \<noteq> HC_GM_INTERRUPT) \<Longrightarrow>
     vm_inv (upd_vm (\<lambda>vm. vm\<lparr>interrupted_mode := n\<rparr>) s)"
  by (auto simp: vm_inv_def current_inv_def config_inv_def psr_inv_def rpc_inv_def interrupted_inv_def)

lemma hypercall_end_interrupt_inv: "keeps_vm_inv hypercall_end_interrupt"
  unfolding keeps_vm_inv_def
proof (intro allI impI, elim conjE)
  fix s s' assume i: "vm_inv s" and e: "hypercall_end_interrupt s = Inr s'"
  then have "interrupted_mode (curr_vm s) < 4"
    using vm_invD(7) [OF i] by (auto simp: hypercall_end_interrupt_eq interrupted_inv_def split: if_splits)
  with e i show "vm_inv s'"
    by (auto simp: hypercall_end_interrupt_eq split: if_splits intro!: interrupted_upd_inv switched_inv)
qed

section \<open>A concrete state\<close>

text \<open>A hypervisor state inside a handler with the given guest mode current, used by the concrete
  instances of the theorems.\<close>

definition demo_ctx :: cpu_context where
  "demo_ctx = \<lparr>reg = (\<lambda>i. of_nat i), sp = 0xC0100000, lr = 0xC0008000, pc = 0xC0008004, psr = 0x10\<rparr>"

definition demo_vm :: "u32 \<Rightarrow> virtual_machine" where
  "demo_vm mode = \<lparr>vm_id = 0, current_guest_mode = mode, interrupted_mode = MODE_NONE,
     guest_info_of = \<lparr>nr_syscalls = 400, page_offset = 0xC0000000, phys_offset = 0x81000000,
       vmalloc_end = 0xF0000000, guest_size = 0x07000000\<rparr>,
     exception_vector = 0xC0000000,
     mode_states = (\<lambda>m. \<lparr>ctx = demo_ctx, mode_config = Some (guest_modes linux_config ! unat m),
       rpc_for = MODE_NONE, rpc_to = MODE_NONE\<rparr>),
     current_mode_state = Some mode, config = linux_config\<rparr>"

definition demo_hyp :: "u32 \<Rightarrow> hyp" where
  "demo_hyp mode = \<lparr>ram = (\<lambda>_. 0), cop = (\<lambda>_ _. mode_domain mode), ccsidr_of = (\<lambda>_. 0x200A), trace = [],
     hyper_pt_start = 0xF0080000, l2_index_p = 0, uninit = 0, curr_vm = demo_vm mode, boot = 0,
     context_stack_curr = 1, context_stack = (\<lambda>_. Mode_context mode), def_contexts = (\<lambda>_. demo_ctx),
     cpu = demo_ctx\<rparr>"

lemma demo_hyp_simps [simp]:
  "guest_mode (demo_hyp m) = m" "current_mode_state (curr_vm (demo_hyp m)) = Some m"
  "interrupted_mode (curr_vm (demo_hyp m)) = MODE_NONE" "context_stack_curr (demo_hyp m) = 1"
  "context_stack (demo_hyp m) k = Mode_context m" "cop (demo_hyp m) b r = mode_domain m"
  "mode_ctx n (demo_hyp m) = demo_ctx" "rpc_for (mode_state n (demo_hyp m)) = MODE_NONE"
  "rpc_to (mode_state n (demo_hyp m)) = MODE_NONE" "cpu (demo_hyp m) = demo_ctx"
  "mode_config (mode_state n (demo_hyp m)) = Some (guest_modes linux_config ! unat n)"
  "config (curr_vm (demo_hyp m)) = linux_config" "hyper_pt_start (demo_hyp m) = 0xF0080000"
  "ginfo (demo_hyp m) = \<lparr>nr_syscalls = 400, page_offset = 0xC0000000, phys_offset = 0x81000000,
     vmalloc_end = 0xF0000000, guest_size = 0x07000000\<rparr>" "ram (demo_hyp m) a = 0" "boot (demo_hyp m) = 0"
  "exception_vector (curr_vm (demo_hyp m)) = 0xC0000000" "l2_index_p (demo_hyp m) = 0"
  "ccsidr_of (demo_hyp m) k = 0x200A"
  by (simp_all add: demo_hyp_def demo_vm_def mode_state_def mode_ctx_def)

lemma demo_hyp_inv: "m < 4 \<Longrightarrow> vm_inv (demo_hyp m)"
  by (simp add: vm_inv_def current_inv_def config_inv_def psr_inv_def rpc_inv_def interrupted_inv_def
      demo_ctx_def)

section \<open>Properties\<close>

text \<open>C5: a remote call that succeeds enters the trusted mode at its one entry point with the
  operation and the argument in the first two registers, user mode and interrupts masked, and the
  domain register set to the trusted mode's; the operation is one of the five allowed; the
  caller's registers, and every other register of the trusted mode, are what they were.\<close>

theorem rpc_enters_trusted:
  assumes "vm_inv s" "hypercall_rpc rpc_op arg s = Inr s'"
  shows "guest_mode s \<noteq> HC_GM_TRUSTED \<and> rpc_op \<le> 4 \<and> guest_mode s' = HC_GM_TRUSTED
    \<and> cop s' 0 COP_SYSTEM_DOMAIN = HC_DOMAC_TRUSTED
    \<and> rpc_for (mode_state HC_GM_TRUSTED s') = guest_mode s
    \<and> rpc_to (mode_state (guest_mode s) s') = HC_GM_TRUSTED
    \<and> mode_ctx HC_GM_TRUSTED s' = (mode_ctx HC_GM_TRUSTED s)\<lparr>
         reg := (reg (mode_ctx HC_GM_TRUSTED s))(0 := rpc_op, 1 := arg), pc := TRUSTED_RPC, psr := 0xD0\<rparr>
    \<and> (\<forall>m. m \<noteq> HC_GM_TRUSTED \<longrightarrow> mode_ctx m s' = mode_ctx m s)"
  using assms mode_domain_simps(1)
  by (auto simp: hypercall_rpc_eq rpc_started_def split: if_splits)

theorem rpc_enters_trusted_witness:
  "guest_mode (rpc_started 2 7 (demo_hyp HC_GM_KERNEL)) = HC_GM_TRUSTED
   \<and> pc (mode_ctx HC_GM_TRUSTED (rpc_started 2 7 (demo_hyp HC_GM_KERNEL))) = 0xF0100004"
proof -
  have i: "vm_inv (demo_hyp HC_GM_KERNEL)" by (rule demo_hyp_inv) simp
  have "hypercall_rpc 2 7 (demo_hyp HC_GM_KERNEL) = Inr (rpc_started 2 7 (demo_hyp HC_GM_KERNEL))"
    using i by (simp add: hypercall_rpc_eq)
  from rpc_enters_trusted [OF i this] show ?thesis by simp
qed

text \<open>C4: call and return. After a remote call, whatever the trusted mode does to its own
  registers in user mode, \<open>hypercall_end_rpc\<close> succeeds, resumes the calling mode with its
  domains, and leaves every other mode's state exactly as before the call; the trusted mode is
  free for the next call.\<close>

theorem rpc_roundtrip:
  assumes "vm_inv s" "hypercall_rpc rpc_op arg s = Inr s1"
    and "\<And>c. psr c AND 0xF = 0 \<Longrightarrow> psr (f c) AND 0xF = 0"
  shows "\<exists>s2. hypercall_end_rpc (upd_ctx HC_GM_TRUSTED f s1) = Inr s2
    \<and> guest_mode s2 = guest_mode s \<and> cop s2 0 COP_SYSTEM_DOMAIN = cop s 0 COP_SYSTEM_DOMAIN
    \<and> (\<forall>m. m \<noteq> HC_GM_TRUSTED \<longrightarrow> mode_state m s2 = mode_state m s)
    \<and> rpc_for (mode_state HC_GM_TRUSTED s2) = MODE_NONE \<and> vm_inv s2"
proof -
  have s1: "s1 = rpc_started rpc_op arg s" and g: "guest_mode s \<noteq> HC_GM_TRUSTED"
    and to: "rpc_to (mode_state (guest_mode s) s) = MODE_NONE"
    using assms(1,2) by (auto simp: hypercall_rpc_eq split: if_splits)
  have "vm_inv s1" using hypercall_rpc_inv assms(1,2) by (auto simp: keeps_vm_inv_def)
  then have i: "vm_inv (upd_ctx HC_GM_TRUSTED f s1)" by (rule upd_ctx_inv) (rule assms(3))
  have u: "upd_ctx m h t = upd_mode m (\<lambda>ms. ms\<lparr>ctx := h (ctx ms)\<rparr>) t" for m h t
    by (simp add: upd_ctx_def)
  have d: "cop s 0 COP_SYSTEM_DOMAIN = mode_domain (guest_mode s)" and l: "guest_mode s < 4"
    using assms(1) by (simp_all add: vm_inv_def current_inv_def)
  let ?t = "upd_ctx HC_GM_TRUSTED f s1"
  have r: "rpc_for (mode_state HC_GM_TRUSTED ?t) = guest_mode s" "guest_mode ?t = HC_GM_TRUSTED"
    by (simp_all add: s1 rpc_started_def)
  have ne: "guest_mode s \<noteq> MODE_NONE" using l by auto
  have "hypercall_end_rpc ?t = Inr (rpc_ended ?t)"
    using r ne i by (simp add: hypercall_end_rpc_eq)
  moreover have "vm_inv (rpc_ended ?t)" using r ne by (intro rpc_ended_inv i) simp_all
  moreover have "mode_state m (rpc_ended ?t) = mode_state m s" if "m \<noteq> HC_GM_TRUSTED" for m
    using that g to r by (auto simp: rpc_ended_def s1 rpc_started_def Let_def u)
  moreover have "guest_mode (rpc_ended ?t) = guest_mode s"
    "cop (rpc_ended ?t) 0 COP_SYSTEM_DOMAIN = cop s 0 COP_SYSTEM_DOMAIN"
    "rpc_for (mode_state HC_GM_TRUSTED (rpc_ended ?t)) = MODE_NONE"
    using r(1) g d by (simp_all add: rpc_ended_def Let_def)
  ultimately show ?thesis by blast
qed

theorem rpc_roundtrip_witness:
  "\<exists>s1 s2. hypercall_rpc 1 0xC0001000 (demo_hyp HC_GM_TASK) = Inr s1
    \<and> hypercall_end_rpc (upd_ctx HC_GM_TRUSTED (\<lambda>c. c\<lparr>lr := 7\<rparr>) s1) = Inr s2
    \<and> guest_mode s2 = HC_GM_TASK"
proof -
  have i: "vm_inv (demo_hyp HC_GM_TASK)" by (rule demo_hyp_inv) simp
  then have "hypercall_rpc 1 0xC0001000 (demo_hyp HC_GM_TASK) =
      Inr (rpc_started 1 0xC0001000 (demo_hyp HC_GM_TASK))"
    by (simp add: hypercall_rpc_eq)
  from this rpc_roundtrip [OF i this, of "\<lambda>c. c\<lparr>lr := 7\<rparr>"] show ?thesis by fastforce
qed

end
