(* ===== verification/Hyp_Linux.thy ===== *)
theory Hyp_Linux
  imports Hyp_Modes
begin

text \<open>
  The Linux-specific set-up of \<open>linux_init.c\<close> and \<open>linux_signal.h\<close>: clearing the boot mappings
  below and above the kernel, the first page tables of the kernel, and the signal return code.
\<close>

section \<open>clear_linux_mappings\<close>

text \<open>Clearing the two descriptors at \<open>address >> 21\<close>, and the loops over an address range. A loop
  does not return when its limit lies in the last 2 MB of the address space and the address
  wraps.\<close>

definition clear_pair :: "u32 \<Rightarrow> 'a machine_scheme \<Rightarrow> 'a machine_scheme" where
  "clear_pair address s =
     (let offset = drop_bit 21 address; pgd = flpt_va s
      in COP_WRITE COP_DCACHE_INVALIDATE_MVA pgd
           (wr (pgd + 4 * (offset + 1)) 0 (wr (pgd + 4 * offset) 0 s)))"

partial_function (option) clear_loop ::
  "u32 \<Rightarrow> u32 \<Rightarrow> 'a machine_scheme \<Rightarrow> (u32 \<times> 'a machine_scheme) option" where
  "clear_loop address lim s =
     (if address < lim then clear_loop (address + 0x200000) lim (clear_pair address s)
      else Some (address, s))"

definition clear_linux_mappings :: "hyp \<Rightarrow> hyp res" where
  "clear_linux_mappings s =
     (let PAGE_OFFSET = page_offset (ginfo s);
          VMALLOC_END = vmalloc_end (ginfo s);
          gsize = guest_size (ginfo s);
          MODULES_VADDR = PAGE_OFFSET - 16 * 1024 * 1024
      in case clear_loop 0 MODULES_VADDR s of
           None \<Rightarrow> Inl (Endless_loop ''clear_linux_mappings'')
         | Some (address, s) \<Rightarrow>
        (case clear_loop address PAGE_OFFSET s of
           None \<Rightarrow> Inl (Endless_loop ''clear_linux_mappings'')
         | Some (address, s) \<Rightarrow>
             panic_if (HAL_VIRT_START < VMALLOC_END) ''Cannot clear out hypervisor page'' 1
             (case clear_loop (PAGE_OFFSET + gsize) VMALLOC_END s of
                None \<Rightarrow> Inl (Endless_loop ''clear_linux_mappings'')
              | Some (address, s) \<Rightarrow> Inr s)))"

section \<open>Signal return code\<close>

definition NR_SYSCALL_BASE :: u32 where [simp]: "NR_SYSCALL_BASE = 0x900000"
definition KERN_SIGRETURN_CODE :: u32 where [simp]: "KERN_SIGRETURN_CODE = 0xFFFF0000 + 0x500"
definition KERN_RESTART_CODE :: u32 where [simp]: "KERN_RESTART_CODE = KERN_SIGRETURN_CODE + 28"

definition MOV_R7_NR :: "u32 \<Rightarrow> u32" where "MOV_R7_NR nr = 0xe3a07000 OR nr"
definition SWI_SYS :: "u32 \<Rightarrow> u32" where
  "SWI_SYS nr = 0xef000000 OR (NR_SYSCALL_BASE + nr) OR NR_SYSCALL_BASE"
definition SWI_THUMB :: "u32 \<Rightarrow> u32" where "SWI_THUMB nr = push_bit 16 0xdf00 OR 0x2700 OR nr"

definition sigreturn_codes :: "u32 list" where
  "sigreturn_codes = [MOV_R7_NR 119, SWI_SYS 119, SWI_THUMB 119, MOV_R7_NR 173, SWI_SYS 173, SWI_THUMB 173, 0]"

definition syscall_restart_code :: "u32 list" where
  "syscall_restart_code = [SWI_SYS 0, 0xe49df004]"

text \<open>\<open>memcpy\<close> from a constant word array.\<close>

fun store_words :: "u32 \<Rightarrow> u32 list \<Rightarrow> 'a machine_scheme \<Rightarrow> 'a machine_scheme" where
  "store_words a [] s = s"
| "store_words a (w # ws) s = store_words (a + 4) ws (wr a w s)"

definition init_linux_sigcode :: "'a machine_scheme \<Rightarrow> 'a machine_scheme" where
  "init_linux_sigcode s =
     store_words KERN_RESTART_CODE syscall_restart_code (store_words KERN_SIGRETURN_CODE sigreturn_codes s)"

section \<open>First page tables\<close>

fun linux_sections :: "nat \<Rightarrow> u32 \<Rightarrow> u32 \<Rightarrow> 'a machine_scheme \<Rightarrow> 'a machine_scheme" where
  "linux_sections 0 i linux_phys_ram s = s"
| "linux_sections (Suc n) i linux_phys_ram s =
     linux_sections n (i + 1) linux_phys_ram
       (snd (pt_create_section (flpt_va s) (0xC0000000 + i * push_bit 20 1)
          (linux_phys_ram + i * push_bit 20 1) MLT_USER_RAM s))"

fun swapper_pages :: "nat \<Rightarrow> u32 \<Rightarrow> u32 \<Rightarrow> u32 \<Rightarrow> 'a machine_scheme \<Rightarrow> 'a machine_scheme" where
  "swapper_pages 0 i phys p s = s"
| "swapper_pages (Suc n) i phys p s =
     (let v = rd (p + 4 * i) s AND PAGE_MASK;
          v = v OR (GET_PHYS (flpt_va s) + phys);
          v = v AND NOT (push_bit MMU_L2_SMALL_AP_SHIFT MMU_L2_SMALL_AP_MASK);
          v = v OR push_bit MMU_L2_SMALL_AP_SHIFT MMU_AP_USER_RO
      in swapper_pages n (i + 1) (phys + 0x1000) p (wr (p + 4 * i) v s))"

definition init_linux_page :: "'a machine_scheme \<Rightarrow> 'a machine_scheme" where
  "init_linux_page s =
     (let linux_phys_ram = HAL_PHYS_START + 0x1000000;
          s = snd (pt_create_coarse (flpt_va s) 0xc0000000 linux_phys_ram 0x100000 MLT_USER_RAM s);
          s = linux_sections 0x4F 1 linux_phys_ram s;
          p = slpt_va s + (l2_index_p s - 1) * 0x400
      in swapper_pages 4 4 0 p s)"

definition linux_init :: "'a machine_scheme \<Rightarrow> 'a machine_scheme" where
  "linux_init s = init_linux_sigcode (init_linux_page s)"

section \<open>What the clearing loop reaches\<close>

definition pair_addresses :: "u32 \<Rightarrow> nat \<Rightarrow> u32 list" where
  "pair_addresses a n = map (\<lambda>k. a + of_nat k * 0x200000) [0..<n]"

lemma pair_addresses_Suc: "pair_addresses a (Suc n) = a # pair_addresses (a + 0x200000) n"
  unfolding pair_addresses_def
  by (subst upt_conv_Cons) (simp_all add: map_Suc_upt [symmetric] algebra_simps del: upt_Suc)

lemma clear_loop_returns:
  assumes "unat lim \<le> 0xFFE00000"
  shows "\<exists>n. clear_loop a lim s = Some (a + of_nat n * 0x200000, fold clear_pair (pair_addresses a n) s)
    \<and> (\<forall>k < n. unat a + k * 0x200000 < unat lim) \<and> unat lim \<le> unat a + n * 0x200000"
proof (induction "unat lim - unat a" arbitrary: a s rule: less_induct)
  case less
  show ?case
  proof (cases "a < lim")
    case False
    then show ?thesis
      by (intro exI [of _ 0])
         (simp add: clear_loop.simps [of a] pair_addresses_def word_less_nat_alt)
  next
    case True
    then have l: "unat a < unat lim" by (simp add: word_less_nat_alt)
    then have u: "unat (a + 0x200000) = unat a + 0x200000" using assms by (simp add: unat_word_ariths)
    have "unat lim - unat (a + 0x200000) < unat lim - unat a" using l u by simp
    from less [OF this, of "clear_pair a s"] obtain n where
      n: "clear_loop (a + 0x200000) lim (clear_pair a s) =
          Some (a + 0x200000 + of_nat n * 0x200000, fold clear_pair (pair_addresses (a + 0x200000) n) (clear_pair a s))"
        "\<forall>k < n. unat a + 0x200000 + k * 0x200000 < unat lim"
        "unat lim \<le> unat a + 0x200000 + n * 0x200000" unfolding u by blast
    have "unat a + k * 0x200000 < unat lim" if "k < Suc n" for k
      using n(2) l that by (cases k) auto
    then show ?thesis using n True
      by (intro exI [of _ "Suc n"])
         (simp add: clear_loop.simps [of a] pair_addresses_Suc algebra_simps)
  qed
qed

lemma fold_clear_frame [simp]:
  "hyper_pt_start (fold clear_pair as s) = hyper_pt_start s"
  "l2_index_p (fold clear_pair as s) = l2_index_p s"
  "machine.more (fold clear_pair as s) = machine.more s"
  "r \<noteq> COP_DCACHE_INVALIDATE_MVA \<or> b \<noteq> 0 \<Longrightarrow> cop (fold clear_pair as s) b r = cop s b r"
  by (induction as arbitrary: s) (auto simp: clear_pair_def Let_def)

lemma drop_21_less: "unat (drop_bit 21 (a :: u32)) < 2048"
  by (simp add: unat_drop_bit_u32) (use unat_u32_less [of a] in linarith)

lemma fold_clear_rd:
  assumes "aligned 2 (hyper_pt_start s)" "unat j < 4096"
  shows "rd (hyper_pt_start s + 4 * j) (fold clear_pair as s) =
    (if \<exists>a \<in> set as. j = drop_bit 21 a \<or> j = drop_bit 21 a + 1 then 0 else rd (hyper_pt_start s + 4 * j) s)"
  using assms
proof (induction as arbitrary: s)
  case (Cons a as)
  have i: "unat (drop_bit 21 a) < 2 ^ 30" "unat (drop_bit 21 a + 1) < 2 ^ 30"
    using drop_21_less [of a] by (simp_all add: unat_word_ariths)
  have c: "rd (hyper_pt_start s + 4 * j) (clear_pair a s) =
      (if j = drop_bit 21 a \<or> j = drop_bit 21 a + 1 then 0 else rd (hyper_pt_start s + 4 * j) s)"
    using Cons.prems i
    by (simp add: clear_pair_def Let_def flpt_va_def rd_table_wr del: distrib_left_numeral)
  have h: "hyper_pt_start (clear_pair a s) = hyper_pt_start s" by (simp add: clear_pair_def Let_def)
  have "rd (hyper_pt_start s + 4 * j) (fold clear_pair as (clear_pair a s)) =
    (if \<exists>a \<in> set as. j = drop_bit 21 a \<or> j = drop_bit 21 a + 1 then 0
     else rd (hyper_pt_start s + 4 * j) (clear_pair a s))"
    using Cons.IH [of "clear_pair a s", unfolded h] Cons.prems by blast
  then show ?case unfolding c by simp
qed simp

lemma fold_clear_hyp [simp]:
  fixes s :: hyp
  shows "curr_vm (fold clear_pair as s) = curr_vm s" "boot (fold clear_pair as s) = boot s"
    "context_stack (fold clear_pair as s) = context_stack s"
    "context_stack_curr (fold clear_pair as s) = context_stack_curr s"
    "cpu (fold clear_pair as s) = cpu s"
  by (rule hyp_more; simp)+

lemma clear_loop_SomeD:
  "clear_loop a lim s = Some (a', s') \<Longrightarrow> \<exists>as. s' = fold clear_pair as s"
proof -
  assume e: "clear_loop a lim s = Some (a', s')"
  have "\<exists>as. snd r = fold clear_pair as s" if "clear_loop a lim s = Some r" for r
  proof (rule clear_loop.raw_induct [where P = "\<lambda>a lim s r. \<exists>as. snd r = fold clear_pair as s", OF _ that])
    fix f :: "u32 \<Rightarrow> u32 \<Rightarrow> 'a machine_scheme \<Rightarrow> (u32 \<times> 'a machine_scheme) option" and a lim s r
    assume IH: "\<And>a lim s r. f a lim s = Some r \<Longrightarrow> \<exists>as. snd r = fold clear_pair as s"
      and e: "(if a < lim then f (a + 0x200000) lim (clear_pair a s) else Some (a, s)) = Some r"
    show "\<exists>as. snd r = fold clear_pair as s"
    proof (cases "a < lim")
      case True
      with e have "f (a + 0x200000) lim (clear_pair a s) = Some r" by simp
      from IH [OF this] obtain as where "snd r = fold clear_pair as (clear_pair a s)" by blast
      then show ?thesis by (intro exI [of _ "a # as"]) simp
    next
      case False
      with e show ?thesis by (intro exI [of _ "[]"]) auto
    qed
  qed
  from this [OF e] show ?thesis by simp
qed

lemma clear_linux_mappings_InrD:
  assumes "clear_linux_mappings s = Inr s'"
  shows "\<exists>as. s' = fold clear_pair as s"
proof -
  obtain a1 s1 where 1: "clear_loop 0 (page_offset (ginfo s) - 16 * 1024 * 1024) s = Some (a1, s1)"
    using assms by (cases "clear_loop 0 (page_offset (ginfo s) - 16 * 1024 * 1024) s")
      (auto simp: clear_linux_mappings_def Let_def)
  obtain a2 s2 where 2: "clear_loop a1 (page_offset (ginfo s)) s1 = Some (a2, s2)"
    using assms 1 by (cases "clear_loop a1 (page_offset (ginfo s)) s1")
      (auto simp: clear_linux_mappings_def Let_def)
  obtain a3 where 3: "clear_loop (page_offset (ginfo s) + guest_size (ginfo s)) (vmalloc_end (ginfo s)) s2
      = Some (a3, s')"
    using assms 1 2
    by (cases "clear_loop (page_offset (ginfo s) + guest_size (ginfo s)) (vmalloc_end (ginfo s)) s2")
      (auto simp: clear_linux_mappings_def Let_def)
  from clear_loop_SomeD [OF 1] clear_loop_SomeD [OF 2] clear_loop_SomeD [OF 3]
  obtain as bs cs where "s1 = fold clear_pair as s" "s2 = fold clear_pair bs s1" "s' = fold clear_pair cs s2"
    by blast
  then have "s' = fold clear_pair (as @ bs @ cs) s" by simp
  then show ?thesis by blast
qed

lemma pair_addresses_in:
  assumes "\<forall>k < n. unat a + k * 0x200000 < unat (lim :: u32)"
  shows "b \<in> set (pair_addresses a n) \<longleftrightarrow> (\<exists>k < n. unat b = unat a + k * 0x200000)"
proof -
  have u: "unat (a + of_nat k * 0x200000) = unat a + k * 0x200000" if "k < n" for k
  proof -
    have l: "unat a + k * 0x200000 < 4294967296"
      by (rule less_trans [OF assms [rule_format, OF that] unat_u32_less])
    then have "unat (of_nat k :: u32) = k" by (intro unat_of_nat_u32) simp
    then show ?thesis using l by (simp add: unat_word_ariths)
  qed
  have e: "b = a + of_nat k * 0x200000 \<longleftrightarrow> unat b = unat a + k * 0x200000" if "k < n" for k
    unfolding word_unat_eq_iff [of b] u [OF that] ..
  have "b \<in> set (pair_addresses a n) \<longleftrightarrow> (\<exists>k < n. b = a + of_nat k * 0x200000)"
    by (auto simp: pair_addresses_def)
  also have "\<dots> \<longleftrightarrow> (\<exists>k < n. unat b = unat a + k * 0x200000)" using e by blast
  finally show ?thesis .
qed

lemma drop_21_eq: "unat a = k * 0x200000 \<Longrightarrow> unat (drop_bit 21 (a :: u32)) = k"
  by (simp add: unat_drop_bit_u32)

text \<open>with the kernel at \<open>0xC0000000\<close>, \<open>clear_linux_mappings\<close> returns and clears exactly the
  lower half of the range it is meant to clear: the descriptors of addresses below
  \<open>0x60000000\<close> become zero, and every descriptor from index \<open>0x781\<close> on survives - among them the
  identity mapping of guest RAM that \<open>memory_init\<close> created at \<open>0x81000000\<close>. The index is computed
  with a shift by 21 although a descriptor covers one megabyte.\<close>

theorem clear_linux_mappings_half:
  assumes "page_offset (ginfo s) = 0xC0000000" "vmalloc_end (ginfo s) \<le> 0xF0000000"
    and "aligned 2 (hyper_pt_start s)"
  shows "\<exists>s'. clear_linux_mappings s = Inr s'
    \<and> (\<forall>j. unat j < 0x600 \<longrightarrow> rd (flpt_va s + 4 * j) s' = 0)
    \<and> (\<forall>j. 0x781 \<le> unat j \<and> unat j < 4096 \<longrightarrow> rd (flpt_va s + 4 * j) s' = rd (flpt_va s + 4 * j) s)"
proof -
  let ?A = "0xC0000000 + guest_size (ginfo s)" and ?V = "vmalloc_end (ginfo s)"
  have V: "unat ?V \<le> 0xF0000000" using assms(2) by (simp add: word_le_nat_alt)
  obtain n1 where n1: "clear_loop 0 0xBF000000 s =
      Some (0 + of_nat n1 * 0x200000, fold clear_pair (pair_addresses 0 n1) s)"
    "\<forall>k < n1. unat (0 :: u32) + k * 0x200000 < unat (0xBF000000 :: u32)"
    "unat (0xBF000000 :: u32) \<le> unat (0 :: u32) + n1 * 0x200000"
    using clear_loop_returns [of "0xBF000000" 0 s] by auto
  have "n1 - 1 < n1" using n1(3) by (cases n1) auto
  then have "(n1 - 1) * 0x200000 < 0xBF000000" using n1(2) by simp
  then have n1e: "n1 = 0x5F8" using n1(3) by simp
  let ?s1 = "fold clear_pair (pair_addresses 0 n1) s"
  obtain n2 where n2: "clear_loop 0xBF000000 0xC0000000 ?s1 =
      Some (0xBF000000 + of_nat n2 * 0x200000, fold clear_pair (pair_addresses 0xBF000000 n2) ?s1)"
    "\<forall>k < n2. unat (0xBF000000 :: u32) + k * 0x200000 < unat (0xC0000000 :: u32)"
    "unat (0xC0000000 :: u32) \<le> unat (0xBF000000 :: u32) + n2 * 0x200000"
    using clear_loop_returns [of "0xC0000000" "0xBF000000" ?s1] by auto
  have n2e: "8 \<le> n2" using n2(3) by simp
  let ?s2 = "fold clear_pair (pair_addresses 0xBF000000 n2) ?s1"
  obtain n3 where n3: "clear_loop ?A ?V ?s2 =
      Some (?A + of_nat n3 * 0x200000, fold clear_pair (pair_addresses ?A n3) ?s2)"
    "\<forall>k < n3. unat ?A + k * 0x200000 < unat ?V"
    using clear_loop_returns [of ?V ?A ?s2] V by auto
  let ?as = "pair_addresses 0 n1 @ pair_addresses 0xBF000000 n2 @ pair_addresses ?A n3"
  have e: "clear_linux_mappings s = Inr (fold clear_pair ?as s)"
    using n1(1) n2(1) n3(1) assms(1,2)
    by (simp add: clear_linux_mappings_def Let_def n1e not_less panic_if_def)
  have low: "\<exists>a \<in> set ?as. j = drop_bit 21 a" if "unat j < 0x600" for j :: u32
  proof -
    define a :: u32 where "a = push_bit 21 j"
    have a: "unat a = unat j * 0x200000"
      using that by (simp add: a_def push_bit_eq_mult unat_word_ariths)
    then have "j = drop_bit 21 a" by (simp add: word_unat_eq_iff drop_21_eq)
    moreover have "a \<in> set (pair_addresses 0 n1) \<or> a \<in> set (pair_addresses 0xBF000000 n2)"
    proof (cases "unat j < 0x5F8")
      case True
      then show ?thesis using a pair_addresses_in [OF n1(2)] by (auto simp: n1e)
    next
      case False
      then have "unat j - 0x5F8 < n2" using n2e that by simp
      then show ?thesis using a False pair_addresses_in [OF n2(2)] by force
    qed
    ultimately show ?thesis by auto
  qed
  have high: "unat (drop_bit 21 a) < 0x780" if "a \<in> set ?as" for a
  proof -
    have "unat a < 0xF0000000"
      using that V pair_addresses_in [OF n1(2)] pair_addresses_in [OF n2(2)]
        pair_addresses_in [OF n3(2)] n1(2) n2(2) n3(2) by fastforce
    then show ?thesis by (simp add: unat_drop_bit_u32)
  qed
  have "\<not> (\<exists>a \<in> set ?as. j = drop_bit 21 a \<or> j = drop_bit 21 a + 1)" if "0x781 \<le> unat j" for j
  proof
    assume "\<exists>a \<in> set ?as. j = drop_bit 21 a \<or> j = drop_bit 21 a + 1"
    then obtain a where a: "a \<in> set ?as" "j = drop_bit 21 a \<or> j = drop_bit 21 a + 1" by blast
    then have "unat j \<le> unat (drop_bit 21 a) + 1"
      using high [OF a(1)] by (auto simp: unat_word_ariths)
    then show False using high [OF a(1)] that by simp
  qed
  with low e obtain as where as: "clear_linux_mappings s = Inr (fold clear_pair as s)"
    "\<And>j. unat j < 0x600 \<Longrightarrow> \<exists>a \<in> set as. j = drop_bit 21 a"
    "\<And>j. 0x781 \<le> unat j \<Longrightarrow> \<not> (\<exists>a \<in> set as. j = drop_bit 21 a \<or> j = drop_bit 21 a + 1)" by blast
  show ?thesis
  proof (intro exI conjI allI impI)
    show "clear_linux_mappings s = Inr (fold clear_pair as s)" by (rule as(1))
    show "rd (flpt_va s + 4 * j) (fold clear_pair as s) = 0" if "unat j < 0x600" for j
      unfolding flpt_va_def using that as(2) [OF that] by (subst fold_clear_rd [OF assms(3)]) auto
    show "rd (flpt_va s + 4 * j) (fold clear_pair as s) = rd (flpt_va s + 4 * j) s"
      if "0x781 \<le> unat j \<and> unat j < 4096" for j
      unfolding flpt_va_def using that as(3) [of j] by (subst fold_clear_rd [OF assms(3)]) auto
  qed
qed

theorem clear_linux_mappings_half_witness:
  "\<exists>s'. clear_linux_mappings (wr 0xF0082040 0x81000C2E (demo_hyp HC_GM_KERNEL)) = Inr s'
    \<and> rd 0xF0082040 s' = 0x81000C2E"
proof -
  let ?s = "wr 0xF0082040 0x81000C2E (demo_hyp HC_GM_KERNEL)"
  have "page_offset (ginfo ?s) = 0xC0000000" "vmalloc_end (ginfo ?s) \<le> 0xF0000000"
    "aligned 2 (hyper_pt_start ?s)" by (simp_all add: aligned_def)
  from clear_linux_mappings_half [OF this] obtain s' where
    s': "clear_linux_mappings ?s = Inr s'"
      "\<forall>j. 0x781 \<le> unat j \<and> unat j < 4096 \<longrightarrow> rd (flpt_va ?s + 4 * j) s' = rd (flpt_va ?s + 4 * j) ?s"
    by blast
  from s'(2) [rule_format, of "0x810"] have "rd 0xF0082040 s' = 0x81000C2E" by (simp add: flpt_va_def)
  with s'(1) show ?thesis by blast
qed

end
