(* ===== verification/Hyp_Calls.thy ===== *)
theory Hyp_Calls
  imports Hyp_Linux
begin

text \<open>
  The hypercalls of \<open>hypercalls.c\<close>, \<open>hyp_cache.c\<close> and \<open>hyp_cpu.c\<close>: guest registration, the two
  ways a guest kernel restores a saved register frame, and cache and TLB maintenance.
\<close>

section \<open>hypercall_guest_init\<close>

text \<open>\<open>boot_info\<close> in guest memory: the five words of \<open>guest_info\<close>, then \<open>cpu_id\<close>, \<open>cpu_mmf\<close> and
  \<open>cpu_cr\<close>.\<close>

definition hypercall_guest_init :: "u32 \<Rightarrow> hyp \<Rightarrow> hyp res" where
  "hypercall_guest_init info s =
     (let sz = 32 in
      panic_if (boot s \<noteq> 0) ''Guest tried to set boot info twice'' 1
      (panic_if (info < 0xC0000000 \<or> HAL_VIRT_START - sz < info) ''Pointer given does not reside in kernel space'' 1
       (let s = s\<lparr>boot := boot s + 1\<rparr>;
            cpuid = COP_READ COP_ID_CPU s;
            mmf = COP_READ COP_ID_MEMORY_MODEL_FEAT s;
            cr = COP_READ COP_SYSTEM_CONTROL s;
            s = wr (info + 20) cpuid s;
            s = wr (info + 24) mmf s;
            s = wr (info + 28) cr s;
            gi = \<lparr>nr_syscalls = rd info s, page_offset = rd (info + 4) s, phys_offset = rd (info + 8) s,
              vmalloc_end = rd (info + 12) s, guest_size = rd (info + 16) s\<rparr>;
            s = upd_vm (\<lambda>vm. vm\<lparr>guest_info_of := gi\<rparr>) s;
            s = upd_vm (\<lambda>vm. vm\<lparr>exception_vector := rd (info + 4) s\<rparr>) s
        in clear_linux_mappings s)))"

section \<open>Restoring registers\<close>

text \<open>Copying \<open>n\<close> words from memory to the context array, from index \<open>i\<close>.\<close>

fun ctx_load :: "nat \<Rightarrow> nat \<Rightarrow> u32 \<Rightarrow> u32 \<Rightarrow> hyp \<Rightarrow> hyp" where
  "ctx_load 0 i m regs s = s"
| "ctx_load (Suc n) i m regs s = ctx_load n (Suc i) m (regs + 4) (upd_ctx m (ctx_set i (rd regs s)) s)"

definition hypercall_restore_regs :: "u32 \<Rightarrow> hyp \<Rightarrow> hyp res" where
  "hypercall_restore_regs regs s =
     (let sz = 4 * 17 in
      panic_if (regs < 0xC0000000 \<or> HAL_VIRT_START - sz < regs) ''Pointer does not reside in kernel space'' 1
      (with_cur s (\<lambda>cur.
         let s = ctx_load 16 0 cur regs s
         in Inr (upd_ctx cur (ctx_set 16 (0xFFFFFFF0 AND rd (regs + 64) s)) s))))"

definition hypercall_restore_linux_regs :: "u32 \<Rightarrow> bool \<Rightarrow> hyp \<Rightarrow> hyp res" where
  "hypercall_restore_linux_regs return_value syscall s =
     (let offset = (if syscall then 8 else 0);
          p = sp (mode_ctx HC_GM_KERNEL s);
          sz = 4 * 17
      in panic_if (p < 0xC0000000 \<or> HAL_VIRT_START - sz < p) ''Pointer does not reside in kernel space'' 1
         (let mode = rd (p + 4 * (16 + offset div 4)) s;
              stack_pc = rd (p + 4 * 15) s;
              kernel_space =
                (if stack_pc < 0xC0000000 \<or> (stack_pc < 0xFFFF1000 \<and> stack_pc \<ge> 0xFFFF0FA0) then False else True)
          in if kernel_space
             then let s = ctx_load 13 0 HC_GM_KERNEL p s;
                      s = upd_ctx HC_GM_KERNEL (ctx_set 14 (rd (p + 4 * 14) s)) s;
                      s = upd_ctx HC_GM_KERNEL (\<lambda>c. c\<lparr>psr := 0xFFFFFFF0 AND mode\<rparr>) s;
                      s = upd_ctx HC_GM_KERNEL (\<lambda>c. c\<lparr>pc := stack_pc\<rparr>) s;
                      s = upd_ctx HC_GM_KERNEL (\<lambda>c. c\<lparr>sp := sp c + 18 * 4\<rparr>) s
                  in change_guest_mode HC_GM_KERNEL s
             else let s = (if syscall
                           then ctx_load 15 1 HC_GM_TASK (p + 4 * 3)
                             (upd_ctx HC_GM_TASK (\<lambda>c. c\<lparr>reg := (reg c)(0 := return_value)\<rparr>) s)
                           else ctx_load 16 0 HC_GM_TASK p s);
                      s = upd_ctx HC_GM_TASK (\<lambda>c. c\<lparr>psr := 0xFFFFFFF0 AND mode\<rparr>) s;
                      s = upd_ctx HC_GM_KERNEL (\<lambda>c. c\<lparr>sp := sp c + (18 * 4 + offset)\<rparr>) s
                  in change_guest_mode HC_GM_TASK s))"

definition hypercall_num_error :: "u32 \<Rightarrow> hyp \<Rightarrow> hyp res" where
  "hypercall_num_error hypercall_num s =
     with_cur s (\<lambda>cur. let addr = pc (mode_ctx cur s) - 4 in Inl (Unknown_hypercall hypercall_num addr))"

definition hypercall_set_tls :: "u32 \<Rightarrow> hyp \<Rightarrow> hyp res" where
  "hypercall_set_tls thread_id s = Inr (COP_WRITE COP_SOFTWARE_THREAD_ID_USER_R thread_id s)"

section \<open>Cache and TLB\<close>

definition hypercall_dcache_flush_area :: "u32 \<Rightarrow> u32 \<Rightarrow> hyp \<Rightarrow> hyp res" where
  "hypercall_dcache_flush_area va sz s = mem_cache_dcache_area va sz FLUSH s"

definition hypercall_dcache_clean_area :: "u32 \<Rightarrow> u32 \<Rightarrow> hyp \<Rightarrow> hyp res" where
  "hypercall_dcache_clean_area va sz s = mem_cache_dcache_area va sz CLEAN s"

definition hypercall_dcache_invalidate_mva :: "u32 \<Rightarrow> hyp \<Rightarrow> hyp" where
  "hypercall_dcache_invalidate_mva va s = dsb (COP_WRITE COP_DCACHE_INVALIDATE_MVA va s)"

definition hypercall_icache_invalidate_all :: "hyp \<Rightarrow> hyp" where
  "hypercall_icache_invalidate_all s = COP_WRITE COP_ICACHE_INVALIDATE_ALL 0 s"

definition hypercall_icache_invalidate_mva :: "u32 \<Rightarrow> hyp \<Rightarrow> hyp res" where
  "hypercall_icache_invalidate_mva va s = Inl (Hyper_panic ''Not implemented!'' 1)"

definition hypercall_branch_invalidate_all :: "hyp \<Rightarrow> hyp" where
  "hypercall_branch_invalidate_all s = COP_WRITE COP_BRANCH_PRED_INVAL_ALL 0 s"

definition hypercall_flush_all :: "hyp \<Rightarrow> hyp" where
  "hypercall_flush_all s = mem_cache_invalidate True True True (mem_mmu_tlb_invalidate_all True True s)"

definition hypercall_tlb_invalidate_mva :: "u32 \<Rightarrow> hyp \<Rightarrow> hyp" where
  "hypercall_tlb_invalidate_mva va s = COP_WRITE COP_TLB_INVALIDATE_MVA va s"

definition hypercall_tlb_invalidate_asid :: "u32 \<Rightarrow> hyp \<Rightarrow> hyp" where
  "hypercall_tlb_invalidate_asid asid s = COP_WRITE COP_TLB_INVALIDATE_ASID asid s"

definition hypercall_cache_op :: "u32 \<Rightarrow> u32 \<Rightarrow> u32 \<Rightarrow> hyp \<Rightarrow> hyp res" where
  "hypercall_cache_op op va sz s =
     (if op = 0 then Inr (hypercall_flush_all s)
      else if op = 1 then hypercall_dcache_flush_area va sz s
      else if op = 2 then hypercall_dcache_clean_area va sz s
      else if op = 3 then Inr (hypercall_dcache_invalidate_mva va s)
      else if op = 4 then Inr (hypercall_icache_invalidate_all s)
      else if op = 5 then hypercall_icache_invalidate_mva va s
      else if op = 6 then Inr (hypercall_branch_invalidate_all s)
      else if op = 7 then Inr (COP_WRITE COP_TLB_INVALIDATE_ALL 0 s)
      else if op = 8 then Inr (hypercall_tlb_invalidate_mva va s)
      else if op = 9 then Inr (hypercall_tlb_invalidate_asid va s)
      else Inr s)"

section \<open>Operations that leave the virtual machine alone\<close>

text \<open>\<open>same_vm\<close>: an operation on the machine that touches neither the virtual machine, nor the
  context stack, nor the domain register. It keeps the invariant.\<close>

definition same_vm :: "hyp \<Rightarrow> hyp \<Rightarrow> bool" where
  "same_vm s t \<longleftrightarrow> machine.more s = machine.more t
     \<and> cop s 0 COP_SYSTEM_DOMAIN = cop t 0 COP_SYSTEM_DOMAIN"

lemma same_vm_refl [simp]: "same_vm s s"
  by (simp add: same_vm_def)

lemma same_vm_trans: "same_vm s t \<Longrightarrow> same_vm t u \<Longrightarrow> same_vm s u"
  by (simp add: same_vm_def)

lemma same_vmD:
  assumes "same_vm s t"
  shows "curr_vm t = curr_vm s" "boot t = boot s" "context_stack t = context_stack s"
    "context_stack_curr t = context_stack_curr s" "cpu t = cpu s"
    "mode_state m t = mode_state m s" "mode_ctx m t = mode_ctx m s"
    "cop t 0 COP_SYSTEM_DOMAIN = cop s 0 COP_SYSTEM_DOMAIN"
  using assms hyp_more [of t s] by (simp_all add: same_vm_def mode_state_def mode_ctx_def)

lemma same_vm_inv: "same_vm s t \<Longrightarrow> vm_inv t \<longleftrightarrow> vm_inv s"
  by (simp add: vm_inv_def current_inv_def config_inv_def psr_inv_def rpc_inv_def interrupted_inv_def
      same_vmD)

lemma same_vm_prims [simp]:
  "r \<noteq> COP_SYSTEM_DOMAIN \<Longrightarrow> same_vm s (COP_WRITE r v t) \<longleftrightarrow> same_vm s t"
  "b \<noteq> 0 \<Longrightarrow> same_vm s (COP_WRITE2 b r v t) \<longleftrightarrow> same_vm s t"
  "same_vm s (isb t) \<longleftrightarrow> same_vm s t" "same_vm s (dsb t) \<longleftrightarrow> same_vm s t"
  "same_vm s (wr a v t) \<longleftrightarrow> same_vm s t"
  by (auto simp: same_vm_def)

lemma setway_more [simp]:
  "machine.more (setway level c s) = machine.more s"
  "r \<noteq> setway_reg c \<Longrightarrow> cop (setway level c s) 0 r = cop s 0 r"
  by (simp_all add: setway_def Let_def)

lemma icache_levels_more [simp]:
  "machine.more (icache_levels n level clidr c s) = machine.more s"
  "r \<noteq> setway_reg c \<Longrightarrow> cop (icache_levels n level clidr c s) 0 r = cop s 0 r"
  by (induction n arbitrary: level s) (simp_all add: Let_def)

lemma domain_ne_setway [simp]: "COP_SYSTEM_DOMAIN \<noteq> setway_reg c" "setway_reg c \<noteq> COP_SYSTEM_DOMAIN"
  by (simp_all add: setway_reg_def)

lemma same_vm_cache_invalidate [simp]:
  "same_vm s (mem_cache_invalidate i d w t) \<longleftrightarrow> same_vm s t"
  by (auto simp: mem_cache_invalidate_def mem_icache_invalidate_def Let_def same_vm_def)

lemma same_vm_tlb_all [simp]: "same_vm s (mem_mmu_tlb_invalidate_all i d t) \<longleftrightarrow> same_vm s t"
  by (simp add: mem_mmu_tlb_invalidate_all_def)

lemma dcache_loop_some_fold:
  assumes "dcache_loop r nxt cs lim s = Some s'"
  shows "\<exists>vs. s' = fold (COP_WRITE r) vs s"
proof (rule dcache_loop.raw_induct
    [where P = "\<lambda>r nxt cs lim s s'. \<exists>vs. s' = fold (COP_WRITE r) vs s", OF _ assms])
  fix f :: "cop_reg \<Rightarrow> u32 \<Rightarrow> u32 \<Rightarrow> u32 \<Rightarrow> 'a machine_scheme \<Rightarrow> 'a machine_scheme option"
  fix r nxt cs lim s s'
  assume IH: "\<And>r nxt cs lim s s'. f r nxt cs lim s = Some s' \<Longrightarrow> \<exists>vs. s' = fold (COP_WRITE r) vs s"
    and e: "(let s = COP_WRITE r nxt s; next = nxt + cs
      in if next < lim then f r next cs lim s else Some s) = Some s'"
  show "\<exists>vs. s' = fold (COP_WRITE r) vs s"
  proof (cases "nxt + cs < lim")
    case True
    with e have "f r (nxt + cs) cs lim (COP_WRITE r nxt s) = Some s'" by (simp add: Let_def)
    from IH [OF this] obtain vs where "s' = fold (COP_WRITE r) vs (COP_WRITE r nxt s)" by blast
    then show ?thesis by (intro exI [of _ "nxt # vs"]) simp
  next
    case False
    with e show ?thesis by (intro exI [of _ "[nxt]"]) (simp add: Let_def)
  qed
qed

lemma mem_cache_dcache_area_same_vm:
  "mem_cache_dcache_area va sz op s = Inr s' \<Longrightarrow> same_vm s s'"
proof -
  assume "mem_cache_dcache_area va sz op s = Inr s'"
  then obtain r cs t where t: "dcache_loop r va cs (va + sz) s = Some t" "s' = dsb t" "r = dcache_reg op"
    by (auto simp: mem_cache_dcache_area_def Let_def split: option.splits)
  then obtain vs where "t = fold (COP_WRITE r) vs s" using dcache_loop_some_fold by blast
  moreover have "COP_SYSTEM_DOMAIN \<noteq> r" by (simp add: t(3) dcache_reg_def split: cache_op.splits)
  ultimately show ?thesis using t(2) by (simp add: same_vm_def fold_cop_other)
qed

lemma hypercall_cache_op_same_vm: "hypercall_cache_op op va sz s = Inr s' \<Longrightarrow> same_vm s s'"
  by (auto simp: hypercall_cache_op_def hypercall_flush_all_def hypercall_dcache_flush_area_def
      hypercall_dcache_clean_area_def hypercall_dcache_invalidate_mva_def
      hypercall_icache_invalidate_all_def hypercall_icache_invalidate_mva_def
      hypercall_branch_invalidate_all_def hypercall_tlb_invalidate_mva_def
      hypercall_tlb_invalidate_asid_def mem_cache_dcache_area_same_vm split: if_splits)

section \<open>Loading a context from memory\<close>

lemma ctx_load_frame [simp]:
  "ram (ctx_load n i m regs s) = ram s" "cop (ctx_load n i m regs s) = cop s"
  "hyper_pt_start (ctx_load n i m regs s) = hyper_pt_start s"
  "l2_index_p (ctx_load n i m regs s) = l2_index_p s"
  "boot (ctx_load n i m regs s) = boot s" "cpu (ctx_load n i m regs s) = cpu s"
  "context_stack (ctx_load n i m regs s) = context_stack s"
  "context_stack_curr (ctx_load n i m regs s) = context_stack_curr s"
  "guest_mode (ctx_load n i m regs s) = guest_mode s"
  "interrupted_mode (curr_vm (ctx_load n i m regs s)) = interrupted_mode (curr_vm s)"
  "current_mode_state (curr_vm (ctx_load n i m regs s)) = current_mode_state (curr_vm s)"
  "ginfo (ctx_load n i m regs s) = ginfo s"
  "exception_vector (curr_vm (ctx_load n i m regs s)) = exception_vector (curr_vm s)"
  "config (curr_vm (ctx_load n i m regs s)) = config (curr_vm s)"
  "rpc_for (mode_state k (ctx_load n i m regs s)) = rpc_for (mode_state k s)"
  "rpc_to (mode_state k (ctx_load n i m regs s)) = rpc_to (mode_state k s)"
  "mode_config (mode_state k (ctx_load n i m regs s)) = mode_config (mode_state k s)"
  "k \<noteq> m \<Longrightarrow> mode_ctx k (ctx_load n i m regs s) = mode_ctx k s"
  by (induction n arbitrary: i regs s) simp_all

lemma rd_ctx_load [simp]: "rd a (ctx_load n i m regs s) = rd a s"
  by (simp add: rd_def)

text \<open>Word \<open>j\<close> of the loaded context.\<close>

lemma ctx_load_word:
  "i + n \<le> 17 \<Longrightarrow> j < 17 \<Longrightarrow> ctx_word (mode_ctx m (ctx_load n i m regs s)) j =
     (if i \<le> j \<and> j < i + n then rd (regs + 4 * of_nat (j - i)) s else ctx_word (mode_ctx m s) j)"
proof (induction n arbitrary: i regs s)
  case (Suc n)
  have "rd (regs + 4 + 4 * of_nat (j - Suc i)) s = rd (regs + 4 * of_nat (j - i)) s" if "Suc i \<le> j"
  proof -
    have "j - i = Suc (j - Suc i)" using that by simp
    then show ?thesis by (simp add: algebra_simps)
  qed
  then show ?case using Suc.prems by (auto simp: Suc.IH ctx_word_set)
qed auto

lemma ctx_word_psr: "psr c = ctx_word c 16" and ctx_word_pc: "pc c = ctx_word c 15"
  and ctx_word_lr: "lr c = ctx_word c 14" and ctx_word_sp: "sp c = ctx_word c 13"
  by (simp_all add: ctx_word_def)

lemma psr_ctx_load: "i + n \<le> 16 \<Longrightarrow> psr (mode_ctx k (ctx_load n i m regs s)) = psr (mode_ctx k s)"
  by (cases "k = m") (simp_all add: ctx_word_psr ctx_load_word)

lemma ctx_load_inv: "vm_inv s \<Longrightarrow> i + n \<le> 16 \<Longrightarrow> vm_inv (ctx_load n i m regs s)"
  by (auto simp: vm_inv_def current_inv_def config_inv_def psr_inv_def rpc_inv_def interrupted_inv_def
      psr_ctx_load)

lemma upd_psr_inv:
  "vm_inv s \<Longrightarrow> v AND 0xF = 0 \<Longrightarrow> vm_inv (upd_ctx m (\<lambda>c. c\<lparr>psr := v\<rparr>) s)"
  by (rule upd_ctx_inv) simp_all

lemma upd_other_inv:
  "vm_inv s \<Longrightarrow> (\<And>c. psr (f c) = psr c) \<Longrightarrow> vm_inv (upd_ctx m f s)"
  by (rule upd_ctx_inv) simp_all

lemma ctx_set_psr [simp]:
  "i < 16 \<Longrightarrow> psr (ctx_set i v c) = psr c" "psr (ctx_set 16 v c) = v"
  by (auto simp: ctx_set_def)

lemma hypercall_restore_regs_inv: "keeps_vm_inv (hypercall_restore_regs regs)"
  by (auto simp: keeps_vm_inv_def hypercall_restore_regs_def Let_def with_cur_eq panic_if_def
      split: if_splits intro!: upd_ctx_inv ctx_load_inv)

lemma restore_kernel_inv:
  assumes "vm_inv s"
  shows "vm_inv (upd_ctx 1 (\<lambda>c. c\<lparr>sp := sp c + k\<rparr>) (upd_ctx 1 (\<lambda>c. c\<lparr>pc := p\<rparr>)
     (upd_ctx 1 (\<lambda>c. c\<lparr>psr := 0xFFFFFFF0 AND q\<rparr>) (upd_ctx 1 (ctx_set 14 l) (ctx_load 13 0 1 a s)))))"
  by (intro upd_other_inv upd_psr_inv ctx_load_inv assms) simp_all

lemma hypercall_restore_linux_regs_inv: "keeps_vm_inv (hypercall_restore_linux_regs rv syscall)"
  by (auto simp: keeps_vm_inv_def hypercall_restore_linux_regs_def Let_def panic_if_def
      split: if_splits
      elim!: change_guest_mode_inv [rotated]
      intro!: upd_other_inv upd_psr_inv ctx_load_inv)

lemma guest_info_inv:
  "vm_inv (upd_vm (\<lambda>vm. vm\<lparr>exception_vector := e\<rparr>) (upd_vm (\<lambda>vm. vm\<lparr>guest_info_of := g\<rparr>) s)) \<longleftrightarrow> vm_inv s"
  by (simp add: vm_inv_def current_inv_def config_inv_def psr_inv_def rpc_inv_def interrupted_inv_def)

lemma boot_inv: "vm_inv (s\<lparr>boot := b\<rparr>) \<longleftrightarrow> vm_inv s"
  by (simp add: vm_inv_def current_inv_def config_inv_def psr_inv_def rpc_inv_def interrupted_inv_def
      mode_state_def mode_ctx_def)

lemma same_vm_fold_clear [simp]: "same_vm s (fold clear_pair as s)"
  by (simp add: same_vm_def)

lemma hypercall_guest_init_inv: "keeps_vm_inv (hypercall_guest_init info)"
  unfolding keeps_vm_inv_def
proof (intro allI impI, elim conjE)
  fix s s' assume i: "vm_inv s" and e: "hypercall_guest_init info s = Inr s'"
  let ?w = "wr (info + 28) (COP_READ COP_SYSTEM_CONTROL (s\<lparr>boot := boot s + 1\<rparr>))
    (wr (info + 24) (COP_READ COP_ID_MEMORY_MODEL_FEAT (s\<lparr>boot := boot s + 1\<rparr>))
      (wr (info + 20) (COP_READ COP_ID_CPU (s\<lparr>boot := boot s + 1\<rparr>)) (s\<lparr>boot := boot s + 1\<rparr>)))"
  obtain g v where "clear_linux_mappings (upd_vm (\<lambda>vm. vm\<lparr>exception_vector := v\<rparr>)
      (upd_vm (\<lambda>vm. vm\<lparr>guest_info_of := g\<rparr>) ?w)) = Inr s'"
    using e by (auto simp: hypercall_guest_init_def Let_def)
  then obtain as where s': "s' = fold clear_pair as (upd_vm (\<lambda>vm. vm\<lparr>exception_vector := v\<rparr>)
      (upd_vm (\<lambda>vm. vm\<lparr>guest_info_of := g\<rparr>) ?w))"
    using clear_linux_mappings_InrD by blast
  have "vm_inv ?w" using i by (subst same_vm_inv [of "s\<lparr>boot := boot s + 1\<rparr>"]) (simp_all add: boot_inv)
  then show "vm_inv s'"
    unfolding s' by (subst same_vm_inv [OF same_vm_fold_clear]) (simp only: guest_info_inv)
qed

section \<open>Properties\<close>

definition kernel_range :: "u32 \<Rightarrow> bool" where
  "kernel_range p \<longleftrightarrow> 0xC0000000 \<le> p \<and> p \<le> HAL_VIRT_START - 68"

text \<open>\<open>hypercall_restore_regs\<close> loads the sixteen registers of the current mode from the guest's
  frame word by word and its status register with the low four bits cleared; a frame outside the
  kernel's address range stops the machine; no other mode changes.\<close>

theorem restore_regs_loads_frame:
  assumes "vm_inv s"
  shows "if kernel_range regs
    then \<exists>s'. hypercall_restore_regs regs s = Inr s'
      \<and> (\<forall>j < 16. ctx_word (mode_ctx (guest_mode s) s') j = rd (regs + 4 * of_nat j) s)
      \<and> psr (mode_ctx (guest_mode s) s') = 0xFFFFFFF0 AND rd (regs + 64) s
      \<and> (\<forall>m. m \<noteq> guest_mode s \<longrightarrow> mode_ctx m s' = mode_ctx m s) \<and> guest_mode s' = guest_mode s
    else hypercall_restore_regs regs s = Inl (Hyper_panic ''Pointer does not reside in kernel space'' 1)"
  using assms
  by (auto simp: hypercall_restore_regs_def kernel_range_def with_cur_eq panic_if_def Let_def not_le
      ctx_word_set ctx_load_word)

theorem restore_regs_loads_frame_witness:
  "\<exists>s'. hypercall_restore_regs 0xC0002000 (wr 0xC0002040 0x6000001F (demo_hyp HC_GM_KERNEL)) = Inr s'
    \<and> psr (mode_ctx HC_GM_KERNEL s') = 0x60000010"
proof -
  let ?s = "wr 0xC0002040 0x6000001F (demo_hyp HC_GM_KERNEL)"
  have "vm_inv ?s" using demo_hyp_inv [of 1] by (subst same_vm_inv [of "demo_hyp 1"]) simp_all
  from restore_regs_loads_frame [OF this, of "0xC0002000"] show ?thesis
    by (auto simp: kernel_range_def)
qed

text \<open>C16: returning to user code. When the frame's program counter slot is a user address,
  \<open>hypercall_restore_linux_regs\<close> resumes the task mode: its registers are the sixteen words of the
  frame (after a system call the frame starts 8 bytes higher and the first register is the return
  value), the status register has its low bits cleared, the kernel stack is popped, and the domain
  register gives the task's domains.\<close>

theorem restore_linux_regs_task:
  assumes "vm_inv s" "p = sp (mode_ctx HC_GM_KERNEL s)" "kernel_range p"
    and "rd (p + 60) s < 0xC0000000" "off = (if syscall then 8 else 0)"
  shows "\<exists>s'. hypercall_restore_linux_regs rv syscall s = Inr s' \<and> guest_mode s' = HC_GM_TASK
    \<and> (\<forall>j < 16. ctx_word (mode_ctx HC_GM_TASK s') j =
         (if syscall \<and> j = 0 then rv else rd (p + off + 4 * of_nat j) s))
    \<and> psr (mode_ctx HC_GM_TASK s') = 0xFFFFFFF0 AND rd (p + off + 64) s
    \<and> sp (mode_ctx HC_GM_KERNEL s') = p + 72 + off
    \<and> cop s' 0 COP_SYSTEM_DOMAIN = HC_DOMAC_TASK"
proof -
  have r: "rd (p + (8 + 4 * of_nat j)) s = rd (p + 12 + 4 * of_nat (j - 1)) s" if "0 < j" for j
  proof -
    have "j = Suc (j - 1)" using that by simp
    then have "(of_nat j :: u32) = 1 + of_nat (j - 1)" by (metis of_nat_Suc)
    then show ?thesis by (simp add: algebra_simps)
  qed
  have c: "config_inv s" using assms(1) by (rule vm_invD)
  have ci: "config_inv (upd_ctx m f t) \<longleftrightarrow> config_inv t" "config_inv (ctx_load n i m a t) \<longleftrightarrow> config_inv t"
    for m f t n i a by (simp_all add: config_inv_def)
  have w: "ctx_word (c\<lparr>psr := v\<rparr>) j = ctx_word c j" if "j < 16" for c v j
    using that by (simp add: ctx_word_def)
  have w0: "ctx_word (c\<lparr>reg := (reg c)(0 := v)\<rparr>) j = (if j = 0 then v else ctx_word c j)" for c v j
    by (simp add: ctx_word_def)
  show ?thesis
    using assms(2-5) c
    by (auto simp: hypercall_restore_linux_regs_def kernel_range_def panic_if_def Let_def not_le
        change_guest_mode_eq ci mode_domain_simps [simplified] w w0 ctx_load_word r add.assoc)
qed

theorem restore_linux_regs_task_witness:
  "\<exists>s'. hypercall_restore_linux_regs 5 True (demo_hyp HC_GM_KERNEL) = Inr s'
    \<and> guest_mode s' = HC_GM_TASK \<and> reg (mode_ctx HC_GM_TASK s') 0 = 5
    \<and> sp (mode_ctx HC_GM_KERNEL s') = 0xC0100050"
proof -
  have p: "0xC0100000 = sp (mode_ctx HC_GM_KERNEL (demo_hyp HC_GM_KERNEL))" by (simp add: demo_ctx_def)
  have i: "vm_inv (demo_hyp HC_GM_KERNEL)" by (rule demo_hyp_inv) simp
  have "kernel_range 0xC0100000" by (simp add: kernel_range_def)
  moreover have "rd (0xC0100000 + 60) (demo_hyp HC_GM_KERNEL) < 0xC0000000"
    by (simp add: rd_def load32_def)
  ultimately obtain s' where s': "hypercall_restore_linux_regs 5 True (demo_hyp HC_GM_KERNEL) = Inr s'"
    "guest_mode s' = HC_GM_TASK" "\<forall>j < 16. ctx_word (mode_ctx HC_GM_TASK s') j =
      (if True \<and> j = 0 then 5 else rd (0xC0100000 + 8 + 4 * of_nat j) (demo_hyp HC_GM_KERNEL))"
    "sp (mode_ctx HC_GM_KERNEL s') = 0xC0100000 + 72 + 8"
    using restore_linux_regs_task [OF i p, of 8 True 5] by auto
  from s'(3) [rule_format, of 0] have "reg (mode_ctx HC_GM_TASK s') 0 = 5" by (simp add: ctx_word_def)
  with s'(1,2,4) show ?thesis by auto
qed

end
