(* ===== verification/Hyp_Mmu.thy ===== *)
theory Hyp_Mmu
  imports Hyp_Calls
begin

text \<open>
  The page-table hypercalls of \<open>hyp_mmu.c\<close>: sections, table switches, new and freed page
  directories, first-level and second-level entries. Every check, coprocessor write and barrier
  is in the order of the code; pointers are 32-bit addresses.
\<close>

section \<open>The code\<close>

definition hypercall_create_section :: "u32 \<Rightarrow> u32 \<Rightarrow> u32 \<Rightarrow> hyp \<Rightarrow> hyp res" where
  "hypercall_create_section va pa page_attr s =
     (let PHYS_OFFSET = phys_offset (ginfo s);
          gsize = guest_size (ginfo s);
          page_attr = page_attr AND NOT MMU_L1_DOMAIN_MASK;
          page_attr = page_attr OR push_bit MMU_L1_DOMAIN_SHIFT HC_DOM_KERNEL
      in panic_if (HAL_VIRT_START \<le> va \<and> va < HAL_VIRT_START + MAX_TRUSTED_SIZE)
           ''Guest trying to map sensitive section virtual address'' 1
         (panic_if (\<not> (PHYS_OFFSET \<le> pa \<and> pa < PHYS_OFFSET + gsize))
           ''Guest does not own section physical address'' 1
          (let offset = drop_bit MMU_L1_SECTION_SHIFT va * 4;
               pmd = flpt_va s + offset
           in if va = 0xc0000000 then Inr s
              else Inr (COP_WRITE COP_DCACHE_INVALIDATE_MVA pmd (wr pmd (pa OR page_attr) s)))))"

definition LINUX_VA :: "u32 \<Rightarrow> hyp \<Rightarrow> u32" where
  "LINUX_VA x s = drop_bit 24 (push_bit 4 (x - phys_offset (ginfo s))) + 0xc00"

definition hypercall_switch_mm :: "u32 \<Rightarrow> u32 \<Rightarrow> hyp \<Rightarrow> hyp res" where
  "hypercall_switch_mm table_base context_id s =
     (let pgd_size = 0x4000;
          PAGE_OFFSET = page_offset (ginfo s);
          pgd_va = LINUX_VA table_base s;
          va = push_bit 20 pgd_va
      in panic_if (va < PAGE_OFFSET \<or> HAL_VIRT_START - pgd_size < va)
           ''Table base va does not reside in kernel address space'' 1
         (let l2_pt = GET_VIRT (MMU_L1_PT_ADDR (rd (flpt_va s + 4 * pgd_va) s));
              lvl2_idx = drop_bit 24 (push_bit 12 table_base)
          in panic_if (rd (l2_pt + 4 * lvl2_idx) s AND push_bit 4 1 \<noteq> 0)
               ''Guest tried to set a table base address that is not read only'' 1
             (Inr (isb (COP_WRITE COP_CONTEXT_ID_REGISTER context_id
                (isb (COP_WRITE COP_SYSTEM_TRANSLATION_TABLE0 table_base
                  (isb (COP_WRITE COP_CONTEXT_ID_REGISTER 0 s)))))))))"

text \<open>The TLB and branch predictor maintenance for one address that recurs in the file.\<close>

definition inval_mva :: "u32 \<Rightarrow> 'a machine_scheme \<Rightarrow> 'a machine_scheme" where
  "inval_mva va s = isb (dsb (COP_WRITE COP_BRANCH_PRED_INVAL_ALL va (COP_WRITE COP_TLB_INVALIDATE_MVA va s)))"

fun free_pgd_loop :: "nat \<Rightarrow> u32 \<Rightarrow> u32 \<Rightarrow> hyp \<Rightarrow> hyp" where
  "free_pgd_loop 0 i l2_pt s = s"
| "free_pgd_loop (Suc n) i l2_pt s =
     (let s = wr (l2_pt + 4 * i) (rd (l2_pt + 4 * i) s OR (push_bit 4 1 OR push_bit 5 1)) s;
          clean_va = MMU_L2_SMALL_ADDR (rd (l2_pt + 4 * i) s) + page_offset (ginfo s) - phys_offset (ginfo s);
          s = dsb (COP_WRITE COP_DCACHE_INVALIDATE_MVA (l2_pt + 4 * i) s)
      in free_pgd_loop n (i + 1) l2_pt (inval_mva clean_va s))"

definition hypercall_free_pgd :: "u32 \<Rightarrow> hyp \<Rightarrow> hyp res" where
  "hypercall_free_pgd pgd s =
     (let pgd_size = 0x4000;
          PAGE_OFFSET = page_offset (ginfo s)
      in panic_if (pgd < PAGE_OFFSET \<or> HAL_VIRT_START - pgd_size < pgd)
           ''Page address not reside in kernel address space'' 1
         (let l2_pt = GET_VIRT (MMU_L1_PT_ADDR (rd (flpt_va s + 4 * drop_bit MMU_L1_SECTION_SHIFT pgd) s));
              lvl2_idx = drop_bit 24 (push_bit 12 pgd)
          in hypercall_dcache_clean_area pgd 0x4000 (free_pgd_loop 4 lvl2_idx l2_pt s)))"

fun new_pgd_loop :: "nat \<Rightarrow> u32 \<Rightarrow> u32 \<Rightarrow> hyp \<Rightarrow> hyp" where
  "new_pgd_loop 0 i l2_pt s = s"
| "new_pgd_loop (Suc n) i l2_pt s =
     (let linux_va = MMU_L2_SMALL_ADDR (rd (l2_pt + 4 * i) s) - phys_offset (ginfo s) + page_offset (ginfo s);
          s = inval_mva linux_va s;
          s = wr (l2_pt + 4 * i)
                (rd (l2_pt + 4 * i) s AND NOT (push_bit MMU_L2_SMALL_AP_SHIFT MMU_L2_SMALL_AP_MASK)) s;
          s = wr (l2_pt + 4 * i) (rd (l2_pt + 4 * i) s OR push_bit MMU_L2_SMALL_AP_SHIFT MMU_AP_USER_RO) s;
          s = dsb (COP_WRITE COP_DCACHE_INVALIDATE_MVA (l2_pt + 4 * i) s)
      in new_pgd_loop n (i + 1) l2_pt s)"

definition new_pgd_tables :: "u32 \<Rightarrow> hyp \<Rightarrow> u32 \<times> hyp" where
  "new_pgd_tables pgd s =
     (let entry = flpt_va s + 4 * drop_bit MMU_L1_SECTION_SHIFT pgd;
          slpt_pa = rd entry s
      in if slpt_pa AND MMU_L1_TYPE_SECTION \<noteq> 0
         then let pgd_va = MMU_L1_SECTION_ADR pgd;
                  linux_va = MMU_L1_PT_ADDR (rd entry s) - phys_offset (ginfo s) + page_offset (ginfo s);
                  s = inval_mva linux_va s;
                  s = wr entry 0 s;
                  s = snd (pt_create_coarse (flpt_va s) pgd_va (MMU_L1_SECTION_ADR slpt_pa)
                        MMU_L1_SECTION_SIZE MLT_USER_RAM s);
                  l2_pt = GET_VIRT (MMU_L1_PT_ADDR (rd entry s));
                  clean = drop_bit MMU_L1_SECTION_SHIFT pgd * 4 + flpt_va s
              in (l2_pt, dsb (COP_WRITE COP_DCACHE_INVALIDATE_MVA clean s))
         else (GET_VIRT (MMU_L1_PT_ADDR slpt_pa), s))"

definition hypercall_new_pgd :: "u32 \<Rightarrow> hyp \<Rightarrow> hyp res" where
  "hypercall_new_pgd pgd s =
     (let PAGE_OFFSET = page_offset (ginfo s);
          pgd_size = 0x4000
      in panic_if (pgd < PAGE_OFFSET \<or> HAL_VIRT_START - pgd_size < pgd)
           ''New page global directory does not reside in kernel address space'' 1
         (let (l2_pt, s) = new_pgd_tables pgd s;
              lvl2_idx = drop_bit 24 (push_bit 12 pgd);
              s = new_pgd_loop 4 lvl2_idx l2_pt s;
              s = s\<lparr>ram := snd (memset (ram s) pgd 0 0x2fc0)\<rparr>;
              s = s\<lparr>ram := snd (memcpy (ram s) (pgd + 0x2fC0) (flpt_va s + 0x2fc0) 0x1040)\<rparr>
          in hypercall_dcache_clean_area pgd 0x4000 s))"

definition hypercall_set_pmd :: "u32 \<Rightarrow> u32 \<Rightarrow> hyp \<Rightarrow> hyp res" where
  "hypercall_set_pmd pmd val s =
     (let PAGE_OFFSET = page_offset (ginfo s);
          PHYS_OFFSET = phys_offset (ginfo s);
          gsize = guest_size (ginfo s);
          pa = MMU_L1_SECTION_ADR val
      in panic_if (pmd < PAGE_OFFSET \<or> HAL_VIRT_START - 4 < pmd)
           ''Page middle directory reside outside of allowed address space !'' 1
         (panic_if (val \<noteq> 0 \<and> \<not> (PHYS_OFFSET \<le> pa \<and> pa < PHYS_OFFSET + gsize))
           ''Guest does not own pte physical address'' 1
          (let l1_pt = (if PAGE_OFFSET + 0x4000 \<le> pmd \<and> pmd < PAGE_OFFSET + 0x8000
                        then flpt_va s + (pmd - PAGE_OFFSET - 0x4000) else pmd);
               pte = (if val \<noteq> 0 then val else rd l1_pt s);
               sect_idx = drop_bit MMU_L1_SECTION_SHIFT (pte - PHYS_OFFSET) * 4 + 0x3000;
               l1_pt_va = sect_idx + flpt_va s;
               slpt_pa = rd l1_pt_va s;
               s = (if slpt_pa AND MMU_L1_TYPE_SECTION \<noteq> 0
                    then let linux_va = MMU_L2_SMALL_ADDR pte - PHYS_OFFSET + PAGE_OFFSET;
                             s = inval_mva linux_va s;
                             s = wr l1_pt_va 0 s;
                             s = snd (pt_create_coarse (flpt_va s) (push_bit 16 (sect_idx * 4))
                                   (MMU_L2_SMALL_ADDR slpt_pa) MMU_L1_SECTION_SIZE MLT_USER_RAM s);
                             clean = (if 0xc0008000 < pmd
                                      then drop_bit MMU_L1_SECTION_SHIFT pmd * 4 + flpt_va s
                                      else pmd - 0xc0004000 + flpt_va s)
                         in dsb (COP_WRITE COP_DCACHE_INVALIDATE_MVA clean s)
                    else s)
           in if val \<noteq> 0
              then let s = inval_mva (val - PHYS_OFFSET + PAGE_OFFSET) s;
                       l2_idx = drop_bit 24 (push_bit 12 val);
                       l2_pt_va = MMU_L1_PT_ADDR (rd l1_pt_va s - HAL_PHYS_START + HAL_VIRT_START);
                       e = l2_pt_va + 4 * l2_idx;
                       s = wr e (rd e s AND NOT (push_bit MMU_L2_SMALL_AP_SHIFT MMU_L2_SMALL_AP_MASK)) s;
                       s = wr e (rd e s OR push_bit MMU_L2_SMALL_AP_SHIFT MMU_AP_USER_RO) s;
                       s = wr l1_pt val s;
                       s = wr (l1_pt + 4) (val + 256 * 4) s
                   in Inr (dsb (COP_WRITE COP_DCACHE_INVALIDATE_MVA l1_pt s))
              else let s = inval_mva (rd l1_pt s - PHYS_OFFSET + PAGE_OFFSET) s;
                       l2_idx = drop_bit 24 (push_bit 12 (rd l1_pt s));
                       l2_pt_va = MMU_L1_PT_ADDR (rd l1_pt_va s - HAL_PHYS_START + HAL_VIRT_START);
                       e = l2_pt_va + 4 * l2_idx;
                       s = wr e (rd e s AND NOT (push_bit MMU_L2_SMALL_AP_SHIFT MMU_L2_SMALL_AP_MASK)) s;
                       s = wr e (rd e s OR push_bit MMU_L2_SMALL_AP_SHIFT MMU_AP_USER_RW) s;
                       s = dsb (COP_WRITE COP_DCACHE_INVALIDATE_MVA e s);
                       s = wr l1_pt 0 s;
                       s = wr (l1_pt + 4) 0 s
                   in Inr (dsb (COP_WRITE COP_DCACHE_INVALIDATE_MVA l1_pt s)))))"

definition hypercall_set_pte :: "u32 \<Rightarrow> u32 \<Rightarrow> u32 \<Rightarrow> hyp \<Rightarrow> hyp res" where
  "hypercall_set_pte va linux_pte phys_pte s =
     (let phys_va = va - 0x800;
          PAGE_OFFSET = page_offset (ginfo s);
          PHYS_OFFSET = phys_offset (ginfo s);
          gsize = guest_size (ginfo s);
          pa = MMU_L2_SMALL_ADDR phys_pte
      in panic_if (phys_va < PAGE_OFFSET \<or> HAL_VIRT_START - 4 < va)
           ''Page table entry reside outside of allowed address space !'' 1
         (panic_if (phys_pte \<noteq> 0 \<and> \<not> (PHYS_OFFSET \<le> pa \<and> pa < PHYS_OFFSET + gsize))
           ''Guest trying does not own pte physical address'' 1
          (Inr (dsb (COP_WRITE COP_DCACHE_INVALIDATE_MVA phys_va (wr va linux_pte (wr phys_va phys_pte s)))))))"

section \<open>They leave the virtual machine alone\<close>

lemma same_vm_inval_mva [simp]: "same_vm s (inval_mva va t) \<longleftrightarrow> same_vm s t"
  by (simp add: inval_mva_def)

lemma inval_mva_simps [simp]:
  "rd a (inval_mva va s) = rd a s" "ram (inval_mva va s) = ram s"
  "hyper_pt_start (inval_mva va s) = hyper_pt_start s" "l2_index_p (inval_mva va s) = l2_index_p s"
  "uninit (inval_mva va s) = uninit s" "machine.more (inval_mva va s) = machine.more s"
  by (simp_all add: inval_mva_def)

lemma same_vm_ram [simp]:
  "same_vm s (t\<lparr>ram := m\<rparr>) \<longleftrightarrow> same_vm s t"
  "same_vm s (t\<lparr>l2_index_p := k\<rparr>) \<longleftrightarrow> same_vm s t"
  by (simp_all add: same_vm_def)

lemma same_vm_pt_create_coarse [simp]:
  "same_vm s (snd (pt_create_coarse pt va pa sz t u)) \<longleftrightarrow> same_vm s u"
  by (auto simp: pt_create_coarse_def pt_get_empty_l2_def Let_def split: prod.splits if_splits)

lemma same_vm_free_pgd_loop [simp]: "same_vm s (free_pgd_loop n i l2 t) \<longleftrightarrow> same_vm s t"
  by (induction n arbitrary: i t) (simp_all add: Let_def)

lemma same_vm_new_pgd_loop [simp]: "same_vm s (new_pgd_loop n i l2 t) \<longleftrightarrow> same_vm s t"
  by (induction n arbitrary: i t) (simp_all add: Let_def)

lemma same_vm_new_pgd_tables: "same_vm s (snd (new_pgd_tables pgd t)) \<longleftrightarrow> same_vm s t"
  by (simp add: new_pgd_tables_def Let_def)

lemma mmu_calls_same_vm:
  "hypercall_create_section va pa attr s = Inr s' \<Longrightarrow> same_vm s s'"
  "hypercall_switch_mm tb cid s = Inr s' \<Longrightarrow> same_vm s s'"
  "hypercall_free_pgd pgd s = Inr s' \<Longrightarrow> same_vm s s'"
  "hypercall_new_pgd pgd s = Inr s' \<Longrightarrow> same_vm s s'"
  "hypercall_set_pmd pmd val s = Inr s' \<Longrightarrow> same_vm s s'"
  "hypercall_set_pte va lpte ppte s = Inr s' \<Longrightarrow> same_vm s s'"
proof -
  show "hypercall_create_section va pa attr s = Inr s' \<Longrightarrow> same_vm s s'"
    by (auto simp: hypercall_create_section_def Let_def split: if_splits)
  show "hypercall_switch_mm tb cid s = Inr s' \<Longrightarrow> same_vm s s'"
    by (auto simp: hypercall_switch_mm_def Let_def)
  show "hypercall_free_pgd pgd s = Inr s' \<Longrightarrow> same_vm s s'"
    by (auto simp: hypercall_free_pgd_def Let_def hypercall_dcache_clean_area_def
        dest!: mem_cache_dcache_area_same_vm elim!: same_vm_trans [rotated])
  show "hypercall_new_pgd pgd s = Inr s' \<Longrightarrow> same_vm s s'"
    using same_vm_new_pgd_tables [of s pgd s]
    by (auto simp: hypercall_new_pgd_def Let_def hypercall_dcache_clean_area_def
        dest!: mem_cache_dcache_area_same_vm elim!: same_vm_trans [rotated] split: prod.splits)
  show "hypercall_set_pmd pmd val s = Inr s' \<Longrightarrow> same_vm s s'"
    by (auto simp: hypercall_set_pmd_def Let_def split: if_splits)
  show "hypercall_set_pte va lpte ppte s = Inr s' \<Longrightarrow> same_vm s s'"
    by (auto simp: hypercall_set_pte_def Let_def)
qed

section \<open>New page directories\<close>

lemma rd_slot_wr:
  "aligned 2 l2 \<Longrightarrow> unat i < 2 ^ 30 \<Longrightarrow> unat j < 2 ^ 30 \<Longrightarrow>
     rd (l2 + 4 * j) (wr (l2 + 4 * i) v s) = (if i = j then v else rd (l2 + 4 * j) s)"
  by (rule rd_table_wr)

text \<open>The entry after it has been made read-only.\<close>

definition read_only :: "u32 \<Rightarrow> u32" where
  "read_only e = (e AND NOT (push_bit 4 3)) OR push_bit 4 2"

lemma read_only_ap: "drop_bit 4 (read_only e) AND 3 = MMU_AP_USER_RO"
proof -
  have "drop_bit 4 (read_only e) AND 3 = drop_bit 4 (read_only e AND push_bit 4 3)"
    by (simp add: drop_bit_and)
  also have "read_only e AND push_bit 4 3 = push_bit 4 2"
    by (simp add: read_only_def word_ao_dist and.assoc)
  finally show ?thesis by simp
qed

lemma rd_new_pgd_loop:
  assumes "aligned 2 l2" "unat i + n \<le> 256" "unat j < 256"
  shows "rd (l2 + 4 * j) (new_pgd_loop n i l2 s) =
    (if unat i \<le> unat j \<and> unat j < unat i + n then read_only (rd (l2 + 4 * j) s) else rd (l2 + 4 * j) s)"
  using assms(2)
proof (induction n arbitrary: i s)
  case (Suc n)
  have i1: "unat (i + 1) = unat i + 1" using Suc.prems by (simp add: unat_word_ariths)
  have l: "unat i < 2 ^ 30" "unat j < 2 ^ 30" using Suc.prems assms(3) by simp_all
  note r = rd_slot_wr [OF assms(1) l] rd_slot_wr [OF assms(1) l(1) l(1)]
  have "i = j \<longleftrightarrow> unat i = unat j" by (simp add: word_unat_eq_iff)
  then show ?case
    using Suc.prems i1 by (simp add: Suc.IH Let_def r read_only_def) auto
qed auto

lemma new_pgd_loop_other:
  assumes "aligned 2 l2" "aligned 2 a" "unat i + n \<le> 256"
    and "\<And>j. unat j < 256 \<Longrightarrow> a \<noteq> l2 + 4 * j"
  shows "rd a (new_pgd_loop n i l2 s) = rd a s"
  using assms(3)
proof (induction n arbitrary: i s)
  case (Suc n)
  have i1: "unat (i + 1) = unat i + 1" using Suc.prems by (simp add: unat_word_ariths)
  have "rd a (wr (l2 + 4 * i) v t) = rd a t" for v and t :: hyp
    using assms(4) [of i] Suc.prems by (simp add: rd_def load32_store32_al aligned_index4 assms(1,2))
  then show ?case using Suc.prems i1 by (simp add: Suc.IH Let_def)
qed simp

lemma new_pgd_loop_frame [simp]:
  "hyper_pt_start (new_pgd_loop n i l2 s) = hyper_pt_start s"
  "ccsidr_of (new_pgd_loop n i l2 s) = ccsidr_of s"
  "cop (new_pgd_loop n i l2 s) 2 = cop s 2"
  by (induction n arbitrary: i s) (simp_all add: Let_def inval_mva_def)

text \<open>Addresses at or above the hypervisor's base lie beyond a page directory that passed the check.\<close>

lemma above_pgd:
  assumes "0xF0000000 \<le> unat a" "unat a + 4 \<le> 2 ^ 32" "unat (pgd :: u32) \<le> 0xEFFFC000" "k \<le> 0x4000"
  shows "unat (a - (pgd + of_nat k)) = unat a - unat pgd - k"
proof -
  have "unat (of_nat k :: u32) = k" using assms(4) by (intro unat_of_nat_u32) simp
  moreover from this have "unat (pgd + of_nat k) = unat pgd + k"
    using assms by (simp add: unat_word_ariths)
  ultimately show ?thesis using assms by (simp add: unat_sub_if')
qed

text \<open>What the two block operations of \<open>hypercall_new_pgd\<close> leave in memory.\<close>

definition pgd_fill :: "mem \<Rightarrow> u32 \<Rightarrow> u32 \<Rightarrow> mem" where
  "pgd_fill m pgd flpt = snd (memcpy (snd (memset m pgd 0 0x2fc0)) (pgd + 0x2fC0) (flpt + 0x2fc0) 0x1040)"

lemma pgd_fill_other:
  assumes "0xF0000000 \<le> unat a" "unat a + 4 \<le> 2 ^ 32" "unat pgd \<le> 0xEFFFC000"
    and "forward_ok (pgd + 0x2fC0) (flpt + 0x2fc0) 0x1040"
  shows "load32 (pgd_fill m pgd flpt) a = load32 m a"
proof -
  have "unat (a - pgd) = unat a - unat pgd" "unat (a - (pgd + 0x2fC0)) = unat a - unat pgd - 0x2fC0"
    using above_pgd [OF assms(1-3), of 0] above_pgd [OF assms(1-3), of "0x2fC0"] by simp_all
  then show ?thesis
    using assms by (simp add: pgd_fill_def memset_def memcpy_def load32_memset_other load32_memcpy_other)
qed

lemma master_forward_ok:
  assumes "0xF0000000 \<le> unat flpt" "unat flpt + 0x4000 \<le> 2 ^ 32" "unat pgd \<le> 0xEFFFC000"
  shows "forward_ok (pgd + 0x2fC0) (flpt + 0x2fc0) 0x1040"
proof -
  have "unat (pgd - flpt) = unat pgd + 4294967296 - unat flpt"
    using assms by (simp add: unat_sub_if' word_size)
  moreover have "pgd + 0x2fC0 - (flpt + 0x2fc0) = pgd - flpt" by simp
  moreover have "0x1040 \<le> unat pgd + 4294967296 - unat flpt" using assms by simp
  ultimately show ?thesis unfolding forward_ok_def by simp
qed

lemma pgd_fill_low:
  assumes "unat w < 0xBF0" "unat pgd \<le> 0xEFFFC000" "forward_ok (pgd + 0x2fC0) (flpt + 0x2fc0) 0x1040"
  shows "load32 (pgd_fill m pgd flpt) (pgd + 4 * w) = 0"
proof -
  have w: "unat (4 * w) = 4 * unat w" using assms(1) by (intro unat_4_mult) simp
  have "unat (4 * w - 0x2fC0) = 4 * unat w + 4294967296 - 0x2fC0"
    using w assms(1) by (simp add: unat_sub_if' word_size)
  moreover have "pgd + 4 * w - (pgd + 0x2fC0) = 4 * w - 0x2fC0" "pgd + 4 * w - pgd = 4 * w" by simp_all
  ultimately show ?thesis
    using assms w by (simp add: pgd_fill_def memset_def memcpy_def load32_memset_zero load32_memcpy_other)
qed

lemma pgd_fill_high:
  assumes "0xBF0 \<le> unat w" "unat w < 0x1000" "0xF0000000 \<le> unat flpt" "unat flpt + 0x4000 \<le> 2 ^ 32"
    and "unat pgd \<le> 0xEFFFC000"
  shows "load32 (pgd_fill m pgd flpt) (pgd + 4 * w) = load32 m (flpt + 4 * w)"
proof -
  have f: "forward_ok (pgd + 0x2fC0) (flpt + 0x2fc0) 0x1040" by (rule master_forward_ok [OF assms(3-5)])
  have w: "unat (4 * w) = 4 * unat w" using assms(2) by (intro unat_4_mult) simp
  have x: "unat (4 * w - 0x2fC0) = 4 * unat w - 0x2fC0"
    using w assms(1,2) by (simp add: unat_sub_if')
  have e: "pgd + 4 * w - (pgd + 0x2fC0) = 4 * w - 0x2fC0" "flpt + 0x2fc0 + (4 * w - 0x2fC0) = flpt + 4 * w"
    by simp_all
  have u: "unat (flpt + 4 * w) = unat flpt + 4 * unat w" using w assms by (simp add: unat_word_ariths)
  have "load32 (memset_loop m pgd 0 0x2fC0) (flpt + 4 * w) = load32 m (flpt + 4 * w)"
    using above_pgd [of "flpt + 4 * w" pgd 0] u assms by (intro load32_memset_other) simp_all
  then show ?thesis
    using assms x e by (simp add: pgd_fill_def memset_def memcpy_def load32_memcpy_in [OF _ _ f])
qed

text \<open>a page directory that \<open>hypercall_new_pgd\<close> hands out. For a 16K-aligned directory in the
  kernel's range whose second-level table lies in the hypervisor's memory, the call returns; the
  four second-level entries that map the directory deny user writes; the user part of the
  directory is empty; and the kernel, device and hypervisor part is a copy of the master table.\<close>

theorem new_pgd_installs:
  assumes "page_offset (ginfo s) \<le> pgd" "pgd \<le> 0xEFFFC000" "aligned 14 pgd"
    and "new_pgd_tables pgd s = (l2, t)" "aligned 10 l2" "0xF0000000 \<le> unat l2" "unat l2 + 0x400 \<le> 2 ^ 32"
    and "aligned 2 (flpt_va t)" "0xF0000000 \<le> unat (flpt_va t)" "unat (flpt_va t) + 0x4000 \<le> 2 ^ 32"
    and "\<And>i j. unat i < 0x1000 \<Longrightarrow> unat j < 256 \<Longrightarrow> flpt_va t + 4 * i \<noteq> l2 + 4 * j"
  shows "\<exists>s'. hypercall_new_pgd pgd s = Inr s'
    \<and> (\<forall>j. unat (take_bit 8 (drop_bit 12 pgd)) \<le> unat j \<and> unat j < unat (take_bit 8 (drop_bit 12 pgd)) + 4 \<longrightarrow>
         rd (l2 + 4 * j) s' = read_only (rd (l2 + 4 * j) t) \<and> drop_bit 4 (rd (l2 + 4 * j) s') AND 3 = MMU_AP_USER_RO)
    \<and> (\<forall>w. unat w < 0xBF0 \<longrightarrow> rd (pgd + 4 * w) s' = 0)
    \<and> (\<forall>w. 0xBF0 \<le> unat w \<and> unat w < 0x1000 \<longrightarrow> rd (pgd + 4 * w) s' = rd (flpt_va t + 4 * w) t)"
proof -
  let ?i = "take_bit 8 (drop_bit 12 pgd)"
  let ?u = "new_pgd_loop 4 ?i l2 t"
  let ?v = "?u\<lparr>ram := pgd_fill (ram ?u) pgd (flpt_va ?u)\<rparr>"
  have p: "unat pgd \<le> 0xEFFFC000" using assms(2) by (simp add: word_le_nat_alt)
  have f: "flpt_va ?u = flpt_va t" by (simp add: flpt_va_def)
  have idx: "drop_bit 24 (push_bit 12 pgd) = ?i"
    by (rule bit_word_eqI) (auto simp: bit_simps)
  have i4: "unat ?i + 4 \<le> 256"
  proof -
    have "unat pgd mod 16384 = 0" using assms(3) by (simp add: aligned_unat)
    then obtain q where q: "unat pgd = 16384 * q" by auto
    have "4 * q mod (4 * 64) = 4 * (q mod 64)" by (rule mult_mod_right [symmetric])
    then have "unat pgd div 4096 mod 256 = 4 * (q mod 64)" using q by simp
    moreover have "unat ?i = unat pgd div 4096 mod 256" by (simp add: unat_take_bit_u32 unat_drop_bit_u32)
    moreover have "q mod 64 < 64" by simp
    ultimately show ?thesis by linarith
  qed
  have l2: "aligned 2 l2" using assms(5) by (rule aligned_le) simp
  have fo: "forward_ok (pgd + 0x2fC0) (flpt_va t + 0x2fc0) 0x1040"
    by (rule master_forward_ok [OF assms(9,10) p])
  have "unat pgd + unat (0x4000 :: u32) + line_size ?v < 2 ^ 32"
    using p line_size_bounds [of ?v] by simp
  from mem_cache_dcache_area_returns [OF this, of CLEAN] obtain s' where
    s': "mem_cache_dcache_area pgd 0x4000 CLEAN ?v = Inr s'" "ram s' = ram ?v"
    by (auto simp del: upt_Suc)
  have e: "hypercall_new_pgd pgd s = Inr s'"
    using assms(1,2) s'(1)
    by (simp add: hypercall_new_pgd_def Let_def panic_if_def assms(4) idx hypercall_dcache_clean_area_def
        pgd_fill_def not_less flpt_va_def)
  have r: "ram s' = pgd_fill (ram ?u) pgd (flpt_va t)" by (simp add: s'(2) f)
  have l2rd: "rd (l2 + 4 * j) s' = rd (l2 + 4 * j) ?u" if "unat j < 256" for j
  proof -
    have "unat (4 * j) = 4 * unat j" using that by (intro unat_4_mult) simp
    then have "unat (l2 + 4 * j) = unat l2 + 4 * unat j" using that assms(7) by (simp add: unat_word_ariths)
    then show ?thesis
      unfolding rd_def r using that assms(6,7) p fo by (intro pgd_fill_other) simp_all
  qed
  show ?thesis
  proof (intro exI conjI allI impI)
    show "hypercall_new_pgd pgd s = Inr s'" by (rule e)
    fix j :: u32 assume j: "unat ?i \<le> unat j \<and> unat j < unat ?i + 4"
    then show c: "rd (l2 + 4 * j) s' = read_only (rd (l2 + 4 * j) t)"
      using i4 by (simp add: l2rd rd_new_pgd_loop [OF l2 i4])
    show "drop_bit 4 (rd (l2 + 4 * j) s') AND 3 = MMU_AP_USER_RO" unfolding c by (rule read_only_ap)
  next
    fix w :: u32 assume "unat w < 0xBF0"
    then show "rd (pgd + 4 * w) s' = 0" unfolding rd_def r by (rule pgd_fill_low [OF _ p fo])
  next
    fix w :: u32 assume w: "0xBF0 \<le> unat w \<and> unat w < 0x1000"
    then have "rd (pgd + 4 * w) s' = rd (flpt_va t + 4 * w) ?u"
      unfolding rd_def r using assms(9,10) p by (intro pgd_fill_high) simp_all
    also have "\<dots> = rd (flpt_va t + 4 * w) t"
      using w assms(11) by (intro new_pgd_loop_other [OF l2 aligned_index4 [OF assms(8)] i4]) simp
    finally show "rd (pgd + 4 * w) s' = rd (flpt_va t + 4 * w) t" .
  qed
qed

text \<open>A kernel with a coarse mapping of its first megabyte, in a second-level table of the hypervisor.\<close>

definition demo_coarse :: hyp where
  "demo_coarse = wr 0xF0083000 0x80084021 (demo_hyp HC_GM_KERNEL)"

lemma demo_coarse_simps [simp]:
  "ginfo demo_coarse = ginfo (demo_hyp 1)" "flpt_va demo_coarse = 0xF0080000"
  "rd 0xF0083000 demo_coarse = 0x80084021"
  by (simp_all add: demo_coarse_def flpt_va_def)

theorem new_pgd_installs_witness:
  "\<exists>s'. hypercall_new_pgd 0xC0010000 demo_coarse = Inr s'
    \<and> drop_bit 4 (rd 0xF0084040 s') AND 3 = MMU_AP_USER_RO \<and> rd 0xC0013000 s' = 0x80084021"
proof -
  have nt: "new_pgd_tables 0xC0010000 demo_coarse = (0xF0084000, demo_coarse)"
    by (simp add: new_pgd_tables_def MMU_L1_PT_ADDR_def GET_VIRT_def Let_def)
  have far: "flpt_va demo_coarse + 4 * i \<noteq> 0xF0084000 + 4 * j" if "unat i < 0x1000" "unat j < 256" for i j
  proof
    assume e: "flpt_va demo_coarse + 4 * i = 0xF0084000 + 4 * j"
    have "unat (4 * i) = 4 * unat i" "unat (4 * j) = 4 * unat j"
      using that by (intro unat_4_mult; simp)+
    then have "unat (0xF0080000 + 4 * i) = 0xF0080000 + 4 * unat i"
      "unat (0xF0084000 + 4 * j) = 0xF0084000 + 4 * unat j"
      using that by (simp_all add: unat_word_ariths(1))
    then show False using e that by simp
  qed
  have i: "unat (take_bit 8 (drop_bit 12 0xC0010000 :: u32)) = 0x10" by simp
  obtain s' where s': "hypercall_new_pgd 0xC0010000 demo_coarse = Inr s'"
    "\<And>j. unat (take_bit 8 (drop_bit 12 0xC0010000 :: u32)) \<le> unat j \<Longrightarrow>
       unat j < unat (take_bit 8 (drop_bit 12 0xC0010000 :: u32)) + 4 \<Longrightarrow>
       drop_bit 4 (rd (0xF0084000 + 4 * j) s') AND 3 = MMU_AP_USER_RO"
    "\<And>w. 0xBF0 \<le> unat w \<Longrightarrow> unat w < 0x1000 \<Longrightarrow>
       rd (0xC0010000 + 4 * w) s' = rd (flpt_va demo_coarse + 4 * w) demo_coarse"
    using new_pgd_installs [OF _ _ _ nt _ _ _ _ _ _ far] by (auto simp: aligned_def)
  from s'(2) [of "0x10"] s'(3) [of "0xC00"] s'(1) show ?thesis by (auto simp: i)
qed

section \<open>Entries a guest writes\<close>

definition owns_page :: "u32 \<Rightarrow> hyp \<Rightarrow> bool" where
  "owns_page pa s \<longleftrightarrow> phys_offset (ginfo s) \<le> pa \<and> pa < phys_offset (ginfo s) + guest_size (ginfo s)"

lemma byte_of_word:
  fixes a b :: u32
  assumes "b - a < 4" "a \<le> 0xEFFFFFFC"
  shows "a \<le> b \<and> b < 0xF0000000"
proof -
  have "unat (b - a) < 4" "unat a \<le> 0xEFFFFFFC" using assms by (simp_all add: word_less_nat_alt word_le_nat_alt)
  moreover have "unat b = unat (a + (b - a))" by simp
  ultimately have "unat b = unat a + unat (b - a)" by (simp only: unat_word_ariths(1)) simp
  then show ?thesis
    using \<open>unat (b - a) < 4\<close> \<open>unat a \<le> 0xEFFFFFFC\<close> by (simp add: word_less_nat_alt word_le_nat_alt)
qed



text \<open>Below \<open>0x800\<close> the subtraction in the check wraps: \<open>hypercall_set_pte\<close> then accepts the
  address whatever \<open>page_offset\<close> is, up to \<open>0xFFFFF800\<close>, and stores the hardware entry in the
  last 2 KB of the address space, above the hypervisor's base.\<close>

theorem set_pte_wraps:
  assumes "va < 0x800" "page_offset (ginfo s) \<le> 0xFFFFF800" "phys_pte = 0 \<or> owns_page (MMU_L2_SMALL_ADDR phys_pte) s"
  shows "\<exists>s'. hypercall_set_pte va linux_pte phys_pte s = Inr s' \<and> HAL_VIRT_START \<le> va - 0x800
    \<and> (aligned 2 va \<longrightarrow> rd (va - 0x800) s' = phys_pte)"
proof -
  have u: "unat (va - 0x800) = unat va + 0xFFFFF800"
    using assms(1) by (simp add: unat_sub_if' word_less_nat_alt word_size)
  have "page_offset (ginfo s) \<le> va - 0x800" "HAL_VIRT_START \<le> va - 0x800" "va \<le> 0xEFFFFFFC"
    using assms(1,2) u by (simp_all add: word_le_nat_alt word_less_nat_alt)
  moreover have "rd (va - 0x800) (wr va linux_pte (wr (va - 0x800) phys_pte s)) = phys_pte" if "aligned 2 va"
  proof -
    have "aligned 2 (va - 0x800)" using that by (rule aligned_diff) (simp add: aligned_def)
    then show ?thesis using that by (simp add: rd_def load32_store32_al)
  qed
  ultimately show ?thesis
    using assms(3)
    by (auto simp: hypercall_set_pte_def Let_def panic_if_def owns_page_def not_le not_less)
qed

theorem set_pte_wraps_witness:
  "\<exists>s'. hypercall_set_pte 0x7FC 0 0 (demo_hyp HC_GM_KERNEL) = Inr s' \<and> HAL_VIRT_START \<le> (0x7FC :: u32) - 0x800
    \<and> (aligned 2 0x7FC \<longrightarrow> rd (0x7FC - 0x800) s' = 0)"
  by (rule set_pte_wraps) simp_all

definition section_attr :: "u32 \<Rightarrow> u32" where
  "section_attr attr = (attr AND NOT MMU_L1_DOMAIN_MASK) OR push_bit MMU_L1_DOMAIN_SHIFT HC_DOM_KERNEL"

lemma create_section_eq:
  "hypercall_create_section va pa attr s =
     (if HAL_VIRT_START \<le> va \<and> va < HAL_VIRT_START + MAX_TRUSTED_SIZE
      then Inl (Hyper_panic ''Guest trying to map sensitive section virtual address'' 1)
      else if \<not> owns_page pa s
      then Inl (Hyper_panic ''Guest does not own section physical address'' 1)
      else if va = 0xc0000000 then Inr s
      else Inr (COP_WRITE COP_DCACHE_INVALIDATE_MVA (flpt_va s + 4 * drop_bit 20 va)
        (wr (flpt_va s + 4 * drop_bit 20 va) (pa OR section_attr attr) s)))"
  by (simp add: hypercall_create_section_def section_attr_def owns_page_def Let_def panic_if_def mult.commute)



text \<open>The checks look at \<open>pa\<close> alone and the descriptor is \<open>pa | page_attr\<close>. With the
  hypervisor's own domain bits forced into the attribute only, a guest obtains a section in the
  trusted domain by setting domain bits in \<open>pa\<close>, and a section of memory it does not own by
  setting address bits in the attribute.\<close>

theorem create_section_unchecked_bits:
  assumes "flpt_va s = 0xF0080000" "phys_offset (ginfo s) = 0x81000000" "guest_size (ginfo s) = 0x07000000"
  shows "\<exists>s1 s2. hypercall_create_section 0xC0200000 0x81000060 0xC02 s = Inr s1
    \<and> walk s1 0xF0080000 0xC0200000 = Some (0x81000000, HC_DOM_TRUSTED, 3)
    \<and> hypercall_create_section 0xC0200000 0x81000000 0x08000C02 s = Inr s2
    \<and> walk s2 0xF0080000 0xC0200000 = Some (0x89000000, HC_DOM_KERNEL, 3)
    \<and> \<not> owns_page 0x89000000 s"
proof -
  have m: "NOT (mask 20) = (0xFFF00000 :: u32)" by (simp add: word_uint_eq_iff mask_eq_exp_minus_1)
  show ?thesis
    using assms by (simp add: create_section_eq owns_page_def walk_def section_attr_def MMU_L1_TYPE_def m)
qed

theorem create_section_unchecked_bits_witness:
  "\<exists>s1. hypercall_create_section 0xC0200000 0x81000060 0xC02 (demo_hyp HC_GM_KERNEL) = Inr s1
    \<and> walk s1 0xF0080000 0xC0200000 = Some (0x81000000, HC_DOM_TRUSTED, 3)"
  using create_section_unchecked_bits [of "demo_hyp HC_GM_KERNEL"] by (auto simp: flpt_va_def)

end
