(* ===== verification/Hyp_Handlers.thy ===== *)
theory Hyp_Handlers
  imports Hyp_Mmu
begin

text \<open>
  The exception handlers of \<open>handlers.c\<close>: system calls of the guest's tasks, the hypercall
  dispatch, aborts and interrupts. A handler is given the arguments the assembly entry passes.
\<close>

section \<open>The code\<close>

definition HYPERCALL_RPC :: u32 where [simp]: "HYPERCALL_RPC = 1020"
definition HYPERCALL_END_RPC :: u32 where [simp]: "HYPERCALL_END_RPC = 1021"

definition V_SWI :: u32 where [simp]: "V_SWI = 2"
definition V_PREFETCH_ABORT :: u32 where [simp]: "V_PREFETCH_ABORT = 3"
definition V_DATA_ABORT :: u32 where [simp]: "V_DATA_ABORT = 4"
definition V_IRQ :: u32 where [simp]: "V_IRQ = 6"
definition V_ARM_SYSCALL :: u32 where [simp]: "V_ARM_SYSCALL = 8"
definition V_RET_FAST_SYSCALL :: u32 where [simp]: "V_RET_FAST_SYSCALL = 9"
definition V_RET_FROM_EXCEPTION :: u32 where [simp]: "V_RET_FROM_EXCEPTION = 10"

text \<open>\<open>curr_vm->exception_vector[i]\<close>, a table in guest memory.\<close>

definition ev :: "u32 \<Rightarrow> hyp \<Rightarrow> u32" where
  "ev i s = rd (exception_vector (curr_vm s) + 4 * i) s"

text \<open>\<open>*sp++ = *context++\<close>, \<open>n\<close> times from context word \<open>i\<close>.\<close>

fun frame_store :: "nat \<Rightarrow> nat \<Rightarrow> (nat \<Rightarrow> u32) \<Rightarrow> u32 \<Rightarrow> hyp \<Rightarrow> hyp" where
  "frame_store 0 i w p s = s"
| "frame_store (Suc n) i w p s = frame_store n (Suc i) w (p + 4) (wr p (w i) s)"

fun copy_regs :: "nat \<Rightarrow> nat \<Rightarrow> cpu_context \<Rightarrow> cpu_context \<Rightarrow> cpu_context" where
  "copy_regs 0 i t c = c"
| "copy_regs (Suc n) i t c = copy_regs n (Suc i) t (c\<lparr>reg := (reg c)(i := reg t i)\<rparr>)"

definition syscall_entry :: "hyp \<Rightarrow> hyp res" where
  "syscall_entry s =
     bindE (change_guest_mode HC_GM_KERNEL s) (\<lambda>s. with_cur s (\<lambda>cur.
       let s = upd_ctx cur (\<lambda>c. c\<lparr>sp := sp c - (72 + 8)\<rparr>) s;
           t = mode_ctx HC_GM_TASK s;
           p = sp (mode_ctx HC_GM_KERNEL s);
           s = wr p (reg t 4) s;
           s = wr (p + 4) (reg t 5) s;
           s = frame_store 17 0 (ctx_word t) (p + 8) s;
           s = wr (p + 8 + 4 * 17) (reg t 0) s;
           s = upd_ctx cur (\<lambda>c. c\<lparr>psr := psr c AND NOT IRQ_MASK\<rparr>) s;
           lr' = ev V_RET_FAST_SYSCALL s;
           s = upd_ctx cur (\<lambda>c. c\<lparr>lr := lr'\<rparr>) s;
           s = upd_ctx cur (\<lambda>c. c\<lparr>reg := (reg c)(7 := reg t 7)\<rparr>) s
       in if reg t 7 < nr_syscalls (ginfo s)
          then let s = upd_ctx cur (copy_regs 6 0 t) s;
                   pc' = rd (ev V_SWI s + push_bit 2 (reg (mode_ctx cur s) 7)) s
               in Inr (upd_ctx cur (\<lambda>c. c\<lparr>pc := pc'\<rparr>) s)
          else let s = upd_ctx cur (\<lambda>c. c\<lparr>reg := (reg c)(0 := reg t 7)\<rparr>) s;
                   r1 = sp (mode_ctx HC_GM_KERNEL s) + 8;
                   s = upd_ctx cur (\<lambda>c. c\<lparr>reg := (reg c)(1 := r1)\<rparr>) s;
                   pc' = ev V_ARM_SYSCALL s
               in Inr (upd_ctx cur (\<lambda>c. c\<lparr>pc := pc'\<rparr>) s)))"

definition hypercall_dispatch :: "u32 \<Rightarrow> u32 \<Rightarrow> u32 \<Rightarrow> u32 \<Rightarrow> hyp \<Rightarrow> hyp res" where
  "hypercall_dispatch param0 param1 param2 hypercall_number s =
     (if hypercall_number = 1000 then hypercall_guest_init param0 s
      else if hypercall_number = 1001 then hypercall_interrupt_set param0 param1 s
      else if hypercall_number = 1002 then hypercall_end_interrupt s
      else if hypercall_number = 1004 then hypercall_cache_op param0 param1 param2 s
      else if hypercall_number = 1015 then hypercall_set_tls param0 s
      else if hypercall_number = 1014 then Inr (isb (COP_WRITE COP_CONTEXT_ID_REGISTER param0 s))
      else if hypercall_number = 1012 then hypercall_restore_linux_regs param0 (param1 \<noteq> 0) s
      else if hypercall_number = 1013 then hypercall_restore_regs param0 s
      else if hypercall_number = 1008 then hypercall_switch_mm param0 param1 s
      else if hypercall_number = 1006 then hypercall_new_pgd param0 s
      else if hypercall_number = 1007 then hypercall_free_pgd param0 s
      else if hypercall_number = 1009 then hypercall_create_section param0 param1 param2 s
      else if hypercall_number = 1010 then hypercall_set_pmd param0 param1 s
      else if hypercall_number = 1011 then hypercall_set_pte param0 param1 param2 s
      else if hypercall_number = HYPERCALL_RPC then hypercall_rpc param0 param1 s
      else if hypercall_number = HYPERCALL_END_RPC then hypercall_end_rpc s
      else hypercall_num_error hypercall_number s)"

definition swi_handler :: "u32 \<Rightarrow> u32 \<Rightarrow> u32 \<Rightarrow> u32 \<Rightarrow> hyp \<Rightarrow> hyp res" where
  "swi_handler param0 param1 param2 hypercall_number s =
     (if guest_mode s = HC_GM_TASK \<and> hypercall_number = 1020 then hypercall_rpc param0 param1 s
      else if guest_mode s = HC_GM_TASK \<and> hypercall_number = 1021 then hypercall_end_rpc s
      else if guest_mode s = HC_GM_TASK then syscall_entry s
      else hypercall_dispatch param0 param1 param2 hypercall_number s)"

text \<open>The two abort handlers differ in the vector and in one word of the frame.\<close>

definition abort_frame_word :: "bool \<Rightarrow> u32 \<Rightarrow> cpu_context \<Rightarrow> nat \<Rightarrow> u32" where
  "abort_frame_word data interrupted c i =
     (if data \<and> i = 13 \<and> interrupted = 1 then ctx_word c i + 72 else ctx_word c i)"

definition abort_handler :: "bool \<Rightarrow> u32 \<Rightarrow> u32 \<Rightarrow> u32 \<Rightarrow> hyp \<Rightarrow> hyp res" where
  "abort_handler data vec addr status s =
     (let interrupted = guest_mode s
      in bindE (change_guest_mode HC_GM_KERNEL s) (\<lambda>s.
         let s = upd_ctx HC_GM_KERNEL (\<lambda>c. c\<lparr>sp := sp c - 72\<rparr>) s;
             p = sp (mode_ctx HC_GM_KERNEL s);
             c = mode_ctx interrupted s;
             s = frame_store 17 0 (abort_frame_word data interrupted c) p s;
             s = wr (p + 4 * 17) 0xFFFFFFFF s;
             s = upd_ctx HC_GM_KERNEL (\<lambda>c. c\<lparr>reg := (reg c)(0 := addr, 1 := status, 2 := sp c)\<rparr>) s;
             s = (if psr (mode_ctx HC_GM_KERNEL s) AND 0xF = 0
                  then upd_ctx HC_GM_KERNEL (\<lambda>c. c\<lparr>psr := psr c OR IRQ_MASK\<rparr>) s
                  else upd_ctx HC_GM_KERNEL (\<lambda>c. c\<lparr>psr := psr c AND NOT IRQ_MASK\<rparr>) s);
             pc' = ev vec s;
             s = upd_ctx HC_GM_KERNEL (\<lambda>c. c\<lparr>pc := pc'\<rparr>) s;
             lr' = ev V_RET_FROM_EXCEPTION s
         in Inr (upd_ctx HC_GM_KERNEL (\<lambda>c. c\<lparr>lr := lr'\<rparr>) s)))"

definition prefetch_abort_handler :: "u32 \<Rightarrow> u32 \<Rightarrow> u32 \<Rightarrow> hyp \<Rightarrow> hyp res" where
  "prefetch_abort_handler addr status unused s = abort_handler False V_PREFETCH_ABORT addr status s"

definition data_abort_handler :: "u32 \<Rightarrow> u32 \<Rightarrow> u32 \<Rightarrow> hyp \<Rightarrow> hyp res" where
  "data_abort_handler addr status unused s = abort_handler True V_DATA_ABORT addr status s"

definition irq_handler :: "u32 \<Rightarrow> u32 \<Rightarrow> u32 \<Rightarrow> hyp \<Rightarrow> hyp res" where
  "irq_handler irq r1 r2 s =
     (if guest_mode s = HC_GM_INTERRUPT
      then with_cur s (\<lambda>cur. Inr (upd_ctx cur (\<lambda>c. c\<lparr>psr := psr c OR IRQ_MASK\<rparr>) s))
      else let s = upd_vm (\<lambda>vm. vm\<lparr>interrupted_mode := current_guest_mode vm\<rparr>) s
           in bindE (change_guest_mode HC_GM_INTERRUPT s) (\<lambda>s. with_cur s (\<lambda>cur.
              let pc' = ev V_IRQ s;
                  s = upd_ctx cur (\<lambda>c. c\<lparr>reg := (reg c)(0 := irq), pc := pc', psr := psr c OR IRQ_MASK\<rparr>) s
              in Inr (upd_ctx cur (\<lambda>c. c\<lparr>sp := sp (mode_ctx HC_GM_KERNEL s)\<rparr>) s))))"

definition undef_handler :: "u32 \<Rightarrow> u32 \<Rightarrow> u32 \<Rightarrow> hyp \<Rightarrow> hyp res" where
  "undef_handler instr unused addr s = Inl (Undef_exception addr instr)"

section \<open>Frames\<close>

lemma frame_store_frame [simp]:
  "machine.more (frame_store n i w p s) = machine.more s" "cop (frame_store n i w p s) = cop s"
  "hyper_pt_start (frame_store n i w p s) = hyper_pt_start s"
  by (induction n arbitrary: i p s) simp_all

lemma same_vm_frame_store [simp]: "same_vm s (frame_store n i w p t) \<longleftrightarrow> same_vm s t"
  by (simp add: same_vm_def)

lemma frame_store_hyp [simp]:
  "curr_vm (frame_store n i w p s) = curr_vm s" "boot (frame_store n i w p s) = boot s"
  "context_stack (frame_store n i w p s) = context_stack s"
  "context_stack_curr (frame_store n i w p s) = context_stack_curr s"
  "cpu (frame_store n i w p s) = cpu s"
  by (rule hyp_more; simp)+

lemma frame_store_modes [simp]:
  "mode_ctx m (frame_store n i w p s) = mode_ctx m s"
  "mode_state m (frame_store n i w p s) = mode_state m s"
  by (rule mode_ctx_cong mode_state_cong; simp)+

lemma frame_store_other:
  assumes "aligned 2 p" "aligned 2 a" "\<And>k. k < n \<Longrightarrow> a \<noteq> p + 4 * of_nat k"
  shows "rd a (frame_store n i w p s) = rd a s"
  using assms
proof (induction n arbitrary: i p s)
  case (Suc n)
  have "a \<noteq> p + 4 + 4 * of_nat k" if "k < n" for k
    using Suc.prems(3) [of "Suc k"] that by (simp add: algebra_simps)
  moreover have "aligned 2 (p + 4)" using Suc.prems(1) by (rule aligned_add) (simp add: aligned_def)
  ultimately show ?case
    using Suc.IH [of "p + 4"] Suc.prems(1,2) Suc.prems(3) [of 0] by (simp add: rd_def load32_store32_al)
qed simp

lemma frame_offsets_ne:
  "j < k \<Longrightarrow> k < 2 ^ 30 \<Longrightarrow> (p :: u32) + 4 * of_nat j \<noteq> p + 4 * of_nat k"
proof -
  assume "j < k" "k < 2 ^ 30"
  then have u: "unat (of_nat j :: u32) = j" "unat (of_nat k :: u32) = k"
    by (intro unat_of_nat_u32; simp)+
  then have "(of_nat j :: u32) \<noteq> of_nat k" using \<open>j < k\<close> by (metis nat_neq_iff)
  then show ?thesis using u \<open>j < k\<close> \<open>k < 2 ^ 30\<close> by (subst index4_eq_iff) simp_all
qed

lemma frame_store_word:
  assumes "aligned 2 p" "k < n" "n \<le> 2 ^ 20"
  shows "rd (p + 4 * of_nat k) (frame_store n i w p s) = w (i + k)"
  using assms
proof (induction n arbitrary: i p s k)
  case (Suc n)
  have al: "aligned 2 (p + 4)" using Suc.prems(1) by (rule aligned_add) (simp add: aligned_def)
  show ?case
  proof (cases k)
    case 0
    have "p \<noteq> p + 4 + 4 * of_nat k'" if "k' < n" for k'
      using frame_offsets_ne [of 0 "Suc k'" p] that Suc.prems(3) by (simp add: algebra_simps)
    then show ?thesis using 0 frame_store_other [OF al Suc.prems(1), of n] by simp
  next
    case (Suc k')
    then have "rd (p + 4 + 4 * of_nat k') (frame_store n (Suc i) w (p + 4) (wr p (w i) s)) = w (Suc i + k')"
      using Suc.prems by (intro Suc.IH [OF al]) simp_all
    then show ?thesis using Suc by (simp add: algebra_simps)
  qed
qed simp

lemma copy_regs_simps [simp]:
  "psr (copy_regs n i t c) = psr c" "sp (copy_regs n i t c) = sp c" "lr (copy_regs n i t c) = lr c"
  "pc (copy_regs n i t c) = pc c"
  "reg (copy_regs n i t c) j = (if i \<le> j \<and> j < i + n then reg t j else reg c j)"
  by (induction n arbitrary: i c) auto

section \<open>System calls\<close>

text \<open>The 20-word frame on the kernel stack: two arguments, the 17 context words, the old r0.\<close>

definition syscall_frame :: "cpu_context \<Rightarrow> u32 \<Rightarrow> hyp \<Rightarrow> hyp" where
  "syscall_frame t p s =
     wr (p + 76) (reg t 0) (frame_store 17 0 (ctx_word t) (p + 8) (wr (p + 4) (reg t 5) (wr p (reg t 4) s)))"

definition syscall_ctx :: "cpu_context \<Rightarrow> hyp \<Rightarrow> u32 \<Rightarrow> cpu_context \<Rightarrow> cpu_context" where
  "syscall_ctx t s p c =
     (let c = c\<lparr>psr := psr c AND NOT IRQ_MASK, lr := ev V_RET_FAST_SYSCALL s,
                reg := (reg c)(7 := reg t 7)\<rparr>
      in if reg t 7 < nr_syscalls (ginfo s)
         then (copy_regs 6 0 t c)\<lparr>pc := rd (ev V_SWI s + push_bit 2 (reg t 7)) s\<rparr>
         else c\<lparr>reg := (reg c)(0 := reg t 7, 1 := p + 8), pc := ev V_ARM_SYSCALL s\<rparr>)"

lemma ev_upd_ctx [simp]: "ev i (upd_ctx m f s) = ev i s"
  by (simp add: ev_def)

lemma upd_ctx_twice [simp]: "upd_ctx m f (upd_ctx m g s) = upd_ctx m (\<lambda>c. f (g c)) s"
  by (simp add: upd_ctx_def upd_mode_def upd_vm_def)

lemma upd_ctx_cong: "f (mode_ctx m s) = g (mode_ctx m s) \<Longrightarrow> upd_ctx m f s = upd_ctx m g s"
  by (simp add: upd_ctx_def upd_mode_def upd_vm_def mode_ctx_def mode_state_def)

lemma syscall_entry_eq:
  assumes "vm_inv s"
  shows "syscall_entry s =
    (let t = mode_ctx HC_GM_TASK s; p = sp (mode_ctx HC_GM_KERNEL s) - 80;
         s1 = syscall_frame t p (upd_ctx HC_GM_KERNEL (\<lambda>c. c\<lparr>sp := sp c - 80\<rparr>)
                (switched HC_GM_KERNEL (mode_domain HC_GM_KERNEL) s))
     in Inr (upd_ctx HC_GM_KERNEL (syscall_ctx t s1 p) s1))"
  using vm_invD(1) [OF assms]
  by (auto simp: syscall_entry_def change_guest_mode_eq panic_if_def with_cur_def Let_def
      syscall_frame_def syscall_ctx_def intro!: upd_ctx_cong)

lemma syscall_frame_simps [simp]:
  "curr_vm (syscall_frame t p s) = curr_vm s" "cop (syscall_frame t p s) = cop s"
  "context_stack (syscall_frame t p s) = context_stack s"
  "context_stack_curr (syscall_frame t p s) = context_stack_curr s" "cpu (syscall_frame t p s) = cpu s"
  "mode_ctx m (syscall_frame t p s) = mode_ctx m s" "mode_state m (syscall_frame t p s) = mode_state m s"
  "same_vm u (syscall_frame t p s) \<longleftrightarrow> same_vm u s"
  by (simp_all add: syscall_frame_def)

lemma syscall_ctx_simps [simp]:
  "psr (syscall_ctx t s p c) = psr c AND NOT IRQ_MASK" "sp (syscall_ctx t s p c) = sp c"
  "lr (syscall_ctx t s p c) = ev V_RET_FAST_SYSCALL s" "reg (syscall_ctx t s p c) 7 = reg t 7"
  by (auto simp: syscall_ctx_def Let_def)

lemma syscall_frame_words:
  assumes "aligned 2 p"
  shows "rd p (syscall_frame t p s) = reg t 4" "rd (p + 4) (syscall_frame t p s) = reg t 5"
    "k < 17 \<Longrightarrow> rd (p + 8 + 4 * of_nat k) (syscall_frame t p s) = ctx_word t k"
    "rd (p + 76) (syscall_frame t p s) = reg t 0"
proof -
  have al: "aligned 2 (p + 4 * of_nat j)" for j
    using assms by (rule aligned_index4)
  have e: "p = p + 4 * of_nat 0" "p + 4 = p + 4 * of_nat 1" "p + 8 = p + 4 * of_nat 2" "p + 76 = p + 4 * of_nat 19"
    by simp_all
  have e2: "p + 8 + 4 * of_nat j = p + 4 * of_nat (2 + j)" for j by (simp add: algebra_simps)
  have al8: "aligned 2 (p + 8)" "aligned 2 (p + 4)" "aligned 2 (p + 76)"
    using al [of 2] al [of 1] al [of 19] by simp_all
  have far: "p + 4 * of_nat j \<noteq> p + 8 + 4 * of_nat k" if "j < 2" "k < 17" for j k
    unfolding e2 by (rule frame_offsets_ne) (use that in simp_all)
  have top: "p + 76 \<noteq> p + 4 * of_nat j" if "j < 19" for j
    using frame_offsets_ne [of j 19 p] that by auto
  have o: "rd (p + 4 * of_nat j) (syscall_frame t p s) =
      rd (p + 4 * of_nat j) (wr (p + 4) (reg t 5) (wr p (reg t 4) s))" if "j < 2" for j
    unfolding syscall_frame_def using that top [of j] far
    by (simp add: rd_def load32_store32_al [OF al8(3) al] frame_store_other [OF al8(1) al, unfolded rd_def])
  show "rd p (syscall_frame t p s) = reg t 4"
    using o [of 0] assms al8 by (simp add: rd_def load32_store32_al)
  show "rd (p + 4) (syscall_frame t p s) = reg t 5" using o [of 1] by simp
  show "rd (p + 76) (syscall_frame t p s) = reg t 0" by (simp add: syscall_frame_def)
  assume k: "k < 17"
  have "p + 76 \<noteq> p + 8 + 4 * of_nat k" unfolding e2 using top [of "2 + k"] k by simp
  then have "rd (p + 8 + 4 * of_nat k) (syscall_frame t p s) =
      rd (p + 8 + 4 * of_nat k) (frame_store 17 0 (ctx_word t) (p + 8) (wr (p + 4) (reg t 5) (wr p (reg t 4) s)))"
    by (simp add: syscall_frame_def rd_def load32_store32_al [OF al8(3) aligned_index4 [OF al8(1)]])
  also have "\<dots> = ctx_word t k" using k frame_store_word [OF al8(1), of k 17 0] by simp
  finally show "rd (p + 8 + 4 * of_nat k) (syscall_frame t p s) = ctx_word t k" .
qed

lemma syscall_entry_inv:
  assumes "vm_inv s" "syscall_entry s = Inr s'"
  shows "vm_inv s'"
proof -
  let ?p = "sp (mode_ctx HC_GM_KERNEL s) - 80"
  let ?u = "upd_ctx HC_GM_KERNEL (\<lambda>c. c\<lparr>sp := sp c - 80\<rparr>) (switched HC_GM_KERNEL (mode_domain HC_GM_KERNEL) s)"
  have "vm_inv ?u" by (intro upd_other_inv switched_inv assms(1)) simp_all
  then have "vm_inv (syscall_frame t ?p ?u)" for t
    by (subst same_vm_inv [of ?u]) simp_all
  then show ?thesis using assms(2) unfolding syscall_entry_eq [OF assms(1)] Let_def
    by (auto intro!: upd_ctx_inv)
qed

text \<open>C7: a system call of a task. The kernel mode becomes current; on its stack, 80 bytes lower,
  it finds the two extra arguments, the task's 17 registers in order and the old r0; interrupts
  are enabled, the link register is the kernel's return vector and r7 the call number; for a number
  below \<open>nr_syscalls\<close> the six argument registers are passed and control goes to the entry of the
  kernel's table, otherwise to the private system call vector. The task's registers are kept.\<close>

theorem syscall_builds_frame:
  assumes "vm_inv s" "guest_mode s = HC_GM_TASK" "t = mode_ctx HC_GM_TASK s"
    and "p = sp (mode_ctx HC_GM_KERNEL s) - 80" "aligned 2 p"
    and "hypercall_number \<noteq> HYPERCALL_RPC" "hypercall_number \<noteq> HYPERCALL_END_RPC"
  shows "\<exists>s'. swi_handler p0 p1 p2 hypercall_number s = Inr s' \<and> guest_mode s' = HC_GM_KERNEL
    \<and> rd p s' = reg t 4 \<and> rd (p + 4) s' = reg t 5
    \<and> (\<forall>k < 17. rd (p + 8 + 4 * of_nat k) s' = ctx_word t k) \<and> rd (p + 76) s' = reg t 0
    \<and> mode_ctx HC_GM_TASK s' = t
    \<and> (let c = mode_ctx HC_GM_KERNEL s' in
         sp c = p \<and> psr c AND IRQ_MASK = 0 \<and> lr c = ev V_RET_FAST_SYSCALL s' \<and> reg c 7 = reg t 7
       \<and> (if reg t 7 < nr_syscalls (ginfo s)
          then (\<forall>i \<le> 5. reg c i = reg t i) \<and> pc c = rd (ev V_SWI s' + push_bit 2 (reg t 7)) s'
          else reg c 0 = reg t 7 \<and> reg c 1 = p + 8 \<and> pc c = ev V_ARM_SYSCALL s'))"
proof -
  let ?u = "upd_ctx HC_GM_KERNEL (\<lambda>c. c\<lparr>sp := sp c - 80\<rparr>) (switched HC_GM_KERNEL (mode_domain HC_GM_KERNEL) s)"
  let ?s1 = "syscall_frame t p ?u"
  let ?s' = "upd_ctx HC_GM_KERNEL (syscall_ctx t ?s1 p) ?s1"
  have "swi_handler p0 p1 p2 hypercall_number s = Inr ?s'"
    using assms(2-4,6,7) by (simp add: swi_handler_def syscall_entry_eq [OF assms(1)] Let_def)
  moreover note fw = syscall_frame_words [OF assms(5), where t = t and s = ?u]
  moreover have "(x AND NOT IRQ_MASK) AND IRQ_MASK = 0" for x by (simp add: and.assoc)
  ultimately show ?thesis
    using assms(3,4)
    by (intro exI [of _ ?s']) (simp add: Let_def, auto simp: syscall_ctx_def Let_def)
qed

theorem syscall_builds_frame_witness:
  "\<exists>s'. swi_handler 0 0 0 0 (demo_hyp HC_GM_TASK) = Inr s' \<and> guest_mode s' = HC_GM_KERNEL
    \<and> rd 0xC00FFFB0 s' = 4 \<and> rd 0xC00FFFFC s' = 0 \<and> reg (mode_ctx HC_GM_KERNEL s') 7 = 7"
proof -
  have i: "vm_inv (demo_hyp HC_GM_TASK)" by (rule demo_hyp_inv) simp
  have p: "0xC00FFFB0 = sp (mode_ctx HC_GM_KERNEL (demo_hyp HC_GM_TASK)) - 80" by (simp add: demo_ctx_def)
  have "aligned 2 0xC00FFFB0" by (simp add: aligned_def)
  from syscall_builds_frame [OF i _ refl p this, of 0 0 0 0] show ?thesis
    by (auto simp: demo_ctx_def Let_def)
qed

text \<open>C10: the return path of a system call decides between user and kernel by word 15 of the
  stack, without the 8-byte offset of a system call frame: that word is the task's own stack
  pointer. A task that makes a system call with its stack pointer set to a kernel address is, when
  the kernel returns from the call, resumed in the kernel mode at that address.\<close>

theorem syscall_return_escalates:
  assumes "vm_inv s" "guest_mode s = HC_GM_TASK" "swi_handler p0 p1 p2 hypercall_number s = Inr s1"
    and "hypercall_number \<noteq> HYPERCALL_RPC" "hypercall_number \<noteq> HYPERCALL_END_RPC"
    and "aligned 2 (sp (mode_ctx HC_GM_KERNEL s) - 80)" "kernel_range (sp (mode_ctx HC_GM_KERNEL s) - 80)"
    and "0xC0000000 \<le> sp (mode_ctx HC_GM_TASK s)" "sp (mode_ctx HC_GM_TASK s) < 0xFFFF0FA0"
  shows "\<exists>s2. hypercall_restore_linux_regs rv True s1 = Inr s2 \<and> guest_mode s2 = HC_GM_KERNEL
    \<and> pc (mode_ctx HC_GM_KERNEL s2) = sp (mode_ctx HC_GM_TASK s)
    \<and> cop s2 0 COP_SYSTEM_DOMAIN = HC_DOMAC_KERNEL"
proof -
  let ?t = "mode_ctx HC_GM_TASK s" and ?p = "sp (mode_ctx HC_GM_KERNEL s) - 80"
  let ?u = "upd_ctx HC_GM_KERNEL (\<lambda>c. c\<lparr>sp := sp c - 80\<rparr>) (switched HC_GM_KERNEL (mode_domain HC_GM_KERNEL) s)"
  have s1: "s1 = upd_ctx HC_GM_KERNEL (syscall_ctx ?t (syscall_frame ?t ?p ?u) ?p) (syscall_frame ?t ?p ?u)"
    using assms(2-5) by (simp add: swi_handler_def syscall_entry_eq [OF assms(1)] Let_def)
  have w: "rd (?p + 60) s1 = sp ?t"
    using syscall_frame_words(3) [OF assms(6), of 13 ?t ?u] by (simp add: s1 ctx_word_def)
  have p: "sp (mode_ctx HC_GM_KERNEL s1) = ?p" by (simp add: s1)
  have c: "config_inv (upd_ctx m f t) \<longleftrightarrow> config_inv t" "config_inv (ctx_load n i m a t) \<longleftrightarrow> config_inv t"
    for m f t n i a by (simp_all add: config_inv_def)
  have "vm_inv s1"
    using syscall_entry_inv [OF assms(1)] assms(2-5) by (simp add: swi_handler_def)
  then have "config_inv s1" by (rule vm_invD)
  moreover have "\<not> (sp ?t < 0xC0000000 \<or> (sp ?t < 0xFFFF1000 \<and> 0xFFFF0FA0 \<le> sp ?t))"
    using assms(8,9) by (auto simp: not_less not_le)
  moreover have "\<not> (?p < 0xC0000000 \<or> 0xEFFFFFBC < ?p)"
    using assms(7) by (simp add: kernel_range_def not_less)
  ultimately show ?thesis
    using p w
    by (simp add: hypercall_restore_linux_regs_def Let_def panic_if_def change_guest_mode_eq c
        mode_domain_simps [simplified] del: upd_ctx_twice)
qed

definition demo_attack :: hyp where
  "demo_attack = upd_ctx HC_GM_TASK (\<lambda>c. c\<lparr>sp := 0xC0000100\<rparr>) (demo_hyp HC_GM_TASK)"

theorem syscall_return_escalates_witness:
  "\<exists>s1 s2. swi_handler 0 0 0 0 demo_attack = Inr s1
    \<and> hypercall_restore_linux_regs 0 True s1 = Inr s2 \<and> guest_mode s2 = HC_GM_KERNEL
    \<and> pc (mode_ctx HC_GM_KERNEL s2) = 0xC0000100"
proof -
  have i: "vm_inv demo_attack"
    unfolding demo_attack_def by (rule upd_other_inv) (simp_all add: demo_hyp_inv)
  have g: "guest_mode demo_attack = HC_GM_TASK" and k: "sp (mode_ctx HC_GM_KERNEL demo_attack) = 0xC0100000"
    and t: "sp (mode_ctx HC_GM_TASK demo_attack) = 0xC0000100"
    by (simp_all add: demo_attack_def) (simp_all add: demo_ctx_def)
  obtain s1 where s1: "swi_handler 0 0 0 0 demo_attack = Inr s1"
    using g syscall_entry_eq [OF i] by (simp add: swi_handler_def Let_def)
  have "\<exists>s2. hypercall_restore_linux_regs 0 True s1 = Inr s2 \<and> guest_mode s2 = HC_GM_KERNEL
    \<and> pc (mode_ctx HC_GM_KERNEL s2) = sp (mode_ctx HC_GM_TASK demo_attack)
    \<and> cop s2 0 COP_SYSTEM_DOMAIN = HC_DOMAC_KERNEL"
    by (rule syscall_return_escalates [OF i g s1]) (unfold k t, simp_all add: aligned_def kernel_range_def)
  with s1 show ?thesis unfolding t by blast
qed

section \<open>Aborts and interrupts\<close>

definition abort_frame :: "(nat \<Rightarrow> u32) \<Rightarrow> u32 \<Rightarrow> hyp \<Rightarrow> hyp" where
  "abort_frame w p s = wr (p + 68) 0xFFFFFFFF (frame_store 17 0 w p s)"

lemma abort_frame_simps [simp]:
  "curr_vm (abort_frame w p s) = curr_vm s" "cop (abort_frame w p s) = cop s"
  "context_stack (abort_frame w p s) = context_stack s"
  "context_stack_curr (abort_frame w p s) = context_stack_curr s" "cpu (abort_frame w p s) = cpu s"
  "mode_ctx m (abort_frame w p s) = mode_ctx m s" "mode_state m (abort_frame w p s) = mode_state m s"
  "same_vm u (abort_frame w p s) \<longleftrightarrow> same_vm u s"
  by (simp_all add: abort_frame_def)

lemma abort_frame_words:
  assumes "aligned 2 p"
  shows "k < 17 \<Longrightarrow> rd (p + 4 * of_nat k) (abort_frame w p s) = w k"
    "rd (p + 68) (abort_frame w p s) = 0xFFFFFFFF"
proof -
  have al: "aligned 2 (p + 4 * of_nat j)" for j using assms by (rule aligned_index4)
  show "rd (p + 68) (abort_frame w p s) = 0xFFFFFFFF" by (simp add: abort_frame_def)
  assume k: "k < 17"
  then have "p + 68 \<noteq> p + 4 * of_nat k" using frame_offsets_ne [of k 17 p] by auto
  moreover have "aligned 2 (p + 68)" using al [of 17] by simp
  ultimately show "rd (p + 4 * of_nat k) (abort_frame w p s) = w k"
    using frame_store_word [OF assms, of k 17 0 w s] k
    by (simp add: abort_frame_def rd_def load32_store32_al al)
qed

definition abort_ctx :: "u32 \<Rightarrow> u32 \<Rightarrow> u32 \<Rightarrow> hyp \<Rightarrow> cpu_context \<Rightarrow> cpu_context" where
  "abort_ctx vec addr status s c =
     c\<lparr>reg := (reg c)(0 := addr, 1 := status, 2 := sp c), psr := psr c OR IRQ_MASK,
       pc := ev vec s, lr := ev V_RET_FROM_EXCEPTION s\<rparr>"

lemma abort_handler_eq:
  assumes "vm_inv s"
  shows "abort_handler data vec addr status s =
    (let p = sp (mode_ctx HC_GM_KERNEL s) - 72;
         u = upd_ctx HC_GM_KERNEL (\<lambda>c. c\<lparr>sp := sp c - 72\<rparr>) (switched HC_GM_KERNEL (mode_domain HC_GM_KERNEL) s);
         s1 = abort_frame (abort_frame_word data (guest_mode s) (mode_ctx (guest_mode s) u)) p u
     in Inr (upd_ctx HC_GM_KERNEL (abort_ctx vec addr status s1) s1))"
proof -
  have "psr (mode_ctx 1 s) AND 15 = 0"
    using vm_invD(5) [OF assms] unfolding psr_inv_def by (rule allE [of _ 1]) simp
  then show ?thesis
    using vm_invD(1) [OF assms]
    by (auto simp: abort_handler_def change_guest_mode_eq panic_if_def Let_def abort_frame_def
        abort_ctx_def intro!: upd_ctx_cong)
qed

lemma abort_handler_inv:
  assumes "vm_inv s" "abort_handler data vec addr status s = Inr s'"
  shows "vm_inv s'"
proof -
  let ?u = "upd_ctx HC_GM_KERNEL (\<lambda>c. c\<lparr>sp := sp c - 72\<rparr>) (switched HC_GM_KERNEL (mode_domain HC_GM_KERNEL) s)"
  have "vm_inv ?u" by (intro upd_other_inv switched_inv assms(1)) simp_all
  then have "vm_inv (abort_frame w p ?u)" for w p
    by (subst same_vm_inv [of ?u]) simp_all
  then show ?thesis using assms(2) unfolding abort_handler_eq [OF assms(1)] Let_def
    by (auto simp: abort_ctx_def intro!: upd_ctx_inv)
qed

text \<open>C8: an abort taken in any mode. The kernel mode becomes current with the fault address, the
  fault status and a pointer to the frame in r0 to r2, and continues at the guest's abort vector
  with interrupts masked; the frame of 72 bytes holds the 17 context words of the interrupted mode
  (for a data abort of the kernel itself the saved stack pointer is corrected by the frame size)
  and the marker of a fault in the last word. The branch of the code for an abort coming from user mode
  is never taken, since no mode has privileged status bits.\<close>

theorem data_abort_builds_frame:
  assumes "vm_inv s" "p = sp (mode_ctx HC_GM_KERNEL s) - 72" "aligned 2 p"
  shows "\<exists>s'. data_abort_handler addr status unused s = Inr s' \<and> guest_mode s' = HC_GM_KERNEL
    \<and> (\<forall>k < 17. rd (p + 4 * of_nat k) s' =
         (if k = 13 \<and> guest_mode s = HC_GM_KERNEL then sp (mode_ctx HC_GM_KERNEL s)
          else ctx_word (mode_ctx (guest_mode s) s) k))
    \<and> rd (p + 68) s' = 0xFFFFFFFF
    \<and> (let c = mode_ctx HC_GM_KERNEL s' in
         reg c 0 = addr \<and> reg c 1 = status \<and> reg c 2 = p \<and> sp c = p
       \<and> psr c = psr (mode_ctx HC_GM_KERNEL s) OR IRQ_MASK
       \<and> pc c = ev V_DATA_ABORT s' \<and> lr c = ev V_RET_FROM_EXCEPTION s')
    \<and> (\<forall>m. m \<noteq> HC_GM_KERNEL \<longrightarrow> mode_ctx m s' = mode_ctx m s)"
proof -
  let ?u = "upd_ctx HC_GM_KERNEL (\<lambda>c. c\<lparr>sp := sp c - 72\<rparr>) (switched HC_GM_KERNEL (mode_domain HC_GM_KERNEL) s)"
  let ?w = "abort_frame_word True (guest_mode s) (mode_ctx (guest_mode s) ?u)"
  let ?s1 = "abort_frame ?w p ?u"
  let ?s' = "upd_ctx HC_GM_KERNEL (abort_ctx V_DATA_ABORT addr status ?s1) ?s1"
  have e: "data_abort_handler addr status unused s = Inr ?s'"
    using assms(2) by (simp add: data_abort_handler_def abort_handler_eq [OF assms(1)] Let_def)
  have w: "?w k = (if k = 13 \<and> guest_mode s = HC_GM_KERNEL then sp (mode_ctx HC_GM_KERNEL s)
      else ctx_word (mode_ctx (guest_mode s) s) k)" if "k < 17" for k
    using that by (auto simp: abort_frame_word_def ctx_word_def)
  note fw = abort_frame_words [OF assms(3), where w = ?w and s = ?u]
  show ?thesis
    using assms(2) w fw by (intro exI [of _ ?s'] conjI e) (simp_all add: abort_ctx_def Let_def)
qed

theorem data_abort_builds_frame_witness:
  "\<exists>s'. data_abort_handler 0xBF000010 5 0 (demo_hyp HC_GM_TASK) = Inr s' \<and> guest_mode s' = HC_GM_KERNEL
    \<and> rd 0xC00FFFFC s' = 0xFFFFFFFF \<and> reg (mode_ctx HC_GM_KERNEL s') 0 = 0xBF000010"
proof -
  have i: "vm_inv (demo_hyp HC_GM_TASK)" by (rule demo_hyp_inv) simp
  have p: "0xC00FFFB8 = sp (mode_ctx HC_GM_KERNEL (demo_hyp HC_GM_TASK)) - 72" by (simp add: demo_ctx_def)
  have "aligned 2 0xC00FFFB8" by (simp add: aligned_def)
  from data_abort_builds_frame [OF i p this, of "0xBF000010" 5 0] show ?thesis
    by (auto simp: Let_def)
qed

lemma irq_handler_inv:
  assumes "vm_inv s" "irq_handler irq r1 r2 s = Inr s'"
  shows "vm_inv s'"
proof (cases "guest_mode s = HC_GM_INTERRUPT")
  case True
  then show ?thesis using assms
    by (auto simp: irq_handler_def with_cur_eq intro!: upd_ctx_inv)
next
  case False
  let ?t = "upd_vm (\<lambda>vm. vm\<lparr>interrupted_mode := current_guest_mode vm\<rparr>) s"
  have "?t = upd_vm (\<lambda>vm. vm\<lparr>interrupted_mode := guest_mode s\<rparr>) s" by (simp add: upd_vm_def)
  then have t: "vm_inv ?t"
    using False assms(1) by (simp only:) (rule interrupted_upd_inv, simp_all add: vm_invD(3))
  then have "vm_inv (switched HC_GM_INTERRUPT (mode_domain HC_GM_INTERRUPT) ?t)"
    by (rule switched_inv) simp
  then show ?thesis using False assms(2) vm_invD(1) [OF t]
    by (auto simp: irq_handler_def change_guest_mode_eq panic_if_def with_cur_def Let_def
        intro!: upd_ctx_inv)
qed

section \<open>Every handler keeps the invariant\<close>

lemma keepsD: "keeps_vm_inv f \<Longrightarrow> vm_inv s \<Longrightarrow> f s = Inr s' \<Longrightarrow> vm_inv s'"
  by (simp add: keeps_vm_inv_def)

lemma keepsI: "(\<And>s s'. vm_inv s \<Longrightarrow> f s = Inr s' \<Longrightarrow> vm_inv s') \<Longrightarrow> keeps_vm_inv f"
  unfolding keeps_vm_inv_def by blast

lemma keeps_if:
  assumes "keeps_vm_inv f" "keeps_vm_inv g"
  shows "keeps_vm_inv (\<lambda>s. if b s then f s else g s)"
proof (rule keepsI)
  fix s s' assume i: "vm_inv s" and e: "(if b s then f s else g s) = Inr s'"
  show "vm_inv s'"
  proof (cases "b s")
    case True
    then show ?thesis using e by (intro keepsD [OF assms(1) i]) simp
  next
    case False
    then show ?thesis using e by (intro keepsD [OF assms(2) i]) simp
  qed
qed

lemma same_vm_keeps:
  assumes "\<And>s s'. f s = Inr s' \<Longrightarrow> same_vm s s'"
  shows "keeps_vm_inv f"
proof (rule keepsI)
  fix s s' assume "vm_inv s" "f s = Inr s'"
  then show "vm_inv s'" using same_vm_inv [OF assms] by blast
qed

lemma machine_calls_keep:
  "keeps_vm_inv (hypercall_cache_op a b c)" "keeps_vm_inv (hypercall_set_tls a)"
  "keeps_vm_inv (hypercall_switch_mm a b)" "keeps_vm_inv (hypercall_new_pgd a)"
  "keeps_vm_inv (hypercall_free_pgd a)" "keeps_vm_inv (hypercall_create_section a b c)"
  "keeps_vm_inv (hypercall_set_pmd a b)" "keeps_vm_inv (hypercall_set_pte a b c)"
  "keeps_vm_inv (\<lambda>s. Inr (isb (COP_WRITE COP_CONTEXT_ID_REGISTER a s)))"
  by (rule same_vm_keeps; (erule mmu_calls_same_vm hypercall_cache_op_same_vm
        | auto simp: hypercall_set_tls_def))+

lemma hypercall_num_error_keeps: "keeps_vm_inv (hypercall_num_error n)"
  by (rule keepsI) (simp add: hypercall_num_error_def with_cur_eq Let_def)

lemmas handler_keeps =
  hypercall_guest_init_inv hypercall_interrupt_set_inv hypercall_end_interrupt_inv
  hypercall_restore_linux_regs_inv hypercall_restore_regs_inv hypercall_rpc_inv hypercall_end_rpc_inv
  machine_calls_keep hypercall_num_error_keeps

lemma hypercall_dispatch_inv: "keeps_vm_inv (hypercall_dispatch p0 p1 p2 n)"
  unfolding hypercall_dispatch_def [abs_def] by (intro keeps_if handler_keeps)

lemma swi_handler_inv: "keeps_vm_inv (swi_handler p0 p1 p2 n)"
  unfolding swi_handler_def [abs_def]
  by (intro keeps_if handler_keeps hypercall_dispatch_inv keepsI [OF syscall_entry_inv])

end
