(* ===== verification/Hyp_Init.thy ===== *)
theory Hyp_Init
  imports Hyp_Handlers
begin

text \<open>
  Boot of the hypervisor: the board's memory map (\<open>board_mem.c\<close> of the beagleboard), the lookup of
  \<open>mem.c\<close>, and \<open>init.c\<close> - building the page tables, setting up the virtual machine and starting
  the guest (\<open>start.c\<close>).
\<close>

section \<open>The memory map\<close>

record memory_layout_entry =
  page_start :: u32
  page_count :: u32
  ml_type :: memory_layout_type
  ml_flags :: u32

definition MLF_LAST :: u32 where [simp]: "MLF_LAST = 1"
definition MLF_READABLE :: u32 where [simp]: "MLF_READABLE = 4"
definition MLF_WRITEABLE :: u32 where [simp]: "MLF_WRITEABLE = 8"

definition layout :: "u32 \<Rightarrow> u32 \<Rightarrow> memory_layout_type \<Rightarrow> u32 \<Rightarrow> memory_layout_entry" where
  "layout a b t f = \<lparr>page_start = ADDR_TO_PAGE a, page_count = ADDR_TO_PAGE b, ml_type = t, ml_flags = f\<rparr>"

definition memory_padr_layout :: "memory_layout_entry list" where
  "memory_padr_layout =
    [layout 0x48002000 0x48003000 MLT_IO_RO_REG MLF_READABLE,
     layout 0x48004000 0x48006000 MLT_IO_RO_REG MLF_READABLE,
     layout 0x4806a000 0x4806b000 MLT_IO_RW_REG (MLF_READABLE OR MLF_WRITEABLE),
     layout 0x4806c000 0x4806d000 MLT_IO_RW_REG (MLF_READABLE OR MLF_WRITEABLE),
     layout 0x48200000 0x48201000 MLT_IO_HYP_REG (MLF_READABLE OR MLF_WRITEABLE),
     layout 0x48304000 0x48305000 MLT_IO_RO_REG MLF_READABLE,
     layout 0x48306000 0x48308000 MLT_IO_RO_REG MLF_READABLE,
     layout 0x48320000 0x48321000 MLT_IO_RO_REG MLF_READABLE,
     layout 0x4830A000 0x4830B000 MLT_IO_RO_REG MLF_READABLE,
     layout 0x49020000 0x49021000 MLT_IO_RW_REG (MLF_READABLE OR MLF_WRITEABLE),
     layout 0x81000000 0x88000000 MLT_USER_RAM (MLF_READABLE OR MLF_WRITEABLE OR MLF_LAST)]"

text \<open>\<open>mem_padr_lookup\<close> walks the table up to the entry flagged as the last one.\<close>

fun padr_lookup :: "memory_layout_entry list \<Rightarrow> u32 \<Rightarrow> memory_layout_entry option" where
  "padr_lookup [] page = None"
| "padr_lookup (tmp # rest) page =
     (if (page_start tmp AND 0xFFF00) \<le> page \<and> page \<le> page_count tmp then Some tmp
      else if ml_flags tmp AND MLF_LAST \<noteq> 0 then None
      else padr_lookup rest page)"

definition mem_padr_lookup :: "u32 \<Rightarrow> memory_layout_entry option" where
  "mem_padr_lookup padr = padr_lookup memory_padr_layout (ADDR_TO_PAGE padr)"

section \<open>memory_init\<close>

fun init_sections :: "nat \<Rightarrow> u32 \<Rightarrow> memory_layout_type \<Rightarrow> 'a machine_scheme \<Rightarrow> 'a machine_scheme" where
  "init_sections 0 j t s = s"
| "init_sections (Suc n) j t s =
     init_sections n (j + 1) t (snd (pt_create_section (flpt_va s) (push_bit 20 j) (push_bit 20 j) t s))"

definition init_entry :: "memory_layout_entry \<Rightarrow> 'a machine_scheme \<Rightarrow> 'a machine_scheme" where
  "init_entry e s =
     (if ml_type e = MLT_IO_RW_REG \<or> ml_type e = MLT_IO_RO_REG \<or> ml_type e = MLT_IO_HYP_REG
      then snd (pt_create_coarse (flpt_va s) (IO_VA_ADDRESS (PAGE_TO_ADDR (page_start e)))
             (PAGE_TO_ADDR (page_start e)) (push_bit PAGE_BITS (page_count e - page_start e)) (ml_type e) s)
      else if ml_type e \<noteq> MLT_NONE
      then let j = drop_bit 8 (page_start e)
           in init_sections (unat (drop_bit 8 (page_count e)) - unat j) j (ml_type e) s
      else s)"

fun init_layout :: "memory_layout_entry list \<Rightarrow> 'a machine_scheme \<Rightarrow> 'a machine_scheme" where
  "init_layout [] s = s"
| "init_layout (e # rest) s =
     (let s = init_entry e s in if ml_flags e AND MLF_LAST \<noteq> 0 then s else init_layout rest s)"

definition memory_init :: "u32 \<Rightarrow> 'a machine_scheme \<Rightarrow> 'a machine_scheme" where
  "memory_init interrupt_vector_table s =
     (let s = init_layout memory_padr_layout s;
          s = snd (pt_map 0xFFFF0000 (GET_PHYS interrupt_vector_table) 0x1000 MLT_USER_ROM s);
          s = mem_mmu_tlb_invalidate_all True True s;
          s = mem_cache_invalidate True True True s;
          s = mem_cache_set_enable True s
      in mem_mmu_set_domain 0x55555555 s)"

section \<open>guests_init and start_guest\<close>

fun init_modes :: "nat \<Rightarrow> u32 \<Rightarrow> hyp \<Rightarrow> hyp" where
  "init_modes 0 i s = s"
| "init_modes (Suc n) i s =
     init_modes n (i + 1)
       (upd_mode i (\<lambda>ms. ms\<lparr>mode_config := Some (guest_modes (config (curr_vm s)) ! unat i),
          rpc_for := MODE_NONE, rpc_to := MODE_NONE\<rparr>) s)"

definition guests_init :: "hyp \<Rightarrow> hyp res" where
  "guests_init s =
     (let s = upd_vm (\<lambda>vm. vm\<lparr>vm_id := 0, config := linux_config\<rparr>) s;
          s = linux_init s;
          s = snd (pt_create_section (flpt_va s) 0xF0100000 (0x00100000 + HAL_PHYS_START) MLT_TRUSTED_RAM s)
      in case rpc_handlers (config (curr_vm s)) of
           None \<Rightarrow> Inl (Null_pointer ''rpc_handlers'')
         | Some h \<Rightarrow>
             let s = upd_ctx HC_GM_TRUSTED (\<lambda>c. c\<lparr>sp := rh_sp h\<rparr>) s;
                 s = upd_ctx HC_GM_TRUSTED (\<lambda>c. c\<lparr>psr := ARM_INTERRUPT_MASK OR ARM_MODE_USER\<rparr>) s;
                 s = init_modes 4 0 s;
                 s = upd_vm (\<lambda>vm. vm\<lparr>current_guest_mode := MODE_NONE, interrupted_mode := MODE_NONE,
                       current_mode_state := None\<rparr>) s;
                 s = upd_ctx HC_GM_INTERRUPT (\<lambda>c. c\<lparr>psr := ARM_MODE_USER\<rparr>) s
             in Inr (cpu_context_initial_set (Mode_context HC_GM_KERNEL) s))"

definition LINUX_ARCH_ID :: u32 where [simp]: "LINUX_ARCH_ID = 0x60A"

definition start :: "hyp \<Rightarrow> hyp" where
  "start s =
     (let entry = guest_entry_point (config (curr_vm s))
      in s\<lparr>cpu := (cpu s)\<lparr>reg := (reg (cpu s))(0 := 0, 1 := LINUX_ARCH_ID, 2 := entry - 0x10000 + 0x100),
           lr := entry, pc := entry, psr := 0xD0\<rparr>\<rparr>)"

definition start_guest :: "hyp \<Rightarrow> hyp res" where
  "start_guest s = bindE (change_guest_mode HC_GM_KERNEL s) (\<lambda>s. Inr (start s))"

definition start_main :: "u32 \<Rightarrow> hyp \<Rightarrow> hyp res" where
  "start_main interrupt_vector_table s =
     (let s = cpu_init s;
          s = memory_init interrupt_vector_table s
      in bindE (guests_init s) start_guest)"

section \<open>What boot leaves alone\<close>

lemma store_words_more [simp]: "machine.more (store_words a ws s) = machine.more s"
  by (induction ws arbitrary: a s) simp_all

lemma pt_create_section_more [simp]:
  "machine.more (snd (pt_create_section l1 va pa t s)) = machine.more s"
  by (simp add: pt_create_section_def Let_def)

lemma pt_create_coarse_more [simp]:
  "machine.more (snd (pt_create_coarse pt va pa sz t s)) = machine.more s"
  by (auto simp: pt_create_coarse_def pt_get_empty_l2_def Let_def split: prod.splits)

lemma linux_sections_more [simp]: "machine.more (linux_sections n i r s) = machine.more s"
  by (induction n arbitrary: i s) simp_all

lemma swapper_pages_more [simp]: "machine.more (swapper_pages n i ph p s) = machine.more s"
  by (induction n arbitrary: i ph s) (simp_all add: Let_def)

lemma linux_init_more [simp]: "machine.more (linux_init s) = machine.more s"
  by (simp add: linux_init_def init_linux_sigcode_def init_linux_page_def Let_def)

lemma init_sections_more [simp]: "machine.more (init_sections n j t s) = machine.more s"
  by (induction n arbitrary: j s) simp_all

lemma init_layout_more [simp]: "machine.more (init_layout es s) = machine.more s"
  by (induction es arbitrary: s) (simp_all add: init_entry_def Let_def)

lemma cpu_parts_more [simp]:
  "machine.more (mem_mmu_tlb_invalidate_all i d s) = machine.more s"
  "machine.more (mem_cache_invalidate i d w s) = machine.more s"
  "machine.more (mem_cache_set_enable b s) = machine.more s"
  by (simp_all add: mem_mmu_tlb_invalidate_all_def mem_cache_invalidate_def mem_icache_invalidate_def
      mem_cache_set_enable_def Let_def)

lemma boot_more:
  "machine.more (cpu_init s) = machine.more s" "machine.more (memory_init ivt s) = machine.more s"
  by (simp_all add: cpu_init_def memory_init_def Let_def pt_map_def mem_mmu_set_domain_def)

text \<open>The state the program is loaded with: the virtual machine and the boot flag are zero, the
  context stack is the initialised table of \<open>family_context_bottom.inc\<close>.\<close>

definition loaded :: "hyp \<Rightarrow> bool" where
  "loaded s \<longleftrightarrow> (\<forall>m. psr (mode_ctx m s) = 0) \<and> context_stack_curr s = 0
     \<and> context_stack s = (\<lambda>i. if i = 0 \<or> 8 \<le> i then Null_ctx else Def_context (unat i)) \<and> boot s = 0"

end
