(* ===== verification/Hyp_System.thy ===== *)
theory Hyp_System
  imports Hyp_Init
begin

text \<open>
  The whole system as a transition system: exception entry and exit as in
  \<open>soc_interrupt_vector.S\<close> around the handlers, guest code as arbitrary user-mode execution, and
  the properties that hold in every state reachable from boot.
\<close>

section \<open>Exceptions\<close>

text \<open>The arguments of an abort come from the fault registers; an interrupt either is routed to
  \<open>irq_handler\<close> or to a handler that leaves the virtual machine alone.\<close>

datatype guest_exception =
    Exc_swi
  | Exc_pabort u32 u32
  | Exc_dabort u32 u32
  | Exc_irq u32 bool
  | Exc_undef

text \<open>The return address each entry stores and the handler it calls. For a software interrupt the
  number is taken from the instruction and the arguments from the live registers.\<close>

definition exception_return :: "guest_exception \<Rightarrow> hyp \<Rightarrow> u32" where
  "exception_return e s = (case e of Exc_swi \<Rightarrow> pc (cpu s) + 4 | _ \<Rightarrow> pc (cpu s))"

definition exception_handler :: "guest_exception \<Rightarrow> cpu_context \<Rightarrow> u32 \<Rightarrow> hyp \<Rightarrow> hyp res" where
  "exception_handler e c instr s =
     (case e of
        Exc_swi \<Rightarrow> swi_handler (reg c 0) (reg c 1) (reg c 2) (instr AND NOT 0xFF000000) s
      | Exc_pabort ifar ifsr \<Rightarrow> prefetch_abort_handler ifar ifsr (pc c) s
      | Exc_dabort far fsr \<Rightarrow> data_abort_handler far fsr (pc c) s
      | Exc_irq irq routed \<Rightarrow> if routed then irq_handler (irq AND 0x7F) (reg c 1) (reg c 2) s else Inr s
      | Exc_undef \<Rightarrow> undef_handler instr (reg c 1) (pc c) s)"

definition take_exception :: "guest_exception \<Rightarrow> hyp \<Rightarrow> hyp res" where
  "take_exception e s =
     bindE (store_context (exception_return e s) s) (\<lambda>s1.
     bindE (exception_handler e (cpu s) (rd (pc (cpu s)) s) s1) restore_context)"

section \<open>The transition system\<close>

text \<open>A guest runs in user mode: it changes its registers and flags and memory, but not the mode
  bits of its status register, no coprocessor register and nothing of the hypervisor's data.\<close>

inductive hyp_step :: "hyp \<Rightarrow> hyp \<Rightarrow> bool" where
  user_step: "psr c AND 0x1F = psr (cpu s) AND 0x1F \<Longrightarrow> hyp_step s (s\<lparr>cpu := c, ram := m\<rparr>)"
| exc_step: "take_exception e s = Inr s' \<Longrightarrow> hyp_step s s'"

inductive_cases hyp_stepE: "hyp_step s t"

definition booted :: "u32 \<Rightarrow> hyp \<Rightarrow> hyp \<Rightarrow> bool" where
  "booted ivt s0 s \<longleftrightarrow> loaded s0 \<and> start_main ivt s0 = Inr s"

text \<open>No mode is in a remote call, none is interrupted, and the trusted mode has its stack and starts
  with interrupts masked.\<close>

definition fresh_modes :: "hyp \<Rightarrow> bool" where
  "fresh_modes s \<longleftrightarrow> interrupted_mode (curr_vm s) = MODE_NONE
     \<and> (\<forall>m < 4. rpc_for (mode_state m s) = MODE_NONE \<and> rpc_to (mode_state m s) = MODE_NONE)
     \<and> sp (mode_ctx HC_GM_TRUSTED s) = TRUSTED_SP \<and> psr (mode_ctx HC_GM_TRUSTED s) = 0xD0"

text \<open>The invariant between exceptions.\<close>

definition guest_inv :: "hyp \<Rightarrow> bool" where
  "guest_inv s \<longleftrightarrow> context_stack_curr s = 0 \<and> vm_inv (s\<lparr>context_stack_curr := 1\<rparr>)
     \<and> psr (cpu s) AND 0xF = 0"

section \<open>Entry and exit\<close>

lemma stack_upd_simps [simp]:
  "mode_state m (s\<lparr>context_stack_curr := k\<rparr>) = mode_state m s"
  "mode_ctx m (s\<lparr>context_stack_curr := k\<rparr>) = mode_ctx m s"
  "mode_state m (s\<lparr>cpu := c\<rparr>) = mode_state m s" "mode_ctx m (s\<lparr>cpu := c\<rparr>) = mode_ctx m s"
  "mode_state m (s\<lparr>ram := r\<rparr>) = mode_state m s" "mode_ctx m (s\<lparr>ram := r\<rparr>) = mode_ctx m s"
  by (simp_all add: mode_state_def mode_ctx_def)

lemma vm_inv_cpu_ram [simp]:
  "vm_inv (s\<lparr>cpu := c\<rparr>) \<longleftrightarrow> vm_inv s" "vm_inv (s\<lparr>ram := r\<rparr>) \<longleftrightarrow> vm_inv s"
  "vm_inv (s\<lparr>ram := r, cpu := c, context_stack_curr := k\<rparr>) \<longleftrightarrow> vm_inv (s\<lparr>context_stack_curr := k\<rparr>)"
  by (simp_all add: vm_inv_def current_inv_def config_inv_def psr_inv_def rpc_inv_def interrupted_inv_def)

text \<open>Entering stores the live registers in the current mode's context; leaving loads the then
  current mode's.\<close>

definition entered :: "u32 \<Rightarrow> hyp \<Rightarrow> hyp" where
  "entered ret s = upd_ctx (guest_mode s) (\<lambda>_. (cpu s)\<lparr>pc := ret\<rparr>) (s\<lparr>context_stack_curr := 1\<rparr>)"

lemma store_context_eq: "guest_inv s \<Longrightarrow> store_context ret s = Inr (entered ret s)"
  by (simp add: store_context_def guest_inv_def vm_inv_def current_inv_def set_ctx_at_def entered_def Let_def)

lemma entered_inv:
  assumes "guest_inv s"
  shows "vm_inv (entered ret s)"
proof -
  have "psr ((cpu s)\<lparr>pc := ret\<rparr>) AND 0xF = 0" using assms by (simp add: guest_inv_def)
  then show ?thesis
    unfolding entered_def using assms by (intro upd_ctx_inv) (simp_all add: guest_inv_def)
qed

lemma restore_context_eq:
  "vm_inv s \<Longrightarrow> restore_context s =
     Inr (s\<lparr>context_stack_curr := 0, cpu := mode_ctx (guest_mode s) s\<rparr>)"
  by (simp add: restore_context_def vm_inv_def current_inv_def ctx_at_def)

lemma left_inv: "vm_inv s \<Longrightarrow> guest_inv (s\<lparr>context_stack_curr := 0, cpu := mode_ctx (guest_mode s) s\<rparr>)"
proof -
  assume i: "vm_inv s"
  have "s\<lparr>context_stack_curr := 0, cpu := c, context_stack_curr := 1\<rparr> = s\<lparr>cpu := c\<rparr>" for c
    using vm_invD(4) [OF i] by (cases s) simp
  moreover have "psr (mode_ctx (guest_mode s) s) AND 0xF = 0"
    using vm_invD(3,5) [OF i] by (simp add: psr_inv_def)
  ultimately show ?thesis using i by (simp add: guest_inv_def)
qed

lemma handlers_keep: "keeps_vm_inv (exception_handler e c instr)"
proof (rule keepsI)
  fix s s' assume i: "vm_inv s" and h: "exception_handler e c instr s = Inr s'"
  show "vm_inv s'"
  proof (cases e)
    case Exc_swi
    then show ?thesis using h by (intro keepsD [OF swi_handler_inv i]) (simp add: exception_handler_def)
  next
    case (Exc_irq n routed)
    then show ?thesis using i h irq_handler_inv by (cases routed) (auto simp: exception_handler_def)
  qed (use i h abort_handler_inv in
      \<open>auto simp: exception_handler_def prefetch_abort_handler_def data_abort_handler_def undef_handler_def\<close>)
qed

text \<open>One exception, taken apart.\<close>

lemma take_exceptionE:
  assumes "guest_inv s" "take_exception e s = Inr s'"
  obtains s2 where "exception_handler e (cpu s) (rd (pc (cpu s)) s) (entered (exception_return e s) s) = Inr s2"
    "vm_inv s2" "s' = s2\<lparr>context_stack_curr := 0, cpu := mode_ctx (guest_mode s2) s2\<rparr>"
proof -
  obtain s2 where h: "exception_handler e (cpu s) (rd (pc (cpu s)) s) (entered (exception_return e s) s) = Inr s2"
    and r: "restore_context s2 = Inr s'"
    using assms by (auto simp: take_exception_def store_context_eq)
  have "vm_inv s2" by (rule keepsD [OF handlers_keep entered_inv [OF assms(1)] h])
  with h r that show thesis by (simp add: restore_context_eq)
qed

lemma take_exception_inv: "guest_inv s \<Longrightarrow> take_exception e s = Inr s' \<Longrightarrow> guest_inv s'"
  using left_inv by (elim take_exceptionE) blast+

lemma psr_mode_bits: "(x :: u32) AND 0x1F = y AND 0x1F \<Longrightarrow> y AND 0xF = 0 \<Longrightarrow> x AND 0xF = 0"
proof -
  assume a: "x AND 0x1F = y AND 0x1F" "y AND 0xF = 0"
  have "z AND 0xF = (z AND 0x1F) AND 0xF" for z :: u32 by (simp add: and.assoc)
  then show ?thesis using a by metis
qed

lemma hyp_step_inv: "guest_inv s \<Longrightarrow> hyp_step s t \<Longrightarrow> guest_inv t"
proof (erule hyp_stepE)
  fix c m assume "guest_inv s" "t = s\<lparr>cpu := c, ram := m\<rparr>" "psr c AND 0x1F = psr (cpu s) AND 0x1F"
  then show "guest_inv t" using psr_mode_bits
    by (simp add: guest_inv_def vm_inv_def current_inv_def config_inv_def psr_inv_def rpc_inv_def interrupted_inv_def)
next
  fix e assume "guest_inv s" "take_exception e s = Inr t"
  then show "guest_inv t" by (rule take_exception_inv)
qed

section \<open>Boot\<close>

lemma mode_index_cases: "(m :: u32) < 4 \<Longrightarrow> P 0 \<Longrightarrow> P 1 \<Longrightarrow> P 2 \<Longrightarrow> P 3 \<Longrightarrow> P m"
  by (auto elim: word_less4_cases)

definition mode_reset :: "u32 \<Rightarrow> hyp \<Rightarrow> hyp" where
  "mode_reset i s =
     upd_mode i (\<lambda>ms. ms\<lparr>mode_config := Some (guest_modes (config (curr_vm s)) ! unat i),
          rpc_for := MODE_NONE, rpc_to := MODE_NONE\<rparr>) s"

lemma mode_reset_simps [simp]:
  "config (curr_vm (mode_reset i s)) = config (curr_vm s)"
  "mode_ctx m (mode_reset i s) = mode_ctx m s"
  "mode_config (mode_state m (mode_reset i s)) =
     (if m = i then Some (guest_modes (config (curr_vm s)) ! unat i) else mode_config (mode_state m s))"
  "rpc_for (mode_state m (mode_reset i s)) = (if m = i then MODE_NONE else rpc_for (mode_state m s))"
  "rpc_to (mode_state m (mode_reset i s)) = (if m = i then MODE_NONE else rpc_to (mode_state m s))"
  "context_stack (mode_reset i s) = context_stack s"
  "context_stack_curr (mode_reset i s) = context_stack_curr s"
  "cpu (mode_reset i s) = cpu s"
  by (simp_all add: mode_reset_def)

lemma init_modes_all: "init_modes 4 0 s = mode_reset 3 (mode_reset 2 (mode_reset 1 (mode_reset 0 s)))"
proof -
  have r: "init_modes (Suc n) i u = init_modes n (i + 1) (mode_reset i u)" for n i u
    by (simp add: mode_reset_def)
  have "(4 :: nat) = Suc (Suc (Suc (Suc 0)))" by simp
  then show ?thesis by (simp only: r init_modes.simps(1)) simp
qed

lemma machine_update_vm:
  fixes s t :: hyp
  assumes "machine.more s = machine.more t"
  shows "mode_ctx m s = mode_ctx m t" "config (curr_vm s) = config (curr_vm t)"
    "context_stack s = context_stack t" "context_stack_curr s = context_stack_curr t"
  using hyp_more [OF assms] by (simp_all add: mode_ctx_def mode_state_def)

lemma guests_init_state:
  assumes "loaded s"
  obtains t where "guests_init s = Inr t" "config_inv t" "psr_inv t" "rpc_inv t" "interrupted_inv t" "fresh_modes t"
    "context_stack_curr t = 0" "context_stack t 1 = Mode_context HC_GM_KERNEL"
proof -
  let ?s1 = "upd_vm (\<lambda>vm. vm\<lparr>vm_id := 0, config := linux_config\<rparr>) s"
  let ?s2 = "linux_init ?s1"
  let ?s3 = "snd (pt_create_section (flpt_va ?s2) 0xF0100000 (0x00100000 + HAL_PHYS_START) MLT_TRUSTED_RAM ?s2)"
  have m: "machine.more ?s3 = machine.more ?s1" by simp
  have c: "config (curr_vm ?s3) = linux_config" and p: "psr (mode_ctx m ?s3) = 0" for m
    using assms machine_update_vm [OF m] by (simp_all add: loaded_def)
  have k: "context_stack_curr ?s3 = 0"
    using assms machine_update_vm [OF m] by (simp add: loaded_def)
  define s3 where "s3 = ?s3"
  define s4 where "s4 = upd_ctx HC_GM_TRUSTED (\<lambda>c. c\<lparr>psr := ARM_INTERRUPT_MASK OR ARM_MODE_USER\<rparr>)
    (upd_ctx HC_GM_TRUSTED (\<lambda>c. c\<lparr>sp := rh_sp rpc_handler_trusted\<rparr>) s3)"
  define s5 where "s5 = init_modes 4 0 s4"
  define t where "t = cpu_context_initial_set (Mode_context HC_GM_KERNEL)
    (upd_ctx HC_GM_INTERRUPT (\<lambda>c. c\<lparr>psr := ARM_MODE_USER\<rparr>)
      (upd_vm (\<lambda>vm. vm\<lparr>current_guest_mode := MODE_NONE, interrupted_mode := MODE_NONE,
                       current_mode_state := None\<rparr>) s5))"
  have g: "guests_init s = Inr t"
    using c unfolding guests_init_def Let_def t_def s5_def s4_def s3_def
    by (simp add: linux_config_def)
  have i: "mode_state m (cpu_context_initial_set q u) = mode_state m u"
    "mode_ctx m (cpu_context_initial_set q u) = mode_ctx m u"
    "curr_vm (cpu_context_initial_set q u) = curr_vm u"
    "context_stack_curr (cpu_context_initial_set q u) = context_stack_curr u"
    "context_stack (cpu_context_initial_set q u) 1 = q" for m q u
    by (simp_all add: cpu_context_initial_set_def mode_state_def mode_ctx_def)
  have "config_inv t"
    using c by (auto simp: config_inv_def t_def i s5_def init_modes_all s4_def s3_def elim!: word_less4_cases)
  moreover have "psr_inv t"
    using p by (auto simp: psr_inv_def t_def i s5_def init_modes_all s4_def s3_def)
  moreover have "rpc_inv t"
    by (auto simp: rpc_inv_def t_def i s5_def init_modes_all elim!: word_less4_cases)
  moreover have "interrupted_inv t" by (simp add: interrupted_inv_def t_def i)
  moreover have "fresh_modes t"
    by (auto simp: fresh_modes_def t_def i s5_def init_modes_all s4_def rpc_handler_trusted_def
        elim!: word_less4_cases)
  moreover have "context_stack_curr t = 0" using k by (simp add: t_def i s5_def init_modes_all s4_def s3_def)
  moreover have "context_stack t 1 = Mode_context HC_GM_KERNEL" by (simp add: t_def i)
  ultimately show thesis by (rule that [OF g])
qed

lemma booted_exists:
  assumes "loaded s0"
  shows "\<exists>s. booted ivt s0 s \<and> guest_inv s \<and> guest_mode s = HC_GM_KERNEL
    \<and> pc (cpu s) = 0x81010000 \<and> psr (cpu s) = 0xD0 \<and> fresh_modes s"
proof -
  let ?s = "memory_init ivt (cpu_init s0)"
  have "machine.more ?s = machine.more s0" by (simp add: boot_more)
  from hyp_more [OF this] machine_update_vm [OF this] have "loaded ?s"
    using assms by (simp add: loaded_def)
  then obtain t where t: "guests_init ?s = Inr t" "config_inv t" "psr_inv t" "rpc_inv t" "interrupted_inv t" "fresh_modes t"
    "context_stack_curr t = 0" "context_stack t 1 = Mode_context HC_GM_KERNEL"
    by (rule guests_init_state)
  let ?u = "switched HC_GM_KERNEL (mode_domain HC_GM_KERNEL) t"
  have b: "start_main ivt s0 = Inr (start ?u)"
    using t(1,2) by (simp add: start_main_def Let_def start_guest_def change_guest_mode_eq panic_if_def)
  have c: "config (curr_vm ?u) = linux_config" using t(2) by (simp add: config_inv_def)
  have "vm_inv (?u\<lparr>context_stack_curr := 1\<rparr>)"
    using t by (auto simp: vm_inv_def current_inv_def config_inv_def psr_inv_def rpc_inv_def interrupted_inv_def)
  moreover have "start u\<lparr>context_stack_curr := 1\<rparr> = (u\<lparr>context_stack_curr := 1\<rparr>)\<lparr>cpu := cpu (start u)\<rparr>" for u
    by (simp add: start_def Let_def)
  ultimately have "guest_inv (start ?u)"
    using t(7) by (simp add: guest_inv_def) (simp add: start_def Let_def)
  moreover have "fresh_modes (start ?u)"
    using t(6) by (simp add: fresh_modes_def start_def Let_def)
  ultimately show ?thesis
    using b assms c by (intro exI [of _ "start ?u"]) (simp add: booted_def start_def Let_def linux_config_def)
qed

lemma booted_inv: "booted ivt s0 s \<Longrightarrow> guest_inv s"
  using booted_exists [of s0 ivt] by (auto simp: booted_def)

interpretation hyp: invariant_system "\<lambda>s. \<exists>ivt s0. booted ivt s0 s" hyp_step guest_inv
  by unfold_locales (auto intro: booted_inv hyp_step_inv)

end
