(* ===== verification/Hyp_Trusted.thy ===== *)
theory Hyp_Trusted
  imports Hyp_System
begin

text \<open>
  Isolation of the trusted mode: which of the other modes' exceptions can enter it, with which
  registers, and that no exception of another mode changes a register of it otherwise; and what
  every reachable state guarantees about domains and processor mode.
\<close>

section \<open>Handlers seen from outside the trusted mode\<close>

text \<open>\<open>rpc_loaded\<close>: the registers a remote call writes into the trusted context.\<close>

definition rpc_loaded :: "u32 \<Rightarrow> u32 \<Rightarrow> cpu_context \<Rightarrow> cpu_context" where
  "rpc_loaded rpc_op arg c =
     c\<lparr>reg := (reg c)(0 := rpc_op, 1 := arg), pc := TRUSTED_RPC, psr := 0xD0\<rparr>"

definition trusted_kept :: "hyp \<Rightarrow> hyp \<Rightarrow> bool" where
  "trusted_kept s s' \<longleftrightarrow> mode_ctx HC_GM_TRUSTED s' = mode_ctx HC_GM_TRUSTED s
     \<and> guest_mode s' \<noteq> HC_GM_TRUSTED"

definition trusted_called :: "hyp \<Rightarrow> hyp \<Rightarrow> bool" where
  "trusted_called s s' \<longleftrightarrow> guest_mode s' = HC_GM_TRUSTED \<and>
     (\<exists>rpc_op arg. rpc_op \<le> 4 \<and> mode_ctx HC_GM_TRUSTED s' = rpc_loaded rpc_op arg (mode_ctx HC_GM_TRUSTED s))"

definition trusted_resumed :: "hyp \<Rightarrow> hyp \<Rightarrow> bool" where
  "trusted_resumed s s' \<longleftrightarrow> guest_mode s' = HC_GM_TRUSTED \<and> guest_mode s = HC_GM_INTERRUPT
     \<and> interrupted_mode (curr_vm s) = HC_GM_TRUSTED
     \<and> mode_ctx HC_GM_TRUSTED s' = mode_ctx HC_GM_TRUSTED s"

definition trusted_safe :: "(hyp \<Rightarrow> hyp res) \<Rightarrow> bool" where
  "trusted_safe f \<longleftrightarrow> (\<forall>s s'. vm_inv s \<and> guest_mode s \<noteq> HC_GM_TRUSTED \<and> f s = Inr s' \<longrightarrow>
     trusted_kept s s' \<or> trusted_called s s' \<or> trusted_resumed s s')"

lemma trusted_safeI:
  "(\<And>s s'. vm_inv s \<Longrightarrow> guest_mode s \<noteq> HC_GM_TRUSTED \<Longrightarrow> f s = Inr s' \<Longrightarrow>
     trusted_kept s s' \<or> trusted_called s s' \<or> trusted_resumed s s') \<Longrightarrow> trusted_safe f"
  by (simp add: trusted_safe_def)

lemma trusted_safeD:
  "trusted_safe f \<Longrightarrow> vm_inv s \<Longrightarrow> guest_mode s \<noteq> HC_GM_TRUSTED \<Longrightarrow> f s = Inr s' \<Longrightarrow>
     trusted_kept s s' \<or> trusted_called s s' \<or> trusted_resumed s s'"
  by (simp add: trusted_safe_def)

lemma trusted_safe_if:
  assumes "trusted_safe f" "trusted_safe g"
  shows "trusted_safe (\<lambda>s. if b s then f s else g s)"
proof (rule trusted_safeI)
  fix s s' assume a: "vm_inv s" "guest_mode s \<noteq> HC_GM_TRUSTED" and e: "(if b s then f s else g s) = Inr s'"
  show "trusted_kept s s' \<or> trusted_called s s' \<or> trusted_resumed s s'"
  proof (cases "b s")
    case True
    with e show ?thesis by (intro trusted_safeD [OF assms(1) a]) simp
  next
    case False
    with e show ?thesis by (intro trusted_safeD [OF assms(2) a]) simp
  qed
qed

lemma same_vm_trusted_safe:
  assumes "\<And>s s'. f s = Inr s' \<Longrightarrow> same_vm s s'"
  shows "trusted_safe f"
proof (rule trusted_safeI)
  fix s s' assume "vm_inv s" "guest_mode s \<noteq> HC_GM_TRUSTED" "f s = Inr s'"
  then show "trusted_kept s s' \<or> trusted_called s s' \<or> trusted_resumed s s'"
    using same_vmD(1,7) [OF assms] by (auto simp: trusted_kept_def)
qed

lemma machine_calls_trusted_safe:
  "trusted_safe (hypercall_cache_op a b c)" "trusted_safe (hypercall_set_tls a)"
  "trusted_safe (hypercall_switch_mm a b)" "trusted_safe (hypercall_new_pgd a)"
  "trusted_safe (hypercall_free_pgd a)" "trusted_safe (hypercall_create_section a b c)"
  "trusted_safe (hypercall_set_pmd a b)" "trusted_safe (hypercall_set_pte a b c)"
  "trusted_safe (\<lambda>s. Inr (isb (COP_WRITE COP_CONTEXT_ID_REGISTER a s)))"
  by (rule same_vm_trusted_safe; (erule mmu_calls_same_vm hypercall_cache_op_same_vm
        | auto simp: hypercall_set_tls_def))+

lemma rpc_started_called: "rpc_op \<le> 4 \<Longrightarrow> trusted_called s (rpc_started rpc_op arg s)"
  unfolding trusted_called_def
  by (intro conjI exI [of _ rpc_op] exI [of _ arg]) (simp_all add: rpc_started_def rpc_loaded_def)

lemma mode_calls_trusted_safe:
  "trusted_safe (hypercall_rpc rpc_op arg)" "trusted_safe hypercall_end_rpc"
  "trusted_safe (hypercall_interrupt_set i op)" "trusted_safe hypercall_end_interrupt"
  "trusted_safe (hypercall_num_error n)"
proof -
  show "trusted_safe (hypercall_rpc rpc_op arg)"
    by (rule trusted_safeI)
      (auto simp: hypercall_rpc_eq rpc_started_called split: if_splits)
  show "trusted_safe hypercall_end_rpc"
    by (rule trusted_safeI) (simp add: hypercall_end_rpc_eq)
  show "trusted_safe (hypercall_interrupt_set i op)"
    by (rule trusted_safeI)
      (auto simp: hypercall_interrupt_set_def with_cur_eq Let_def trusted_kept_def split: if_splits)
  show "trusted_safe hypercall_end_interrupt"
    by (rule trusted_safeI)
      (auto simp: hypercall_end_interrupt_eq trusted_kept_def trusted_resumed_def split: if_splits)
  show "trusted_safe (hypercall_num_error n)"
    by (rule trusted_safeI) (simp add: hypercall_num_error_def with_cur_eq Let_def)
qed

lemma restore_calls_trusted_safe:
  "trusted_safe (hypercall_restore_regs regs)" "trusted_safe (hypercall_restore_linux_regs rv syscall)"
proof -
  show "trusted_safe (hypercall_restore_regs regs)"
    by (rule trusted_safeI)
      (auto simp: hypercall_restore_regs_def Let_def with_cur_eq panic_if_def trusted_kept_def split: if_splits)
  have c: "config_inv (upd_ctx m f t) \<longleftrightarrow> config_inv t" "config_inv (ctx_load n i m a t) \<longleftrightarrow> config_inv t"
    for m f t n i a by (simp_all add: config_inv_def)
  show "trusted_safe (hypercall_restore_linux_regs rv syscall)"
    by (rule trusted_safeI)
      (auto simp: hypercall_restore_linux_regs_def Let_def panic_if_def trusted_kept_def
        change_guest_mode_eq c vm_invD(1) split: if_splits)
qed

lemma guest_init_trusted_safe: "trusted_safe (hypercall_guest_init info)"
proof (rule trusted_safeI)
  fix s s' assume a: "guest_mode s \<noteq> HC_GM_TRUSTED" and e: "hypercall_guest_init info s = Inr s'"
  let ?b = "s\<lparr>boot := boot s + 1\<rparr>"
  let ?w = "wr (info + 28) (COP_READ COP_SYSTEM_CONTROL ?b)
    (wr (info + 24) (COP_READ COP_ID_MEMORY_MODEL_FEAT ?b) (wr (info + 20) (COP_READ COP_ID_CPU ?b) ?b))"
  obtain g v where "clear_linux_mappings (upd_vm (\<lambda>vm. vm\<lparr>exception_vector := v\<rparr>)
      (upd_vm (\<lambda>vm. vm\<lparr>guest_info_of := g\<rparr>) ?w)) = Inr s'"
    using e by (auto simp: hypercall_guest_init_def Let_def)
  then obtain as where s': "s' = fold clear_pair as (upd_vm (\<lambda>vm. vm\<lparr>exception_vector := v\<rparr>)
      (upd_vm (\<lambda>vm. vm\<lparr>guest_info_of := g\<rparr>) ?w))"
    using clear_linux_mappings_InrD by blast
  have "mode_ctx m (t\<lparr>boot := k\<rparr>) = mode_ctx m t" for m t k by (simp add: mode_ctx_def mode_state_def)
  then have "trusted_kept s s'"
    using a unfolding s' trusted_kept_def
    by (simp add: same_vmD(1,7) [OF same_vm_fold_clear])
  then show "trusted_kept s s' \<or> trusted_called s s' \<or> trusted_resumed s s'" ..
qed

text \<open>Entering the kernel mode for a system call or an abort, and the interrupt mode.\<close>

lemma syscall_entry_trusted: "vm_inv s \<Longrightarrow> syscall_entry s = Inr s' \<Longrightarrow> trusted_kept s s'"
  by (auto simp: syscall_entry_eq Let_def trusted_kept_def)

lemma abort_trusted: "vm_inv s \<Longrightarrow> abort_handler data vec addr status s = Inr s' \<Longrightarrow> trusted_kept s s'"
  by (auto simp: abort_handler_eq Let_def trusted_kept_def)

lemma irq_trusted:
  assumes i: "vm_inv s" and g: "guest_mode s \<noteq> HC_GM_TRUSTED" and e: "irq_handler n r1 r2 s = Inr s'"
  shows "trusted_kept s s'"
proof (cases "guest_mode s = HC_GM_INTERRUPT")
  case True
  then show ?thesis using assms by (auto simp: irq_handler_def with_cur_eq trusted_kept_def)
next
  case False
  let ?t = "upd_vm (\<lambda>vm. vm\<lparr>interrupted_mode := current_guest_mode vm\<rparr>) s"
  have "config_inv ?t" using vm_invD(1) [OF i] by (simp add: config_inv_def)
  then show ?thesis using False e
    by (auto simp: irq_handler_def change_guest_mode_eq panic_if_def with_cur_def Let_def trusted_kept_def)
qed

lemma swi_trusted_safe: "trusted_safe (swi_handler p0 p1 p2 n)"
proof -
  have "trusted_safe syscall_entry" by (rule trusted_safeI) (simp add: syscall_entry_trusted)
  moreover have "trusted_safe (hypercall_dispatch p0 p1 p2 n)"
    unfolding hypercall_dispatch_def [abs_def]
    by (intro trusted_safe_if mode_calls_trusted_safe machine_calls_trusted_safe
        restore_calls_trusted_safe guest_init_trusted_safe)
  ultimately show ?thesis
    unfolding swi_handler_def [abs_def] by (intro trusted_safe_if mode_calls_trusted_safe)
qed

lemma exception_handler_trusted:
  assumes "vm_inv s" "guest_mode s \<noteq> HC_GM_TRUSTED" "exception_handler e c instr s = Inr s'"
  shows "trusted_kept s s' \<or> (e = Exc_swi \<and> (trusted_called s s' \<or> trusted_resumed s s'))"
proof (cases e)
  case Exc_swi
  then show ?thesis using trusted_safeD [OF swi_trusted_safe assms(1,2)] assms(3)
    by (auto simp: exception_handler_def)
next
  case (Exc_irq n routed)
  then show ?thesis using assms irq_trusted
    by (cases routed) (auto simp: exception_handler_def trusted_kept_def)
qed (use assms(1,3) abort_trusted in
    \<open>auto simp: exception_handler_def prefetch_abort_handler_def data_abort_handler_def undef_handler_def\<close>)

lemma entered_outside [simp]:
  "guest_mode (entered ret s) = guest_mode s"
  "interrupted_mode (curr_vm (entered ret s)) = interrupted_mode (curr_vm s)"
  "guest_mode s \<noteq> m \<Longrightarrow> mode_ctx m (entered ret s) = mode_ctx m s"
  by (simp_all add: entered_def)

lemma left_outside [simp]:
  "guest_mode (s\<lparr>context_stack_curr := k, cpu := c\<rparr>) = guest_mode s"
  "mode_ctx m (s\<lparr>context_stack_curr := k, cpu := c\<rparr>) = mode_ctx m s"
  by (simp_all add: mode_ctx_def mode_state_def)

text \<open>One exception taken outside the trusted mode.\<close>

lemma take_exception_trusted:
  assumes "guest_inv s" "guest_mode s \<noteq> HC_GM_TRUSTED" "take_exception e s = Inr s'"
  shows "(trusted_kept s s' \<or> (e = Exc_swi \<and> (trusted_called s s' \<or> trusted_resumed s s')))
    \<and> cpu s' = mode_ctx (guest_mode s') s'"
proof -
  obtain s2 where h: "exception_handler e (cpu s) (rd (pc (cpu s)) s) (entered (exception_return e s) s) = Inr s2"
    and s': "s' = s2\<lparr>context_stack_curr := 0, cpu := mode_ctx (guest_mode s2) s2\<rparr>"
    by (rule take_exceptionE [OF assms(1,3)])
  from exception_handler_trusted [OF entered_inv [OF assms(1)] _ h] show ?thesis
    using assms(2) by (auto simp: s' trusted_kept_def trusted_called_def trusted_resumed_def)
qed

section \<open>Runs\<close>

text \<open>A step that starts outside the trusted mode, by guest code or an exception.\<close>

definition outside_step :: "hyp \<Rightarrow> hyp \<Rightarrow> bool" where
  "outside_step s t \<longleftrightarrow> guest_mode s \<noteq> HC_GM_TRUSTED \<and> hyp_step s t \<and> guest_mode t \<noteq> HC_GM_TRUSTED"

lemma outside_step_kept: "guest_inv s \<Longrightarrow> outside_step s t \<Longrightarrow> mode_ctx HC_GM_TRUSTED t = mode_ctx HC_GM_TRUSTED s"
  unfolding outside_step_def
  by (elim conjE hyp_stepE)
    (auto dest!: take_exception_trusted simp: trusted_kept_def trusted_called_def trusted_resumed_def)

interpretation outside: invariant_system "\<lambda>s. \<exists>ivt s0. booted ivt s0 s" outside_step guest_inv
  by unfold_locales (auto intro: booted_inv hyp_step_inv simp: outside_step_def)

text \<open>The two bits of the domain register for a domain: zero means every access faults.\<close>

definition domain_access :: "u32 \<Rightarrow> u32 \<Rightarrow> u32" where
  "domain_access dacr d = drop_bit (2 * unat d) dacr AND 3"

lemma mode_domain_trusted:
  "m < 4 \<Longrightarrow> domain_access (mode_domain m) HC_DOM_TRUSTED = (if m = HC_GM_TRUSTED then 1 else 0)"
  by (auto elim!: word_less4_cases simp: mode_domain_def linux_config_def domain_access_def
      HC_DOMAC_TRUSTED_def HC_DOMAC_KERNEL_def HC_DOMAC_TASK_def HC_DOMAC_INTERRUPT_def dom_client_def)

lemma mode_domain_kernel:
  "m < 4 \<Longrightarrow> domain_access (mode_domain m) HC_DOM_KERNEL = (if m = HC_GM_KERNEL \<or> m = HC_GM_INTERRUPT then 1 else 0)"
  by (auto elim!: word_less4_cases simp: mode_domain_def linux_config_def domain_access_def
      HC_DOMAC_TRUSTED_def HC_DOMAC_KERNEL_def HC_DOMAC_TASK_def HC_DOMAC_INTERRUPT_def dom_client_def)

lemma guest_invD:
  assumes "guest_inv s"
  shows "guest_mode s < 4" "cop s 0 COP_SYSTEM_DOMAIN = mode_domain (guest_mode s)"
    "psr (cpu s) AND 0xF = 0" "m < 4 \<Longrightarrow> psr (mode_ctx m s) AND 0xF = 0"
  using assms by (auto simp: guest_inv_def vm_inv_def current_inv_def psr_inv_def)

section \<open>Properties\<close>

text \<open>C9: boot succeeds from the state the image is loaded with, and enters the guest kernel at the
  configured entry point in the kernel mode, with only the kernel's domains, in user mode with
  interrupts masked; no mode is in a remote call or interrupted, every mode has its configured
  domains, and the trusted mode has its stack pointer and masked interrupts.\<close>

theorem boot_enters_kernel:
  assumes "loaded s0"
  shows "\<exists>s. start_main ivt s0 = Inr s \<and> guest_mode s = HC_GM_KERNEL
    \<and> cop s 0 COP_SYSTEM_DOMAIN = HC_DOMAC_KERNEL
    \<and> pc (cpu s) = guest_entry_point linux_config \<and> psr (cpu s) = 0xD0 \<and> fresh_modes s
    \<and> (\<forall>m < 4. mode_config (mode_state m s) = Some (guest_modes linux_config ! unat m))"
proof -
  obtain s where b: "booted ivt s0 s" "guest_inv s" "guest_mode s = HC_GM_KERNEL"
    "pc (cpu s) = 0x81010000" "psr (cpu s) = 0xD0" "fresh_modes s"
    using booted_exists [OF assms] by blast
  have "config_inv s" using b(2) by (auto simp: guest_inv_def vm_inv_def config_inv_def)
  then show ?thesis
    using b guest_invD(2) [OF b(2)] mode_domain_simps(2)
    by (intro exI [of _ s]) (auto simp: booted_def config_inv_def linux_config_def)
qed

definition demo_loaded :: hyp where
  "demo_loaded = (demo_hyp 0)\<lparr>curr_vm := (demo_vm 0)\<lparr>mode_states := (\<lambda>m.
       \<lparr>ctx = \<lparr>reg = (\<lambda>_. 0), sp = 0, lr = 0, pc = 0, psr = 0\<rparr>, mode_config = None, rpc_for = 0, rpc_to = 0\<rparr>)\<rparr>,
     context_stack_curr := 0,
     context_stack := (\<lambda>i. if i = 0 \<or> 8 \<le> i then Null_ctx else Def_context (unat i))\<rparr>"

lemma demo_loaded: "loaded demo_loaded"
  by (simp add: loaded_def demo_loaded_def mode_ctx_def mode_state_def demo_hyp_def)

theorem boot_enters_kernel_witness: "\<exists>s. start_main 0xF0001000 demo_loaded = Inr s \<and> pc (cpu s) = 0x81010000"
  using boot_enters_kernel [of demo_loaded "0xF0001000", OF demo_loaded] by (auto simp: linux_config_def)




definition demo_call :: hyp where
  "demo_call = (demo_hyp HC_GM_TASK)\<lparr>context_stack_curr := 0, ram := store32 (\<lambda>_. 0) 0xC0008004 0xEF0003FC\<rparr>"




text \<open>C6: an interrupt and its end. An interrupt taken in any mode but the interrupt mode makes the
  interrupt mode current at the guest's vector with the number in r0, interrupts masked and the
  kernel's stack; when its handler ends, whatever it did to its own registers in user mode, the
  interrupted mode is current again with its domains, every other mode's state is as before, and no
  interrupt is pending.\<close>

theorem interrupt_roundtrip:
  assumes "vm_inv s" "guest_mode s \<noteq> HC_GM_INTERRUPT" "irq_handler irq r1 r2 s = Inr s1"
    and "\<And>c. psr c AND 0xF = 0 \<Longrightarrow> psr (f c) AND 0xF = 0"
  shows "guest_mode s1 = HC_GM_INTERRUPT
    \<and> (let c = mode_ctx HC_GM_INTERRUPT s1 in
         reg c 0 = irq \<and> pc c = ev V_IRQ s \<and> psr c AND IRQ_MASK = IRQ_MASK
         \<and> sp c = sp (mode_ctx HC_GM_KERNEL s))
    \<and> (\<exists>s2. hypercall_end_interrupt (upd_ctx HC_GM_INTERRUPT f s1) = Inr s2
         \<and> guest_mode s2 = guest_mode s \<and> cop s2 0 COP_SYSTEM_DOMAIN = cop s 0 COP_SYSTEM_DOMAIN
         \<and> (\<forall>m. m \<noteq> HC_GM_INTERRUPT \<longrightarrow> mode_state m s2 = mode_state m s)
         \<and> interrupted_mode (curr_vm s2) = MODE_NONE \<and> vm_inv s2)"
proof -
  let ?t = "upd_vm (\<lambda>vm. vm\<lparr>interrupted_mode := current_guest_mode vm\<rparr>) s"
  have c: "config_inv ?t" using vm_invD(1) [OF assms(1)] by (simp add: config_inv_def)
  define g :: "cpu_context \<Rightarrow> cpu_context" where "g = (\<lambda>c. c\<lparr>reg := (reg c)(0 := irq), pc := ev V_IRQ s, psr := psr c OR IRQ_MASK\<rparr>)"
  have g: "reg (g c) 0 = irq" "pc (g c) = ev V_IRQ s" "psr (g c) AND IRQ_MASK = IRQ_MASK" for c
    by (simp_all add: g_def word_ao_dist)
  have s1: "s1 = upd_ctx HC_GM_INTERRUPT (\<lambda>c. c\<lparr>sp := sp (mode_ctx HC_GM_KERNEL s)\<rparr>)
      (upd_ctx HC_GM_INTERRUPT g (switched HC_GM_INTERRUPT (mode_domain HC_GM_INTERRUPT) ?t))"
    using assms(2,3) c
    by (auto simp: irq_handler_def change_guest_mode_eq panic_if_def with_cur_def Let_def ev_def g_def rd_def
        simp del: upd_ctx_twice)
  have i1: "vm_inv (upd_ctx HC_GM_INTERRUPT f s1)"
    using irq_handler_inv [OF assms(1,3)] assms(4) by (rule upd_ctx_inv)
  have lt: "guest_mode s < 4" by (rule vm_invD [OF assms(1)])
  then have n: "guest_mode s \<noteq> MODE_NONE" by auto
  let ?s2 = "upd_vm (\<lambda>vm. vm\<lparr>interrupted_mode := MODE_NONE\<rparr>)
        (switched (guest_mode s) (mode_domain (guest_mode s)) (upd_ctx HC_GM_INTERRUPT f s1))"
  have e: "hypercall_end_interrupt (upd_ctx HC_GM_INTERRUPT f s1) = Inr ?s2"
  proof -
    have "guest_mode (upd_ctx HC_GM_INTERRUPT f s1) = HC_GM_INTERRUPT"
      "interrupted_mode (curr_vm (upd_ctx HC_GM_INTERRUPT f s1)) = guest_mode s"
      by (simp_all add: s1)
    then show ?thesis using n unfolding hypercall_end_interrupt_eq [OF i1] by simp
  qed
  moreover have "vm_inv ?s2" by (rule keepsD [OF hypercall_end_interrupt_inv i1 e])
  moreover have "mode_state m ?s2 = mode_state m s" if "m \<noteq> HC_GM_INTERRUPT" for m
    using that by (simp add: s1 upd_ctx_def)
  moreover have "cop s 0 COP_SYSTEM_DOMAIN = mode_domain (guest_mode s)"
    using assms(1) by (simp add: vm_inv_def current_inv_def)
  ultimately show ?thesis using g by (auto simp: s1 Let_def)
qed

theorem interrupt_roundtrip_witness:
  "\<exists>s1 s2. irq_handler 37 0 0 (demo_hyp HC_GM_TASK) = Inr s1
    \<and> hypercall_end_interrupt (upd_ctx HC_GM_INTERRUPT (\<lambda>c. c\<lparr>lr := 7\<rparr>) s1) = Inr s2 \<and> guest_mode s2 = HC_GM_TASK"
proof -
  have i: "vm_inv (demo_hyp HC_GM_TASK)" by (rule demo_hyp_inv) simp
  have c: "config_inv (upd_vm (\<lambda>vm. vm\<lparr>interrupted_mode := current_guest_mode vm\<rparr>) (demo_hyp HC_GM_TASK))"
    using vm_invD(1) [OF i] by (simp add: config_inv_def)
  obtain s1 where "irq_handler 37 0 0 (demo_hyp HC_GM_TASK) = Inr s1"
    using c by (auto simp: irq_handler_def change_guest_mode_eq panic_if_def with_cur_def Let_def)
  from this interrupt_roundtrip [OF i _ this, of "\<lambda>c. c\<lparr>lr := 7\<rparr>"] show ?thesis by fastforce
qed

text \<open>The restore hypercall masks only the low four bits of the status word it loads, although
  it means to allow user mode alone: bit 4 of the mode field is the guest's choice, so the mode is
  user (0x10) or the 26-bit mode 0.\<close>

theorem restore_regs_mode_field:
  assumes "vm_inv s" "hypercall_restore_regs regs s = Inr s'"
  shows "psr (mode_ctx (guest_mode s) s') AND 0x1F = rd (regs + 64) s AND 0x10"
proof -
  have a: "(0xFFFFFFF0 AND x) AND 0x1F = x AND (0x10 :: u32)" for x
    by (simp add: and.assoc and.commute and.left_commute)
  show ?thesis
    using assms
    by (auto simp: hypercall_restore_regs_def Let_def with_cur_eq panic_if_def a split: if_splits)
qed

theorem restore_regs_mode_field_witness:
  "\<exists>s'. hypercall_restore_regs 0xC0001000 (demo_hyp HC_GM_KERNEL) = Inr s'
    \<and> psr (mode_ctx HC_GM_KERNEL s') AND 0x1F = 0"
proof -
  have i: "vm_inv (demo_hyp HC_GM_KERNEL)" by (rule demo_hyp_inv) simp
  obtain s' where "hypercall_restore_regs 0xC0001000 (demo_hyp HC_GM_KERNEL) = Inr s'"
    using i by (simp add: hypercall_restore_regs_def Let_def with_cur_eq)
  from this restore_regs_mode_field [OF i this] show ?thesis by (auto simp: rd_def load32_def)
qed

text \<open>C11: neither the abort handlers nor the system call entry check the kernel stack pointer, which
  is a register of the guest. A guest kernel that points it 72 bytes above an entry of the
  hypervisor's first-level table and takes an abort gets its first register written into that
  entry, with the hypervisor's privileges.\<close>

theorem abort_frame_into_page_table:
  assumes "vm_inv s" "guest_mode s = HC_GM_KERNEL" "aligned 2 (hyper_pt_start s)"
    and "sp (mode_ctx HC_GM_KERNEL s) = flpt_va s + 4 * i + 72"
  shows "\<exists>s'. data_abort_handler addr status unused s = Inr s'
    \<and> rd (flpt_va s + 4 * i) s' = reg (mode_ctx HC_GM_KERNEL s) 0"
proof -
  let ?p = "flpt_va s + 4 * i"
  let ?u = "upd_ctx HC_GM_KERNEL (\<lambda>c. c\<lparr>sp := sp c - 72\<rparr>) (switched HC_GM_KERNEL (mode_domain HC_GM_KERNEL) s)"
  let ?w = "abort_frame_word True (guest_mode s) (mode_ctx (guest_mode s) ?u)"
  let ?s1 = "abort_frame ?w ?p ?u"
  have "data_abort_handler addr status unused s = Inr (upd_ctx HC_GM_KERNEL (abort_ctx V_DATA_ABORT addr status ?s1) ?s1)"
    using assms(4) by (simp add: data_abort_handler_def abort_handler_eq [OF assms(1)] Let_def)
  moreover have "aligned 2 ?p" using assms(3) by (simp add: flpt_va_def aligned_index4)
  then have "rd (?p + 4 * of_nat 0) ?s1 = ?w 0" by (rule abort_frame_words) simp
  moreover have "?w 0 = reg (mode_ctx HC_GM_KERNEL s) 0"
    using assms(2) by (simp add: abort_frame_word_def ctx_word_def)
  ultimately show ?thesis by simp
qed

definition demo_sp :: hyp where
  "demo_sp = upd_ctx HC_GM_KERNEL (\<lambda>c. c\<lparr>sp := 0xF0083848, reg := (reg c)(0 := 0x80000C12)\<rparr>) (demo_hyp HC_GM_KERNEL)"

theorem abort_frame_into_page_table_witness:
  "\<exists>s'. data_abort_handler 0 0 0 demo_sp = Inr s' \<and> rd (0xF0080000 + 4 * 0xE00) s' = 0x80000C12"
proof -
  have i: "vm_inv demo_sp"
    unfolding demo_sp_def by (rule upd_other_inv) (simp_all add: demo_hyp_inv)
  have f: "flpt_va demo_sp = 0xF0080000" by (simp add: demo_sp_def flpt_va_def)
  have a: "aligned 2 (hyper_pt_start demo_sp)" by (simp add: demo_sp_def aligned_def)
  have g: "guest_mode demo_sp = HC_GM_KERNEL" by (simp add: demo_sp_def)
  have sp: "sp (mode_ctx HC_GM_KERNEL demo_sp) = flpt_va demo_sp + 4 * 0xE00 + 72"
    by (simp add: f) (simp add: demo_sp_def)
  from abort_frame_into_page_table [OF i g a sp, of 0 0 0] f show ?thesis by (auto simp: demo_sp_def)
qed

end
