(* ===== verification/Uc_Print.thy ===== *)
theory Uc_Print
  imports Uc_String "HOL-Library.Signed_Division"
begin

text \<open>
  The formatted output of \<open>library/uc/src/print.c\<close>. \<open>printf_putchar\<close> is provided by the
  hardware; a function here returns the sequence of characters it hands to it. The variable
  arguments are the stream of words \<open>va_arg\<close> takes them from.
\<close>

section \<open>The code\<close>

partial_function (option) printf_string :: "mem \<Rightarrow> u32 \<Rightarrow> u8 list option" where
  "printf_string m str =
     (if m str \<noteq> 0 then Option.bind (printf_string m (str + 1)) (\<lambda>out. Some (m str # out)) else Some [])"

lemma abs_sdiv_10: "\<bar>(i :: int) sdiv 10\<bar> = \<bar>i\<bar> div 10"
  by (simp add: signed_divide_int_def abs_mult sgn_if)

lemma sdiv_10_less: "(i :: int) sdiv 10 \<noteq> 0 \<Longrightarrow> i \<noteq> 0 \<and> \<bar>i sdiv 10\<bar> < \<bar>i\<bar>"
proof -
  assume "i sdiv 10 \<noteq> 0"
  then have "\<bar>i\<bar> div 10 \<noteq> 0" using abs_sdiv_10 [of i] by auto
  then show ?thesis unfolding abs_sdiv_10 by auto
qed

text \<open>The digit loop of \<open>printf_int\<close>: \<open>buffer[f++] = '0' + (i % 10); i /= 10\<close> on the value of a
  signed 32-bit \<open>i\<close>, with C's division that rounds towards zero. A buffer cell is a \<open>char\<close>.\<close>

function int_digits :: "int \<Rightarrow> u8 list" where
  "int_digits i =
     word_of_int (0x30 + i smod 10) # (let i = i sdiv 10 in if i \<noteq> 0 then int_digits i else [])"
  by pat_completeness auto

termination
  by (relation "measure (\<lambda>i. nat \<bar>i\<bar>)") (simp_all add: sdiv_10_less)

declare int_digits.simps [simp del]

definition printf_int :: "u32 \<Rightarrow> u8 list" where
  "printf_int i =
     (let neg = sint i < 0;
          i = (if neg then - i else i);
          buffer = int_digits (sint i);
          buffer = (if neg then buffer @ [0x2D] else buffer)
      in rev buffer)"

text \<open>\<open>printf_hex\<close>: the loop counter runs from 7 down to 0, and \<open>continue\<close> goes on to the test.\<close>

definition hex_digit :: "u32 \<Rightarrow> u8" where
  "hex_digit h = (if h < 10 then ucast (h + 0x30) else ucast (h + (0x41 - 10)))"

fun hex_loop :: "nat \<Rightarrow> u32 \<Rightarrow> u32 \<Rightarrow> u8 list" where
  "hex_loop 0 n sz = [hex_digit (drop_bit 28 n)]"
| "hex_loop (Suc i) n sz =
     (if sz = 2 \<and> 2 \<le> Suc i then [] else [hex_digit (drop_bit 28 n)])
     @ hex_loop i (push_bit 4 n) sz"

definition printf_hex :: "u32 \<Rightarrow> u32 \<Rightarrow> u8 list" where
  "printf_hex n sz = hex_loop (32 div 4 - 1) n sz"

fun bin_loop :: "nat \<Rightarrow> u32 \<Rightarrow> u8 list" where
  "bin_loop 0 n = []"
| "bin_loop (Suc i) n =
     (if Suc i \<noteq> 32 \<and> Suc i mod 4 = 0 then [0x5F] else [])
     @ (if n AND 0x80000000 \<noteq> 0 then 0x31 else 0x30) # bin_loop i (push_bit 1 n)"

definition printf_bin :: "u32 \<Rightarrow> u8 list" where
  "printf_bin n = bin_loop 32 n"

text \<open>One conversion of \<open>printf\<close>: the character after the percent sign, the arguments from the
  next one on. The result is the output and the number of arguments taken.\<close>

definition printf_conv :: "mem \<Rightarrow> u8 \<Rightarrow> (nat \<Rightarrow> u32) \<Rightarrow> (u8 list \<times> nat) option" where
  "printf_conv m c args =
     (if c = 0x63 then Some ([ucast (args 0)], 1)
      else if c = 0x73 then map_option (\<lambda>out. (out, 1)) (printf_string m (args 0))
      else if c = 0x69 \<or> c = 0x64 then Some (printf_int (args 0), 1)
      else if c = 0x78 then Some (printf_hex (args 0) 8, 1)
      else if c = 0x32 then Some (printf_hex (args 0) 2, 1)
      else if c = 0x62 then Some (printf_bin (args 0), 1)
      else if c = 0x25 then Some ([c], 0)
      else Some ([0x25, c], 0))"

partial_function (option) printf :: "mem \<Rightarrow> u32 \<Rightarrow> (nat \<Rightarrow> u32) \<Rightarrow> u8 list option" where
  "printf m fmt args =
     (let c = m fmt; fmt = fmt + 1 in
      if c = 0 then Some []
      else if c = 0x25 then
        (let c = m fmt; fmt = fmt + 1 in
         if c = 0 then Some [c]
         else Option.bind (printf_conv m c args) (\<lambda>(out, k).
                Option.bind (printf m fmt (\<lambda>i. args (i + k))) (\<lambda>rest. Some (out @ rest))))
      else Option.bind (printf m fmt args) (\<lambda>rest. Some (c # rest)))"

section \<open>Decimal numbers\<close>

text \<open>The reference: the digits of a natural number, most significant first, and reading a
  sequence of digits back.\<close>

definition digit :: "nat \<Rightarrow> u8" where
  "digit k = of_nat (0x30 + k)"

fun dec :: "nat \<Rightarrow> u8 list" where
  "dec n = (if n < 10 then [] else dec (n div 10)) @ [digit (n mod 10)]"

declare dec.simps [simp del]

definition read_dec :: "u8 list \<Rightarrow> nat" where
  "read_dec ds = foldl (\<lambda>v d. 10 * v + (unat d - 0x30)) 0 ds"

definition read_int :: "u8 list \<Rightarrow> int" where
  "read_int cs = (if cs \<noteq> [] \<and> hd cs = 0x2D then - int (read_dec (tl cs)) else int (read_dec cs))"

lemma unat_digit: "k < 10 \<Longrightarrow> unat (digit k) = 0x30 + k"
  unfolding digit_def by (subst unat_of_nat) (simp add: take_bit_eq_mod)

lemma read_dec_snoc: "read_dec (ds @ [d]) = 10 * read_dec ds + (unat d - 0x30)"
  by (simp add: read_dec_def)

lemma read_dec_dec: "read_dec (dec n) = n"
proof (induction n rule: dec.induct)
  case (1 n)
  have u: "unat (digit (n mod 10)) = 0x30 + n mod 10" by (rule unat_digit) simp
  show ?case
  proof (cases "n < 10")
    case True
    with u show ?thesis by (subst dec.simps) (simp add: read_dec_def)
  next
    case False
    with u 1 show ?thesis by (subst dec.simps) (simp add: read_dec_snoc)
  qed
qed

lemma dec_digits: "d \<in> set (dec n) \<Longrightarrow> \<exists>k < 10. d = digit k"
proof (induction n rule: dec.induct)
  case (1 n)
  have "set (dec n) = (if n < 10 then {} else set (dec (n div 10))) \<union> {digit (n mod 10)}"
    by (subst dec.simps) simp
  moreover have "\<exists>k < 10. digit (n mod 10) = digit k" by (intro exI [of _ "n mod 10"]) simp
  ultimately show ?case using 1 by (auto split: if_splits)
qed

lemma dec_not_Nil [simp]: "dec n \<noteq> []"
  by (subst dec.simps) simp

lemma int_digits_dec: "0 \<le> i \<Longrightarrow> rev (int_digits i) = dec (nat i)"
proof (induction i rule: int_digits.induct)
  case (1 i)
  have d: "i sdiv 10 = i div 10" "i smod 10 = i mod 10"
    using 1(2) by (cases "i = 0"; simp add: signed_divide_int_def signed_modulo_int_def sgn_if
        minus_mult_div_eq_mod mult.commute)+
  have z: "i div 10 = 0 \<longleftrightarrow> nat i < 10" using 1(2) by auto
  have w: "word_of_int (0x30 + i mod 10) = digit (nat i mod 10)"
  proof -
    have "0x30 + i mod 10 = int (0x30 + nat i mod 10)" using 1(2) by (simp add: zmod_int)
    then show ?thesis unfolding digit_def by (simp only: of_int_of_nat_eq)
  qed
  have "rev (int_digits (i div 10)) = dec (nat i div 10)" if "i div 10 \<noteq> 0"
    using 1 that d by (simp add: nat_div_distrib)
  then show ?case
    using z w by (subst int_digits.simps, subst dec.simps) (auto simp: d Let_def)
qed

lemma length_dec: "0 < k \<Longrightarrow> n < 10 ^ k \<Longrightarrow> length (dec n) \<le> k"
proof (induction n arbitrary: k rule: dec.induct)
  case (1 n)
  show ?case
  proof (cases "n < 10")
    case True
    then show ?thesis using 1(2) by (subst dec.simps) simp
  next
    case False
    then obtain j where k: "k = Suc j" "0 < j" using 1(2,3) by (cases k; cases "k - 1") auto
    then have "n div 10 < 10 ^ j" using 1(3) by (simp add: less_mult_imp_div_less mult.commute)
    then have "length (dec (n div 10)) \<le> j" using False k 1(1) by simp
    then show ?thesis using False k by (subst dec.simps) simp
  qed
qed

lemma hd_dec_digit: "hd (dec n) \<noteq> 0x2D"
proof -
  obtain k where "k < 10" "hd (dec n) = digit k" using dec_digits [of "hd (dec n)" n] by auto
  then have "unat (hd (dec n)) = 0x30 + k" by (simp add: unat_digit)
  then show ?thesis by auto
qed

lemma sint_minus_u32: "sint (i :: u32) \<noteq> - 2147483648 \<Longrightarrow> sint (- i) = - sint i"
proof -
  assume "sint i \<noteq> - 2147483648"
  moreover have "- 2147483648 \<le> sint i" "sint i < 2147483648"
    using sint_greater_eq [of i] sint_less [of i] by simp_all
  ultimately have "- 2147483648 \<le> - sint i \<and> - sint i < 2147483648" by simp
  then have "signed_take_bit 31 (- sint i) = - sint i"
    by (intro signed_take_bit_int_eq_self) simp_all
  then show ?thesis by (simp add: sint_word_ariths)
qed

lemma sint_bounds_u32: "- 2147483648 \<le> sint (i :: u32)" "sint i < 2147483648"
  using sint_greater_eq [of i] sint_less [of i] by simp_all

lemma printf_int_dec:
  assumes "sint i \<noteq> - 2147483648"
  shows "printf_int i = (if sint i < 0 then [0x2D] else []) @ dec (nat \<bar>sint i\<bar>)"
  using assms int_digits_dec by (simp add: printf_int_def Let_def sint_minus_u32)

section \<open>Hexadecimal and binary numbers\<close>

definition nibble :: "u32 \<Rightarrow> nat \<Rightarrow> u32" where
  "nibble n i = drop_bit (28 - 4 * i) n AND 0xF"

lemma nibble_shift: "k \<le> 7 \<Longrightarrow> drop_bit 28 (push_bit (4 * k) n) = nibble n k"
proof -
  assume "k \<le> 7"
  have m: "(0xF :: u32) = mask 4" by (simp add: mask_eq_exp_minus_1)
  show ?thesis
    unfolding nibble_def m
    by (rule bit_word_eqI) (use \<open>k \<le> 7\<close> in \<open>auto simp: bit_simps\<close>)
qed

lemma hex_loop_map:
  "i + k = 7 \<Longrightarrow> hex_loop i (push_bit (4 * k) n) sz =
     map (\<lambda>j. hex_digit (nibble n j)) (filter (\<lambda>j. \<not> (sz = 2 \<and> j < 6)) [k..<8])"
proof (induction i arbitrary: k)
  case 0
  then have "k = 7" by simp
  moreover have "[7..<8] = [7 :: nat]" by (simp add: upt_rec)
  ultimately show ?case by (simp only: hex_loop.simps) (simp add: nibble_shift [of 7, simplified])
next
  case (Suc i)
  have u: "[k..<8] = k # [Suc k..<8]" using Suc.prems by (simp add: upt_rec)
  have "push_bit 4 (push_bit (4 * k) n) = push_bit (4 * Suc k) n" by (simp add: push_bit_push_bit)
  then show ?case
    using Suc.IH [of "Suc k"] Suc.prems by (simp add: u nibble_shift del: push_bit_push_bit)
qed

lemma printf_hex_digits:
  "printf_hex n sz = map (\<lambda>j. hex_digit (nibble n j)) [if sz = 2 then 6 else 0..<8]"
proof -
  have "filter (\<lambda>j. \<not> (sz = 2 \<and> j < 6)) [0..<8] = [if sz = 2 then 6 else 0..<8]"
    by (simp add: upt_rec)
  then show ?thesis using hex_loop_map [of 7 0 n sz] by (simp add: printf_hex_def)
qed

definition hex_value :: "u8 \<Rightarrow> nat" where
  "hex_value c = (if c < 0x3A then unat c - 0x30 else unat c - 0x37)"

definition read_hex :: "u8 list \<Rightarrow> nat" where
  "read_hex cs = foldl (\<lambda>v c. 16 * v + hex_value c) 0 cs"

lemma unat_ucast_u8: "unat (ucast (x :: u32) :: u8) = unat x mod 256"
  by (simp add: unsigned_ucast_eq take_bit_eq_mod)

lemma hex_value_digit:
  assumes "h < 16"
  shows "hex_value (hex_digit h) = unat h"
proof -
  have u: "unat h < 16" using assms by (simp add: word_less_nat_alt)
  then have a: "unat (h + 0x30) = unat h + 0x30" "unat (h + 55) = unat h + 55"
    by (simp_all add: unat_word_ariths)
  show ?thesis
  proof (cases "h < 10")
    case True
    then have "unat (hex_digit h) = unat h + 0x30" "unat h < 10"
      using a u by (simp_all add: hex_digit_def unat_ucast_u8 word_less_nat_alt)
    then show ?thesis by (simp add: hex_value_def word_less_nat_alt)
  next
    case False
    then have "unat (hex_digit h) = unat h + 55" "10 \<le> unat h"
      using a u by (simp_all add: hex_digit_def unat_ucast_u8 word_less_nat_alt)
    then show ?thesis by (simp add: hex_value_def word_less_nat_alt)
  qed
qed

lemma nibble_less: "nibble n k < 16"
proof -
  have "nibble n k \<le> 0xF" unfolding nibble_def by (rule word_and_le1)
  then show ?thesis by (simp add: word_le_nat_alt word_less_nat_alt)
qed

lemma unat_nibble: "unat (nibble n k) = unat n div 2 ^ (28 - 4 * k) mod 16"
proof -
  have "nibble n k = take_bit 4 (drop_bit (28 - 4 * k) n)"
    by (simp add: nibble_def take_bit_eq_mask mask_eq_exp_minus_1)
  then show ?thesis by (simp add: unat_take_bit_u32 unat_drop_bit_u32)
qed

lemma read_hex_upto: "k \<le> 8 \<Longrightarrow> read_hex (map (\<lambda>j. hex_digit (nibble n j)) [0..<k]) = unat n div 2 ^ (32 - 4 * k)"
proof (induction k)
  case 0
  then show ?case using unat_u32_less [of n] by (simp add: read_hex_def del: unat_u32_less)
next
  case (Suc k)
  define e where "e = 28 - 4 * k"
  have e: "32 - 4 * k = Suc (Suc (Suc (Suc e)))" "32 - 4 * Suc k = e" using Suc.prems by (auto simp: e_def)
  have "unat n div 2 ^ (32 - 4 * k) = unat n div 2 ^ e div 16"
    unfolding e(1) by (simp add: div_mult2_eq [symmetric] mult.commute)
  then show ?case
    using Suc by (simp add: read_hex_def hex_value_digit nibble_less unat_nibble e(2) flip: e_def)
qed

lemma read_hex_printf: "read_hex (printf_hex n 8) = unat n"
  using read_hex_upto [of 8 n] by (simp add: printf_hex_digits)

text \<open>The binary digits, most significant first, once the separators are dropped.\<close>

lemma top_bit_u32: "(n :: u32) AND 0x80000000 \<noteq> 0 \<longleftrightarrow> bit n 31"
proof -
  have "(0x80000000 :: u32) = 2 ^ 31" by simp
  then show ?thesis using and_exp_eq_0_iff_not_bit [of n 31] by simp
qed

lemma bin_loop_bits:
  "i + k = 32 \<Longrightarrow> filter (\<lambda>c. c \<noteq> 0x5F) (bin_loop i (push_bit k n)) =
     map (\<lambda>j. if bit n j then 0x31 else 0x30) (rev [0..<i])"
proof (induction i arbitrary: k)
  case (Suc i)
  have "31 - k = i" "k \<le> 31" using Suc.prems by simp_all
  then have "bit (push_bit k n) 31 \<longleftrightarrow> bit n i" by (simp add: bit_simps)
  moreover have "push_bit 1 (push_bit k n) = push_bit (Suc k) n" by (simp add: push_bit_push_bit)
  ultimately show ?case using Suc.IH [of "Suc k"] Suc.prems
    by (simp add: top_bit_u32 del: push_bit_push_bit push_bit_eq_mult One_nat_def)
qed simp

lemma printf_bin_bits:
  "filter (\<lambda>c. c \<noteq> 0x5F) (printf_bin n) = map (\<lambda>j. if bit n j then 0x31 else 0x30) (rev [0..<32])"
  using bin_loop_bits [of 32 0 n] by (simp add: printf_bin_def)

section \<open>Format strings\<close>

lemma printf_string_cstr: "cstr m p xs \<Longrightarrow> printf_string m p = Some xs"
  by (induction xs arbitrary: p) (simp_all add: printf_string.simps)

text \<open>The reference: formatting the characters of the format string, with no pointers.\<close>

fun format :: "mem \<Rightarrow> u8 list \<Rightarrow> (nat \<Rightarrow> u32) \<Rightarrow> u8 list option" where
  "format m [] args = Some []"
| "format m [c] args = Some [if c = 0x25 then 0 else c]"
| "format m (c # d # cs) args =
     (if c = 0x25
      then Option.bind (printf_conv m d args) (\<lambda>(out, k).
             map_option (\<lambda>rest. out @ rest) (format m cs (\<lambda>i. args (i + k))))
      else map_option (\<lambda>rest. c # rest) (format m (d # cs) args))"

lemma bind_Some_map: "Option.bind x (\<lambda>y. Some (f y)) = map_option f x"
  by (cases x) simp_all

lemma printf_format: "cstr m p cs \<Longrightarrow> printf m p args = format m cs args"
proof (induction m cs args arbitrary: p rule: format.induct)
  case (1 m args)
  then show ?case by (subst printf.simps) simp
next
  case (2 m c args)
  then show ?case by (subst printf.simps, cases "c = 0x25") (simp_all add: printf.simps)
next
  case (3 m c d cs args)
  have n: "m p = c" "c \<noteq> 0" "m (p + 1) = d" "d \<noteq> 0" "cstr m (p + 1) (d # cs)" "cstr m (p + 1 + 1) cs"
    using 3(3) by simp_all
  show ?case
  proof (cases "c = 0x25")
    case True
    have "printf m p args = Option.bind (printf_conv m d args) (\<lambda>(out, k).
        Option.bind (printf m (p + 1 + 1) (\<lambda>i. args (i + k))) (\<lambda>rest. Some (out @ rest)))"
      using n True by (subst printf.simps) (simp add: Let_def)
    also have "\<dots> = format m (c # d # cs) args"
      using True 3(1) [OF True _ _ n(6)]
      by (auto simp: bind_Some_map split_def intro!: Option.bind_cong)
    finally show ?thesis .
  next
    case False
    then show ?thesis
      using n 3(2) [OF False n(5)] by (subst printf.simps) (simp add: Let_def bind_Some_map)
  qed
qed

lemma format_total:
  assumes "\<And>i. \<exists>xs. cstr m (args i) xs"
  shows "\<exists>out. format m cs args = Some out"
  using assms
proof (induction m cs args rule: format.induct)
  case (3 m c d cs args)
  have "printf_conv m d args \<noteq> None"
    using 3(3) [of 0] by (auto simp: printf_conv_def printf_string_cstr)
  then obtain out k where o: "printf_conv m d args = Some (out, k)" by auto
  show ?case
  proof (cases "c = 0x25")
    case True
    then show ?thesis using 3(1) [OF True o refl] 3(3) o by auto
  next
    case False
    then show ?thesis using 3(2) [OF False] 3(3) by auto
  qed
qed simp_all

section \<open>Properties\<close>

text \<open>\<open>printf_int\<close> prints the decimal form of its argument - a minus sign for a negative one
  and then the digits of the absolute value without leading zeros -, which reads back as the
  argument and fits the 12-byte buffer; the one exception is the least integer.\<close>

theorem printf_int_decimal:
  assumes "i \<noteq> 0x80000000"
  shows "printf_int i = (if sint i < 0 then [0x2D] else []) @ dec (nat \<bar>sint i\<bar>)
    \<and> read_int (printf_int i) = sint i \<and> length (printf_int i) \<le> 11"
proof -
  have n: "sint i \<noteq> - 2147483648"
  proof
    assume "sint i = - 2147483648"
    then have "sint i = sint (0x80000000 :: u32)" by simp
    then have "i = 0x80000000" by (rule signed_word_eqI)
    then show False using assms by simp
  qed
  have "nat \<bar>sint i\<bar> < 10 ^ 10" using sint_bounds_u32 [of i] by simp
  then have "length (dec (nat \<bar>sint i\<bar>)) \<le> 10" by (intro length_dec) simp_all
  moreover have "hd (dec (nat \<bar>sint i\<bar>)) \<noteq> 0x2D" by (rule hd_dec_digit)
  ultimately show ?thesis
    by (cases "sint i < 0") (simp_all add: printf_int_dec [OF n] read_int_def read_dec_dec)
qed

theorem printf_int_decimal_witness:
  "read_int (printf_int (- 1234)) = - 1234 \<and> length (printf_int (- 1234)) \<le> 11"
  using printf_int_decimal [of "- 1234", THEN conjunct2] by simp

text \<open>\<open>printf_hex\<close> prints exactly the eight hexadecimal digits of its argument, or the two of
  its low byte, most significant first; the eight digits read back as the argument.\<close>

theorem printf_hex_roundtrip:
  "printf_hex n sz = map (\<lambda>j. hex_digit (drop_bit (28 - 4 * j) n AND 0xF)) [if sz = 2 then 6 else 0..<8]
   \<and> read_hex (printf_hex n 8) = unat n"
  using printf_hex_digits [of n sz] read_hex_printf by (simp add: nibble_def)


definition demo_format :: mem where
  "demo_format = (\<lambda>_. 0)(0x1000 := 0x78, 0x1001 := 0x3D, 0x1002 := 0x25, 0x1003 := 0x64)"


text \<open>The least integer is its own negation, and its remainders are negative: what is printed is
  not a number.\<close>

lemma printf_int_min:
  "printf_int 0x80000000 = [0x2D, 0x2E, 0x2F, 0x2C, 0x29, 0x2C, 0x28, 0x2D, 0x2A, 0x2C, 0x28]"
  by (simp add: printf_int_def Let_def int_digits.simps signed_divide_int_def signed_modulo_int_def)

end
