(* ===== verification/Lib_Specs.thy ===== *)
theory Lib_Specs
  imports Sth_Prelude
begin

text \<open>
  The contracts that library components share, as locales. A stack: what was pushed last and not
  yet popped is popped next; the linked list, the object list and the object pool each provide it.
\<close>

locale stack =
  fixes holds :: "'s \<Rightarrow> 'a list \<Rightarrow> bool"
    and ok :: "'s \<Rightarrow> 'a \<Rightarrow> 'a list \<Rightarrow> bool"
    and push :: "'a \<Rightarrow> 's \<Rightarrow> 's option"
    and pop :: "'s \<Rightarrow> ('a option \<times> 's) option"
  assumes push_holds: "holds s xs \<Longrightarrow> ok s x xs \<Longrightarrow> \<exists>s'. push x s = Some s' \<and> holds s' (x # xs)"
    and pop_holds: "holds s (x # xs) \<Longrightarrow> \<exists>s'. pop s = Some (Some x, s') \<and> holds s' xs"
    and pop_empty: "holds s [] \<Longrightarrow> pop s = Some (None, s)"
begin

fun pops :: "nat \<Rightarrow> 's \<Rightarrow> ('a option list \<times> 's) option" where
  "pops 0 s = Some ([], s)"
| "pops (Suc n) s = Option.bind (pop s) (\<lambda>(x, s). map_option (\<lambda>(xs, s). (x # xs, s)) (pops n s))"

lemma push_pop:
  assumes "holds s xs" "ok s x xs"
  obtains s1 s2 where "push x s = Some s1" "pop s1 = Some (Some x, s2)" "holds s2 xs"
  using push_holds [OF assms] pop_holds by blast

text \<open>Popping as often as there are elements returns them all, in order.\<close>

lemma pops_all: "holds s xs \<Longrightarrow> \<exists>s'. pops (length xs) s = Some (map Some xs, s') \<and> holds s' []"
proof (induction xs arbitrary: s)
  case (Cons x xs)
  obtain s1 where s1: "pop s = Some (Some x, s1)" "holds s1 xs" using pop_holds [OF Cons.prems] by blast
  then obtain s' where "pops (length xs) s1 = Some (map Some xs, s')" "holds s' []" using Cons.IH by blast
  with s1 show ?case by simp
qed simp

lemma pops_some: "holds s (xs @ ys) \<Longrightarrow> \<exists>s'. pops (length xs) s = Some (map Some xs, s') \<and> holds s' ys"
proof (induction xs arbitrary: s)
  case (Cons x xs)
  then obtain s1 where s1: "pop s = Some (Some x, s1)" "holds s1 (xs @ ys)" using pop_holds [of s x "xs @ ys"] by auto
  then obtain s' where "pops (length xs) s1 = Some (map Some xs, s')" "holds s' ys" using Cons.IH by blast
  with s1 show ?case by simp
qed simp

end

text \<open>An allocator hands out blocks, known to the client by a pointer and having some extent.\<close>

locale allocator =
  fixes holds :: "'s \<Rightarrow> ('p \<times> 'z) set \<Rightarrow> bool"
    and wanted :: "'q \<Rightarrow> bool"
    and enough :: "'q \<Rightarrow> 'z \<Rightarrow> bool"
    and apart :: "'p \<times> 'z \<Rightarrow> 'p \<times> 'z \<Rightarrow> bool"
    and alloc :: "'q \<Rightarrow> 's \<Rightarrow> ('p option \<times> 's) option"
    and release :: "'p \<Rightarrow> 's \<Rightarrow> 's option"
  assumes alloc_holds: "holds s R \<Longrightarrow> wanted q \<Longrightarrow> \<exists>r s'. alloc q s = Some (r, s')
      \<and> (case r of None \<Rightarrow> holds s' R | Some p \<Rightarrow> \<exists>z. enough q z \<and> p \<notin> fst ` R \<and> holds s' (insert (p, z) R))"
    and release_holds: "holds s R \<Longrightarrow> (p, z) \<in> R \<Longrightarrow> \<exists>s'. release p s = Some s' \<and> holds s' (R - {(p, z)})"
    and holds_apart: "holds s R \<Longrightarrow> x \<in> R \<Longrightarrow> y \<in> R \<Longrightarrow> x \<noteq> y \<Longrightarrow> apart x y"
begin

lemma alloc_apart:
  assumes "holds s R" "wanted q" "alloc q s = Some (Some p, s')"
  obtains z where "enough q z" "holds s' (insert (p, z) R)" "\<And>x. x \<in> R \<Longrightarrow> apart (p, z) x"
proof -
  obtain z where z: "enough q z" "p \<notin> fst ` R" "holds s' (insert (p, z) R)"
    using alloc_holds [OF assms(1,2)] assms(3) by auto
  have "apart (p, z) x" if x: "x \<in> R" for x
  proof (rule holds_apart [OF z(3)])
    show "(p, z) \<noteq> x" using z(2) x by (metis fst_conv image_eqI)
  qed (use x in auto)
  with z(1,3) that show thesis by blast
qed

text \<open>Giving back what was just allocated undoes the allocation.\<close>

lemma alloc_release:
  assumes "holds s R" "wanted q" "alloc q s = Some (Some p, s')"
  shows "\<exists>s''. release p s' = Some s'' \<and> holds s'' R"
proof -
  obtain z where "p \<notin> fst ` R" "holds s' (insert (p, z) R)"
    using alloc_holds [OF assms(1,2)] assms(3) by auto
  moreover have "insert (p, z) R - {(p, z)} = R" if "p \<notin> fst ` R" using that by force
  ultimately show ?thesis using release_holds [of s' "insert (p, z) R" p z] by auto
qed

text \<open>Requests served one after the other.\<close>

fun allocs :: "'q list \<Rightarrow> 's \<Rightarrow> ('p option list \<times> 's) option" where
  "allocs [] s = Some ([], s)"
| "allocs (q # qs) s = Option.bind (alloc q s) (\<lambda>(r, s). map_option (\<lambda>(rs, s). (r # rs, s)) (allocs qs s))"

lemma allocs_holds:
  assumes "holds s R" "\<forall>q\<in>set qs. wanted q"
  shows "\<exists>rs s' R'. allocs qs s = Some (rs, s') \<and> holds s' R' \<and> R \<subseteq> R' \<and> fst ` R' = fst ` R \<union> {p. Some p \<in> set rs}
    \<and> length rs = length qs"
  using assms
proof (induction qs arbitrary: s R)
  case (Cons q qs)
  obtain r s1 where a: "alloc q s = Some (r, s1)" "case r of None \<Rightarrow> holds s1 R
      | Some p \<Rightarrow> \<exists>z. enough q z \<and> p \<notin> fst ` R \<and> holds s1 (insert (p, z) R)"
    using alloc_holds [OF Cons.prems(1), of q] Cons.prems(2) by auto
  obtain R1 where R1: "holds s1 R1" "R \<subseteq> R1" "fst ` R1 = fst ` R \<union> {p. Some p = r}"
  proof (cases r)
    case (Some p)
    then obtain z where "holds s1 (insert (p, z) R)" using a(2) by auto
    with Some that [of "insert (p, z) R"] show thesis by auto
  qed (use that a(2) in auto)
  obtain rs s' R' where "allocs qs s1 = Some (rs, s')" "holds s' R'" "R1 \<subseteq> R'"
    "fst ` R' = fst ` R1 \<union> {p. Some p \<in> set rs}" "length rs = length qs"
    using Cons.IH [OF R1(1)] Cons.prems(2) by auto
  then show ?case using a(1) R1 by (intro exI [of _ "r # rs"] exI [of _ s'] exI [of _ R']) auto
next
  case Nil
  then show ?case by (intro exI [of _ "[]"] exI [of _ s] exI [of _ R]) auto
qed

end

end
