(* ===== verification/Util_Pool.thy ===== *)
theory Util_Pool
  imports Lib_Specs "HOL-Library.Multiset"
begin

text \<open>
  The object list (\<open>library/util/src/olist.c\<close>), the object pool (\<open>pool.c\<close>) and the slab cache
  (\<open>slab.c\<close>). C \<open>int\<close>s are words read with their sign where the code compares them. \<open>malloc\<close> is an
  argument: for the list it gives the initial words of a block, for the pool its address.
\<close>

definition slt :: "u32 \<Rightarrow> u32 \<Rightarrow> bool" where
  "slt a b \<longleftrightarrow> sint a < sint b"

lemma slt_small: "unat a < 2147483648 \<Longrightarrow> unat b < 2147483648 \<Longrightarrow> slt a b \<longleftrightarrow> unat a < unat b"
  by (simp add: slt_def sint_less_u32)

section \<open>Object lists\<close>

record olist =
  ol_curr :: u32
  ol_size :: u32
  ol_list :: "(nat \<Rightarrow> u32) option"

definition SIZE_INITIAL :: u32 where [simp]: "SIZE_INITIAL = 24"
definition SIZE_NEXT :: "u32 \<Rightarrow> u32" where "SIZE_NEXT x = x * 2 + 8"

definition copy_words :: "nat \<Rightarrow> (nat \<Rightarrow> u32) \<Rightarrow> (nat \<Rightarrow> u32) \<Rightarrow> nat \<Rightarrow> u32" where
  "copy_words n src dst = (\<lambda>i. if i < n then src i else dst i)"

definition olist_grow :: "(u32 \<Rightarrow> (nat \<Rightarrow> u32) option) \<Rightarrow> olist \<Rightarrow> (bool \<times> olist) res" where
  "olist_grow malloc ol =
     (let new_size = SIZE_NEXT (ol_size ol)
      in case malloc (new_size * 4) of
           None \<Rightarrow> Inr (False, ol)
         | Some new_list \<Rightarrow>
             (case ol_list ol of
                None \<Rightarrow> Inl (Null_pointer ''olist'')
              | Some old_list \<Rightarrow>
                  Inr (True, ol\<lparr>ol_list := Some (copy_words (unat (ol_curr ol * 4) div 4) old_list new_list),
                    ol_size := new_size\<rparr>)))"

definition olist_init :: "(u32 \<Rightarrow> (nat \<Rightarrow> u32) option) \<Rightarrow> bool \<times> olist" where
  "olist_init malloc =
     (let l = malloc (SIZE_INITIAL * 4)
      in (l \<noteq> None, \<lparr>ol_curr = 0, ol_size = SIZE_INITIAL, ol_list = l\<rparr>))"

definition olist_cleanup :: "olist \<Rightarrow> olist" where
  "olist_cleanup ol = (if ol_list ol \<noteq> None then ol\<lparr>ol_list := None\<rparr> else ol)"

definition olist_size_get :: "olist \<Rightarrow> u32" where
  "olist_size_get ol = ol_curr ol"

text \<open>Reading and writing a slot of the array, through the pointer.\<close>

definition ol_get :: "olist \<Rightarrow> u32 \<Rightarrow> u32 res" where
  "ol_get ol i = (case ol_list ol of None \<Rightarrow> Inl (Null_pointer ''olist'') | Some l \<Rightarrow> Inr (l (unat i)))"

definition ol_put :: "u32 \<Rightarrow> u32 \<Rightarrow> olist \<Rightarrow> olist res" where
  "ol_put i x ol =
     (case ol_list ol of None \<Rightarrow> Inl (Null_pointer ''olist'')
      | Some l \<Rightarrow> Inr (ol\<lparr>ol_list := Some (l(unat i := x))\<rparr>))"

definition olist_item_get :: "olist \<Rightarrow> u32 \<Rightarrow> u32 res" where
  "olist_item_get ol index =
     (if slt index 0 \<or> \<not> slt index (ol_curr ol) then Inr 0 else ol_get ol index)"

definition olist_item_pop :: "olist \<Rightarrow> (u32 \<times> olist) res" where
  "olist_item_pop ol =
     (if ol_curr ol = 0 then Inr (0, ol)
      else let ol = ol\<lparr>ol_curr := ol_curr ol - 1\<rparr>
           in bindE (ol_get ol (ol_curr ol)) (\<lambda>x. Inr (x, ol)))"

definition olist_item_push :: "(u32 \<Rightarrow> (nat \<Rightarrow> u32) option) \<Rightarrow> u32 \<Rightarrow> olist \<Rightarrow> (bool \<times> olist) res" where
  "olist_item_push malloc item ol =
     (if item = 0 then Inr (False, ol)
      else bindE (if \<not> slt (ol_curr ol) (ol_size ol - 1) then olist_grow malloc ol else Inr (True, ol)) (\<lambda>(ok, ol).
        if \<not> ok then Inr (False, ol)
        else bindE (ol_put (ol_curr ol) item ol) (\<lambda>ol. Inr (True, ol\<lparr>ol_curr := ol_curr ol + 1\<rparr>))))"

definition olist_item_remove :: "u32 \<Rightarrow> olist \<Rightarrow> olist res" where
  "olist_item_remove index ol =
     (if slt index 0 \<or> \<not> slt index (ol_curr ol) then Inr ol
      else let ol = ol\<lparr>ol_curr := ol_curr ol - 1\<rparr>
           in bindE (ol_get ol (ol_curr ol)) (\<lambda>lst.
                if index \<noteq> ol_curr ol then ol_put index lst ol else Inr ol))"

section \<open>Pools\<close>

record pool_ctxt =
  p_count :: u32
  p_current :: u32
  p_size :: u32
  p_list :: u32
  p_items :: "nat \<Rightarrow> u32"

definition POOL_ALIGN :: u32 where [simp]: "POOL_ALIGN = 8"
definition LIST_MIN_ITEM_SIZE :: u32 where [simp]: "LIST_MIN_ITEM_SIZE = 8"

definition pool_free :: "u32 \<Rightarrow> pool_ctxt \<Rightarrow> pool_ctxt" where
  "pool_free x c =
     (if slt (p_current c) (p_count c)
      then c\<lparr>p_items := (p_items c)(unat (p_current c) := x), p_current := p_current c + 1\<rparr> else c)"

fun pool_fill :: "nat \<Rightarrow> u32 \<Rightarrow> u32 \<Rightarrow> pool_ctxt \<Rightarrow> pool_ctxt" where
  "pool_fill 0 tmp sz c = c"
| "pool_fill (Suc n) tmp sz c = pool_fill n (tmp + sz) sz (pool_free tmp c)"

text \<open>The size is compared as unsigned, since \<open>sizeof\<close> is; the count as signed. The pointer
  arithmetic \<open>list + sizeof(void * ) * count\<close> is in units of a pointer.\<close>

definition pool_init :: "(u32 \<Rightarrow> u32) \<Rightarrow> u32 \<Rightarrow> u32 \<Rightarrow> pool_ctxt \<Rightarrow> bool \<times> pool_ctxt" where
  "pool_init malloc item_size item_count c =
     (let item_size = (if item_size < LIST_MIN_ITEM_SIZE then LIST_MIN_ITEM_SIZE else item_size);
          item_count = (if slt item_count 2 then 2 else item_count);
          item_size = (item_size + POOL_ALIGN - 1) AND NOT (POOL_ALIGN - 1);
          c = c\<lparr>p_count := item_count, p_size := item_size, p_current := 0,
            p_list := malloc (item_size * item_count + 4 * item_count)\<rparr>
      in if p_list c = 0 then (False, c)
         else (True, pool_fill (unat item_count) (p_list c + 4 * (4 * item_count)) item_size c))"

definition pool_cleanup :: "pool_ctxt \<Rightarrow> pool_ctxt" where
  "pool_cleanup c = (if p_list c \<noteq> 0 then c\<lparr>p_list := 0\<rparr> else c)"

definition pool_alloc :: "pool_ctxt \<Rightarrow> u32 \<times> pool_ctxt" where
  "pool_alloc c =
     (if slt 0 (p_current c)
      then let c = c\<lparr>p_current := p_current c - 1\<rparr> in (p_items c (unat (p_current c)), c)
      else (0, c))"

definition pool_get_raw :: "pool_ctxt \<Rightarrow> u32 \<Rightarrow> u32" where
  "pool_get_raw c index =
     (if slt index 0 \<or> \<not> slt index (p_count c) then 0
      else p_list c + 4 * (4 * p_count c) + p_size c * index)"

section \<open>Slabs\<close>

text \<open>The constructor and destructor are the client's; what the slab does is to call them, recorded in
  a log of the calls, object and user data (most recent first). A null callback is \<open>False\<close>.\<close>

datatype slab_event = Construct u32 u32 | Destruct u32 u32

record slab_ctxt =
  sl_const_bottom :: u32
  sl_pool :: pool_ctxt
  sl_userdata :: u32
  sl_constructor :: bool
  sl_destructor :: bool
  sl_log :: "slab_event list"

definition slab_init :: "(u32 \<Rightarrow> u32) \<Rightarrow> u32 \<Rightarrow> u32 \<Rightarrow> bool \<Rightarrow> bool \<Rightarrow> u32 \<Rightarrow> slab_ctxt \<Rightarrow> bool \<times> slab_ctxt" where
  "slab_init malloc item_size item_count c d userdata s =
     (let s = s\<lparr>sl_constructor := c, sl_destructor := d, sl_userdata := userdata\<rparr>;
          (ok, p) = pool_init malloc item_size item_count (sl_pool s);
          s = s\<lparr>sl_pool := p\<rparr>
      in if \<not> ok then (False, s) else (True, s\<lparr>sl_const_bottom := p_count (sl_pool s) - 1\<rparr>))"

fun slab_destruct_loop :: "nat \<Rightarrow> slab_ctxt \<Rightarrow> slab_ctxt" where
  "slab_destruct_loop 0 s = s"
| "slab_destruct_loop (Suc n) s =
     (let s = s\<lparr>sl_const_bottom := sl_const_bottom s + 1\<rparr>
      in if slt (sl_const_bottom s) (p_count (sl_pool s))
         then slab_destruct_loop n (s\<lparr>sl_log :=
                Destruct (pool_get_raw (sl_pool s) (sl_const_bottom s)) (sl_userdata s) # sl_log s\<rparr>)
         else s)"

text \<open>The loop of \<open>slab_cleanup\<close> runs once for each index above the bottom, and once to find the end.\<close>

definition slab_cleanup :: "slab_ctxt \<Rightarrow> slab_ctxt" where
  "slab_cleanup s =
     (let s = (if sl_destructor s
               then slab_destruct_loop (nat (sint (p_count (sl_pool s)) - sint (sl_const_bottom s))) s else s)
      in s\<lparr>sl_pool := pool_cleanup (sl_pool s)\<rparr>)"

definition slab_alloc :: "slab_ctxt \<Rightarrow> u32 \<times> slab_ctxt" where
  "slab_alloc s =
     (let (obj, p) = pool_alloc (sl_pool s); s = s\<lparr>sl_pool := p\<rparr>
      in if obj \<noteq> 0 \<and> sl_const_bottom s = p_current (sl_pool s)
         then let s = s\<lparr>sl_const_bottom := sl_const_bottom s - 1\<rparr>
              in (obj, if sl_constructor s then s\<lparr>sl_log := Construct obj (sl_userdata s) # sl_log s\<rparr> else s)
         else (obj, s))"

definition slab_free :: "u32 \<Rightarrow> slab_ctxt \<Rightarrow> slab_ctxt" where
  "slab_free x s = s\<lparr>sl_pool := pool_free x (sl_pool s)\<rparr>"

section \<open>The object list as a stack and as a bag\<close>

definition ol_holds :: "olist \<Rightarrow> u32 list \<Rightarrow> bool" where
  "ol_holds ol xs \<longleftrightarrow>
     (\<exists>l. ol_list ol = Some l \<and> rev xs = map l [0..<length xs]) \<and> unat (ol_curr ol) = length xs
     \<and> length xs < unat (ol_size ol) \<and> unat (ol_size ol) < 268435456 \<and> 0 \<notin> set xs"

definition ol_room :: "(u32 \<Rightarrow> (nat \<Rightarrow> u32) option) \<Rightarrow> olist \<Rightarrow> bool" where
  "ol_room malloc ol \<longleftrightarrow> unat (ol_curr ol) + 1 < unat (ol_size ol)
     \<or> (malloc (SIZE_NEXT (ol_size ol) * 4) \<noteq> None \<and> unat (ol_size ol) < 134217720)"

lemma unat_SIZE_NEXT: "unat s < 134217720 \<Longrightarrow> unat (SIZE_NEXT s) = unat s * 2 + 8"
  by (simp add: SIZE_NEXT_def unat_word_ariths)

lemma olist_grow_holds:
  assumes "ol_holds ol xs" "malloc (SIZE_NEXT (ol_size ol) * 4) = Some m" "unat (ol_size ol) < 134217720"
  shows "\<exists>ol'. olist_grow malloc ol = Inr (True, ol') \<and> ol_holds ol' xs
    \<and> unat (ol_curr ol') + 1 < unat (ol_size ol') \<and> ol_curr ol' = ol_curr ol"
proof -
  obtain l where l: "ol_list ol = Some l" "rev xs = map l [0..<length xs]" "unat (ol_curr ol) = length xs"
    using assms(1) by (auto simp: ol_holds_def)
  have n: "unat (ol_curr ol * 4) div 4 = length xs"
    using l(3) assms(1) by (simp add: ol_holds_def unat_word_ariths)
  show ?thesis
    using assms l n unat_SIZE_NEXT [OF assms(3)]
    by (auto simp: olist_grow_def Let_def ol_holds_def copy_words_def)
qed

lemma olist_push_holds:
  assumes "ol_holds ol xs" "x \<noteq> 0" "ol_room malloc ol"
  shows "\<exists>ol'. olist_item_push malloc x ol = Inr (True, ol') \<and> ol_holds ol' (x # xs)"
proof -
  have put: "\<exists>ol'. bindE (ol_put (ol_curr o1) x o1) (\<lambda>ol. Inr (True, ol\<lparr>ol_curr := ol_curr ol + 1\<rparr>)) = Inr (True, ol')
      \<and> ol_holds ol' (x # xs)" if o1: "ol_holds o1 xs" "unat (ol_curr o1) + 1 < unat (ol_size o1)" for o1
  proof -
    obtain l where l: "ol_list o1 = Some l" "rev xs = map l [0..<length xs]" "unat (ol_curr o1) = length xs"
      using o1(1) by (auto simp: ol_holds_def)
    moreover have "unat (ol_curr o1 + 1) = Suc (length xs)"
      using o1 l(3) by (subst unat_inc) (auto simp: ol_holds_def)
    moreover have "map l [0..<length xs] = map (l(length xs := x)) [0..<length xs]" by simp
    ultimately show ?thesis using o1 assms(2) by (auto simp: ol_put_def ol_holds_def fun_upd_def)
  qed
  have s: "unat (ol_size ol) < 268435456" "unat (ol_curr ol) < unat (ol_size ol)"
    using assms(1) by (auto simp: ol_holds_def)
  then have "unat (ol_size ol - 1) = unat (ol_size ol) - 1" by (intro unat_dec) auto
  then have lt: "slt (ol_curr ol) (ol_size ol - 1) \<longleftrightarrow> unat (ol_curr ol) + 1 < unat (ol_size ol)"
    using s by (subst slt_small) auto
  show ?thesis
  proof (cases "unat (ol_curr ol) + 1 < unat (ol_size ol)")
    case True
    then show ?thesis using put [OF assms(1)] assms(2) lt by (simp add: olist_item_push_def)
  next
    case False
    then obtain m where "malloc (SIZE_NEXT (ol_size ol) * 4) = Some m" "unat (ol_size ol) < 134217720"
      using assms(3) by (auto simp: ol_room_def)
    from olist_grow_holds [of ol xs malloc, OF assms(1) this] obtain o1 where "olist_grow malloc ol = Inr (True, o1)"
      "ol_holds o1 xs" "unat (ol_curr o1) + 1 < unat (ol_size o1)" by blast
    then show ?thesis using put False assms(2) lt by (simp add: olist_item_push_def)
  qed
qed

lemma olist_pop_holds:
  "ol_holds ol [] \<Longrightarrow> olist_item_pop ol = Inr (0, ol)"
  "ol_holds ol (x # xs) \<Longrightarrow> \<exists>ol'. olist_item_pop ol = Inr (x, ol') \<and> ol_holds ol' xs"
proof -
  show "ol_holds ol [] \<Longrightarrow> olist_item_pop ol = Inr (0, ol)"
    by (auto simp: ol_holds_def olist_item_pop_def unat_eq_0)
  assume h: "ol_holds ol (x # xs)"
  then obtain l where l: "ol_list ol = Some l" "rev xs @ [x] = map l [0..<Suc (length xs)]"
    "unat (ol_curr ol) = Suc (length xs)" by (auto simp: ol_holds_def)
  then have "ol_curr ol \<noteq> 0" by auto
  moreover from this have "unat (ol_curr ol - 1) = length xs" using l(3) by (simp add: unat_dec)
  ultimately show "\<exists>ol'. olist_item_pop ol = Inr (x, ol') \<and> ol_holds ol' xs"
    using h l by (auto simp: olist_item_pop_def Let_def ol_get_def ol_holds_def)
qed

lemma olist_remove_holds:
  assumes "ol_holds ol xs" "i < length xs"
  shows "\<exists>ol' ys. olist_item_remove (of_nat i) ol = Inr ol' \<and> ol_holds ol' ys
    \<and> mset ys = mset xs - {#rev xs ! i#}"
proof -
  obtain l where l: "ol_list ol = Some l" "rev xs = map l [0..<length xs]" "unat (ol_curr ol) = length xs"
    and s: "length xs < 268435456" using assms(1) by (auto simp: ol_holds_def)
  define n where "n = length xs - 1"
  have n: "length xs = Suc n" "i \<le> n" using assms(2) by (auto simp: n_def)
  have u: "unat (of_nat i :: u32) = i" using n s by simp
  have c: "ol_curr ol \<noteq> 0" using l(3) n by auto
  then have d: "unat (ol_curr ol - 1) = n" using l(3) n by (simp add: unat_dec)
  have o1: "slt (of_nat i) (ol_curr ol)" "\<not> slt (of_nat i) 0"
    using l(3) s n u by (simp_all add: slt_small)
  have e: "rev xs = map l [0..<n] @ [l n]" using l(2) n by simp
  then have m: "mset xs = image_mset l (mset [0..<n]) + {#l n#}"
    by (metis mset_rev mset_append mset_map mset.simps add_mset_add_single mset_single_iff_right)
  show ?thesis
  proof (cases "i = n")
    case True
    let ?ol = "ol\<lparr>ol_curr := ol_curr ol - 1\<rparr>"
    have "of_nat i = ol_curr ol - 1" using d True u by (simp add: word_unat_eq_iff)
    then have "olist_item_remove (of_nat i) ol = Inr ?ol"
      using o1 l(1) by (simp add: olist_item_remove_def Let_def ol_get_def)
    moreover have "ol_holds ?ol (tl xs)"
      using assms(1) l d n e by (cases xs) (auto simp: ol_holds_def)
    moreover have "rev xs ! n = l n" using e by (simp add: nth_append)
    then have "mset (tl xs) = mset xs - {#rev xs ! i#}"
      using e n True by (cases xs) auto
    ultimately show ?thesis by blast
  next
    case False
    let ?l = "l(i := l n)"
    let ?ol = "ol\<lparr>ol_curr := ol_curr ol - 1, ol_list := Some ?l\<rparr>" and ?ys = "rev (map ?l [0..<n])"
    have "of_nat i \<noteq> ol_curr ol - 1" using d False u by auto
    then have "olist_item_remove (of_nat i) ol = Inr ?ol"
      using o1 l(1) d u by (simp add: olist_item_remove_def Let_def ol_get_def ol_put_def)
    moreover have "0 \<notin> set (rev xs)" using assms(1) by (simp add: ol_holds_def)
    then have "0 \<notin> set ?ys" unfolding e using False n(2) by auto
    then have "ol_holds ?ol ?ys" using assms(1) l d n by (auto simp: ol_holds_def)
    moreover have "mset ?ys = mset xs - {#rev xs ! i#}"
    proof -
      have i: "i < n" using False n(2) by simp
      then have "rev xs ! i = l i" by (simp add: e nth_append)
      moreover have "mset (map ?l [0..<n]) = mset ((map l [0..<n])[i := l n])"
        using i by (intro arg_cong [where f = mset] nth_equalityI) (auto simp: nth_list_update)
      ultimately show ?thesis using i m by (simp add: mset_update)
    qed
    ultimately show ?thesis by blast
  qed
qed

lemma olist_get_holds:
  assumes "ol_holds ol xs"
  shows "olist_item_get ol i = Inr (if unat i < length xs then rev xs ! unat i else 0)"
proof -
  obtain l where l: "ol_list ol = Some l" "rev xs = map l [0..<length xs]" "unat (ol_curr ol) = length xs"
    and s: "length xs < 268435456" using assms by (auto simp: ol_holds_def)
  have "slt i 0 \<longleftrightarrow> 2147483648 \<le> unat i"
    using sint_nonneg_u32 [of i] by (auto simp: slt_def not_less [symmetric])
  then have "slt i 0 \<or> \<not> slt i (ol_curr ol) \<longleftrightarrow> \<not> unat i < length xs"
    using s l(3) by (cases "unat i < 2147483648") (auto simp: slt_small)
  then show ?thesis using l by (auto simp: olist_item_get_def ol_get_def)
qed

lemma olist_size_holds: "ol_holds ol xs \<Longrightarrow> unat (olist_size_get ol) = length xs"
  by (simp add: ol_holds_def olist_size_get_def)

lemma olist_init_holds:
  "malloc 96 = Some l \<Longrightarrow> fst (olist_init malloc) \<and> ol_holds (snd (olist_init malloc)) []"
  "malloc 96 = None \<Longrightarrow> \<not> fst (olist_init malloc)"
  by (simp_all add: olist_init_def Let_def ol_holds_def)

text \<open>When the array is full and there is no memory for a larger one, \<open>push\<close> says so and the list is
  as before.\<close>

lemma olist_push_full:
  assumes "ol_holds ol xs" "x \<noteq> 0" "unat (ol_curr ol) + 1 = unat (ol_size ol)"
    and "malloc (SIZE_NEXT (ol_size ol) * 4) = None"
  shows "olist_item_push malloc x ol = Inr (False, ol)"
proof -
  have s: "unat (ol_size ol) < 268435456" "unat (ol_curr ol) < unat (ol_size ol)"
    using assms(1) by (auto simp: ol_holds_def)
  then have "unat (ol_size ol - 1) = unat (ol_size ol) - 1" by (intro unat_dec) auto
  then have "\<not> slt (ol_curr ol) (ol_size ol - 1)" using s assms(3) by (subst slt_small) auto
  then show ?thesis using assms(2,4) by (simp add: olist_item_push_def olist_grow_def Let_def)
qed

definition res_push :: "('s \<Rightarrow> (bool \<times> 's) res) \<Rightarrow> 's \<Rightarrow> 's option" where
  "res_push f s = (case f s of Inr (True, s) \<Rightarrow> Some s | _ \<Rightarrow> None)"

definition res_pop :: "('s \<Rightarrow> (u32 \<times> 's) res) \<Rightarrow> 's \<Rightarrow> (u32 option \<times> 's) option" where
  "res_pop f s = (case f s of Inr (x, s) \<Rightarrow> Some (if x = 0 then None else Some x, s) | Inl e \<Rightarrow> None)"

interpretation olist_stack: stack ol_holds "\<lambda>ol x xs. x \<noteq> 0 \<and> ol_room malloc ol"
    "\<lambda>x. res_push (olist_item_push malloc x)" "res_pop olist_item_pop" for malloc
proof
  show "\<exists>s'. res_push (olist_item_push malloc x) s = Some s' \<and> ol_holds s' (x # xs)"
    if "ol_holds s xs" "x \<noteq> 0 \<and> ol_room malloc s" for s x xs
    using olist_push_holds [of s xs x malloc] that by (auto simp: res_push_def)
  show "\<exists>s'. res_pop olist_item_pop s = Some (Some x, s') \<and> ol_holds s' xs"
    if "ol_holds s (x # xs)" for s x xs
    using olist_pop_holds(2) [OF that] that by (auto simp: res_pop_def ol_holds_def)
  show "res_pop olist_item_pop s = Some (None, s)" if "ol_holds s []" for s
    using olist_pop_holds(1) [OF that] by (simp add: res_pop_def)
qed

text \<open>C23: The object list is the bag it promises to be, and a stack for its owner. From a list that holds
  the items \<open>xs\<close>: the size is theirs; an index reads the items oldest first, and 0 outside (a negative
  index included); \<open>pop\<close> returns the newest; \<open>push\<close> of a non-null item adds it when there is room or
  memory to grow, and otherwise returns failure and changes nothing; \<open>remove\<close> of an index takes out exactly
  one occurrence of the item there, whatever it does to the order.\<close>

theorem olist_refines_bag:
  assumes "ol_holds ol xs"
  shows "unat (olist_size_get ol) = length xs
    \<and> (\<forall>i. olist_item_get ol i = Inr (if unat i < length xs then rev xs ! unat i else 0))
    \<and> (\<exists>ol'. olist_item_pop ol = Inr (if xs = [] then 0 else hd xs, ol') \<and> ol_holds ol' (tl xs))
    \<and> (\<forall>malloc x. x \<noteq> 0 \<longrightarrow> ol_room malloc ol
        \<longrightarrow> (\<exists>ol'. olist_item_push malloc x ol = Inr (True, ol') \<and> ol_holds ol' (x # xs)))
    \<and> (\<forall>malloc x. x \<noteq> 0 \<longrightarrow> unat (ol_curr ol) + 1 = unat (ol_size ol) \<longrightarrow> malloc (SIZE_NEXT (ol_size ol) * 4) = None
        \<longrightarrow> olist_item_push malloc x ol = Inr (False, ol))
    \<and> (\<forall>i<length xs. \<exists>ol' ys. olist_item_remove (of_nat i) ol = Inr ol' \<and> ol_holds ol' ys
        \<and> mset ys = mset xs - {#rev xs ! i#})"
proof (intro conjI allI impI)
  show "\<exists>ol'. olist_item_pop ol = Inr (if xs = [] then 0 else hd xs, ol') \<and> ol_holds ol' (tl xs)"
    using olist_pop_holds assms by (cases xs) fastforce+
qed (use assms in \<open>blast intro: olist_size_holds olist_get_holds olist_push_holds olist_push_full olist_remove_holds\<close>)+

definition ol_two :: olist where
  "ol_two = \<lparr>ol_curr = 2, ol_size = 24, ol_list = Some (\<lambda>i. if i = 0 then 5 else 7)\<rparr>"

theorem olist_refines_bag_witness:
  "(\<exists>ol'. olist_item_pop ol_two = Inr (7, ol') \<and> ol_holds ol' [5])
   \<and> (\<exists>ol' ys. olist_item_remove 0 ol_two = Inr ol' \<and> ol_holds ol' ys \<and> mset ys = {#7#})"
proof -
  have h: "ol_holds ol_two [7, 5]" by (simp add: ol_holds_def ol_two_def upt_rec)
  note r = olist_refines_bag [OF h]
  from r have "\<exists>ol'. olist_item_pop ol_two = Inr (7, ol') \<and> ol_holds ol' [5]" by simp
  moreover from r have "\<exists>ol' ys. olist_item_remove (of_nat 0) ol_two = Inr ol' \<and> ol_holds ol' ys
      \<and> mset ys = mset [7, 5] - {#rev [7, 5] ! 0#}" by (auto simp del: of_nat_0)
  ultimately show ?thesis by simp
qed

section \<open>The pool as a stack\<close>

definition pool_holds :: "pool_ctxt \<Rightarrow> u32 list \<Rightarrow> bool" where
  "pool_holds c xs \<longleftrightarrow> rev xs = map (p_items c) [0..<length xs] \<and> unat (p_current c) = length xs
     \<and> length xs \<le> unat (p_count c) \<and> unat (p_count c) < 2147483648 \<and> 0 \<notin> set xs"

lemma pool_free_holds:
  assumes "pool_holds c xs" "length xs < unat (p_count c)" "x \<noteq> 0"
  shows "pool_holds (pool_free x c) (x # xs)"
proof -
  have "slt (p_current c) (p_count c)" using assms by (simp add: slt_small pool_holds_def)
  moreover have "unat (p_current c + 1) = Suc (length xs)"
    using assms by (subst unat_inc) (auto simp: pool_holds_def)
  ultimately show ?thesis using assms by (auto simp: pool_free_def pool_holds_def)
qed

lemma pool_free_full: "pool_holds c xs \<Longrightarrow> length xs = unat (p_count c) \<Longrightarrow> pool_free x c = c"
  by (simp add: pool_free_def pool_holds_def slt_small)

lemma pool_alloc_holds:
  "pool_holds c [] \<Longrightarrow> pool_alloc c = (0, c)"
  "pool_holds c (x # xs) \<Longrightarrow> fst (pool_alloc c) = x \<and> pool_holds (snd (pool_alloc c)) xs"
proof -
  show "pool_holds c [] \<Longrightarrow> pool_alloc c = (0, c)"
    by (auto simp: pool_holds_def pool_alloc_def unat_eq_0 slt_def)
  assume h: "pool_holds c (x # xs)"
  then have l: "rev xs @ [x] = map (p_items c) [0..<Suc (length xs)]" "unat (p_current c) = Suc (length xs)"
    "Suc (length xs) \<le> unat (p_count c)" "unat (p_count c) < 2147483648"
    by (auto simp: pool_holds_def)
  have "slt 0 (p_current c)" using l by (subst slt_small) auto
  moreover have "p_current c \<noteq> 0" using l(2) by auto
  then have "unat (p_current c - 1) = length xs" using l(2) by (simp add: unat_dec)
  ultimately show "fst (pool_alloc c) = x \<and> pool_holds (snd (pool_alloc c)) xs"
    using h l by (auto simp: pool_alloc_def Let_def pool_holds_def)
qed

interpretation pool_stack: stack pool_holds "\<lambda>c x xs. x \<noteq> 0 \<and> length xs < unat (p_count c)"
    "\<lambda>x c. Some (pool_free x c)" "\<lambda>c. Some (case pool_alloc c of (x, c) \<Rightarrow> (if x = 0 then None else Some x, c))"
proof
  show "\<exists>s'. Some (case pool_alloc s of (x, c) \<Rightarrow> (if x = 0 then None else Some x, c)) = Some (Some x, s')
      \<and> pool_holds s' xs" if "pool_holds s (x # xs)" for s x xs
    using pool_alloc_holds(2) [OF that] that by (auto simp: pool_holds_def split: prod.split)
qed (auto simp: pool_free_holds pool_alloc_holds(1))

text \<open>The objects of a pool, by index, and the pool that \<open>pool_init\<close> builds over them.\<close>

definition pool_raw :: "pool_ctxt \<Rightarrow> nat \<Rightarrow> u32" where
  "pool_raw c i = p_list c + 4 * (4 * p_count c) + p_size c * of_nat i"

lemma pool_get_raw_nat:
  "i < unat (p_count c) \<Longrightarrow> unat (p_count c) < 2147483648 \<Longrightarrow> pool_get_raw c (of_nat i) = pool_raw c i"
  by (simp add: pool_get_raw_def pool_raw_def slt_small)

lemma pool_fill_state:
  assumes "unat (p_current c) + n \<le> unat (p_count c)" "unat (p_count c) < 2147483648"
  shows "pool_fill n tmp sz c = c\<lparr>p_current := p_current c + of_nat n,
    p_items := (\<lambda>i. if unat (p_current c) \<le> i \<and> i < unat (p_current c) + n
      then tmp + sz * of_nat (i - unat (p_current c)) else p_items c i)\<rparr>"
  using assms
proof (induction n arbitrary: c tmp)
  case (Suc n)
  have lt: "slt (p_current c) (p_count c)" using Suc.prems by (simp add: slt_small)
  have u: "unat (p_current c + 1) = Suc (unat (p_current c))"
    using Suc.prems by (subst unat_inc) auto
  define c1 where "c1 = pool_free tmp c"
  have c1: "c1 = c\<lparr>p_items := (p_items c)(unat (p_current c) := tmp), p_current := p_current c + 1\<rparr>"
    using lt by (simp add: c1_def pool_free_def)
  have IH: "pool_fill n (tmp + sz) sz c1 = c1\<lparr>p_current := p_current c1 + of_nat n,
    p_items := (\<lambda>i. if unat (p_current c1) \<le> i \<and> i < unat (p_current c1) + n
      then tmp + sz + sz * of_nat (i - unat (p_current c1)) else p_items c1 i)\<rparr>"
    using Suc.prems u by (intro Suc.IH) (simp_all add: c1)
  have e: "tmp + sz + sz * of_nat (i - Suc k) = tmp + sz * (of_nat (i - k) :: u32)" if "Suc k \<le> i" for i k
  proof -
    have "i - k = Suc (i - Suc k)" using that by simp
    then show ?thesis by (simp add: algebra_simps)
  qed
  show ?case
    unfolding pool_fill.simps c1_def [symmetric] IH
  proof -
    have "(\<lambda>i. if unat (p_current c1) \<le> i \<and> i < unat (p_current c1) + n
        then tmp + sz + sz * of_nat (i - unat (p_current c1)) else p_items c1 i)
      = (\<lambda>i. if unat (p_current c) \<le> i \<and> i < unat (p_current c) + Suc n
        then tmp + sz * of_nat (i - unat (p_current c)) else p_items c i)" (is "?f = ?g")
    proof
      fix i show "?f i = ?g i"
        using u e [of "unat (p_current c)" i] by (cases "i = unat (p_current c)") (auto simp: c1)
    qed
    then show "c1\<lparr>p_current := p_current c1 + of_nat n, p_items := ?f\<rparr> = c\<lparr>p_current := p_current c + of_nat (Suc n), p_items := ?g\<rparr>"
      by (simp add: c1 add.assoc)
  qed
next
  case 0
  have "(\<lambda>i. if k \<le> i \<and> i < k + 0 then f i else g i) = g" for k :: nat and f g :: "nat \<Rightarrow> u32"
    by (rule ext) auto
  then show ?case by simp
qed

lemma pool_init_state:
  assumes "pool_init malloc item_size item_count c0 = (True, c)" "unat item_count < 2147483648"
  shows "p_list c \<noteq> 0" "2 \<le> unat (p_count c)" "p_count c = (if unat item_count < 2 then 2 else item_count)"
    "p_current c = p_count c" "\<And>i. i < unat (p_count c) \<Longrightarrow> p_items c i = pool_raw c i"
    "p_size c = ((if item_size < 8 then 8 else item_size) + 7) AND NOT 7"
    "p_list c = malloc (p_size c * p_count c + 4 * p_count c)"
proof -
  define n :: u32 where "n = (if slt item_count 2 then 2 else item_count)"
  define z :: u32 where "z = ((if item_size < 8 then 8 else item_size) + 8 - 1) AND NOT (8 - 1)"
  define c1 where "c1 = c0\<lparr>p_count := n, p_size := z, p_current := 0, p_list := malloc (z * n + 4 * n)\<rparr>"
  have n: "n = (if unat item_count < 2 then 2 else item_count)" using assms(2) by (simp add: n_def slt_small)
  then have n2: "2 \<le> unat n" "unat n < 2147483648" using assms(2) by auto
  have l: "p_list c1 \<noteq> 0" and c: "c = pool_fill (unat n) (p_list c1 + 4 * (4 * n)) z c1"
    using assms(1) unfolding pool_init_def by (auto simp: Let_def n_def z_def c1_def split: if_splits)
  have e: "pool_fill (unat n) (p_list c1 + 4 * (4 * n)) z c1 = c1\<lparr>p_current := p_current c1 + of_nat (unat n),
      p_items := (\<lambda>i. if unat (p_current c1) \<le> i \<and> i < unat (p_current c1) + unat n
        then p_list c1 + 4 * (4 * n) + z * of_nat (i - unat (p_current c1)) else p_items c1 i)\<rparr>"
    using n2 by (intro pool_fill_state) (simp_all add: c1_def)
  have f: "p_list c = p_list c1" "p_count c = n" "p_size c = z" "p_current c = n"
    "\<And>i. i < unat n \<Longrightarrow> p_items c i = p_list c1 + 4 * (4 * n) + z * of_nat i"
    unfolding c e by (simp_all add: c1_def)
  show "p_list c \<noteq> 0" "2 \<le> unat (p_count c)" "p_count c = (if unat item_count < 2 then 2 else item_count)"
    "p_current c = p_count c" "\<And>i. i < unat (p_count c) \<Longrightarrow> p_items c i = pool_raw c i"
    using l n2 n f by (simp_all add: pool_raw_def)
  show "p_size c = ((if item_size < 8 then 8 else item_size) + 7) AND NOT 7"
    using f(3) by (simp add: z_def add.commute)
  show "p_list c = malloc (p_size c * p_count c + 4 * p_count c)"
    using f by (simp add: c1_def)
qed

section \<open>The slab: every object handed out was constructed once\<close>

text \<open>The block that holds the items does not wrap around the address space.\<close>

definition pool_fits :: "pool_ctxt \<Rightarrow> bool" where
  "pool_fits c \<longleftrightarrow> p_size c \<noteq> 0 \<and> p_list c \<noteq> 0 \<and> 2 \<le> unat (p_count c) \<and> unat (p_count c) < 2147483648
     \<and> unat (p_list c) + 16 * unat (p_count c) + unat (p_size c) * unat (p_count c) < 4294967296"

lemma unat_pool_raw:
  assumes "pool_fits c" "i < unat (p_count c)"
  shows "unat (pool_raw c i) = unat (p_list c) + 16 * unat (p_count c) + unat (p_size c) * i"
proof -
  define l z n where "l = unat (p_list c)" and "z = unat (p_size c)" and "n = unat (p_count c)"
  have f: "l + 16 * n + z * n < 4294967296" "i < n" using assms by (auto simp: pool_fits_def l_def z_def n_def)
  then have "z * i \<le> z * n" by (intro mult_le_mono2) simp
  then have b: "l + 16 * n + z * i < 4294967296"
    using f(1) by (rule add_left_mono [THEN le_less_trans])
  have "pool_raw c i = of_nat (l + 16 * n + z * i)"
    by (simp add: pool_raw_def l_def z_def n_def)
  then have "unat (pool_raw c i) = l + 16 * n + z * i" using b by (simp only: unat_of_nat_u32)
  then show ?thesis by (simp only: l_def z_def n_def)
qed

lemma pool_raw_inj:
  assumes "pool_fits c" "i < unat (p_count c)" "j < unat (p_count c)" "pool_raw c i = pool_raw c j"
  shows "i = j"
proof -
  have "unat (p_size c) * i = unat (p_size c) * j"
    using unat_pool_raw [OF assms(1,2)] unat_pool_raw [OF assms(1,3)] assms(4) by (metis add_left_imp_eq)
  moreover have "0 < unat (p_size c)" using assms(1) by (simp add: pool_fits_def unat_gt_0)
  ultimately show ?thesis by (metis mult_cancel1 less_irrefl)
qed

lemma pool_raw_nonzero: "pool_fits c \<Longrightarrow> i < unat (p_count c) \<Longrightarrow> pool_raw c i \<noteq> 0"
  using unat_pool_raw [of c i] by (auto simp: pool_fits_def)

definition slab_bottom :: "slab_ctxt \<Rightarrow> nat" where
  "slab_bottom s = unat (sl_const_bottom s + 1)"

definition slab_inv :: "slab_ctxt \<Rightarrow> bool" where
  "slab_inv s \<longleftrightarrow>
     (let c = sl_pool s; n = unat (p_count c); b = slab_bottom s
      in pool_fits c \<and> sl_constructor s \<and> sl_destructor s \<and> b \<le> unat (p_current c) \<and> unat (p_current c) \<le> n
         \<and> (\<forall>i<b. p_items c i = pool_raw c i)
         \<and> (\<forall>i. b \<le> i \<longrightarrow> i < unat (p_current c) \<longrightarrow> p_items c i \<in> pool_raw c ` {b..<n})
         \<and> sl_log s = map (\<lambda>i. Construct (pool_raw c i) (sl_userdata s)) [b..<n])"

definition slab_booted :: "slab_ctxt \<Rightarrow> bool" where
  "slab_booted s \<longleftrightarrow> (\<exists>malloc item_size item_count userdata s0.
     slab_init malloc item_size item_count True True userdata s0 = (True, s) \<and> sl_log s0 = []
     \<and> unat item_count < 2147483648 \<and> pool_fits (sl_pool s))"

inductive slab_step :: "slab_ctxt \<Rightarrow> slab_ctxt \<Rightarrow> bool" where
  "slab_step s (snd (slab_alloc s))"
| "Construct x (sl_userdata s) \<in> set (sl_log s) \<Longrightarrow> slab_step s (slab_free x s)"

lemma slab_booted_inv:
  assumes "slab_booted s" shows "slab_inv s"
proof -
  obtain malloc item_size item_count userdata s0 where
    b: "slab_init malloc item_size item_count True True userdata s0 = (True, s)" "sl_log s0 = []"
      "unat item_count < 2147483648" "pool_fits (sl_pool s)"
    using assms unfolding slab_booted_def by blast
  define p where "p = snd (pool_init malloc item_size item_count (sl_pool s0))"
  have i: "pool_init malloc item_size item_count (sl_pool s0) = (True, p)" "unat item_count < 2147483648"
    and s: "s = s0\<lparr>sl_constructor := True, sl_destructor := True, sl_userdata := userdata, sl_pool := p,
      sl_const_bottom := p_count p - 1\<rparr>"
    using b(1,3) by (simp_all add: slab_init_def p_def Let_def split: prod.splits if_splits)
  show ?thesis using pool_init_state [OF i] b
    by (simp add: slab_inv_def s slab_bottom_def Let_def)
qed

lemma pool_raw_upd [simp]:
  "pool_raw (c\<lparr>p_current := k\<rparr>) = pool_raw c" "pool_raw (c\<lparr>p_items := f\<rparr>) = pool_raw c"
  by (simp_all add: pool_raw_def fun_eq_iff)

lemma pool_fits_upd [simp]:
  "pool_fits (c\<lparr>p_current := k\<rparr>) = pool_fits c" "pool_fits (c\<lparr>p_items := f\<rparr>) = pool_fits c"
  by (simp_all add: pool_fits_def)

lemma slab_alloc_empty: "unat (p_current (sl_pool s)) = 0 \<Longrightarrow> slab_alloc s = (0, s)"
  by (simp add: slab_alloc_def pool_alloc_def slt_def unat_eq_0)

text \<open>An allocation from a pool that is not empty: it gives an object that is constructed, now or before.\<close>

lemma slab_alloc_some:
  assumes "slab_inv s" "unat (p_current (sl_pool s)) = Suc k"
  shows "slab_inv (snd (slab_alloc s)) \<and> fst (slab_alloc s) \<noteq> 0
    \<and> Construct (fst (slab_alloc s)) (sl_userdata s) \<in> set (sl_log (snd (slab_alloc s)))
    \<and> sl_pool (snd (slab_alloc s)) = (sl_pool s)\<lparr>p_current := p_current (sl_pool s) - 1\<rparr>
    \<and> sl_userdata (snd (slab_alloc s)) = sl_userdata s"
proof -
  define c where "c = sl_pool s"
  define b where "b = slab_bottom s"
  have inv: "pool_fits c" "sl_constructor s" "b \<le> Suc k" "Suc k \<le> unat (p_count c)"
    "\<And>i. i < b \<Longrightarrow> p_items c i = pool_raw c i"
    "\<And>i. b \<le> i \<Longrightarrow> i < Suc k \<Longrightarrow> p_items c i \<in> pool_raw c ` {b..<unat (p_count c)}"
    "sl_log s = map (\<lambda>i. Construct (pool_raw c i) (sl_userdata s)) [b..<unat (p_count c)]"
    using assms by (simp_all add: slab_inv_def Let_def c_def b_def)
  have k: "unat (p_current c) = Suc k" using assms(2) by (simp add: c_def)
  have k0: "p_current c \<noteq> 0" using k by auto
  then have k1: "unat (p_current c - 1) = k" using k by (simp add: unat_dec)
  have pos: "slt 0 (p_current c)" using k inv(1,4) by (subst slt_small) (auto simp: pool_fits_def)
  define c1 where "c1 = c\<lparr>p_current := p_current c - 1\<rparr>"
  have pa: "pool_alloc c = (p_items c k, c1)" using pos k1 by (simp add: pool_alloc_def Let_def c1_def)
  have eq: "sl_const_bottom s = p_current c - 1 \<longleftrightarrow> b = Suc k"
  proof -
    have "sl_const_bottom s = p_current c - 1 \<longleftrightarrow> sl_const_bottom s + 1 = p_current c" by (auto simp: algebra_simps)
    then show ?thesis using k by (simp add: b_def slab_bottom_def word_unat_eq_iff)
  qed
  show ?thesis
  proof (cases "b = Suc k")
    case True
    have o0: "p_items c k = pool_raw c k" "pool_raw c k \<noteq> 0"
      using True inv(5) pool_raw_nonzero [OF inv(1), of k] inv(4) by auto
    define s1 where "s1 = s\<lparr>sl_pool := c1, sl_const_bottom := sl_const_bottom s - 1,
      sl_log := Construct (pool_raw c k) (sl_userdata s) # sl_log s\<rparr>"
    have sa: "slab_alloc s = (pool_raw c k, s1)"
      using True eq o0 inv(2) by (simp add: slab_alloc_def c_def [symmetric] pa c1_def s1_def)
    have b1: "slab_bottom s1 = k" using True eq k1 by (simp add: slab_bottom_def s1_def)
    have "slab_inv s1"
      using inv True k1 b1 assms(1) upt_conv_Cons [of k "unat (p_count c)"]
      by (auto simp: slab_inv_def Let_def s1_def c1_def)
    then show ?thesis using sa o0 by (simp add: s1_def c1_def c_def)
  next
    case False
    then have bk: "b \<le> k" using inv(3) by simp
    obtain i where i: "p_items c k = pool_raw c i" "b \<le> i" "i < unat (p_count c)" using inv(6) [OF bk] by auto
    have o0: "p_items c k \<noteq> 0" using i pool_raw_nonzero [OF inv(1)] by simp
    have sa: "slab_alloc s = (p_items c k, s\<lparr>sl_pool := c1\<rparr>)"
      using False eq by (simp add: slab_alloc_def c_def [symmetric] pa c1_def)
    have b1: "slab_bottom (s\<lparr>sl_pool := c1\<rparr>) = b" by (simp add: slab_bottom_def b_def)
    have "slab_inv (s\<lparr>sl_pool := c1\<rparr>)"
      using inv k1 b1 bk assms(1) by (auto simp: slab_inv_def Let_def c1_def)
    then show ?thesis using sa o0 i inv(7) by (auto simp: c1_def c_def)
  qed
qed

lemma slab_free_inv:
  assumes "slab_inv s" "Construct x (sl_userdata s) \<in> set (sl_log s)"
  shows "slab_inv (slab_free x s)"
proof (cases "unat (p_current (sl_pool s)) < unat (p_count (sl_pool s))")
  case True
  let ?c = "sl_pool s"
  have f: "slt (p_current ?c) (p_count ?c)"
    using True assms(1) by (subst slt_small) (auto simp: slab_inv_def Let_def pool_fits_def)
  have u: "unat (p_current ?c + 1) = Suc (unat (p_current ?c))"
    using True assms(1) by (subst unat_inc) (auto simp: slab_inv_def Let_def pool_fits_def)
  have "x \<in> pool_raw ?c ` {slab_bottom s..<unat (p_count ?c)}"
    using assms by (auto simp: slab_inv_def Let_def)
  then show ?thesis using assms(1) True f u
    by (auto simp: slab_inv_def Let_def slab_free_def pool_free_def slab_bottom_def less_Suc_eq)
next
  case False
  then have "\<not> slt (p_current (sl_pool s)) (p_count (sl_pool s))"
    using assms(1) by (subst slt_small) (auto simp: slab_inv_def Let_def pool_fits_def)
  then show ?thesis using assms(1) by (simp add: slab_free_def pool_free_def)
qed

interpretation slab: invariant_system slab_booted slab_step slab_inv
proof
  show "slab_inv t" if "slab_inv s" "slab_step s t" for s t
    using that(2,1)
  proof cases
    case 1
    then show ?thesis using that(1) slab_alloc_some [of s] slab_alloc_empty [of s]
      by (cases "unat (p_current (sl_pool s))") auto
  next
    case (2 x)
    then show ?thesis using that(1) by (simp add: slab_free_inv)
  qed
qed (rule slab_booted_inv)

lemma slab_destruct_loop_log:
  assumes "sl_const_bottom s = of_nat b - 1" "b + n = unat (p_count (sl_pool s)) + 1"
    and "unat (p_count (sl_pool s)) < 2147483648"
  shows "sl_log (slab_destruct_loop n s)
      = rev (map (\<lambda>i. Destruct (pool_raw (sl_pool s) i) (sl_userdata s)) [b..<unat (p_count (sl_pool s))]) @ sl_log s
    \<and> sl_pool (slab_destruct_loop n s) = sl_pool s"
  using assms
proof (induction n arbitrary: b s)
  case (Suc n)
  have b: "sl_const_bottom s + 1 = of_nat b" using Suc.prems(1) by simp
  have lt: "slt (of_nat b) (p_count (sl_pool s)) \<longleftrightarrow> b < unat (p_count (sl_pool s))"
    using Suc.prems by (subst slt_small) auto
  show ?case
  proof (cases "b < unat (p_count (sl_pool s))")
    case True
    define s1 where "s1 = s\<lparr>sl_const_bottom := of_nat b,
      sl_log := Destruct (pool_raw (sl_pool s) b) (sl_userdata s) # sl_log s\<rparr>"
    have e: "slab_destruct_loop (Suc n) s = slab_destruct_loop n s1"
      using True b lt Suc.prems(3) by (simp add: s1_def pool_get_raw_nat)
    have "sl_log (slab_destruct_loop n s1)
      = rev (map (\<lambda>i. Destruct (pool_raw (sl_pool s1) i) (sl_userdata s1)) [Suc b..<unat (p_count (sl_pool s1))]) @ sl_log s1
      \<and> sl_pool (slab_destruct_loop n s1) = sl_pool s1"
      using Suc.prems by (intro Suc.IH) (simp_all add: s1_def)
    then show ?thesis unfolding e using True upt_conv_Cons [of b] by (simp add: s1_def)
  next
    case False
    then show ?thesis using b lt by simp
  qed
qed simp

lemma slab_cleanup_log:
  assumes "slab_inv s"
  shows "sl_log (slab_cleanup s)
      = rev (map (\<lambda>i. Destruct (pool_raw (sl_pool s) i) (sl_userdata s)) [slab_bottom s..<unat (p_count (sl_pool s))]) @ sl_log s
    \<and> p_list (sl_pool (slab_cleanup s)) = 0"
proof -
  define b n where "b = slab_bottom s" and "n = unat (p_count (sl_pool s))"
  have i: "b \<le> n" "n < 2147483648" "sl_destructor s"
    using assms by (auto simp: slab_inv_def Let_def b_def n_def pool_fits_def)
  have cb: "sl_const_bottom s = of_nat b - 1" by (simp add: b_def slab_bottom_def)
  have "sint (sl_const_bottom s) = int b - 1"
  proof (cases b)
    case 0
    then show ?thesis by (simp add: cb)
  next
    case (Suc k)
    then show ?thesis using i by (simp add: cb sint_eq_unat)
  qed
  then have "nat (sint (p_count (sl_pool s)) - sint (sl_const_bottom s)) = n + 1 - b"
    using i by (simp add: sint_eq_unat n_def [symmetric] del: of_nat_unat)
  then have "slab_cleanup s = (let t = slab_destruct_loop (n + 1 - b) s in t\<lparr>sl_pool := pool_cleanup (sl_pool t)\<rparr>)"
    using i by (simp add: slab_cleanup_def Let_def)
  then show ?thesis
    using slab_destruct_loop_log [OF cb, of "n + 1 - b"] i
    by (simp add: Let_def b_def n_def pool_cleanup_def)
qed

lemma slab_inv_distinct:
  assumes "slab_inv s" shows "distinct (sl_log s)"
  using assms pool_raw_inj [of "sl_pool s"]
  by (auto simp: slab_inv_def Let_def distinct_map inj_on_def)

text \<open>C22: What the slab promises. In every state it can reach, however its client allocates and frees
  (frees being of objects it was given): an allocation fails only when no object is free, and then changes
  nothing; otherwise it returns an object whose constructor has been called, and no object is ever
  constructed twice. Cleaning up calls the destructor once on each constructed object and on nothing else.\<close>

theorem slab_constructs_once:
  assumes "slab_booted s0" "slab_step\<^sup>*\<^sup>* s0 s"
  shows "(p_current (sl_pool s) = 0 \<longrightarrow> slab_alloc s = (0, s))
    \<and> (p_current (sl_pool s) \<noteq> 0 \<longrightarrow> fst (slab_alloc s) \<noteq> 0
        \<and> Construct (fst (slab_alloc s)) (sl_userdata s) \<in> set (sl_log (snd (slab_alloc s))))
    \<and> distinct (sl_log s)
    \<and> (\<exists>xs. sl_log s = map (\<lambda>x. Construct x (sl_userdata s)) xs
        \<and> sl_log (slab_cleanup s) = map (\<lambda>x. Destruct x (sl_userdata s)) (rev xs) @ sl_log s)"
proof -
  have i: "slab_inv s" using assms by (rule slab.reachable_inv)
  define xs where "xs = map (pool_raw (sl_pool s)) [slab_bottom s..<unat (p_count (sl_pool s))]"
  have "sl_log s = map (\<lambda>x. Construct x (sl_userdata s)) xs"
    using i by (simp add: slab_inv_def Let_def xs_def comp_def)
  moreover have "sl_log (slab_cleanup s) = map (\<lambda>x. Destruct x (sl_userdata s)) (rev xs) @ sl_log s"
    using slab_cleanup_log [OF i] by (simp add: xs_def rev_map comp_def)
  moreover have "fst (slab_alloc s) \<noteq> 0
      \<and> Construct (fst (slab_alloc s)) (sl_userdata s) \<in> set (sl_log (snd (slab_alloc s)))"
    if "p_current (sl_pool s) \<noteq> 0"
  proof -
    have "unat (p_current (sl_pool s)) = Suc (unat (p_current (sl_pool s)) - 1)"
      using that by (simp add: unat_gt_0)
    from slab_alloc_some [OF i this] show ?thesis by blast
  qed
  ultimately show ?thesis using slab_alloc_empty slab_inv_distinct [OF i] by auto
qed

definition empty_pool :: pool_ctxt where
  "empty_pool = \<lparr>p_count = 0, p_current = 0, p_size = 0, p_list = 0, p_items = \<lambda>_. 0\<rparr>"

definition empty_slab :: slab_ctxt where
  "empty_slab = \<lparr>sl_const_bottom = 0, sl_pool = empty_pool, sl_userdata = 0, sl_constructor = False,
     sl_destructor = False, sl_log = []\<rparr>"

text \<open>The block \<open>pool_init\<close> asks for is too small. The items of a pool begin \<open>16 * count\<close> bytes into
  the block (the offset is scaled twice by the size of a pointer), but the block has room for an array of
  \<open>4 * count\<close> bytes and the items: the last item ends \<open>12 * count\<close> bytes after the end of the block.\<close>

theorem pool_items_overrun:
  assumes "pool_init malloc item_size item_count c0 = (True, c)" "unat item_count < 2147483648" "pool_fits c"
  shows "let block = p_size c * p_count c + 4 * p_count c in p_list c = malloc block
    \<and> unat (pool_get_raw c (p_count c - 1)) + unat (p_size c) = unat (malloc block) + unat block + 12 * unat (p_count c)"
proof -
  let ?n = "unat (p_count c)"
  note i = pool_init_state [OF assms(1,2)]
  have n: "2 \<le> ?n" "?n < 2147483648" using assms(3) by (auto simp: pool_fits_def)
  have b: "unat (p_size c * p_count c + 4 * p_count c) = unat (p_size c) * ?n + 4 * ?n"
  proof -
    have "unat (p_size c) * ?n + 4 * ?n < 4294967296" using assms(3) by (simp add: pool_fits_def)
    moreover have "unat (p_size c * p_count c + 4 * p_count c) = (unat (p_size c) * ?n + 4 * ?n) mod 4294967296"
      by (simp add: unat_word_ariths mod_simps)
    ultimately show ?thesis by simp
  qed
  have "p_count c - 1 = of_nat (?n - 1)" using n by (simp add: of_nat_diff)
  then have "pool_get_raw c (p_count c - 1) = pool_raw c (?n - 1)"
    using pool_get_raw_nat [of "?n - 1" c] n by (simp del: One_nat_def)
  moreover have "unat (p_size c) * (?n - 1) + unat (p_size c) = unat (p_size c) * ?n"
    using n by (cases ?n) (auto simp: algebra_simps)
  ultimately show ?thesis
    using unat_pool_raw [OF assms(3), of "?n - 1"] n b i(7) by (simp add: Let_def)
qed

theorem pool_items_overrun_witness:
  "\<exists>c. pool_init (\<lambda>_. 0x1000) 12 3 empty_pool = (True, c)
     \<and> unat (pool_get_raw c (p_count c - 1)) + unat (p_size c) = 0x1000 + unat (16 * 3 + 4 * 3 :: u32) + 36"
proof -
  define c where "c = snd (pool_init (\<lambda>_. 0x1000) 12 3 empty_pool)"
  have "fst (pool_init (\<lambda>_. 0x1000) 12 3 empty_pool)" by code_simp
  then have c: "pool_init (\<lambda>_. 0x1000) 12 3 empty_pool = (True, c)" by (cases "pool_init (\<lambda>_. 0x1000) 12 3 empty_pool") (simp add: c_def)
  have n: "p_count c = 3" "p_size c = 16" "p_list c = 0x1000" unfolding c_def by code_simp+
  then have f: "pool_fits c" by (simp add: pool_fits_def)
  show ?thesis using pool_items_overrun [OF c _ f] c n by auto
qed

text \<open>A slab of three objects of twelve bytes, on a heap that gives the address \<open>0x1000\<close>.\<close>

definition demo_slab :: "bool \<times> slab_ctxt" where
  "demo_slab = slab_init (\<lambda>_. 0x1000) 12 3 True True 9 empty_slab"

lemma demo_slab_booted: "slab_booted (snd demo_slab)"
proof -
  have "fst demo_slab" by code_simp
  then have "slab_init (\<lambda>_. 0x1000) 12 3 True True 9 empty_slab = (True, snd demo_slab)"
    unfolding demo_slab_def by (simp add: prod_eq_iff)
  moreover have "p_count (sl_pool (snd demo_slab)) = 3" "p_size (sl_pool (snd demo_slab)) = 16"
    "p_list (sl_pool (snd demo_slab)) = 0x1000" by code_simp+
  then have "pool_fits (sl_pool (snd demo_slab))" by (simp add: pool_fits_def)
  moreover have "sl_log empty_slab = []" by (simp add: empty_slab_def)
  moreover have "unat (3 :: u32) < 2147483648" by simp
  ultimately show ?thesis unfolding slab_booted_def by blast
qed

theorem slab_constructs_once_witness:
  "let s = snd (slab_alloc (snd demo_slab)) in fst (slab_alloc s) \<noteq> 0
     \<and> (\<exists>xs. sl_log (slab_cleanup s) = map (\<lambda>x. Destruct x 9) (rev xs) @ map (\<lambda>x. Construct x 9) xs)"
proof -
  define s where "s = snd (slab_alloc (snd demo_slab))"
  have "slab_step\<^sup>*\<^sup>* (snd demo_slab) s" unfolding s_def by (intro r_into_rtranclp slab_step.intros(1))
  note r = slab_constructs_once [OF demo_slab_booted this]
  have "p_current (sl_pool s) \<noteq> 0" "sl_userdata s = 9" unfolding s_def by code_simp+
  with r have "fst (slab_alloc s) \<noteq> 0
     \<and> (\<exists>xs. sl_log (slab_cleanup s) = map (\<lambda>x. Destruct x 9) (rev xs) @ map (\<lambda>x. Construct x 9) xs)"
    by force
  then show ?thesis by (simp add: Let_def s_def)
qed

end
