(* ===== verification/Util_List.thy ===== *)
theory Util_List
  imports Lib_Specs
begin

text \<open>
  The doubly linked list of \<open>library/util/src/list.c\<close>. The heap has one function per field of
  \<open>list_t\<close>; structures that embed a list node extend the record. A loop over the ring is a partial
  function, since it ends only when it comes back to the root.
\<close>

section \<open>The code\<close>

record list_heap =
  lnext :: "u32 \<Rightarrow> u32"
  lprev :: "u32 \<Rightarrow> u32"

definition set_next :: "u32 \<Rightarrow> u32 \<Rightarrow> 'a list_heap_scheme \<Rightarrow> 'a list_heap_scheme" where
  "set_next p q h = h\<lparr>lnext := (lnext h)(p := q)\<rparr>"

definition set_prev :: "u32 \<Rightarrow> u32 \<Rightarrow> 'a list_heap_scheme \<Rightarrow> 'a list_heap_scheme" where
  "set_prev p q h = h\<lparr>lprev := (lprev h)(p := q)\<rparr>"

definition list_init :: "u32 \<Rightarrow> 'a list_heap_scheme \<Rightarrow> 'a list_heap_scheme" where
  "list_init l h = set_next l l (set_prev l l h)"

definition list_cleanup :: "u32 \<Rightarrow> 'a list_heap_scheme \<Rightarrow> 'a list_heap_scheme" where
  "list_cleanup l h = h"

definition list_add_between :: "u32 \<Rightarrow> u32 \<Rightarrow> u32 \<Rightarrow> 'a list_heap_scheme \<Rightarrow> 'a list_heap_scheme" where
  "list_add_between first second item h =
     set_next first item (set_prev item first (set_next item second (set_prev second item h)))"

partial_function (option) list_find_loop :: "'a list_heap_scheme \<Rightarrow> u32 \<Rightarrow> u32 \<Rightarrow> u32 \<Rightarrow> bool option" where
  "list_find_loop h root item tmp =
     (if tmp \<noteq> root then if tmp = item then Some True else list_find_loop h root item (lnext h tmp)
      else Some False)"

definition list_find :: "u32 \<Rightarrow> u32 \<Rightarrow> 'a list_heap_scheme \<Rightarrow> bool option" where
  "list_find root item h = list_find_loop h root item (lnext h root)"

definition list_add :: "u32 \<Rightarrow> u32 \<Rightarrow> 'a list_heap_scheme \<Rightarrow> 'a list_heap_scheme option" where
  "list_add root item h =
     Option.bind (list_find root item h) (\<lambda>found.
       Some (if found then h else list_add_between root (lnext h root) item h))"

definition list_remove :: "u32 \<Rightarrow> u32 \<Rightarrow> 'a list_heap_scheme \<Rightarrow> 'a list_heap_scheme" where
  "list_remove l item h =
     (let nxt = lnext h item; prv = lprev h item;
          h = set_prev nxt prv h;
          h = set_next prv nxt h
      in set_next item item (set_prev item item h))"

definition list_pop :: "u32 \<Rightarrow> 'a list_heap_scheme \<Rightarrow> u32 \<times> 'a list_heap_scheme" where
  "list_pop root h =
     (let ret = lnext h root in if ret \<noteq> root then (ret, list_remove root ret h) else (0, h))"

definition list_is_empty :: "u32 \<Rightarrow> 'a list_heap_scheme \<Rightarrow> bool" where
  "list_is_empty root h \<longleftrightarrow> lnext h root = root"

partial_function (option) list_size_loop :: "'a list_heap_scheme \<Rightarrow> u32 \<Rightarrow> u32 \<Rightarrow> u32 \<Rightarrow> u32 option" where
  "list_size_loop h root count tmp =
     (if tmp \<noteq> root then list_size_loop h root (count + 1) (lnext h tmp) else Some count)"

definition list_size_get :: "u32 \<Rightarrow> 'a list_heap_scheme \<Rightarrow> u32 option" where
  "list_size_get root h = list_size_loop h root 0 (lnext h root)"

declare list_find_loop.simps [code] list_size_loop.simps [code]

section \<open>Rings\<close>

text \<open>\<open>seg h a xs b\<close>: from \<open>a\<close>, the next pointers lead through \<open>xs\<close> to \<open>b\<close> and the previous pointers
  back. A list is a segment from the root to itself, with no node twice.\<close>

fun seg :: "'a list_heap_scheme \<Rightarrow> u32 \<Rightarrow> u32 list \<Rightarrow> u32 \<Rightarrow> bool" where
  "seg h a [] b \<longleftrightarrow> lnext h a = b \<and> lprev h b = a"
| "seg h a (x # xs) b \<longleftrightarrow> lnext h a = x \<and> lprev h x = a \<and> seg h x xs b"

definition ring :: "'a list_heap_scheme \<Rightarrow> u32 \<Rightarrow> u32 list \<Rightarrow> bool" where
  "ring h root xs \<longleftrightarrow> distinct (root # xs) \<and> seg h root xs root"

lemma set_fields [simp]:
  "lnext (set_next p q h) = (lnext h)(p := q)" "lprev (set_next p q h) = lprev h"
  "lprev (set_prev p q h) = (lprev h)(p := q)" "lnext (set_prev p q h) = lnext h"
  "list_heap.more (set_next p q h) = list_heap.more h" "list_heap.more (set_prev p q h) = list_heap.more h"
  by (simp_all add: set_next_def set_prev_def)

lemma seg_append: "seg h a (xs @ y # ys) b \<longleftrightarrow> seg h a xs y \<and> seg h y ys b"
  by (induction xs arbitrary: a) auto

lemma seg_set_next [simp]: "p \<notin> set (a # xs) \<Longrightarrow> seg (set_next p q h) a xs b \<longleftrightarrow> seg h a xs b"
  by (induction xs arbitrary: a) auto

lemma seg_set_prev [simp]: "p \<notin> set (xs @ [b]) \<Longrightarrow> seg (set_prev p q h) a xs b \<longleftrightarrow> seg h a xs b"
  by (induction xs arbitrary: a) auto

lemma seg_first: "seg h a xs b \<Longrightarrow> lnext h a = hd (xs @ [b])"
  by (cases xs) auto

lemma seg_cong:
  "(\<And>p. p \<in> set (a # xs) \<Longrightarrow> lnext h p = lnext h' p) \<Longrightarrow> (\<And>p. p \<in> set (xs @ [b]) \<Longrightarrow> lprev h p = lprev h' p) \<Longrightarrow>
     seg h a xs b = seg h' a xs b"
  by (induction xs arbitrary: a) auto

lemma seg_snoc: "seg h a (xs @ [y]) b \<longleftrightarrow> seg h a xs y \<and> lnext h y = b \<and> lprev h b = y"
  by (induction xs arbitrary: a) auto

section \<open>Every operation on a ring\<close>

lemma ring_init: "ring (list_init l h) l []"
  by (simp add: ring_def list_init_def)

lemma list_find_seg:
  "seg h a xs root \<Longrightarrow> root \<notin> set xs \<Longrightarrow> item \<noteq> root \<Longrightarrow>
     list_find_loop h root item (lnext h a) = Some (item \<in> set xs)"
proof (induction xs arbitrary: a)
  case (Cons x xs)
  then show ?case by (subst list_find_loop.simps) auto
qed (simp add: list_find_loop.simps)

lemma ring_find: "ring h root xs \<Longrightarrow> item \<noteq> root \<Longrightarrow> list_find root item h = Some (item \<in> set xs)"
  by (simp add: list_find_def ring_def list_find_seg)

lemma list_size_seg:
  "seg h a xs root \<Longrightarrow> root \<notin> set xs \<Longrightarrow>
     list_size_loop h root k (lnext h a) = Some (k + of_nat (length xs))"
proof (induction xs arbitrary: a k)
  case (Cons x xs)
  then show ?case by (subst list_size_loop.simps) (auto simp: add.assoc)
qed (simp add: list_size_loop.simps)

lemma ring_size: "ring h root xs \<Longrightarrow> list_size_get root h = Some (of_nat (length xs))"
  using list_size_seg [of h root xs root 0] by (simp add: list_size_get_def ring_def)

lemma ring_is_empty: "ring h root xs \<Longrightarrow> list_is_empty root h \<longleftrightarrow> xs = []"
  by (cases xs) (auto simp: ring_def list_is_empty_def)

lemma ring_add_between:
  assumes "ring h root xs" "item \<notin> set (root # xs)"
  shows "ring (list_add_between root (lnext h root) item h) root (item # xs)"
proof (cases xs)
  case Nil
  then show ?thesis using assms by (auto simp: ring_def list_add_between_def)
next
  case (Cons y ys)
  then show ?thesis using assms by (auto simp: ring_def list_add_between_def)
qed

lemma ring_add:
  assumes "ring h root xs" "item \<noteq> root"
  shows "\<exists>h'. list_add root item h = Some h' \<and> ring h' root (if item \<in> set xs then xs else item # xs)
    \<and> list_heap.more h' = list_heap.more h"
  using assms ring_add_between [OF assms(1)]
  by (auto simp: list_add_def ring_find) (simp add: list_add_between_def)

lemma ring_remove:
  assumes "ring h root (ys @ x # zs)"
  shows "ring (list_remove root x h) root (ys @ zs)"
proof -
  have d: "distinct (root # ys @ x # zs)" and s: "seg h root ys x" "seg h x zs root"
    using assms by (auto simp: ring_def seg_append)
  have y: "ys = [] \<and> lprev h x = root \<or> (\<exists>us l. ys = us @ [l] \<and> lprev h x = l \<and> lnext h l = x \<and> seg h root us l)"
    using s(1) by (cases ys rule: rev_cases) (auto simp: seg_snoc)
  have z: "zs = [] \<and> lnext h x = root \<or> (\<exists>c vs. zs = c # vs \<and> lnext h x = c \<and> seg h c vs root)"
    using s(2) by (cases zs) auto
  from y z d s show ?thesis
    by (elim disjE conjE exE) (auto simp: ring_def list_remove_def Let_def seg_append seg_snoc)
qed

lemma list_remove_more [simp]: "list_heap.more (list_remove l x h) = list_heap.more h"
  by (simp add: list_remove_def Let_def)

lemma ring_pop:
  "ring h root [] \<Longrightarrow> list_pop root h = (0, h)"
  "ring h root (x # xs) \<Longrightarrow> list_pop root h = (x, list_remove root x h) \<and> ring (list_remove root x h) root xs"
  using ring_remove [of h root "[]" x xs] by (auto simp: list_pop_def ring_def Let_def)

section \<open>The ring as a stack\<close>

text \<open>Adding a new item and popping, with the null pointer of an empty list as no item.\<close>

definition list_pop_opt :: "u32 \<Rightarrow> list_heap \<Rightarrow> (u32 option \<times> list_heap) option" where
  "list_pop_opt root h = (case list_pop root h of (p, h') \<Rightarrow> Some (if p = 0 then None else Some p, h'))"

definition list_of :: "u32 \<Rightarrow> list_heap \<Rightarrow> u32 list \<Rightarrow> bool" where
  "list_of root h xs \<longleftrightarrow> ring h root xs \<and> 0 \<notin> set xs"

interpretation list_stack: stack "list_of root" "\<lambda>h x xs. x \<noteq> 0 \<and> x \<noteq> root \<and> x \<notin> set xs"
  "list_add root" "list_pop_opt root"
proof
  fix h xs x assume "list_of root h xs" "x \<noteq> 0 \<and> x \<noteq> root \<and> x \<notin> set xs"
  then show "\<exists>h'. list_add root x h = Some h' \<and> list_of root h' (x # xs)"
    using ring_add [of h root xs x] by (auto simp: list_of_def)
next
  fix h x xs assume "list_of root h (x # xs)"
  then show "\<exists>h'. list_pop_opt root h = Some (Some x, h') \<and> list_of root h' xs"
    using ring_pop(2) [of h root x xs] by (auto simp: list_of_def list_pop_opt_def)
next
  fix h assume "list_of root h []"
  then show "list_pop_opt root h = Some (None, h)"
    using ring_pop(1) [of h root] by (simp add: list_of_def list_pop_opt_def)
qed

section \<open>Properties\<close>

text \<open>C24: the pointer structure implements a list. On a ring holding \<open>ys @ x # zs\<close>: adding an item
  puts a new one in front and leaves a present one alone; removing \<open>x\<close> gives \<open>ys @ zs\<close>; popping
  returns the first item and the rest; finding and counting return, with membership and the
  length.\<close>

theorem list_refines:
  assumes "ring h root xs" "item \<noteq> root"
  shows "(\<exists>h'. list_add root item h = Some h' \<and> ring h' root (if item \<in> set xs then xs else item # xs))
    \<and> (\<forall>ys zs. xs = ys @ item # zs \<longrightarrow> ring (list_remove root item h) root (ys @ zs))
    \<and> (case xs of [] \<Rightarrow> list_pop root h = (0, h) | y # ys \<Rightarrow>
         fst (list_pop root h) = y \<and> ring (snd (list_pop root h)) root ys)
    \<and> list_find root item h = Some (item \<in> set xs)
    \<and> list_size_get root h = Some (of_nat (length xs)) \<and> list_is_empty root h = (xs = [])"
  using ring_add [OF assms] ring_remove [of h root] ring_pop [of h root] ring_find [OF assms]
    ring_size [OF assms(1)] ring_is_empty [OF assms(1)] assms(1)
  by (cases xs) auto

theorem list_refines_witness:
  "\<exists>h. list_add 0x100 0x300 (list_add_between 0x100 0x100 0x200 (list_init 0x100 \<lparr>lnext = (\<lambda>_. 0), lprev = (\<lambda>_. 0)\<rparr>)) = Some h
    \<and> ring h 0x100 [0x300, 0x200]"
proof -
  let ?h = "list_add_between 0x100 0x100 0x200 (list_init 0x100 \<lparr>lnext = (\<lambda>_. 0), lprev = (\<lambda>_. 0)\<rparr>)"
  have "ring ?h 0x100 [0x200]" by (simp add: ring_def list_add_between_def list_init_def)
  from list_refines [OF this, of "0x300"] show ?thesis by simp
qed

end
