(* ===== verification/Util_Bitset.thy ===== *)
theory Util_Bitset
  imports Sth_Prelude "HOL-Library.Signed_Division"
begin

text \<open>
  The bit set of \<open>library/util/src/bitset.c\<close> and the field and alignment macros of
  \<open>utillib_macros.h\<close>. A set is the record of its size (a C \<open>int\<close>) and its words; the null pointer
  is \<open>None\<close>. The flags of any kind that a program keeps this way are a locale.
\<close>

section \<open>Flag stores\<close>

text \<open>A store of flags: what was put is read back, other flags stay, and a key outside the store is
  never set.\<close>

locale flag_store =
  fixes valid :: "'s \<Rightarrow> 'k \<Rightarrow> bool"
    and get :: "'s \<Rightarrow> 'k \<Rightarrow> bool"
    and put :: "'s \<Rightarrow> 'k \<Rightarrow> bool \<Rightarrow> 's"
  assumes get_put: "get (put s k v) j = (if j = k \<and> valid s k then v else get s j)"
    and valid_put: "valid (put s k v) j = valid s j"
    and get_valid: "get s k \<Longrightarrow> valid s k"
begin

lemma valid_put_all: "valid (fold (\<lambda>k s. put s k v) ks s) j = valid s j"
  by (induction ks arbitrary: s) (simp_all add: valid_put)

lemma get_put_all:
  "get (fold (\<lambda>k s. put s k v) ks s) j = (if j \<in> set ks \<and> valid s j then v else get s j)"
  by (induction ks arbitrary: s) (auto simp: get_put valid_put)

text \<open>Putting in any order gives the same flags, and a flag put last wins.\<close>

lemma put_commute: "k \<noteq> l \<Longrightarrow> get (put (put s k v) l w) = get (put (put s l w) k v)"
  by (rule ext) (simp add: get_put valid_put)

lemma put_put: "get (put (put s k v) k w) = get (put s k w)"
  by (rule ext) (simp add: get_put valid_put)

definition flags :: "'s \<Rightarrow> 'k set" where
  "flags s = {k. get s k}"

lemma flags_put: "valid s k \<Longrightarrow> flags (put s k v) = (if v then insert k (flags s) else flags s - {k})"
  by (auto simp: flags_def get_put)

lemma flags_put_invalid: "\<not> valid s k \<Longrightarrow> flags (put s k v) = flags s"
  by (auto simp: flags_def get_put dest: get_valid)

end

section \<open>Macros\<close>

definition BF_EXTRACT :: "nat \<Rightarrow> u32 \<Rightarrow> u32 \<Rightarrow> u32" where
  "BF_EXTRACT SHIFT MASK val = drop_bit SHIFT val AND MASK"

definition BF_INSERT :: "nat \<Rightarrow> u32 \<Rightarrow> u32 \<Rightarrow> u32 \<Rightarrow> u32" where
  "BF_INSERT SHIFT MASK val newval = (val AND NOT (push_bit SHIFT MASK)) OR push_bit SHIFT newval"

definition ALIGN_UP :: "u32 \<Rightarrow> u32 \<Rightarrow> u32" where
  "ALIGN_UP adr sz = (adr + sz - 1) AND NOT (sz - 1)"

definition ALIGN_DOWN :: "u32 \<Rightarrow> u32 \<Rightarrow> u32" where
  "ALIGN_DOWN adr sz = adr AND NOT (sz - 1)"

lemma BF_EXTRACT_INSERT:
  "SHIFT + n \<le> 32 \<Longrightarrow> MASK = mask n \<Longrightarrow> newval AND NOT MASK = 0 \<Longrightarrow>
     BF_EXTRACT SHIFT MASK (BF_INSERT SHIFT MASK val newval) = newval"
proof (rule bit_word_eqI)
  fix i assume a: "SHIFT + n \<le> 32" "MASK = mask n" "newval AND NOT MASK = 0" "i < LENGTH(32)"
  have "bit newval i \<Longrightarrow> i < n"
  proof -
    assume b: "bit newval i"
    have "\<not> bit (newval AND NOT MASK) i" by (simp add: a(3))
    then show "i < n" using b a(2,4) by (simp add: bit_simps)
  qed
  then show "bit (BF_EXTRACT SHIFT MASK (BF_INSERT SHIFT MASK val newval)) i = bit newval i"
    using a(1,2,4) by (auto simp: BF_EXTRACT_def BF_INSERT_def bit_simps)
qed

lemma ALIGN_pow:
  "ALIGN_DOWN a (2 ^ n) = a AND NOT (mask n)" "ALIGN_UP a (2 ^ n) = (a + mask n) AND NOT (mask n)"
  by (simp_all add: ALIGN_DOWN_def ALIGN_UP_def mask_eq_exp_minus_1 flip: add_diff_eq)

lemma aligned_and_not_mask: "aligned n (a AND NOT (mask n))"
  by (simp add: aligned_def take_bit_eq_mask and.assoc)

lemma ALIGN_aligned: "aligned n (ALIGN_DOWN a (2 ^ n))" "aligned n (ALIGN_UP a (2 ^ n))"
  by (simp_all add: ALIGN_pow aligned_and_not_mask)

lemma and_not_mask_diff: "a AND NOT (mask n) = a - take_bit n (a :: u32)"
proof -
  have "(a AND NOT (mask n)) AND take_bit n a = 0"
    by (rule bit_word_eqI) (auto simp: bit_simps)
  then have "(a AND NOT (mask n)) + take_bit n a = (a AND NOT (mask n)) OR take_bit n a"
    by (simp add: disjunctive_add_eq_or)
  also have "\<dots> = a" by (rule bit_word_eqI) (auto simp: bit_simps)
  finally show ?thesis by (metis add_diff_cancel_right')
qed

lemma unat_and_not_mask: "unat (a AND NOT (mask n) :: u32) = unat a - unat a mod 2 ^ n"
proof -
  have "take_bit n a \<le> a" by (simp add: word_le_nat_alt unat_take_bit_u32)
  then show ?thesis by (simp add: and_not_mask_diff unat_sub unat_take_bit_u32)
qed

section \<open>The bit set\<close>

record bitset =
  bs_size :: u32
  bs_data :: "nat \<Rightarrow> u32"

text \<open>\<open>malloc\<close> returns the initial words of the block, or \<open>None\<close>; \<open>bitset_init\<close> does not clear them.\<close>

definition bitset_init :: "(u32 \<Rightarrow> (nat \<Rightarrow> u32) option) \<Rightarrow> u32 \<Rightarrow> bitset option" where
  "bitset_init malloc sz =
     (let sz = (sz + 31) AND NOT 31
      in map_option (\<lambda>d. \<lparr>bs_size = sz, bs_data = d\<rparr>) (malloc (4 + word_of_int (sint sz sdiv 8))))"

definition bitset_cleanup :: "bitset option \<Rightarrow> bitset option" where
  "bitset_cleanup b = None"

definition bitset_out :: "bitset \<Rightarrow> u32 \<Rightarrow> bool" where
  "bitset_out b n \<longleftrightarrow> sint n < 0 \<or> sint (bs_size b) \<le> sint n"

definition bitset_set :: "bitset \<Rightarrow> u32 \<Rightarrow> bool \<Rightarrow> bitset" where
  "bitset_set b n value =
     (if bitset_out b n then b
      else let index = unat (drop_bit 5 n);
               b1 = push_bit (unat (n AND 31)) 1
           in if value then b\<lparr>bs_data := (bs_data b)(index := bs_data b index OR b1)\<rparr>
              else b\<lparr>bs_data := (bs_data b)(index := bs_data b index AND NOT b1)\<rparr>)"

definition bitset_get :: "bitset \<Rightarrow> u32 \<Rightarrow> bool" where
  "bitset_get b n =
     (if bitset_out b n then False
      else let index = unat (drop_bit 5 n); b1 = push_bit (unat (n AND 31)) 1
           in bs_data b index AND b1 \<noteq> 0)"

fun fill_words :: "nat \<Rightarrow> nat \<Rightarrow> u32 \<Rightarrow> (nat \<Rightarrow> u32) \<Rightarrow> nat \<Rightarrow> u32" where
  "fill_words 0 i v d = d"
| "fill_words (Suc cnt) i v d = fill_words cnt (Suc i) v (d(i := v))"

definition bitset_set_all :: "bitset \<Rightarrow> bool \<Rightarrow> bitset" where
  "bitset_set_all b value =
     (let val = (if value then - 1 else 0);
          cnt = drop_bit 5 (bs_size b)
      in b\<lparr>bs_data := fill_words (unat cnt) 0 val (bs_data b)\<rparr>)"

section \<open>Flags of a bit set\<close>

lemma bs_size_set [simp]: "bs_size (bitset_set b n v) = bs_size b" "bitset_out (bitset_set b n v) m = bitset_out b m"
  by (simp_all add: bitset_set_def bitset_out_def Let_def)

lemma and_push_bit_1: "(w :: u32) AND push_bit k 1 \<noteq> 0 \<longleftrightarrow> bit w k"
  using and_exp_eq_0_iff_not_bit [of w k] by (simp add: push_bit_eq_mult)

lemma and_31: "unat ((n :: u32) AND 31) = unat n mod 32"
proof -
  have "n AND 31 = take_bit 5 n" by (simp add: take_bit_eq_mask mask_eq_exp_minus_1)
  then show ?thesis by (simp add: unat_take_bit_u32)
qed

lemma bitset_get_bit: "bitset_get b n \<longleftrightarrow> \<not> bitset_out b n \<and> bit (bs_data b (unat n div 32)) (unat n mod 32)"
  by (simp add: bitset_get_def Let_def and_push_bit_1 and_31 unat_drop_bit_u32 del: push_bit_eq_mult push_bit_of_1)

lemma div_mod_32_eq: "unat (m :: u32) div 32 = unat n div 32 \<and> unat m mod 32 = unat n mod 32 \<longleftrightarrow> m = n"
  by (metis div_mult_mod_eq word_unat_eq_iff)

lemma bitset_get_set:
  "bitset_get (bitset_set b n v) m = (if m = n \<and> \<not> bitset_out b n then v else bitset_get b m)"
proof -
  have "unat n mod 32 < LENGTH(32)" by simp
  then have b: "bit (w OR 2 ^ (unat n mod 32)) k = (bit w k \<or> k = unat n mod 32)"
    "bit (w AND NOT (2 ^ (unat n mod 32))) k = (bit w k \<and> k \<noteq> unat n mod 32)" if "k < 32" for w :: u32 and k
    using that by (auto simp: bit_simps)
  have "bs_data (bitset_set b n v) = (if bitset_out b n then bs_data b else
      (bs_data b)(unat n div 32 := (if v then bs_data b (unat n div 32) OR push_bit (unat n mod 32) 1
         else bs_data b (unat n div 32) AND NOT (push_bit (unat n mod 32) 1))))"
    by (simp add: bitset_set_def Let_def and_31 unat_drop_bit_u32)
  then show ?thesis
    using div_mod_32_eq [of m n] by (auto simp: bitset_get_bit b)
qed

interpretation bits: flag_store "\<lambda>b n. \<not> bitset_out b n" bitset_get bitset_set
  by unfold_locales (auto simp: bitset_get_set, simp add: bitset_get_bit)

lemma fill_words_apply: "fill_words cnt i v d k = (if i \<le> k \<and> k < i + cnt then v else d k)"
  by (induction cnt arbitrary: i d) auto

lemma bitset_get_set_all:
  assumes "aligned 5 (bs_size b)" "0 \<le> sint (bs_size b)"
  shows "bitset_get (bitset_set_all b v) n \<longleftrightarrow> v \<and> \<not> bitset_out b n"
proof (cases "bitset_out b n")
  case True
  then show ?thesis by (simp add: bitset_get_bit bitset_set_all_def Let_def bitset_out_def)
next
  case False
  then have "sint n < sint (bs_size b)" "0 \<le> sint n" by (simp_all add: bitset_out_def)
  then have "unat n < unat (bs_size b)"
    using assms(2) sint_less_u32 [of n "bs_size b"] by (simp add: sint_nonneg_u32)
  moreover have "unat (bs_size b) mod 32 = 0" using assms(1) by (simp add: aligned_unat)
  ultimately have "unat n div 32 < unat (bs_size b) div 32" by (metis div_le_mono div_mult_mod_eq add_0_right le_neq_implies_less less_imp_le_nat mod_less_divisor mult.commute not_less zero_less_numeral less_mult_imp_div_less)
  then have "bs_data (bitset_set_all b v) (unat n div 32) = (if v then - 1 else 0)"
    by (simp add: bitset_set_all_def Let_def fill_words_apply unat_drop_bit_u32)
  moreover have "bitset_out (bitset_set_all b v) n = bitset_out b n"
    by (simp add: bitset_set_all_def Let_def bitset_out_def)
  ultimately show ?thesis using False by (simp add: bitset_get_bit)
qed

definition bitset_flags :: "bitset \<Rightarrow> u32 set" where
  "bitset_flags b = {n. bitset_get b n}"

definition bitset_range :: "bitset \<Rightarrow> u32 set" where
  "bitset_range b = {n. \<not> bitset_out b n}"

lemma not_31: "(- 32 :: u32) = NOT (mask 5)"
  by (simp add: mask_eq_exp_minus_1)

lemma bitset_init_size:
  assumes "0 \<le> sint sz" "sint sz \<le> 2147483616" "bitset_init malloc sz = Some b"
  shows "aligned 5 (bs_size b)" "0 \<le> sint (bs_size b)" "n \<in> bitset_range b \<longleftrightarrow> unat n < unat (bs_size b)"
    "unat sz \<le> unat (bs_size b)" "unat (bs_size b) < unat sz + 32"
proof -
  have z: "bs_size b = (sz + 31) AND NOT (mask 5)"
    using assms(3) by (auto simp: bitset_init_def Let_def not_31)
  have s: "unat sz < 2147483648" using assms(1) by (simp add: sint_nonneg_u32)
  then have "int (unat sz) \<le> 2147483616" using assms(2) sint_eq_unat [of sz] by simp
  then have l: "unat sz \<le> 2147483616" by linarith
  then have "unat (sz + 31) = unat sz + 31" by (simp add: unat_word_ariths)
  then have u: "unat (bs_size b) = (unat sz + 31) - (unat sz + 31) mod 32"
    by (simp add: z unat_and_not_mask)
  have "(unat sz + 31) mod 32 \<le> 31" by simp
  with u show 4: "unat sz \<le> unat (bs_size b)" and "unat (bs_size b) < unat sz + 32" by linarith+
  have "unat (bs_size b) < 2147483648" using u l by linarith
  then show 2: "0 \<le> sint (bs_size b)" by (simp add: sint_nonneg_u32)
  show "aligned 5 (bs_size b)" by (simp add: z aligned_and_not_mask)
  show "n \<in> bitset_range b \<longleftrightarrow> unat n < unat (bs_size b)"
    using \<open>unat (bs_size b) < 2147483648\<close> sint_less_u32 [of n "bs_size b"]
    by (auto simp: bitset_range_def bitset_out_def not_less not_le sint_nonneg_u32)
qed

section \<open>Properties\<close>

text \<open>C25: the bit set is a set. Setting or clearing any sequence of positions adds them to the set or
  takes them out, positions outside the range being ignored; setting all gives the whole range or
  the empty set; and \<open>bitset_init\<close> makes a range of the size asked for, rounded up to a multiple
  of 32.\<close>

theorem bitset_refines_set:
  assumes "0 \<le> sint sz" "sint sz \<le> 2147483616" "bitset_init malloc sz = Some b0"
    and "bs_size b = bs_size b0"
  shows "bitset_flags (fold (\<lambda>n b. bitset_set b n v) ns b) =
      (if v then bitset_flags b \<union> (set ns \<inter> bitset_range b) else bitset_flags b - set ns)
    \<and> bitset_flags (bitset_set_all b v) = (if v then bitset_range b else {})
    \<and> bitset_range b = {n. unat n < unat (bs_size b)}
    \<and> 32 dvd unat (bs_size b) \<and> unat sz \<le> unat (bs_size b) \<and> unat (bs_size b) < unat sz + 32"
proof -
  note i = bitset_init_size [OF assms(1-3), folded assms(4)]
  have r: "bitset_range b = bitset_range b0" by (simp add: bitset_range_def bitset_out_def assms(4))
  have "bitset_get b n \<Longrightarrow> n \<in> bitset_range b" for n by (simp add: bitset_range_def bitset_get_bit)
  then have "bitset_flags (fold (\<lambda>n b. bitset_set b n v) ns b) =
      (if v then bitset_flags b \<union> (set ns \<inter> bitset_range b) else bitset_flags b - set ns)"
    by (auto simp: bitset_flags_def bits.get_put_all bitset_range_def split: if_splits)
  moreover have "bitset_flags (bitset_set_all b v) = (if v then bitset_range b else {})"
    using bitset_get_set_all [OF i(1,2)] by (auto simp: bitset_flags_def bitset_range_def)
  moreover have "bitset_range b = {n. unat n < unat (bs_size b)}" using i(3) r by blast
  moreover have "32 dvd unat (bs_size b)" using i(1) by (simp add: aligned_unat dvd_eq_mod_eq_0)
  ultimately show ?thesis using i(4,5) by blast
qed

theorem bitset_refines_set_witness:
  "bitset_flags (fold (\<lambda>n b. bitset_set b n True) [3, 40, 200] \<lparr>bs_size = 64, bs_data = (\<lambda>_. 0)\<rparr>) = {3, 40}"
proof -
  let ?b = "\<lparr>bs_size = 64, bs_data = (\<lambda>_. 0)\<rparr> :: bitset"
  have "bitset_init (\<lambda>_. Some (\<lambda>_. 0)) 50 = Some ?b" by (simp add: bitset_init_def Let_def)
  from bitset_refines_set [OF _ _ this refl, of True "[3, 40, 200]"]
  have "bitset_flags (fold (\<lambda>n b. bitset_set b n True) [3, 40, 200] ?b) =
      bitset_flags ?b \<union> ({3, 40, 200} \<inter> bitset_range ?b)" by simp
  moreover have "bitset_flags ?b = {}" by (simp add: bitset_flags_def bitset_get_bit)
  moreover have "{3, 40, 200} \<inter> bitset_range ?b = {3, 40}"
    by (auto simp: bitset_range_def bitset_out_def)
  ultimately show ?thesis by simp
qed

end
