(* ===== verification/Mem_Heap.thy ===== *)
theory Mem_Heap
  imports Util_Bitset Lib_Specs
begin

text \<open>
  The heap allocator of \<open>library/mem/src/heap.c\<close> and the \<open>malloc\<close> and \<open>free\<close> that
  \<open>core/hw/common/hw_core_mem.c\<close> makes of it. The markers are words of the byte memory, read and written
  through their addresses; \<open>heap_marker_t\<close> is eight bytes, \<open>size\<close> at offset 0 and \<open>size_prev\<close> at 4.
\<close>

section \<open>The code\<close>

record heap_ctxt =
  h_size :: u32
  h_end :: u32
  h_user :: u32
  h_memory :: u32

definition HEAP_MASK_TAKEN :: u32 where [simp]: "HEAP_MASK_TAKEN = 1"
definition HEAP_MASK_LAST :: u32 where [simp]: "HEAP_MASK_LAST = 2"
definition HEAP_MASK_FLAGS :: u32 where [simp]: "HEAP_MASK_FLAGS = 3"
definition HEAP_MASK_SIZE :: u32 where [simp]: "HEAP_MASK_SIZE = NOT HEAP_MASK_FLAGS"
definition SIZE_MIN :: u32 where [simp]: "SIZE_MIN = 8"

definition m_size :: "mem \<Rightarrow> u32 \<Rightarrow> u32" where "m_size m mark = load32 m mark"
definition m_size_prev :: "mem \<Rightarrow> u32 \<Rightarrow> u32" where "m_size_prev m mark = load32 m (mark + 4)"
definition set_m_size :: "u32 \<Rightarrow> u32 \<Rightarrow> mem \<Rightarrow> mem" where "set_m_size mark v m = store32 m mark v"
definition set_m_size_prev :: "u32 \<Rightarrow> u32 \<Rightarrow> mem \<Rightarrow> mem" where "set_m_size_prev mark v m = store32 m (mark + 4) v"

definition heap_marker_prev :: "heap_ctxt \<Rightarrow> mem \<Rightarrow> u32 \<Rightarrow> u32" where
  "heap_marker_prev heap m mark =
     (let ret = mark - 8 * 1 - 8 * (m_size_prev m mark div 8)
      in if ret < h_memory heap then 0 else ret)"

definition heap_marker_next :: "mem \<Rightarrow> u32 \<Rightarrow> u32" where
  "heap_marker_next m mark =
     (if m_size m mark AND HEAP_MASK_LAST \<noteq> 0 then 0
      else mark + 8 * 1 + 8 * ((m_size m mark AND HEAP_MASK_SIZE) div 8))"

definition heap_marker_join :: "u32 \<Rightarrow> u32 \<Rightarrow> mem \<Rightarrow> mem" where
  "heap_marker_join m1 m2 m =
     (let nxt = heap_marker_next m m1
      in if m2 \<noteq> nxt then m
         else if (m_size m m1 OR m_size m m2) AND HEAP_MASK_TAKEN \<noteq> 0 then m
         else let m = set_m_size m1 (m_size m m1 + (m_size m m2 AND HEAP_MASK_SIZE) + 8) m;
                  m = set_m_size m1 (m_size m m1 OR (m_size m m2 AND HEAP_MASK_LAST)) m;
                  nxt = heap_marker_next m m1;
                  m = (if nxt \<noteq> 0 then set_m_size_prev nxt (m_size m m1 AND HEAP_MASK_SIZE) m else m)
              in set_m_size m2 (- 1) (set_m_size_prev m2 (- 1) m))"

text \<open>\<open>remain\<close> is an \<open>int\<close>, but \<open>SIZE_MIN\<close> is a \<open>size_t\<close>, so the comparison is unsigned.\<close>

definition heap_marker_split :: "u32 \<Rightarrow> u32 \<Rightarrow> mem \<Rightarrow> u32 \<times> mem" where
  "heap_marker_split mark sz m =
     (let tmp = sz + 8 + mark;
          remain = (m_size m mark AND HEAP_MASK_SIZE) - sz
      in if SIZE_MIN < remain
         then let m = set_m_size tmp ((remain - 8) OR (m_size m mark AND HEAP_MASK_FLAGS)) m;
                  m = set_m_size mark (sz OR (m_size m mark AND HEAP_MASK_TAKEN)) m;
                  m = set_m_size_prev tmp sz m;
                  mark = heap_marker_next m tmp
              in (tmp, if mark \<noteq> 0 then set_m_size_prev mark (m_size m tmp AND HEAP_MASK_SIZE) m else m)
         else (0, m))"

definition heap_init :: "u32 \<Rightarrow> u32 \<Rightarrow> heap_ctxt \<Rightarrow> mem \<Rightarrow> heap_ctxt \<times> mem" where
  "heap_init sz memory heap m =
     (let sz = sz AND NOT 7
      in (heap\<lparr>h_size := sz, h_memory := memory\<rparr>,
          set_m_size_prev memory 0 (set_m_size memory ((sz - 8) OR HEAP_MASK_LAST) m)))"

definition heap_cleanup :: "heap_ctxt \<Rightarrow> heap_ctxt" where
  "heap_cleanup heap = heap"

text \<open>The search for the best block ends when it meets the last marker.\<close>

partial_function (option) heap_best :: "mem \<Rightarrow> u32 \<Rightarrow> u32 \<Rightarrow> u32 \<Rightarrow> u32 option" where
  "heap_best m sz tmp best =
     (if tmp = 0 then Some best
      else let me = m_size m tmp
           in heap_best m sz (heap_marker_next m tmp)
                (if me AND HEAP_MASK_TAKEN = 0 \<and> sz \<le> me AND HEAP_MASK_SIZE
                    \<and> (best = 0 \<or> me AND HEAP_MASK_SIZE < m_size m best AND HEAP_MASK_SIZE)
                 then tmp else best))"

declare heap_best.simps [code]

definition heap_alloc :: "heap_ctxt \<Rightarrow> u32 \<Rightarrow> mem \<Rightarrow> (u32 \<times> mem) option" where
  "heap_alloc heap sz m =
     (if 1 \<le> sint sz
      then let sz = (sz + 7) AND NOT 7
           in Option.bind (heap_best m sz (h_memory heap) 0) (\<lambda>best.
                Some (if best \<noteq> 0
                      then let m = snd (heap_marker_split best sz m);
                               m = set_m_size best (m_size m best OR HEAP_MASK_TAKEN) m
                           in (best + 8, m)
                      else (0, m)))
      else Some (0, m))"

text \<open>The upper bound adds \<open>size\<close> markers, not bytes, to \<open>memory\<close>.\<close>

definition heap_free :: "heap_ctxt \<Rightarrow> u32 \<Rightarrow> mem \<Rightarrow> bool \<times> mem" where
  "heap_free heap adr m =
     (let tmp = adr - 8
      in if tmp < h_memory heap \<or> h_memory heap + 8 * h_size heap \<le> tmp then (False, m)
         else let prv = heap_marker_prev heap m tmp; nxt = heap_marker_next m tmp
              in if (prv \<noteq> 0 \<and> m_size_prev m tmp \<noteq> m_size m prv AND HEAP_MASK_SIZE)
                    \<or> (nxt \<noteq> 0 \<and> m_size_prev m nxt \<noteq> m_size m tmp AND HEAP_MASK_SIZE) then (False, m)
                 else if m_size m tmp AND HEAP_MASK_TAKEN = 0 then (False, m)
                 else let m = set_m_size tmp (m_size m tmp AND NOT HEAP_MASK_TAKEN) m;
                          (tmp, m) = (if prv \<noteq> 0 \<and> m_size m prv AND HEAP_MASK_TAKEN = 0
                                      then (prv, heap_marker_join prv tmp m) else (tmp, m));
                          m = (if nxt \<noteq> 0 \<and> m_size m nxt AND HEAP_MASK_TAKEN = 0
                               then heap_marker_join tmp nxt m else m)
                      in (True, m))"

definition malloc :: "heap_ctxt \<Rightarrow> u32 \<Rightarrow> mem \<Rightarrow> (u32 \<times> mem) option" where
  "malloc heap sz m = heap_alloc heap sz m"

definition free :: "heap_ctxt \<Rightarrow> u32 \<Rightarrow> mem \<Rightarrow> mem" where
  "free heap ptr m = (if ptr \<noteq> 0 then snd (heap_free heap ptr m) else m)"

definition core_mem_init :: "u32 \<Rightarrow> u32 \<Rightarrow> heap_ctxt \<Rightarrow> mem \<Rightarrow> heap_ctxt \<times> mem" where
  "core_mem_init start lim heap m = heap_init (lim - start - 1) start heap m"

section \<open>Markers by index\<close>

text \<open>Markers lie at multiples of eight bytes from the base of the heap, so a marker is given by its
  index. The index space is the number of units of eight bytes in the address space.\<close>

definition mk :: "u32 \<Rightarrow> nat \<Rightarrow> u32" where
  "mk b u = b + 8 * of_nat u"

lemma mk_0 [simp]: "mk b 0 = b"
  by (simp add: mk_def)

lemma mk_add: "mk b (u + n) = mk b u + 8 * of_nat n"
  by (simp add: mk_def algebra_simps)

lemma unat_8_mult: "u < 536870912 \<Longrightarrow> unat (8 * of_nat u :: u32) = 8 * u"
  using unat_of_nat_u32 [of "8 * u"] by simp

lemma mk_eq_iff:
  assumes "u < 536870912" "v < 536870912"
  shows "mk b u = mk b v \<longleftrightarrow> u = v"
proof
  assume "mk b u = mk b v"
  then have "unat (8 * of_nat u :: u32) = unat (8 * of_nat v :: u32)" by (simp add: mk_def)
  then show "u = v" unfolding unat_8_mult [OF assms(1)] unat_8_mult [OF assms(2)] by presburger
qed simp

lemma mk_4_neq: "u < 536870912 \<Longrightarrow> v < 536870912 \<Longrightarrow> mk b u \<noteq> mk b v + 4"
proof
  assume u: "u < 536870912" "v < 536870912" and e: "mk b u = mk b v + 4"
  then have "8 * of_nat u = (8 * of_nat v + 4 :: u32)" by (simp add: mk_def)
  moreover have "unat (8 * of_nat v + 4 :: u32) = 8 * v + 4"
    using unat_of_nat_u32 [of "8 * v + 4"] u by simp
  ultimately have "8 * u = 8 * v + 4" using unat_8_mult [OF u(1)] by simp
  then show False by presburger
qed

lemma aligned_mk: "aligned 2 b \<Longrightarrow> aligned 2 (mk b u)" "aligned 2 b \<Longrightarrow> aligned 2 (mk b u + 4)"
proof -
  have "aligned 2 (8 * of_nat u :: u32)" by (intro aligned_mult) (simp add: aligned_def)
  moreover have "aligned 2 (4 :: u32)" by (simp add: aligned_def)
  ultimately show "aligned 2 b \<Longrightarrow> aligned 2 (mk b u)" "aligned 2 b \<Longrightarrow> aligned 2 (mk b u + 4)"
    unfolding mk_def by (blast intro: aligned_add)+
qed

lemma m_size_set:
  assumes "aligned 2 b" "u < 536870912" "v < 536870912"
  shows "m_size (set_m_size (mk b u) x m) (mk b v) = (if u = v then x else m_size m (mk b v))"
    and "m_size (set_m_size_prev (mk b u) x m) (mk b v) = m_size m (mk b v)"
    and "m_size_prev (set_m_size (mk b u) x m) (mk b v) = m_size_prev m (mk b v)"
    and "m_size_prev (set_m_size_prev (mk b u) x m) (mk b v) = (if u = v then x else m_size_prev m (mk b v))"
  using assms by (auto simp: m_size_def m_size_prev_def set_m_size_def set_m_size_prev_def mem_simps
      aligned_mk mk_eq_iff mk_4_neq mk_4_neq [symmetric])

text \<open>The first word of a marker: the size of its block in bytes and two flags.\<close>

definition hdr :: "nat \<Rightarrow> bool \<Rightarrow> bool \<Rightarrow> u32" where
  "hdr n t l = 8 * of_nat n OR (of_bool t OR (if l then 2 else 0))"

lemma aligned_8_mult: "aligned 2 (8 * x :: u32)"
  by (intro aligned_mult) (simp add: aligned_def)

lemma hdr_low: "take_bit 2 (of_bool t OR (if l then 2 else 0) :: u32) = of_bool t OR (if l then 2 else 0)"
  by (cases t; cases l) (simp_all add: take_bit_or)

lemma and_8_mult_low: "take_bit 2 k = k \<Longrightarrow> (8 * x :: u32) AND k = 0"
  by (rule aligned_and_low [OF aligned_8_mult])

lemma hdr_size [simp]: "hdr n t l AND (- 4) = 8 * of_nat n"
  using aligned_or_high [OF aligned_8_mult hdr_low] by (simp add: hdr_def mask_eq_exp_minus_1)

lemma hdr_flags:
  "hdr n t l AND 3 = of_bool t OR (if l then 2 else 0)"
  "hdr n t l AND 1 = of_bool t"
  "hdr n t l AND 2 = (if l then 2 else 0)"
  by (cases t; cases l; simp add: hdr_def word_ao_dist and_8_mult_low take_bit_eq_mask mask_eq_exp_minus_1)+

lemma hdr_taken [simp]: "hdr n t l OR 1 = hdr n True l"
  by (cases t; cases l) (simp_all add: hdr_def or.assoc)

lemma hdr_untaken [simp]: "hdr n t l AND - 2 = hdr n False l"
proof -
  have "(8 * x :: u32) AND - 2 = 8 * x" for x
    by (rule aligned_and_keep [OF aligned_8_mult]) simp
  then show ?thesis by (cases t; cases l) (simp_all add: hdr_def word_ao_dist)
qed

lemma hdr_split:
  "8 * of_nat k OR (hdr n t l AND 3) = hdr k t l"
  "8 * of_nat k OR (hdr n t l AND 1) = hdr k t False"
  unfolding hdr_flags by (simp_all add: hdr_def)

lemma hdr_join: "hdr n False False + 8 * of_nat k + 8 = hdr (n + k + 1) False False"
  by (simp add: hdr_def algebra_simps)

lemma hdr_join_last: "hdr n False False OR (hdr k t l AND 2) = hdr n False l"
  unfolding hdr_flags by (simp add: hdr_def)

section \<open>The chain of blocks\<close>

text \<open>Blocks are given by their size in units and whether they are taken. \<open>chain b m u p bs e\<close>: from marker
  \<open>u\<close> on the memory holds the markers of \<open>bs\<close>, the first with previous size \<open>p\<close>; the last of them is
  flagged as the last of the heap when \<open>e\<close>.\<close>

type_synonym block = "nat \<times> bool"

fun chain :: "u32 \<Rightarrow> mem \<Rightarrow> nat \<Rightarrow> nat \<Rightarrow> block list \<Rightarrow> bool \<Rightarrow> bool" where
  "chain b m u p [] e \<longleftrightarrow> True"
| "chain b m u p ((n, t) # bs) e \<longleftrightarrow>
     m_size m (mk b u) = hdr n t (e \<and> bs = []) \<and> m_size_prev m (mk b u) = 8 * of_nat p
     \<and> chain b m (u + 1 + n) n bs e"

fun units :: "block list \<Rightarrow> nat" where
  "units [] = 0"
| "units ((n, t) # bs) = Suc n + units bs"

fun last_size :: "nat \<Rightarrow> block list \<Rightarrow> nat" where
  "last_size p [] = p"
| "last_size p ((n, t) # bs) = last_size n bs"

lemma units_append [simp]: "units (xs @ ys) = units xs + units ys"
  by (induction xs rule: units.induct) auto

lemma last_size_append [simp]: "last_size p (xs @ ys) = last_size (last_size p xs) ys"
  by (induction p xs rule: last_size.induct) auto

lemma chain_append:
  "chain b m u p (xs @ ys) e \<longleftrightarrow> chain b m u p xs (e \<and> ys = []) \<and> chain b m (u + units xs) (last_size p xs) ys e"
  by (induction b m u p xs e rule: chain.induct) (auto simp: add_ac conj_comms)

text \<open>Blocks are untouched by writes to markers before or after them.\<close>

lemma chain_set:
  assumes "aligned 2 b" "u + units bs < 536870912" "v < 536870912" "v < u \<or> u + units bs \<le> v"
  shows "chain b (set_m_size (mk b v) x m) u p bs e \<longleftrightarrow> chain b m u p bs e"
    and "chain b (set_m_size_prev (mk b v) x m) u p bs e \<longleftrightarrow> chain b m u p bs e"
proof -
  show "chain b (set_m_size (mk b v) x m) u p bs e \<longleftrightarrow> chain b m u p bs e"
    using assms(2,4)
  proof (induction bs arbitrary: u p)
    case (Cons c bs)
    then show ?case using assms(1,3) by (cases c) (auto simp: m_size_set)
  qed simp
  show "chain b (set_m_size_prev (mk b v) x m) u p bs e \<longleftrightarrow> chain b m u p bs e"
    using assms(2,4)
  proof (induction bs arbitrary: u p)
    case (Cons c bs)
    then show ?case using assms(1,3) by (cases c) (auto simp: m_size_set)
  qed simp
qed

lemma div_8: "n < 536870912 \<Longrightarrow> (8 * of_nat n :: u32) div 8 = of_nat n"
  by (simp add: word_unat_eq_iff unat_div unat_8_mult)

lemma next_hdr:
  assumes "m_size m (mk b u) = hdr n t l" "n < 536870912"
  shows "heap_marker_next m (mk b u) = (if l then 0 else mk b (u + 1 + n))"
  using assms by (simp add: heap_marker_next_def hdr_flags div_8 mk_add [of b "u + 1" n, simplified] mk_add [of b u 1, simplified])

lemma unat_mk: "unat b + 8 * u < 4294967296 \<Longrightarrow> unat (mk b u) = unat b + 8 * u"
  using unat_of_nat_u32 [of "unat b + 8 * u"] by (simp add: mk_def del: unat_of_nat_u32)

lemma prev_hdr:
  assumes "m_size_prev m (mk b u) = 8 * of_nat p" "u = 0 \<and> p = 0 \<or> p < u"
    and "8 \<le> unat b" "unat b + 8 * u < 4294967296" "h_memory heap = b"
  shows "heap_marker_prev heap m (mk b u) = (if u = 0 then 0 else mk b (u - 1 - p))"
proof -
  have p: "p < 536870912" using assms(2,4) by auto
  have e: "heap_marker_prev heap m (mk b u) = (let ret = mk b u - 8 - 8 * of_nat p in if ret < b then 0 else ret)"
    using assms(1,5) p by (simp add: heap_marker_prev_def div_8)
  show ?thesis
  proof (cases "u = 0")
    case True
    have "unat (b - 8) = unat b - 8" using assms(3) by (simp add: unat_sub word_le_nat_alt)
    then have "b - 8 < b" using assms(3) by (simp add: word_less_nat_alt)
    then show ?thesis using True assms(2) e by simp
  next
    case False
    then have u: "u = (u - 1 - p) + p + 1" using assms(2) by simp
    have "mk b u - 8 - 8 * of_nat p = mk b (u - 1 - p)"
      by (subst u) (simp add: mk_def algebra_simps)
    moreover have "unat (mk b (u - 1 - p)) = unat b + 8 * (u - 1 - p)"
      using assms(4) by (intro unat_mk) auto
    ultimately show ?thesis using e False by (simp add: word_less_nat_alt)
  qed
qed

text \<open>What a write to a marker may change.\<close>

definition writes :: "u32 \<Rightarrow> nat set \<Rightarrow> mem \<Rightarrow> mem \<Rightarrow> bool" where
  "writes b U m m' \<longleftrightarrow> (\<forall>a. m' a \<noteq> m a \<longrightarrow> (\<exists>u\<in>U. a - mk b u < 8))"

lemma writes_refl [intro, simp]: "writes b U m m"
  by (simp add: writes_def)

lemma writes_trans: "writes b U m m1 \<Longrightarrow> writes b U m1 m2 \<Longrightarrow> writes b U m m2"
  unfolding writes_def by metis

lemma writes_mono: "writes b U m m' \<Longrightarrow> U \<subseteq> V \<Longrightarrow> writes b V m m'"
  unfolding writes_def by blast

lemma writes_set:
  assumes "u \<in> U"
  shows "writes b U m (set_m_size (mk b u) x m)" and "writes b U m (set_m_size_prev (mk b u) x m)"
proof -
  have "a - mk b u < 8" if "store32 m (mk b u) x a \<noteq> m a" for a
  proof -
    have "a - mk b u < 4" using that store32_outside by blast
    then show ?thesis by (rule order.strict_trans) simp
  qed
  then show "writes b U m (set_m_size (mk b u) x m)" using assms by (auto simp: writes_def set_m_size_def)
  have "a - mk b u < 8" if "store32 m (mk b u + 4) x a \<noteq> m a" for a
  proof -
    have "unat (a - (mk b u + 4)) < 4" using that store32_outside [of a "mk b u + 4"] by (auto simp: word_less_nat_alt)
    then have "unat (a - (mk b u + 4) + 4) < 8" by (subst unat_add_lem [THEN iffD1]) auto
    moreover have "a - (mk b u + 4) + 4 = a - mk b u" by simp
    ultimately show ?thesis by (simp only: word_less_nat_alt) simp
  qed
  then show "writes b U m (set_m_size_prev (mk b u) x m)" using assms by (auto simp: writes_def set_m_size_prev_def)
qed

lemma writes_set_trans:
  assumes "writes b U m m1" "u \<in> U"
  shows "writes b U m (set_m_size (mk b u) x m1)" and "writes b U m (set_m_size_prev (mk b u) x m1)"
  using writes_trans [OF assms(1)] writes_set [OF assms(2)] by blast+

section \<open>Joining and splitting blocks\<close>

text \<open>The mark that a joined block leaves behind.\<close>

definition spoilt :: "u32 \<Rightarrow> mem \<Rightarrow> nat \<Rightarrow> bool" where
  "spoilt b m v \<longleftrightarrow> m_size m (mk b v) = - 1 \<and> m_size_prev m (mk b v) = - 1"

lemma join_chain:
  assumes "aligned 2 b" "unat b + 8 * units (xs @ (n, False) # (k, False) # ys) < 4294967296" "8 \<le> unat b"
    and c: "chain b m 0 0 (xs @ (n, False) # (k, False) # ys) True"
    and u: "u = units xs"
  shows "chain b (heap_marker_join (mk b u) (mk b (u + 1 + n)) m) 0 0 (xs @ (n + k + 1, False) # ys) True
    \<and> writes b {u..u + 1 + n + 1 + k} m (heap_marker_join (mk b u) (mk b (u + 1 + n)) m)
    \<and> spoilt b (heap_marker_join (mk b u) (mk b (u + 1 + n)) m) (u + 1 + n)
    \<and> (\<forall>v. v < 536870912 \<longrightarrow> u < v \<longrightarrow> v < u + 1 + n \<longrightarrow> spoilt b m v
        \<longrightarrow> spoilt b (heap_marker_join (mk b u) (mk b (u + 1 + n)) m) v)"
proof -
  let ?v = "u + 1 + n" and ?w = "u + 1 + n + 1 + k"
  have bnd: "?w + units ys < 536870912" using assms(2,3) by (simp add: u)
  have ch: "chain b m 0 0 xs False" "m_size m (mk b u) = hdr n False False"
    "m_size_prev m (mk b u) = 8 * of_nat (last_size 0 xs)" "m_size m (mk b ?v) = hdr k False (ys = [])"
    "chain b m ?w k ys True"
    using c by (simp_all add: chain_append u add_ac)
  have nx: "heap_marker_next m (mk b u) = mk b ?v" using next_hdr [OF ch(2)] bnd by simp
  define m2 where "m2 = set_m_size (mk b u) (hdr (n + k + 1) False (ys = [])) m"
  have s2: "m_size m2 (mk b u) = hdr (n + k + 1) False (ys = [])" using assms(1) bnd by (simp add: m2_def m_size_set)
  have j: "set_m_size (mk b u) (m_size (set_m_size (mk b u) (hdr (n + k + 1) False False) m) (mk b u)
      OR (m_size (set_m_size (mk b u) (hdr (n + k + 1) False False) m) (mk b ?v) AND 2))
      (set_m_size (mk b u) (hdr (n + k + 1) False False) m) = m2"
  proof -
    have "set_m_size a x (set_m_size a y m) = set_m_size a x m" for a x y
      by (simp add: set_m_size_def store32_def fun_eq_iff)
    then show ?thesis using assms(1) bnd ch by (simp add: m_size_set hdr_join_last m2_def)
  qed
  have nx2: "heap_marker_next m2 (mk b u) = (if ys = [] then 0 else mk b ?w)"
    using next_hdr [OF s2] bnd by (simp add: add_ac)
  have w0: "mk b ?w \<noteq> 0" using unat_mk [of b ?w] assms(2,3) by (auto simp: u)
  define m3 where "m3 = (if ys = [] then m2 else set_m_size_prev (mk b ?w) (8 * of_nat (n + k + 1)) m2)"
  have e: "heap_marker_join (mk b u) (mk b ?v) m = set_m_size (mk b ?v) (- 1) (set_m_size_prev (mk b ?v) (- 1) m3)"
    using j nx2 w0 s2 nx ch by (simp add: heap_marker_join_def Let_def hdr_flags hdr_join m3_def word_ao_dist)
  have "chain b m2 ?w k ys True" using ch(5) assms(1) bnd by (simp add: m2_def chain_set)
  then have "chain b m3 ?w (n + k + 1) ys True"
    using assms(1) bnd by (cases ys rule: units.cases) (auto simp: m3_def m_size_set chain_set)
  moreover have "chain b m3 0 0 xs False"
    using ch(1) assms(1) bnd by (simp add: m3_def m2_def chain_set u)
  moreover have "m_size m3 (mk b u) = hdr (n + k + 1) False (ys = [])" "m_size_prev m3 (mk b u) = 8 * of_nat (last_size 0 xs)"
    using s2 ch(3) assms(1) bnd by (simp_all add: m3_def m2_def m_size_set)
  ultimately have "chain b (heap_marker_join (mk b u) (mk b ?v) m) 0 0 (xs @ (n + k + 1, False) # ys) True"
    unfolding e using assms(1) bnd by (simp add: chain_append chain_set m_size_set u add_ac)
  moreover have "writes b {u..?w} m (heap_marker_join (mk b u) (mk b ?v) m)"
  proof -
    have U: "u \<in> {u..?w}" "?v \<in> {u..?w}" "?w \<in> {u..?w}" by auto
    have w2: "writes b {u..?w} m m2" unfolding m2_def by (rule writes_set(1) [OF U(1)])
    have "writes b {u..?w} m m3"
      unfolding m3_def using w2 writes_set_trans(2) [OF w2 U(3)] by (cases "ys = []") (simp_all only: if_True if_False simp_thms)
    then show ?thesis unfolding e by (intro writes_set_trans U(2))
  qed
  moreover have "spoilt b (heap_marker_join (mk b u) (mk b ?v) m) ?v"
    unfolding e using assms(1) bnd by (simp add: spoilt_def m_size_set)
  moreover have "spoilt b (heap_marker_join (mk b u) (mk b ?v) m) v"
    if "v < 536870912" "u < v" "v < ?v" "spoilt b m v" for v
    unfolding e using assms(1) bnd that by (simp add: spoilt_def m_size_set m3_def m2_def)
  ultimately show ?thesis by blast
qed

text \<open>Splitting a free block of \<open>n\<close> units so that \<open>k\<close> remain in it: nothing happens when no block
  of at least one unit would be left.\<close>

definition split_block :: "nat \<Rightarrow> nat \<Rightarrow> block list" where
  "split_block n k = (if Suc k < n then [(k, False), (n - k - 1, False)] else [(n, False)])"

lemma diff_8: "k \<le> n \<Longrightarrow> 8 * of_nat n - 8 * of_nat k = (8 * of_nat (n - k) :: u32)"
  by (simp add: of_nat_diff algebra_simps)

lemma split_chain:
  assumes "aligned 2 b" "unat b + 8 * units (xs @ (n, False) # ys) < 4294967296" "8 \<le> unat b"
    and c: "chain b m 0 0 (xs @ (n, False) # ys) True"
    and u: "u = units xs" and k: "k \<le> n"
  shows "chain b (snd (heap_marker_split (mk b u) (8 * of_nat k) m)) 0 0 (xs @ split_block n k @ ys) True
    \<and> writes b {u..u + 1 + n} m (snd (heap_marker_split (mk b u) (8 * of_nat k) m))"
proof -
  let ?v = "u + 1 + k" and ?w = "u + 1 + n"
  have bnd: "?w + units ys < 536870912" using assms(2,3) by (simp add: u)
  have ch: "chain b m 0 0 xs False" "m_size m (mk b u) = hdr n False (ys = [])"
    "m_size_prev m (mk b u) = 8 * of_nat (last_size 0 xs)" "chain b m ?w n ys True"
    using c by (simp_all add: chain_append u add_ac)
  have tmp: "8 * of_nat k + 8 + mk b u = mk b ?v" by (simp add: mk_def algebra_simps)
  have rem: "(m_size m (mk b u) AND HEAP_MASK_SIZE) - 8 * of_nat k = 8 * of_nat (n - k)"
    unfolding diff_8 [OF k, symmetric] by (simp add: ch(2))
  have un: "unat (8 * of_nat (n - k) :: u32) = 8 * (n - k)"
    by (rule unat_8_mult) (use bnd in linarith)
  have cond: "SIZE_MIN < 8 * of_nat (n - k) \<longleftrightarrow> Suc k < n"
    unfolding SIZE_MIN_def word_less_nat_alt un by simp arith
  show ?thesis
  proof (cases "Suc k < n")
    case False
    then have "snd (heap_marker_split (mk b u) (8 * of_nat k) m) = m"
      unfolding heap_marker_split_def Let_def tmp rem using cond by simp
    then show ?thesis using c False by (simp add: split_block_def)
  next
    case True
    have r8: "8 * of_nat (n - k) - 8 = (8 * of_nat (n - k - 1) :: u32)"
      using True diff_8 [of 1 "n - k"] by simp
    define m1 where "m1 = set_m_size (mk b ?v) (hdr (n - k - 1) False (ys = [])) m"
    define m2 where "m2 = set_m_size (mk b u) (hdr k False False) m1"
    define m3 where "m3 = set_m_size_prev (mk b ?v) (8 * of_nat k) m2"
    have v: "?v < 536870912" "u < 536870912" "u \<noteq> ?v" "?w < 536870912" using bnd k by auto
    have s3: "m_size m3 (mk b ?v) = hdr (n - k - 1) False (ys = [])" "m_size m3 (mk b u) = hdr k False False"
      "m_size_prev m3 (mk b ?v) = 8 * of_nat k" "m_size_prev m3 (mk b u) = 8 * of_nat (last_size 0 xs)"
      using assms(1) v ch(3) by (simp_all add: m1_def m2_def m3_def m_size_set)
    have s1: "m_size m1 (mk b u) = hdr n False (ys = [])" using assms(1) v ch(2) by (simp add: m1_def m_size_set)
    have vw: "?v + 1 + (n - k - 1) = ?w" using True by simp
    have nx: "heap_marker_next m3 (mk b ?v) = (if ys = [] then 0 else mk b ?w)"
      using next_hdr [OF s3(1)] v unfolding vw by simp
    have w0: "mk b ?w \<noteq> 0" using unat_mk [of b ?w] assms(2,3) by (auto simp: u)
    define m4 where "m4 = (if ys = [] then m3 else set_m_size_prev (mk b ?w) (8 * of_nat (n - k - 1)) m3)"
    have e: "snd (heap_marker_split (mk b u) (8 * of_nat k) m) = m4"
      unfolding heap_marker_split_def Let_def tmp rem r8
      unfolding ch(2) HEAP_MASK_FLAGS_def HEAP_MASK_TAKEN_def hdr_split m1_def [symmetric]
      unfolding s1 hdr_split m2_def [symmetric] m3_def [symmetric] nx s3(1) cond
      using True w0 by (simp add: m4_def)
    have "chain b m3 ?w n ys True" using ch(4) assms(1) bnd True by (simp add: m1_def m2_def m3_def chain_set)
    then have "chain b m4 ?w (n - k - 1) ys True"
      using assms(1) bnd by (cases ys rule: units.cases) (auto simp: m4_def m_size_set chain_set)
    moreover have "chain b m4 0 0 xs False"
      using ch(1) assms(1) v by (simp add: m4_def m3_def m2_def m1_def chain_set u)
    moreover have "m_size m4 (mk b ?v) = hdr (n - k - 1) False (ys = [])" "m_size m4 (mk b u) = hdr k False False"
      "m_size_prev m4 (mk b ?v) = 8 * of_nat k" "m_size_prev m4 (mk b u) = 8 * of_nat (last_size 0 xs)"
      using s3 assms(1) v True by (simp_all add: m4_def m_size_set)
    ultimately have "chain b m4 0 0 (xs @ split_block n k @ ys) True"
      unfolding chain_append split_block_def using True vw by (simp add: u add_ac)
    moreover have "writes b {u..?w} m m1" "writes b {u..?w} m1 m2" "writes b {u..?w} m2 m3" "writes b {u..?w} m3 m4"
      using k by (auto simp: m1_def m2_def m3_def m4_def intro!: writes_set)
    then have "writes b {u..?w} m m4" by (blast intro: writes_trans)
    ultimately show ?thesis by (simp add: e)
  qed
qed

lemma flag_chain:
  assumes "aligned 2 b" "unat b + 8 * units (xs @ (n, t) # ys) < 4294967296"
    and c: "chain b m 0 0 (xs @ (n, t) # ys) True" and u: "u = units xs"
  shows "chain b (set_m_size (mk b u) (m_size m (mk b u) OR 1) m) 0 0 (xs @ (n, True) # ys) True"
    and "chain b (set_m_size (mk b u) (m_size m (mk b u) AND NOT 1) m) 0 0 (xs @ (n, False) # ys) True"
proof -
  have bnd: "u + 1 + n + units ys < 536870912" using assms(2) by (simp add: u)
  have h: "m_size m (mk b (units xs)) = hdr n t (ys = [])" using c by (simp add: chain_append)
  show "chain b (set_m_size (mk b u) (m_size m (mk b u) OR 1) m) 0 0 (xs @ (n, True) # ys) True"
    "chain b (set_m_size (mk b u) (m_size m (mk b u) AND NOT 1) m) 0 0 (xs @ (n, False) # ys) True"
    using c assms(1) bnd by (simp_all add: chain_append chain_set m_size_set u h)
qed

section \<open>The best block\<close>

text \<open>The search in terms of blocks: the smallest free block that is large enough, the first of those.\<close>

fun pick :: "nat \<Rightarrow> nat \<Rightarrow> block list \<Rightarrow> (nat \<times> nat) option \<Rightarrow> (nat \<times> nat) option" where
  "pick need u [] best = best"
| "pick need u ((n, t) # bs) best =
     pick need (u + 1 + n) bs
       (if \<not> t \<and> need \<le> n \<and> (case best of None \<Rightarrow> True | Some (v, k) \<Rightarrow> n < k) then Some (u, n) else best)"

definition fits_in :: "nat \<Rightarrow> block list \<Rightarrow> nat \<Rightarrow> nat \<Rightarrow> bool" where
  "fits_in need bs u n \<longleftrightarrow> (\<exists>xs ys. bs = xs @ (n, False) # ys \<and> u = units xs) \<and> need \<le> n
     \<and> (\<forall>k. (k, False) \<in> set bs \<longrightarrow> need \<le> k \<longrightarrow> n \<le> k)"

lemma pick_fits:
  assumes "pick need (units xs) ys best = r"
    and "case best of None \<Rightarrow> \<forall>k. (k, False) \<in> set xs \<longrightarrow> k < need | Some (u, n) \<Rightarrow> fits_in need xs u n"
  shows "case r of None \<Rightarrow> \<forall>k. (k, False) \<in> set (xs @ ys) \<longrightarrow> k < need | Some (u, n) \<Rightarrow> fits_in need (xs @ ys) u n"
  using assms
proof (induction ys arbitrary: xs best)
  case (Cons c ys)
  obtain n t where c: "c = (n, t)" by (cases c)
  define best' where "best' = (if \<not> t \<and> need \<le> n \<and> (case best of None \<Rightarrow> True | Some (v, k) \<Rightarrow> n < k)
    then Some (units xs, n) else best)"
  have keep: "fits_in need (xs @ [(n, t)]) v k" if p: "fits_in need xs v k" "t \<or> n < need \<or> k \<le> n" for v k
  proof -
    obtain as bs where "xs = as @ (k, False) # bs" "v = units as" using p(1) by (auto simp: fits_in_def)
    then have "xs @ [(n, t)] = as @ (k, False) # (bs @ [(n, t)])" "v = units as" by simp_all
    then show ?thesis using p by (auto simp: fits_in_def)
  qed
  have new: "fits_in need (xs @ [(n, False)]) (units xs) n"
    if "need \<le> n" "\<forall>k. (k, False) \<in> set xs \<longrightarrow> need \<le> k \<longrightarrow> n \<le> k"
    using that by (auto simp: fits_in_def)
  have "pick need (units (xs @ [(n, t)])) ys best' = r" using Cons.prems(1) by (simp add: c best'_def)
  moreover have "case best' of None \<Rightarrow> \<forall>k. (k, False) \<in> set (xs @ [(n, t)]) \<longrightarrow> k < need
      | Some (u, n') \<Rightarrow> fits_in need (xs @ [(n, t)]) u n'"
  proof (cases best)
    case None
    then show ?thesis using Cons.prems(2) new by (auto simp: best'_def split: option.splits) (meson not_le)+
  next
    case (Some vk)
    then obtain v k where vk: "best = Some (v, k)" "fits_in need xs v k" using Cons.prems(2) by (cases vk) auto
    show ?thesis
    proof (cases "\<not> t \<and> need \<le> n \<and> n < k")
      case True
      then show ?thesis using vk new by (force simp: best'_def fits_in_def [of need xs])
    next
      case False
      then show ?thesis using vk keep [OF vk(2)] by (auto simp: best'_def)
    qed
  qed
  ultimately show ?case using Cons.IH [of "xs @ [(n, t)]" best']
    by (auto simp: c split: option.splits)
next
  case Nil
  then show ?case by (cases r) auto
qed

definition at_best :: "u32 \<Rightarrow> (nat \<times> nat) option \<Rightarrow> u32" where
  "at_best b best = (case best of None \<Rightarrow> 0 | Some (v, k) \<Rightarrow> mk b v)"

definition best_ok :: "u32 \<Rightarrow> mem \<Rightarrow> (nat \<times> nat) option \<Rightarrow> bool" where
  "best_ok b m best = (case best of None \<Rightarrow> True
     | Some (v, k) \<Rightarrow> mk b v \<noteq> 0 \<and> m_size m (mk b v) AND (- 4) = 8 * of_nat k \<and> k < 536870912)"

lemma less_8_mult:
  "n < 536870912 \<Longrightarrow> k < 536870912 \<Longrightarrow> (8 * of_nat n :: u32) < 8 * of_nat k \<longleftrightarrow> n < k"
  "n < 536870912 \<Longrightarrow> k < 536870912 \<Longrightarrow> (8 * of_nat n :: u32) \<le> 8 * of_nat k \<longleftrightarrow> n \<le> k"
  by (simp_all only: word_less_nat_alt word_le_nat_alt unat_8_mult) simp_all

lemma heap_best_pick:
  assumes "chain b m u p bs True" "8 \<le> unat b" "unat b + 8 * (u + units bs) < 4294967296"
    and "best_ok b m best" "need < 536870912"
  shows "heap_best m (8 * of_nat need) (if bs = [] then 0 else mk b u) (at_best b best)
    = Some (at_best b (pick need u bs best))"
  using assms
proof (induction bs arbitrary: u p best)
  case Nil
  then show ?case by (simp add: heap_best.simps)
next
  case (Cons c bs)
  obtain n t where c: "c = (n, t)" by (cases c)
  have h: "m_size m (mk b u) = hdr n t (bs = [])" "chain b m (u + 1 + n) n bs True"
    using Cons.prems(1) by (simp_all add: c)
  have n: "n < 536870912" using Cons.prems(3) by (simp add: c)
  have u0: "mk b u \<noteq> 0" using unat_mk [of b u] Cons.prems(2,3) by (auto simp: c)
  have nx: "heap_marker_next m (mk b u) = (if bs = [] then 0 else mk b (u + 1 + n))"
    using next_hdr [OF h(1) n] by simp
  define best' where "best' = (if \<not> t \<and> need \<le> n \<and> (case best of None \<Rightarrow> True | Some (v, k) \<Rightarrow> n < k)
    then Some (u, n) else best)"
  have step: "(if m_size m (mk b u) AND HEAP_MASK_TAKEN = 0 \<and> 8 * of_nat need \<le> m_size m (mk b u) AND HEAP_MASK_SIZE
      \<and> (at_best b best = 0 \<or> m_size m (mk b u) AND HEAP_MASK_SIZE < m_size m (at_best b best) AND HEAP_MASK_SIZE)
      then mk b u else at_best b best) = at_best b best'"
    using Cons.prems(4) n assms(5)
    by (auto simp: h(1) hdr_flags best'_def at_best_def best_ok_def less_8_mult split: option.splits)
  have ok: "best_ok b m best'" using Cons.prems(4) u0 n h(1) by (simp add: best'_def best_ok_def)
  have "heap_best m (8 * of_nat need) (mk b u) (at_best b best)
      = heap_best m (8 * of_nat need) (if bs = [] then 0 else mk b (u + 1 + n)) (at_best b best')"
    by (subst heap_best.simps) (simp only: u0 if_False Let_def nx step)
  also have "\<dots> = Some (at_best b (pick need (u + 1 + n) bs best'))"
    using Cons.prems(3) by (intro Cons.IH [OF h(2) assms(2) _ ok assms(5)]) (simp add: c)
  finally show ?case by (simp add: c best'_def)
qed

section \<open>The heap and its blocks\<close>

text \<open>The blocks of a heap: the chain covers it, it lies in the address space (for the bound that
  \<open>heap_free\<close> checks, eight times its size), and no two free blocks are neighbours.\<close>

definition heap_ok :: "heap_ctxt \<Rightarrow> mem \<Rightarrow> block list \<Rightarrow> bool" where
  "heap_ok heap m bs \<longleftrightarrow>
     aligned 2 (h_memory heap) \<and> 8 \<le> unat (h_memory heap)
     \<and> unat (h_memory heap) + 64 * units bs < 4294967296 \<and> h_size heap = 8 * of_nat (units bs)
     \<and> bs \<noteq> [] \<and> chain (h_memory heap) m 0 0 bs True \<and> successively (\<lambda>x y. snd x \<or> snd y) bs"

text \<open>The blocks that are taken, by marker and size.\<close>

fun taken :: "nat \<Rightarrow> block list \<Rightarrow> (nat \<times> nat) set" where
  "taken u [] = {}"
| "taken u ((n, t) # bs) = (if t then {(u, n)} else {}) \<union> taken (u + 1 + n) bs"

lemma taken_append: "taken u (xs @ ys) = taken u xs \<union> taken (u + units xs) ys"
  by (induction u xs rule: taken.induct) (auto simp: add_ac)

lemma taken_bounds: "(v, n) \<in> taken u bs \<Longrightarrow> u \<le> v \<and> v + 1 + n \<le> u + units bs"
  by (induction u bs rule: taken.induct) (auto split: if_splits)

lemma taken_disjoint:
  "(v, n) \<in> taken u bs \<Longrightarrow> (w, k) \<in> taken u bs \<Longrightarrow> (v, n) = (w, k) \<or> v + 1 + n \<le> w \<or> w + 1 + k \<le> v"
proof (induction u bs rule: taken.induct)
  case (2 u c t bs)
  then show ?case
    using taken_bounds [of v n "u + 1 + c" bs] taken_bounds [of w k "u + 1 + c" bs] by (auto split: if_splits)
qed simp

lemma taken_split: "(u, n) \<in> taken v bs \<Longrightarrow> \<exists>xs ys. bs = xs @ (n, True) # ys \<and> u = v + units xs"
proof (induction v bs rule: taken.induct)
  case (2 v k t bs)
  then consider "t" "u = v" "n = k" | "(u, n) \<in> taken (v + 1 + k) bs" by (auto split: if_splits)
  then show ?case
  proof cases
    case 1
    then show ?thesis by (intro exI [of _ "[]"] exI [of _ bs]) simp
  next
    case 2
    then obtain xs ys where "bs = xs @ (n, True) # ys" "u = v + 1 + k + units xs" using "2.IH" by blast
    then show ?thesis by (intro exI [of _ "(k, t) # xs"] exI [of _ ys]) simp
  qed
qed simp

text \<open>Writes between two blocks, and to the marker after the last of them, touch no other block.\<close>

definition byte_in :: "u32 \<Rightarrow> nat \<times> nat \<Rightarrow> u32 \<Rightarrow> bool" where
  "byte_in b r a \<longleftrightarrow> unat b + 8 * (fst r + 1) \<le> unat a \<and> unat a < unat b + 8 * (fst r + 1 + snd r)"

lemma writes_at:
  assumes "a - mk b w < 8" "unat b + 8 * (w + 1) < 4294967296"
  shows "unat b + 8 * w \<le> unat a" "unat a < unat b + 8 * (w + 1)"
proof -
  define d where "d = unat (a - mk b w)"
  have d: "d < 8" using assms(1) by (simp add: d_def word_less_nat_alt)
  have "a = mk b w + of_nat d" by (simp add: d_def)
  also have "\<dots> = of_nat (unat b + 8 * w + d)" by (simp add: mk_def)
  finally have "unat a = unat b + 8 * w + d"
    using d assms(2) unat_of_nat_u32 [of "unat b + 8 * w + d"] by (simp del: of_nat_add)
  then show "unat b + 8 * w \<le> unat a" "unat a < unat b + 8 * (w + 1)" using d by simp_all
qed

lemma writes_other:
  assumes "writes b {units xs..units xs + units mid} m m'" "unat b + 8 * (units (xs @ mid @ ys) + 1) < 4294967296"
    and "r \<in> taken 0 xs \<union> taken (units (xs @ mid)) ys" "byte_in b r a"
  shows "m' a = m a"
proof (rule ccontr)
  assume "m' a \<noteq> m a"
  then obtain w where w: "units xs \<le> w" "w \<le> units xs + units mid" "a - mk b w < 8"
    using assms(1) unfolding writes_def by (metis atLeastAtMost_iff)
  have "unat b + 8 * w \<le> unat a" "unat a < unat b + 8 * (w + 1)"
    using writes_at [OF w(3)] w(2) assms(2) by auto
  moreover obtain v n where r: "r = (v, n)" by (cases r)
  moreover have "v + 1 + n \<le> units xs \<or> units xs + units mid \<le> v"
    using assms(3) r taken_bounds [of v n 0 xs] taken_bounds [of v n "units (xs @ mid)" ys] by auto
  ultimately show False using w assms(4) by (auto simp: byte_in_def)
qed

lemma round_up_8:
  assumes "unat (s :: u32) < 2147483648"
  shows "(s + 7) AND NOT 7 = 8 * of_nat ((unat s + 7) div 8)"
proof -
  have "unat (s + 7) = unat s + 7" using assms by (simp add: unat_word_ariths)
  then have "unat ((s + 7) AND NOT (mask 3)) = unat s + 7 - (unat s + 7) mod 8"
    by (simp add: unat_and_not_mask)
  also have "\<dots> = 8 * ((unat s + 7) div 8)" by (metis minus_mod_eq_mult_div)
  also have "\<dots> = unat (8 * of_nat ((unat s + 7) div 8) :: u32)" using assms by (subst unat_8_mult) auto
  finally show ?thesis by (simp add: word_unat_eq_iff mask_eq_exp_minus_1)
qed

section \<open>Allocation\<close>

definition take_block :: "nat \<Rightarrow> nat \<Rightarrow> block list" where
  "take_block n k = (if Suc k < n then [(k, True), (n - k - 1, False)] else [(n, True)])"

lemma units_blocks: "k \<le> n \<Longrightarrow> units (split_block n k) = Suc n" "k \<le> n \<Longrightarrow> units (take_block n k) = Suc n"
  by (auto simp: split_block_def take_block_def)

lemma heap_alloc_none:
  assumes "heap_ok heap m bs" "0 < unat s" "unat s < 2147483648"
    and "\<And>k. (k, False) \<in> set bs \<Longrightarrow> 8 * k < unat s"
  shows "heap_alloc heap s m = Some (0, m)"
proof -
  define need where "need = (unat s + 7) div 8"
  have need: "need < 536870912" using assms(3) by (simp add: need_def)
  have "k < need" if "(k, False) \<in> set bs" for k using assms(4) [OF that] by (simp add: need_def)
  then have "pick need 0 bs None = None"
    using pick_fits [of need "[]" bs None, OF refl]
    by (cases "pick need 0 bs None") (auto simp: fits_in_def dest!: leD)
  then have "heap_best m (8 * of_nat need) (h_memory heap) 0 = Some 0"
    using heap_best_pick [of "h_memory heap" m 0 0 bs None need] assms(1) need
    by (simp add: heap_ok_def best_ok_def at_best_def)
  moreover have "1 \<le> sint s" using assms(2,3) by (simp add: sint_eq_unat del: of_nat_unat)
  ultimately show ?thesis
    using round_up_8 [OF assms(3)] by (simp add: heap_alloc_def need_def)
qed

lemma heap_alloc_some:
  assumes ok: "heap_ok heap m bs" and s: "0 < unat s" "unat s < 2147483648"
    and "\<exists>k. (k, False) \<in> set bs \<and> unat s \<le> 8 * k"
  shows "\<exists>xs n ys m'. bs = xs @ (n, False) # ys \<and> unat s \<le> 8 * n
    \<and> (\<forall>k. (k, False) \<in> set bs \<longrightarrow> unat s \<le> 8 * k \<longrightarrow> n \<le> k)
    \<and> heap_alloc heap s m = Some (mk (h_memory heap) (units xs + 1), m')
    \<and> heap_ok heap m' (xs @ take_block n ((unat s + 7) div 8) @ ys)
    \<and> writes (h_memory heap) {units xs..units xs + 1 + n} m m'"
proof -
  define b where "b = h_memory heap"
  define need where "need = (unat s + 7) div 8"
  have need: "need < 536870912" using s(2) by (simp add: need_def)
  have nd: "need \<le> k \<longleftrightarrow> unat s \<le> 8 * k" for k by (auto simp: need_def)
  have H: "aligned 2 b" "8 \<le> unat b" "unat b + 64 * units bs < 4294967296" "chain b m 0 0 bs True" "bs \<noteq> []"
    using ok by (simp_all add: heap_ok_def b_def)
  have "pick need 0 bs None \<noteq> None"
    using pick_fits [of need "[]" bs None, OF refl] assms(4)
    by (auto simp: nd [symmetric] dest!: leD split: option.splits)
  then obtain u n where p: "pick need 0 bs None = Some (u, n)" by auto
  then have f: "fits_in need bs u n" using pick_fits [of need "[]" bs None, OF refl] by simp
  then obtain xs ys where x: "bs = xs @ (n, False) # ys" "u = units xs" "need \<le> n"
    "\<And>k. (k, False) \<in> set bs \<Longrightarrow> need \<le> k \<Longrightarrow> n \<le> k" by (auto simp: fits_in_def)
  have u0: "mk b u \<noteq> 0" using unat_mk [of b u] H(2,3) by (auto simp: x(1,2))
  have best: "heap_best m (8 * of_nat need) b 0 = Some (mk b u)"
    using heap_best_pick [of b m 0 0 bs None need] H need p by (simp add: best_ok_def at_best_def)
  define m1 where "m1 = snd (heap_marker_split (mk b u) (8 * of_nat need) m)"
  have c1: "chain b m1 0 0 (xs @ split_block n need @ ys) True" "writes b {u..u + 1 + n} m m1"
    using split_chain [of b xs n ys m u need] H x unfolding m1_def by auto
  obtain k zs where sb: "split_block n need = (k, False) # zs" "take_block n need = (k, True) # zs"
    unfolding split_block_def take_block_def by (cases "Suc need < n") auto
  define m2 where "m2 = set_m_size (mk b u) (m_size m1 (mk b u) OR 1) m1"
  have un: "units (xs @ split_block n need @ ys) = units bs" using units_blocks(1) [OF x(3)] by (simp add: x(1))
  have c2: "chain b m2 0 0 (xs @ take_block n need @ ys) True"
    using flag_chain(1) [of b xs k False "zs @ ys" m1 u] c1(1) H un unfolding m2_def sb
    by (auto simp: x(2))
  have "writes b {u..u + 1 + n} m m2" unfolding m2_def by (rule writes_set_trans [OF c1(2)]) simp
  moreover have "heap_ok heap m2 (xs @ take_block n need @ ys)"
  proof -
    have "successively (\<lambda>x y. snd x \<or> snd y) (xs @ take_block n need @ ys)"
      using ok x(1) by (auto simp: heap_ok_def take_block_def successively_append_iff successively_Cons)
    then show ?thesis
      using ok c2 units_blocks(2) [OF x(3)] by (simp add: heap_ok_def b_def [symmetric] x(1) take_block_def)
  qed
  moreover have "heap_alloc heap s m = Some (mk b (u + 1), m2)"
    using s best u0 round_up_8 [OF s(2)]
    by (simp add: heap_alloc_def sint_eq_unat b_def need_def m2_def m1_def mk_add [of _ u 1, simplified] Let_def
        del: of_nat_unat)
  ultimately show ?thesis using x nd unfolding b_def need_def by blast
qed

section \<open>Release\<close>

text \<open>Joining a freed block with its free neighbours.\<close>

definition join_right :: "nat \<Rightarrow> block list \<Rightarrow> block list" where
  "join_right n ys = (case ys of (k, False) # zs \<Rightarrow> (n + k + 1, False) # zs | _ \<Rightarrow> (n, False) # ys)"

definition join_free :: "block list \<Rightarrow> nat \<Rightarrow> block list \<Rightarrow> block list" where
  "join_free xs n ys =
     (if xs \<noteq> [] \<and> \<not> snd (last xs) then butlast xs @ join_right (fst (last xs) + n + 1) ys
      else xs @ join_right n ys)"

lemma free_right:
  assumes "aligned 2 b" "unat b + 8 * units (xs @ (n, False) # ys) < 4294967296" "8 \<le> unat b"
    and c: "chain b m 0 0 (xs @ (n, False) # ys) True" and u: "u = units xs"
    and nxt: "nxt = (if ys = [] then 0 else mk b (u + 1 + n))"
  defines "m' \<equiv> (if nxt \<noteq> 0 \<and> m_size m nxt AND 1 = 0 then heap_marker_join (mk b u) nxt m else m)"
  shows "chain b m' 0 0 (xs @ join_right n ys) True
    \<and> writes b {u..u + units ((n, False) # takeWhile (\<lambda>x. \<not> snd x) (take 1 ys))} m m'
    \<and> (\<forall>v. v < 536870912 \<longrightarrow> u < v \<longrightarrow> v < u + 1 + n \<longrightarrow> spoilt b m v \<longrightarrow> spoilt b m' v)"
proof (cases ys)
  case Nil
  then show ?thesis using c by (simp add: m'_def nxt join_right_def)
next
  case (Cons y zs)
  obtain k t where y: "y = (k, t)" by (cases y)
  have w0: "mk b (u + 1 + n) \<noteq> 0" using unat_mk [of b "u + 1 + n"] assms(2,3) by (auto simp: u Cons y)
  have h: "m_size m (mk b (u + 1 + n)) = hdr k t (zs = [])"
    using c by (simp add: chain_append u Cons y)
  have m': "m' = (if t then m else heap_marker_join (mk b u) (mk b (u + 1 + n)) m)"
    using w0 h by (simp add: m'_def nxt Cons hdr_flags)
  show ?thesis
  proof (cases t)
    case True
    then show ?thesis using c by (simp add: m' join_right_def Cons y)
  next
    case False
    have "chain b m' 0 0 (xs @ (n + k + 1, False) # zs) True \<and> writes b {u..u + 1 + n + 1 + k} m m'
        \<and> (\<forall>v. v < 536870912 \<longrightarrow> u < v \<longrightarrow> v < u + 1 + n \<longrightarrow> spoilt b m v \<longrightarrow> spoilt b m' v)"
      using join_chain [of b xs n k zs m u] assms(1-3) c u False by (simp add: m' Cons y)
    then show ?thesis using False by (simp add: join_right_def Cons y add_ac)
  qed
qed

lemma prev_block:
  assumes "chain b m 0 0 (xs @ ys) True" "ys \<noteq> []" "8 \<le> unat b"
    "unat b + 8 * units (xs @ ys) < 4294967296" "h_memory heap = b"
  shows "heap_marker_prev heap m (mk b (units xs)) = (if xs = [] then 0 else mk b (units (butlast xs)))"
    and "m_size_prev m (mk b (units xs)) = 8 * of_nat (last_size 0 xs)"
    and "xs \<noteq> [] \<Longrightarrow> m_size m (mk b (units (butlast xs))) = hdr (fst (last xs)) (snd (last xs)) False
      \<and> last_size 0 xs = fst (last xs) \<and> units xs = units (butlast xs) + 1 + fst (last xs)"
proof -
  have p: "m_size_prev m (mk b (units xs)) = 8 * of_nat (last_size 0 xs)"
    using assms(1,2) by (cases ys) (auto simp: chain_append)
  then show "m_size_prev m (mk b (units xs)) = 8 * of_nat (last_size 0 xs)" .
  have l: "m_size m (mk b (units (butlast xs))) = hdr (fst (last xs)) (snd (last xs)) False
      \<and> last_size 0 xs = fst (last xs) \<and> units xs = units (butlast xs) + 1 + fst (last xs)" if ne: "xs \<noteq> []"
  proof -
    obtain zs k t where x: "xs = zs @ [(k, t)]" using ne by (metis append_butlast_last_id surj_pair)
    show ?thesis using assms(1,2) by (simp add: x chain_append)
  qed
  then show "xs \<noteq> [] \<Longrightarrow> m_size m (mk b (units (butlast xs))) = hdr (fst (last xs)) (snd (last xs)) False
      \<and> last_size 0 xs = fst (last xs) \<and> units xs = units (butlast xs) + 1 + fst (last xs)" .
  show "heap_marker_prev heap m (mk b (units xs)) = (if xs = [] then 0 else mk b (units (butlast xs)))"
  proof (cases "xs = []")
    case True
    then show ?thesis using prev_hdr [OF p _ assms(3) _ assms(5)] assms(4) by simp
  next
    case False
    then show ?thesis using prev_hdr [OF p _ assms(3) _ assms(5)] assms(4) l by simp
  qed
qed

lemma free_left:
  assumes "aligned 2 b" "unat b + 8 * units (xs @ (n, False) # ys) < 4294967296" "8 \<le> unat b"
    and c: "chain b m 0 0 (xs @ (n, False) # ys) True" and u: "u = units xs"
    and prv: "prv = (if xs = [] then 0 else mk b (units (butlast xs)))"
    and r: "(tmp, m') = (if prv \<noteq> 0 \<and> m_size m prv AND 1 = 0
      then (prv, heap_marker_join prv (mk b u) m) else (mk b u, m))"
  shows "\<exists>xs' k. tmp = mk b (units xs') \<and> chain b m' 0 0 (xs' @ (k, False) # ys) True
    \<and> units xs' + 1 + k = u + 1 + n \<and> join_free xs n ys = xs' @ join_right k ys
    \<and> writes b {units xs'..u + 1 + n} m m' \<and> units xs' \<le> u
    \<and> (xs' = xs \<and> k = n \<or> units xs' < u \<and> spoilt b m' u)"
proof (cases "xs \<noteq> [] \<and> \<not> snd (last xs)")
  case True
  then obtain zs k where x: "xs = zs @ [(k, False)]"
    by (metis (full_types) append_butlast_last_id prod.collapse)
  have c': "chain b m 0 0 (zs @ (k, False) # (n, False) # ys) True" using c by (simp add: x)
  then have "m_size m (mk b (units zs)) = hdr k False False" by (simp add: chain_append)
  moreover have "mk b (units zs) \<noteq> 0" using unat_mk [of b "units zs"] assms(2,3) by (auto simp: x)
  ultimately have "tmp = mk b (units zs) \<and> m' = heap_marker_join (mk b (units zs)) (mk b (units zs + 1 + k)) m"
    using r prv by (simp add: x hdr_flags u)
  moreover have "chain b (heap_marker_join (mk b (units zs)) (mk b (units zs + 1 + k)) m) 0 0 (zs @ (k + n + 1, False) # ys) True
    \<and> writes b {units zs..units zs + 1 + k + 1 + n} m (heap_marker_join (mk b (units zs)) (mk b (units zs + 1 + k)) m)
    \<and> spoilt b (heap_marker_join (mk b (units zs)) (mk b (units zs + 1 + k)) m) (units zs + 1 + k)"
    using join_chain [of b zs k n ys m "units zs"] assms(1-3) c' by (simp add: x)
  ultimately show ?thesis
    by (intro exI [of _ zs] exI [of _ "k + n + 1"]) (simp add: join_free_def x u add_ac)
next
  case False
  have "\<not> (prv \<noteq> 0 \<and> m_size m prv AND 1 = 0)"
    using False prev_block(3) [OF c _ assms(3) assms(2), of "\<lparr>h_size = 0, h_end = 0, h_user = 0, h_memory = b\<rparr>"]
    by (auto simp: prv hdr_flags)
  then show ?thesis using c r False
    by (intro exI [of _ xs] exI [of _ n]) (auto simp: join_free_def u)
qed

lemma no_adjacent_join:
  assumes "successively (\<lambda>x y. snd x \<or> snd y) (xs @ (n, True) # ys)"
  shows "successively (\<lambda>x y. snd x \<or> snd y) (join_free xs n ys)"
proof -
  have J: "successively (\<lambda>x y. snd x \<or> snd y) (zs @ join_right k ys)"
    if "successively (\<lambda>x y. snd x \<or> snd y) zs" "zs \<noteq> [] \<Longrightarrow> snd (last zs)" for zs k
    using that assms by (cases ys rule: units.cases)
      (auto simp: join_right_def successively_append_iff successively_Cons split: bool.splits)
  show ?thesis
  proof (cases "xs \<noteq> [] \<and> \<not> snd (last xs)")
    case True
    then obtain zs x where x: "xs = zs @ [x]" "\<not> snd x" by (metis append_butlast_last_id)
    have "successively (\<lambda>x y. snd x \<or> snd y) zs" "zs \<noteq> [] \<Longrightarrow> snd (last zs)"
      using assms x by (auto simp: successively_append_iff)
    from J [OF this] show ?thesis using x by (simp add: join_free_def)
  next
    case False
    have "successively (\<lambda>x y. snd x \<or> snd y) xs" using assms by (simp add: successively_append_iff)
    from J [OF this] show ?thesis using False by (auto simp: join_free_def)
  qed
qed

lemma heap_free_taken:
  assumes ok: "heap_ok heap m (xs @ (n, True) # ys)"
  shows "\<exists>m'. heap_free heap (mk (h_memory heap) (units xs + 1)) m = (True, m')
    \<and> heap_ok heap m' (join_free xs n ys)
    \<and> (\<forall>r a. r \<in> taken 0 (join_free xs n ys) \<longrightarrow> byte_in (h_memory heap) r a \<longrightarrow> m' a = m a)
    \<and> ((\<exists>k zs. join_free xs n ys = xs @ (k, False) # zs) \<or> spoilt (h_memory heap) m' (units xs))"
proof -
  define b where "b = h_memory heap"
  define u where "u = units xs"
  have H: "aligned 2 b" "8 \<le> unat b" "unat b + 64 * units (xs @ (n, True) # ys) < 4294967296"
    "chain b m 0 0 (xs @ (n, True) # ys) True" "successively (\<lambda>x y. snd x \<or> snd y) (xs @ (n, True) # ys)"
    "h_size heap = 8 * of_nat (units (xs @ (n, True) # ys))"
    using ok by (simp_all add: heap_ok_def b_def)
  have H8: "unat b + 8 * units (xs @ (n, True) # ys) < 4294967296" using H(3) by simp
  have tmp: "mk b (u + 1) - 8 = mk b u" by (simp add: mk_def)
  have u: "unat (mk b u) = unat b + 8 * u" using H8 by (intro unat_mk) (simp add: u_def)
  have in_heap: "\<not> (mk b u < b \<or> b + 8 * h_size heap \<le> mk b u)"
  proof -
    define t where "t = units (xs @ (n, True) # ys)"
    have "b + 8 * h_size heap = of_nat (unat b + 64 * t)" by (simp add: H(6) t_def)
    then have "unat (b + 8 * h_size heap) = unat b + 64 * t"
      using H(3) unat_of_nat_u32 [of "unat b + 64 * t"] by (simp add: t_def del: of_nat_add)
    then show ?thesis using u by (simp add: word_less_nat_alt word_le_nat_alt t_def u_def)
  qed
  have h: "m_size m (mk b u) = hdr n True (ys = [])" using H(4) by (simp add: chain_append u_def)
  have n: "n < 536870912" using H8 by simp
  define nxt where "nxt = (if ys = [] then 0 else mk b (u + 1 + n))"
  have nx: "heap_marker_next m (mk b u) = nxt" using next_hdr [OF h n] by (simp add: nxt_def)
  define prv where "prv = (if xs = [] then 0 else mk b (units (butlast xs)))"
  note pb = prev_block [OF H(4) _ H(2) H8 b_def [symmetric]]
  have pv: "heap_marker_prev heap m (mk b u) = prv" using pb(1) by (simp add: prv_def u_def)
  have sane: "\<not> ((prv \<noteq> 0 \<and> m_size_prev m (mk b u) \<noteq> m_size m prv AND HEAP_MASK_SIZE)
      \<or> (nxt \<noteq> 0 \<and> m_size_prev m nxt \<noteq> m_size m (mk b u) AND HEAP_MASK_SIZE))"
  proof -
    have "m_size_prev m (mk b (u + 1 + n)) = 8 * of_nat n" if "ys \<noteq> []"
      using H(4) that by (cases ys) (auto simp: chain_append u_def)
    then show ?thesis using pb(2,3) by (auto simp: prv_def nxt_def h u_def [symmetric])
  qed
  define m1 where "m1 = set_m_size (mk b u) (m_size m (mk b u) AND NOT 1) m"
  have H8': "unat b + 8 * units (xs @ (n, False) # ys) < 4294967296" using H8 by simp
  have c1: "chain b m1 0 0 (xs @ (n, False) # ys) True"
    unfolding m1_def by (rule flag_chain(2) [OF H(1) H8 H(4) u_def])
  obtain tmp' m2 where r2: "(tmp', m2) = (if prv \<noteq> 0 \<and> m_size m1 prv AND 1 = 0
      then (prv, heap_marker_join prv (mk b u) m1) else (mk b u, m1))" by (metis surj_pair)
  obtain xs' k where x: "tmp' = mk b (units xs')" "chain b m2 0 0 (xs' @ (k, False) # ys) True"
    "units xs' + 1 + k = u + 1 + n" "join_free xs n ys = xs' @ join_right k ys"
    "writes b {units xs'..u + 1 + n} m1 m2" "units xs' \<le> u"
    "xs' = xs \<and> k = n \<or> units xs' < u \<and> spoilt b m2 u"
    using free_left [OF H(1) H8' H(2) c1 u_def prv_def r2] by blast
  define m3 where "m3 = (if nxt \<noteq> 0 \<and> m_size m2 nxt AND 1 = 0 then heap_marker_join (mk b (units xs')) nxt m2 else m2)"
  define mid where "mid = (k, False) # takeWhile (\<lambda>x. \<not> snd x) (take 1 ys)"
  have un: "units (xs' @ (k, False) # ys) = units (xs @ (n, True) # ys)" using x(3) by (simp add: u_def)
  have c3: "chain b m3 0 0 (xs' @ join_right k ys) True \<and> writes b {units xs'..units xs' + units mid} m2 m3
    \<and> (\<forall>v. v < 536870912 \<longrightarrow> units xs' < v \<longrightarrow> v < units xs' + 1 + k \<longrightarrow> spoilt b m2 v \<longrightarrow> spoilt b m3 v)"
    unfolding m3_def mid_def
    by (rule free_right [OF H(1) _ H(2) x(2) refl]) (use H8 un x(3) in \<open>simp_all add: nxt_def\<close>)
  have res: "heap_free heap (mk b (u + 1)) m = (True, m3)"
  proof -
    have t: "m_size m (mk b u) AND HEAP_MASK_TAKEN \<noteq> 0" by (simp add: h hdr_flags)
    show ?thesis
      unfolding heap_free_def Let_def tmp nx pv b_def [symmetric] if_not_P [OF in_heap] if_not_P [OF sane] if_not_P [OF t]
      unfolding HEAP_MASK_TAKEN_def m1_def [symmetric] r2 [symmetric] m3_def
      by (simp add: x(1))
  qed
  obtain k' ys' where y: "join_right k ys = (k', False) # ys'" "units mid = 1 + k'" "k \<le> k'"
    "units ys' + 1 + k' = units ys + 1 + k"
  proof (cases ys rule: units.cases)
    case (2 j t zs)
    then show ?thesis using that by (cases t) (auto simp: mid_def join_right_def)
  qed (use that in \<open>auto simp: mid_def join_right_def\<close>)
  have jf: "join_free xs n ys = xs' @ [(k', False)] @ ys'" using x(4) y(1) by simp
  let ?U = "{units xs'..units xs' + units [(k', False)]}"
  have "writes b {u..u} m m1" unfolding m1_def by (rule writes_set) simp
  then have w: "writes b ?U m m3"
  proof -
    have "{u..u} \<subseteq> ?U" "{units xs'..u + 1 + n} \<subseteq> ?U" "{units xs'..units xs' + units mid} \<subseteq> ?U"
      using x(3,6) y(2,3) by auto
    then show ?thesis using \<open>writes b {u..u} m m1\<close> x(5) c3 by (meson writes_mono writes_trans)
  qed
  have un': "units (join_free xs n ys) = units (xs @ (n, True) # ys)" using jf un y(4) by simp
  have "m3 a = m a" if "r \<in> taken 0 (join_free xs n ys)" "byte_in b r a" for r a
  proof (rule writes_other [OF w])
    show "unat b + 8 * (units (xs' @ [(k', False)] @ ys') + 1) < 4294967296"
      using H(3) un' by (simp add: jf)
    show "r \<in> taken 0 xs' \<union> taken (units (xs' @ [(k', False)])) ys'" using that(1) by (simp add: jf taken_append)
  qed fact
  moreover have "heap_ok heap m3 (join_free xs n ys)"
    using ok c3 un' no_adjacent_join [OF H(5)] by (simp add: heap_ok_def x(4) b_def [symmetric]) (simp add: y(1))
  moreover have "(\<exists>k zs. join_free xs n ys = xs @ (k, False) # zs) \<or> spoilt b m3 u"
  proof -
    have "u < 536870912" "u < units xs' + 1 + k" using H(3) x(3) by (auto simp: u_def)
    then show ?thesis using x(7) c3 jf by auto
  qed
  ultimately show ?thesis using res by (auto simp: b_def u_def)
qed

section \<open>What the heap promises\<close>

text \<open>Freeing what is not taken, or was joined to the block before it, is refused.\<close>

lemma heap_free_again:
  assumes "heap_ok heap m bs" "u < units bs" "(\<exists>xs n ys. bs = xs @ (n, False) # ys \<and> u = units xs) \<or> spoilt (h_memory heap) m u"
  shows "heap_free heap (mk (h_memory heap) (u + 1)) m = (False, m)"
proof -
  define b where "b = h_memory heap"
  have tmp: "mk b (u + 1) - 8 = mk b u" by (simp add: mk_def)
  have H: "8 \<le> unat b" "unat b + 8 * units bs < 4294967296" "chain b m 0 0 bs True"
    using assms(1) by (simp_all add: heap_ok_def b_def)
  have res: "heap_free heap (mk b (u + 1)) m = (False, m)" if "m_size m (mk b u) AND 1 = 0"
    unfolding heap_free_def Let_def tmp using that by simp
  show ?thesis using assms(3)
  proof
    assume "\<exists>xs n ys. bs = xs @ (n, False) # ys \<and> u = units xs"
    then have "m_size m (mk b u) AND 1 = 0" using H(3) by (auto simp: chain_append hdr_flags)
    then show ?thesis using res by (simp add: b_def)
  next
    assume "spoilt (h_memory heap) m u"
    then have s: "m_size m (mk b u) = - 1" "m_size_prev m (mk b u) = - 1" by (simp_all add: spoilt_def b_def)
    have "unat (mk b u) = unat b + 8 * u" using H(2) assms(2) by (intro unat_mk) simp
    then have u: "\<not> mk b u < b" "mk b u \<noteq> 0" using H(1) by (auto simp: word_less_nat_alt)
    have "heap_marker_prev heap m (mk b u) = mk b u"
    proof -
      have z: "(4294967296 :: u32) = 0" by simp
      show ?thesis using u by (simp add: heap_marker_prev_def s b_def [symmetric] Let_def z)
    qed
    then show ?thesis using u s
      unfolding b_def [symmetric] heap_free_def Let_def tmp by simp
  qed
qed

lemma taken_insert:
  assumes "units mid = Suc n" "taken u mid = {(u, k)}" "u = units xs"
  shows "taken 0 (xs @ mid @ ys) = insert (u, k) (taken 0 (xs @ (n, False) # ys))"
    and "(u, k) \<notin> taken 0 (xs @ (n, False) # ys)"
  using assms taken_bounds [of "units xs" k 0 xs] taken_bounds [of "units xs" k "units xs + Suc n" ys]
  by (auto simp: taken_append add_ac)

lemma taken_take: "k \<le> n \<Longrightarrow> taken u (take_block n k) = {(u, if Suc k < n then k else n)}"
  by (simp add: take_block_def)

lemma taken_join: "taken 0 (join_free xs n ys) = taken 0 (xs @ (n, True) # ys) - {(units xs, n)}"
proof -
  have nb: "(units xs, n) \<notin> taken 0 xs" "(units xs, n) \<notin> taken (units xs + 1 + n) ys"
    using taken_bounds [of "units xs" n 0 xs] taken_bounds [of "units xs" n "units xs + 1 + n" ys] by auto
  have r: "taken u (join_right k ys) = taken (u + 1 + k) ys" for u k
    by (cases ys rule: units.cases) (auto simp: join_right_def add_ac split: bool.splits)
  show ?thesis
  proof (cases "xs \<noteq> [] \<and> \<not> snd (last xs)")
    case True
    then obtain zs k where x: "xs = zs @ [(k, False)]" by (metis (full_types) append_butlast_last_id prod.collapse)
    show ?thesis using nb by (auto simp: x join_free_def r taken_append add_ac)
  next
    case False
    show ?thesis using nb False by (auto simp: join_free_def r taken_append add_ac)
  qed
qed

lemma heap_alloc_refines:
  assumes "heap_ok heap m bs" "0 < unat s" "unat s < 2147483648"
  shows "\<exists>p m' bs'. heap_alloc heap s m = Some (p, m') \<and> heap_ok heap m' bs'
    \<and> (if p = 0 then m' = m \<and> bs' = bs \<and> (\<forall>k. (k, False) \<in> set bs \<longrightarrow> 8 * k < unat s)
       else \<exists>u n. p = mk (h_memory heap) (u + 1) \<and> unat s \<le> 8 * n \<and> (u, n) \<notin> taken 0 bs
         \<and> taken 0 bs' = insert (u, n) (taken 0 bs)
         \<and> (\<forall>r\<in>taken 0 bs. \<forall>a. byte_in (h_memory heap) r a \<longrightarrow> m' a = m a))"
proof (cases "\<exists>k. (k, False) \<in> set bs \<and> unat s \<le> 8 * k")
  case False
  then have "\<forall>k. (k, False) \<in> set bs \<longrightarrow> 8 * k < unat s" by (auto simp: not_le)
  then show ?thesis using heap_alloc_none [OF assms] assms(1) by auto
next
  case True
  let ?need = "(unat s + 7) div 8"
  obtain xs n ys m' where r: "bs = xs @ (n, False) # ys" "unat s \<le> 8 * n"
    "heap_alloc heap s m = Some (mk (h_memory heap) (units xs + 1), m')"
    "heap_ok heap m' (xs @ take_block n ?need @ ys)" "writes (h_memory heap) {units xs..units xs + 1 + n} m m'"
    using heap_alloc_some [OF assms True] by blast
  define k where "k = (if Suc ?need < n then ?need else n)"
  have need: "?need \<le> n" "unat s \<le> 8 * k" using r(2) by (auto simp: k_def)
  note t = taken_insert [OF units_blocks(2) [OF need(1)] taken_take [OF need(1)] refl, folded k_def]
  have b: "unat (h_memory heap) + 64 * units bs < 4294967296" "bs \<noteq> []" using assms(1) by (auto simp: heap_ok_def)
  have "m' a = m a" if "q \<in> taken 0 bs" "byte_in (h_memory heap) q a" for q a
  proof (rule writes_other)
    show "writes (h_memory heap) {units xs..units xs + units [(n, False)]} m m'" using r(5) by simp
    show "unat (h_memory heap) + 8 * (units (xs @ [(n, False)] @ ys) + 1) < 4294967296" using b(1) r(1) by simp
    show "q \<in> taken 0 xs \<union> taken (units (xs @ [(n, False)])) ys" using that(1) r(1) by (simp add: taken_append)
  qed fact
  moreover have "mk (h_memory heap) (units xs + 1) \<noteq> 0"
    using b(1) r(1) unat_mk [of "h_memory heap" "units xs + 1"] by auto
  ultimately show ?thesis
    using r(3,4) t [of xs ys] need(2) unfolding r(1) [symmetric]
    by (intro exI [of _ "mk (h_memory heap) (units xs + 1)"] exI [of _ m']
        exI [of _ "xs @ take_block n ?need @ ys"]) auto
qed

lemma heap_free_refines:
  assumes "heap_ok heap m bs" "(u, n) \<in> taken 0 bs"
  shows "\<exists>m' bs'. heap_free heap (mk (h_memory heap) (u + 1)) m = (True, m') \<and> heap_ok heap m' bs'
    \<and> taken 0 bs' = taken 0 bs - {(u, n)}
    \<and> (\<forall>r\<in>taken 0 bs'. \<forall>a. byte_in (h_memory heap) r a \<longrightarrow> m' a = m a)
    \<and> heap_free heap (mk (h_memory heap) (u + 1)) m' = (False, m')"
proof -
  obtain xs ys where x: "bs = xs @ (n, True) # ys" "u = units xs" using taken_split [OF assms(2)] by auto
  obtain m' where m': "heap_free heap (mk (h_memory heap) (u + 1)) m = (True, m')"
    "heap_ok heap m' (join_free xs n ys)"
    "\<forall>r a. r \<in> taken 0 (join_free xs n ys) \<longrightarrow> byte_in (h_memory heap) r a \<longrightarrow> m' a = m a"
    "(\<exists>k zs. join_free xs n ys = xs @ (k, False) # zs) \<or> spoilt (h_memory heap) m' u"
    using heap_free_taken [of heap m xs n ys] assms(1) x by auto
  have "units (join_right k ys) = Suc k + units ys" for k
    by (cases ys rule: units.cases) (auto simp: join_right_def split: bool.splits)
  then have "u < units (join_free xs n ys)"
    using x(2) by (cases xs rule: rev_cases) (auto simp: join_free_def)
  then have "heap_free heap (mk (h_memory heap) (u + 1)) m' = (False, m')"
    using m'(4) x(2) by (intro heap_free_again [OF m'(2)]) blast+
  then show ?thesis using m' taken_join [of xs n ys] x by auto
qed

section \<open>The heap as an allocator\<close>

definition heap_blocks :: "heap_ctxt \<Rightarrow> block list \<Rightarrow> (u32 \<times> nat) set" where
  "heap_blocks heap bs = (\<lambda>(u, n). (mk (h_memory heap) (u + 1), n)) ` taken 0 bs"

lemma heap_blocksE:
  assumes "x \<in> heap_blocks heap bs"
  obtains u n where "(u, n) \<in> taken 0 bs" "x = (mk (h_memory heap) (u + 1), n)"
  using assms by (auto simp: heap_blocks_def)

definition heap_holds :: "heap_ctxt \<Rightarrow> mem \<Rightarrow> (u32 \<times> nat) set \<Rightarrow> bool" where
  "heap_holds heap m R \<longleftrightarrow> (\<exists>bs. heap_ok heap m bs \<and> R = heap_blocks heap bs)"

definition malloc_opt :: "heap_ctxt \<Rightarrow> u32 \<Rightarrow> mem \<Rightarrow> (u32 option \<times> mem) option" where
  "malloc_opt heap s m = map_option (\<lambda>(p, m). (if p = 0 then None else Some p, m)) (malloc heap s m)"

definition bytes_apart :: "u32 \<times> nat \<Rightarrow> u32 \<times> nat \<Rightarrow> bool" where
  "bytes_apart x y \<longleftrightarrow> unat (fst x) + 8 * snd x \<le> unat (fst y) \<or> unat (fst y) + 8 * snd y \<le> unat (fst x)"

lemma unat_block:
  assumes "heap_ok heap m bs" "(u, n) \<in> taken 0 bs"
  shows "unat (mk (h_memory heap) (u + 1)) = unat (h_memory heap) + 8 * (u + 1)" "u + 1 + n \<le> units bs"
    "mk (h_memory heap) (u + 1) \<noteq> 0"
proof -
  show b: "u + 1 + n \<le> units bs" using taken_bounds [OF assms(2)] by simp
  then show e: "unat (mk (h_memory heap) (u + 1)) = unat (h_memory heap) + 8 * (u + 1)"
    using assms(1) by (intro unat_mk) (simp add: heap_ok_def)
  then show "mk (h_memory heap) (u + 1) \<noteq> 0" by auto
qed

lemma block_inj:
  assumes "heap_ok heap m bs" "(u, n) \<in> taken 0 bs" "(v, k) \<in> taken 0 bs"
    "mk (h_memory heap) (u + 1) = mk (h_memory heap) (v + 1)"
  shows "u = v \<and> n = k"
proof -
  have "unat (h_memory heap) + 8 * (u + 1) = unat (h_memory heap) + 8 * (v + 1)"
    using unat_block(1) [OF assms(1,2)] unat_block(1) [OF assms(1,3)] assms(4) by metis
  then have "u = v" by simp
  then show ?thesis using taken_disjoint [OF assms(2,3)] by auto
qed

lemma fresh_block:
  assumes "heap_ok heap m bs" "taken 0 bs = insert (u, n) T" "(u, n) \<notin> T"
  shows "mk (h_memory heap) (u + 1) \<notin> fst ` (\<lambda>(u, n). (mk (h_memory heap) (u + 1), n)) ` T"
proof
  assume "mk (h_memory heap) (u + 1) \<in> fst ` (\<lambda>(u, n). (mk (h_memory heap) (u + 1), n)) ` T"
  then obtain v k where v: "(v, k) \<in> T" "mk (h_memory heap) (u + 1) = mk (h_memory heap) (v + 1)"
    unfolding image_image by (auto simp only: fst_conv case_prod_unfold)
  have "u = v \<and> n = k" by (rule block_inj [OF assms(1) _ _ v(2)]) (use assms(2) v(1) in simp_all)
  with v(1) assms(3) show False by simp
qed

lemma heap_blocks_remove:
  assumes "heap_ok heap m bs" "(u, n) \<in> taken 0 bs" "taken 0 bs' = taken 0 bs - {(u, n)}"
  shows "heap_blocks heap bs' = heap_blocks heap bs - {(mk (h_memory heap) (u + 1), n)}"
proof -
  have "inj_on (\<lambda>(u, n). (mk (h_memory heap) (u + 1), n)) (taken 0 bs)"
  proof (rule inj_onI, clarify)
    fix v k w l
    assume v: "(v, k) \<in> taken 0 bs" "(w, k) \<in> taken 0 bs" "mk (h_memory heap) (v + 1) = mk (h_memory heap) (w + 1)"
    show "v = w \<and> k = k" using block_inj [OF assms(1) v] by simp
  qed
  from inj_on_image_set_diff [OF this, of "taken 0 bs" "{(u, n)}"] show ?thesis
    using assms(2,3) by (simp add: heap_blocks_def)
qed

interpretation heap_alloc: allocator "heap_holds heap" "\<lambda>s. 0 < unat s \<and> unat s < 2147483648" "\<lambda>s n. unat s \<le> 8 * n"
    bytes_apart "malloc_opt heap" "\<lambda>p m. Some (free heap p m)" for heap
proof
  fix m :: mem and R s
  assume h: "heap_holds heap m R" and s: "0 < unat (s :: u32) \<and> unat s < 2147483648"
  then obtain bs where bs: "heap_ok heap m bs" "R = heap_blocks heap bs" by (auto simp: heap_holds_def)
  obtain p m' bs' where r: "heap_alloc heap s m = Some (p, m')" "heap_ok heap m' bs'"
    "if p = 0 then m' = m \<and> bs' = bs \<and> (\<forall>k. (k, False) \<in> set bs \<longrightarrow> 8 * k < unat s)
       else \<exists>u n. p = mk (h_memory heap) (u + 1) \<and> unat s \<le> 8 * n \<and> (u, n) \<notin> taken 0 bs
         \<and> taken 0 bs' = insert (u, n) (taken 0 bs)
         \<and> (\<forall>r\<in>taken 0 bs. \<forall>a. byte_in (h_memory heap) r a \<longrightarrow> m' a = m a)"
    using heap_alloc_refines [OF bs(1)] s by blast
  show "\<exists>r s'. malloc_opt heap s m = Some (r, s') \<and> (case r of None \<Rightarrow> heap_holds heap s' R
      | Some p \<Rightarrow> \<exists>z. unat s \<le> 8 * z \<and> p \<notin> fst ` R \<and> heap_holds heap s' (insert (p, z) R))"
  proof (cases "p = 0")
    case True
    then show ?thesis using r bs by (auto simp: malloc_opt_def malloc_def heap_holds_def)
  next
    case False
    then obtain u n where u: "p = mk (h_memory heap) (u + 1)" "unat s \<le> 8 * n" "(u, n) \<notin> taken 0 bs"
      "taken 0 bs' = insert (u, n) (taken 0 bs)" using r(3) by auto
    have "heap_blocks heap bs' = insert (p, n) R" using u(1,4) bs(2) by (simp add: heap_blocks_def)
    moreover have "p \<notin> fst ` R" using fresh_block [OF r(2) u(4,3)] u(1) bs(2) by (simp add: heap_blocks_def)
    ultimately show ?thesis using False r(1,2) u(2)
      by (auto simp: malloc_opt_def malloc_def heap_holds_def intro!: exI [of _ n])
  qed
next
  fix m :: mem and R p z
  assume "heap_holds heap m R" "(p, z) \<in> R"
  then obtain bs u where bs: "heap_ok heap m bs" "R = heap_blocks heap bs" "p = mk (h_memory heap) (u + 1)"
    "(u, z) \<in> taken 0 bs" by (auto simp: heap_holds_def heap_blocks_def)
  obtain m' bs' where f: "heap_free heap p m = (True, m')" "heap_ok heap m' bs'" "taken 0 bs' = taken 0 bs - {(u, z)}"
    using heap_free_refines [OF bs(1,4)] bs(3) by blast
  have "heap_blocks heap bs' = R - {(p, z)}"
    using heap_blocks_remove [OF bs(1,4) f(3)] bs(2,3) by simp
  moreover have "free heap p m = m'" using f(1) unat_block(3) [OF bs(1,4)] bs(3) by (simp add: free_def)
  ultimately show "\<exists>s'. Some (free heap p m) = Some s' \<and> heap_holds heap s' (R - {(p, z)})"
    using f(2) by (auto simp: heap_holds_def)
next
  fix m :: mem and R x y
  assume "heap_holds heap m R" "x \<in> R" "y \<in> R" "x \<noteq> y"
  then obtain bs where b: "heap_ok heap m bs" "x \<in> heap_blocks heap bs" "y \<in> heap_blocks heap bs" "x \<noteq> y"
    by (auto simp: heap_holds_def)
  then obtain u n v k where d: "(u, n) \<in> taken 0 bs" "(v, k) \<in> taken 0 bs"
    "x = (mk (h_memory heap) (u + 1), n)" "y = (mk (h_memory heap) (v + 1), k)"
    by (metis heap_blocksE)
  have "(u, n) \<noteq> (v, k)" using b(4) d(3,4) by auto
  then show "bytes_apart x y"
    using taken_disjoint [OF d(1,2)] unat_block(1) [OF b(1) d(1)] unat_block(1) [OF b(1) d(2)]
    by (auto simp: bytes_apart_def d(3,4) simp del: add_Suc_right)
qed

section \<open>The heap and its clients\<close>

text \<open>A run of the heap: its clients allocate, release, and write within the bytes they asked for. \<open>A\<close> is
  the set of the blocks in use, by pointer and requested size.\<close>

inductive heap_step :: "heap_ctxt \<Rightarrow> mem \<times> (u32 \<times> u32) set \<Rightarrow> mem \<times> (u32 \<times> u32) set \<Rightarrow> bool" for heap where
  "0 < unat s \<Longrightarrow> unat s < 2147483648 \<Longrightarrow> malloc heap s m = Some (p, m')
    \<Longrightarrow> heap_step heap (m, A) (m', if p = 0 then A else insert (p, s) A)"
| "(p, s) \<in> A \<Longrightarrow> heap_step heap (m, A) (free heap p m, A - {(p, s)})"
| "(p, s) \<in> A \<Longrightarrow> unat (a - p) < unat s \<Longrightarrow> heap_step heap (m, A) (m(a := x), A)"

definition heap_start :: "heap_ctxt \<Rightarrow> mem \<times> (u32 \<times> u32) set \<Rightarrow> bool" where
  "heap_start heap mA \<longleftrightarrow> snd mA = {} \<and> (\<exists>sz memory heap0 m0. heap_init sz memory heap0 m0 = (heap, fst mA)
     \<and> aligned 2 memory \<and> 8 \<le> unat memory \<and> 16 \<le> unat sz \<and> unat memory + 8 * unat sz < 4294967296)"

definition in_use :: "heap_ctxt \<Rightarrow> block list \<Rightarrow> (nat \<Rightarrow> u32) \<Rightarrow> (u32 \<times> u32) set" where
  "in_use heap bs sz = (\<lambda>(u, n). (mk (h_memory heap) (u + 1), sz u)) ` taken 0 bs"

definition heap_inv :: "heap_ctxt \<Rightarrow> mem \<times> (u32 \<times> u32) set \<Rightarrow> bool" where
  "heap_inv heap mA \<longleftrightarrow> (\<exists>bs sz. heap_ok heap (fst mA) bs \<and> snd mA = in_use heap bs sz
     \<and> (\<forall>(u, n)\<in>taken 0 bs. unat (sz u) \<le> 8 * n))"

lemma heap_invI:
  "heap_ok heap m bs \<Longrightarrow> A = in_use heap bs sz \<Longrightarrow> \<forall>(u, n)\<in>taken 0 bs. unat (sz u) \<le> 8 * n \<Longrightarrow> heap_inv heap (m, A)"
  by (auto simp: heap_inv_def)

lemma heap_invE:
  assumes "heap_inv heap (m, A)"
  obtains bs sz where "heap_ok heap m bs" "A = in_use heap bs sz" "\<forall>(u, n)\<in>taken 0 bs. unat (sz u) \<le> 8 * n"
  using assms by (auto simp: heap_inv_def)

lemma heap_init_ok:
  assumes "heap_init s memory heap0 m0 = (heap, m)" "aligned 2 memory" "8 \<le> unat memory" "16 \<le> unat s"
    "unat memory + 8 * unat s < 4294967296"
  shows "heap_ok heap m [(unat s div 8 - 1, False)]" "h_memory heap = memory" "unat (h_size heap) = 8 * (unat s div 8)"
proof -
  define k where "k = unat s div 8"
  have "unat s < 536870912 * 8" by simp
  then have "k < 536870912" unfolding k_def by (rule less_mult_imp_div_less)
  then have k: "2 \<le> k" "k < 536870912" "8 * k \<le> unat s" using assms(4) by (auto simp: k_def)
  have "unat (s AND NOT (mask 3)) = 8 * k"
    unfolding unat_and_not_mask k_def by simp (metis minus_mod_eq_mult_div)
  then have a: "s AND NOT 7 = 8 * of_nat k"
    using unat_8_mult [OF k(2)] by (simp add: word_unat_eq_iff mask_eq_exp_minus_1)
  have "8 * of_nat k - 8 = (8 * of_nat (k - 1) :: u32)" using diff_8 [of 1 k] k(1) by simp
  then have i: "(s AND NOT 7) - 8 OR HEAP_MASK_LAST = hdr (k - 1) False True"
    unfolding a by (simp only: hdr_def HEAP_MASK_LAST_def) simp
  have h: "heap = heap0\<lparr>h_size := 8 * of_nat k, h_memory := memory\<rparr>"
    "m = set_m_size_prev memory 0 (set_m_size memory (hdr (k - 1) False True) m0)"
    using assms(1) unfolding heap_init_def Let_def i unfolding a by simp_all
  show "h_memory heap = memory" "unat (h_size heap) = 8 * (unat s div 8)"
    using unat_8_mult [OF k(2)] by (simp_all add: h k_def)
  have "m_size m (mk memory 0) = hdr (k - 1) False True" "m_size_prev m (mk memory 0) = 0"
    using m_size_set [OF assms(2), of 0 0] unfolding h mk_0 by simp_all
  then show "heap_ok heap m [(unat s div 8 - 1, False)]"
    using assms(2-5) k by (simp add: heap_ok_def h k_def [symmetric])
qed

lemma chain_cong:
  assumes "\<And>v. u \<le> v \<Longrightarrow> v < u + units bs \<Longrightarrow> m_size m' (mk b v) = m_size m (mk b v) \<and> m_size_prev m' (mk b v) = m_size_prev m (mk b v)"
  shows "chain b m' u p bs e \<longleftrightarrow> chain b m u p bs e"
  using assms
proof (induction bs arbitrary: u p)
  case (Cons c bs)
  obtain n t where c: "c = (n, t)" by (cases c)
  have "chain b m' (u + 1 + n) n bs e \<longleftrightarrow> chain b m (u + 1 + n) n bs e"
    by (rule Cons.IH) (use Cons.prems in \<open>auto simp: c\<close>)
  then show ?case using Cons.prems [of u] by (simp add: c)
qed simp

lemma marker_bytes:
  assumes "unat b + 8 * (v + 1) \<le> 4294967296" "\<not> (unat b + 8 * v \<le> unat a \<and> unat a < unat b + 8 * (v + 1))"
  shows "m_size (m(a := x)) (mk b v) = m_size m (mk b v)" "m_size_prev (m(a := x)) (mk b v) = m_size_prev m (mk b v)"
proof -
  have ne: "mk b v + of_nat j \<noteq> a" if "j < 8" for j
  proof
    assume "mk b v + of_nat j = a"
    then have "a = of_nat (unat b + 8 * v + j)" by (simp add: mk_def)
    then have "unat a = unat b + 8 * v + j"
      using assms(1) that unat_of_nat_u32 [of "unat b + 8 * v + j"] by (simp del: of_nat_add)
    then show False using assms(2) that by simp
  qed
  have n: "mk b v \<noteq> a" "mk b v + 1 \<noteq> a" "mk b v + 2 \<noteq> a" "mk b v + 3 \<noteq> a"
    "mk b v + 4 \<noteq> a" "mk b v + 5 \<noteq> a" "mk b v + 6 \<noteq> a" "mk b v + 7 \<noteq> a"
    using ne [of 0] ne [of 1] ne [of 2] ne [of 3] ne [of 4] ne [of 5] ne [of 6] ne [of 7] by simp_all
  then show "m_size (m(a := x)) (mk b v) = m_size m (mk b v)" "m_size_prev (m(a := x)) (mk b v) = m_size_prev m (mk b v)"
    by (simp_all add: m_size_def m_size_prev_def load32_def add.assoc)
qed

lemma heap_ok_payload:
  assumes "heap_ok heap m bs" "(u, n) \<in> taken 0 bs" "byte_in (h_memory heap) (u, n) a"
  shows "heap_ok heap (m(a := x)) bs"
proof -
  define b where "b = h_memory heap"
  obtain xs ys where x: "bs = xs @ (n, True) # ys" "u = units xs" using taken_split [OF assms(2)] by auto
  have bnd: "unat b + 64 * units bs < 4294967296" using assms(1) by (simp add: heap_ok_def b_def)
  have a: "unat b + 8 * (u + 1) \<le> unat a" "unat a < unat b + 8 * (u + 1 + n)"
    using assms(3) by (simp_all add: byte_in_def b_def)
  have same: "m_size (m(a := x)) (mk b v) = m_size m (mk b v) \<and> m_size_prev (m(a := x)) (mk b v) = m_size_prev m (mk b v)"
    if "v \<le> u \<or> u + 1 + n \<le> v" "v < units bs" for v
    using marker_bytes [of b v a m x] bnd a that by (auto simp: not_le)
  have "chain b (m(a := x)) 0 0 xs False = chain b m 0 0 xs False"
    by (rule chain_cong) (use same x in auto)
  moreover have "chain b (m(a := x)) (u + 1 + n) n ys True = chain b m (u + 1 + n) n ys True"
    by (rule chain_cong) (use same x in auto)
  ultimately have "chain b (m(a := x)) 0 0 bs True = chain b m 0 0 bs True"
    using same [of u] x by (simp add: chain_append)
  then show ?thesis using assms(1) by (simp add: heap_ok_def b_def)
qed

lemma in_use_cases:
  assumes "(p, s) \<in> in_use heap bs sz"
  obtains u n where "(u, n) \<in> taken 0 bs" "p = mk (h_memory heap) (u + 1)" "s = sz u"
  using assms by (auto simp: in_use_def)

text \<open>A byte at an offset below the size of a block is a byte of the block.\<close>

lemma block_byte:
  assumes "heap_ok heap m bs" "(u, n) \<in> taken 0 bs" "unat (a - mk (h_memory heap) (u + 1)) < 8 * n"
  shows "byte_in (h_memory heap) (u, n) a"
proof -
  define d where "d = unat (a - mk (h_memory heap) (u + 1))"
  have b: "unat (h_memory heap) + 64 * units bs < 4294967296" using assms(1) by (simp add: heap_ok_def)
  have d: "d < 8 * n" "u + 1 + n \<le> units bs" using assms(3) unat_block(2) [OF assms(1,2)] by (simp_all add: d_def)
  have "a = mk (h_memory heap) (u + 1) + of_nat d" by (simp add: d_def)
  also have "\<dots> = of_nat (unat (h_memory heap) + 8 * (u + 1) + d)" by (simp add: mk_def)
  finally have "unat a = unat (h_memory heap) + 8 * (u + 1) + d"
    using d b unat_of_nat_u32 [of "unat (h_memory heap) + 8 * (u + 1) + d"] by (simp del: of_nat_add of_nat_Suc)
  then show ?thesis using d(1) by (simp add: byte_in_def)
qed

lemma in_use_byte:
  assumes "heap_ok heap m bs" "\<forall>(u, n)\<in>taken 0 bs. unat (sz u) \<le> 8 * n" "(u, n) \<in> taken 0 bs"
    and "unat (a - mk (h_memory heap) (u + 1)) < unat (sz u)"
  shows "byte_in (h_memory heap) (u, n) a"
proof (rule block_byte [OF assms(1,3)])
  have "unat (sz u) \<le> 8 * n" using assms(2,3) by auto
  with assms(4) show "unat (a - mk (h_memory heap) (u + 1)) < 8 * n" by (rule less_le_trans)
qed

lemma heap_step_malloc:
  assumes inv: "heap_inv heap (m, A)" and s: "0 < unat s" "unat s < 2147483648" and r: "malloc heap s m = Some (p, m')"
  shows "heap_inv heap (m', if p = 0 then A else insert (p, s) A)"
proof -
  obtain bs sz where bs: "heap_ok heap m bs" "A = in_use heap bs sz" "\<forall>(u, n)\<in>taken 0 bs. unat (sz u) \<le> 8 * n"
    using inv by (rule heap_invE)
  obtain bs' where r': "heap_ok heap m' bs'" "if p = 0 then m' = m \<and> bs' = bs \<and> (\<forall>k. (k, False) \<in> set bs \<longrightarrow> 8 * k < unat s)
       else \<exists>u n. p = mk (h_memory heap) (u + 1) \<and> unat s \<le> 8 * n \<and> (u, n) \<notin> taken 0 bs
         \<and> taken 0 bs' = insert (u, n) (taken 0 bs)
         \<and> (\<forall>r\<in>taken 0 bs. \<forall>a. byte_in (h_memory heap) r a \<longrightarrow> m' a = m a)"
    using heap_alloc_refines [OF bs(1) s] r by (auto simp: malloc_def)
  show ?thesis
  proof (cases "p = 0")
    case True
    then show ?thesis using r' inv by simp
  next
    case False
    then obtain u n where u: "p = mk (h_memory heap) (u + 1)" "unat s \<le> 8 * n" "(u, n) \<notin> taken 0 bs"
      "taken 0 bs' = insert (u, n) (taken 0 bs)" using r'(2) by auto
    have ne: "v \<noteq> u" if "(v, k) \<in> taken 0 bs" for v k
      using taken_disjoint [of u n 0 bs' v k] u(3,4) that by auto
    have img: "(\<lambda>(v, n). (mk (h_memory heap) (v + 1), (sz(u := s)) v)) ` taken 0 bs = A"
      unfolding bs(2) in_use_def by (rule image_cong [OF refl]) (use ne in auto)
    have "in_use heap bs' (sz(u := s)) = insert (p, s) A"
      unfolding in_use_def u(4) image_insert img by (simp add: u(1))
    moreover have "\<forall>(v, k)\<in>taken 0 bs'. unat ((sz(u := s)) v) \<le> 8 * k"
      using bs(3) u(2,4) ne by auto
    ultimately have "heap_inv heap (m', insert (p, s) A)" using r'(1) by (blast intro: heap_invI)
    then show ?thesis using False by simp
  qed
qed

lemma heap_step_free:
  assumes inv: "heap_inv heap (m, A)" and p: "(p, s) \<in> A"
  shows "heap_inv heap (free heap p m, A - {(p, s)})"
proof -
  obtain bs sz where bs: "heap_ok heap m bs" "A = in_use heap bs sz" "\<forall>(u, n)\<in>taken 0 bs. unat (sz u) \<le> 8 * n"
    using inv by (rule heap_invE)
  obtain u n where u: "(u, n) \<in> taken 0 bs" "p = mk (h_memory heap) (u + 1)" "s = sz u"
    using in_use_cases p bs(2) by metis
  obtain m' bs' where f: "heap_free heap p m = (True, m')" "heap_ok heap m' bs'" "taken 0 bs' = taken 0 bs - {(u, n)}"
    using heap_free_refines [OF bs(1) u(1)] u(2) by blast
  have "inj_on (\<lambda>(u, n). (mk (h_memory heap) (u + 1), sz u)) (taken 0 bs)"
  proof (rule inj_onI, clarify)
    fix v k w l
    assume v: "(v, k) \<in> taken 0 bs" "(w, l) \<in> taken 0 bs" "mk (h_memory heap) (v + 1) = mk (h_memory heap) (w + 1)"
    show "v = w \<and> k = l" by (rule block_inj [OF bs(1) v])
  qed
  from inj_on_image_set_diff [OF this, of "taken 0 bs" "{(u, n)}"]
  have "in_use heap bs' sz = A - {(p, s)}" using u f(3) bs(2) by (simp add: in_use_def)
  moreover have "free heap p m = m'" using f(1) unat_block(3) [OF bs(1) u(1)] u(2) by (simp add: free_def)
  moreover have "\<forall>(u, n)\<in>taken 0 bs'. unat (sz u) \<le> 8 * n" using f(3) bs(3) by auto
  ultimately show ?thesis using f(2) by (metis heap_invI)
qed

lemma heap_step_write:
  assumes inv: "heap_inv heap (m, A)" and p: "(p, s) \<in> A" and a: "unat (a - p) < unat s"
  shows "heap_inv heap (m(a := x), A)"
proof -
  obtain bs sz where bs: "heap_ok heap m bs" "A = in_use heap bs sz" "\<forall>(u, n)\<in>taken 0 bs. unat (sz u) \<le> 8 * n"
    using inv by (rule heap_invE)
  obtain u n where u: "(u, n) \<in> taken 0 bs" "p = mk (h_memory heap) (u + 1)" "s = sz u"
    using in_use_cases p bs(2) by metis
  have "byte_in (h_memory heap) (u, n) a"
    by (rule in_use_byte [OF bs(1,3) u(1)]) (use a in \<open>unfold u(2,3)\<close>)
  then show ?thesis using heap_ok_payload [OF bs(1) u(1)] bs(2,3) by (blast intro: heap_invI)
qed

interpretation heap_run: invariant_system "heap_start heap" "heap_step heap" "heap_inv heap" for heap
proof
  show "heap_inv heap t" if "heap_inv heap s" "heap_step heap s t" for s t
    using that(2)
  proof cases
    case (1 sa m p m' A)
    then show ?thesis using heap_step_malloc [of heap m A sa p m'] that(1) by simp
  next
    case (2 p sa A m)
    then show ?thesis using heap_step_free [of heap m A p sa] that(1) by simp
  next
    case (3 p sa A a m x)
    then show ?thesis using heap_step_write [of heap m A p sa a x] that(1) by simp
  qed
next
  show "heap_inv heap s" if start: "heap_start heap s" for s
  proof -
    obtain m A where "s = (m, A)" by (cases s)
    then have s: "s = (m, {})" using start by (simp add: heap_start_def)
    obtain sz memory heap0 m0 where "heap_init sz memory heap0 m0 = (heap, m)" "aligned 2 memory" "8 \<le> unat memory"
      "16 \<le> unat sz" "unat memory + 8 * unat sz < 4294967296" using start s by (auto simp: heap_start_def)
    from heap_init_ok(1) [OF this] show ?thesis
      unfolding s by (rule heap_invI [where sz = "\<lambda>_. 0"]) (simp_all add: in_use_def)
  qed
qed

lemma heap_size_units:
  assumes "heap_ok heap m bs" shows "unat (h_size heap) = 8 * units bs"
proof -
  have "units bs < 536870912" "h_size heap = 8 * of_nat (units bs)" using assms by (simp_all add: heap_ok_def)
  then show ?thesis by (simp only: unat_8_mult)
qed

lemma block_bounds:
  "s \<le> 8 * n \<Longrightarrow> u + 1 + n \<le> (k :: nat) \<Longrightarrow> b + 8 \<le> b + 8 * (u + 1) \<and> b + 8 * (u + 1) + s \<le> b + 8 * k"
  by simp

lemma in_use_apart:
  assumes ok: "heap_ok heap m bs" "\<forall>(u, n)\<in>taken 0 bs. unat (sz u) \<le> 8 * n"
    and "(p, s) \<in> in_use heap bs sz" "(q, t) \<in> in_use heap bs sz" "(p, s) \<noteq> (q, t)"
  shows "unat p + unat s \<le> unat q \<or> unat q + unat t \<le> unat p"
proof -
  obtain u n where u: "(u, n) \<in> taken 0 bs" "p = mk (h_memory heap) (u + 1)" "s = sz u"
    using assms(3) by (rule in_use_cases)
  obtain v k where v: "(v, k) \<in> taken 0 bs" "q = mk (h_memory heap) (v + 1)" "t = sz v"
    using assms(4) by (rule in_use_cases)
  have "(u, n) \<noteq> (v, k)" using assms(5) u v by auto
  then have "u + 1 + n \<le> v \<or> v + 1 + k \<le> u" using taken_disjoint [OF u(1) v(1)] by blast
  moreover have "unat s \<le> 8 * n" "unat t \<le> 8 * k" using ok(2) u v by auto
  ultimately show ?thesis
    using unat_block(1) [OF ok(1) u(1)] unat_block(1) [OF ok(1) v(1)] unfolding u(2) v(2) by auto
qed

text \<open>A heap of 64 bytes and a client that has allocated 12 of them, for the witnesses.\<close>

definition demo_heap :: "heap_ctxt \<times> mem" where
  "demo_heap = heap_init 64 0x1000 \<lparr>h_size = 0, h_end = 0, h_user = 0, h_memory = 0\<rparr> (\<lambda>_. 0)"

lemma demo_heap_start: "heap_start (fst demo_heap) (snd demo_heap, {})"
proof -
  have "aligned 2 (0x1000 :: u32)" by (simp add: aligned_2_iff)
  moreover have "heap_init 64 0x1000 \<lparr>h_size = 0, h_end = 0, h_user = 0, h_memory = 0\<rparr> (\<lambda>_. 0) = (fst demo_heap, snd demo_heap)"
    by (simp add: demo_heap_def)
  ultimately show ?thesis unfolding heap_start_def fst_conv snd_conv
    by (intro conjI refl exI [of _ "64"] exI [of _ "0x1000"] exI [of _ "\<lparr>h_size = 0, h_end = 0, h_user = 0, h_memory = 0\<rparr>"]
        exI [of _ "\<lambda>_. 0"]) simp_all
qed

lemma demo_heap_malloc:
  obtains m where "malloc (fst demo_heap) 12 (snd demo_heap) = Some (0x1008, m)"
    "(heap_step (fst demo_heap))\<^sup>*\<^sup>* (snd demo_heap, {}) (m, {(0x1008, 12)})"
proof -
  have "map_option fst (malloc (fst demo_heap) 12 (snd demo_heap)) = Some 0x1008" by code_simp
  then obtain m where m: "malloc (fst demo_heap) 12 (snd demo_heap) = Some (0x1008, m)" by auto
  have "heap_step (fst demo_heap) (snd demo_heap, {}) (m, if (0x1008 :: u32) = 0 then {} else {(0x1008, 12)})"
    by (rule heap_step.intros(1) [OF _ _ m]) simp_all
  then show thesis using that m by (simp add: r_into_rtranclp)
qed

text \<open>C19: The heap isolates its clients. In every state reached from \<open>heap_init\<close> by allocating, releasing and
  writing within the blocks: each block in use lies in the heap, after a marker; two blocks in use do not
  overlap; an allocation returns (the search for a block ends); and neither an allocation nor the release of
  another block changes a byte of a block in use.\<close>

theorem heap_isolates:
  assumes "heap_start heap c0" "(heap_step heap)\<^sup>*\<^sup>* c0 (m, A)"
  shows "(\<forall>(p, s)\<in>A. unat (h_memory heap) + 8 \<le> unat p \<and> unat p + unat s \<le> unat (h_memory heap) + unat (h_size heap))
    \<and> (\<forall>(p, s)\<in>A. \<forall>(q, t)\<in>A. (p, s) \<noteq> (q, t) \<longrightarrow> unat p + unat s \<le> unat q \<or> unat q + unat t \<le> unat p)
    \<and> (\<forall>t. 0 < unat t \<longrightarrow> unat t < 2147483648 \<longrightarrow> (\<exists>q m'. malloc heap t m = Some (q, m')
        \<and> (\<forall>(p, s)\<in>A. \<forall>a. unat (a - p) < unat s \<longrightarrow> m' a = m a)))
    \<and> (\<forall>(q, t)\<in>A. \<forall>(p, s)\<in>A - {(q, t)}. \<forall>a. unat (a - p) < unat s \<longrightarrow> free heap q m a = m a)"
proof -
  have "heap_inv heap (m, A)" using assms by (rule heap_run.reachable_inv)
  then obtain bs sz where ok: "heap_ok heap m bs" "A = in_use heap bs sz" "\<forall>(u, n)\<in>taken 0 bs. unat (sz u) \<le> 8 * n"
    by (rule heap_invE)
  have bytes: "\<exists>r\<in>taken 0 bs. p = mk (h_memory heap) (fst r + 1) \<and> byte_in (h_memory heap) r a"
    if ps: "(p, s) \<in> A" "unat (a - p) < unat s" for p s a
  proof -
    obtain u n where u: "(u, n) \<in> taken 0 bs" "p = mk (h_memory heap) (u + 1)" "s = sz u"
      using ps(1) ok(2) in_use_cases by metis
    have "byte_in (h_memory heap) (u, n) a"
      by (rule in_use_byte [OF ok(1,3) u(1)]) (use ps(2) in \<open>unfold u(2,3)\<close>)
    then show ?thesis using u(1) unfolding u(2) by (intro bexI [of _ "(u, n)"]) (simp_all only: fst_conv simp_thms)
  qed
  have 1: "unat (h_memory heap) + 8 \<le> unat p \<and> unat p + unat s \<le> unat (h_memory heap) + unat (h_size heap)"
    if ps: "(p, s) \<in> A" for p s
  proof -
    obtain u n where u: "(u, n) \<in> taken 0 bs" "p = mk (h_memory heap) (u + 1)" "s = sz u"
      using ps ok(2) in_use_cases by metis
    have "unat (sz u) \<le> 8 * n" using ok(3) u(1) by auto
    from block_bounds [OF this unat_block(2) [OF ok(1) u(1)]] show ?thesis
      unfolding u(2,3) unat_block(1) [OF ok(1) u(1)] heap_size_units [OF ok(1)] .
  qed
  have 2: "\<exists>q m'. malloc heap t m = Some (q, m') \<and> (\<forall>(p, s)\<in>A. \<forall>a. unat (a - p) < unat s \<longrightarrow> m' a = m a)"
    if t: "0 < unat t" "unat t < 2147483648" for t
  proof -
    obtain q m' where r: "malloc heap t m = Some (q, m')"
      "q = 0 \<and> m' = m \<or> (\<forall>r\<in>taken 0 bs. \<forall>a. byte_in (h_memory heap) r a \<longrightarrow> m' a = m a)"
      using heap_alloc_refines [OF ok(1) t] unfolding malloc_def by (metis (no_types, lifting))
    moreover have "m' a = m a" if "(p, s) \<in> A" "unat (a - p) < unat s" for p s a
      using r(2) bytes [OF that] by blast
    ultimately show ?thesis by blast
  qed
  have 3: "free heap q m a = m a" if f: "(q, t) \<in> A" "(p, s) \<in> A" "(p, s) \<noteq> (q, t)" "unat (a - p) < unat s" for q t p s a
  proof -
    obtain v k where v: "(v, k) \<in> taken 0 bs" "q = mk (h_memory heap) (v + 1)" "t = sz v"
      using f(1) ok(2) in_use_cases by metis
    obtain m' bs' where r: "heap_free heap q m = (True, m')" "taken 0 bs' = taken 0 bs - {(v, k)}"
      "\<forall>r\<in>taken 0 bs'. \<forall>a. byte_in (h_memory heap) r a \<longrightarrow> m' a = m a"
      using heap_free_refines [OF ok(1) v(1)] v(2) by blast
    obtain u n where u: "(u, n) \<in> taken 0 bs" "p = mk (h_memory heap) (u + 1)" "s = sz u"
      using f(2) ok(2) in_use_cases by metis
    have "byte_in (h_memory heap) (u, n) a"
      by (rule in_use_byte [OF ok(1,3) u(1)]) (use f(4) in \<open>unfold u(2,3)\<close>)
    moreover have "(u, n) \<noteq> (v, k)" using f(3) u v by auto
    ultimately have "m' a = m a" using r(2,3) u(1) by blast
    then show ?thesis using r(1) unat_block(3) [OF ok(1) v(1)] v(2) by (simp add: free_def)
  qed
  show ?thesis using 1 2 3 in_use_apart [OF ok(1,3)] ok(2) by blast
qed

lemma all_free_one_block:
  assumes "heap_ok heap m bs" "taken 0 bs = {}"
  shows "bs = [(units bs - 1, False)]"
proof -
  have free: "\<not> snd x" if "x \<in> set bs" for x
  proof
    assume t: "snd x"
    obtain xs ys where "bs = xs @ x # ys" using \<open>x \<in> set bs\<close> by (meson split_list)
    then have "(units xs, fst x) \<in> taken 0 bs" using t by (cases x) (simp add: taken_append)
    then show False using assms(2) by simp
  qed
  have ok: "bs \<noteq> []" "successively (\<lambda>x y. snd x \<or> snd y) bs" using assms(1) by (simp_all add: heap_ok_def)
  then obtain x xs where x: "bs = x # xs" by (cases bs) auto
  moreover have "xs = []"
  proof (cases xs)
    case (Cons y ys)
    then have "snd x \<or> snd y" using ok(2) x by simp
    then show ?thesis using free x Cons by auto
  qed
  ultimately show ?thesis using free by (cases x) auto
qed

theorem heap_isolates_witness:
  "\<exists>m. malloc (fst demo_heap) 12 (snd demo_heap) = Some (0x1008, m)
     \<and> (\<exists>q m'. malloc (fst demo_heap) 16 m = Some (q, m') \<and> (\<forall>a. unat (a - 0x1008) < 12 \<longrightarrow> m' a = m a))"
proof -
  obtain m where m: "malloc (fst demo_heap) 12 (snd demo_heap) = Some (0x1008, m)"
    "(heap_step (fst demo_heap))\<^sup>*\<^sup>* (snd demo_heap, {}) (m, {(0x1008, 12)})" by (rule demo_heap_malloc)
  from heap_isolates [OF demo_heap_start m(2), THEN conjunct2, THEN conjunct2, THEN conjunct1, rule_format, of 16]
  show ?thesis using m(1) by auto
qed

text \<open>C20: The heap recovers. Whatever its clients have done, when every block has been released the heap is
  again one free block: free neighbours have been joined, nothing has leaked and nothing stays fragmented, so
  a request for all of it (one marker less than its size) succeeds.\<close>

theorem heap_recovers:
  assumes "heap_start heap c0" "(heap_step heap)\<^sup>*\<^sup>* c0 (m, {})"
    and "0 < unat t" "unat t + 8 \<le> unat (h_size heap)"
  shows "\<exists>p m'. malloc heap t m = Some (p, m') \<and> p \<noteq> 0"
proof -
  have "heap_inv heap (m, {})" using assms(1,2) by (rule heap_run.reachable_inv)
  then obtain bs sz where ok: "heap_ok heap m bs" "{} = in_use heap bs sz" by (rule heap_invE)
  then have one: "bs = [(units bs - 1, False)]" by (intro all_free_one_block) (auto simp: in_use_def)
  have t: "unat t + 8 \<le> 8 * units bs" "unat t < 2147483648"
    using assms(4) heap_size_units [OF ok(1)] ok(1) by (auto simp: heap_ok_def)
  obtain p m' bs' where r: "heap_alloc heap t m = Some (p, m')"
    "p = 0 \<Longrightarrow> \<forall>k. (k, False) \<in> set bs \<longrightarrow> 8 * k < unat t"
    using heap_alloc_refines [OF ok(1) assms(3) t(2)] by (metis (no_types, lifting))
  have "(units bs - 1, False) \<in> set bs" by (subst (2) one) simp
  then have "p \<noteq> 0" using r(2) t(1) by force
  then show ?thesis using r(1) by (simp add: malloc_def)
qed

theorem heap_recovers_witness:
  "\<exists>p m'. malloc (fst demo_heap) 56 (snd demo_heap) = Some (p, m') \<and> p \<noteq> 0"
proof (rule heap_recovers [OF demo_heap_start rtranclp.rtrancl_refl])
  have "h_size (fst demo_heap) = 64" by code_simp
  then show "unat (56 :: u32) + 8 \<le> unat (h_size (fst demo_heap))" by simp
qed simp

text \<open>C21: A double free is refused. Releasing a block in use succeeds; releasing the same pointer again fails
  and changes nothing, also when the block has been joined to the free block before it, because joining spoils
  its marker.\<close>

theorem heap_double_free:
  assumes "heap_start heap c0" "(heap_step heap)\<^sup>*\<^sup>* c0 (m, A)" "(p, s) \<in> A"
  shows "\<exists>m'. heap_free heap p m = (True, m') \<and> heap_free heap p m' = (False, m')"
proof -
  have "heap_inv heap (m, A)" using assms(1,2) by (rule heap_run.reachable_inv)
  then obtain bs sz where ok: "heap_ok heap m bs" "A = in_use heap bs sz" by (rule heap_invE)
  obtain u n where u: "(u, n) \<in> taken 0 bs" "p = mk (h_memory heap) (u + 1)" "s = sz u"
    using assms(3) ok(2) in_use_cases by metis
  then show ?thesis using heap_free_refines [OF ok(1) u(1)] by blast
qed

theorem heap_double_free_witness:
  "\<exists>m m'. malloc (fst demo_heap) 12 (snd demo_heap) = Some (0x1008, m)
     \<and> heap_free (fst demo_heap) 0x1008 m = (True, m') \<and> heap_free (fst demo_heap) 0x1008 m' = (False, m')"
proof -
  obtain m where m: "malloc (fst demo_heap) 12 (snd demo_heap) = Some (0x1008, m)"
    "(heap_step (fst demo_heap))\<^sup>*\<^sup>* (snd demo_heap, {}) (m, {(0x1008, 12)})" by (rule demo_heap_malloc)
  from heap_double_free [OF demo_heap_start m(2)] show ?thesis using m(1) by auto
qed

text \<open>The bound that \<open>heap_free\<close> checks is \<open>size\<close> markers after the start. When that wraps around to zero,
  as for a heap of 32 megabytes at \<open>0xF0000000\<close>, every pointer is refused.\<close>

lemma heap_free_bound_wraps:
  assumes "h_memory heap + 8 * h_size heap = 0"
  shows "heap_free heap adr m = (False, m)"
  using assms by (simp add: heap_free_def Let_def)

end
