(* ===== verification/Mem_Buddy.thy ===== *)
theory Mem_Buddy
  imports Util_Pool
begin

text \<open>
  The buddy allocator of \<open>library/mem/src/buddy.c\<close>. The array \<open>all\<close> is two functions of the index, one
  per field of \<open>buddy_block_t\<close>; \<open>all\<close> itself is the address of the array, 0 when there is none. The array
  \<open>free\<close> is a function of the order; an empty list is \<open>-1\<close>.
\<close>

section \<open>The code\<close>

record buddy_ctxt =
  b_base :: u32
  b_index_max :: u32
  b_page_bits :: u32
  b_order :: u32
  b_all :: u32
  b_next :: "u32 \<Rightarrow> u32"
  b_prev :: "u32 \<Rightarrow> u32"
  b_free :: "u32 \<Rightarrow> u32"

definition FLAG_FREE :: u32 where [simp]: "FLAG_FREE = 0x80000000"
definition MASK_NEXT :: u32 where [simp]: "MASK_NEXT = 0x0FFFFFFF"
definition GET_NEXT :: "buddy_ctxt \<Rightarrow> u32 \<Rightarrow> u32" where "GET_NEXT b x = b_next b x AND MASK_NEXT"
definition IS_FREE :: "buddy_ctxt \<Rightarrow> u32 \<Rightarrow> bool" where "IS_FREE b x \<longleftrightarrow> b_next b x AND FLAG_FREE \<noteq> 0"
definition SHIFT_ORDER :: nat where [simp]: "SHIFT_ORDER = 27"
definition MASK_ORDER :: u32 where [simp]: "MASK_ORDER = 0xF8000000"
definition MASK_PREV :: u32 where [simp]: "MASK_PREV = 0x07FFFFFF"
definition GET_PREV :: "buddy_ctxt \<Rightarrow> u32 \<Rightarrow> u32" where "GET_PREV b x = b_prev b x AND MASK_PREV"
definition GET_ORDER :: "buddy_ctxt \<Rightarrow> u32 \<Rightarrow> u32" where "GET_ORDER b x = drop_bit SHIFT_ORDER (b_prev b x)"

text \<open>A shift by a register takes its amount from the low byte of the register.\<close>

definition lsl :: "u32 \<Rightarrow> u32 \<Rightarrow> u32" where
  "lsl x n = (let k = unat n mod 256 in if k < 32 then push_bit k x else 0)"

definition lsr :: "u32 \<Rightarrow> u32 \<Rightarrow> u32" where
  "lsr x n = (let k = unat n mod 256 in if k < 32 then drop_bit k x else 0)"

definition set_b_next :: "u32 \<Rightarrow> u32 \<Rightarrow> buddy_ctxt \<Rightarrow> buddy_ctxt" where
  "set_b_next x v b = b\<lparr>b_next := (b_next b)(x := v)\<rparr>"

definition set_b_prev :: "u32 \<Rightarrow> u32 \<Rightarrow> buddy_ctxt \<Rightarrow> buddy_ctxt" where
  "set_b_prev x v b = b\<lparr>b_prev := (b_prev b)(x := v)\<rparr>"

definition set_b_free :: "u32 \<Rightarrow> u32 \<Rightarrow> buddy_ctxt \<Rightarrow> buddy_ctxt" where
  "set_b_free i v b = b\<lparr>b_free := (b_free b)(i := v)\<rparr>"

definition buddy_add_free :: "u32 \<Rightarrow> u32 \<Rightarrow> buddy_ctxt \<Rightarrow> buddy_ctxt" where
  "buddy_add_free index order b =
     (let first = b_free b order;
          b = (if first = - 1 then set_b_next index (FLAG_FREE OR index) b
               else set_b_next index (FLAG_FREE OR first)
                      (set_b_prev first ((b_prev b first AND MASK_ORDER) OR index) b));
          b = set_b_prev index (push_bit SHIFT_ORDER order OR index) b
      in set_b_free order index b)"

definition buddy_remove_free :: "u32 \<Rightarrow> u32 \<Rightarrow> buddy_ctxt \<Rightarrow> buddy_ctxt" where
  "buddy_remove_free index order b =
     (let index_next = GET_NEXT b index; index_prev = GET_PREV b index
      in if index_prev = index
         then if index_next = index then set_b_free order (- 1) b
              else set_b_prev index_next ((b_prev b index_next AND MASK_ORDER) OR index_next)
                     (set_b_free order index_next b)
         else if index_next = index
              then set_b_next index_prev ((b_next b index_prev AND MASK_ORDER) OR index_prev) b
              else set_b_next index_prev ((b_next b index_prev AND MASK_ORDER) OR index_next)
                     (set_b_prev index_next ((b_prev b index_next AND MASK_ORDER) OR index_prev) b))"

text \<open>The loop of \<open>buddy_free\<close> over the orders, with the number of orders left as its measure.\<close>

fun buddy_merge :: "nat \<Rightarrow> u32 \<Rightarrow> u32 \<Rightarrow> u32 \<Rightarrow> buddy_ctxt \<Rightarrow> u32 \<times> u32 \<times> buddy_ctxt" where
  "buddy_merge 0 i order_max index b = (i, index, b)"
| "buddy_merge (Suc n) i order_max index b =
     (if slt i order_max
      then let index_buddy = index XOR lsl 1 i
           in if b_index_max b \<le> index_buddy then (i, index, b)
              else if \<not> IS_FREE b index_buddy \<or> GET_ORDER b index_buddy \<noteq> i then (i, index, b)
              else let b = buddy_remove_free index_buddy i b
                   in buddy_merge n (i + 1) order_max (if index_buddy < index then index_buddy else index) b
      else (i, index, b))"

definition buddy_free :: "u32 \<Rightarrow> buddy_ctxt \<Rightarrow> bool \<times> buddy_ctxt" where
  "buddy_free adr b =
     (let index = lsr (adr - b_base b) (b_page_bits b)
      in if index < b_index_max b
         then if \<not> IS_FREE b index
              then let order_max = b_order b - 1;
                       (i, index, b) = buddy_merge (nat (sint order_max - sint (GET_ORDER b index)))
                         (GET_ORDER b index) order_max index b
                   in (True, buddy_add_free index i b)
              else (False, b)
         else (False, b))"

text \<open>The loops of \<open>buddy_allocate_subset\<close>: a step of the size of the block at \<open>index2\<close>, of one elsewhere.\<close>

partial_function (option) subset_clear :: "u32 \<Rightarrow> u32 \<Rightarrow> u32 \<Rightarrow> u32 \<Rightarrow> u32 \<Rightarrow> buddy_ctxt \<Rightarrow> buddy_ctxt option" where
  "subset_clear i index1 order1 index2 order2 b =
     (if i < lsl 1 order1
      then subset_clear (if index1 + i = index2 then i + (lsl 1 order2 - 1) + 1 else i + 1) index1 order1 index2 order2
             (set_b_prev (index1 + i) 0 (set_b_next (index1 + i) 0 b))
      else Some b)"

partial_function (option) subset_free :: "u32 \<Rightarrow> u32 \<Rightarrow> u32 \<Rightarrow> u32 \<Rightarrow> u32 \<Rightarrow> buddy_ctxt \<Rightarrow> buddy_ctxt option" where
  "subset_free i index1 order1 index2 order2 b =
     (if i < lsl 1 order1
      then if index1 + i = index2
           then subset_free (i + (lsl 1 order2 - 1) + 1) index1 order1 index2 order2
                  (set_b_prev (index1 + i) (push_bit SHIFT_ORDER order2) b)
           else subset_free (i + 1) index1 order1 index2 order2
                  (snd (buddy_free (b_base b + lsl (index1 + i) (b_page_bits b)) b))
      else Some b)"

declare subset_clear.simps [code] subset_free.simps [code]

definition buddy_allocate_subset :: "u32 \<Rightarrow> u32 \<Rightarrow> u32 \<Rightarrow> u32 \<Rightarrow> buddy_ctxt \<Rightarrow> buddy_ctxt option" where
  "buddy_allocate_subset index1 order1 index2 order2 b =
     Option.bind (subset_clear 0 index1 order1 index2 order2 (buddy_remove_free index1 order1 b))
       (subset_free 0 index1 order1 index2 order2)"

partial_function (option) order_from_size :: "u32 \<Rightarrow> u32 \<Rightarrow> u32 option" where
  "order_from_size sz ret = (if lsl 1 ret < sz then order_from_size sz (ret + 1) else Some ret)"

declare order_from_size.simps [code]

definition buddy_get_order_from_size :: "buddy_ctxt \<Rightarrow> u32 \<Rightarrow> u32 option" where
  "buddy_get_order_from_size b sz = map_option (\<lambda>ret. ret - b_page_bits b) (order_from_size sz (b_page_bits b))"

fun contains_loop :: "nat \<Rightarrow> u32 \<Rightarrow> bool \<Rightarrow> buddy_ctxt \<Rightarrow> bool" where
  "contains_loop 0 i or_larger b = False"
| "contains_loop (Suc n) i or_larger b =
     (if slt i (b_order b)
      then if b_free b i \<noteq> - 1 then True
           else if \<not> or_larger then False else contains_loop n (i + 1) or_larger b
      else False)"

definition buddy_contains_order :: "u32 \<Rightarrow> bool \<Rightarrow> buddy_ctxt \<Rightarrow> bool" where
  "buddy_contains_order order or_larger b =
     (if slt order 0 \<or> \<not> slt order (b_order b) then False
      else contains_loop (nat (sint (b_order b) - sint order)) order or_larger b)"

definition buddy_belongs_to :: "u32 \<Rightarrow> buddy_ctxt \<Rightarrow> bool" where
  "buddy_belongs_to adr b \<longleftrightarrow> lsr (adr - b_base b) (b_page_bits b) < b_index_max b"

fun init_lists :: "nat \<Rightarrow> u32 \<Rightarrow> buddy_ctxt \<Rightarrow> buddy_ctxt" where
  "init_lists 0 i b = b"
| "init_lists (Suc n) i b = (if slt i (b_order b) then init_lists n (i + 1) (set_b_free i (- 1) b) else b)"

fun init_pages :: "nat \<Rightarrow> u32 \<Rightarrow> u32 \<Rightarrow> u32 \<Rightarrow> buddy_ctxt \<Rightarrow> buddy_ctxt" where
  "init_pages 0 i first_free last_free b = b"
| "init_pages (Suc n) i first_free last_free b =
     (let adr = b_base b + lsl i (b_page_bits b)
      in init_pages n (i + 1) first_free last_free
           (if (first_free = 0 \<or> first_free \<le> adr) \<and> (last_free = 0 \<or> adr < last_free)
            then snd (buddy_free adr b) else b))"

text \<open>The loop that counts the orders is that of \<open>buddy_get_order_from_size\<close>, from 0.\<close>

definition buddy_init :: "(u32 \<Rightarrow> u32) \<Rightarrow> u32 \<Rightarrow> u32 \<Rightarrow> u32 \<Rightarrow> u32 \<Rightarrow> u32 \<Rightarrow> buddy_ctxt \<Rightarrow> (bool \<times> buddy_ctxt) option" where
  "buddy_init malloc base sz page_bits first_free last_free b =
     (let page_size = lsl 1 page_bits; page_mask = page_size - 1
      in if base AND page_mask \<noteq> 0 then Some (False, b)
         else let b = b\<lparr>b_base := base, b_page_bits := page_bits\<rparr>;
                  sz = lsr sz page_bits;
                  b = b\<lparr>b_index_max := sz\<rparr>
              in if slt page_bits 5 \<or> slt 24 page_bits \<or> sz < 1 then Some (False, b)
                 else Option.bind (order_from_size sz 0) (\<lambda>order.
                   let b = b\<lparr>b_order := order + 1\<rparr>;
                       b = b\<lparr>b_all := malloc (sz * 8)\<rparr>
                   in if b_all b = 0 then Some (False, b)
                      else let b = b\<lparr>b_next := (\<lambda>i. if i < sz then 0 else b_next b i),
                                     b_prev := (\<lambda>i. if i < sz then 0 else b_prev b i)\<rparr>;
                               b = init_lists (nat (sint (b_order b))) 0 b;
                               last_free = last_free AND NOT page_mask;
                               first_free = (first_free + page_mask) AND NOT page_mask
                           in Some (True, init_pages (unat sz) 0 first_free last_free b)))"

definition buddy_cleanup :: "buddy_ctxt \<Rightarrow> buddy_ctxt" where
  "buddy_cleanup b = (if b_all b \<noteq> 0 then b\<lparr>b_all := 0\<rparr> else b)"

fun alloc_loop :: "nat \<Rightarrow> u32 \<Rightarrow> u32 \<Rightarrow> buddy_ctxt \<Rightarrow> (u32 option \<times> buddy_ctxt) option" where
  "alloc_loop 0 i order b = Some (None, b)"
| "alloc_loop (Suc n) i order b =
     (if slt i (b_order b)
      then let ret = b_free b i
           in if ret = - 1 then alloc_loop n (i + 1) order b
              else Option.bind (buddy_allocate_subset ret i ret order b) (\<lambda>b.
                Some (Some (b_base b + lsl ret (b_page_bits b)), b))
      else Some (None, b))"

text \<open>An allocation returns the address it writes to \<open>*adr\<close>, or \<open>None\<close> when it returns \<open>FALSE\<close>.\<close>

definition buddy_alloc :: "u32 \<Rightarrow> buddy_ctxt \<Rightarrow> (u32 option \<times> buddy_ctxt) option" where
  "buddy_alloc order b = alloc_loop (nat (sint (b_order b) - sint order)) order order b"

text \<open>The search of one free list for a block that covers the pages asked for.\<close>

partial_function (option) alloc_at_list :: "u32 \<Rightarrow> u32 \<Rightarrow> u32 \<Rightarrow> u32 \<Rightarrow> buddy_ctxt \<Rightarrow> u32 option option" where
  "alloc_at_list index i adr1 end1 b =
     (if index \<le> adr1 \<and> end1 < index + lsl 1 i then Some (Some index)
      else let nxt = GET_NEXT b index
           in if index = nxt then Some None else alloc_at_list nxt i adr1 end1 b)"

declare alloc_at_list.simps [code]

fun alloc_at_loop :: "nat \<Rightarrow> u32 \<Rightarrow> u32 \<Rightarrow> u32 \<Rightarrow> u32 \<Rightarrow> buddy_ctxt \<Rightarrow> (u32 option \<times> buddy_ctxt) option" where
  "alloc_at_loop 0 i order adr1 end1 b = Some (None, b)"
| "alloc_at_loop (Suc n) i order adr1 end1 b =
     (if slt i (b_order b)
      then let index = b_free b i
           in if index = - 1 then alloc_at_loop n (i + 1) order adr1 end1 b
              else Option.bind (alloc_at_list index i adr1 end1 b) (\<lambda>found.
                case found of
                  None \<Rightarrow> alloc_at_loop n (i + 1) order adr1 end1 b
                | Some index \<Rightarrow> Option.bind (buddy_allocate_subset index i adr1 order b) (\<lambda>b.
                    Some (Some (b_base b + lsl adr1 (b_page_bits b)), b)))
      else Some (None, b))"

definition buddy_alloc_at :: "u32 \<Rightarrow> u32 \<Rightarrow> buddy_ctxt \<Rightarrow> (u32 option \<times> buddy_ctxt) option" where
  "buddy_alloc_at adr order b =
     (let adr1 = adr - b_base b;
          sz = lsl 1 (order + b_page_bits b)
      in if adr1 AND (sz - 1) \<noteq> 0 then Some (None, b)
         else let adr1 = lsr adr1 (b_page_bits b);
                  end1 = adr1 + lsl 1 order - 1
              in alloc_at_loop (nat (sint (b_order b) - sint order)) order order adr1 end1 b)"

section \<open>The words of a free block\<close>

definition nw :: "u32 \<Rightarrow> u32" where "nw x = FLAG_FREE OR x"
definition pw :: "nat \<Rightarrow> u32 \<Rightarrow> u32" where "pw k x = push_bit 27 (of_nat k) OR x"

lemma masks27: "(0xF8000000 :: u32) = NOT (mask 27)" "(0x07FFFFFF :: u32) = mask 27" "(0x0FFFFFFF :: u32) = mask 28"
  by (simp_all add: mask_eq_exp_minus_1)

lemma aligned_push: "aligned n (push_bit n (x :: u32))"
  by (simp add: aligned_def take_bit_push_bit)

lemma aligned_flag: "aligned 27 (0x80000000 :: u32)" "aligned 28 (0x80000000 :: u32)"
  by (simp_all add: aligned_unat)

lemma or_low_mask: "aligned n a \<Longrightarrow> take_bit n x = x \<Longrightarrow> (a OR x) AND mask n = (x :: u32)"
  by (simp add: word_ao_dist take_bit_eq_mask [symmetric] aligned_def)

lemma nw_simps:
  assumes "unat x < 134217728"
  shows "nw x AND MASK_NEXT = x" "nw x AND FLAG_FREE \<noteq> 0" "unat y < 134217728 \<Longrightarrow> (nw x AND MASK_ORDER) OR y = nw y"
proof -
  have x: "take_bit 27 x = x" "take_bit 28 x = x" using assms by (auto intro: take_bit_less_u32)
  show "nw x AND MASK_NEXT = x" using or_low_mask [OF aligned_flag(2) x(2)] by (simp add: nw_def masks27)
  show "nw x AND FLAG_FREE \<noteq> 0" by (simp add: nw_def word_ao_dist)
  show "(nw x AND MASK_ORDER) OR y = nw y" if "unat y < 134217728"
    using aligned_or_high [OF aligned_flag(1) x(1)] by (simp add: nw_def masks27)
qed

lemma pw_simps:
  assumes "unat x < 134217728" "k < 32"
  shows "pw k x AND MASK_PREV = x" "drop_bit 27 (pw k x) = of_nat k" "(pw k x AND MASK_ORDER) OR y = pw k y"
proof -
  have x: "take_bit 27 x = x" using assms(1) by (auto intro: take_bit_less_u32)
  show "pw k x AND MASK_PREV = x" using or_low_mask [OF aligned_push x] by (simp add: pw_def masks27)
  show "(pw k x AND MASK_ORDER) OR y = pw k y" using aligned_or_high [OF aligned_push x] by (simp add: pw_def masks27)
  have "drop_bit 27 x = 0" using assms(1) by (simp add: word_unat_eq_iff unat_drop_bit_u32)
  moreover have "drop_bit 27 (push_bit 27 (of_nat k) :: u32) = of_nat k"
  proof -
    have "unat (push_bit 27 (of_nat k) :: u32) = k * 134217728"
      using assms(2) by (simp add: push_bit_eq_mult unat_word_ariths)
    then show ?thesis using assms(2) by (simp add: word_unat_eq_iff unat_drop_bit_u32)
  qed
  ultimately show "drop_bit 27 (pw k x) = of_nat k" by (simp add: pw_def drop_bit_or)
qed

section \<open>The free lists\<close>

text \<open>A part of a free list: \<open>p\<close> is what the first points back to, \<open>q\<close> what the last points on to.
  A whole list ends in elements that point to themselves.\<close>

fun fseg :: "nat \<Rightarrow> buddy_ctxt \<Rightarrow> u32 \<Rightarrow> u32 list \<Rightarrow> u32 \<Rightarrow> bool" where
  "fseg k b p [] q \<longleftrightarrow> True"
| "fseg k b p (x # xs) q \<longleftrightarrow>
     b_prev b x = pw k p \<and> b_next b x = nw (if xs = [] then q else hd xs) \<and> fseg k b x xs q"

definition flist :: "buddy_ctxt \<Rightarrow> nat \<Rightarrow> u32 list \<Rightarrow> bool" where
  "flist b k xs \<longleftrightarrow> distinct xs \<and> (\<forall>x\<in>set xs. unat x < 134217728)
     \<and> b_free b (of_nat k) = (if xs = [] then - 1 else hd xs)
     \<and> (xs \<noteq> [] \<longrightarrow> fseg k b (hd xs) xs (last xs))"

lemma fseg_append:
  "fseg k b p (xs @ ys) q \<longleftrightarrow> fseg k b p xs (if ys = [] then q else hd ys) \<and> fseg k b (if xs = [] then p else last xs) ys q"
  by (induction k b p xs q rule: fseg.induct) auto

lemma fseg_cong:
  "(\<And>x. x \<in> set xs \<Longrightarrow> b_next b' x = b_next b x \<and> b_prev b' x = b_prev b x) \<Longrightarrow> fseg k b' p xs q = fseg k b p xs q"
  by (induction k b p xs q rule: fseg.induct) auto

lemma b_set_simps [simp]:
  "b_next (set_b_next x v b) = (b_next b)(x := v)" "b_prev (set_b_next x v b) = b_prev b" "b_free (set_b_next x v b) = b_free b"
  "b_next (set_b_prev x v b) = b_next b" "b_prev (set_b_prev x v b) = (b_prev b)(x := v)" "b_free (set_b_prev x v b) = b_free b"
  "b_next (set_b_free i v b) = b_next b" "b_prev (set_b_free i v b) = b_prev b" "b_free (set_b_free i v b) = (b_free b)(i := v)"
  by (simp_all add: set_b_next_def set_b_prev_def set_b_free_def)

definition same_ctxt :: "buddy_ctxt \<Rightarrow> buddy_ctxt \<Rightarrow> bool" where
  "same_ctxt b b' \<longleftrightarrow> b_base b' = b_base b \<and> b_index_max b' = b_index_max b \<and> b_page_bits b' = b_page_bits b
     \<and> b_order b' = b_order b \<and> b_all b' = b_all b"

lemma same_ctxt_set [simp]:
  "same_ctxt b (set_b_next x v b') = same_ctxt b b'" "same_ctxt b (set_b_prev x v b') = same_ctxt b b'"
  "same_ctxt b (set_b_free i v b') = same_ctxt b b'" "same_ctxt b b"
  by (simp_all add: same_ctxt_def set_b_next_def set_b_prev_def set_b_free_def)

lemma same_ctxt_trans: "same_ctxt b b1 \<Longrightarrow> same_ctxt b1 b2 \<Longrightarrow> same_ctxt b b2"
  by (simp add: same_ctxt_def)

lemma flist_bound: "flist b k xs \<Longrightarrow> x \<in> set xs \<Longrightarrow> unat x < 134217728"
  by (auto simp: flist_def)

lemma minus_1_bound: "unat (x :: u32) < 134217728 \<Longrightarrow> x \<noteq> - 1"
  by auto

text \<open>Adding in front.\<close>

lemma add_free_flist:
  assumes f: "flist b k xs" and x: "x \<notin> set xs" "unat x < 134217728" and k: "k < 32"
  defines "b' \<equiv> buddy_add_free x (of_nat k) b"
  shows "flist b' k (x # xs)" "same_ctxt b b'" "j \<noteq> of_nat k \<Longrightarrow> b_free b' j = b_free b j"
    "y \<notin> set (x # xs) \<Longrightarrow> b_next b' y = b_next b y \<and> b_prev b' y = b_prev b y"
proof -
  have "flist b' k (x # xs) \<and> same_ctxt b b' \<and> (j \<noteq> of_nat k \<longrightarrow> b_free b' j = b_free b j)
    \<and> (y \<notin> set (x # xs) \<longrightarrow> b_next b' y = b_next b y \<and> b_prev b' y = b_prev b y)"
  proof (cases xs)
    case Nil
    then show ?thesis using f x
      by (auto simp: b'_def buddy_add_free_def Let_def flist_def nw_def pw_def)
  next
    case (Cons z zs)
    have z: "b_free b (of_nat k) = z" "b_prev b z = pw k z" "unat z < 134217728" "z \<noteq> - 1" "x \<noteq> z"
      using f x Cons by (auto simp: flist_def)
    have b': "b' = set_b_free (of_nat k) x (set_b_prev x (pw k x) (set_b_next x (nw z) (set_b_prev z (pw k x) b)))"
      using z pw_simps(3) [OF z(3) k, of x] by (simp add: b'_def buddy_add_free_def Let_def nw_def pw_def)
    have "fseg k b' z zs (last xs) = fseg k b z zs (last xs)"
      by (rule fseg_cong) (use f x Cons in \<open>auto simp: b' flist_def\<close>)
    then show ?thesis using f x z Cons by (auto simp: b' flist_def)
  qed
  then show "flist b' k (x # xs)" "same_ctxt b b'" "j \<noteq> of_nat k \<Longrightarrow> b_free b' j = b_free b j"
    "y \<notin> set (x # xs) \<Longrightarrow> b_next b' y = b_next b y \<and> b_prev b' y = b_prev b y" by blast+
qed

text \<open>Taking out an element, wherever it is.\<close>

lemma remove_free_flist:
  assumes f: "flist b k (xs @ x # ys)" and k: "k < 32"
  defines "b' \<equiv> buddy_remove_free x (of_nat k) b"
  shows "flist b' k (xs @ ys) \<and> same_ctxt b b' \<and> (\<forall>j. j \<noteq> of_nat k \<longrightarrow> b_free b' j = b_free b j)
    \<and> (\<forall>y. y \<notin> set (xs @ ys) \<longrightarrow> b_next b' y = b_next b y \<and> b_prev b' y = b_prev b y)"
proof -
  define p where "p = (if xs = [] then x else last xs)"
  define q where "q = (if ys = [] then x else hd ys)"
  have d: "distinct (xs @ x # ys)" "\<And>y. y \<in> set (xs @ x # ys) \<Longrightarrow> unat y < 134217728"
    using f by (auto simp: flist_def)
  have s: "fseg k b (hd (xs @ [x])) xs x" "b_prev b x = pw k p" "b_next b x = nw q" "fseg k b x ys (last (x # ys))"
    using f by (auto simp: flist_def fseg_append p_def q_def hd_append split: if_splits)
  have pq: "unat p < 134217728" "unat q < 134217728" "unat x < 134217728" using d(2) by (auto simp: p_def q_def)
  have g: "GET_NEXT b x = q" "GET_PREV b x = p" using s pw_simps(1) [OF pq(1) k] nw_simps(1) [OF pq(2)]
    by (simp_all add: GET_NEXT_def GET_PREV_def)
  have e: "p = x \<longleftrightarrow> xs = []" "q = x \<longleftrightarrow> ys = []" using d(1) last_in_set [of xs] hd_in_set [of ys] by (auto simp: p_def q_def)
  have fr: "b_free b (of_nat k) = hd (xs @ [x])" using f by (auto simp: flist_def hd_append)
  have P: "(b_prev b q AND MASK_ORDER) OR v = pw k v" if "ys \<noteq> []" for v
  proof -
    have "b_prev b q = pw k x" using s(4) that by (cases ys) (auto simp: q_def)
    then show ?thesis using pw_simps(3) [OF pq(3) k] by simp
  qed
  have N: "(b_next b p AND MASK_ORDER) OR v = nw v" if "xs \<noteq> []" "unat v < 134217728" for v
  proof -
    have "b_next b p = nw x" using s(1) that(1) fseg_append [of k b "hd (xs @ [x])" "butlast xs" "[last xs]" x] by (simp add: p_def)
    then show ?thesis using nw_simps(3) [OF pq(3) that(2)] by simp
  qed
  show ?thesis
  proof (cases "xs = []"; cases "ys = []")
    assume c: "xs = []" "ys = []"
    then have "b' = set_b_free (of_nat k) (- 1) b" using g e by (simp add: b'_def buddy_remove_free_def Let_def)
    then show ?thesis using c by (simp add: flist_def)
  next
    assume c: "xs = []" "ys \<noteq> []"
    then have b': "b' = set_b_prev q (pw k q) (set_b_free (of_nat k) q b)"
      using g e P [OF c(2)] by (simp add: b'_def buddy_remove_free_def Let_def)
    obtain z zs where y: "ys = z # zs" using c(2) by (cases ys) auto
    have "fseg k b' z zs (last ys) = fseg k b z zs (last ys)"
      by (rule fseg_cong) (use d(1) in \<open>auto simp: b' y q_def\<close>)
    then show ?thesis using c d s(4) by (auto simp: b' y q_def flist_def)
  next
    assume c: "xs \<noteq> []" "ys = []"
    then have b': "b' = set_b_next p (nw p) b"
      using g e N [OF c(1) pq(1)] by (simp add: b'_def buddy_remove_free_def Let_def)
    obtain zs z where x: "xs = zs @ [z]" using c(1) by (metis append_butlast_last_id)
    have "fseg k b' (hd xs) zs z = fseg k b (hd xs) zs z"
      by (rule fseg_cong) (use d(1) in \<open>auto simp: b' x p_def\<close>)
    then show ?thesis using c d s(1) fr by (auto simp: b' x p_def flist_def fseg_append hd_append)
  next
    assume c: "xs \<noteq> []" "ys \<noteq> []"
    obtain zs z where x: "xs = zs @ [z]" using c(1) by (metis append_butlast_last_id)
    obtain w ws where y: "ys = w # ws" using c(2) by (cases ys) auto
    have "p \<noteq> q" using d(1) by (auto simp: p_def q_def x y)
    then have b': "b' = set_b_next p (nw q) (set_b_prev q (pw k p) b)"
      using g e c N [OF c(1) pq(2)] P [OF c(2)] by (simp add: b'_def buddy_remove_free_def Let_def)
    have "fseg k b' (hd xs) zs z = fseg k b (hd xs) zs z" "fseg k b' w ws (last ys) = fseg k b w ws (last ys)"
      by (rule fseg_cong; use d(1) in \<open>auto simp: b' x y p_def q_def\<close>)+
    then show ?thesis using c d s(1,4) fr by (auto simp: b' x y p_def q_def flist_def fseg_append hd_append)
  qed
qed

section \<open>Tilings\<close>

text \<open>A block is a start index and an order; the blocks tile the pages of the region.\<close>

type_synonym bblock = "u32 \<times> nat"

definition blk :: "bblock \<Rightarrow> nat set" where
  "blk c = {unat (fst c)..<unat (fst c) + 2 ^ snd c}"

lemma mem_blk [simp]: "k \<in> blk (x, i) \<longleftrightarrow> unat x \<le> k \<and> k < unat x + 2 ^ i"
  by (simp add: blk_def)

definition good :: "nat \<Rightarrow> nat \<Rightarrow> bblock \<Rightarrow> bool" where
  "good n k c \<longleftrightarrow> aligned (snd c) (fst c) \<and> snd c < k \<and> unat (fst c) + 2 ^ snd c \<le> n"

definition tiles :: "nat \<Rightarrow> nat \<Rightarrow> bblock set \<Rightarrow> bool" where
  "tiles n k B \<longleftrightarrow> (\<forall>c\<in>B. good n k c) \<and> (\<forall>c\<in>B. \<forall>d\<in>B. c \<noteq> d \<longrightarrow> blk c \<inter> blk d = {}) \<and> (\<Union>c\<in>B. blk c) = {..<n}"

lemma good_start: "good n k (x, i) \<Longrightarrow> unat x < n \<and> i < k"
  by (auto simp: good_def intro: less_le_trans [of _ "unat x + 2 ^ i"])

lemma tiles_good: "tiles n k B \<Longrightarrow> c \<in> B \<Longrightarrow> good n k c"
  by (simp add: tiles_def)

lemma tiles_eq: "tiles n k B \<Longrightarrow> c \<in> B \<Longrightarrow> d \<in> B \<Longrightarrow> j \<in> blk c \<Longrightarrow> j \<in> blk d \<Longrightarrow> c = d"
  unfolding tiles_def by blast

lemma tiles_disjoint: "tiles n k B \<Longrightarrow> c \<in> B \<Longrightarrow> e \<in> B \<Longrightarrow> c \<noteq> e \<Longrightarrow> blk c \<inter> blk e = {}"
  by (simp add: tiles_def)

lemma start_in_blk [simp]: "unat x \<in> blk (x, i)"
  by simp

lemma tiles_order: "tiles n k B \<Longrightarrow> (x, i) \<in> B \<Longrightarrow> (x, j) \<in> B \<Longrightarrow> i = j"
  using tiles_eq [of n k B "(x, i)" "(x, j)" "unat x"] by simp

lemma tiles_cover: "tiles n k B \<Longrightarrow> j < n \<Longrightarrow> \<exists>c\<in>B. j \<in> blk c"
  unfolding tiles_def by blast

lemma tiles_replace:
  assumes t: "tiles n k B" "C \<subseteq> B" and d: "\<And>c. c \<in> D \<Longrightarrow> good n k c" "(\<Union>c\<in>D. blk c) = (\<Union>c\<in>C. blk c)"
    "\<And>c e. c \<in> D \<Longrightarrow> e \<in> D \<Longrightarrow> c \<noteq> e \<Longrightarrow> blk c \<inter> blk e = {}"
  shows "tiles n k (B - C \<union> D)"
proof -
  have sep: "blk c \<inter> blk e = {}" if "c \<in> B - C" "e \<in> D" for c e
  proof (rule ccontr)
    assume "blk c \<inter> blk e \<noteq> {}"
    then obtain j where j: "j \<in> blk c" "j \<in> blk e" by blast
    then have "j \<in> (\<Union>c\<in>C. blk c)" using that(2) d(2) by blast
    then obtain c' where "c' \<in> C" "j \<in> blk c'" by blast
    then have "c = c'" using tiles_eq [OF t(1)] that(1) t(2) j(1) by blast
    then show False using that(1) \<open>c' \<in> C\<close> by simp
  qed
  have "(\<Union>c\<in>B - C \<union> D. blk c) = (\<Union>c\<in>B. blk c)" using d(2) t(2) by blast
  moreover have "blk c \<inter> blk e = {}" if ce: "c \<in> B - C \<union> D" "e \<in> B - C \<union> D" "c \<noteq> e" for c e
  proof -
    consider "c \<in> B - C" "e \<in> B - C" | "c \<in> B - C" "e \<in> D" | "c \<in> D" "e \<in> B - C" | "c \<in> D" "e \<in> D"
      using ce(1,2) by blast
    then show ?thesis
    proof cases
      case 1
      then show ?thesis using t(1) ce(3) unfolding tiles_def by blast
    next
      case 3
      then show ?thesis using sep [of e c] by blast
    qed (use sep d(3) ce(3) in blast)+
  qed
  moreover have "good n k c" if "c \<in> B - C \<union> D" for c using that d(1) tiles_good [OF t(1)] by blast
  ultimately show ?thesis using t(1) by (simp add: tiles_def)
qed

text \<open>The buddy of a block.\<close>

definition buddy_of :: "u32 \<Rightarrow> nat \<Rightarrow> u32" where
  "buddy_of x i = x XOR push_bit i 1"

lemma aligned_unat_dvd: "aligned i x \<longleftrightarrow> 2 ^ i dvd unat x"
  by (simp add: aligned_unat mod_eq_0_iff_dvd)

lemma unat_buddy:
  assumes "i < 32"
  shows "unat (buddy_of x i) = (if bit x i then unat x - 2 ^ i else unat x + 2 ^ i)"
proof -
  have p: "unat (2 ^ i :: u32) = 2 ^ i"
  proof -
    have "(2 :: nat) ^ i < 2 ^ 32" using assms by (intro power_strict_increasing) auto
    then show ?thesis using unat_of_nat_u32 [of "2 ^ i"] by simp
  qed
  have "unat (buddy_of x i) = unat x XOR push_bit i 1"
    unfolding buddy_of_def by (simp add: unsigned_xor_eq p)
  also have "\<dots> = flip_bit i (unat x)" by (simp add: flip_bit_eq_xor)
  also have "\<dots> = (if bit (unat x) i then unat x - 2 ^ i else unat x + 2 ^ i)"
  proof (cases "bit (unat x) i")
    case True
    then have "set_bit i (unset_bit i (unat x)) = unat x"
      by (intro bit_eqI) (auto simp: bit_simps)
    then have "unset_bit i (unat x) + 2 ^ i = unat x" by (simp add: set_bit_eq bit_unset_bit_iff)
    then show ?thesis using True by (simp add: flip_bit_eq_if)
  next
    case False
    then show ?thesis by (simp add: flip_bit_eq_if set_bit_eq)
  qed
  also have "bit (unat x) i = bit x i" using assms by (simp add: bit_unsigned_iff)
  finally show ?thesis .
qed

lemma bit_odd_div: "bit (x :: u32) i \<longleftrightarrow> odd (unat x div 2 ^ i)"
proof (cases "i < 32")
  case True
  then show ?thesis by (simp add: bit_iff_odd [of "unat x", symmetric] bit_unsigned_iff)
next
  case False
  then have "(2 :: nat) ^ 32 \<le> 2 ^ i" by (intro power_increasing) auto
  then have "unat x < 2 ^ i" by (intro less_le_trans [OF unat_u32_less]) simp
  then show ?thesis using False by (auto dest: bit_imp_le_length)
qed

lemma aligned_bit_cases:
  assumes "aligned i x"
  obtains q where "unat x = 2 ^ i * q" "bit x i \<longleftrightarrow> odd q"
proof -
  obtain q where "unat x = 2 ^ i * q" using assms by (auto simp: aligned_unat_dvd dvd_def)
  moreover from this have "bit x i \<longleftrightarrow> odd q" by (simp add: bit_odd_div)
  ultimately show thesis by (rule that)
qed

lemma buddy_aligned:
  assumes "aligned i x" "i < 32"
  shows "aligned i (buddy_of x i)" "buddy_of x i \<noteq> x" "aligned (Suc i) (min x (buddy_of x i))"
    "blk (x, i) \<union> blk (buddy_of x i, i) = blk (min x (buddy_of x i), Suc i)" "blk (x, i) \<inter> blk (buddy_of x i, i) = {}"
proof -
  obtain q where q: "unat x = 2 ^ i * q" "bit x i \<longleftrightarrow> odd q" using assms(1) by (rule aligned_bit_cases)
  note u = unat_buddy [OF assms(2), of x]
  have "unat (buddy_of x i) = 2 ^ i * (if odd q then q - 1 else q + 1)"
    using u q by (auto simp: algebra_simps)
  then show "aligned i (buddy_of x i)" by (simp add: aligned_unat_dvd)
  have pos: "(0 :: nat) < 2 ^ i" by simp
  have ord: "(odd q \<and> unat x = unat (buddy_of x i) + 2 ^ i) \<or> (even q \<and> unat (buddy_of x i) = unat x + 2 ^ i)"
    using u q by (cases "odd q") (auto elim: oddE)
  then show "buddy_of x i \<noteq> x" using pos by auto
  have mn: "unat (min x (buddy_of x i)) = 2 ^ i * (if odd q then q - 1 else q)"
    using ord q by (auto simp: min_def word_le_nat_alt algebra_simps)
  moreover have "2 ^ Suc i dvd 2 ^ i * (if odd q then q - 1 else q)" by (auto elim: oddE)
  ultimately show "aligned (Suc i) (min x (buddy_of x i))" by (simp add: aligned_unat_dvd)
  from ord show "blk (x, i) \<union> blk (buddy_of x i, i) = blk (min x (buddy_of x i), Suc i)"
    by (auto simp: blk_def min_def word_le_nat_alt)
  from ord show "blk (x, i) \<inter> blk (buddy_of x i, i) = {}" by (auto simp: blk_def)
qed

text \<open>Of two aligned blocks that meet, the larger contains the smaller.\<close>

lemma aligned_nested:
  assumes a: "aligned j z" "aligned i w" "i \<le> j" and y: "y \<in> blk (z, j)" "y \<in> blk (w, i)"
  shows "blk (w, i) \<subseteq> blk (z, j)"
proof -
  obtain q where q: "unat z = 2 ^ j * q" using a(1) by (auto simp: aligned_unat_dvd dvd_def)
  obtain r where r: "unat w = 2 ^ i * r" using a(2) by (auto simp: aligned_unat_dvd dvd_def)
  define c where "c = (2 :: nat) ^ (j - i)"
  have zz: "unat z = 2 ^ i * (c * q)" "(2 :: nat) ^ j = 2 ^ i * c"
    using a(3) by (simp_all add: q c_def mult.assoc power_add [symmetric])
  have "2 ^ i * (c * q) < 2 ^ i * (r + 1)" using y zz r by (auto simp: algebra_simps)
  then have "c * q < r + 1" by (simp only: mult_less_cancel1)
  moreover have "2 ^ i * r < 2 ^ i * (c * q + c)" using y zz r by (auto simp: algebra_simps)
  then have "r < c * q + c" by (simp only: mult_less_cancel1)
  ultimately have "c * q \<le> r" "r + 1 \<le> c * q + c" by simp_all
  then have "2 ^ i * (c * q) \<le> 2 ^ i * r" "2 ^ i * (r + 1) \<le> 2 ^ i * (c * q + c)"
    by (simp_all only: mult_le_mono2)
  then have "unat z \<le> unat w" "unat w + 2 ^ i \<le> unat z + 2 ^ j" unfolding zz r by (simp_all add: algebra_simps)
  then show ?thesis by (auto simp: blk_def)
qed

section \<open>The state of the allocator\<close>

text \<open>\<open>L\<close> gives the free list of each order, \<open>U\<close> the blocks in use, \<open>P\<close> the blocks an operation is working
  on. Together they tile the pages; the free lists are as the code links them; blocks in use are not
  flagged as free; and no two free blocks are buddies.\<close>

abbreviation orders :: "buddy_ctxt \<Rightarrow> nat" where "orders b \<equiv> unat (b_order b)"
abbreviation pages :: "buddy_ctxt \<Rightarrow> nat" where "pages b \<equiv> unat (b_index_max b)"

definition fblocks :: "nat \<Rightarrow> (nat \<Rightarrow> u32 list) \<Rightarrow> bblock set" where
  "fblocks n L = {(x, k). k < n \<and> x \<in> set (L k)}"

definition no_buddies :: "nat \<Rightarrow> (nat \<Rightarrow> u32 list) \<Rightarrow> bool" where
  "no_buddies n L \<longleftrightarrow> (\<forall>k x. Suc k < n \<longrightarrow> x \<in> set (L k) \<longrightarrow> buddy_of x k \<notin> set (L k))"

definition binv :: "buddy_ctxt \<Rightarrow> (nat \<Rightarrow> u32 list) \<Rightarrow> bblock set \<Rightarrow> bblock set \<Rightarrow> bool" where
  "binv b L U P \<longleftrightarrow> 0 < orders b \<and> orders b \<le> 27 \<and> pages b \<le> 67108864
     \<and> (\<forall>k<orders b. flist b k (L k)) \<and> tiles (pages b) (orders b) (U \<union> fblocks (orders b) L \<union> P)
     \<and> U \<inter> P = {} \<and> fblocks (orders b) L \<inter> P = {} \<and> (\<forall>(y, k)\<in>U. \<not> IS_FREE b y) \<and> no_buddies (orders b) L"

lemma binvD:
  assumes "binv b L U P"
  shows "0 < orders b" "orders b \<le> 27" "pages b \<le> 67108864" "\<And>k. k < orders b \<Longrightarrow> flist b k (L k)"
    "tiles (pages b) (orders b) (U \<union> fblocks (orders b) L \<union> P)" "U \<inter> P = {}" "fblocks (orders b) L \<inter> P = {}"
    "\<And>y k. (y, k) \<in> U \<Longrightarrow> \<not> IS_FREE b y" "no_buddies (orders b) L"
  using assms by (auto simp: binv_def)

lemma fseg_entry:
  assumes "fseg k b p xs q" "x \<in> set xs"
  shows "\<exists>p' q'. b_prev b x = pw k p' \<and> b_next b x = nw q' \<and> p' \<in> insert p (set xs) \<and> q' \<in> insert q (set xs)"
  using assms
proof (induction xs arbitrary: p)
  case (Cons y ys)
  show ?case
  proof (cases "x = y")
    case True
    then show ?thesis using Cons.prems(1) by (cases ys) auto
  next
    case False
    then have "x \<in> set ys" using Cons.prems(2) by simp
    then show ?thesis using Cons.IH [of y] Cons.prems(1) by auto
  qed
qed simp

lemma flist_entry:
  assumes "flist b k xs" "x \<in> set xs" "k < 32"
  shows "IS_FREE b x" "GET_ORDER b x = of_nat k"
proof -
  have "xs \<noteq> []" using assms(2) by auto
  then have s: "fseg k b (hd xs) xs (last xs)" "hd xs \<in> set xs" "last xs \<in> set xs" using assms(1) by (auto simp: flist_def)
  obtain p q where e: "b_prev b x = pw k p" "b_next b x = nw q" "p \<in> set xs" "q \<in> set xs"
    using fseg_entry [OF s(1) assms(2)] s(2,3) by auto
  then have "unat p < 134217728" "unat q < 134217728" using assms(1) by (auto simp: flist_def)
  then show "IS_FREE b x" "GET_ORDER b x = of_nat k"
    using e nw_simps(2) pw_simps(2) assms(3) by (simp_all add: IS_FREE_def GET_ORDER_def)
qed

lemma fblocks_entry:
  assumes "binv b L U P" "(x, k) \<in> fblocks (orders b) L"
  shows "IS_FREE b x" "GET_ORDER b x = of_nat k"
  using flist_entry [of b k "L k" x] binvD [OF assms(1)] assms(2) by (auto simp: fblocks_def)

text \<open>An entry that is flagged as free with the order of the block being joined is its buddy in the free list.\<close>

lemma tile_at_aligned:
  assumes t: "tiles n k B" "(x, i) \<in> B" "i < 32" and y: "unat (buddy_of x i) < n"
  shows "\<exists>j\<le>i. (buddy_of x i, j) \<in> B"
proof -
  define y where "y = buddy_of x i"
  have ax: "aligned i x" using tiles_good [OF t(1,2)] by (simp add: good_def)
  note ba = buddy_aligned [OF ax t(3), folded y_def]
  obtain z j where z: "(z, j) \<in> B" "unat y \<in> blk (z, j)" using tiles_cover [OF t(1) y [folded y_def]] by auto
  have az: "2 ^ j dvd unat z" using tiles_good [OF t(1) z(1)] by (simp add: good_def aligned_unat_dvd)
  show ?thesis
  proof (cases "j \<le> i")
    case True
    then have "2 ^ j dvd unat y" using ba(1) by (meson aligned_unat_dvd dvd_trans le_imp_power_dvd)
    then have "2 ^ j dvd unat y - unat z" using az by (rule dvd_diff_nat)
    moreover have "unat y - unat z < 2 ^ j" using z(2) by auto
    ultimately have "unat y = unat z" using z(2) by (auto dest: nat_dvd_not_less)
    then have "y = z" by (simp add: word_unat_eq_iff)
    then show ?thesis using z(1) True by (auto simp: y_def)
  next
    case False
    define w where "w = min x y"
    have yw: "unat y \<in> blk (w, Suc i)" "unat x \<in> blk (w, Suc i)" using ba(4) by (auto simp: w_def)
    have "Suc i \<le> j" "aligned j z" "aligned (Suc i) w" using False az ba(3) by (simp_all add: aligned_unat_dvd w_def)
    then have "blk (w, Suc i) \<subseteq> blk (z, j)" using aligned_nested z(2) yw(1) by blast
    then have "unat x \<in> blk (z, j)" using yw(2) by blast
    then have "(z, j) = (x, i)" using tiles_eq [OF t(1) z(1) t(2)] by auto
    then show ?thesis using False by simp
  qed
qed

lemma buddy_entry:
  assumes inv: "binv b L U {(x, i)}" and y: "unat (buddy_of x i) < pages b"
  shows "IS_FREE b (buddy_of x i) \<and> GET_ORDER b (buddy_of x i) = of_nat i \<longleftrightarrow> buddy_of x i \<in> set (L i)"
proof -
  note d = binvD [OF inv]
  have "(x, i) \<in> U \<union> fblocks (orders b) L \<union> {(x, i)}" by simp
  note g = tiles_good [OF d(5) this]
  have i: "i < orders b" "i < 32" using g d(2) by (simp_all add: good_def)
  have "aligned i x" using g by (simp add: good_def)
  then have ne: "buddy_of x i \<noteq> x" using buddy_aligned(2) i(2) by blast
  obtain j where j: "j \<le> i" "(buddy_of x i, j) \<in> U \<union> fblocks (orders b) L \<union> {(x, i)}"
    using tile_at_aligned [OF d(5) _ i(2) y] by auto
  show ?thesis
  proof
    assume f: "IS_FREE b (buddy_of x i) \<and> GET_ORDER b (buddy_of x i) = of_nat i"
    then have jf: "(buddy_of x i, j) \<in> fblocks (orders b) L" using j(2) ne d(8) by auto
    then have "GET_ORDER b (buddy_of x i) = of_nat j" by (rule fblocks_entry(2) [OF inv])
    then have "(of_nat j :: u32) = of_nat i" using f by simp
    then have "unat (of_nat j :: u32) = unat (of_nat i :: u32)" by simp
    then have "j = i" using i(2) j(1) by simp
    then show "buddy_of x i \<in> set (L i)" using jf by (simp add: fblocks_def)
  next
    assume "buddy_of x i \<in> set (L i)"
    then have "(buddy_of x i, i) \<in> fblocks (orders b) L" using i by (simp add: fblocks_def)
    then show "IS_FREE b (buddy_of x i) \<and> GET_ORDER b (buddy_of x i) = of_nat i"
      using fblocks_entry [OF inv] by blast
  qed
qed

text \<open>Taking a block out of its free list.\<close>

definition entry_same :: "buddy_ctxt \<Rightarrow> buddy_ctxt \<Rightarrow> u32 \<Rightarrow> bool" where
  "entry_same b b' y \<longleftrightarrow> b_next b' y = b_next b y \<and> b_prev b' y = b_prev b y"

lemma entry_same_trans: "entry_same b b1 y \<Longrightarrow> entry_same b1 b2 y \<Longrightarrow> entry_same b b2 y"
  by (simp add: entry_same_def)

lemma entry_same_refl [simp]: "entry_same b b y"
  by (simp add: entry_same_def)

lemma entry_same_get: "entry_same b b' y \<Longrightarrow> IS_FREE b' y = IS_FREE b y \<and> GET_ORDER b' y = GET_ORDER b y"
  by (simp add: entry_same_def IS_FREE_def GET_ORDER_def)

lemma fblocks_disjoint_entry:
  assumes "binv b L U P" "(y, k) \<in> U" "j < orders b" shows "y \<notin> set (L j)"
  using fblocks_entry(1) [OF assms(1), of y j] binvD(8) [OF assms(1,2)] assms(3) by (auto simp: fblocks_def)

lemma no_buddies_subset: "no_buddies n L \<Longrightarrow> (\<And>k. set (L' k) \<subseteq> set (L k)) \<Longrightarrow> no_buddies n L'"
  unfolding no_buddies_def by blast

lemma same_list_other:
  assumes "binv b L U P" "k < orders b" "j < orders b" "k \<noteq> j" "y \<in> set (L j)"
  shows "y \<notin> set (L k)"
proof
  assume "y \<in> set (L k)"
  then have "(y, k) \<in> U \<union> fblocks (orders b) L \<union> P" "(y, j) \<in> U \<union> fblocks (orders b) L \<union> P"
    using assms(2,3,5) by (auto simp: fblocks_def)
  then show False using tiles_order [OF binvD(5) [OF assms(1)]] assms(4) by blast
qed

lemma flist_cong:
  assumes "flist b k xs" "\<And>y. y \<in> set xs \<Longrightarrow> entry_same b b' y" "b_free b' (of_nat k) = b_free b (of_nat k)"
  shows "flist b' k xs"
  using assms fseg_cong [of xs b' b k "hd xs" "last xs"] by (auto simp: flist_def entry_same_def)

lemma of_nat_u32_eq: "j < 4294967296 \<Longrightarrow> k < 4294967296 \<Longrightarrow> (of_nat j :: u32) = of_nat k \<longleftrightarrow> j = k"
  by (metis unat_of_nat_u32)

lemma same_ctxtD:
  assumes "same_ctxt b b'" shows "orders b' = orders b" "pages b' = pages b" "b_base b' = b_base b" "b_page_bits b' = b_page_bits b"
  using assms by (simp_all add: same_ctxt_def)

lemma remove_free_binv:
  assumes inv: "binv b L U P" and y: "y \<in> set (L k)" "k < orders b"
  defines "b' \<equiv> buddy_remove_free y (of_nat k) b"
  shows "\<exists>L'. binv b' L' U (insert (y, k) P) \<and> fblocks (orders b) L' = fblocks (orders b) L - {(y, k)}
    \<and> (\<forall>j. set (L' j) \<subseteq> set (L j)) \<and> same_ctxt b b' \<and> (\<forall>z. (\<forall>j<orders b. z \<notin> set (L j)) \<longrightarrow> entry_same b b' z)"
proof -
  note d = binvD [OF inv]
  obtain xs ys where x: "L k = xs @ y # ys" using y(1) by (meson split_list)
  have k: "k < 32" using y(2) d(2) by simp
  have fl: "flist b k (xs @ y # ys)" using d(4) [OF y(2)] x by simp
  note r = remove_free_flist [OF fl k, folded b'_def]
  define L' where "L' = L(k := xs @ ys)"
  note same = same_ctxtD [OF r [THEN conjunct2, THEN conjunct1]]
  have di: "distinct (xs @ y # ys)" using fl by (simp add: flist_def)
  have en: "entry_same b b' z" if "z \<notin> set (xs @ ys)" for z using r that by (simp add: entry_same_def)
  have flist': "flist b' j (L' j)" if j: "j < orders b" for j
  proof (cases "j = k")
    case True
    then show ?thesis using r by (simp add: L'_def)
  next
    case False
    have "flist b' j (L j)"
    proof (rule flist_cong [OF d(4) [OF j]])
      show "entry_same b b' z" if "z \<in> set (L j)" for z
        using same_list_other [OF inv y(2) j _ that] False x by (intro en) auto
      have "(of_nat j :: u32) \<noteq> of_nat k" using False j y(2) d(2) by (simp add: of_nat_u32_eq)
      then show "b_free b' (of_nat j) = b_free b (of_nat j)" using r by blast
    qed
    then show ?thesis using False by (simp add: L'_def)
  qed
  have sub: "set (L' j) \<subseteq> set (L j)" for j using x by (auto simp: L'_def)
  have fb: "fblocks (orders b) L' = fblocks (orders b) L - {(y, k)}"
    using di x by (auto simp: fblocks_def L'_def split: if_splits)
  have yk: "(y, k) \<in> fblocks (orders b) L" using y by (simp add: fblocks_def)
  have "U \<union> fblocks (orders b) L' \<union> insert (y, k) P = U \<union> fblocks (orders b) L \<union> P" using fb yk by blast
  moreover have "U \<inter> insert (y, k) P = {}" "fblocks (orders b) L' \<inter> insert (y, k) P = {}"
    using d(6,7) fb fblocks_disjoint_entry [OF inv _ y(2)] y(1) by auto
  moreover have "\<not> IS_FREE b' z" if "(z, j) \<in> U" for z j
    using fblocks_disjoint_entry [OF inv that y(2)] x d(8) [OF that] en [of z] entry_same_get [of b b' z] by auto
  ultimately have "binv b' L' U (insert (y, k) P)"
    using d flist' no_buddies_subset [OF d(9) sub] unfolding binv_def same by auto
  moreover have "entry_same b b' z" if "\<forall>j<orders b. z \<notin> set (L j)" for z using en [of z] that y(2) x by auto
  ultimately show ?thesis using fb sub r by blast
qed

text \<open>Two pending buddies are one pending block of the next order.\<close>

lemma blk_subset:
  assumes "tiles n k B" "c \<in> B" shows "blk c \<subseteq> {..<n}"
  using assms unfolding tiles_def by blast

lemma blk_bound: "blk (x, i) \<subseteq> {..<n} \<Longrightarrow> unat x + 2 ^ i \<le> n"
proof -
  assume s: "blk (x, i) \<subseteq> {..<n}"
  have "(1 :: nat) \<le> 2 ^ i" by simp
  then have "unat x \<le> unat x + 2 ^ i - 1 \<and> unat x + 2 ^ i - 1 < unat x + 2 ^ i" by linarith
  then have "unat x + 2 ^ i - 1 \<in> blk (x, i)" by (simp only: mem_blk)
  with s have "unat x + 2 ^ i - 1 < n" by blast
  then show ?thesis by linarith
qed

lemma join_pending:
  assumes inv: "binv b L U {(buddy_of x i, i), (x, i)}" and i: "Suc i < orders b"
  shows "binv b L U {(min x (buddy_of x i), Suc i)}"
proof -
  note d = binvD [OF inv]
  let ?y = "buddy_of x i" and ?m = "(min x (buddy_of x i), Suc i)"
  let ?B = "U \<union> fblocks (orders b) L \<union> {(?y, i), (x, i)}"
  have x: "(x, i) \<in> ?B" "(?y, i) \<in> ?B" by auto
  have "aligned i x" "i < 32" using tiles_good [OF d(5) x(1)] i d(2) by (auto simp: good_def)
  note ba = buddy_aligned [OF this]
  have xm: "unat x \<in> blk ?m" using ba(4) start_in_blk [of x i] by blast
  have notin: "?m \<notin> U \<union> fblocks (orders b) L"
  proof
    assume "?m \<in> U \<union> fblocks (orders b) L"
    then have "?m = (x, i)" using tiles_eq [OF d(5), of ?m "(x, i)" "unat x"] x xm by auto
    then show False by simp
  qed
  have "tiles (pages b) (orders b) (?B - {(?y, i), (x, i)} \<union> {?m})"
  proof (rule tiles_replace [OF d(5)])
    show "good (pages b) (orders b) c" if "c \<in> {?m}" for c
      using that ba(3,4) i blk_subset [OF d(5) x(1)] blk_subset [OF d(5) x(2)] blk_bound [of "fst ?m" "Suc i" "pages b"]
      by (auto simp: good_def)
  qed (use ba(4) in auto)
  also have "?B - {(?y, i), (x, i)} \<union> {?m} = U \<union> fblocks (orders b) L \<union> {?m}" using d(6,7) by auto
  finally show ?thesis using d notin unfolding binv_def by auto
qed

lemma lsl_1: "i < 32 \<Longrightarrow> lsl 1 (of_nat i) = push_bit i 1"
  by (simp add: lsl_def)

text \<open>The loop of \<open>buddy_free\<close>: it joins the block with its buddy as long as that is free.\<close>

lemma buddy_merge_binv:
  assumes "binv b L U {(x, i)}" "buddy_merge n (of_nat i) (of_nat (orders b - 1)) x b = (i', x', b')" "n = orders b - 1 - i"
  shows "\<exists>L' j. i' = of_nat j \<and> binv b' L' U {(x', j)} \<and> same_ctxt b b' \<and> (\<forall>(z, k)\<in>U. entry_same b b' z)
    \<and> (Suc j < orders b \<longrightarrow> buddy_of x' j \<notin> set (L' j)) \<and> blk (x, i) \<subseteq> blk (x', j)"
  using assms
proof (induction n arbitrary: i x b L)
  case 0
  then show ?case by (intro exI [of _ L] exI [of _ i]) auto
next
  case (Suc n)
  note d = binvD [OF Suc.prems(1)]
  define y where "y = buddy_of x i"
  have i: "Suc i < orders b" "i < 32" using Suc.prems(3) d(2) by auto
  have u: "unat (of_nat (orders b - 1) :: u32) = orders b - 1" "unat (of_nat i :: u32) = i"
    using i d(2) by (intro unat_of_nat_u32; simp)+
  have slt: "slt (of_nat i) (of_nat (orders b - 1))"
    by (rule slt_small [THEN iffD2]) (unfold u, use i d(2) in simp_all)
  have mrg: "buddy_merge (Suc n) (of_nat i) (of_nat (orders b - 1)) x b
      = (if b_index_max b \<le> y then (of_nat i, x, b)
         else if \<not> IS_FREE b y \<or> GET_ORDER b y \<noteq> of_nat i then (of_nat i, x, b)
         else buddy_merge n (of_nat (Suc i)) (of_nat (orders b - 1)) (min x y) (buddy_remove_free y (of_nat i) b))"
    using slt i(2) by (simp add: Let_def lsl_1 y_def buddy_of_def min_def add.commute not_less)
      (simp add: not_less [symmetric])
  show ?case
  proof (cases "b_index_max b \<le> y \<or> \<not> IS_FREE b y \<or> GET_ORDER b y \<noteq> of_nat i")
    case True
    then have r: "i' = of_nat i" "x' = x" "b' = b" using Suc.prems(2) unfolding mrg by (auto split: if_splits)
    have "y \<notin> set (L i)"
    proof (cases "b_index_max b \<le> y")
      case True
      show ?thesis
      proof
        assume "y \<in> set (L i)"
        then have "(y, i) \<in> U \<union> fblocks (orders b) L \<union> {(x, i)}" using i by (simp add: fblocks_def)
        then have "unat y + 2 ^ i \<le> pages b" using tiles_good [OF d(5)] by (auto simp: good_def)
        moreover have "(0 :: nat) < 2 ^ i" by simp
        ultimately show False using True by (simp only: word_le_nat_alt)
      qed
    next
      case False
      then have "unat y < pages b" by (simp add: not_le word_less_nat_alt [symmetric])
      then show ?thesis using buddy_entry [OF Suc.prems(1)] \<open>_ \<or> _ \<or> _\<close> False by (auto simp: y_def)
    qed
    then show ?thesis using r Suc.prems(1) by (intro exI [of _ L] exI [of _ i]) (auto simp: y_def)
  next
    case False
    then have yn: "unat y < pages b" by (simp add: not_le word_less_nat_alt [symmetric])
    then have yi: "y \<in> set (L i)" using buddy_entry [OF Suc.prems(1)] False by (simp add: y_def)
    define b1 where "b1 = buddy_remove_free y (of_nat i) b"
    obtain L1 where L1: "binv b1 L1 U {(y, i), (x, i)}" "same_ctxt b b1"
      "\<forall>z. (\<forall>j<orders b. z \<notin> set (L j)) \<longrightarrow> entry_same b b1 z"
      using remove_free_binv [OF Suc.prems(1) yi] i(1) unfolding b1_def by auto
    note sc = same_ctxtD [OF L1(2)]
    have i1: "Suc i < orders b1" using i sc by simp
    have inv1: "binv b1 L1 U {(min x y, Suc i)}"
      using join_pending [OF L1(1) [unfolded y_def] i1] by (simp add: y_def)
    have mrg1: "buddy_merge n (of_nat (Suc i)) (of_nat (orders b1 - 1)) (min x y) b1 = (i', x', b')"
      using Suc.prems(2) False unfolding mrg b1_def [symmetric] sc by (simp del: of_nat_Suc)
    obtain L' j where r: "i' = of_nat j" "binv b' L' U {(x', j)}" "same_ctxt b1 b'" "\<forall>(z, k)\<in>U. entry_same b1 b' z"
      "Suc j < orders b1 \<longrightarrow> buddy_of x' j \<notin> set (L' j)" "blk (min x y, Suc i) \<subseteq> blk (x', j)"
    proof -
      have "n = orders b1 - 1 - Suc i" using Suc.prems(3) sc(1) by linarith
      from Suc.IH [OF inv1 mrg1 this] show thesis using that by blast
    qed
    have "entry_same b b' z" if "(z, k) \<in> U" for z k
      using L1(3) fblocks_disjoint_entry [OF Suc.prems(1) that] r(4) that by (blast intro: entry_same_trans)
    moreover have "same_ctxt b b'" using L1(2) r(3) by (simp add: same_ctxt_def)
    moreover have "blk (x, i) \<subseteq> blk (x', j)"
    proof -
      have "aligned i x" using tiles_good [OF d(5), of "(x, i)"] by (auto simp: good_def)
      from buddy_aligned(4) [OF this i(2)] show ?thesis using r(6) by (auto simp: y_def)
    qed
    ultimately show ?thesis using r sc by auto
  qed
qed

text \<open>Putting the pending block into its free list.\<close>

lemma add_free_binv:
  assumes inv: "binv b L U {(x, i)}" and nb: "Suc i < orders b \<longrightarrow> buddy_of x i \<notin> set (L i)"
  defines "b' \<equiv> buddy_add_free x (of_nat i) b"
  shows "binv b' (L(i := x # L i)) U {}" "same_ctxt b b'" "\<And>z k. (z, k) \<in> U \<Longrightarrow> entry_same b b' z"
proof -
  note d = binvD [OF inv]
  have g: "good (pages b) (orders b) (x, i)" using tiles_good [OF d(5)] by simp
  then have i: "i < orders b" "i < 32" using d(2) by (simp_all add: good_def)
  have x: "unat x < pages b" using good_start [OF g] by simp
  have xn: "x \<notin> set (L k)" if "k < orders b" for k
  proof
    assume "x \<in> set (L k)"
    then have f: "(x, k) \<in> fblocks (orders b) L" using that by (simp add: fblocks_def)
    then have "k = i" using tiles_order [OF d(5), of x k i] by auto
    then show False using f d(7) by auto
  qed
  note a = add_free_flist [OF d(4) [OF i(1)] xn [OF i(1)] _ i(2), folded b'_def]
  have x27: "unat x < 134217728" using x d(3) by simp
  show sc: "same_ctxt b b'" using a(2) x27 by blast
  note same = same_ctxtD [OF sc]
  have en: "entry_same b b' z" if "z \<notin> set (x # L i)" for z using a(4) [OF x27 that] by (simp add: entry_same_def)
  have xU: "(x, k) \<notin> U" for k
  proof
    assume "(x, k) \<in> U"
    moreover from this have "k = i" using tiles_order [OF d(5), of x k i] by auto
    ultimately show False using d(6) by auto
  qed
  show eU: "entry_same b b' z" if "(z, k) \<in> U" for z k
    using fblocks_disjoint_entry [OF inv that i(1)] xU that by (intro en) auto
  have fl: "flist b' k ((L(i := x # L i)) k)" if k: "k < orders b" for k
  proof (cases "k = i")
    case True
    then show ?thesis using a(1) x27 by simp
  next
    case False
    have "flist b' k (L k)"
    proof (rule flist_cong [OF d(4) [OF k]])
      show "entry_same b b' z" if "z \<in> set (L k)" for z
        using same_list_other [OF inv i(1) k _ that] False xn [OF k] that by (intro en) auto
      have "(of_nat k :: u32) \<noteq> of_nat i" using False k i d(2) by (simp add: of_nat_u32_eq)
      then show "b_free b' (of_nat k) = b_free b (of_nat k)" using a(3) [OF x27] by blast
    qed
    then show ?thesis using False by simp
  qed
  have "fblocks (orders b) (L(i := x # L i)) = insert (x, i) (fblocks (orders b) L)"
    using i by (auto simp: fblocks_def)
  then have "tiles (pages b) (orders b) (U \<union> fblocks (orders b) (L(i := x # L i)) \<union> {})"
    using d(5) by (simp add: Un_assoc)
  moreover have "no_buddies (orders b) (L(i := x # L i))"
  proof -
    have ax: "aligned i x" using g by (simp add: good_def)
    have inv2: "buddy_of (buddy_of z i) i = z" for z by (simp add: buddy_of_def xor.assoc)
    then have "buddy_of z i \<noteq> x" if "Suc i < orders b" "z \<in> set (L i)" for z using nb that by metis
    then show ?thesis using d(9) nb buddy_aligned(2) [OF ax i(2)]
      unfolding no_buddies_def by (auto simp: fun_upd_def)
  qed
  moreover have "\<not> IS_FREE b' z" if "(z, k) \<in> U" for z k
    using d(8) [OF that] eU [OF that] entry_same_get by blast
  ultimately show "binv b' (L(i := x # L i)) U {}" using d fl unfolding binv_def same by auto
qed

section \<open>Releasing a block\<close>

text \<open>The blocks in use have their order recorded.\<close>

definition marked :: "buddy_ctxt \<Rightarrow> bblock set \<Rightarrow> bool" where
  "marked b U \<longleftrightarrow> (\<forall>(x, k)\<in>U. GET_ORDER b x = of_nat k)"

definition page_adr :: "buddy_ctxt \<Rightarrow> u32 \<Rightarrow> u32" where
  "page_adr b x = b_base b + lsl x (b_page_bits b)"

definition geometry :: "buddy_ctxt \<Rightarrow> bool" where
  "geometry b \<longleftrightarrow> 5 \<le> unat (b_page_bits b) \<and> unat (b_page_bits b) < 32
     \<and> pages b * 2 ^ unat (b_page_bits b) \<le> 4294967296 \<and> pages b \<le> 2 ^ (orders b - 1)"

lemma page_adr_index:
  assumes "geometry b" "unat x < pages b"
  shows "lsr (page_adr b x - b_base b) (b_page_bits b) = x"
proof -
  define p where "p = unat (b_page_bits b)"
  have p: "p < 32" "pages b * 2 ^ p \<le> 4294967296" using assms(1) by (simp_all add: geometry_def p_def)
  have "unat x * 2 ^ p < pages b * 2 ^ p" using assms(2) by simp
  then have xp: "unat x * 2 ^ p < 4294967296" using p(2) by linarith
  then have "push_bit p x = of_nat (unat x * 2 ^ p)" by (simp add: push_bit_eq_mult)
  then have "unat (push_bit p x) = unat x * 2 ^ p" using xp by (simp only: unat_of_nat_u32)
  then have "drop_bit p (push_bit p x) = x" by (simp add: word_unat_eq_iff unat_drop_bit_u32)
  then show ?thesis using p(1) by (simp add: lsr_def lsl_def page_adr_def p_def [symmetric])
qed

lemma same_ctxt_adr: "same_ctxt b b' \<Longrightarrow> page_adr b' x = page_adr b x \<and> geometry b' = geometry b"
  by (simp add: same_ctxt_def page_adr_def geometry_def)

lemma free_pending:
  assumes inv: "binv b L U {(x, k)}" and x: "\<not> IS_FREE b x" "GET_ORDER b x = of_nat k" and g: "geometry b"
  shows "\<exists>b' L'. buddy_free (page_adr b x) b = (True, b') \<and> binv b' L' U {} \<and> same_ctxt b b'
    \<and> (\<forall>(z, j)\<in>U. entry_same b b' z)"
proof -
  note d = binvD [OF inv]
  have gd: "good (pages b) (orders b) (x, k)" using tiles_good [OF d(5)] by simp
  have xp: "unat x < pages b" "k < orders b" using good_start [OF gd] by simp_all
  have om: "b_order b - 1 = of_nat (orders b - 1)" using d(1) by (simp add: of_nat_diff)
  have fuel: "nat (sint (of_nat (orders b - 1) :: u32) - sint (of_nat k :: u32)) = orders b - 1 - k"
    using xp(2) d(2) by (intro nat_sint_diff) linarith+
  obtain i' x' b1 where m: "buddy_merge (orders b - 1 - k) (of_nat k) (of_nat (orders b - 1)) x b = (i', x', b1)"
    by (metis prod_cases3)
  obtain L1 j where r: "i' = of_nat j" "binv b1 L1 U {(x', j)}" "same_ctxt b b1" "\<forall>(z, k)\<in>U. entry_same b b1 z"
    "Suc j < orders b \<longrightarrow> buddy_of x' j \<notin> set (L1 j)"
    using buddy_merge_binv [OF inv m refl] by blast
  have nb: "Suc j < orders b1 \<longrightarrow> buddy_of x' j \<notin> set (L1 j)" using r(5) same_ctxtD(1) [OF r(3)] by simp
  note a = add_free_binv [OF r(2) nb]
  have idx: "lsr (page_adr b x - b_base b) (b_page_bits b) = x" by (rule page_adr_index [OF g xp(1)])
  have "buddy_free (page_adr b x) b = (True, buddy_add_free x' (of_nat j) b1)"
    unfolding buddy_free_def Let_def idx x(2) om fuel m
    using x(1) xp(1) by (simp add: word_less_nat_alt r(1))
  moreover have "same_ctxt b (buddy_add_free x' (of_nat j) b1)" using a(2) r(3) by (simp add: same_ctxt_def)
  moreover have "\<forall>(z, j')\<in>U. entry_same b (buddy_add_free x' (of_nat j) b1) z"
    using a(3) r(4) by (blast intro: entry_same_trans)
  ultimately show ?thesis using a(1) by blast
qed

text \<open>A block in use whose order is recorded goes back; its neighbours in use keep their entries.\<close>

lemma binv_hold: "binv b L U {} \<Longrightarrow> (x, k) \<in> U \<Longrightarrow> binv b L (U - {(x, k)}) {(x, k)}"
proof -
  assume a: "binv b L U {}" "(x, k) \<in> U"
  note d = binvD [OF a(1)]
  have "U - {(x, k)} \<union> fblocks (orders b) L \<union> {(x, k)} = U \<union> fblocks (orders b) L \<union> {}" using a(2) by blast
  moreover have "(x, k) \<notin> fblocks (orders b) L" using fblocks_disjoint_entry [OF a] by (auto simp: fblocks_def)
  ultimately show ?thesis using d unfolding binv_def by auto
qed

lemma buddy_free_used:
  assumes inv: "binv b L U {}" and x: "(x, k) \<in> U" "GET_ORDER b x = of_nat k" and g: "geometry b"
  shows "\<exists>b' L'. buddy_free (page_adr b x) b = (True, b') \<and> binv b' L' (U - {(x, k)}) {} \<and> same_ctxt b b'
    \<and> (\<forall>(z, j)\<in>U - {(x, k)}. entry_same b b' z)"
  by (rule free_pending [OF binv_hold [OF inv x(1)] _ x(2) g]) (rule binvD(8) [OF inv x(1)])

text \<open>Freeing a free block, or an address outside the region, changes nothing.\<close>

lemma buddy_free_free: "IS_FREE b (lsr (adr - b_base b) (b_page_bits b)) \<Longrightarrow> buddy_free adr b = (False, b)"
  by (simp add: buddy_free_def Let_def)

lemma buddy_free_outside: "\<not> buddy_belongs_to adr b \<Longrightarrow> buddy_free adr b = (False, b)"
  by (simp add: buddy_free_def buddy_belongs_to_def Let_def)

end
