(* ===== verification/Mem_Buddy_Alloc.thy ===== *)
theory Mem_Buddy_Alloc
  imports Mem_Buddy
begin

text \<open>
  What the buddy allocator of \<open>library/mem/src/buddy.c\<close> promises: splitting a block leaves the block
  asked for in use and returns the other pages to the free lists, an allocation finds a block whenever
  there is an aligned run of free pages of its size, and the initialisation establishes the invariant.
\<close>

section \<open>Splitting a block\<close>

lemma lsl_pow: "i < 32 \<Longrightarrow> lsl 1 (of_nat i) = of_nat (2 ^ i)"
  by (simp add: lsl_def)

lemma pow_le_26: "k \<le> 26 \<Longrightarrow> (2 :: nat) ^ k \<le> 67108864"
  using power_increasing [of k 26 "2 :: nat"] by simp

text \<open>The pages of the block \<open>(x1, o1)\<close> that are not in \<open>(x2, o2)\<close>, from the \<open>n\<close>-th on.\<close>

definition spare :: "nat \<Rightarrow> bblock \<Rightarrow> bblock \<Rightarrow> bblock set" where
  "spare n c c' = {(z, k). k = 0 \<and> unat (fst c) + n \<le> unat z \<and> unat z \<in> blk c - blk c'}"

definition nested :: "bblock \<Rightarrow> bblock \<Rightarrow> bool" where
  "nested c c' \<longleftrightarrow> snd c \<le> 26 \<and> snd c' \<le> snd c \<and> unat (fst c) \<le> unat (fst c')
     \<and> unat (fst c') + 2 ^ snd c' \<le> unat (fst c) + 2 ^ snd c \<and> unat (fst c) + 2 ^ snd c \<le> 134217728"

lemma nested_less: "nested (x1, o1) (x2, o2) \<Longrightarrow> unat x2 < unat x1 + 2 ^ o1"
proof -
  assume "nested (x1, o1) (x2, o2)"
  moreover have "(0 :: nat) < 2 ^ o2" by simp
  ultimately show ?thesis unfolding nested_def fst_conv snd_conv by linarith
qed

text \<open>Where a loop over the pages of the block can be: not inside the block it steps over.\<close>

definition stop :: "nat \<Rightarrow> bblock \<Rightarrow> bblock \<Rightarrow> bool" where
  "stop n c c' \<longleftrightarrow> n \<le> 2 ^ snd c \<and> (unat (fst c) + n \<le> unat (fst c') \<or> unat (fst c') + 2 ^ snd c' \<le> unat (fst c) + n)"

lemma loop_words:
  assumes c: "nested (x1, o1) (x2, o2)" and n: "n \<le> 2 ^ o1"
  shows "(of_nat n :: u32) < lsl 1 (of_nat o1) \<longleftrightarrow> n < 2 ^ o1"
    "n < 2 ^ o1 \<Longrightarrow> unat (x1 + of_nat n) = unat x1 + n"
    "n < 2 ^ o1 \<Longrightarrow> x1 + of_nat n = x2 \<longleftrightarrow> unat x2 = unat x1 + n"
    "of_nat n + (lsl 1 (of_nat o2) - 1) + 1 = (of_nat (n + 2 ^ o2) :: u32)" "(of_nat n :: u32) + 1 = of_nat (Suc n)"
proof -
  have p: "(2 :: nat) ^ o1 \<le> 67108864" using c by (intro pow_le_26) (simp add: nested_def)
  have o: "o1 < 32" "o2 < 32" using c by (auto simp: nested_def)
  have "unat (of_nat n :: u32) = n" "unat (of_nat (2 ^ o1) :: u32) = 2 ^ o1"
    using n p by (intro unat_of_nat_u32; linarith)+
  then show "(of_nat n :: u32) < lsl 1 (of_nat o1) \<longleftrightarrow> n < 2 ^ o1" unfolding lsl_pow [OF o(1)] word_less_nat_alt by simp
  show a: "unat (x1 + of_nat n) = unat x1 + n" if "n < 2 ^ o1"
  proof -
    have "unat x1 + n < 4294967296" using that c by (simp add: nested_def)
    then have "unat (of_nat (unat x1 + n) :: u32) = unat x1 + n" by (rule unat_of_nat_u32)
    then show ?thesis by simp
  qed
  show "x1 + of_nat n = x2 \<longleftrightarrow> unat x2 = unat x1 + n" if "n < 2 ^ o1" using a [OF that] by (auto simp: word_unat_eq_iff)
  show "of_nat n + (lsl 1 (of_nat o2) - 1) + 1 = (of_nat (n + 2 ^ o2) :: u32)" unfolding lsl_pow [OF o(2)] by simp
  show "(of_nat n :: u32) + 1 = of_nat (Suc n)" by simp
qed

lemma subset_clear_run:
  assumes c: "nested (x1, o1) (x2, o2)" and n: "stop n (x1, o1) (x2, o2)"
  shows "\<exists>b'. subset_clear (of_nat n) x1 (of_nat o1) x2 (of_nat o2) b = Some b' \<and> same_ctxt b b' \<and> b_free b' = b_free b
    \<and> (\<forall>y. if (y, 0) \<in> spare n (x1, o1) (x2, o2) \<or> y = x2 \<and> unat x1 + n \<le> unat x2
           then b_next b' y = 0 \<and> b_prev b' y = 0 else entry_same b b' y)"
  using n
proof (induction "2 ^ o1 - n" arbitrary: n b rule: less_induct)
  case less
  have nm: "n \<le> 2 ^ o1" using less.prems by (simp add: stop_def)
  note w = loop_words [OF c nm]
  show ?case
  proof (cases "n < 2 ^ o1")
    case False
    then have "n = 2 ^ o1" using nm by simp
    then have "\<not> unat x1 + n \<le> unat x2" "spare n (x1, o1) (x2, o2) = {}" using nested_less [OF c] by (auto simp: spare_def)
    then show ?thesis using w(1) False by (intro exI [of _ b]) (simp add: subset_clear.simps)
  next
    case True
    define b1 where "b1 = set_b_prev (x1 + of_nat n) 0 (set_b_next (x1 + of_nat n) 0 b)"
    define n' where "n' = (if unat x2 = unat x1 + n then n + 2 ^ o2 else Suc n)"
    have st: "subset_clear (of_nat n) x1 (of_nat o1) x2 (of_nat o2) b = subset_clear (of_nat n') x1 (of_nat o1) x2 (of_nat o2) b1"
      using True w(1,3-5) by (subst subset_clear.simps) (simp add: b1_def n'_def add.commute)
    have pos: "(0 :: nat) < 2 ^ o2" by simp
    have sp: "stop n' (x1, o1) (x2, o2)"
      using less.prems True c by (auto simp: stop_def n'_def nested_def)
    have "n < n'" by (simp add: n'_def)
    then have dec: "2 ^ o1 - n' < 2 ^ o1 - n" by (rule diff_less_mono2 [OF _ True])
    obtain b' where b': "subset_clear (of_nat n') x1 (of_nat o1) x2 (of_nat o2) b1 = Some b'" "same_ctxt b1 b'"
      "b_free b' = b_free b1" and
      e: "\<And>y. if (y, 0) \<in> spare n' (x1, o1) (x2, o2) \<or> y = x2 \<and> unat x1 + n' \<le> unat x2
           then b_next b' y = 0 \<and> b_prev b' y = 0 else entry_same b1 b' y"
      using less.hyps [OF dec sp, of b1] by blast
    have eq: "y = x1 + of_nat n \<longleftrightarrow> unat y = unat x1 + n" for y using w(2) [OF True] by (auto simp: word_unat_eq_iff)
    have sn: "(y, 0) \<in> spare n (x1, o1) (x2, o2) \<or> y = x2 \<and> unat x1 + n \<le> unat x2 \<longleftrightarrow>
      y = x1 + of_nat n \<or> (y, 0) \<in> spare n' (x1, o1) (x2, o2) \<or> y = x2 \<and> unat x1 + n' \<le> unat x2" for y
      using less.prems True c pos unfolding eq by (auto simp: spare_def stop_def n'_def nested_def word_unat_eq_iff)
    have "if y = x1 + of_nat n \<or> (y, 0) \<in> spare n' (x1, o1) (x2, o2) \<or> y = x2 \<and> unat x1 + n' \<le> unat x2
      then b_next b' y = 0 \<and> b_prev b' y = 0 else entry_same b b' y" for y
      using e [of y] by (auto simp: b1_def entry_same_def split: if_splits)
    moreover have "same_ctxt b b'" by (rule same_ctxt_trans [OF _ b'(2)]) (simp add: b1_def)
    moreover have "b_free b' = b_free b" using b'(3) by (simp add: b1_def)
    ultimately show ?thesis using st b'(1) unfolding sn by (intro exI [of _ b']) simp
  qed
qed

lemma set_prev_used:
  assumes inv: "binv b L U {}" and x: "(x, k) \<in> U"
  shows "binv (set_b_prev x v b) L U {}"
proof -
  note d = binvD [OF inv]
  have sc: "same_ctxt b (set_b_prev x v b)" by simp
  have "flist (set_b_prev x v b) j (L j)" if "j < orders b" for j
    using fblocks_disjoint_entry [OF inv x that] by (intro flist_cong [OF d(4) [OF that]]) (auto simp: entry_same_def)
  moreover have "IS_FREE (set_b_prev x v b) = IS_FREE b" by (simp add: fun_eq_iff IS_FREE_def)
  ultimately show ?thesis using d unfolding binv_def same_ctxtD [OF sc] by auto
qed

lemma spare_step:
  assumes c: "nested (x1, o1) (x2, o2)" and n: "stop n (x1, o1) (x2, o2)" "n < 2 ^ o1"
  shows "unat x2 = unat x1 + n \<Longrightarrow> spare (n + 2 ^ o2) (x1, o1) (x2, o2) = spare n (x1, o1) (x2, o2)"
    "unat x2 \<noteq> unat x1 + n \<Longrightarrow> unat x1 + n < unat x2 \<or> unat x2 + 2 ^ o2 \<le> unat x1 + n"
    "unat x2 \<noteq> unat x1 + n \<Longrightarrow>
      spare n (x1, o1) (x2, o2) = insert (x1 + of_nat n, 0) (spare (Suc n) (x1, o1) (x2, o2))"
    "(x1 + of_nat n, k) \<notin> spare (Suc n) (x1, o1) (x2, o2)"
proof -
  have pos: "(0 :: nat) < 2 ^ o2" by simp
  have nm: "n \<le> 2 ^ o1" using n(2) by simp
  note u = loop_words(2) [OF c nm n(2)]
  have eq: "y = x1 + of_nat n \<longleftrightarrow> unat y = unat x1 + n" for y using u by (auto simp: word_unat_eq_iff)
  show "unat x2 = unat x1 + n \<Longrightarrow> spare (n + 2 ^ o2) (x1, o1) (x2, o2) = spare n (x1, o1) (x2, o2)"
    by (auto simp: spare_def)
  show *: "unat x1 + n < unat x2 \<or> unat x2 + 2 ^ o2 \<le> unat x1 + n" if "unat x2 \<noteq> unat x1 + n"
    using n(1) that by (auto simp: stop_def)
  show "spare n (x1, o1) (x2, o2) = insert (x1 + of_nat n, 0) (spare (Suc n) (x1, o1) (x2, o2))" if "unat x2 \<noteq> unat x1 + n"
    using * [OF that] n(2) by (auto simp: spare_def eq u)
  show "(x1 + of_nat n, k) \<notin> spare (Suc n) (x1, o1) (x2, o2)" using u by (simp add: spare_def)
qed

lemma subset_free_run:
  assumes c: "nested (x1, o1) (x2, o2)" and U: "\<forall>e\<in>U. blk e \<inter> blk (x1, o1) = {}"
    and n: "stop n (x1, o1) (x2, o2)" and inv: "binv b L (insert (x2, o2) U \<union> spare n (x1, o1) (x2, o2)) {}"
    and s: "\<forall>(z, k)\<in>spare n (x1, o1) (x2, o2). GET_ORDER b z = 0" and g: "geometry b"
    and m: "unat x2 < unat x1 + n \<longrightarrow> GET_ORDER b x2 = of_nat o2"
  shows "\<exists>b' L'. subset_free (of_nat n) x1 (of_nat o1) x2 (of_nat o2) b = Some b' \<and> binv b' L' (insert (x2, o2) U) {}
    \<and> same_ctxt b b' \<and> GET_ORDER b' x2 = of_nat o2 \<and> (\<forall>(z, k)\<in>U. entry_same b b' z)"
  using n inv s g m
proof (induction "2 ^ o1 - n" arbitrary: n b L rule: less_induct)
  case less
  have nm: "n \<le> 2 ^ o1" using less.prems(1) by (simp add: stop_def)
  note w = loop_words [OF c nm]
  have pos: "(0 :: nat) < 2 ^ o2" by simp
  have x2: "unat x2 \<in> blk (x1, o1)" using c nested_less [OF c] by (simp add: nested_def)
  have zU: "z \<noteq> y" if "(z, k) \<in> U" "unat y \<in> blk (x1, o1)" for y z k
    using U that by (metis disjoint_iff start_in_blk)
  show ?case
  proof (cases "n < 2 ^ o1")
    case False
    then have "n = 2 ^ o1" using nm by simp
    then have "unat x2 < unat x1 + n" "spare n (x1, o1) (x2, o2) = {}" using nested_less [OF c] by (auto simp: spare_def)
    then show ?thesis using less.prems w(1) False
      by (intro exI [of _ b] exI [of _ L]) (simp add: subset_free.simps)
  next
    case True
    note sp = spare_step [OF c less.prems(1) True]
    have y: "unat (x1 + of_nat n) \<in> blk (x1, o1)" using w(2) [OF True] True by simp
    show ?thesis
    proof (cases "unat x2 = unat x1 + n")
      case e: True
      define b1 where "b1 = set_b_prev x2 (push_bit 27 (of_nat o2)) b"
      have st: "subset_free (of_nat n) x1 (of_nat o1) x2 (of_nat o2) b
          = subset_free (of_nat (n + 2 ^ o2)) x1 (of_nat o1) x2 (of_nat o2) b1"
        using True w(1,3,4) e by (subst subset_free.simps) (simp add: b1_def)
      have m1: "GET_ORDER b1 x2 = of_nat o2" using pw_simps(2) [of 0 o2] c
        by (simp add: b1_def GET_ORDER_def pw_def nested_def)
      have inv1: "binv b1 L (insert (x2, o2) U \<union> spare (n + 2 ^ o2) (x1, o1) (x2, o2)) {}"
        unfolding sp(1) [OF e] b1_def by (rule set_prev_used [OF less.prems(2), where k = o2]) simp
      have "stop (n + 2 ^ o2) (x1, o1) (x2, o2)" using less.prems(1) True c e by (auto simp: stop_def nested_def)
      moreover have "2 ^ o1 - (n + 2 ^ o2) < 2 ^ o1 - n" by (rule diff_less_mono2 [OF _ True]) simp
      moreover have "\<forall>(z, k)\<in>spare (n + 2 ^ o2) (x1, o1) (x2, o2). GET_ORDER b1 z = 0"
        using less.prems(3) pos unfolding sp(1) [OF e] by (auto simp: b1_def GET_ORDER_def spare_def)
      moreover have "geometry b1" using less.prems(4) by (simp add: b1_def geometry_def set_b_prev_def)
      ultimately obtain b' L' where b': "subset_free (of_nat (n + 2 ^ o2)) x1 (of_nat o1) x2 (of_nat o2) b1 = Some b'"
        "binv b' L' (insert (x2, o2) U) {}" "same_ctxt b1 b'" "GET_ORDER b' x2 = of_nat o2" "\<forall>(z, k)\<in>U. entry_same b1 b' z"
        using less.hyps [OF _ _ inv1] m1 by blast
      have "same_ctxt b b'" using b'(3) by (simp add: b1_def same_ctxt_def set_b_prev_def)
      moreover have "entry_same b b' z" if "(z, k) \<in> U" for z k
        using b'(5) that zU [OF that x2] by (auto simp: b1_def entry_same_def)
      ultimately show ?thesis using st b' by auto
    next
      case False
      define y where "y = x1 + of_nat n"
      have yin: "(y, 0) \<in> insert (x2, o2) U \<union> spare n (x1, o1) (x2, o2)" "(y, 0) \<in> spare n (x1, o1) (x2, o2)"
        using sp(3) [OF False] by (auto simp: y_def)
      have "GET_ORDER b y = of_nat 0" using less.prems(3) yin(2) by auto
      from buddy_free_used [OF less.prems(2) yin(1) this less.prems(4)]
      obtain b1 L1 where f: "buddy_free (page_adr b y) b = (True, b1)" 
        "binv b1 L1 (insert (x2, o2) U \<union> spare n (x1, o1) (x2, o2) - {(y, 0)}) {}" "same_ctxt b b1"
        "\<forall>(z, j)\<in>insert (x2, o2) U \<union> spare n (x1, o1) (x2, o2) - {(y, 0)}. entry_same b b1 z" by blast
      have yx: "y \<noteq> x2" using w(3) [OF True] False by (simp add: y_def)
      have "(y, 0) \<notin> U" using zU y by (auto simp: y_def)
      then have rest: "insert (x2, o2) U \<union> spare n (x1, o1) (x2, o2) - {(y, 0)}
          = insert (x2, o2) U \<union> spare (Suc n) (x1, o1) (x2, o2)"
        using sp(3) [OF False] sp(4) yx by (auto simp: y_def)
      note f = f [unfolded rest]
      have st: "subset_free (of_nat n) x1 (of_nat o1) x2 (of_nat o2) b
          = subset_free (of_nat (Suc n)) x1 (of_nat o1) x2 (of_nat o2) b1"
        using True w(1,3,5) False f(1) by (subst subset_free.simps) (simp add: y_def page_adr_def del: of_nat_Suc)
      have sn: "stop (Suc n) (x1, o1) (x2, o2)" "2 ^ o1 - Suc n < 2 ^ o1 - n"
        using less.prems(1) True sp(2) [OF False] by (auto simp: stop_def)
      have e1: "entry_same b b1 z" if "(z, j) \<in> insert (x2, o2) U \<union> spare (Suc n) (x1, o1) (x2, o2)" for z j
        using f(4) that by auto
      have "GET_ORDER b1 z = 0" if z: "(z, k) \<in> spare (Suc n) (x1, o1) (x2, o2)" for z k
      proof -
        have "(z, k) \<in> spare n (x1, o1) (x2, o2)" using z sp(3) [OF False] by simp
        then have "GET_ORDER b z = 0" using less.prems(3) by blast
        then show ?thesis using entry_same_get [OF e1 [of z k]] z by simp
      qed
      then have s1: "\<forall>(z, k)\<in>spare (Suc n) (x1, o1) (x2, o2). GET_ORDER b1 z = 0" by blast
      have g1: "geometry b1" using less.prems(4) same_ctxt_adr [OF f(3)] by simp
      have m1: "unat x2 < unat x1 + Suc n \<longrightarrow> GET_ORDER b1 x2 = of_nat o2"
        using less.prems(5) e1 [of x2 o2] entry_same_get [of b b1 x2] False by auto
      from less.hyps [OF sn(2) sn(1) f(2) s1 g1 m1]
      obtain b' L' where b': "subset_free (of_nat (Suc n)) x1 (of_nat o1) x2 (of_nat o2) b1 = Some b'"
        "binv b' L' (insert (x2, o2) U) {}" "same_ctxt b1 b'" "GET_ORDER b' x2 = of_nat o2" "\<forall>(z, k)\<in>U. entry_same b1 b' z"
        by blast
      have "same_ctxt b b'" using b'(3) f(3) by (simp add: same_ctxt_def)
      moreover have "entry_same b b' z" if "(z, k) \<in> U" for z k
        using b'(5) that e1 [of z k] entry_same_trans by blast
      ultimately show ?thesis using st b' by auto
    qed
  qed
qed

lemma spare_tiles:
  assumes t: "tiles n k (B \<union> {(x1, o1)})" "(x1, o1) \<notin> B" and c: "nested (x1, o1) (x2, o2)" and a: "aligned o2 x2"
  shows "tiles n k (B \<union> insert (x2, o2) (spare 0 (x1, o1) (x2, o2)))"
proof -
  have g: "o1 < k" "unat x1 + 2 ^ o1 \<le> n" using tiles_good [OF t(1), of "(x1, o1)"] by (auto simp: good_def)
  have cc: "blk (x2, o2) \<subseteq> blk (x1, o1)" using c by (auto simp: nested_def blk_def)
  have "(\<Union>e\<in>spare 0 (x1, o1) (x2, o2). blk e) = blk (x1, o1) - blk (x2, o2)"
  proof (intro equalityI subsetI)
    fix j assume j: "j \<in> blk (x1, o1) - blk (x2, o2)"
    then have "j < 4294967296" using c by (auto simp: nested_def)
    then have "unat (of_nat j :: u32) = j" by simp
    then have "(of_nat j, 0) \<in> spare 0 (x1, o1) (x2, o2)" "j \<in> blk (of_nat j, 0)" using j by (auto simp: spare_def)
    then show "j \<in> (\<Union>e\<in>spare 0 (x1, o1) (x2, o2). blk e)" by blast
  qed (auto simp: spare_def dest: le_less_Suc_eq)
  then have un: "(\<Union>e\<in>insert (x2, o2) (spare 0 (x1, o1) (x2, o2)). blk e) = (\<Union>e\<in>{(x1, o1)}. blk e)"
    using cc by auto
  have "tiles n k (B \<union> {(x1, o1)} - {(x1, o1)} \<union> insert (x2, o2) (spare 0 (x1, o1) (x2, o2)))"
  proof (rule tiles_replace [OF t(1) _ _ un])
    show "good n k e" if "e \<in> insert (x2, o2) (spare 0 (x1, o1) (x2, o2))" for e
      using that a g c by (auto simp: good_def spare_def nested_def aligned_def)
    show "blk e \<inter> blk e' = {}" if "e \<in> insert (x2, o2) (spare 0 (x1, o1) (x2, o2))"
      "e' \<in> insert (x2, o2) (spare 0 (x1, o1) (x2, o2))" "e \<noteq> e'" for e e'
      using that by (auto simp: spare_def blk_def word_unat_eq_iff)
  qed simp
  then show ?thesis using t(2) by (simp add: insert_Diff_if)
qed

lemma split_pending:
  assumes inv: "binv b L U {(x1, o1)}" and c: "nested (x1, o1) (x2, o2)" and a: "aligned o2 x2"
    and b': "same_ctxt b b'" "b_free b' = b_free b"
    and e: "\<forall>y. if (y, 0) \<in> spare 0 (x1, o1) (x2, o2) \<or> y = x2 \<and> unat x1 + 0 \<le> unat x2
           then b_next b' y = 0 \<and> b_prev b' y = 0 else entry_same b b' y"
  shows "binv b' L (insert (x2, o2) U \<union> spare 0 (x1, o1) (x2, o2)) {}"
    "(z, k) \<in> U \<Longrightarrow> blk (z, k) \<inter> blk (x1, o1) = {} \<and> entry_same b b' z"
    "GET_ORDER b' x2 = 0" "\<forall>(z, k)\<in>spare 0 (x1, o1) (x2, o2). GET_ORDER b' z = 0"
proof -
  note d = binvD [OF inv]
  let ?B = "U \<union> fblocks (orders b) L"
  have x1: "(x1, o1) \<in> ?B \<union> {(x1, o1)}" by simp
  have le: "unat x1 \<le> unat x2" using c by (simp add: nested_def)
  have x2in: "unat x2 \<in> blk (x1, o1)" using le nested_less [OF c] by simp
  have apart: "blk z \<inter> blk (x1, o1) = {}" if "z \<in> ?B" for z
  proof -
    have "z \<noteq> (x1, o1)" using that d(6,7) by auto
    then show ?thesis using that d(5) unfolding tiles_def by blast
  qed
  have out: "entry_same b b' y" if "unat y \<notin> blk (x1, o1)" for y
  proof -
    have "(y, 0) \<notin> spare 0 (x1, o1) (x2, o2)" "y \<noteq> x2" using that x2in by (auto simp: spare_def)
    then show ?thesis using e by (auto split: if_splits)
  qed
  have start: "entry_same b b' y" if "(y, k) \<in> ?B" for y k using apart [OF that] by (intro out) (use start_in_blk in blast)
  show "blk (z, k) \<inter> blk (x1, o1) = {} \<and> entry_same b b' z" if "(z, k) \<in> U" using apart start that by blast
  have zero: "b_next b' y = 0 \<and> b_prev b' y = 0" if "(y, 0) \<in> spare 0 (x1, o1) (x2, o2) \<or> y = x2" for y
    using e that le by (auto split: if_splits)
  then show "GET_ORDER b' x2 = 0" "\<forall>(z, k)\<in>spare 0 (x1, o1) (x2, o2). GET_ORDER b' z = 0"
    by (auto simp: GET_ORDER_def spare_def)
  have fl: "flist b' k (L k)" if k: "k < orders b" for k
  proof (rule flist_cong [OF d(4) [OF k]])
    show "entry_same b b' y" if "y \<in> set (L k)" for y using start [of y k] k that by (simp add: fblocks_def)
  qed (simp add: b')
  have "?B \<inter> {(x1, o1)} = {}" using d(6,7) by blast
  then have "(x1, o1) \<notin> ?B" by blast
  then have "tiles (pages b) (orders b) (?B \<union> insert (x2, o2) (spare 0 (x1, o1) (x2, o2)))"
    using d(5) by (intro spare_tiles [OF _ _ c a])
  moreover have "?B \<union> insert (x2, o2) (spare 0 (x1, o1) (x2, o2))
      = insert (x2, o2) U \<union> spare 0 (x1, o1) (x2, o2) \<union> fblocks (orders b) L \<union> {}" by blast
  moreover have "\<not> IS_FREE b' y" if y: "(y, k) \<in> insert (x2, o2) U \<union> spare 0 (x1, o1) (x2, o2)" for y k
  proof (cases "(y, k) \<in> U")
    case True
    then show ?thesis using d(8) start entry_same_get by blast
  next
    case False
    then have "b_next b' y = 0" using y zero [of y] by (auto simp: spare_def)
    then show ?thesis by (simp add: IS_FREE_def)
  qed
  ultimately show "binv b' L (insert (x2, o2) U \<union> spare 0 (x1, o1) (x2, o2)) {}"
    using d fl unfolding binv_def same_ctxtD [OF b'(1)] by auto
qed

lemma buddy_allocate_subset_used:
  assumes inv: "binv b L U {}" and x1: "x1 \<in> set (L o1)" "o1 < orders b" and g: "geometry b"
    and c: "nested (x1, o1) (x2, o2)" and a: "aligned o2 x2"
  shows "\<exists>b' L'. buddy_allocate_subset x1 (of_nat o1) x2 (of_nat o2) b = Some b' \<and> binv b' L' (insert (x2, o2) U) {}
    \<and> same_ctxt b b' \<and> GET_ORDER b' x2 = of_nat o2 \<and> x2 \<notin> fst ` U \<and> (\<forall>(z, k)\<in>U. entry_same b b' z)"
proof -
  define b1 where "b1 = buddy_remove_free x1 (of_nat o1) b"
  obtain L1 where r: "binv b1 L1 U {(x1, o1)}" "same_ctxt b b1" "\<forall>z. (\<forall>j<orders b. z \<notin> set (L j)) \<longrightarrow> entry_same b b1 z"
    using remove_free_binv [OF inv x1] unfolding b1_def by blast
  have s0: "stop 0 (x1, o1) (x2, o2)" using c by (simp add: stop_def nested_def)
  obtain b2 where b2: "subset_clear 0 x1 (of_nat o1) x2 (of_nat o2) b1 = Some b2" "same_ctxt b1 b2" "b_free b2 = b_free b1"
    "\<forall>y. if (y, 0) \<in> spare 0 (x1, o1) (x2, o2) \<or> y = x2 \<and> unat x1 + 0 \<le> unat x2
           then b_next b2 y = 0 \<and> b_prev b2 y = 0 else entry_same b1 b2 y"
    using subset_clear_run [OF c s0, of b1] unfolding of_nat_simps(1) by blast
  note sp = split_pending [OF r(1) c a b2(2-4)]
  have sc: "same_ctxt b b2" by (rule same_ctxt_trans [OF r(2) b2(2)])
  have g2: "geometry b2" using same_ctxt_adr [OF sc] g by simp
  have U: "\<forall>e\<in>U. blk e \<inter> blk (x1, o1) = {}" using sp(2) by auto
  have m: "unat x2 < unat x1 + 0 \<longrightarrow> GET_ORDER b2 x2 = of_nat o2" using c by (simp add: nested_def)
  obtain b' L' where b': "subset_free 0 x1 (of_nat o1) x2 (of_nat o2) b2 = Some b'" "binv b' L' (insert (x2, o2) U) {}"
    "same_ctxt b2 b'" "GET_ORDER b' x2 = of_nat o2" "\<forall>(z, k)\<in>U. entry_same b2 b' z"
    using subset_free_run [OF c U s0 sp(1) sp(4) g2 m] unfolding of_nat_simps(1) by blast
  have "entry_same b b' z" if "(z, k) \<in> U" for z k
    using r(3) fblocks_disjoint_entry [OF inv that] sp(2) [OF that] b'(5) that by (blast intro: entry_same_trans)
  moreover have "x2 \<notin> fst ` U"
  proof
    assume "x2 \<in> fst ` U"
    then obtain k where "(x2, k) \<in> U" by auto
    moreover have "unat x2 \<in> blk (x1, o1)" using c nested_less [OF c] by (simp add: nested_def)
    ultimately show False using U start_in_blk by blast
  qed
  moreover have "same_ctxt b b'" by (rule same_ctxt_trans [OF sc b'(3)])
  ultimately show ?thesis using b2(1) b' by (auto simp: buddy_allocate_subset_def b1_def)
qed

section \<open>Allocation\<close>

text \<open>Free blocks are joined as far as they can be: an aligned run of free pages lies in one free block.\<close>

lemma free_run_in_block:
  assumes inv: "binv b L U {}" and x: "aligned i x" "i < orders b" "unat x + 2 ^ i \<le> pages b"
    and free: "\<forall>c\<in>U. blk c \<inter> blk (x, i) = {}"
  shows "\<exists>y k. i \<le> k \<and> k < orders b \<and> y \<in> set (L k) \<and> blk (x, i) \<subseteq> blk (y, k)"
proof (rule ccontr)
  assume no: "\<not> ?thesis"
  note d = binvD [OF inv]
  let ?B = "U \<union> fblocks (orders b) L \<union> {}"
  have tile: "\<exists>y k. (y, k) \<in> fblocks (orders b) L \<and> j \<in> blk (y, k)" if "j \<in> blk (x, i)" for j
  proof -
    have "j < pages b" using that x(3) by simp
    then obtain c where c: "c \<in> ?B" "j \<in> blk c" using tiles_cover [OF d(5)] by blast
    then have "c \<notin> U" using free that by blast
    then show ?thesis using c by (cases c) auto
  qed
  have small: "k < i \<and> blk (y, k) \<subseteq> blk (x, i)" if y: "(y, k) \<in> fblocks (orders b) L" "j \<in> blk (y, k)" "j \<in> blk (x, i)" for y k j
  proof -
    have k: "k < orders b" "y \<in> set (L k)" using y(1) by (auto simp: fblocks_def)
    have ay: "aligned k y" using tiles_good [OF d(5), of "(y, k)"] y(1) by (simp add: good_def)
    have "k < i"
    proof (rule ccontr)
      assume "\<not> k < i"
      then have "i \<le> k" "blk (x, i) \<subseteq> blk (y, k)" using aligned_nested [OF ay x(1) _ y(2,3)] by auto
      then show False using no k by blast
    qed
    then show ?thesis using aligned_nested [OF x(1) ay _ y(3,2)] by simp
  qed
  define P where "P k \<longleftrightarrow> (\<exists>y. (y, k) \<in> fblocks (orders b) L \<and> blk (y, k) \<inter> blk (x, i) \<noteq> {})" for k
  have "\<exists>k. P k" using tile [of "unat x"] start_in_blk [of x i] unfolding P_def by blast
  then have "P (LEAST k. P k)" by (rule LeastI_ex)
  then obtain k y j where y: "(y, k) \<in> fblocks (orders b) L" "j \<in> blk (y, k)" "j \<in> blk (x, i)" "k = (LEAST k. P k)"
    unfolding P_def by blast
  have least: "k \<le> k'" if "P k'" for k' using that unfolding y(4) by (rule Least_le)
  note s = small [OF y(1-3)]
  have yB: "(y, k) \<in> ?B" using y(1) by simp
  have k: "k < 32" using s x(2) d(2) by simp
  have ay: "aligned k y" using tiles_good [OF d(5) yB] by (simp add: good_def)
  note ba = buddy_aligned [OF ay k]
  have "blk (min y (buddy_of y k), Suc k) \<subseteq> blk (x, i)"
  proof (rule aligned_nested [OF x(1) ba(3) _ y(3)])
    show "j \<in> blk (min y (buddy_of y k), Suc k)" using y(2) ba(4) by blast
  qed (use s in simp)
  then have bx: "unat (buddy_of y k) \<in> blk (x, i)" using ba(4) start_in_blk [of "buddy_of y k" k] by blast
  then have "unat (buddy_of y k) < pages b" using x(3) by simp
  then obtain j' where j': "j' \<le> k" "(buddy_of y k, j') \<in> ?B" using tile_at_aligned [OF d(5) yB k] by blast
  have "blk (buddy_of y k, j') \<inter> blk (x, i) \<noteq> {}" using bx start_in_blk by blast
  then have "(buddy_of y k, j') \<in> fblocks (orders b) L" using j'(2) free by blast
  moreover from this have "P j'" unfolding P_def using bx start_in_blk by blast
  ultimately have "(buddy_of y k, k) \<in> fblocks (orders b) L" using least [of j'] j'(1) by simp
  then show False using d(9) y(1) s x(2) by (auto simp: no_buddies_def fblocks_def)
qed

text \<open>What an allocator holds: the blocks in use, their orders recorded.\<close>

definition buddy_uses :: "buddy_ctxt \<Rightarrow> bblock set \<Rightarrow> bool" where
  "buddy_uses b U \<longleftrightarrow> geometry b \<and> marked b U \<and> (\<exists>L. binv b L U {})"

definition buddy_has :: "buddy_ctxt \<Rightarrow> bblock set \<Rightarrow> u32 \<Rightarrow> nat \<Rightarrow> bool" where
  "buddy_has b U x i \<longleftrightarrow> aligned i x \<and> unat x + 2 ^ i \<le> pages b \<and> (\<forall>c\<in>U. blk c \<inter> blk (x, i) = {})"

lemma flist_none: "flist b k xs \<Longrightarrow> b_free b (of_nat k) = - 1 \<longleftrightarrow> xs = []"
  by (auto simp: flist_def dest: hd_in_set minus_1_bound)

lemma slt_orders: "orders b \<le> 27 \<Longrightarrow> i < orders b \<Longrightarrow> slt (of_nat i) (b_order b)"
  by (rule slt_small [THEN iffD2]) simp_all

lemma alloc_loop_spec:
  assumes inv: "binv b L U {}" and n: "n = orders b - i"
  shows "alloc_loop n (of_nat i) order b = Some (None, b) \<and> (\<forall>k. i \<le> k \<and> k < orders b \<longrightarrow> L k = [])
    \<or> (\<exists>k x. i \<le> k \<and> k < orders b \<and> x \<in> set (L k) \<and> alloc_loop n (of_nat i) order b =
        Option.bind (buddy_allocate_subset x (of_nat k) x order b) (\<lambda>b. Some (Some (page_adr b x), b)))"
  using n
proof (induction n arbitrary: i)
  case (Suc n)
  note d = binvD [OF inv]
  have i: "i < orders b" using Suc.prems by simp
  note s = slt_orders [OF d(2) i]
  show ?case
  proof (cases "L i = []")
    case True
    then have "alloc_loop (Suc n) (of_nat i) order b = alloc_loop n (of_nat (Suc i)) order b"
      using s flist_none [OF d(4) [OF i]] by (simp add: Let_def add.commute)
    moreover have "n = orders b - Suc i" using Suc.prems by simp
    moreover have "i \<le> k \<longleftrightarrow> k = i \<or> Suc i \<le> k" for k by auto
    ultimately show ?thesis using Suc.IH [of "Suc i"] True by auto
  next
    case False
    then have "b_free b (of_nat i) = hd (L i)" using d(4) [OF i] by (simp add: flist_def)
    then have "alloc_loop (Suc n) (of_nat i) order b =
        Option.bind (buddy_allocate_subset (hd (L i)) (of_nat i) (hd (L i)) order b) (\<lambda>b. Some (Some (page_adr b (hd (L i))), b))"
      using s False flist_none [OF d(4) [OF i]] by (simp add: Let_def page_adr_def)
    then show ?thesis using i False by (intro disjI2 exI [of _ i] exI [of _ "hd (L i)"]) auto
  qed
qed auto

lemma free_nested:
  assumes inv: "binv b L U {}" and y: "y \<in> set (L k)" "k < orders b" and x: "i \<le> k" "blk (x, i) \<subseteq> blk (y, k)"
  shows "nested (y, k) (x, i)"
proof -
  note d = binvD [OF inv]
  have "unat y + 2 ^ k \<le> pages b" using tiles_good [OF d(5), of "(y, k)"] y by (simp add: good_def fblocks_def)
  then have "unat y + 2 ^ k \<le> 134217728" using d(3) by linarith
  moreover have "blk (x, i) \<subseteq> {..<unat y + 2 ^ k}" using x(2) by (auto simp: blk_def)
  then have "unat x + 2 ^ i \<le> unat y + 2 ^ k" by (rule blk_bound)
  moreover have "unat x \<in> blk (y, k)" using x(2) start_in_blk by blast
  ultimately show ?thesis using x(1) y(2) d(2) by (simp add: nested_def)
qed

lemma uses_subset:
  assumes u: "geometry b" "marked b U" "binv b L U {}" and y: "y \<in> set (L k)" "k < orders b"
    and x: "i \<le> k" "blk (x, i) \<subseteq> blk (y, k)" "aligned i x"
  shows "\<exists>b'. buddy_allocate_subset y (of_nat k) x (of_nat i) b = Some b' \<and> buddy_uses b' (insert (x, i) U)
    \<and> same_ctxt b b' \<and> x \<notin> fst ` U"
proof -
  obtain b' L' where b': "buddy_allocate_subset y (of_nat k) x (of_nat i) b = Some b'" "binv b' L' (insert (x, i) U) {}"
    "same_ctxt b b'" "GET_ORDER b' x = of_nat i" "x \<notin> fst ` U" "\<forall>(z, k)\<in>U. entry_same b b' z"
    using buddy_allocate_subset_used [OF u(3) y u(1) free_nested [OF u(3) y x(1,2)] x(3)] by blast
  have "marked b' (insert (x, i) U)" unfolding marked_def
  proof (clarify, elim insertE)
    fix z k assume "(z, k) = (x, i)"
    then show "GET_ORDER b' z = of_nat k" using b'(4) by simp
  next
    fix z k assume z: "(z, k) \<in> U"
    then have "entry_same b b' z" using b'(6) by blast
    then show "GET_ORDER b' z = of_nat k" using u(2) z entry_same_get by (fastforce simp: marked_def)
  qed
  moreover have "geometry b'" using same_ctxt_adr [OF b'(3)] u(1) by simp
  ultimately show ?thesis using b' by (auto simp: buddy_uses_def)
qed

lemma nat_sint_order: "orders b \<le> 27 \<Longrightarrow> unat (order :: u32) < 2147483648 \<Longrightarrow>
    nat (sint (b_order b) - sint order) = orders b - unat order"
  using nat_sint_diff [of "orders b" "unat order"] unfolding word_unat_of_nat_self by linarith

lemma buddy_alloc_cases:
  assumes u: "buddy_uses b U" and o: "unat order < 2147483648"
  shows "buddy_alloc order b = Some (None, b) \<and> (\<forall>L k. binv b L U {} \<longrightarrow> unat order \<le> k \<longrightarrow> k < orders b \<longrightarrow> L k = [])
    \<or> (\<exists>x b'. buddy_alloc order b = Some (Some (page_adr b x), b') \<and> buddy_uses b' (insert (x, unat order) U)
        \<and> same_ctxt b b' \<and> x \<notin> fst ` U)"
proof -
  have g: "geometry b" and m: "marked b U" using u by (auto simp: buddy_uses_def)
  obtain L where inv: "binv b L U {}" using u by (auto simp: buddy_uses_def)
  note d = binvD [OF inv]
  have al: "buddy_alloc order b = alloc_loop (orders b - unat order) (of_nat (unat order)) order b"
    by (simp add: buddy_alloc_def nat_sint_order [OF d(2) o])
  consider "alloc_loop (orders b - unat order) (of_nat (unat order)) order b = Some (None, b)"
      "\<forall>k. unat order \<le> k \<and> k < orders b \<longrightarrow> L k = []"
    | k x where "unat order \<le> k" "k < orders b" "x \<in> set (L k)"
      "alloc_loop (orders b - unat order) (of_nat (unat order)) order b =
        Option.bind (buddy_allocate_subset x (of_nat k) x order b) (\<lambda>b. Some (Some (page_adr b x), b))"
    using alloc_loop_spec [OF inv refl, of "unat order" order] by blast
  then show ?thesis
  proof cases
    case 1
    have "L' k = []" if L': "binv b L' U {}" "unat order \<le> k" "k < orders b" for L' k
    proof -
      have "b_free b (of_nat k) = - 1" using flist_none [OF d(4) [OF L'(3)]] 1(2) L'(2,3) by simp
      then show ?thesis using flist_none [OF binvD(4) [OF L'(1,3)]] by simp
    qed
    then show ?thesis using 1(1) al by auto
  next
    case 2
    have "aligned k x" using tiles_good [OF d(5), of "(x, k)"] 2 by (simp add: good_def fblocks_def)
    then have "aligned (unat order) x" using 2(1) by (meson aligned_unat_dvd dvd_trans le_imp_power_dvd)
    moreover have "blk (x, unat order) \<subseteq> blk (x, k)"
      using power_increasing [OF 2(1), of "2 :: nat"] by (auto simp: blk_def)
    ultimately obtain b' where b': "buddy_allocate_subset x (of_nat k) x (of_nat (unat order)) b = Some b'"
      "buddy_uses b' (insert (x, unat order) U)" "same_ctxt b b'" "x \<notin> fst ` U"
      using uses_subset [OF g m inv 2(3,2,1)] by blast
    have "buddy_alloc order b = Some (Some (page_adr b x), b')"
      unfolding al 2(4) using b'(1) same_ctxt_adr [OF b'(3)] by simp
    then show ?thesis using b' by blast
  qed
qed

text \<open>An allocation finds a block whenever there is an aligned run of free pages of that size.\<close>

lemma buddy_alloc_none:
  assumes u: "buddy_uses b U" and o: "unat order < 2147483648" and h: "buddy_has b U x (unat order)"
  shows "buddy_alloc order b \<noteq> Some (None, b)"
proof
  assume none: "buddy_alloc order b = Some (None, b)"
  obtain L where inv: "binv b L U {}" and g: "geometry b" using u by (auto simp: buddy_uses_def)
  have "unat x + 2 ^ unat order \<le> pages b" "pages b \<le> 2 ^ (orders b - 1)" using h g by (simp_all add: buddy_has_def geometry_def)
  then have "(2 :: nat) ^ unat order \<le> 2 ^ (orders b - 1)" by linarith
  then have "unat order \<le> orders b - 1" by (rule power_le_imp_le_exp [rotated]) simp
  then have i: "unat order < orders b" using binvD(1) [OF inv] by linarith
  note run = free_run_in_block [OF inv _ i, of x]
  have "\<exists>y k. unat order \<le> k \<and> k < orders b \<and> y \<in> set (L k) \<and> blk (x, unat order) \<subseteq> blk (y, k)"
    using h by (intro run) (simp_all add: buddy_has_def)
  then have "\<not> (\<forall>L k. binv b L U {} \<longrightarrow> unat order \<le> k \<longrightarrow> k < orders b \<longrightarrow> L k = [])" using inv by fastforce
  then obtain x b' where "buddy_alloc order b = Some (Some (page_adr b x), b')" using buddy_alloc_cases [OF u o] by blast
  then show False using none by simp
qed

text \<open>The search of a free list.\<close>

definition covers :: "nat \<Rightarrow> u32 \<Rightarrow> u32 \<Rightarrow> u32 \<Rightarrow> bool" where
  "covers k adr1 end1 y \<longleftrightarrow> y \<le> adr1 \<and> end1 < y + lsl 1 (of_nat k)"

lemma alloc_at_list_find:
  assumes s: "fseg k b p (y # ys) (last (y # ys))" and d: "distinct (y # ys)" "\<forall>z\<in>set (y # ys). unat z < 134217728"
  shows "alloc_at_list y (of_nat k) adr1 end1 b = Some (find (covers k adr1 end1) (y # ys))"
  using s d
proof (induction ys arbitrary: p y)
  case Nil
  then have "GET_NEXT b y = y" using nw_simps(1) [of y] by (simp add: GET_NEXT_def)
  then show ?case by (subst alloc_at_list.simps) (simp add: covers_def Let_def)
next
  case (Cons z zs)
  then have g: "GET_NEXT b y = z" using nw_simps(1) [of z] by (simp add: GET_NEXT_def)
  have "alloc_at_list z (of_nat k) adr1 end1 b = Some (find (covers k adr1 end1) (z # zs))"
    using Cons by (intro Cons.IH [of y]) auto
  moreover have "y \<noteq> z" using Cons.prems by auto
  ultimately show ?case using g by (subst alloc_at_list.simps) (simp add: covers_def Let_def)
qed

lemma alloc_at_list_flist:
  assumes f: "flist b k ys" "ys \<noteq> []"
  shows "alloc_at_list (b_free b (of_nat k)) (of_nat k) adr1 end1 b = Some (find (covers k adr1 end1) ys)"
proof -
  obtain z zs where "ys = z # zs" using f(2) by (cases ys) auto
  then show ?thesis using f alloc_at_list_find [of k b z z zs adr1 end1] by (simp add: flist_def)
qed

lemma alloc_at_loop_spec:
  assumes inv: "binv b L U {}" and n: "n = orders b - i"
  shows "alloc_at_loop n (of_nat i) order adr1 end1 b = Some (None, b)
      \<and> (\<forall>k. i \<le> k \<and> k < orders b \<longrightarrow> (\<forall>y\<in>set (L k). \<not> covers k adr1 end1 y))
    \<or> (\<exists>k y. i \<le> k \<and> k < orders b \<and> y \<in> set (L k) \<and> covers k adr1 end1 y
        \<and> alloc_at_loop n (of_nat i) order adr1 end1 b =
            Option.bind (buddy_allocate_subset y (of_nat k) adr1 order b) (\<lambda>b. Some (Some (page_adr b adr1), b)))"
  using n
proof (induction n arbitrary: i)
  case (Suc n)
  note d = binvD [OF inv]
  have i: "i < orders b" using Suc.prems by simp
  note s = slt_orders [OF d(2) i]
  have split: "i \<le> k \<longleftrightarrow> k = i \<or> Suc i \<le> k" for k by auto
  have n: "n = orders b - Suc i" using Suc.prems by simp
  have next': ?case if *: "alloc_at_loop (Suc n) (of_nat i) order adr1 end1 b = alloc_at_loop n (of_nat (Suc i)) order adr1 end1 b"
    "\<forall>y\<in>set (L i). \<not> covers i adr1 end1 y"
  proof -
    from Suc.IH [OF n] show ?thesis
    proof (elim disjE conjE exE)
      assume "alloc_at_loop n (of_nat (Suc i)) order adr1 end1 b = Some (None, b)"
        "\<forall>k. Suc i \<le> k \<and> k < orders b \<longrightarrow> (\<forall>y\<in>set (L k). \<not> covers k adr1 end1 y)"
      then show ?thesis using * split by auto
    qed (use * in \<open>auto intro: Suc_leD\<close>)
  qed
  show ?case
  proof (cases "L i = []")
    case True
    then show ?thesis using s flist_none [OF d(4) [OF i]] by (intro next') (simp_all add: Let_def add.commute)
  next
    case False
    then have ne: "b_free b (of_nat i) \<noteq> - 1" using flist_none [OF d(4) [OF i]] by simp
    note f = alloc_at_list_flist [OF d(4) [OF i] False, of adr1 end1]
    show ?thesis
    proof (cases "find (covers i adr1 end1) (L i)")
      case None
      then have "\<forall>y\<in>set (L i). \<not> covers i adr1 end1 y" by (auto simp: find_None_iff)
      then show ?thesis using s ne f None by (intro next') (simp_all add: Let_def add.commute)
    next
      case (Some y)
      then have y: "y \<in> set (L i)" "covers i adr1 end1 y" by (auto simp: find_Some_iff)
      have "alloc_at_loop (Suc n) (of_nat i) order adr1 end1 b =
        Option.bind (buddy_allocate_subset y (of_nat i) adr1 order b) (\<lambda>b. Some (Some (page_adr b adr1), b))"
        using s ne f Some by (simp add: Let_def page_adr_def)
      then show ?thesis using i y by blast
    qed
  qed
qed auto

lemma unat_push_bit_small:
  assumes "unat (x :: u32) * 2 ^ p < 4294967296" shows "unat (push_bit p x) = unat x * 2 ^ p"
proof -
  have "push_bit p x = of_nat (unat x * 2 ^ p)" by (simp add: push_bit_eq_mult)
  then show ?thesis using assms by (simp only: unat_of_nat_u32)
qed

lemma at_words:
  assumes p: "unat pb < 32" and o: "i + unat pb \<le> 32" and v: "x = lsr v pb"
  shows "v AND (lsl 1 (of_nat i + pb) - 1) = 0 \<longleftrightarrow> aligned i x \<and> v = lsl x pb"
proof -
  define k where "k = unat pb"
  have pb: "pb = of_nat k" by (simp add: k_def)
  have k: "k < 32" "i + k \<le> 32" using p o by (simp_all add: k_def)
  have "lsl 1 (of_nat i + pb) - 1 = mask (i + k)"
  proof (cases "i + k = 32")
    case True
    then have "lsl 1 (of_nat i + pb) = 0" unfolding pb of_nat_add [symmetric] by (simp add: lsl_def)
    then show ?thesis using True by (simp add: mask_eq_exp_minus_1)
  next
    case False
    then have "i + k < 32" using k by simp
    then have "lsl 1 (of_nat i + pb) = 2 ^ (i + k)" using lsl_pow [of "i + k"] by (simp add: pb)
    then show ?thesis by (simp add: mask_eq_exp_minus_1)
  qed
  then have 1: "v AND (lsl 1 (of_nat i + pb) - 1) = 0 \<longleftrightarrow> 2 ^ (i + k) dvd unat v"
    by (simp add: take_bit_eq_mask [symmetric] aligned_def [symmetric] aligned_unat_dvd)
  have x: "unat x = unat v div 2 ^ k" using k(1) v by (simp add: lsr_def k_def [symmetric] unat_drop_bit_u32)
  have xv: "unat x * 2 ^ k \<le> unat v" unfolding x by (rule div_times_less_eq_dividend)
  then have "unat x * 2 ^ k < 4294967296" using unat_u32_less [of v] by linarith
  then have "unat (lsl x pb) = unat x * 2 ^ k"
    using k(1) unat_push_bit_small by (simp add: lsl_def k_def [symmetric])
  then have 2: "v = lsl x pb \<longleftrightarrow> 2 ^ k dvd unat v"
    unfolding word_unat_eq_iff x dvd_eq_mod_eq_0 using div_mult_mod_eq [of "unat v" "2 ^ k"] by (auto simp: add_eq_self_zero)
  have "2 ^ (i + k) dvd unat v \<longleftrightarrow> 2 ^ i dvd unat x \<and> 2 ^ k dvd unat v" (is "?l \<longleftrightarrow> ?r")
  proof
    assume ?l
    moreover from this have "2 ^ k dvd unat v" by (rule dvd_trans [rotated]) (simp add: power_add)
    ultimately show ?r by (auto simp: x power_add dvd_div_iff_mult)
  qed (auto simp: x power_add dvd_div_iff_mult)
  then show ?thesis using 1 2 by (simp add: aligned_unat_dvd)
qed

lemma order_fits:
  assumes g: "geometry b" and x: "unat x + 2 ^ i \<le> pages b"
  shows "i + unat (b_page_bits b) \<le> 32" "i \<le> orders b - 1"
proof -
  have "2 ^ i * 2 ^ unat (b_page_bits b) \<le> pages b * 2 ^ unat (b_page_bits b)" using x by (intro mult_le_mono1) simp
  then have "(2 :: nat) ^ (i + unat (b_page_bits b)) \<le> 4294967296" using g unfolding geometry_def power_add by linarith
  then have "(2 :: nat) ^ (i + unat (b_page_bits b)) \<le> 2 ^ 32" by simp
  then show "i + unat (b_page_bits b) \<le> 32" by (rule power_le_imp_le_exp [rotated]) simp
  have "pages b \<le> 2 ^ (orders b - 1)" using g by (simp add: geometry_def)
  then have "(2 :: nat) ^ i \<le> 2 ^ (orders b - 1)" using x by linarith
  then show "i \<le> orders b - 1" by (rule power_le_imp_le_exp [rotated]) simp
qed

text \<open>A block of the free list covers the pages asked for when its pages include them.\<close>

lemma covers_iff:
  assumes x: "unat x < 134217728" "i \<le> 26" and y: "k \<le> 26" "unat y + 2 ^ k \<le> 134217728"
  shows "covers k x (x + lsl 1 (of_nat i) - 1) y \<longleftrightarrow> blk (x, i) \<subseteq> blk (y, k)"
proof -
  have p: "(2 :: nat) ^ i \<le> 67108864" "(2 :: nat) ^ k \<le> 67108864" "(1 :: nat) \<le> 2 ^ i" using x y by (simp_all add: pow_le_26)
  have "(of_nat (unat x + 2 ^ i - 1) :: u32) = of_nat (unat x + 2 ^ i) - 1"
    by (subst of_nat_diff) (rule trans_le_add2, simp, simp)
  then have e: "x + lsl 1 (of_nat i) - 1 = of_nat (unat x + 2 ^ i - 1)" "y + lsl 1 (of_nat k) = of_nat (unat y + 2 ^ k)"
    using x y by (simp_all add: lsl_pow)
  have "unat x + 2 ^ i - 1 < 4294967296" "unat y + 2 ^ k < 4294967296" using p x y by linarith+
  then have u: "unat (x + lsl 1 (of_nat i) - 1) = unat x + 2 ^ i - 1" "unat (y + lsl 1 (of_nat k)) = unat y + 2 ^ k"
    unfolding e by (simp_all only: unat_of_nat_u32)
  have "covers k x (x + lsl 1 (of_nat i) - 1) y \<longleftrightarrow> unat y \<le> unat x \<and> unat x + 2 ^ i \<le> unat y + 2 ^ k"
    unfolding covers_def word_le_nat_alt word_less_nat_alt u using p(3) by linarith
  moreover have "blk (x, i) \<subseteq> blk (y, k) \<longleftrightarrow> unat y \<le> unat x \<and> unat x + 2 ^ i \<le> unat y + 2 ^ k"
    by (simp add: blk_def ivl_subset)
  ultimately show ?thesis by simp
qed

text \<open>Allocation at an address.\<close>

lemma buddy_alloc_at_cases:
  assumes u: "buddy_uses b U" and o: "unat order < 2147483648"
  shows "if \<exists>x. adr = page_adr b x \<and> buddy_has b U x (unat order)
    then \<exists>x b'. adr = page_adr b x \<and> buddy_has b U x (unat order) \<and> buddy_alloc_at adr order b = Some (Some adr, b')
      \<and> buddy_uses b' (insert (x, unat order) U) \<and> same_ctxt b b' \<and> x \<notin> fst ` U
    else buddy_alloc_at adr order b = Some (None, b)"
proof -
  have g: "geometry b" and m: "marked b U" using u by (auto simp: buddy_uses_def)
  obtain L where inv: "binv b L U {}" using u by (auto simp: buddy_uses_def)
  note d = binvD [OF inv]
  define i where "i = unat order"
  define v where "v = adr - b_base b"
  define x where "x = lsr v (b_page_bits b)"
  have ord: "order = of_nat i" by (simp add: i_def)
  have p: "unat (b_page_bits b) < 32" "5 \<le> unat (b_page_bits b)" using g by (simp_all add: geometry_def)
  have "unat v div 2 ^ unat (b_page_bits b) \<le> unat v div 2 ^ 5"
    by (rule div_le_mono2) (use power_increasing [OF p(2), of "2 :: nat"] in simp_all)
  moreover have "unat v div 2 ^ 5 < 134217728" using unat_u32_less [of v] by (simp add: div_less_iff_less_mult)
  ultimately have x27: "unat x < 134217728" using p(1) by (simp add: x_def lsr_def unat_drop_bit_u32)
  have tile: "unat y + 2 ^ k \<le> pages b" "aligned k y" if "y \<in> set (L k)" "k < orders b" for y k
    using tiles_good [OF d(5), of "(y, k)"] that by (simp_all add: good_def fblocks_def)
  have cov: "covers k x (x + lsl 1 order - 1) y \<longleftrightarrow> blk (x, i) \<subseteq> blk (y, k)"
    if "i \<le> k" "k < orders b" "y \<in> set (L k)" for k y
    unfolding ord using covers_iff [OF x27] tile [OF that(3,2)] that d(2,3) by simp
  have at: "buddy_alloc_at adr order b = (if v AND (lsl 1 (order + b_page_bits b) - 1) \<noteq> 0 then Some (None, b)
    else alloc_at_loop (orders b - i) (of_nat i) order x (x + lsl 1 order - 1) b)"
    by (simp add: buddy_alloc_at_def Let_def nat_sint_order [OF d(2) o] v_def x_def i_def)
  have uniq: "y = x" if "adr = page_adr b y" "unat y < pages b" for y
    using page_adr_index [OF g that(2)] that(1) by (simp add: x_def v_def)
  have words: "v AND (lsl 1 (order + b_page_bits b) - 1) = 0 \<longleftrightarrow> aligned i x \<and> adr = page_adr b x"
    if "unat z + 2 ^ i \<le> pages b" for z
    using at_words [OF p(1) order_fits(1) [OF g that] x_def] by (auto simp: ord v_def page_adr_def algebra_simps)
  consider (none) "alloc_at_loop (orders b - i) (of_nat i) order x (x + lsl 1 order - 1) b = Some (None, b)"
      "\<And>k y. i \<le> k \<Longrightarrow> k < orders b \<Longrightarrow> y \<in> set (L k) \<Longrightarrow> \<not> blk (x, i) \<subseteq> blk (y, k)"
    | (some) k y where "i \<le> k" "k < orders b" "y \<in> set (L k)" "blk (x, i) \<subseteq> blk (y, k)"
      "alloc_at_loop (orders b - i) (of_nat i) order x (x + lsl 1 order - 1) b =
        Option.bind (buddy_allocate_subset y (of_nat k) x order b) (\<lambda>b. Some (Some (page_adr b x), b))"
    using alloc_at_loop_spec [OF inv refl, of i order x "x + lsl 1 order - 1"] cov by blast
  then show ?thesis
  proof cases
    case none
    have False if z: "adr = page_adr b z" "buddy_has b U z i" for z
    proof -
      have zf: "unat z + 2 ^ i \<le> pages b" "aligned i z" "\<forall>c\<in>U. blk c \<inter> blk (z, i) = {}" using z(2) by (simp_all add: buddy_has_def)
      have "(0 :: nat) < 2 ^ i" by simp
      then have "unat z < pages b" using zf(1) by linarith
      then have zx: "z = x" using uniq z(1) by blast
      have "i < orders b" using order_fits(2) [OF g zf(1)] d(1) by linarith
      from free_run_in_block [OF inv zf(2) this zf(1,3)] show False using none(2) unfolding zx by blast
    qed
    then show ?thesis using at none(1) by (auto simp: i_def)
  next
    case some
    note t = tile [OF some(3,2)]
    have "blk (x, i) \<subseteq> {..<unat y + 2 ^ k}" using some(4) by (auto simp: blk_def)
    from blk_bound [OF this] have xp: "unat x + 2 ^ i \<le> pages b" using t(1) by linarith
    note w = words [OF xp]
    have disj: "blk c \<inter> blk (x, i) = {}" if "c \<in> U" for c
    proof -
      have "(y, k) \<in> fblocks (orders b) L" using some by (simp add: fblocks_def)
      moreover have "(y, k) \<notin> U" using fblocks_disjoint_entry [OF inv _ some(2)] some(3) by blast
      ultimately have "blk c \<inter> blk (y, k) = {}" using that by (intro tiles_disjoint [OF d(5)]) auto
      then show ?thesis using some(4) by blast
    qed
    show ?thesis
    proof (cases "aligned i x \<and> adr = page_adr b x")
      case True
      then have "buddy_has b U x i" using disj xp by (simp add: buddy_has_def)
      moreover obtain b' where b': "buddy_allocate_subset y (of_nat k) x (of_nat i) b = Some b'"
        "buddy_uses b' (insert (x, i) U)" "same_ctxt b b'" "x \<notin> fst ` U"
        using uses_subset [OF g m inv some(3,2,1,4)] True by blast
      moreover have "buddy_alloc_at adr order b = Some (Some adr, b')"
        using at w True some(5) b'(1) same_ctxt_adr [OF b'(3)] by (simp add: ord)
      ultimately show ?thesis using True unfolding i_def [symmetric] by auto
    next
      case False
      have "\<not> (adr = page_adr b z \<and> buddy_has b U z i)" for z
      proof
        assume z: "adr = page_adr b z \<and> buddy_has b U z i"
        have "(0 :: nat) < 2 ^ i" by simp
        then have "unat z < pages b" using z unfolding buddy_has_def by linarith
        then have "z = x" using uniq z by blast
        then show False using False z by (simp add: buddy_has_def)
      qed
      then show ?thesis using at w False by (simp add: i_def)
    qed
  qed
qed

section \<open>Release and queries\<close>

lemma buddy_free_uses:
  assumes u: "buddy_uses b U" and x: "(x, k) \<in> U"
  shows "\<exists>b'. buddy_free (page_adr b x) b = (True, b') \<and> buddy_uses b' (U - {(x, k)}) \<and> same_ctxt b b'"
proof -
  have g: "geometry b" and m: "marked b U" using u by (auto simp: buddy_uses_def)
  obtain L where inv: "binv b L U {}" using u by (auto simp: buddy_uses_def)
  have "GET_ORDER b x = of_nat k" using m x by (auto simp: marked_def)
  from buddy_free_used [OF inv x this g]
  obtain b' L' where b': "buddy_free (page_adr b x) b = (True, b')" "binv b' L' (U - {(x, k)}) {}" "same_ctxt b b'"
    "\<forall>(z, j)\<in>U - {(x, k)}. entry_same b b' z" by blast
  have "GET_ORDER b' z = of_nat j" if "(z, j) \<in> U - {(x, k)}" for z j
    using b'(4) m that entry_same_get by (fastforce simp: marked_def)
  then have "marked b' (U - {(x, k)})" unfolding marked_def by blast
  moreover have "geometry b'" using same_ctxt_adr [OF b'(3)] g by simp
  ultimately show ?thesis using b' by (auto simp: buddy_uses_def)
qed

text \<open>Freeing what is free already is refused: the page of a free block keeps its flag.\<close>

lemma contains_loop_spec:
  assumes inv: "binv b L U {}" and n: "n = orders b - i"
  shows "contains_loop n (of_nat i) True b \<longleftrightarrow> (\<exists>k. i \<le> k \<and> k < orders b \<and> L k \<noteq> [])"
  using n
proof (induction n arbitrary: i)
  case (Suc n)
  note d = binvD [OF inv]
  have i: "i < orders b" using Suc.prems by simp
  have split: "i \<le> k \<longleftrightarrow> k = i \<or> Suc i \<le> k" for k by auto
  have "n = orders b - Suc i" using Suc.prems by simp
  from Suc.IH [OF this] show ?case
    using slt_orders [OF d(2) i] flist_none [OF d(4) [OF i]] i split by (auto simp: add.commute)
qed auto

lemma slt_unat: "unat (x :: u32) < 2147483648 \<Longrightarrow> unat y < 2147483648 \<Longrightarrow> slt x y \<longleftrightarrow> unat x < unat y"
  by (rule slt_small)

lemma buddy_contains_larger:
  assumes inv: "binv b L U {}" and o: "unat order < 2147483648"
  shows "buddy_contains_order order True b \<longleftrightarrow> (\<exists>k. unat order \<le> k \<and> k < orders b \<and> L k \<noteq> [])"
proof -
  note d = binvD [OF inv]
  have "slt order (b_order b) \<longleftrightarrow> unat order < orders b" "\<not> slt order 0" using o d(2) by (simp_all add: slt_unat)
  moreover have "contains_loop (nat (sint (b_order b) - sint order)) order True b \<longleftrightarrow>
      (\<exists>k. unat order \<le> k \<and> k < orders b \<and> L k \<noteq> [])"
    using contains_loop_spec [OF inv nat_sint_order [OF d(2) o]] unfolding word_unat_of_nat_self .
  ultimately show ?thesis by (auto simp: buddy_contains_order_def)
qed

section \<open>Initialisation\<close>

lemma order_from_size_run:
  assumes "unat sz \<le> 2147483648" "n \<le> 31"
  shows "\<exists>m. n \<le> m \<and> m \<le> 31 \<and> order_from_size sz (of_nat n) = Some (of_nat m) \<and> unat sz \<le> 2 ^ m
    \<and> (\<forall>j. n \<le> j \<and> j < m \<longrightarrow> 2 ^ j < unat sz)"
  using assms(2)
proof (induction "31 - n" arbitrary: n)
  case 0
  then have n: "n = 31" by simp
  have "unat (lsl 1 (of_nat 31)) = (2147483648 :: nat)" by (simp add: lsl_def)
  then show ?case using assms(1) n by (intro exI [of _ 31]) (subst order_from_size.simps, simp add: word_less_nat_alt)
next
  case (Suc d)
  then have n: "n < 31" by simp
  have "(2 :: nat) ^ n < 2 ^ 32" using n by (intro power_strict_increasing) auto
  then have u: "unat (lsl 1 (of_nat n) :: u32) = 2 ^ n" unfolding lsl_pow [OF less_trans [OF n, of 32, simplified]]
    by (intro unat_of_nat_u32) simp
  show ?case
  proof (cases "2 ^ n < unat sz")
    case True
    have "d = 31 - Suc n" "Suc n \<le> 31" using Suc.hyps(2) n by linarith+
    note IH = Suc.hyps(1) [OF this]
    obtain m where m: "Suc n \<le> m" "m \<le> 31" "order_from_size sz (of_nat (Suc n)) = Some (of_nat m)" "unat sz \<le> 2 ^ m"
      "\<forall>j. Suc n \<le> j \<and> j < m \<longrightarrow> 2 ^ j < unat sz" using IH by blast
    have "order_from_size sz (of_nat n) = Some (of_nat m)"
      using True m(3) by (subst order_from_size.simps) (simp add: word_less_nat_alt u add.commute)
    moreover have "2 ^ j < unat sz" if "n \<le> j" "j < m" for j using m(5) that True by (cases "j = n") auto
    ultimately show ?thesis using m(1,2,4) by (intro exI [of _ m]) simp
  next
    case False
    then have "order_from_size sz (of_nat n) = Some (of_nat n)" by (subst order_from_size.simps) (simp add: word_less_nat_alt u)
    then show ?thesis using False n by (intro exI [of _ n]) simp
  qed
qed

text \<open>The loop ends only when the order is large enough; no order is for more than half the address space.\<close>

lemma order_from_size_some: "order_from_size sz r = Some y \<Longrightarrow> sz \<le> lsl 1 y"
  by (rule order_from_size.raw_induct [where P = "\<lambda>sz r y. sz \<le> lsl 1 y"]) (auto split: if_splits simp: not_less)

lemma lsl_1_le: "lsl 1 y \<le> (0x80000000 :: u32)"
proof -
  have "unat (push_bit k 1 :: u32) \<le> 2147483648" if "k < 32" for k
  proof -
    have "(2 :: nat) ^ k \<le> 2 ^ 31" using that by (intro power_increasing) auto
    then show ?thesis using unat_push_bit_small [of 1 k] by simp
  qed
  then show ?thesis unfolding lsl_def Let_def by (auto simp: word_le_nat_alt)
qed

lemma order_from_size_none: "unat sz > 2147483648 \<Longrightarrow> order_from_size sz r = None"
proof (cases "order_from_size sz r")
  case (Some y)
  assume "unat sz > 2147483648"
  then show ?thesis using order_from_size_some [OF Some] lsl_1_le [of y] by (auto simp: word_le_nat_alt)
qed

lemma init_lists_run:
  assumes "orders b \<le> 27" "n = orders b - i"
  shows "init_lists n (of_nat i) b = b\<lparr>b_free := (\<lambda>j. if i \<le> unat j \<and> unat j < orders b then - 1 else b_free b j)\<rparr>"
  using assms
proof (induction n arbitrary: i b)
  case 0
  then show ?case by (cases b) (auto simp: fun_eq_iff)
next
  case (Suc n)
  have i: "i < orders b" using Suc.prems(2) by simp
  have o: "orders (set_b_free (of_nat i) (- 1) b) = orders b" by (simp add: set_b_free_def)
  have "n = orders (set_b_free (of_nat i) (- 1) b) - Suc i" using Suc.prems(2) unfolding o by simp
  note IH = Suc.IH [OF _ this, unfolded o, OF Suc.prems(1)]
  have j: "j = of_nat i \<longleftrightarrow> unat j = i" for j :: u32
    using i Suc.prems(1) by (auto simp: word_unat_eq_iff)
  have "init_lists (Suc n) (of_nat i) b = init_lists n (of_nat (Suc i)) (set_b_free (of_nat i) (- 1) b)"
    using slt_orders [OF Suc.prems(1) i] by (simp add: add.commute)
  also have "\<dots> = b\<lparr>b_free := (\<lambda>j. if i \<le> unat j \<and> unat j < orders b then - 1 else b_free b j)\<rparr>"
    unfolding IH using i by (auto simp: set_b_free_def fun_eq_iff j)
  finally show ?case .
qed

text \<open>Which pages start out free.\<close>

definition init_range :: "buddy_ctxt \<Rightarrow> u32 \<Rightarrow> u32 \<Rightarrow> u32 \<Rightarrow> bool" where
  "init_range b first limit x \<longleftrightarrow> (first = 0 \<or> first \<le> page_adr b x) \<and> (limit = 0 \<or> page_adr b x < limit)"

definition unfreed :: "nat \<Rightarrow> buddy_ctxt \<Rightarrow> u32 \<Rightarrow> u32 \<Rightarrow> bblock set" where
  "unfreed n b first limit = {(x, k). k = 0 \<and> unat x < pages b \<and> \<not> (unat x < n \<and> init_range b first limit x)}"

lemma init_pages_run:
  assumes "buddy_uses b (unfreed i b first limit)" "n = pages b - i" "i \<le> pages b"
  shows "buddy_uses (init_pages n (of_nat i) first limit b) (unfreed (pages b) b first limit)
    \<and> same_ctxt b (init_pages n (of_nat i) first limit b)"
  using assms
proof (induction n arbitrary: i b)
  case 0
  then have "i = pages b" by simp
  then show ?case using 0 by simp
next
  case (Suc n)
  have i: "i < pages b" using Suc.prems(2) by simp
  then have "i < 4294967296" using unat_u32_less [of "b_index_max b"] by linarith
  then have u: "unat (of_nat i :: u32) = i" by simp
  have j: "x = of_nat i \<longleftrightarrow> unat x = i" for x :: u32 using u by (auto simp: word_unat_eq_iff)
  define b1 where "b1 = (if init_range b first limit (of_nat i) then snd (buddy_free (page_adr b (of_nat i)) b) else b)"
  have st: "init_pages (Suc n) (of_nat i) first limit b = init_pages n (of_nat (Suc i)) first limit b1"
    by (simp add: b1_def init_range_def page_adr_def Let_def add.commute)
  have b1: "buddy_uses b1 (unfreed (Suc i) b first limit) \<and> same_ctxt b b1"
  proof (cases "init_range b first limit (of_nat i)")
    case True
    have "(of_nat i, 0) \<in> unfreed i b first limit" using i u by (simp add: unfreed_def)
    from buddy_free_uses [OF Suc.prems(1) this]
    have "buddy_uses b1 (unfreed i b first limit - {(of_nat i, 0)}) \<and> same_ctxt b b1" using True by (auto simp: b1_def)
    moreover have "unfreed i b first limit - {(of_nat i, 0)} = unfreed (Suc i) b first limit"
      using True u by (auto simp: unfreed_def j less_Suc_eq)
    ultimately show ?thesis by simp
  next
    case False
    then have "unfreed (Suc i) b first limit = unfreed i b first limit" by (auto simp: unfreed_def less_Suc_eq j [symmetric])
    then show ?thesis using False Suc.prems(1) by (simp add: b1_def)
  qed
  have same: "unfreed m b1 first limit = unfreed m b first limit" for m
    using b1 same_ctxt_adr [of b b1] same_ctxtD [of b b1] by (simp add: unfreed_def init_range_def)
  have pg: "pages b1 = pages b" using b1 same_ctxtD by blast
  have "n = pages b1 - Suc i" "Suc i \<le> pages b1" using Suc.prems(2) i unfolding pg by simp_all
  from Suc.IH [OF _ this] b1 show ?case unfolding st same pg using same_ctxt_trans by blast
qed

lemma fresh_binv:
  assumes o: "0 < orders b" "orders b \<le> 27" "pages b \<le> 67108864"
    and e: "\<And>x. unat x < pages b \<Longrightarrow> b_next b x = 0" "\<And>k. k < orders b \<Longrightarrow> b_free b (of_nat k) = - 1"
  shows "binv b (\<lambda>_. []) {(x, k). k = 0 \<and> unat x < pages b} {}"
proof -
  have "tiles (pages b) (orders b) {(x, k). k = 0 \<and> unat x < pages b}" unfolding tiles_def
  proof (intro conjI)
    show "(\<Union>c\<in>{(x, k). k = 0 \<and> unat x < pages b}. blk c) = {..<pages b}"
    proof (intro equalityI subsetI)
      fix j assume "j \<in> {..<pages b}"
      then have j: "j < pages b" "j < 4294967296" using o(3) by auto
      then have "(of_nat j :: u32, 0 :: nat) \<in> {(x, k). k = 0 \<and> unat x < pages b}" "j \<in> blk (of_nat j, 0)" by simp_all
      then show "j \<in> (\<Union>c\<in>{(x, k). k = 0 \<and> unat x < pages b}. blk c)" by blast
    qed (auto simp: blk_def)
  qed (use o in \<open>auto simp: good_def blk_def word_unat_eq_iff aligned_def\<close>)
  moreover have "\<not> IS_FREE b x" if "unat x < pages b" for x using e(1) [OF that] by (simp add: IS_FREE_def)
  ultimately show ?thesis using o e(2) by (auto simp: binv_def flist_def fblocks_def no_buddies_def)
qed

definition page_up :: "u32 \<Rightarrow> u32 \<Rightarrow> u32" where "page_up pb a = (a + (lsl 1 pb - 1)) AND NOT (lsl 1 pb - 1)"
definition page_down :: "u32 \<Rightarrow> u32 \<Rightarrow> u32" where "page_down pb a = a AND NOT (lsl 1 pb - 1)"

lemma buddy_init_uses:
  assumes p: "5 \<le> unat pb" "unat pb \<le> 24" and b0: "base AND (lsl 1 pb - 1) = 0"
    and sz: "0 < unat sz div 2 ^ unat pb" "unat sz div 2 ^ unat pb \<le> 67108864" and m: "malloc (lsr sz pb * 8) \<noteq> 0"
  shows "\<exists>b'. buddy_init malloc base sz pb ff lf b = Some (True, b') \<and> b_base b' = base \<and> b_page_bits b' = pb
    \<and> pages b' = unat sz div 2 ^ unat pb \<and> buddy_uses b' (unfreed (pages b') b' (page_up pb ff) (page_down pb lf))"
proof -
  define first where "first = page_up pb ff"
  define limit where "limit = page_down pb lf"
  define n where "n = lsr sz pb"
  have n: "unat n = unat sz div 2 ^ unat pb" using p(2) by (simp add: n_def lsr_def unat_drop_bit_u32)
  obtain k where k: "k \<le> 31" "order_from_size n 0 = Some (of_nat k)" "unat n \<le> 2 ^ k" "\<forall>j. j < k \<longrightarrow> 2 ^ j < unat n"
    using order_from_size_run [of n 0] sz(2) n by auto
  have k26: "k \<le> 26"
  proof (rule ccontr)
    assume "\<not> k \<le> 26"
    then have "2 ^ 26 < unat n" using k(4) [rule_format, of 26] by simp
    then show False using sz(2) n by simp
  qed
  define b1 where "b1 = b\<lparr>b_base := base, b_page_bits := pb, b_index_max := n, b_order := of_nat (Suc k), b_all := malloc (n * 8),
    b_next := (\<lambda>i. if i < n then 0 else b_next b i), b_prev := (\<lambda>i. if i < n then 0 else b_prev b i)\<rparr>"
  define b2 where "b2 = b1\<lparr>b_free := (\<lambda>j. if 0 \<le> unat j \<and> unat j < Suc k then - 1 else b_free b1 j)\<rparr>"
  have bo: "b_order b1 = of_nat (Suc k)" by (simp add: b1_def del: of_nat_Suc)
  have o1: "orders b1 = Suc k" unfolding bo by (rule unat_of_nat_u32) (use k26 in simp)
  have s: "sint (b_order b1) = int (Suc k)" unfolding bo by (rule sint_of_nat_u32) (use k26 in simp)
  have "init_lists (Suc k) (of_nat 0) b1 = b2"
    unfolding b2_def o1 [symmetric] by (rule init_lists_run) (use k26 o1 in simp_all)
  then have il: "init_lists (nat (sint (b_order b1))) 0 b1 = b2" unfolding s nat_int of_nat_simps(1) .
  have c: "\<not> slt pb 5" "\<not> slt 24 pb" "\<not> n < 1" using p sz n by (simp_all add: slt_unat word_less_nat_alt)
  have "buddy_init malloc base sz pb ff lf b = Some (True, init_pages (unat n) 0 first limit b2)"
    using b0 c m k(2) il unfolding buddy_init_def Let_def n_def [symmetric] first_def limit_def page_up_def page_down_def
    by (simp add: b1_def add.commute cong del: if_weak_cong)
  have b2: "orders b2 = Suc k" "pages b2 = unat n" using o1 by (simp_all add: b2_def b1_def)
  have inv: "binv b2 (\<lambda>_. []) {(x, k). k = 0 \<and> unat x < pages b2} {}"
  proof (rule fresh_binv)
    show "b_free b2 (of_nat j) = - 1" if "j < orders b2" for j
    proof -
      have "unat (of_nat j :: u32) = j" using that k26 by (intro unat_of_nat_u32) (simp add: b2)
      moreover have "j < Suc k" using that unfolding b2(1) .
      ultimately show ?thesis by (simp add: b2_def)
    qed
  qed (use k26 sz n in \<open>simp_all add: b2\<close>, simp_all add: b2_def b1_def word_less_nat_alt)
  have "unat n * 2 ^ unat pb \<le> unat sz" unfolding n by (rule div_times_less_eq_dividend)
  then have "unat n * 2 ^ unat pb \<le> 4294967296" using unat_u32_less [of sz] by linarith
  then have "geometry b2" using p k(3) b2 by (simp add: geometry_def b2_def b1_def)
  moreover have "marked b2 {(x, k). k = 0 \<and> unat x < pages b2}"
    by (auto simp: marked_def b2 GET_ORDER_def b2_def b1_def word_less_nat_alt)
  moreover have "unfreed 0 b2 first limit = {(x, k). k = 0 \<and> unat x < pages b2}" by (auto simp: unfreed_def)
  ultimately have "buddy_uses b2 (unfreed 0 b2 first limit)" using inv by (auto simp: buddy_uses_def)
  from init_pages_run [OF this refl]
  have r: "buddy_uses (init_pages (unat n) 0 first limit b2) (unfreed (pages b2) b2 first limit)"
    "same_ctxt b2 (init_pages (unat n) 0 first limit b2)" by (simp_all add: b2)
  let ?b = "init_pages (unat n) 0 first limit b2"
  have "unfreed (pages ?b) ?b first limit = unfreed (pages b2) b2 first limit"
    using r(2) same_ctxt_adr [OF r(2)] same_ctxtD [OF r(2)] by (simp add: unfreed_def init_range_def)
  moreover have "b_base b2 = base" "b_page_bits b2 = pb" by (simp_all add: b2_def b1_def)
  ultimately show ?thesis using r n b2(2) same_ctxtD [OF r(2)] \<open>buddy_init _ _ _ _ _ _ _ = _\<close> unfolding first_def limit_def by auto
qed

section \<open>The contract\<close>

lemma uses_has:
  assumes "buddy_uses b' (insert (x, i) U)" "x \<notin> fst ` U" "same_ctxt b b'"
  shows "buddy_has b U x i"
proof -
  obtain L where inv: "binv b' L (insert (x, i) U) {}" using assms(1) by (auto simp: buddy_uses_def)
  note t = binvD(5) [OF inv]
  have x: "(x, i) \<in> insert (x, i) U \<union> fblocks (orders b') L \<union> {}" by simp
  have "blk c \<inter> blk (x, i) = {}" if "c \<in> U" for c
  proof (rule tiles_disjoint [OF t _ x])
    show "c \<noteq> (x, i)" using that assms(2) by force
  qed (use that in simp)
  then show ?thesis using tiles_good [OF t x] same_ctxtD [OF assms(3)] by (simp add: buddy_has_def good_def)
qed

text \<open>Addresses within the region.\<close>

lemma page_adr_off:
  assumes "geometry b" "unat x < pages b"
  shows "unat (page_adr b x - b_base b) = unat x * 2 ^ unat (b_page_bits b)"
proof -
  define p where "p = unat (b_page_bits b)"
  have p: "p < 32" "pages b * 2 ^ p \<le> 4294967296" using assms(1) by (simp_all add: geometry_def p_def)
  have "unat x * 2 ^ p < pages b * 2 ^ p" using assms(2) by simp
  then have "unat x * 2 ^ p < 4294967296" using p(2) by linarith
  then show ?thesis using p(1) unat_push_bit_small by (simp add: page_adr_def lsl_def p_def [symmetric])
qed

lemma page_adr_inj: "geometry b \<Longrightarrow> unat x < pages b \<Longrightarrow> unat y < pages b \<Longrightarrow> page_adr b x = page_adr b y \<Longrightarrow> x = y"
  by (metis page_adr_index)

text \<open>A client knows its blocks by address and order; the region may hold other blocks in use, such as the pages that
  \<open>buddy_init\<close> did not free.\<close>

definition buddy_holds :: "u32 \<Rightarrow> nat \<Rightarrow> buddy_ctxt \<Rightarrow> (u32 \<times> nat) set \<Rightarrow> bool" where
  "buddy_holds base p b R \<longleftrightarrow> b_base b = base \<and> unat (b_page_bits b) = p
     \<and> (\<exists>U. buddy_uses b U \<and> R \<subseteq> (\<lambda>(x, k). (page_adr b x, k)) ` U)"

definition buddy_apart :: "u32 \<Rightarrow> nat \<Rightarrow> u32 \<times> nat \<Rightarrow> u32 \<times> nat \<Rightarrow> bool" where
  "buddy_apart base p c d \<longleftrightarrow> unat (fst c - base) + 2 ^ (p + snd c) \<le> unat (fst d - base)
     \<or> unat (fst d - base) + 2 ^ (p + snd d) \<le> unat (fst c - base)"

definition buddy_release :: "u32 \<Rightarrow> buddy_ctxt \<Rightarrow> buddy_ctxt option" where
  "buddy_release a b = (case buddy_free a b of (ok, b') \<Rightarrow> if ok then Some b' else None)"

lemma uses_page: "buddy_uses b U \<Longrightarrow> (x, k) \<in> U \<Longrightarrow> unat x < pages b"
proof -
  assume u: "buddy_uses b U" "(x, k) \<in> U"
  obtain L where inv: "binv b L U {}" using u(1) by (auto simp: buddy_uses_def)
  have "good (pages b) (orders b) (x, k)" using tiles_good [OF binvD(5) [OF inv]] u(2) by blast
  then show ?thesis using good_start by blast
qed

lemma blk_disjoint: "blk (x, i) \<inter> blk (y, j) = {} \<Longrightarrow> unat x + 2 ^ i \<le> unat y \<or> unat y + 2 ^ j \<le> unat x"
proof (rule ccontr)
  assume d: "blk (x, i) \<inter> blk (y, j) = {}" and n: "\<not> (unat x + 2 ^ i \<le> unat y \<or> unat y + 2 ^ j \<le> unat x)"
  have "max (unat x) (unat y) \<in> blk (x, i) \<inter> blk (y, j)" using n by (auto simp: max_def not_le)
  then show False using d by blast
qed

lemma buddy_holds_apart:
  assumes h: "buddy_holds base p b R" and c: "c \<in> R" "d \<in> R" "c \<noteq> d"
  shows "buddy_apart base p c d"
proof -
  obtain U where U: "b_base b = base" "unat (b_page_bits b) = p" "buddy_uses b U" "R \<subseteq> (\<lambda>(x, k). (page_adr b x, k)) ` U"
    using h by (auto simp: buddy_holds_def)
  obtain x i where x: "(x, i) \<in> U" "c = (page_adr b x, i)" using U(4) c(1) by auto
  obtain y j where y: "(y, j) \<in> U" "d = (page_adr b y, j)" using U(4) c(2) by auto
  obtain L where inv: "binv b L U {}" and g: "geometry b" using U(3) by (auto simp: buddy_uses_def)
  have "blk (x, i) \<inter> blk (y, j) = {}" using x y c(3) by (intro tiles_disjoint [OF binvD(5) [OF inv]]) auto
  from blk_disjoint [OF this] have "(unat x + 2 ^ i) * 2 ^ p \<le> unat y * 2 ^ p \<or> (unat y + 2 ^ j) * 2 ^ p \<le> unat x * 2 ^ p"
    by (auto intro: mult_le_mono1)
  moreover have "unat (fst c - base) = unat x * 2 ^ p" "unat (fst d - base) = unat y * 2 ^ p"
    using page_adr_off [OF g uses_page [OF U(3) x(1)]] page_adr_off [OF g uses_page [OF U(3) y(1)]] U(1,2) x(2) y(2) by simp_all
  ultimately show ?thesis using x(2) y(2) by (auto simp: buddy_apart_def power_add algebra_simps)
qed

lemma buddy_holds_add:
  assumes U: "b_base b = base" "unat (b_page_bits b) = p" "buddy_uses b U" "R \<subseteq> (\<lambda>(x, k). (page_adr b x, k)) ` U"
    and b': "buddy_uses b' (insert (x, k) U)" "same_ctxt b b'" "x \<notin> fst ` U"
  shows "page_adr b x \<notin> fst ` R \<and> buddy_holds base p b' (insert (page_adr b x, k) R)"
proof
  have g: "geometry b" using U(3) by (simp add: buddy_uses_def)
  have xp: "unat x < pages b" using uses_page [OF b'(1), of x k] same_ctxtD [OF b'(2)] by simp
  show "page_adr b x \<notin> fst ` R"
  proof
    assume "page_adr b x \<in> fst ` R"
    then obtain y j where y: "(y, j) \<in> U" "page_adr b x = page_adr b y" using U(4) by auto
    then have "x = y" using page_adr_inj [OF g xp uses_page [OF U(3) y(1)]] by simp
    then show False using y(1) b'(3) by force
  qed
  have "page_adr b' = page_adr b" using same_ctxt_adr [OF b'(2)] by (simp add: fun_eq_iff)
  then show "buddy_holds base p b' (insert (page_adr b x, k) R)"
    unfolding buddy_holds_def using U same_ctxtD [OF b'(2)] b'(1) by (auto intro!: exI [of _ "insert (x, k) U"])
qed

lemma buddy_alloc_law:
  assumes h: "buddy_holds base p b R" and o: "unat order < 2147483648"
  shows "\<exists>r b'. buddy_alloc order b = Some (r, b') \<and> (case r of None \<Rightarrow> buddy_holds base p b' R
    | Some a \<Rightarrow> \<exists>k. k = unat order \<and> a \<notin> fst ` R \<and> buddy_holds base p b' (insert (a, k) R))"
proof -
  obtain U where U: "b_base b = base" "unat (b_page_bits b) = p" "buddy_uses b U" "R \<subseteq> (\<lambda>(x, k). (page_adr b x, k)) ` U"
    using h by (auto simp: buddy_holds_def)
  from buddy_alloc_cases [OF U(3) o] show ?thesis
  proof (elim disjE exE conjE)
    fix x b' assume "buddy_alloc order b = Some (Some (page_adr b x), b')" "buddy_uses b' (insert (x, unat order) U)"
      "same_ctxt b b'" "x \<notin> fst ` U"
    then show ?thesis using buddy_holds_add [OF U] by simp
  qed (use h in simp)
qed

lemma buddy_alloc_at_law:
  assumes h: "buddy_holds base p b R" and o: "unat order < 2147483648"
  shows "\<exists>r b'. buddy_alloc_at adr order b = Some (r, b') \<and> (case r of None \<Rightarrow> buddy_holds base p b' R
    | Some a \<Rightarrow> \<exists>k. k = unat order \<and> a \<notin> fst ` R \<and> buddy_holds base p b' (insert (a, k) R))"
proof -
  obtain U where U: "b_base b = base" "unat (b_page_bits b) = p" "buddy_uses b U" "R \<subseteq> (\<lambda>(x, k). (page_adr b x, k)) ` U"
    using h by (auto simp: buddy_holds_def)
  show ?thesis using buddy_alloc_at_cases [OF U(3) o, of adr] buddy_holds_add [OF U] h by (auto split: if_splits)
qed

lemma buddy_release_law:
  assumes h: "buddy_holds base p b R" and a: "(a, k) \<in> R"
  shows "\<exists>b'. buddy_release a b = Some b' \<and> buddy_holds base p b' (R - {(a, k)})"
proof -
  obtain U where U: "b_base b = base" "unat (b_page_bits b) = p" "buddy_uses b U" "R \<subseteq> (\<lambda>(x, k). (page_adr b x, k)) ` U"
    using h by (auto simp: buddy_holds_def)
  obtain x where x: "(x, k) \<in> U" "a = page_adr b x" using U(4) a by auto
  obtain b' where b': "buddy_free a b = (True, b')" "buddy_uses b' (U - {(x, k)})" "same_ctxt b b'"
    using buddy_free_uses [OF U(3) x(1)] x(2) by blast
  have "page_adr b' = page_adr b" using same_ctxt_adr [OF b'(3)] by (simp add: fun_eq_iff)
  moreover have "R - {(a, k)} \<subseteq> (\<lambda>(x, k). (page_adr b x, k)) ` (U - {(x, k)})" using U(4) x by auto
  ultimately have "buddy_holds base p b' (R - {(a, k)})"
    unfolding buddy_holds_def using U same_ctxtD [OF b'(3)] b'(2) by auto
  then show ?thesis using b'(1) by (simp add: buddy_release_def)
qed

interpretation buddy_any: allocator "buddy_holds base p" "\<lambda>q. unat q < 2147483648" "\<lambda>q k. k = unat q"
  "buddy_apart base p" buddy_alloc buddy_release for base p
  by unfold_locales (fact buddy_alloc_law buddy_release_law buddy_holds_apart)+

interpretation buddy_fixed: allocator "buddy_holds base p" "\<lambda>(a, q). unat q < 2147483648" "\<lambda>(a, q) k. k = unat q"
  "buddy_apart base p" "\<lambda>(a, q). buddy_alloc_at a q" buddy_release for base p
  by unfold_locales (use buddy_alloc_at_law buddy_release_law buddy_holds_apart in auto)

text \<open>C27: an allocation returns an aligned block of the order asked for, clear of every block in use, which is then in use too;
  it fails, changing nothing, exactly when no aligned run of free pages of that size exists.\<close>

theorem buddy_alloc_refines:
  assumes "buddy_uses b U" "unat order < 2147483648"
  shows "if \<exists>x. buddy_has b U x (unat order)
    then \<exists>x b'. buddy_alloc order b = Some (Some (page_adr b x), b') \<and> buddy_has b U x (unat order)
      \<and> buddy_uses b' (insert (x, unat order) U)
    else buddy_alloc order b = Some (None, b)"
  using buddy_alloc_cases [OF assms]
proof (elim disjE exE conjE)
  assume none: "buddy_alloc order b = Some (None, b)"
  then have "\<nexists>x. buddy_has b U x (unat order)" using buddy_alloc_none [OF assms] by blast
  then show ?thesis using none by simp
next
  fix x b' assume x: "buddy_alloc order b = Some (Some (page_adr b x), b')" "buddy_uses b' (insert (x, unat order) U)"
    "same_ctxt b b'" "x \<notin> fst ` U"
  then have "buddy_has b U x (unat order)" by (intro uses_has)
  then show ?thesis using x by auto
qed

text \<open>A region of two pages of 4 KB, all free: what the initialisation makes of an empty context.\<close>

definition buddy_zero :: buddy_ctxt where
  "buddy_zero = \<lparr>b_base = 0, b_index_max = 0, b_page_bits = 0, b_order = 0, b_all = 0,
     b_next = (\<lambda>_. 0), b_prev = (\<lambda>_. 0), b_free = (\<lambda>_. 0)\<rparr>"

lemma buddy_two_pages:
  "\<exists>b. buddy_init (\<lambda>_. 0x1000) 0x80000000 0x2000 12 0 0 buddy_zero = Some (True, b) \<and> pages b = 2 \<and> buddy_uses b {}"
proof -
  have l: "lsl 1 (12 :: u32) = 4096" "lsr 0x2000 (12 :: u32) = 2" by code_simp+
  obtain b where b: "buddy_init (\<lambda>_. 0x1000) 0x80000000 0x2000 12 0 0 buddy_zero = Some (True, b)" "pages b = 2"
    "buddy_uses b (unfreed (pages b) b (page_up 12 0) (page_down 12 0))"
    using buddy_init_uses [of 12 "0x80000000" "0x2000" "\<lambda>_. 0x1000" 0 0 buddy_zero] by (auto simp: l)
  have "page_up 12 0 = 0" "page_down 12 0 = 0" by (simp_all add: page_up_def page_down_def l)
  then have "unfreed (pages b) b (page_up 12 0) (page_down 12 0) = {}" by (auto simp: unfreed_def init_range_def)
  then show ?thesis using b by auto
qed

lemma buddy_alloc_refines_witness:
  "\<exists>b x b'. buddy_init (\<lambda>_. 0x1000) 0x80000000 0x2000 12 0 0 buddy_zero = Some (True, b)
    \<and> buddy_alloc 1 b = Some (Some (page_adr b x), b') \<and> buddy_has b {} x 1 \<and> buddy_uses b' {(x, 1)}"
proof -
  obtain b where b: "buddy_init (\<lambda>_. 0x1000) 0x80000000 0x2000 12 0 0 buddy_zero = Some (True, b)" "pages b = 2" "buddy_uses b {}"
    using buddy_two_pages by blast
  have "buddy_has b {} 0 (unat (1 :: u32))" using b(2) by (simp add: buddy_has_def)
  then have "\<exists>x. buddy_has b {} x (unat (1 :: u32))" by blast
  then obtain x b' where "buddy_alloc 1 b = Some (Some (page_adr b x), b')" "buddy_has b {} x (unat (1 :: u32))"
    "buddy_uses b' {(x, unat (1 :: u32))}" using buddy_alloc_refines [OF b(3), of 1] by (simp only: if_True) auto
  then show ?thesis using b(1) by (intro exI [of _ b] exI [of _ x] exI [of _ b']) simp
qed

text \<open>C28: the loop of \<open>buddy_get_order_from_size\<close> returns for a size of at most half the address space, with the least order whose
  blocks are large enough, and for no larger size.\<close>

theorem buddy_order_returns:
  assumes "unat (b_page_bits b) \<le> 31"
  shows "if unat sz \<le> 2147483648
    then \<exists>k. buddy_get_order_from_size b sz = Some (of_nat k) \<and> unat sz \<le> 2 ^ (k + unat (b_page_bits b))
      \<and> (\<forall>j<k. 2 ^ (j + unat (b_page_bits b)) < unat sz)
    else buddy_get_order_from_size b sz = None"
proof (cases "unat sz \<le> 2147483648")
  case True
  define p where "p = unat (b_page_bits b)"
  have p: "b_page_bits b = of_nat p" by (simp add: p_def)
  obtain m where m: "p \<le> m" "order_from_size sz (of_nat p) = Some (of_nat m)" "unat sz \<le> 2 ^ m"
    "\<forall>j. p \<le> j \<and> j < m \<longrightarrow> 2 ^ j < unat sz" using order_from_size_run [OF True assms [folded p_def]] by blast
  have "buddy_get_order_from_size b sz = Some (of_nat (m - p))"
    unfolding buddy_get_order_from_size_def p m(2) using m(1) by (simp add: of_nat_diff)
  moreover have "2 ^ (j + p) < unat sz" if "j < m - p" for j using m(4) that by simp
  ultimately show ?thesis using True m(1,3) unfolding p_def [symmetric] by (auto intro!: exI [of _ "m - p"])
next
  case False
  then show ?thesis by (simp add: buddy_get_order_from_size_def order_from_size_none)
qed

lemma buddy_order_returns_witness:
  "\<exists>k. buddy_get_order_from_size (buddy_zero\<lparr>b_page_bits := 12\<rparr>) 0x3000 = Some (of_nat k) \<and> (12288 :: nat) \<le> 2 ^ (k + 12)"
  using buddy_order_returns [of "buddy_zero\<lparr>b_page_bits := 12\<rparr>" "0x3000"] by auto

text \<open>freeing twice is refused only at the first page of a free block: right after the initialisation of a region of two pages, which
  are then one free block of order 1, the second page can be freed again; afterwards it also is in the free list of order 0, so that two
  allocations return overlapping blocks.\<close>

theorem buddy_double_free:
  "Option.bind (buddy_init (\<lambda>_. 0x1000) 0x80000000 0x2000 12 0 0 buddy_zero) (\<lambda>(r, b).
    case buddy_free 0x80001000 b of (f, b') \<Rightarrow> Some (r, b_free b 0, b_free b 1, f, b_free b' 0, b_free b' 1))
    = Some (True, - 1, 0, True, 1, 0)"
  by code_simp

end
