(* ===== verification/Mem_Mreg.thy ===== *)
theory Mem_Mreg
  imports Mem_Buddy_Alloc Util_List Util_Bitset
begin

text \<open>
  The two-level region allocator of \<open>library/mem/src/mreg.c\<close>: regions of whole megabytes in one linked
  list, and regions that are divided by a buddy allocator in another. The heap extends that of the
  linked list with one function per field of \<open>memregion_t\<close> and \<open>mreg_t\<close>, and with the buddy contexts
  by address. \<open>malloc\<close> is the list of its next answers, which is 0 for ever when it is used up;
  \<open>free\<close> records what it is given. A result \<open>None\<close> is a call that does not come back: a loop over a
  list that is no ring, or a null pointer that is used.
\<close>

section \<open>The code\<close>

record mreg_heap = list_heap +
  mr_start :: "u32 \<Rightarrow> u32"
  mr_end :: "u32 \<Rightarrow> u32"
  mr_flags :: "u32 \<Rightarrow> u32"
  mr_buddy :: "u32 \<Rightarrow> u32"
  reg_start :: "u32 \<Rightarrow> u32"
  reg_end :: "u32 \<Rightarrow> u32"
  reg_page_bits :: "u32 \<Rightarrow> u32"
  buddies :: "u32 \<Rightarrow> buddy_ctxt"
  grants :: "u32 list"
  freed :: "u32 list"

definition MB_BITS :: nat where [simp]: "MB_BITS = 20"
definition MB :: u32 where [simp]: "MB = 0x00100000"
definition MEMREGION_FLAGS_IS_BUDDY_PARENT :: u32 where [simp]: "MEMREGION_FLAGS_IS_BUDDY_PARENT = 0x80000000"
definition MEMREGION_FLAGS_IS_BUDDY_CHILD :: u32 where [simp]: "MEMREGION_FLAGS_IS_BUDDY_CHILD = 0x40000000"

text \<open>The list heads inside \<open>mreg_t\<close>; the list node is the first member of \<open>memregion_t\<close>.\<close>

definition free_megs :: "u32 \<Rightarrow> u32" where "free_megs reg = reg + 12"
definition free_buddies :: "u32 \<Rightarrow> u32" where "free_buddies reg = reg + 20"

definition mr_malloc :: "mreg_heap \<Rightarrow> u32 \<times> mreg_heap" where
  "mr_malloc s = (case grants s of [] \<Rightarrow> (0, s) | p # ps \<Rightarrow> (p, s\<lparr>grants := ps\<rparr>))"

definition mr_free :: "u32 \<Rightarrow> mreg_heap \<Rightarrow> mreg_heap" where
  "mr_free p s = s\<lparr>freed := p # freed s\<rparr>"

definition set_mr_end :: "u32 \<Rightarrow> u32 \<Rightarrow> mreg_heap \<Rightarrow> mreg_heap" where
  "set_mr_end p v s = s\<lparr>mr_end := (mr_end s)(p := v)\<rparr>"

definition set_mr_flags :: "u32 \<Rightarrow> u32 \<Rightarrow> mreg_heap \<Rightarrow> mreg_heap" where
  "set_mr_flags p v s = s\<lparr>mr_flags := (mr_flags s)(p := v)\<rparr>"

definition set_buddy :: "u32 \<Rightarrow> buddy_ctxt \<Rightarrow> mreg_heap \<Rightarrow> mreg_heap" where
  "set_buddy p b s = s\<lparr>buddies := (buddies s)(p := b)\<rparr>"

definition memregion_free :: "u32 \<Rightarrow> mreg_heap \<Rightarrow> mreg_heap" where
  "memregion_free mem s = mr_free mem s"

definition memregion_alloc :: "u32 \<Rightarrow> u32 \<Rightarrow> mreg_heap \<Rightarrow> u32 \<times> mreg_heap" where
  "memregion_alloc start lim s =
     (let (ret, s) = mr_malloc s
      in if ret \<noteq> 0
         then (ret, s\<lparr>mr_start := (mr_start s)(ret := start), mr_end := (mr_end s)(ret := lim),
                      mr_flags := (mr_flags s)(ret := 0), mr_buddy := (mr_buddy s)(ret := 0)\<rparr>)
         else (ret, s))"

text \<open>\<open>buddy_init\<close> asks for its table only when its arguments pass its checks.\<close>

definition buddy_init_at :: "u32 \<Rightarrow> u32 \<Rightarrow> u32 \<Rightarrow> u32 \<Rightarrow> mreg_heap \<Rightarrow> (bool \<times> mreg_heap) option" where
  "buddy_init_at buddy base sz page_bits s =
     (let (p, s) = (if base AND (lsl 1 page_bits - 1) \<noteq> 0 \<or> slt page_bits 5 \<or> slt 24 page_bits \<or> lsr sz page_bits < 1
                    then (0, s) else mr_malloc s)
      in map_option (\<lambda>(ok, b). (ok, set_buddy buddy b s)) (buddy_init (\<lambda>_. p) base sz page_bits 0 0 (buddies s buddy)))"

definition memregion_attach_buddy :: "u32 \<Rightarrow> u32 \<Rightarrow> mreg_heap \<Rightarrow> (bool \<times> mreg_heap) option" where
  "memregion_attach_buddy reg mem s =
     (if mr_flags s mem AND (MEMREGION_FLAGS_IS_BUDDY_PARENT OR MEMREGION_FLAGS_IS_BUDDY_CHILD) \<noteq> 0 then Some (False, s)
      else let (buddy, s) = mr_malloc s
           in if buddy \<noteq> 0
              then Option.bind (buddy_init_at buddy (mr_start s mem) (mr_end s mem - mr_start s mem + 1) (reg_page_bits s reg) s) (\<lambda>(ok, s).
                if ok
                then let s = s\<lparr>mr_buddy := (mr_buddy s)(mem := buddy)\<rparr>;
                         s = set_mr_flags mem (mr_flags s mem OR MEMREGION_FLAGS_IS_BUDDY_PARENT) s
                     in map_option (Pair True) (list_add (free_buddies reg) mem s)
                else Some (False, mr_free buddy s))
              else Some (False, s))"

definition memregion_deattach_buddy :: "u32 \<Rightarrow> u32 \<Rightarrow> mreg_heap \<Rightarrow> bool \<times> mreg_heap" where
  "memregion_deattach_buddy reg mem s =
     (if mr_flags s mem AND MEMREGION_FLAGS_IS_BUDDY_PARENT \<noteq> 0
      then let b = buddies s (mr_buddy s mem);
               s = (if b_all b \<noteq> 0 then mr_free (b_all b) s else s);
               s = set_buddy (mr_buddy s mem) (buddy_cleanup b) s;
               s = mr_free (mr_buddy s mem) s;
               s = list_remove (free_buddies reg) mem s
           in (True, set_mr_flags mem (mr_flags s mem AND NOT MEMREGION_FLAGS_IS_BUDDY_PARENT) s)
      else (False, s))"

definition mreg_level1_split :: "u32 \<Rightarrow> u32 \<Rightarrow> u32 \<Rightarrow> bool \<Rightarrow> mreg_heap \<Rightarrow> (u32 \<times> mreg_heap) option" where
  "mreg_level1_split reg frm sz keep_first s =
     (let (second, s) = memregion_alloc (mr_start s frm + sz) (mr_end s frm) s
      in if second = 0 then Some (0, s)
         else let s = set_mr_end frm (mr_start s frm + sz - 1) s
              in map_option (Pair (if keep_first then frm else second))
                   (list_add (free_megs reg) (if keep_first then second else frm) s))"

partial_function (option) best_fit_loop :: "mreg_heap \<Rightarrow> u32 \<Rightarrow> u32 \<Rightarrow> u32 \<Rightarrow> u32 \<Rightarrow> u32 \<Rightarrow> (u32 \<times> u32) option" where
  "best_fit_loop s root sz best best_size tmp =
     (if tmp \<noteq> root
      then let my_size = mr_end s tmp - mr_start s tmp + 1
           in if sz \<le> my_size \<and> (best = 0 \<or> my_size < best_size)
              then best_fit_loop s root sz tmp my_size (lnext s tmp)
              else best_fit_loop s root sz best best_size (lnext s tmp)
      else Some (best, best_size))"

definition mreg_level1_allocate :: "u32 \<Rightarrow> u32 \<Rightarrow> mreg_heap \<Rightarrow> (u32 \<times> mreg_heap) option" where
  "mreg_level1_allocate reg cnt s =
     (let sz = push_bit MB_BITS cnt
      in Option.bind (best_fit_loop s (free_megs reg) sz 0 0 (lnext s (free_megs reg))) (\<lambda>(best, best_size).
        if best \<noteq> 0
        then let s = list_remove (free_megs reg) best s
             in if sz < best_size
                then Option.bind (mreg_level1_split reg best sz True s) (\<lambda>(_, s). Some (best, s))
                else Some (best, s)
        else Some (best, s)))"

text \<open>The first node of a ring that satisfies a condition, or 0.\<close>

partial_function (option) list_search :: "(u32 \<Rightarrow> bool) \<Rightarrow> mreg_heap \<Rightarrow> u32 \<Rightarrow> u32 \<Rightarrow> u32 option" where
  "list_search P s root tmp =
     (if tmp \<noteq> root then if P tmp then Some tmp else list_search P s root (lnext s tmp) else Some 0)"

definition mreg_level1_allocate_at :: "u32 \<Rightarrow> u32 \<Rightarrow> u32 \<Rightarrow> mreg_heap \<Rightarrow> (u32 \<times> mreg_heap) option" where
  "mreg_level1_allocate_at reg adr cnt s =
     (let len = push_bit MB_BITS cnt; lim = adr + len - 1
      in if adr AND (MB - 1) \<noteq> 0 then Some (0, s)
         else Option.bind (list_search (\<lambda>tmp. mr_start s tmp \<le> adr \<and> lim \<le> mr_end s tmp) s (free_megs reg) (lnext s (free_megs reg))) (\<lambda>target.
           if target \<noteq> 0
           then let s = list_remove (free_megs reg) target s
                in Option.bind (if mr_start s target < adr then mreg_level1_split reg target (adr - mr_start s target + 0) False s
                                else Some (target, s)) (\<lambda>(target, s).
                  if target = 0 then None
                  else if lim < mr_end s target then mreg_level1_split reg target (lim - mr_start s target + 1) True s
                  else Some (target, s))
           else Some (0, s)))"

definition mreg_find_starting :: "u32 \<Rightarrow> u32 \<Rightarrow> mreg_heap \<Rightarrow> u32 option" where
  "mreg_find_starting reg start s = list_search (\<lambda>tmp. mr_start s tmp = start) s (free_megs reg) (lnext s (free_megs reg))"

definition mreg_find_ending :: "u32 \<Rightarrow> u32 \<Rightarrow> mreg_heap \<Rightarrow> u32 option" where
  "mreg_find_ending reg lim s = list_search (\<lambda>tmp. mr_end s tmp = lim) s (free_megs reg) (lnext s (free_megs reg))"

definition mreg_level1_free :: "u32 \<Rightarrow> u32 \<Rightarrow> mreg_heap \<Rightarrow> mreg_heap option" where
  "mreg_level1_free reg mem s =
     Option.bind (list_add (free_megs reg) mem s) (\<lambda>s.
     Option.bind (mreg_find_ending reg (mr_start s mem - 1) s) (\<lambda>tmp.
       let (mem, s) = (if tmp \<noteq> 0
                       then (tmp, memregion_free mem (set_mr_end tmp (mr_end s mem) (list_remove (free_megs reg) mem s)))
                       else (mem, s))
       in Option.bind (mreg_find_starting reg (mr_end s mem + 1) s) (\<lambda>tmp.
         Some (if tmp \<noteq> 0
               then memregion_free tmp (set_mr_end mem (mr_end s tmp) (list_remove (free_megs reg) tmp s))
               else s))))"

text \<open>Level 2: the loop over the regions with buddies, the state changing on the way. The last argument is
  the node the loop is at.\<close>

partial_function (option) level2_loop :: "u32 \<Rightarrow> u32 \<Rightarrow> u32 \<Rightarrow> mreg_heap \<Rightarrow> (u32 \<times> mreg_heap) option" where
  "level2_loop reg order tmp s =
     (if tmp \<noteq> free_buddies reg
      then Option.bind (buddy_alloc order (buddies s (mr_buddy s tmp))) (\<lambda>(adr, b).
        let s = set_buddy (mr_buddy s tmp) b s
        in case adr of
             None \<Rightarrow> level2_loop reg order (lnext s tmp) s
           | Some adr \<Rightarrow>
               let (ret, s) = memregion_alloc adr (adr - 1 + lsl 1 (order + reg_page_bits s reg)) s
               in if ret \<noteq> 0
                  then let s = s\<lparr>mr_buddy := (mr_buddy s)(ret := mr_buddy s tmp)\<rparr>
                       in Some (ret, set_mr_flags ret (mr_flags s ret OR MEMREGION_FLAGS_IS_BUDDY_CHILD) s)
                  else let s = set_buddy (mr_buddy s tmp) (snd (buddy_free adr (buddies s (mr_buddy s tmp)))) s
                       in level2_loop reg order (lnext s tmp) s)
      else Some (0, s))"

definition mreg_level2_allocate :: "u32 \<Rightarrow> u32 \<Rightarrow> mreg_heap \<Rightarrow> (u32 \<times> mreg_heap) option" where
  "mreg_level2_allocate reg sz s =
     (if list_is_empty (free_buddies reg) s then Some (0, s)
      else let tmp = lnext s (free_buddies reg)
           in Option.bind (buddy_get_order_from_size (buddies s (mr_buddy s tmp)) sz) (\<lambda>order.
              level2_loop reg order (lnext s (free_buddies reg)) s))"

partial_function (option) level2_at_loop :: "u32 \<Rightarrow> u32 \<Rightarrow> u32 \<Rightarrow> u32 \<Rightarrow> mreg_heap \<Rightarrow> (u32 \<times> mreg_heap) option" where
  "level2_at_loop reg adr order tmp s =
     (if tmp \<noteq> free_buddies reg
      then Option.bind (buddy_alloc_at adr order (buddies s (mr_buddy s tmp))) (\<lambda>(adr0, b).
        let s = set_buddy (mr_buddy s tmp) b s
        in case adr0 of
             None \<Rightarrow> level2_at_loop reg adr order (lnext s tmp) s
           | Some adr0 \<Rightarrow>
               let (ret, s) = memregion_alloc adr0 (adr0 - 1 + lsl 1 (order + reg_page_bits s reg)) s
               in if ret \<noteq> 0
                  then let s = s\<lparr>mr_buddy := (mr_buddy s)(ret := mr_buddy s tmp)\<rparr>
                       in Some (ret, set_mr_flags ret (mr_flags s ret OR MEMREGION_FLAGS_IS_BUDDY_CHILD) s)
                  else let s = set_buddy (mr_buddy s tmp) (snd (buddy_free adr (buddies s (mr_buddy s tmp)))) s
                       in level2_at_loop reg adr order (lnext s tmp) s)
      else Some (0, s))"

definition mreg_level2_allocate_at :: "u32 \<Rightarrow> u32 \<Rightarrow> u32 \<Rightarrow> mreg_heap \<Rightarrow> (u32 \<times> mreg_heap) option" where
  "mreg_level2_allocate_at reg adr sz s =
     (if list_is_empty (free_buddies reg) s then Some (0, s)
      else let tmp = lnext s (free_buddies reg)
           in Option.bind (buddy_get_order_from_size (buddies s (mr_buddy s tmp)) sz) (\<lambda>order.
              level2_at_loop reg adr order (lnext s (free_buddies reg)) s))"

definition mreg_level2_free :: "u32 \<Rightarrow> mreg_heap \<Rightarrow> mreg_heap" where
  "mreg_level2_free mem s =
     mr_free mem (set_buddy (mr_buddy s mem) (snd (buddy_free (mr_start s mem) (buddies s (mr_buddy s mem)))) s)"

partial_function (option) shrink_loop :: "u32 \<Rightarrow> u32 \<Rightarrow> u32 \<Rightarrow> mreg_heap \<Rightarrow> mreg_heap option" where
  "shrink_loop reg order tmp s =
     (if tmp \<noteq> free_buddies reg
      then if buddy_contains_order order False (buddies s (mr_buddy s tmp))
           then let prv = lprev s tmp; (_, s) = memregion_deattach_buddy reg tmp s
                in Option.bind (mreg_level1_free reg tmp s) (\<lambda>s. shrink_loop reg order (lnext s prv) s)
           else shrink_loop reg order (lnext s tmp) s
      else Some s)"

definition mreg_level2_shrink :: "u32 \<Rightarrow> mreg_heap \<Rightarrow> mreg_heap option" where
  "mreg_level2_shrink reg s =
     (let order = of_nat MB_BITS - reg_page_bits s reg in shrink_loop reg order (lnext s (free_buddies reg)) s)"

definition mreg_level2_expand :: "u32 \<Rightarrow> mreg_heap \<Rightarrow> mreg_heap option" where
  "mreg_level2_expand reg s =
     Option.bind (mreg_level1_allocate reg 1 s) (\<lambda>(mem, s).
       if mem \<noteq> 0
       then Option.bind (memregion_attach_buddy reg mem s) (\<lambda>(ok, s).
              if \<not> ok then mreg_level1_free reg mem s else Some s)
       else Some s)"

declare best_fit_loop.simps [code] list_search.simps [code] level2_loop.simps [code] level2_at_loop.simps [code]
  shrink_loop.simps [code]

text \<open>The functions of the interface.\<close>

definition mreg_create :: "u32 \<Rightarrow> mreg_heap \<Rightarrow> u32 \<times> mreg_heap" where
  "mreg_create page_bits s =
     (if slt (of_nat MB_BITS) page_bits then (0, s)
      else let (ret, s) = mr_malloc s
           in if ret \<noteq> 0
              then let s = s\<lparr>reg_page_bits := (reg_page_bits s)(ret := page_bits),
                            reg_start := (reg_start s)(ret := 0), reg_end := (reg_end s)(ret := 0)\<rparr>
                   in (ret, list_init (free_buddies ret) (list_init (free_megs ret) s))
              else (ret, s))"

definition mreg_free :: "u32 \<Rightarrow> u32 \<Rightarrow> mreg_heap \<Rightarrow> mreg_heap option" where
  "mreg_free reg mem s =
     (if mem = 0 then Some s
      else if mr_flags s mem AND MEMREGION_FLAGS_IS_BUDDY_CHILD = 0 then mreg_level1_free reg mem s
      else Some (mreg_level2_free mem s))"

text \<open>Attaching the part of a region that is not a multiple of a megabyte; a failure is not reported.\<close>

definition attach_rest :: "u32 \<Rightarrow> u32 \<Rightarrow> u32 \<Rightarrow> mreg_heap \<Rightarrow> mreg_heap option" where
  "attach_rest reg start lim s =
     (let (tmp, s) = memregion_alloc start lim s
      in if tmp \<noteq> 0
         then Option.bind (memregion_attach_buddy reg tmp s) (\<lambda>(ok, s).
                Some (if \<not> ok then memregion_free tmp s else s))
         else Some s)"

definition mreg_region_attach :: "u32 \<Rightarrow> u32 \<Rightarrow> u32 \<Rightarrow> mreg_heap \<Rightarrow> (bool \<times> mreg_heap) option" where
  "mreg_region_attach reg adr sz s =
     (let page_size = lsl 1 (reg_page_bits s reg)
      in if sz < 2 * page_size then Some (False, s)
         else let adr0 = ALIGN_UP adr page_size;
                  size0 = ALIGN_DOWN (sz + adr - adr0) page_size;
                  end0 = adr0 + size0 - 1;
                  adr1 = ALIGN_UP adr0 MB;
                  size1 = ALIGN_DOWN (size0 + adr0 - adr1) MB;
                  end1 = adr1 + size1 - 1
              in Option.bind
                (if size1 \<noteq> 0
                 then let (tmp, s) = memregion_alloc adr1 end1 s
                      in if tmp = 0 then Some (False, s) else map_option (Pair True) (mreg_free reg tmp s)
                 else Some (True, s)) (\<lambda>(ok, s).
                 if \<not> ok then Some (False, s)
                 else Option.bind (if adr0 < adr1 then attach_rest reg adr0 (adr1 - 1) s else Some s) (\<lambda>s.
                   Option.bind (if end0 \<noteq> end1 \<and> 1 + end1 \<le> end0 then attach_rest reg (end1 + 1) end0 s else Some s) (\<lambda>s.
                   Some (True,
                     if reg_start s reg = 0 \<and> reg_end s reg = 0
                     then s\<lparr>reg_start := (reg_start s)(reg := adr0), reg_end := (reg_end s)(reg := end0)\<rparr>
                     else let s = (if adr0 < reg_start s reg then s\<lparr>reg_start := (reg_start s)(reg := adr0)\<rparr> else s)
                          in if reg_end s reg < end0 then s\<lparr>reg_end := (reg_end s)(reg := end0)\<rparr> else s)))))"

definition mreg_alloc :: "u32 \<Rightarrow> u32 \<Rightarrow> mreg_heap \<Rightarrow> (u32 \<times> mreg_heap) option" where
  "mreg_alloc reg sz s =
     (if 0 < sz
      then let sz = ALIGN_UP sz (lsl 1 (reg_page_bits s reg))
           in if MB \<le> sz
              then let sz = ALIGN_UP sz MB
                   in Option.bind (mreg_level1_allocate reg (drop_bit MB_BITS sz) s) (\<lambda>(ret, s).
                        if ret = 0
                        then Option.bind (mreg_level2_shrink reg s) (mreg_level1_allocate reg (drop_bit MB_BITS sz))
                        else Some (ret, s))
              else Option.bind (mreg_level2_allocate reg sz s) (\<lambda>(ret, s).
                     if ret = 0
                     then Option.bind (mreg_level2_expand reg s) (mreg_level2_allocate reg sz)
                     else Some (ret, s))
      else Some (0, s))"

definition mreg_alloc_at :: "u32 \<Rightarrow> u32 \<Rightarrow> u32 \<Rightarrow> mreg_heap \<Rightarrow> (u32 \<times> mreg_heap) option" where
  "mreg_alloc_at reg adr sz s =
     (let page_size = lsl 1 (reg_page_bits s reg);
          adr0 = ALIGN_DOWN adr page_size;
          size0 = ALIGN_UP (sz + adr - adr0) page_size;
          adr1 = ALIGN_DOWN adr MB
      in if drop_bit MB_BITS adr0 \<noteq> drop_bit MB_BITS (adr0 + size0 - 1) then Some (0, s)
         else Option.bind (mreg_level2_allocate_at reg adr0 size0 s) (\<lambda>(tmp, s).
           if tmp \<noteq> 0 then Some (tmp, s)
           else Option.bind (mreg_level1_allocate_at reg adr1 1 s) (\<lambda>(tmp, s).
             if tmp \<noteq> 0
             then Option.bind (memregion_attach_buddy reg tmp s) (\<lambda>(ok, s).
               if ok then mreg_level2_allocate_at reg adr0 size0 s
               else map_option (Pair 0) (mreg_level1_free reg tmp s))
             else Some (tmp, s))))"

section \<open>What the operations leave alone\<close>

lemma mr_list_fields [simp]:
  "mr_start (list_remove l x s) = mr_start s" "mr_end (list_remove l x s) = mr_end s" "grants (list_remove l x s) = grants s"
  "mr_start (list_add_between a b x s) = mr_start s" "mr_end (list_add_between a b x s) = mr_end s"
  "grants (list_add_between a b x s) = grants s"
  by (simp_all add: list_remove_def list_add_between_def Let_def set_next_def set_prev_def)

lemma mr_field_updates [simp]:
  "lnext (set_mr_end p v s) = lnext s" "lprev (set_mr_end p v s) = lprev s" "mr_start (set_mr_end p v s) = mr_start s"
  "mr_end (set_mr_end p v s) = (mr_end s)(p := v)" "grants (set_mr_end p v s) = grants s"
  "lnext (mr_free p s) = lnext s" "lprev (mr_free p s) = lprev s" "mr_start (mr_free p s) = mr_start s"
  "mr_end (mr_free p s) = mr_end s" "grants (mr_free p s) = grants s"
  by (simp_all add: set_mr_end_def mr_free_def)

lemma ring_links: "lnext s' = lnext s \<Longrightarrow> lprev s' = lprev s \<Longrightarrow> ring s' r xs = ring s r xs"
  unfolding ring_def using Util_List.seg_cong [of r xs s s' r] by auto

lemma ring_list_add:
  assumes "ring s root xs" "item \<notin> set (root # xs)"
  shows "list_add root item s = Some (list_add_between root (lnext s root) item s)"
  using assms by (simp add: list_add_def ring_find)

section \<open>The megabyte regions\<close>

text \<open>The addresses of a region; and the state of level 1: \<open>xs\<close> are the free regions as the code links them, \<open>M\<close> those
  handed out; no two share an address, all together they are \<open>T\<close>, and \<open>malloc\<close> returns memory that is not in use.
  The last address of the address space is in no region.\<close>

definition extent :: "mreg_heap \<Rightarrow> u32 \<Rightarrow> nat set" where
  "extent s x = {unat (mr_start s x)..unat (mr_end s x)}"

definition region_ok :: "mreg_heap \<Rightarrow> u32 \<Rightarrow> u32 \<Rightarrow> bool" where
  "region_ok s reg x \<longleftrightarrow> x \<noteq> 0 \<and> x \<noteq> free_megs reg \<and> unat (mr_start s x) \<le> unat (mr_end s x) \<and> mr_end s x \<noteq> - 1"

definition parted :: "(u32 \<Rightarrow> nat set) \<Rightarrow> u32 set \<Rightarrow> nat set \<Rightarrow> bool" where
  "parted f N T \<longleftrightarrow> (\<forall>x\<in>N. \<forall>y\<in>N. x \<noteq> y \<longrightarrow> f x \<inter> f y = {}) \<and> (\<Union>x\<in>N. f x) = T"

definition fresh :: "u32 list \<Rightarrow> u32 set \<Rightarrow> bool" where
  "fresh ps N \<longleftrightarrow> distinct (filter (\<lambda>p. p \<noteq> 0) ps) \<and> (\<forall>p\<in>set ps. p \<noteq> 0 \<longrightarrow> p \<notin> N)"

definition minv :: "u32 \<Rightarrow> mreg_heap \<Rightarrow> u32 list \<Rightarrow> u32 set \<Rightarrow> nat set \<Rightarrow> bool" where
  "minv reg s xs M T \<longleftrightarrow> ring s (free_megs reg) xs \<and> set xs \<inter> M = {} \<and> (\<forall>x\<in>set xs \<union> M. region_ok s reg x)
     \<and> parted (extent s) (set xs \<union> M) T \<and> fresh (grants s) (insert (free_megs reg) (set xs \<union> M))"

lemma minvD:
  assumes "minv reg s xs M T"
  shows "ring s (free_megs reg) xs" "set xs \<inter> M = {}" "\<And>x. x \<in> set xs \<union> M \<Longrightarrow> region_ok s reg x"
    "parted (extent s) (set xs \<union> M) T" "fresh (grants s) (insert (free_megs reg) (set xs \<union> M))"
  using assms by (auto simp: minv_def)

lemma parted_cong: "(\<And>x. x \<in> N \<Longrightarrow> f x = g x) \<Longrightarrow> parted f N T = parted g N T"
  by (simp add: parted_def)

lemma partedI:
  assumes "\<And>x y j. x \<in> N \<Longrightarrow> y \<in> N \<Longrightarrow> j \<in> f x \<Longrightarrow> j \<in> f y \<Longrightarrow> x = y" "(\<Union>x\<in>N. f x) = T"
  shows "parted f N T"
  using assms unfolding parted_def by blast

lemma partedD:
  assumes "parted f N T"
  shows "x \<in> N \<Longrightarrow> y \<in> N \<Longrightarrow> j \<in> f x \<Longrightarrow> j \<in> f y \<Longrightarrow> x = y" "(\<Union>x\<in>N. f x) = T"
  using assms unfolding parted_def by blast+

lemma parted_split:
  assumes p: "parted f N T" and x: "x \<in> N" "p \<notin> N" and ab: "f x = a \<union> b" "a \<inter> b = {}"
  shows "parted (f(x := a, p := b)) (insert p N) T"
proof (rule partedI)
  let ?g = "f(x := a, p := b)"
  define own where "own c = (if c = p then x else c)" for c
  have own: "own c \<in> N" "j \<in> f (own c)" if "c \<in> insert p N" "j \<in> ?g c" for c j
    using that x ab(1) by (auto simp: own_def split: if_splits)
  show "c = d" if c: "c \<in> insert p N" "d \<in> insert p N" "j \<in> ?g c" "j \<in> ?g d" for c d j
  proof (rule ccontr)
    assume "c \<noteq> d"
    moreover have "own c = own d" using partedD(1) [OF p own(1) [OF c(1,3)] own(1) [OF c(2,4)] own(2) [OF c(1,3)] own(2) [OF c(2,4)]] .
    ultimately have "c = p \<and> d = x \<or> c = x \<and> d = p" by (auto simp: own_def split: if_splits)
    moreover have "x \<noteq> p" using x by blast
    ultimately show False using c(3,4) ab(2) by auto
  qed
  have "(\<Union>y\<in>insert p N. ?g y) = (\<Union>y\<in>N. f y)" using x ab(1) by (auto split: if_splits)
  then show "(\<Union>y\<in>insert p N. ?g y) = T" using partedD(2) [OF p] by simp
qed

lemma parted_join:
  assumes p: "parted f N T" and x: "x \<in> N" "y \<in> N" "x \<noteq> y"
  shows "parted (f(x := f x \<union> f y)) (N - {y}) T"
proof (rule partedI)
  let ?g = "f(x := f x \<union> f y)"
  have own: "\<exists>c'\<in>N. j \<in> f c' \<and> c = (if c' = y then x else c')" if "c \<in> N - {y}" "j \<in> ?g c" for c j
    using that x by (auto split: if_splits)
  show "c = d" if c: "c \<in> N - {y}" "d \<in> N - {y}" "j \<in> ?g c" "j \<in> ?g d" for c d j
    using own [OF c(1,3)] own [OF c(2,4)] partedD(1) [OF p] by blast
  have "(\<Union>z\<in>N - {y}. ?g z) = (\<Union>z\<in>N. f z)"
  proof (intro equalityI subsetI)
    fix j assume "j \<in> (\<Union>z\<in>N. f z)"
    then obtain z where z: "z \<in> N" "j \<in> f z" by blast
    then show "j \<in> (\<Union>z\<in>N - {y}. ?g z)" using x by (cases "z = y"; cases "z = x") auto
  next
    fix j assume "j \<in> (\<Union>z\<in>N - {y}. ?g z)"
    then show "j \<in> (\<Union>z\<in>N. f z)" using x by (auto split: if_splits)
  qed
  then show "(\<Union>z\<in>N - {y}. ?g z) = T" using partedD(2) [OF p] by simp
qed

lemma region_len:
  assumes "region_ok s reg x"
  shows "unat (mr_end s x - mr_start s x + 1) = unat (mr_end s x) - unat (mr_start s x) + 1"
proof -
  have l: "unat (mr_start s x) \<le> unat (mr_end s x)" and e: "mr_end s x \<noteq> - 1" using assms by (simp_all add: region_ok_def)
  have "unat (mr_end s x) \<noteq> 4294967295" using e by (auto simp: word_unat_eq_iff)
  then have m: "unat (mr_end s x) - unat (mr_start s x) + 1 < 4294967296" using unat_u32_less [of "mr_end s x"] by linarith
  have "mr_end s x - mr_start s x + 1 = of_nat (unat (mr_end s x) - unat (mr_start s x) + 1)" using l by (simp add: of_nat_diff)
  then show ?thesis using m by (simp only: unat_of_nat_u32)
qed

text \<open>Out of the list, into the list.\<close>

lemma region_ok_cong: "mr_start s' = mr_start s \<Longrightarrow> mr_end s' = mr_end s \<Longrightarrow> region_ok s' = region_ok s"
  by (simp add: fun_eq_iff region_ok_def)

lemma extent_cong: "mr_start s' = mr_start s \<Longrightarrow> mr_end s' = mr_end s \<Longrightarrow> extent s' = extent s"
  by (simp add: fun_eq_iff extent_def)

lemma minv_transport:
  assumes inv: "minv reg s xs M T" and s': "ring s' (free_megs reg) xs'" "set xs' \<inter> M' = {}" "set xs' \<union> M' = set xs \<union> M"
    "mr_start s' = mr_start s" "mr_end s' = mr_end s" "fresh (grants s') (insert (free_megs reg) (set xs \<union> M))"
  shows "minv reg s' xs' M' T"
  using inv s'(1,2,6) unfolding minv_def s'(3) region_ok_cong [OF s'(4,5)] extent_cong [OF s'(4,5)] by blast

lemma minv_remove:
  assumes inv: "minv reg s (ys @ x # zs) M T"
  shows "minv reg (list_remove (free_megs reg) x s) (ys @ zs) (insert x M) T"
proof (rule minv_transport [OF inv ring_remove [OF minvD(1) [OF inv]]])
  have "x \<notin> set (ys @ zs)" using minvD(1) [OF inv] by (auto simp: ring_def)
  then show "set (ys @ zs) \<inter> insert x M = {}" using minvD(2) [OF inv] by auto
  show "set (ys @ zs) \<union> insert x M = set (ys @ x # zs) \<union> M" by auto
qed (use minvD(5) [OF inv] in simp_all)

lemma minv_add:
  assumes inv: "minv reg s xs (insert x M) T" and x: "x \<notin> M"
  shows "\<exists>s'. list_add (free_megs reg) x s = Some s' \<and> minv reg s' (x # xs) M T \<and> mr_start s' = mr_start s \<and> mr_end s' = mr_end s"
proof -
  note d = minvD [OF inv]
  define s' where "s' = list_add_between (free_megs reg) (lnext s (free_megs reg)) x s"
  have xr: "x \<notin> set (free_megs reg # xs)" using d(2) d(3) [of x] by (simp add: region_ok_def)
  have "minv reg s' (x # xs) M T"
  proof (rule minv_transport [OF inv])
    show "ring s' (free_megs reg) (x # xs)" unfolding s'_def by (rule ring_add_between [OF d(1) xr])
    show "set (x # xs) \<inter> M = {}" using d(2) x by simp
  qed (use d(5) in \<open>simp_all add: s'_def\<close>)
  moreover have "list_add (free_megs reg) x s = Some s'" unfolding s'_def by (rule ring_list_add [OF d(1) xr])
  ultimately show ?thesis by (simp add: s'_def)
qed

lemma mr_malloc_fresh:
  assumes "fresh (grants s) N" "mr_malloc s = (p, s')"
  shows "s' = s\<lparr>grants := tl (grants s)\<rparr>" "p \<noteq> 0 \<Longrightarrow> p \<notin> N" "fresh (grants s') (insert p N)"
  using assms by (auto simp: mr_malloc_def fresh_def split: list.splits if_splits)

lemma fresh_mono: "fresh ps N \<Longrightarrow> M \<subseteq> N \<Longrightarrow> fresh ps M"
  by (auto simp: fresh_def)

text \<open>Splitting a region that has been taken out.\<close>

lemma unat_plus_small: "unat (a :: u32) + unat b < 4294967296 \<Longrightarrow> unat (a + b) = unat a + unat b"
  by (simp add: unat_add_lem [THEN iffD1])

lemma mreg_split_minv:
  assumes inv: "minv reg s xs M T" and x: "x \<in> M" and sz: "0 < unat sz" "unat (mr_start s x) + unat sz \<le> unat (mr_end s x)"
  shows "\<exists>p s'. mreg_level1_split reg x sz kf s = Some (if p = 0 then 0 else if kf then x else p, s')
    \<and> (if p = 0 then minv reg s' xs M T \<and> mr_start s' = mr_start s \<and> mr_end s' = mr_end s
       else p \<notin> set xs \<union> M \<and> (if kf then minv reg s' (p # xs) M T else minv reg s' (x # xs) (insert p (M - {x})) T)
         \<and> mr_start s' = (mr_start s)(p := mr_start s x + sz)
         \<and> mr_end s' = (mr_end s)(x := mr_start s x + sz - 1, p := mr_end s x))"
proof -
  note d = minvD [OF inv]
  obtain p s0 where m: "mr_malloc s = (p, s0)" by (cases "mr_malloc s")
  note f = mr_malloc_fresh [OF d(5) m]
  show ?thesis
  proof (cases "p = 0")
    case True
    have "mreg_level1_split reg x sz kf s = Some (0, s0)" using m True by (simp add: mreg_level1_split_def memregion_alloc_def)
    moreover have "minv reg s0 xs M T"
    proof (rule minv_transport [OF inv _ d(2)])
      have "lnext s0 = lnext s" "lprev s0 = lprev s" by (simp_all add: f(1))
      then show "ring s0 (free_megs reg) xs" using d(1) ring_links by blast
      show "fresh (grants s0) (insert (free_megs reg) (set xs \<union> M))" using f(3) by (rule fresh_mono) blast
    qed (simp_all add: f(1))
    ultimately show ?thesis using True f(1) by (intro exI [of _ 0] exI [of _ s0]) simp
  next
    case False
    define s1 where "s1 = s0\<lparr>mr_start := (mr_start s0)(p := mr_start s x + sz), mr_end := (mr_end s0)(p := mr_end s x),
      mr_flags := (mr_flags s0)(p := 0), mr_buddy := (mr_buddy s0)(p := 0)\<rparr>"
    define s2 where "s2 = set_mr_end x (mr_start s1 x + sz - 1) s1"
    have pN: "p \<notin> set xs \<union> M" "p \<noteq> free_megs reg" "p \<noteq> x" using f(2) [OF False] x by auto
    have ok: "region_ok s reg x" using d(3) x by simp
    have "unat (mr_end s x) \<noteq> 4294967295" using ok by (auto simp: region_ok_def word_unat_eq_iff)
    then have e: "unat (mr_end s x) < 4294967295" using unat_u32_less [of "mr_end s x"] by linarith
    have s2f: "mr_start s2 = (mr_start s)(p := mr_start s x + sz)" "mr_end s2 = (mr_end s)(x := mr_start s x + sz - 1, p := mr_end s x)"
      "lnext s2 = lnext s" "lprev s2 = lprev s" "grants s2 = grants s0"
      using pN by (simp_all add: s2_def s1_def f(1) fun_upd_twist)
    have st: "unat (mr_start s x + sz) = unat (mr_start s x) + unat sz" using sz(2) unat_u32_less [of "mr_end s x"] by (intro unat_plus_small) linarith
    have "mr_start s x + sz - 1 = of_nat (unat (mr_start s x) + unat sz - 1)" using sz(1) by (simp add: of_nat_diff)
    moreover have "unat (mr_start s x) + unat sz - 1 < 4294967296" using sz(2) unat_u32_less [of "mr_end s x"] by linarith
    ultimately have en: "unat (mr_start s x + sz - 1) = unat (mr_start s x) + unat sz - 1" by (simp only: unat_of_nat_u32)
    have ro: "region_ok s2 reg y" if "y \<in> set xs \<union> insert p M" for y
    proof -
      consider "y = p" | "y = x" "y \<noteq> p" | "y \<noteq> p" "y \<noteq> x" by blast
      then show ?thesis
      proof cases
        case 1
        then show ?thesis using False pN ok sz(2) by (simp add: region_ok_def s2f st)
      next
        case 2
        moreover have "mr_start s x + sz - 1 \<noteq> - 1" using en sz(2) e by (auto simp: word_unat_eq_iff)
        ultimately show ?thesis using ok en sz(1) by (simp add: region_ok_def s2f)
      next
        case 3
        then show ?thesis using d(3) [of y] that by (auto simp: region_ok_def s2f)
      qed
    qed
    have "parted ((extent s)(x := {unat (mr_start s x)..unat (mr_start s x) + unat sz - 1},
        p := {unat (mr_start s x) + unat sz..unat (mr_end s x)})) (insert p (set xs \<union> M)) T"
      using x pN(1) sz by (intro parted_split [OF d(4)]) (auto simp: extent_def)
    moreover have "extent s2 = (extent s)(x := {unat (mr_start s x)..unat (mr_start s x) + unat sz - 1},
        p := {unat (mr_start s x) + unat sz..unat (mr_end s x)})"
      using pN(3) by (auto simp: fun_eq_iff extent_def s2f st en)
    ultimately have pt: "parted (extent s2) (set xs \<union> insert p M) T" by simp
    have "ring s2 (free_megs reg) xs" using d(1) ring_links [OF s2f(3,4)] by simp
    moreover have "fresh (grants s2) (insert (free_megs reg) (set xs \<union> insert p M))"
      using f(3) unfolding s2f(5) by (rule fresh_mono) blast
    moreover have "set xs \<inter> insert p M = {}" using d(2) pN(1) by blast
    ultimately have inv2: "minv reg s2 xs (insert p M) T" using ro pt unfolding minv_def by blast
    have sp: "mreg_level1_split reg x sz kf s = map_option (Pair (if kf then x else p))
      (list_add (free_megs reg) (if kf then p else x) s2)"
      using m False by (simp add: mreg_level1_split_def memregion_alloc_def s2_def s1_def Let_def f(1))
    show ?thesis
    proof (cases kf)
      case True
      obtain s' where "list_add (free_megs reg) p s2 = Some s'" "minv reg s' (p # xs) M T" "mr_start s' = mr_start s2" "mr_end s' = mr_end s2"
        using minv_add [OF inv2] pN(1) by auto
      then show ?thesis using sp True False pN s2f by (intro exI [of _ p] exI [of _ s']) simp
    next
      case kf: False
      have "insert p M = insert x (insert p (M - {x}))" using x by blast
      then obtain s' where "list_add (free_megs reg) x s2 = Some s'" "minv reg s' (x # xs) (insert p (M - {x})) T"
        "mr_start s' = mr_start s2" "mr_end s' = mr_end s2"
        using minv_add [of reg s2 xs x "insert p (M - {x})" T] inv2 pN(3) by auto
      then show ?thesis using sp kf False pN s2f by (intro exI [of _ p] exI [of _ s']) simp
    qed
  qed
qed

section \<open>Allocation and release of megabytes\<close>

definition region_size :: "mreg_heap \<Rightarrow> u32 \<Rightarrow> u32" where
  "region_size s x = mr_end s x - mr_start s x + 1"

lemma best_fit_seg:
  assumes "Util_List.seg s a ys root" "root \<notin> set ys" "0 \<notin> set ys" "best \<noteq> 0 \<Longrightarrow> best_size = region_size s best \<and> sz \<le> best_size"
  shows "\<exists>b z. best_fit_loop s root sz best best_size (lnext s a) = Some (b, z)
    \<and> (b = 0 \<longrightarrow> best = 0 \<and> (\<forall>x\<in>set ys. region_size s x < sz))
    \<and> (b \<noteq> 0 \<longrightarrow> b \<in> insert best (set ys) \<and> z = region_size s b \<and> sz \<le> z \<and> (best \<noteq> 0 \<longrightarrow> z \<le> best_size)
        \<and> (\<forall>x\<in>set ys. sz \<le> region_size s x \<longrightarrow> z \<le> region_size s x))"
  using assms
proof (induction ys arbitrary: a best best_size)
  case Nil
  then show ?case by (subst best_fit_loop.simps) auto
next
  case (Cons y ys)
  define m where "m = region_size s y"
  have y: "lnext s a = y" "y \<noteq> root" "y \<noteq> 0" "Util_List.seg s y ys root" "root \<notin> set ys" "0 \<notin> set ys" using Cons.prems by auto
  show ?case
  proof (cases "sz \<le> m \<and> (best = 0 \<or> m < best_size)")
    case True
    have "best_fit_loop s root sz best best_size (lnext s a) = best_fit_loop s root sz y m (lnext s y)"
      using True y by (subst best_fit_loop.simps) (simp add: m_def region_size_def)
    moreover have "y \<noteq> 0 \<Longrightarrow> m = region_size s y \<and> sz \<le> m" using True by (simp add: m_def)
    ultimately show ?thesis using Cons.IH [OF y(4-6), of y m] True y(3) m_def by fastforce
  next
    case False
    have lp: "best_fit_loop s root sz best best_size (lnext s a) = best_fit_loop s root sz best best_size (lnext s y)"
      using False y by (subst best_fit_loop.simps) (auto simp add: m_def region_size_def Let_def)
    obtain b z where bz: "best_fit_loop s root sz best best_size (lnext s y) = Some (b, z)"
      "b = 0 \<longrightarrow> best = 0 \<and> (\<forall>x\<in>set ys. region_size s x < sz)"
      "b \<noteq> 0 \<longrightarrow> b \<in> insert best (set ys) \<and> z = region_size s b \<and> sz \<le> z \<and> (best \<noteq> 0 \<longrightarrow> z \<le> best_size)
        \<and> (\<forall>x\<in>set ys. sz \<le> region_size s x \<longrightarrow> z \<le> region_size s x)"
      using Cons.IH [OF y(4-6) Cons.prems(4)] by blast
    have "b = 0 \<longrightarrow> m < sz" using bz(2) False by (auto simp: not_le)
    then have 1: "b = 0 \<longrightarrow> best = 0 \<and> (\<forall>x\<in>set (y # ys). region_size s x < sz)" using bz(2) by (simp add: m_def)
    have "b \<noteq> 0 \<longrightarrow> sz \<le> m \<longrightarrow> z \<le> m"
    proof (intro impI)
      assume b: "b \<noteq> 0" "sz \<le> m"
      then have "best \<noteq> 0" "best_size \<le> m" using False by (simp_all add: not_less)
      then show "z \<le> m" using bz(3) b(1) by (auto intro: order_trans)
    qed
    then have 2: "b \<noteq> 0 \<longrightarrow> b \<in> insert best (set (y # ys)) \<and> z = region_size s b \<and> sz \<le> z \<and> (best \<noteq> 0 \<longrightarrow> z \<le> best_size)
        \<and> (\<forall>x\<in>set (y # ys). sz \<le> region_size s x \<longrightarrow> z \<le> region_size s x)"
      using bz(3) by (auto simp: m_def)
    show ?thesis unfolding lp bz(1) by (intro exI conjI) (rule refl, rule 1, rule 2)
  qed
qed

lemma list_search_seg:
  assumes "Util_List.seg s a ys root" "root \<notin> set ys" "0 \<notin> set ys"
  shows "\<exists>r. list_search P s root (lnext s a) = Some r \<and> (if r = 0 then \<forall>x\<in>set ys. \<not> P x else r \<in> set ys \<and> P r)"
  using assms
proof (induction ys arbitrary: a)
  case Nil
  then show ?case by (simp add: list_search.simps)
next
  case (Cons y ys)
  then have y: "lnext s a = y" "y \<noteq> root" "y \<noteq> 0" "Util_List.seg s y ys root" "root \<notin> set ys" "0 \<notin> set ys" by auto
  obtain r where "list_search P s root (lnext s y) = Some r" "if r = 0 then \<forall>x\<in>set ys. \<not> P x else r \<in> set ys \<and> P r"
    using Cons.IH [OF y(4-6)] by blast
  then show ?case using y(1-3) by (subst list_search.simps) (cases "P y"; cases "r = 0"; simp)
qed

lemma ring_search:
  assumes "ring s root xs" "0 \<notin> set xs"
  shows "\<exists>r. list_search P s root (lnext s root) = Some r \<and> (if r = 0 then \<forall>x\<in>set xs. \<not> P x else r \<in> set xs \<and> P r)"
  using assms by (intro list_search_seg) (auto simp: ring_def)

lemma minv_nonzero: "minv reg s xs M T \<Longrightarrow> 0 \<notin> set xs"
  using minvD(3) [of reg s xs M T 0] by (auto simp: region_ok_def)

text \<open>The region returned has the size asked for, unless no memory was left for the rest of the one it is split from.\<close>

lemma mreg_level1_allocate_minv:
  assumes inv: "minv reg s xs M T" and c: "0 < unat cnt" "unat cnt < 4096"
  shows "\<exists>r s'. mreg_level1_allocate reg cnt s = Some (r, s')
    \<and> (if r = 0 then s' = s \<and> (\<forall>x\<in>set xs. unat (region_size s x) < unat cnt * 1048576)
       else r \<in> set xs \<and> (\<exists>xs'. minv reg s' xs' (insert r M) T) \<and> unat cnt * 1048576 \<le> unat (region_size s' r)
         \<and> mr_start s' r = mr_start s r \<and> (\<forall>y\<in>M. mr_start s' y = mr_start s y \<and> mr_end s' y = mr_end s y))"
proof -
  note d = minvD [OF inv]
  define sz where "sz = push_bit 20 cnt"
  have sz: "unat sz = unat cnt * 1048576" unfolding sz_def using unat_push_bit_small [of cnt 20] c(2) by simp
  obtain b z where bz: "best_fit_loop s (free_megs reg) sz 0 0 (lnext s (free_megs reg)) = Some (b, z)"
    "b = 0 \<longrightarrow> (\<forall>x\<in>set xs. region_size s x < sz)"
    "b \<noteq> 0 \<longrightarrow> b \<in> insert 0 (set xs) \<and> z = region_size s b \<and> sz \<le> z"
    using best_fit_seg [of s "free_megs reg" xs "free_megs reg" 0 0 sz] d(1) minv_nonzero [OF inv] unfolding ring_def by auto
  show ?thesis
  proof (cases "b = 0")
    case True
    then show ?thesis using bz(1,2) sz by (intro exI [of _ 0] exI [of _ s])
      (simp add: mreg_level1_allocate_def sz_def [symmetric] word_less_nat_alt)
  next
    case False
    then have b: "b \<in> set xs" "z = region_size s b" "sz \<le> z" using bz(3) by auto
    obtain ys zs where xs: "xs = ys @ b # zs" using b(1) by (meson split_list)
    define s1 where "s1 = list_remove (free_megs reg) b s"
    have inv1: "minv reg s1 (ys @ zs) (insert b M) T" unfolding s1_def by (rule minv_remove [OF inv [unfolded xs]])
    have s1f: "mr_start s1 = mr_start s" "mr_end s1 = mr_end s" by (simp_all add: s1_def)
    have bM: "b \<notin> M" using d(2) b(1) by blast
    have al: "mreg_level1_allocate reg cnt s = (if sz < z then Option.bind (mreg_level1_split reg b sz True s1) (\<lambda>(_, s). Some (b, s)) else Some (b, s1))"
      using bz(1) False by (simp add: mreg_level1_allocate_def sz_def [symmetric] s1_def)
    show ?thesis
    proof (cases "sz < z")
      case False
      then have "sz = z" using b(3) by simp
      moreover have "region_size s1 b = region_size s b" by (simp add: region_size_def s1f)
      ultimately show ?thesis using al inv1 s1f b(1,2) \<open>b \<noteq> 0\<close> sz by (intro exI [of _ b] exI [of _ s1]) auto
    next
      case True
      have ok: "region_ok s reg b" using d(3) b(1) by simp
      have lt: "unat sz < unat (mr_end s b) - unat (mr_start s b) + 1"
        using True region_len [OF ok] unfolding b(2) word_less_nat_alt region_size_def by linarith
      have le: "unat (mr_start s1 b) + unat sz \<le> unat (mr_end s1 b)" "0 < unat sz"
        using lt ok c(1) sz by (auto simp: region_ok_def s1f)
      obtain p s' where sp: "mreg_level1_split reg b sz True s1 = Some (if p = 0 then 0 else b, s')"
        "if p = 0 then minv reg s' (ys @ zs) (insert b M) T \<and> mr_start s' = mr_start s1 \<and> mr_end s' = mr_end s1
         else p \<notin> set (ys @ zs) \<union> insert b M \<and> minv reg s' (p # ys @ zs) (insert b M) T
           \<and> mr_start s' = (mr_start s1)(p := mr_start s1 b + sz)
           \<and> mr_end s' = (mr_end s1)(b := mr_start s1 b + sz - 1, p := mr_end s1 b)"
        using mreg_split_minv [OF inv1 _ le(2,1), of True] unfolding if_True by blast
      have res: "mreg_level1_allocate reg cnt s = Some (b, s')" using al True sp(1) by simp
      show ?thesis
      proof (cases "p = 0")
        case True
        then have p0: "minv reg s' (ys @ zs) (insert b M) T" "mr_start s' = mr_start s" "mr_end s' = mr_end s"
          using sp(2) s1f by auto
        then have "region_size s' b = region_size s b" by (simp add: region_size_def)
        moreover
        have "unat cnt * 1048576 \<le> unat (region_size s b)" using b(2,3) sz by (simp add: word_le_nat_alt)
        ultimately show ?thesis using res p0 b(1) \<open>b \<noteq> 0\<close> by (intro exI [of _ b] exI [of _ s']) auto
      next
        case False
        then have p: "p \<notin> insert b M" "minv reg s' (p # ys @ zs) (insert b M) T" "mr_start s' = (mr_start s)(p := mr_start s b + sz)"
          "mr_end s' = (mr_end s)(b := mr_start s b + sz - 1, p := mr_end s b)"
          using sp(2) s1f by auto
        have "b \<noteq> p" using p(1) by blast
        then have "region_size s' b = sz" using p(3,4) by (simp add: region_size_def)
        moreover have "mr_start s' y = mr_start s y \<and> mr_end s' y = mr_end s y" if "y \<in> M" for y using p that bM by auto
        ultimately show ?thesis using res p(1,2,3) b(1) \<open>b \<noteq> 0\<close> sz by (intro exI [of _ b] exI [of _ s']) auto
      qed
    qed
  qed
qed

text \<open>Joining a region with the one that starts after it.\<close>

definition join_regions :: "u32 \<Rightarrow> u32 \<Rightarrow> u32 \<Rightarrow> mreg_heap \<Rightarrow> mreg_heap" where
  "join_regions reg x y s = memregion_free y (set_mr_end x (mr_end s y) (list_remove (free_megs reg) y s))"

lemma unat_succ: "v \<noteq> - 1 \<Longrightarrow> unat (v + 1 :: u32) = unat v + 1"
proof -
  assume "v \<noteq> - 1"
  then have "unat v \<noteq> 4294967295" by (auto simp: word_unat_eq_iff)
  then have "unat v < 4294967295" using unat_u32_less [of v] by linarith
  then have "unat v + unat (1 :: u32) < 4294967296" by simp
  from unat_plus_small [OF this] show ?thesis by simp
qed

lemma minv_join:
  assumes inv: "minv reg s xs M T" and xy: "x \<in> set xs" "y \<in> set xs" "mr_end s x + 1 = mr_start s y"
  shows "\<exists>xs'. minv reg (join_regions reg x y s) xs' M T \<and> x \<in> set xs'"
    "z \<in> M \<Longrightarrow> mr_start (join_regions reg x y s) z = mr_start s z \<and> mr_end (join_regions reg x y s) z = mr_end s z"
proof -
  note d = minvD [OF inv]
  define s' where "s' = join_regions reg x y s"
  have ok: "region_ok s reg x" "region_ok s reg y" using d(3) xy by auto
  have st: "unat (mr_start s y) = unat (mr_end s x) + 1"
    using unat_succ [of "mr_end s x"] ok(1) unfolding xy(3) by (simp add: region_ok_def)
  have ne: "x \<noteq> y" using st ok(1) by (auto simp: region_ok_def)
  have s'f: "mr_start s' = mr_start s" "mr_end s' = (mr_end s)(x := mr_end s y)" "grants s' = grants s"
    "lnext s' = lnext (list_remove (free_megs reg) y s)" "lprev s' = lprev (list_remove (free_megs reg) y s)"
    by (simp_all add: s'_def join_regions_def memregion_free_def)
  show "z \<in> M \<Longrightarrow> mr_start (join_regions reg x y s) z = mr_start s z \<and> mr_end (join_regions reg x y s) z = mr_end s z"
    using d(2) xy(1) s'f unfolding s'_def by auto
  obtain ys zs where xs: "xs = ys @ y # zs" using xy(2) by (meson split_list)
  have y: "y \<notin> set (ys @ zs)" using d(1) xs by (auto simp: ring_def)
  have yM: "y \<notin> M" using d(2) xy(2) by blast
  have "ring (list_remove (free_megs reg) y s) (free_megs reg) (ys @ zs)" using ring_remove d(1) xs by blast
  then have rg: "ring s' (free_megs reg) (ys @ zs)" using ring_links [OF s'f(4,5)] by blast
  have N: "set (ys @ zs) \<union> M = set xs \<union> M - {y}" using y yM xs by auto
  have "extent s' = (extent s)(x := extent s x \<union> extent s y)"
    using ok st by (auto simp: fun_eq_iff extent_def s'f region_ok_def)
  then have pt: "parted (extent s') (set xs \<union> M - {y}) T"
    using parted_join [OF d(4) _ _ ne] xy(1,2) by simp
  have ro: "region_ok s' reg z" if "z \<in> set xs \<union> M - {y}" for z
    using d(3) [of z] ok that st by (auto simp: region_ok_def s'f)
  have "fresh (grants s') (insert (free_megs reg) (set xs \<union> M - {y}))"
    using d(5) unfolding s'f(3) by (rule fresh_mono) blast
  moreover have "set (ys @ zs) \<inter> M = {}" using d(2) xs by auto
  ultimately have "minv reg s' (ys @ zs) M T" using rg ro pt unfolding minv_def N by blast
  moreover have "x \<in> set (ys @ zs)" using xy(1) ne xs by auto
  ultimately show "\<exists>xs'. minv reg (join_regions reg x y s) xs' M T \<and> x \<in> set xs'" unfolding s'_def by blast
qed

lemma mreg_level1_free_minv:
  assumes inv: "minv reg s xs (insert m M) T" and m: "m \<notin> M"
  shows "\<exists>s' xs'. mreg_level1_free reg m s = Some s' \<and> minv reg s' xs' M T
    \<and> (\<forall>z\<in>M. mr_start s' z = mr_start s z \<and> mr_end s' z = mr_end s z)"
proof -
  obtain s1 where s1: "list_add (free_megs reg) m s = Some s1" "minv reg s1 (m # xs) M T" "mr_start s1 = mr_start s" "mr_end s1 = mr_end s"
    using minv_add [OF inv m] by blast
  note d1 = minvD [OF s1(2)]
  have okm: "region_ok s1 reg m" using d1(3) by simp
  obtain t where t: "mreg_find_ending reg (mr_start s1 m - 1) s1 = Some t"
    "if t = 0 then True else t \<in> set (m # xs) \<and> mr_end s1 t = mr_start s1 m - 1"
    using ring_search [OF d1(1) minv_nonzero [OF s1(2)], of "\<lambda>x. mr_end s1 x = mr_start s1 m - 1"]
    unfolding mreg_find_ending_def by (auto split: if_splits)
  define m2 where "m2 = (if t \<noteq> 0 then t else m)"
  define s2 where "s2 = (if t \<noteq> 0 then join_regions reg t m s1 else s1)"
  obtain xs2 where s2: "minv reg s2 xs2 M T" "m2 \<in> set xs2" "\<forall>z\<in>M. mr_start s2 z = mr_start s z \<and> mr_end s2 z = mr_end s z"
  proof (cases "t = 0")
    case True
    then show thesis using that [of "m # xs"] s1 by (simp add: s2_def m2_def)
  next
    case False
    then have "t \<in> set (m # xs)" "mr_end s1 t + 1 = mr_start s1 m" using t(2) by auto
    from minv_join [OF s1(2) this(1) _ this(2)] show thesis using that False s1(3,4) by (auto simp: s2_def m2_def)
  qed
  note d2 = minvD [OF s2(1)]
  obtain u where u: "mreg_find_starting reg (mr_end s2 m2 + 1) s2 = Some u"
    "if u = 0 then True else u \<in> set xs2 \<and> mr_start s2 u = mr_end s2 m2 + 1"
    using ring_search [OF d2(1) minv_nonzero [OF s2(1)], of "\<lambda>x. mr_start s2 x = mr_end s2 m2 + 1"]
    unfolding mreg_find_starting_def by (auto split: if_splits)
  define s3 where "s3 = (if u \<noteq> 0 then join_regions reg m2 u s2 else s2)"
  have "\<exists>xs3. minv reg s3 xs3 M T \<and> (\<forall>z\<in>M. mr_start s3 z = mr_start s z \<and> mr_end s3 z = mr_end s z)"
  proof (cases "u = 0")
    case True
    then show ?thesis using s2 by (auto simp: s3_def)
  next
    case False
    then have "u \<in> set xs2" "mr_end s2 m2 + 1 = mr_start s2 u" using u(2) by auto
    from minv_join [OF s2(1,2) this] show ?thesis using False s2(3) by (auto simp: s3_def)
  qed
  moreover have "mreg_level1_free reg m s = Some s3"
    using s1(1) t(1) u(1) by (cases "t = 0"; cases "u = 0")
      (simp_all add: mreg_level1_free_def s2_def m2_def s3_def join_regions_def Let_def)
  ultimately show ?thesis by blast
qed

section \<open>The contract\<close>

definition megs_holds :: "u32 \<Rightarrow> nat set \<Rightarrow> mreg_heap \<Rightarrow> (u32 \<times> u32 \<times> u32) set \<Rightarrow> bool" where
  "megs_holds reg T s R \<longleftrightarrow> (\<exists>xs M. minv reg s xs M T \<and> R = (\<lambda>p. (p, mr_start s p, mr_end s p)) ` M)"

definition megs_alloc :: "u32 \<Rightarrow> u32 \<Rightarrow> mreg_heap \<Rightarrow> (u32 option \<times> mreg_heap) option" where
  "megs_alloc reg cnt s = map_option (\<lambda>(p, s). (if p = 0 then None else Some p, s)) (mreg_level1_allocate reg cnt s)"

lemma megs_alloc_law:
  assumes "megs_holds reg T s R" "0 < unat cnt \<and> unat cnt < 4096"
  shows "\<exists>r s'. megs_alloc reg cnt s = Some (r, s') \<and> (case r of None \<Rightarrow> megs_holds reg T s' R
    | Some p \<Rightarrow> \<exists>z. unat cnt * 1048576 \<le> unat (snd z - fst z + 1) \<and> p \<notin> fst ` R \<and> megs_holds reg T s' (insert (p, z) R))"
proof -
  obtain xs M where inv: "minv reg s xs M T" and R: "R = (\<lambda>p. (p, mr_start s p, mr_end s p)) ` M"
    using assms(1) by (auto simp: megs_holds_def)
  obtain r s' where al: "mreg_level1_allocate reg cnt s = Some (r, s')" and
    r: "if r = 0 then s' = s \<and> (\<forall>x\<in>set xs. unat (region_size s x) < unat cnt * 1048576)
       else r \<in> set xs \<and> (\<exists>xs'. minv reg s' xs' (insert r M) T) \<and> unat cnt * 1048576 \<le> unat (region_size s' r)
         \<and> mr_start s' r = mr_start s r \<and> (\<forall>y\<in>M. mr_start s' y = mr_start s y \<and> mr_end s' y = mr_end s y)"
    using mreg_level1_allocate_minv [OF inv] assms(2) by blast
  show ?thesis
  proof (cases "r = 0")
    case True
    then show ?thesis using al r assms(1) by (intro exI [of _ None] exI [of _ s]) (simp add: megs_alloc_def)
  next
    case False
    then have "r \<in> set xs" and inv': "\<exists>xs'. minv reg s' xs' (insert r M) T" and sz: "unat cnt * 1048576 \<le> unat (region_size s' r)"
      and same: "\<forall>y\<in>M. mr_start s' y = mr_start s y \<and> mr_end s' y = mr_end s y" using r by auto
    then have "r \<notin> fst ` R" using minvD(2) [OF inv] R by auto
    moreover have "insert (r, mr_start s' r, mr_end s' r) R = (\<lambda>p. (p, mr_start s' p, mr_end s' p)) ` insert r M"
      using same by (auto simp: R)
    then have "megs_holds reg T s' (insert (r, mr_start s' r, mr_end s' r) R)"
      using inv' unfolding megs_holds_def by blast
    ultimately show ?thesis using al False sz
      by (intro exI [of _ "Some r"] exI [of _ s']) (auto simp: megs_alloc_def region_size_def)
  qed
qed

lemma megs_release_law:
  assumes "megs_holds reg T s R" "(p, z) \<in> R"
  shows "\<exists>s'. mreg_level1_free reg p s = Some s' \<and> megs_holds reg T s' (R - {(p, z)})"
proof -
  obtain xs M where inv: "minv reg s xs M T" and R: "R = (\<lambda>p. (p, mr_start s p, mr_end s p)) ` M"
    using assms(1) by (auto simp: megs_holds_def)
  have p: "p \<in> M" "z = (mr_start s p, mr_end s p)" using assms(2) R by auto
  then have "minv reg s xs (insert p (M - {p})) T" using inv by (simp add: insert_absorb)
  from mreg_level1_free_minv [OF this] obtain s' xs' where f: "mreg_level1_free reg p s = Some s'" "minv reg s' xs' (M - {p}) T"
    "\<forall>z\<in>M - {p}. mr_start s' z = mr_start s z \<and> mr_end s' z = mr_end s z" by blast
  have "R - {(p, z)} = (\<lambda>p. (p, mr_start s' p, mr_end s' p)) ` (M - {p})" using f(3) p by (auto simp: R)
  then show ?thesis using f(1,2) unfolding megs_holds_def by blast
qed

lemma megs_holds_apart:
  assumes "megs_holds reg T s R" "c \<in> R" "d \<in> R" "c \<noteq> d"
  shows "{unat (fst (snd c))..unat (snd (snd c))} \<inter> {unat (fst (snd d))..unat (snd (snd d))} = {}"
proof -
  obtain xs M where inv: "minv reg s xs M T" and R: "R = (\<lambda>p. (p, mr_start s p, mr_end s p)) ` M"
    using assms(1) by (auto simp: megs_holds_def)
  obtain x y where xy: "x \<in> M" "y \<in> M" "x \<noteq> y" "c = (x, mr_start s x, mr_end s x)" "d = (y, mr_start s y, mr_end s y)"
    using assms(2-4) R by auto
  then have "extent s x \<inter> extent s y = {}" using minvD(4) [OF inv] unfolding parted_def by blast
  then show ?thesis using xy by (simp add: extent_def)
qed

interpretation megs: allocator "megs_holds reg T" "\<lambda>q. 0 < unat q \<and> unat q < 4096"
  "\<lambda>q z. unat q * 1048576 \<le> unat (snd z - fst z + 1)"
  "\<lambda>c d. {unat (fst (snd c))..unat (snd (snd c))} \<inter> {unat (fst (snd d))..unat (snd (snd d))} = {}"
  "megs_alloc reg" "mreg_level1_free reg" for reg T
  by unfold_locales (fact megs_alloc_law megs_release_law megs_holds_apart)+

section \<open>Properties\<close>

text \<open>C29: the regions of whole megabytes, free or handed out, always part the same addresses. An allocation hands out a free region
  of at least the size asked for, or fails without a change when none is large enough; giving the region back returns.\<close>

theorem mreg_megs_conserved:
  assumes "minv reg s xs M T" "0 < unat cnt" "unat cnt < 4096"
  shows "\<exists>r s'. mreg_level1_allocate reg cnt s = Some (r, s') \<and>
    (if r = 0 then s' = s \<and> (\<forall>x\<in>set xs. unat (region_size s x) < unat cnt * 1048576)
     else r \<in> set xs \<and> r \<notin> M \<and> (\<exists>xs'. minv reg s' xs' (insert r M) T) \<and> unat cnt * 1048576 \<le> unat (region_size s' r)
       \<and> (\<exists>s'' xs''. mreg_level1_free reg r s' = Some s'' \<and> minv reg s'' xs'' M T))"
proof -
  obtain r s' where al: "mreg_level1_allocate reg cnt s = Some (r, s')" and
    r: "if r = 0 then s' = s \<and> (\<forall>x\<in>set xs. unat (region_size s x) < unat cnt * 1048576)
       else r \<in> set xs \<and> (\<exists>xs'. minv reg s' xs' (insert r M) T) \<and> unat cnt * 1048576 \<le> unat (region_size s' r)
         \<and> mr_start s' r = mr_start s r \<and> (\<forall>y\<in>M. mr_start s' y = mr_start s y \<and> mr_end s' y = mr_end s y)"
    using mreg_level1_allocate_minv [OF assms] by blast
  show ?thesis
  proof (cases "r = 0")
    case False
    then have rM: "r \<notin> M" using r minvD(2) [OF assms(1)] by auto
    then obtain s'' xs'' where "mreg_level1_free reg r s' = Some s''" "minv reg s'' xs'' M T"
      using r False mreg_level1_free_minv by fastforce
    then show ?thesis using al r False rM by auto
  qed (use al r in auto)
qed

text \<open>A region of six megabytes at \<open>0x80000000\<close>, all free.\<close>

definition mreg_zero :: mreg_heap where
  "mreg_zero = \<lparr>lnext = (\<lambda>_. 0), lprev = (\<lambda>_. 0), mr_start = (\<lambda>_. 0), mr_end = (\<lambda>_. 0), mr_flags = (\<lambda>_. 0), mr_buddy = (\<lambda>_. 0),
     reg_start = (\<lambda>_. 0), reg_end = (\<lambda>_. 0), reg_page_bits = (\<lambda>_. 0), buddies = (\<lambda>_. buddy_zero), grants = [], freed = []\<rparr>"

lemma mreg_megs_conserved_witness:
  "\<exists>s r s'. mreg_level1_allocate 0x1000 2 s = Some (r, s') \<and> r = 0x2000 \<and> 2097152 \<le> unat (region_size s' r)"
proof -
  define s where "s = list_add_between 0x100C 0x100C 0x2000 (list_init 0x100C
    (mreg_zero\<lparr>mr_start := (\<lambda>_. 0x80000000), mr_end := (\<lambda>_. 0x805FFFFF), grants := [0x3000]\<rparr>))"
  have f: "mr_start s = (\<lambda>_. 0x80000000)" "mr_end s = (\<lambda>_. 0x805FFFFF)" "grants s = [0x3000]"
    by (simp_all add: s_def list_init_def list_add_between_def set_next_def set_prev_def)
  have "ring s 0x100C [0x2000]" unfolding s_def by (simp add: ring_def list_init_def list_add_between_def)
  then have "minv 0x1000 s [0x2000] {} {2147483648..2153775103}"
    by (simp add: minv_def free_megs_def region_ok_def parted_def extent_def fresh_def f)
  from mreg_megs_conserved [OF this, of 2] obtain r s' where r: "mreg_level1_allocate 0x1000 2 s = Some (r, s')"
    "if r = 0 then unat (region_size s 0x2000) < 2097152 else r = 0x2000 \<and> 2097152 \<le> unat (region_size s' r)"
    by (auto split: if_splits)
  have "r \<noteq> 0" using r(2) by (auto simp: region_size_def f)
  then show ?thesis using r by auto
qed

text \<open>attaching a region that lies within one megabyte makes memory outside it available: after attaching the 512 KB at
  \<open>0x80040000\<close>, a request for a megabyte is answered with the one at \<open>0x80100000\<close>.\<close>

theorem mreg_attach_outside:
  "(case mreg_create 18 (mreg_zero\<lparr>grants := [0x1000, 0x2000, 0, 0, 0x3000]\<rparr>) of (reg, s) \<Rightarrow>
    Option.bind (mreg_region_attach reg 0x80040000 0x80000 s) (\<lambda>(ok, s).
      map_option (\<lambda>(r, s). (ok, mr_start s r, mr_end s r)) (mreg_alloc reg 0x100000 s)))
  = Some (True, 0x80100000, 0x801FFFFF)"
  by code_simp

text \<open>When no memory is left for the part before the address asked for, the null pointer is used.\<close>

lemma mreg_level1_allocate_at_null:
  "(case mreg_create 12 (mreg_zero\<lparr>grants := [0x1000, 0x2000]\<rparr>) of (reg, s) \<Rightarrow>
    Option.bind (mreg_region_attach reg 0x80000000 0x300000 s) (\<lambda>(ok, s). mreg_level1_allocate_at reg 0x80100000 1 s)) = None"
  by code_simp

end
