(* ===== verification/Guest_Util.thy ===== *)
theory Guest_Util
  imports Uc_String Mem_Heap
begin

text \<open>
  The run-time support of the trusted guest: \<open>guests/trusted/src/util.c\<close> and the heap of
  \<open>guests/trusted/src/mem.c\<close>. A \<open>char\<close> is unsigned, as it is for ARM compilers.
\<close>

section \<open>Random numbers and absolute values\<close>

record rand_state =
  z1 :: u32
  z2 :: u32
  z3 :: u32
  z4 :: u32

definition rand_seed :: rand_state where
  "rand_seed = \<lparr>z1 = 12345, z2 = 12345, z3 = 12345, z4 = 12345\<rparr>"

definition rand :: "rand_state \<Rightarrow> u32 \<times> rand_state" where
  "rand st =
     (let b = drop_bit 13 (push_bit 6 (z1 st) XOR z1 st);
          st = st\<lparr>z1 := push_bit 18 (z1 st AND 4294967294) XOR b\<rparr>;
          b = drop_bit 27 (push_bit 2 (z2 st) XOR z2 st);
          st = st\<lparr>z2 := push_bit 2 (z2 st AND 4294967288) XOR b\<rparr>;
          b = drop_bit 21 (push_bit 13 (z3 st) XOR z3 st);
          st = st\<lparr>z3 := push_bit 7 (z3 st AND 4294967280) XOR b\<rparr>;
          b = drop_bit 12 (push_bit 3 (z4 st) XOR z4 st);
          st = st\<lparr>z4 := push_bit 13 (z4 st AND 4294967168) XOR b\<rparr>
      in (z1 st XOR z2 st XOR z3 st XOR z4 st, st))"

definition abs_int :: "u32 \<Rightarrow> u32" where
  "abs_int n = (let mask = signed_drop_bit 31 n in (n + mask) XOR mask)"

text \<open>The padding bytes of \<open>guests/trusted/src/rsa.c\<close>: random numbers below 255, drawn again while they are zero.\<close>

partial_function (option) draw_byte :: "rand_state \<Rightarrow> (u32 \<times> rand_state) option" where
  "draw_byte st = (let (v, st) = rand st; val = v mod 255 in if val = 0 then draw_byte st else Some (val, st))"

fun myrand :: "u32 \<Rightarrow> nat \<Rightarrow> mem \<Rightarrow> rand_state \<Rightarrow> (mem \<times> rand_state) option" where
  "myrand out 0 m st = Some (m, st)"
| "myrand out (Suc len) m st =
     Option.bind (draw_byte st) (\<lambda>(val, st). myrand (out + 1) len (m(out := ucast val)) st)"

section \<open>Moving memory\<close>

text \<open>Back to front, by words and by bytes.\<close>

fun memmove_words :: "mem \<Rightarrow> u32 \<Rightarrow> u32 \<Rightarrow> nat \<Rightarrow> mem" where
  "memmove_words m d s 0 = m"
| "memmove_words m d s (Suc i) =
     memmove_words (store32 m (d + 4 * of_nat i) (load32 m (s + 4 * of_nat i))) d s i"

fun memmove_bytes :: "mem \<Rightarrow> u32 \<Rightarrow> u32 \<Rightarrow> nat \<Rightarrow> mem" where
  "memmove_bytes m d s 0 = m"
| "memmove_bytes m d s (Suc i) = memmove_bytes (m(d + of_nat i := m (s + of_nat i))) d s i"

definition memmove :: "mem \<Rightarrow> u32 \<Rightarrow> u32 \<Rightarrow> u32 \<Rightarrow> u32 \<times> mem" where
  "memmove m dst src len =
     (if dst < src then memcpy m dst src len
      else (dst, if dst mod 4 = 0 \<and> src mod 4 = 0 \<and> len mod 4 = 0
                 then memmove_words m dst src (unat (len div 4))
                 else memmove_bytes m dst src (unat len)))"

section \<open>Characters\<close>

definition toupper :: "u8 \<Rightarrow> u32" where
  "toupper ch = (if 0x61 \<le> ch \<and> ch \<le> 0x7A then 0x41 + (ucast ch - 0x61) else ucast ch)"

definition tolower :: "u8 \<Rightarrow> u32" where
  "tolower ch = (if 0x41 \<le> ch \<and> ch \<le> 0x5A then 0x61 + (ucast ch - 0x41) else ucast ch)"

definition isupper :: "u32 \<Rightarrow> bool" where "isupper ch \<longleftrightarrow> 0x41 \<le> sint ch \<and> sint ch \<le> 0x5A"
definition islower :: "u32 \<Rightarrow> bool" where "islower ch \<longleftrightarrow> 0x61 \<le> sint ch \<and> sint ch \<le> 0x7A"
definition isdigit :: "u8 \<Rightarrow> bool" where "isdigit c \<longleftrightarrow> 0x30 \<le> c \<and> c \<le> 0x39"

section \<open>The heap of the trusted guest\<close>

definition trusted_free :: "heap_ctxt \<Rightarrow> u32 \<Rightarrow> mem \<Rightarrow> mem" where
  "trusted_free heap adr m = snd (heap_free heap adr m)"

definition trusted_malloc :: "heap_ctxt \<Rightarrow> u32 \<Rightarrow> mem \<Rightarrow> (u32 \<times> mem) option" where
  "trusted_malloc heap sz m = heap_alloc heap sz m"

definition calloc :: "heap_ctxt \<Rightarrow> u32 \<Rightarrow> u32 \<Rightarrow> mem \<Rightarrow> (u32 \<times> mem) option" where
  "calloc heap num sz m =
     map_option (\<lambda>(pointer, m). (pointer, snd (memset m pointer 0 (num * sz)))) (trusted_malloc heap (num * sz) m)"

definition init_heap :: "u32 \<Rightarrow> u32 \<Rightarrow> heap_ctxt \<Rightarrow> mem \<Rightarrow> heap_ctxt \<times> mem" where
  "init_heap heap_start_adr heap_end_adr heap m = heap_init (heap_end_adr - heap_start_adr - 1) heap_start_adr heap m"

section \<open>What they do\<close>

text \<open>The absolute value is right for every int, also for the least one, as the result is unsigned.\<close>

lemma drop_bit_31_int: "- 2147483648 \<le> k \<Longrightarrow> k < 2147483648 \<Longrightarrow> drop_bit 31 k = (if k < 0 then - 1 else (0 :: int))"
proof -
  assume "- 2147483648 \<le> k" "k < 2147483648"
  then have "k div 2147483648 = (if k < 0 then - 1 else 0)"
    using int_div_pos_eq [of k 2147483648 "- 1" "k + 2147483648"] by auto
  then show ?thesis unfolding drop_bit_eq_div by simp
qed

lemma signed_drop_bit_31: "signed_drop_bit 31 n = (if sint (n :: u32) < 0 then - 1 else 0)"
proof -
  have "- 2147483648 \<le> sint n" "sint n < 2147483648" using sint_greater_eq [of n] sint_less [of n] by simp_all
  then have "sint (signed_drop_bit 31 n) = (if sint n < 0 then - 1 else 0)"
    unfolding sint_signed_drop_bit_eq by (rule drop_bit_31_int)
  then have "sint (signed_drop_bit 31 n) = sint (if sint n < 0 then - 1 else 0 :: u32)" by simp
  then show ?thesis by (rule signed_word_eqI)
qed

lemma abs_int_spec: "abs_int n = of_int \<bar>sint n\<bar>"
proof (cases "sint n < 0")
  case True
  have "(n + - 1) XOR - 1 = NOT (n - 1)" by simp
  also have "\<dots> = - n" by (simp add: minus_eq_not_minus_1)
  finally show ?thesis using True by (simp add: abs_int_def signed_drop_bit_31 abs_of_neg)
qed (simp add: abs_int_def signed_drop_bit_31)


text \<open>No padding byte is zero.\<close>

lemma mod_255_less: "x mod 255 < (255 :: u32)"
  by (simp add: word_less_nat_alt unat_mod)

lemma draw_byte_nonzero: "draw_byte st = Some (v, st') \<Longrightarrow> 0 < v \<and> v < 255"
proof -
  have "draw_byte st = Some r \<Longrightarrow> 0 < fst r \<and> fst r < 255" for r
    by (rule draw_byte.raw_induct [where P = "\<lambda>st r. 0 < fst r \<and> fst r < 255"])
      (auto simp: Let_def word_gt_0 mod_255_less split: prod.splits if_splits)
  then show "draw_byte st = Some (v, st') \<Longrightarrow> 0 < v \<and> v < 255" by fastforce
qed

lemma myrand_outside:
  assumes "myrand out len m st = Some (m', st')" "len \<le> unat (a - out)"
  shows "m' a = m a"
  using assms
proof (induction len arbitrary: out m st)
  case (Suc len)
  obtain v st1 where v: "draw_byte st = Some (v, st1)" "myrand (out + 1) len (m(out := ucast v)) st1 = Some (m', st')"
    using Suc.prems(1) by (cases "draw_byte st") auto
  have ne: "a \<noteq> out" using Suc.prems(2) by auto
  have "len \<le> unat (a - (out + 1))" using Suc.prems(2) unat_off_Suc [of len a out] unat_u32_less [of "a - out"] by auto
  from Suc.IH [OF v(2) this] show ?case using ne by simp
qed simp

lemma myrand_nonzero:
  assumes "myrand out len m st = Some (m', st')" "unat (a - out) < len" "len \<le> 4294967295"
  shows "m' a \<noteq> 0"
  using assms
proof (induction len arbitrary: out m st)
  case (Suc len)
  obtain v st1 where v: "draw_byte st = Some (v, st1)" "myrand (out + 1) len (m(out := ucast v)) st1 = Some (m', st')"
    using Suc.prems(1) by (cases "draw_byte st") auto
  show ?case
  proof (cases "a = out")
    case True
    have "unat (a - (out + 1)) = 4294967295" using True by simp
    then have "m' a = ucast v" using myrand_outside [OF v(2), of a] Suc.prems(3) True by simp
    moreover have "(ucast v :: u8) \<noteq> 0"
    proof
      have "0 < unat v" "unat v < 255" using draw_byte_nonzero [OF v(1)] by (simp_all add: word_less_nat_alt)
      moreover assume "(ucast v :: u8) = 0"
      moreover have "unat (ucast v :: u8) = unat v mod 256" by (simp add: unsigned_ucast_eq take_bit_eq_mod)
      ultimately show False by simp
    qed
    ultimately show ?thesis by simp
  next
    case False
    then have "unat (a - (out + 1)) < len" using Suc.prems(2,3) unat_off_Suc [of len a out] by auto
    then show ?thesis using Suc.IH [OF v(2)] Suc.prems(3) by simp
  qed
qed simp

text \<open>A copy from back to front is right when the source does not start behind the destination.\<close>

lemma off_less: "unat (a - d) < n \<Longrightarrow> unat (s :: u32) + n \<le> 4294967296 \<Longrightarrow> unat (s + (a - d)) = unat s + unat (a - d)"
  by (intro unat_add_lem [THEN iffD1]) simp

lemma memmove_bytes_apply:
  assumes "src \<le> dst" "unat dst + n \<le> 4294967296"
  shows "memmove_bytes m dst src n a = (if unat (a - dst) < n then m (src + (a - dst)) else m a)"
  using assms
proof (induction n arbitrary: m)
  case (Suc n)
  have le: "unat src \<le> unat dst" using Suc.prems(1) by (simp add: word_le_nat_alt)
  have n: "n < 4294967296" using Suc.prems(2) by simp
  have dn: "a = dst + of_nat n \<longleftrightarrow> unat (a - dst) = n" using n by (auto simp: word_unat_eq_iff)
    (metis add_diff_cancel_left' diff_add_cancel unat_of_nat_u32 word_unat_of_nat_self)
  define m' where "m' = m(dst + of_nat n := m (src + of_nat n))"
  have IH: "memmove_bytes m' dst src n a = (if unat (a - dst) < n then m' (src + (a - dst)) else m' a)"
    using Suc.prems by (intro Suc.IH) simp_all
  show ?case
  proof (cases "unat (a - dst) < n")
    case True
    have s: "unat (src + (a - dst)) = unat src + unat (a - dst)"
      using True le Suc.prems(2) by (intro off_less [of _ _ n]) simp_all
    have d: "unat (dst + of_nat n) = unat dst + n"
      using n Suc.prems(2) by (subst unat_add_lem [THEN iffD1]) simp_all
    have "src + (a - dst) \<noteq> dst + of_nat n"
    proof
      assume "src + (a - dst) = dst + of_nat n"
      then have "unat (src + (a - dst)) = unat (dst + of_nat n)" by (rule arg_cong)
      then show False using s d le True by linarith
    qed
    then show ?thesis using IH True by (simp add: m'_def)
  next
    case False
    then show ?thesis using IH dn by (auto simp: m'_def less_Suc_eq)
  qed
qed simp

lemma store32_load32_apply:
  "store32 m p (load32 m q) a = (if unat (a - p) < 4 then m (q + (a - p)) else m a)"
proof -
  have c: "ucast (load32 m q) = m q" "ucast (drop_bit 8 (load32 m q)) = m (q + 1)"
    "ucast (drop_bit 16 (load32 m q)) = m (q + 2)" "ucast (drop_bit 24 (load32 m q)) = m (q + 3)"
    by (rule bit_word_eqI; auto simp: load32_def bit_simps dest: bit_imp_le_length)+
  show ?thesis
  proof (cases "unat (a - p) < 4")
    case True
    then have "a - p < 4" by (simp add: word_less_nat_alt)
    then consider "a = p" | "a = p + 1" | "a = p + 2" | "a = p + 3"
      by (cases rule: word_less4_cases) (auto simp: algebra_simps)
    then show ?thesis by cases (simp_all add: store32_def c)
  next
    case False
    then have "\<not> a - p < 4" by (simp add: word_less_nat_alt)
    then show ?thesis using False by (simp add: store32_outside)
  qed
qed

lemma unat_word_step: "unat (dst :: u32) + 4 * Suc n \<le> 4294967296 \<Longrightarrow> unat (dst + 4 * of_nat n) = unat dst + 4 * n"
proof -
  assume a: "unat dst + 4 * Suc n \<le> 4294967296"
  have "dst + 4 * of_nat n = of_nat (unat dst + 4 * n)" by simp
  moreover have "unat dst + 4 * n < 4294967296" using a by simp
  ultimately show ?thesis by (simp only: unat_of_nat_u32)
qed

lemma memmove_words_apply:
  assumes "src \<le> dst" "unat dst + 4 * n \<le> 4294967296"
  shows "memmove_words m dst src n a = (if unat (a - dst) < 4 * n then m (src + (a - dst)) else m a)"
  using assms
proof (induction n arbitrary: m)
  case (Suc n)
  have le: "unat src \<le> unat dst" using Suc.prems(1) by (simp add: word_le_nat_alt)
  define d where "d = dst + 4 * of_nat n"
  define s where "s = src + 4 * of_nat n"
  have d: "unat d = unat dst + 4 * n" unfolding d_def by (rule unat_word_step [OF Suc.prems(2)])
  have n: "4 * n + 4 \<le> 4294967296 - unat dst" using Suc.prems(2) by simp
  have far: "unat (a - d) < 4 \<longleftrightarrow> 4 * n \<le> unat (a - dst) \<and> unat (a - dst) < 4 * Suc n" for a
  proof -
    define k where "k = unat (a - dst)"
    have k: "k < 4294967296" unfolding k_def by (rule unat_u32_less)
    have "a - d = of_nat k - of_nat (4 * n)" by (simp add: d_def k_def)
    show ?thesis
    proof (cases "4 * n \<le> k")
      case True
      then have "a - d = of_nat (k - 4 * n)" using \<open>a - d = _\<close> by (simp add: of_nat_diff)
      then have "unat (a - d) = k - 4 * n" using k by (simp only: unat_of_nat_u32)
      then show ?thesis using True unfolding k_def [symmetric] by auto
    next
      case False
      have "a - d = of_nat (k + (4294967296 - 4 * n))" using \<open>a - d = _\<close> n by (simp add: of_nat_diff)
      moreover have "k + (4294967296 - 4 * n) < 4294967296" using False n by linarith
      ultimately have "unat (a - d) = k + (4294967296 - 4 * n)" by (simp only: unat_of_nat_u32)
      then show ?thesis using False n unfolding k_def [symmetric] by auto
    qed
  qed
  define m' where "m' = store32 m d (load32 m s)"
  have m': "m' a = (if 4 * n \<le> unat (a - dst) \<and> unat (a - dst) < 4 * Suc n then m (src + (a - dst)) else m a)" for a
    unfolding m'_def store32_load32_apply far by (simp add: s_def d_def)
  have IH: "memmove_words m' dst src n a = (if unat (a - dst) < 4 * n then m' (src + (a - dst)) else m' a)"
    using Suc.prems by (intro Suc.IH) simp_all
  have st: "memmove_words m dst src (Suc n) = memmove_words m' dst src n" by (simp add: m'_def d_def s_def)
  show ?case
  proof (cases "unat (a - dst) < 4 * n")
    case True
    have s: "unat (src + (a - dst)) = unat src + unat (a - dst)"
      using True le Suc.prems(2) by (intro off_less [of _ _ "4 * n"]) simp_all
    have "\<not> 4 * n \<le> unat (src + (a - dst) - dst) \<or> \<not> unat (src + (a - dst) - dst) < 4 * Suc n"
    proof (rule ccontr)
      define j where "j = unat (src + (a - dst) - dst)"
      assume "\<not> ?thesis"
      then have j: "4 * n \<le> j" "j < 4 * Suc n" by (simp_all add: j_def)
      have "unat (dst + (src + (a - dst) - dst)) = unat dst + j"
        unfolding j_def using j Suc.prems(2) by (intro off_less [of _ _ "4 * Suc n"]) (simp_all add: j_def)
      moreover have "dst + (src + (a - dst) - dst) = src + (a - dst)" by simp
      ultimately have "unat src + unat (a - dst) = unat dst + j" using s by (simp only:)
      then show False using le True j by linarith
    qed
    then show ?thesis using IH True m' [of "src + (a - dst)"] unfolding st by auto
  next
    case False
    then show ?thesis using IH m' [of a] unfolding st by auto
  qed
qed simp

text \<open>\<open>memmove\<close> copies the bytes as they were before, whether the areas overlap or not, and writes nothing else, for areas that do
  not run over the end of the address space.\<close>

theorem memmove_copies:
  assumes "unat src + unat len \<le> 4294967296" "unat dst + unat len \<le> 4294967296"
  shows "fst (memmove m dst src len) = dst
    \<and> snd (memmove m dst src len) a = (if unat (a - dst) < unat len then m (src + (a - dst)) else m a)"
proof (cases "dst < src")
  case True
  then have lt: "unat dst < unat src" by (simp add: word_less_nat_alt)
  have "unat (dst - src) = unat dst + 4294967296 - unat src"
    using unat_sub_if' [of dst src] lt by simp
  then have "forward_ok dst src (unat len)" using assms(1) unfolding forward_ok_def by linarith
  then have "snd (memcpy m dst src len) a = (if a - dst < len then m (src + (a - dst)) else m a)" by (rule memcpy_apply)
  then show ?thesis using True by (simp add: memmove_def memcpy_def word_less_nat_alt)
next
  case False
  then have le: "src \<le> dst" by simp
  have "4 * unat (len div 4) = unat len" if "len mod 4 = 0"
  proof -
    have "unat len mod 4 = 0" using arg_cong [OF that, of unat] by (simp add: unat_mod)
    then show ?thesis by (simp add: unat_div) presburger
  qed
  then show ?thesis using False memmove_bytes_apply [OF le assms(2)] memmove_words_apply [OF le, of "unat (len div 4)"] assms(2)
    by (auto simp: memmove_def)
qed

lemma memmove_copies_witness:
  "fst (memmove (\<lambda>a. ucast a) 0x1002 0x1000 5) = 0x1002 \<and> snd (memmove (\<lambda>a. ucast a) 0x1002 0x1000 5) 0x1004 = (2 :: u8)"
  using memmove_copies [of "0x1000" 5 "0x1002" "\<lambda>a. ucast a" "0x1004"] by simp

text \<open>\<open>calloc\<close> does not look whether the heap had room: the null pointer is filled.\<close>

lemma calloc_null:
  "trusted_malloc heap (num * sz) m = Some (0, m') \<Longrightarrow> a < num * sz \<Longrightarrow>
    \<exists>m''. calloc heap num sz m = Some (0, m'') \<and> m'' a = 0"
  by (simp add: calloc_def memset_apply)

end
