(* ===== verification/Guest_Mwc.thy ===== *)
theory Guest_Mwc
  imports Guest_Util
begin

text \<open>
  The random number generator of the trusted guest, \<open>guests/trusted/src/mpi/mwc.c\<close>: two
  multiply-with-carry generators whose last eight numbers lie in a window that moves down through an
  array of eighteen, so that the numbers are copied only once in ten draws.
\<close>

section \<open>The generator\<close>

text \<open>\<open>m1\<close> and \<open>m2\<close> are the offsets of the pointers in \<open>mother1\<close> and \<open>mother2\<close>; they are \<open>NULL\<close> as long as
  \<open>mStart\<close> is set, and are not read then.\<close>

record mwc =
  mother1 :: "u16 list"
  mother2 :: "u16 list"
  m1 :: nat
  m2 :: nat
  mStart :: u16

definition mwc_boot :: mwc where
  "mwc_boot = \<lparr>mother1 = replicate 18 0, mother2 = replicate 18 0, m1 = 0, m2 = 0, mStart = 1\<rparr>"

definition m16Mask :: u32 where "m16Mask = 0xFFFF"

fun mother_store :: "bool \<times> nat \<Rightarrow> u16 \<Rightarrow> mwc \<Rightarrow> mwc" where
  "mother_store (False, i) v g = g\<lparr>mother1 := (mother1 g)[i := v]\<rparr>"
| "mother_store (True, i) v g = g\<lparr>mother2 := (mother2 g)[i := v]\<rparr>"

text \<open>The pointer \<open>p\<close> is the array, the second one for \<open>True\<close>, and the offset in it.\<close>

fun srand_loop :: "nat \<Rightarrow> bool \<times> nat \<Rightarrow> u32 \<Rightarrow> u16 \<Rightarrow> mwc \<Rightarrow> mwc" where
  "srand_loop 0 p number sNumber g = g"
| "srand_loop (Suc n) p number sNumber g =
     (let number = 30903 * ucast sNumber + drop_bit 16 number;
          sNumber = ucast (number AND m16Mask);
          g = mother_store p sNumber g;
          p = (if n = 9 then (True, 9) else (fst p, snd p + 1))
      in srand_loop n p number sNumber g)"

definition srand_mwc2 :: "u32 \<Rightarrow> mwc \<Rightarrow> mwc" where
  "srand_mwc2 seed g = srand_loop 18 (False, 9) seed (ucast (seed AND m16Mask)) g\<lparr>mStart := 0, m1 := 9, m2 := 9\<rparr>"

definition srand_mwc :: "u32 \<Rightarrow> mwc \<Rightarrow> mwc" where
  "srand_mwc seed g = srand_mwc2 seed g"

definition mwc_number1 :: "mwc \<Rightarrow> u32" where
  "mwc_number1 g = (let m = (\<lambda>i. ucast (mother1 g ! (m1 g + i))) in
     m 0 + 1941 * m 1 + 1860 * m 2 + 1812 * m 3 + 1776 * m 4 + 1492 * m 5 + 1215 * m 6 + 1066 * m 7 + 12013 * m 8)"

definition mwc_number2 :: "mwc \<Rightarrow> u32" where
  "mwc_number2 g = (let m = (\<lambda>i. ucast (mother2 g ! (m2 g + i))) in
     m 0 + 1111 * m 1 + 2222 * m 2 + 3333 * m 3 + 4444 * m 4 + 5555 * m 5 + 6666 * m 6 + 7777 * m 7 + 9272 * m 8)"

text \<open>\<open>memcpy(mother + 11, mother + 1, 7 * sizeof(uint16_t))\<close>\<close>

definition mother_up :: "u16 list \<Rightarrow> u16 list" where
  "mother_up xs = take 11 xs @ take 7 (drop 1 xs) @ drop 18 xs"

definition mwc_window :: "mwc \<Rightarrow> mwc" where
  "mwc_window g =
     (if m1 g = 0 then g\<lparr>mother1 := mother_up (mother1 g), mother2 := mother_up (mother2 g), m1 := 9, m2 := 9\<rparr>
      else g\<lparr>m1 := m1 g - 1, m2 := m2 g - 1\<rparr>)"

definition rand_mwc :: "mwc \<Rightarrow> u32 \<times> mwc" where
  "rand_mwc g =
     (if mStart g \<noteq> 0 then (0, g)
      else let number1 = mwc_number1 g; number2 = mwc_number2 g; g = mwc_window g;
               g = g\<lparr>mother1 := (mother1 g)[m1 g := ucast (drop_bit 16 number1)]\<rparr>;
               g = g\<lparr>mother2 := (mother2 g)[m2 g := ucast (drop_bit 16 number2)]\<rparr>;
               g = g\<lparr>mother1 := (mother1 g)[m1 g + 1 := ucast (m16Mask AND number1)]\<rparr>;
               g = g\<lparr>mother2 := (mother2 g)[m2 g + 1 := ucast (m16Mask AND number2)]\<rparr>
           in (push_bit 16 (ucast (mother1 g ! (m1 g + 1))) OR ucast (mother2 g ! (m2 g + 1)), g))"

section \<open>The generator it means to be\<close>

text \<open>A carry and the last eight numbers, the latest first; a draw moves every number one place.\<close>

definition mother_next :: "u32 list \<Rightarrow> u16 \<times> u16 list \<Rightarrow> u16 \<times> u16 list" where
  "mother_next cs cx = (let number = ucast (fst cx) + (\<Sum>(c, x) \<leftarrow> zip cs (snd cx). c * ucast x)
     in (ucast (drop_bit 16 number), ucast number # butlast (snd cx)))"

definition coeffs1 :: "u32 list" where "coeffs1 = [1941, 1860, 1812, 1776, 1492, 1215, 1066, 12013]"
definition coeffs2 :: "u32 list" where "coeffs2 = [1111, 2222, 3333, 4444, 5555, 6666, 7777, 9272]"

type_synonym mother_state = "(u16 \<times> u16 list) \<times> (u16 \<times> u16 list)"

definition mother_draw :: "mother_state \<Rightarrow> u32 \<times> mother_state" where
  "mother_draw s = (let a = mother_next coeffs1 (fst s); b = mother_next coeffs2 (snd s)
     in (push_bit 16 (ucast (hd (snd a))) OR ucast (hd (snd b)), a, b))"

text \<open>The seed is spread by a generator of the same kind with one number.\<close>

fun seed_numbers :: "nat \<Rightarrow> u32 \<Rightarrow> u16 list" where
  "seed_numbers 0 number = []"
| "seed_numbers (Suc n) number =
     (let number = 30903 * (number AND m16Mask) + drop_bit 16 number in ucast number # seed_numbers n number)"

definition mother_seed :: "u32 \<Rightarrow> mother_state" where
  "mother_seed seed = (let xs = seed_numbers 18 seed in ((xs ! 0, take 8 (drop 1 xs)), (xs ! 9, drop 10 xs)))"

section \<open>The window holds the state\<close>

definition mwc_ok :: "mwc \<Rightarrow> bool" where
  "mwc_ok g \<longleftrightarrow> length (mother1 g) = 18 \<and> length (mother2 g) = 18 \<and> m1 g = m2 g \<and> m1 g \<le> 9"

definition mwc_abs :: "mwc \<Rightarrow> mother_state option" where
  "mwc_abs g = (if mStart g \<noteq> 0 then None else
     Some ((mother1 g ! m1 g, take 8 (drop (Suc (m1 g)) (mother1 g))), (mother2 g ! m2 g, take 8 (drop (Suc (m2 g)) (mother2 g)))))"

datatype mwc_op = Seed u32 | Draw

fun mwc_step :: "mwc_op \<Rightarrow> mwc \<Rightarrow> u32 list \<times> mwc" where
  "mwc_step (Seed seed) g = ([], srand_mwc seed g)"
| "mwc_step Draw g = (let (v, g) = rand_mwc g in ([v], g))"

fun mother_step :: "mwc_op \<Rightarrow> mother_state option \<Rightarrow> u32 list \<times> mother_state option" where
  "mother_step (Seed seed) s = ([], Some (mother_seed seed))"
| "mother_step Draw None = ([0], None)"
| "mother_step Draw (Some s) = (let (v, s) = mother_draw s in ([v], Some s))"

fun outputs :: "('op \<Rightarrow> 's \<Rightarrow> 'v list \<times> 's) \<Rightarrow> 'op list \<Rightarrow> 's \<Rightarrow> 'v list" where
  "outputs f [] s = []"
| "outputs f (p # ps) s = (let (vs, s) = f p s in vs @ outputs f ps s)"

text \<open>The generic step of a simulation: steps that give the same values and keep the relation give the same outputs.\<close>

lemma outputs_simulation:
  assumes "\<And>p s t. R s t \<Longrightarrow> fst (f p s) = fst (g p t) \<and> R (snd (f p s)) (snd (g p t))" and "R s t"
  shows "outputs f ps s = outputs g ps t"
  using assms(2)
  by (induction ps arbitrary: s t) (use assms(1) in \<open>auto simp: split_def Let_def\<close>)


lemma ucast_m16Mask: "(ucast (m16Mask AND number) :: u16) = ucast number" "(ucast (number AND m16Mask) :: u16) = ucast number"
proof -
  have m: "m16Mask = mask 16" by (simp add: m16Mask_def mask_eq_exp_minus_1)
  show "(ucast (m16Mask AND number) :: u16) = ucast number" "(ucast (number AND m16Mask) :: u16) = ucast number"
    unfolding m by (auto intro!: bit_word_eqI simp: bit_simps)
qed

text \<open>One array: the carry and the eight numbers after it.\<close>

definition window :: "u16 list \<Rightarrow> nat \<Rightarrow> u16 \<times> u16 list" where
  "window xs k = (xs ! k, take 8 (drop (Suc k) xs))"

lemma window_numbers: "length xs = 18 \<Longrightarrow> k \<le> 9 \<Longrightarrow>
  take 8 (drop (Suc k) xs) = [xs ! (k + 1), xs ! (k + 2), xs ! (k + 3), xs ! (k + 4), xs ! (k + 5), xs ! (k + 6), xs ! (k + 7), xs ! (k + 8)]"
  by (rule nth_equalityI) (auto simp: less_Suc_eq numeral_nat)

lemma window_up:
  assumes "length xs = 18" "k \<le> 9"
  defines "xs' \<equiv> if k = 0 then mother_up xs else xs" and "k' \<equiv> if k = 0 then 9 else k - 1"
  shows "window (xs'[k' := c, Suc k' := v]) k' = (c, v # butlast (snd (window xs k)))"
proof (cases "k = 0")
  case True
  define ys where "ys = (mother_up xs)[9 := c, 10 := v]"
  have len: "length ys = 18" using assms(1) by (simp add: ys_def mother_up_def)
  have nth: "ys ! i = xs ! (i - 10)" if "11 \<le> i" "i < 18" for i
    using that assms(1) by (simp add: ys_def mother_up_def nth_append) (simp add: Suc_diff_le [symmetric])
  have "window ys 9 = (c, [v, xs ! 1, xs ! 2, xs ! 3, xs ! 4, xs ! 5, xs ! 6, xs ! 7])"
    using nth [of 11] nth [of 12] nth [of 13] nth [of 14] nth [of 15] nth [of 16] nth [of 17] window_numbers [OF len, of 9]
    by (simp add: window_def) (simp add: ys_def mother_up_def assms(1))
  then show ?thesis using True window_numbers [OF assms(1), of 0]
    by (simp add: xs'_def k'_def window_def ys_def) (simp add: numeral_2_eq_2)
next
  case False
  then obtain j where j: "k = Suc j" by (cases k) auto
  have "butlast (snd (window xs k)) = take 7 (drop (Suc k) xs)"
    unfolding window_def using assms(1,2) by (simp add: butlast_take)
  moreover have "drop (Suc j) (xs[j := c, Suc j := v]) = v # drop (Suc (Suc j)) xs"
    using assms(1,2) j by (subst Cons_nth_drop_Suc [symmetric]) simp_all
  ultimately show ?thesis using assms(1,2) by (simp add: xs'_def k'_def j window_def)
qed

lemma mwc_number1_window: "length (mother1 g) = 18 \<Longrightarrow> m1 g \<le> 9 \<Longrightarrow>
  mwc_number1 g = ucast (fst (window (mother1 g) (m1 g))) + (\<Sum>(c, x) \<leftarrow> zip coeffs1 (snd (window (mother1 g) (m1 g))). c * ucast x)"
  by (simp add: mwc_number1_def window_def window_numbers coeffs1_def)

lemma mwc_number2_window: "length (mother2 g) = 18 \<Longrightarrow> m2 g \<le> 9 \<Longrightarrow>
  mwc_number2 g = ucast (fst (window (mother2 g) (m2 g))) + (\<Sum>(c, x) \<leftarrow> zip coeffs2 (snd (window (mother2 g) (m2 g))). c * ucast x)"
  by (simp add: mwc_number2_def window_def window_numbers coeffs2_def)

lemma mwc_abs_window: "mwc_abs g = (if mStart g \<noteq> 0 then None else Some (window (mother1 g) (m1 g), window (mother2 g) (m2 g)))"
  by (simp add: mwc_abs_def window_def)

lemma mwc_abs_None: "mwc_abs g = None \<longleftrightarrow> mStart g \<noteq> 0"
  by (simp add: mwc_abs_def)

lemma length_mother_up [simp]: "length xs = 18 \<Longrightarrow> length (mother_up xs) = 18"
  by (simp add: mother_up_def)

lemma rand_mwc_draws:
  assumes ok: "mwc_ok g" and "mStart g = 0"
  shows "fst (rand_mwc g) = fst (mother_draw (the (mwc_abs g)))
    \<and> mwc_abs (snd (rand_mwc g)) = Some (snd (mother_draw (the (mwc_abs g)))) \<and> mwc_ok (snd (rand_mwc g))"
proof -
  define k where "k = m1 g"
  have g: "length (mother1 g) = 18" "length (mother2 g) = 18" "m1 g = k" "m2 g = k" "k \<le> 9"
    using ok by (simp_all add: mwc_ok_def k_def)
  define k' where "k' = (if k = 0 then 9 else k - 1)"
  define up where "up xs = (if k = 0 then mother_up xs else xs)" for xs
  have w: "mother1 (mwc_window g) = up (mother1 g)" "mother2 (mwc_window g) = up (mother2 g)"
    "m1 (mwc_window g) = k'" "m2 (mwc_window g) = k'" "mStart (mwc_window g) = mStart g"
    using g by (simp_all add: mwc_window_def k'_def up_def)
  have "k' \<le> 9" using g(5) by (auto simp: k'_def)
  then have len: "length (up (mother1 g)) = 18" "length (up (mother2 g)) = 18" "k' \<le> 9" using g by (simp_all add: up_def)
  have up: "window ((up xs)[k' := c, Suc k' := v]) k' = (c, v # butlast (snd (window xs k)))" if "length xs = 18" for xs c v
    unfolding up_def k'_def by (rule window_up [OF that g(5)])
  define n1 where "n1 = mwc_number1 g"
  define n2 where "n2 = mwc_number2 g"
  have r: "rand_mwc g = (push_bit 16 (ucast (ucast n1 :: u16)) OR ucast (ucast n2 :: u16),
     (mwc_window g)\<lparr>mother1 := (up (mother1 g))[k' := ucast (drop_bit 16 n1), k' + 1 := ucast n1],
       mother2 := (up (mother2 g))[k' := ucast (drop_bit 16 n2), k' + 1 := ucast n2]\<rparr>)"
    using assms(2) len by (simp add: rand_mwc_def Let_def n1_def n2_def w ucast_m16Mask)
  have d: "mother_draw (window (mother1 g) k, window (mother2 g) k) =
     (push_bit 16 (ucast (ucast n1 :: u16)) OR ucast (ucast n2 :: u16),
      (ucast (drop_bit 16 n1), ucast n1 # butlast (snd (window (mother1 g) k))),
      (ucast (drop_bit 16 n2), ucast n2 # butlast (snd (window (mother2 g) k))))"
    using mwc_number1_window [of g] mwc_number2_window [of g] g
    by (simp add: mother_draw_def mother_next_def Let_def n1_def n2_def)
  have a: "the (mwc_abs g) = (window (mother1 g) k, window (mother2 g) k)" using assms(2) g by (simp add: mwc_abs_window)
  show ?thesis unfolding a d using g len assms(2) by (simp add: r mwc_abs_window mwc_ok_def up w)
qed

text \<open>Seeding fills both windows.\<close>


lemma m16Mask_ucast: "ucast (ucast number :: u16) = number AND m16Mask"
proof -
  have m: "m16Mask = mask 16" by (simp add: m16Mask_def mask_eq_exp_minus_1)
  show ?thesis unfolding m by (auto intro!: bit_word_eqI simp: bit_simps)
qed

lemma length_seed_numbers [simp]: "length (seed_numbers n number) = n"
  by (induction n number rule: seed_numbers.induct) (simp_all add: Let_def)

lemma take_update_Suc: "i < length xs \<Longrightarrow> take (Suc i) (xs[i := v]) = take i xs @ [v]"
  by (simp add: take_Suc_conv_app_nth)

lemma srand_loop_second:
  "i + n = 18 \<Longrightarrow> 9 \<le> i \<Longrightarrow> length (mother2 g) = 18 \<Longrightarrow>
    srand_loop n (True, i) number (ucast (number AND m16Mask)) g
      = g\<lparr>mother2 := take i (mother2 g) @ seed_numbers n number\<rparr>"
proof (induction n arbitrary: i number g)
  case (Suc n)
  define number' where "number' = 30903 * (number AND m16Mask) + drop_bit 16 number"
  have "srand_loop n (True, Suc i) number' (ucast (number' AND m16Mask)) (g\<lparr>mother2 := (mother2 g)[i := ucast number']\<rparr>)
    = g\<lparr>mother2 := take (Suc i) ((mother2 g)[i := ucast number']) @ seed_numbers n number'\<rparr>"
    using Suc.IH [of "Suc i" "g\<lparr>mother2 := (mother2 g)[i := ucast number']\<rparr>" number'] Suc.prems by simp
  then show ?case using Suc.prems
    by (simp add: Let_def m16Mask_ucast ucast_m16Mask take_update_Suc flip: number'_def)
qed simp

lemma srand_loop_first:
  "i + Suc j = 18 \<Longrightarrow> length (mother1 g) = 18 \<Longrightarrow> length (mother2 g) = 18 \<Longrightarrow>
    srand_loop (10 + j) (False, i) number (ucast (number AND m16Mask)) g
      = g\<lparr>mother1 := take i (mother1 g) @ take (Suc j) (seed_numbers (10 + j) number),
          mother2 := take 9 (mother2 g) @ drop (Suc j) (seed_numbers (10 + j) number)\<rparr>"
proof (induction j arbitrary: i number g)
  case 0
  define number' where "number' = 30903 * (number AND m16Mask) + drop_bit 16 number"
  have ten: "10 + 0 = Suc 9" by simp
  have i: "i = 17" using 0 by simp
  show ?case unfolding ten srand_loop.simps(2) seed_numbers.simps(2) using srand_loop_second [of 9 9 "g\<lparr>mother1 := (mother1 g)[17 := ucast number']\<rparr>" number'] 0(2,3)
      take_update_Suc [of 17 "mother1 g" "ucast number'"]
    by (simp add: i Let_def m16Mask_ucast ucast_m16Mask flip: number'_def)
next
  case (Suc j)
  define number' where "number' = 30903 * (number AND m16Mask) + drop_bit 16 number"
  have eq: "10 + Suc j = Suc (10 + j)" by simp
  have "srand_loop (10 + j) (False, Suc i) number' (ucast (number' AND m16Mask)) (g\<lparr>mother1 := (mother1 g)[i := ucast number']\<rparr>)
    = g\<lparr>mother1 := take (Suc i) ((mother1 g)[i := ucast number']) @ take (Suc j) (seed_numbers (10 + j) number'),
        mother2 := take 9 (mother2 g) @ drop (Suc j) (seed_numbers (10 + j) number')\<rparr>"
    using Suc.IH [of "Suc i" "g\<lparr>mother1 := (mother1 g)[i := ucast number']\<rparr>" number'] Suc.prems by simp
  then show ?case unfolding eq srand_loop.simps(2) seed_numbers.simps(2) using Suc.prems
    by (simp add: Let_def m16Mask_ucast ucast_m16Mask take_update_Suc flip: number'_def)
qed

lemma srand_mwc2_seeds:
  assumes "mwc_ok g"
  shows "mwc_abs (srand_mwc2 seed g) = Some (mother_seed seed) \<and> mwc_ok (srand_mwc2 seed g)"
proof -
  have len: "length (mother1 g) = 18" "length (mother2 g) = 18" using assms by (simp_all add: mwc_ok_def)
  define xs where "xs = seed_numbers 18 seed"
  have xs: "length xs = 18" by (simp add: xs_def)
  have s: "srand_mwc2 seed g =
    g\<lparr>mother1 := take 9 (mother1 g) @ take 9 xs, mother2 := take 9 (mother2 g) @ drop 9 xs, mStart := 0, m1 := 9, m2 := 9\<rparr>"
    using srand_loop_first [of 9 8 g seed] len by (simp add: srand_mwc2_def xs_def)
  show ?thesis unfolding s using len xs
    by (simp add: mwc_ok_def mwc_abs_def mother_seed_def nth_append take_drop xs_def [symmetric])
qed

text \<open>Under every sequence of seedings and draws from the boot state, the generator with the moving windows gives the numbers
  of the one that moves every number at every draw, and zero before the first seeding.\<close>

theorem rand_mwc_refines: "outputs mwc_step ops mwc_boot = outputs mother_step ops None"
proof (rule outputs_simulation [where R = "\<lambda>g s. mwc_ok g \<and> mwc_abs g = s"])
  show "mwc_ok mwc_boot \<and> mwc_abs mwc_boot = None" by (simp add: mwc_ok_def mwc_abs_def mwc_boot_def)
next
  fix p g s assume gs: "mwc_ok g \<and> mwc_abs g = s"
  show "fst (mwc_step p g) = fst (mother_step p s)
    \<and> mwc_ok (snd (mwc_step p g)) \<and> mwc_abs (snd (mwc_step p g)) = snd (mother_step p s)"
  proof (cases p)
    case (Seed seed)
    then show ?thesis using gs srand_mwc2_seeds [of g seed] by (simp add: srand_mwc_def)
  next
    case Draw
    show ?thesis
    proof (cases "mStart g = 0")
      case True
      then show ?thesis using Draw gs rand_mwc_draws [of g] by (cases s) (auto simp: split_def Let_def mwc_abs_None)
    next
      case False
      then have "s = None" using gs mwc_abs_None [of g] by auto
      then show ?thesis using Draw gs False by (simp add: rand_mwc_def)
    qed
  qed
qed

text \<open>The second combination is summed in ints and can exceed the largest one.\<close>

lemma mwc_number2_overflows: "\<exists>g. mwc_ok g \<and> mStart g = 0 \<and> 2147483647 < unat (mwc_number2 g)"
  by (rule exI [where x = "\<lparr>mother1 = replicate 18 0, mother2 = replicate 18 0xFFFF, m1 = 0, m2 = 0, mStart = 0\<rparr>"])
    (simp add: mwc_ok_def mwc_number2_def)

end
