(* ===== verification/Guest_Aes.thy ===== *)
theory Guest_Aes
  imports Guest_Mwc
begin

text \<open>
  Encryption in the trusted guest, \<open>guests/trusted/src/aescbc.c\<close>: AES in CBC mode with ciphertext
  stealing over buffers in memory, and the two operations that take the key as hexadecimal digits. The
  block cipher is a parameter: \<open>aes_enc key\<close> and \<open>aes_dec key\<close> stand for \<open>aes_encrypt\<close> and
  \<open>aes_decrypt\<close> with the context made from the key bytes.
\<close>

section \<open>Buffers\<close>

text \<open>A pointer is modelled by the bytes found at each offset from it, those behind the end of the object included; the
  pointers of one call point into different objects.\<close>

definition bytes_of :: "mem \<Rightarrow> u32 \<Rightarrow> nat \<Rightarrow> u8 list" where
  "bytes_of p off n = map (\<lambda>i. p (off + of_nat i)) [0..<n]"

definition put_bytes :: "mem \<Rightarrow> u32 \<Rightarrow> u8 list \<Rightarrow> mem" where
  "put_bytes p off bs = (\<lambda>a. if unat (a - off) < length bs then bs ! unat (a - off) else p a)"

text \<open>\<open>for(i = 0; i < n; ++i) a[i] ^= b[i]\<close>\<close>

definition xor_upto :: "nat \<Rightarrow> u8 list \<Rightarrow> u8 list \<Rightarrow> u8 list" where
  "xor_upto n a b = map (\<lambda>i. if i < n then a ! i XOR b ! i else a ! i) [0..<length a]"

definition BLOCK_LEN :: u32 where "BLOCK_LEN = 16"
definition OK :: u32 where "OK = 0"

section \<open>Random bytes and keys\<close>

fun rand_bytes :: "nat \<Rightarrow> mwc \<Rightarrow> u8 list \<times> mwc" where
  "rand_bytes 0 g = ([], g)"
| "rand_bytes (Suc len) g =
     (let (v, g) = rand_mwc g; (vs, g) = rand_bytes len g in (ucast (v mod 256) # vs, g))"

text \<open>\<open>srand_mwc\<close> is called without its argument, so \<open>seed\<close> is whatever the argument register holds.\<close>

definition fillrand :: "u32 \<Rightarrow> nat \<Rightarrow> mwc \<Rightarrow> u8 list \<times> mwc" where
  "fillrand seed len g = rand_bytes len (srand_mwc seed g)"

fun key_digits :: "nat \<Rightarrow> mwc \<Rightarrow> u8 list \<times> mwc" where
  "key_digits 0 g = ([], g)"
| "key_digits (Suc n) g =
     (let (v, g) = rand_mwc g; tmp = v mod 16; ch = (if sint tmp < 10 then tmp + 48 else tmp + 55);
          (vs, g) = key_digits n g in (ucast ch # vs, g))"

definition generateAESKey :: "mwc \<Rightarrow> u8 list \<times> mwc" where
  "generateAESKey g = key_digits 32 g"

section \<open>Encryption\<close>

text \<open>A round that reads a whole block leaves less to read.\<close>

lemma enc_rest_less: "(if w < BLOCK_LEN then w else BLOCK_LEN) = BLOCK_LEN \<Longrightarrow> unat (w - BLOCK_LEN) < unat w"
proof -
  assume a: "(if w < BLOCK_LEN then w else BLOCK_LEN) = BLOCK_LEN"
  have "\<not> w < BLOCK_LEN" using a by (auto split: if_splits)
  then have "16 \<le> unat w" by (simp add: BLOCK_LEN_def word_less_nat_alt)
  then show ?thesis by (simp add: BLOCK_LEN_def unat_sub word_le_nat_alt)
qed

lemma dec_rest_less:
  "(if sint w < 16 then w else BLOCK_LEN) = BLOCK_LEN \<Longrightarrow> nat (sint (w - BLOCK_LEN)) < nat (sint w)"
proof -
  assume a: "(if sint w < 16 then w else BLOCK_LEN) = BLOCK_LEN"
  have w: "16 \<le> sint w" using a by (cases "sint w < 16") (simp_all add: BLOCK_LEN_def)
  then have "0 \<le> sint w" by linarith
  then have "unat w < 2147483648" by (simp only: sint_nonneg_u32)
  moreover from this have "16 \<le> unat w" using w sint_eq_unat [of w] by linarith
  ultimately have "unat (w - BLOCK_LEN) = unat w - 16" "unat (w - BLOCK_LEN) < 2147483648"
    by (simp_all add: BLOCK_LEN_def unat_sub word_le_nat_alt)
  then have "sint (w - BLOCK_LEN) = int (unat w - 16)" by (simp only: sint_eq_unat)
  moreover have "sint w = int (unat w)" using \<open>unat w < 2147483648\<close> by (rule sint_eq_unat)
  ultimately show ?thesis using \<open>16 \<le> unat w\<close> by linarith
qed

lemma dec_step_less:
  assumes "(if sint (n - r - BLOCK_LEN + BLOCK_LEN * 2) < 16 then n - r - BLOCK_LEN + BLOCK_LEN * 2 else BLOCK_LEN) = BLOCK_LEN"
  shows "nat (sint (n - (r + BLOCK_LEN) - BLOCK_LEN + BLOCK_LEN * 2)) < nat (sint (n - r - BLOCK_LEN + BLOCK_LEN * 2))"
proof -
  have "n - (r + BLOCK_LEN) - BLOCK_LEN + BLOCK_LEN * 2 = n - r - BLOCK_LEN + BLOCK_LEN * 2 - BLOCK_LEN" by simp
  then show ?thesis using dec_rest_less [OF assms] by (simp only:)
qed

text \<open>One round of the loop, for the \<open>len\<close> bytes that are read.\<close>

definition encfile_body :: "(u8 list \<Rightarrow> u8 list) \<Rightarrow> mem \<Rightarrow> u32 \<Rightarrow> u32 \<Rightarrow> u32 \<Rightarrow> u8 list \<Rightarrow> u8 list \<Rightarrow> u8 list \<Rightarrow> u32 \<Rightarrow> mem
    \<Rightarrow> u8 list \<times> u8 list \<times> u32 \<times> u32 \<times> mem" where
  "encfile_body aes_encrypt message readBlockPointer writeBlockPointer len b1 b2 b3 wlen encrypted =
     (let b3 = bytes_of message readBlockPointer (unat len) @ drop (unat len) b3;
          b1 = aes_encrypt (xor_upto 16 b1 b2);
          (b3, wlen, encrypted, writeBlockPointer) =
            (if len \<noteq> 0 \<and> len \<noteq> BLOCK_LEN
             then let b3 = xor_upto (unat len) b3 b1;
                      b3 = take (unat len) b3 @ drop (unat len) b1;
                      b3 = aes_encrypt b3
                  in (b3, len, put_bytes encrypted writeBlockPointer b3, writeBlockPointer + BLOCK_LEN)
             else (b3, wlen, encrypted, writeBlockPointer));
          encrypted = put_bytes encrypted writeBlockPointer (take (unat wlen) b1)
      in (b1, b3, wlen, writeBlockPointer + BLOCK_LEN, encrypted))"

function encfile_loop :: "(u8 list \<Rightarrow> u8 list) \<Rightarrow> mem \<Rightarrow> u32 \<Rightarrow> u32 \<Rightarrow> u32 \<Rightarrow> u8 list \<Rightarrow> u8 list \<Rightarrow> u8 list \<Rightarrow> u32 \<Rightarrow> mem \<Rightarrow> mem" where
  "encfile_loop aes_encrypt message nbytes readBlockPointer writeBlockPointer b1 b2 b3 wlen encrypted =
     (let len = (if nbytes - readBlockPointer < BLOCK_LEN then nbytes - readBlockPointer else BLOCK_LEN);
          (b1, b3, wlen, writeBlockPointer, encrypted) =
            encfile_body aes_encrypt message readBlockPointer writeBlockPointer len b1 b2 b3 wlen encrypted
      in if len \<noteq> BLOCK_LEN then encrypted
         else encfile_loop aes_encrypt message nbytes (readBlockPointer + BLOCK_LEN) writeBlockPointer b3 b1 b2 wlen encrypted)"
  by pat_completeness auto

termination
  by (relation "measure (\<lambda>(f, message, nbytes, rbp, _). unat (nbytes - rbp))")
    (use enc_rest_less in \<open>auto simp: diff_diff_eq [symmetric]\<close>)

declare encfile_loop.simps [simp del]

definition encfile :: "(u8 list \<Rightarrow> u8 list) \<Rightarrow> u32 \<Rightarrow> u8 list \<Rightarrow> mem \<Rightarrow> mem \<Rightarrow> u32 \<Rightarrow> mwc \<Rightarrow> u32 \<times> mem \<times> mwc" where
  "encfile aes_encrypt seed dbuf encrypted message nbytes g =
     (let (iv, g) = fillrand seed 16 g;
          dbuf = iv @ drop 16 dbuf;
          len = (if nbytes < BLOCK_LEN then nbytes else BLOCK_LEN);
          dbuf = take 16 dbuf @ bytes_of message 0 (unat len) @ drop (16 + unat len) dbuf
      in if len < BLOCK_LEN
         then let dbuf = take 16 dbuf @ xor_upto (unat len) (drop 16 dbuf) (take 16 dbuf);
                  dbuf = take (unat len) dbuf @ aes_encrypt (take 16 (drop (unat len) dbuf)) @ drop (unat len + 16) dbuf;
                  len = len + BLOCK_LEN
              in (OK, put_bytes encrypted 0 (take (unat len) dbuf), g)
         else let encrypted = put_bytes encrypted 0 (take 16 dbuf)
              in (OK, encfile_loop aes_encrypt message nbytes BLOCK_LEN BLOCK_LEN
                   (take 16 dbuf) (take 16 (drop 16 dbuf)) (drop 32 dbuf) BLOCK_LEN encrypted, g))"

section \<open>Decryption\<close>

text \<open>One round of the loop; \<open>buf\<close> is overwritten by the decryption of \<open>b2\<close>.\<close>

definition decfile_body :: "(u8 list \<Rightarrow> u8 list) \<Rightarrow> mem \<Rightarrow> u32 \<Rightarrow> u32 \<Rightarrow> u32 \<Rightarrow> u8 list \<Rightarrow> u8 list \<Rightarrow> u8 list \<Rightarrow> u32 \<Rightarrow> mem
    \<Rightarrow> u8 list \<times> u32 \<times> u32 \<times> mem" where
  "decfile_body aes_decrypt encrypted readBlockPointer writeBlockPointer len b1 b2 b3 wlen decrypted =
     (let b3 = bytes_of encrypted readBlockPointer (unat len) @ drop (unat len) b3;
          buf = aes_decrypt b2;
          (b3, buf, wlen, decrypted, writeBlockPointer) =
            (if len = 0 \<or> len = BLOCK_LEN
             then (b3, xor_upto 16 buf b1, wlen, decrypted, writeBlockPointer)
             else let buf = xor_upto (unat len) buf b3;
                      b3 = take (unat len) b3 @ drop (unat len) buf;
                      b3 = aes_decrypt b3;
                      b3 = xor_upto 16 b3 b1
                  in (b3, buf, len, put_bytes decrypted writeBlockPointer b3, writeBlockPointer + BLOCK_LEN));
          decrypted = put_bytes decrypted writeBlockPointer (take (unat wlen) buf)
      in (b3, wlen, writeBlockPointer + BLOCK_LEN, decrypted))"

text \<open>\<open>None\<close> stands for a copy that runs over the block buffer, which a length that is negative as an int leads to.\<close>

function decfile_loop :: "(u8 list \<Rightarrow> u8 list) \<Rightarrow> mem \<Rightarrow> u32 \<Rightarrow> u32 \<Rightarrow> u32 \<Rightarrow> u8 list \<Rightarrow> u8 list \<Rightarrow> u8 list \<Rightarrow> u32 \<Rightarrow> mem \<Rightarrow> mem option" where
  "decfile_loop aes_decrypt encrypted nbytes readBlockPointer writeBlockPointer b1 b2 b3 wlen decrypted =
     (let nBytesLeft = nbytes - readBlockPointer - BLOCK_LEN + BLOCK_LEN * 2;
          len = (if sint nBytesLeft < 16 then nBytesLeft else BLOCK_LEN);
          (b3, wlen, writeBlockPointer, decrypted) =
            decfile_body aes_decrypt encrypted readBlockPointer writeBlockPointer len b1 b2 b3 wlen decrypted
      in if BLOCK_LEN < len then None
         else if len \<noteq> BLOCK_LEN then Some decrypted
         else decfile_loop aes_decrypt encrypted nbytes (readBlockPointer + BLOCK_LEN) writeBlockPointer b2 b3 b1 wlen decrypted)"
  by pat_completeness auto

termination
  by (relation "measure (\<lambda>(f, encrypted, nbytes, rbp, _). nat (sint (nbytes - rbp - BLOCK_LEN + BLOCK_LEN * 2)))")
    (simp_all only: wf_measure in_measure split_conv not_not, rule dec_step_less, simp only:)

declare decfile_loop.simps [simp del]

definition decfile :: "(u8 list \<Rightarrow> u8 list) \<Rightarrow> u8 list \<Rightarrow> mem \<Rightarrow> mem \<Rightarrow> u32 \<Rightarrow> (u32 \<times> mem) option" where
  "decfile aes_decrypt dbuf encrypted decrypted nbytes =
     (let len = (if nbytes < BLOCK_LEN then nbytes + BLOCK_LEN else 2 * BLOCK_LEN);
          dbuf = bytes_of encrypted 0 (unat len) @ drop (unat len) dbuf
      in if len < 2 * BLOCK_LEN
         then let len = len - BLOCK_LEN;
                  dbuf = take (unat len) dbuf @ aes_decrypt (take 16 (drop (unat len) dbuf)) @ drop (unat len + 16) dbuf;
                  dbuf = xor_upto (unat len) dbuf (drop 16 dbuf)
              in Some (OK, put_bytes decrypted 0 (take (unat len) dbuf))
         else map_option (\<lambda>decrypted. (OK, decrypted))
                (decfile_loop aes_decrypt encrypted nbytes (BLOCK_LEN * 2) 0
                   (take 16 dbuf) (take 16 (drop 16 dbuf)) (drop 32 dbuf) BLOCK_LEN decrypted))"

section \<open>The operations with a hexadecimal key\<close>

text \<open>The value of a digit as the code computes it, from the character \<open>toupper\<close> gives.\<close>

definition key_digit :: "u8 \<Rightarrow> u32 option" where
  "key_digit c =
     (let ch = ucast (toupper c) :: u8 in
        if 0x30 \<le> ch \<and> ch \<le> 0x39 then Some (ucast ch - 0x30)
        else if 0x41 \<le> ch \<and> ch \<le> 0x46 then Some (ucast ch - 0x41 + 10)
        else None)"

text \<open>The loop over the digits: \<open>Inl\<close> when one is none, else the number of digits, the key bytes and where it stopped.\<close>

function key_loop :: "mem \<Rightarrow> u32 \<Rightarrow> nat \<Rightarrow> u32 \<Rightarrow> u8 list \<Rightarrow> unit + nat \<times> u8 list \<times> u32" where
  "key_loop sessionKey p i byt key =
     (if i < 64 \<and> sessionKey p \<noteq> 0
      then case key_digit (sessionKey p) of
             None \<Rightarrow> Inl ()
           | Some v \<Rightarrow> let byt = push_bit 4 byt + v
                      in key_loop sessionKey (p + 1) (Suc i) byt (if odd i then key @ [ucast (byt AND 0xFF)] else key)
      else Inr (i, key, p))"
  by pat_completeness auto

termination
  by (relation "measure (\<lambda>(s, p, i, byt, key). 64 - i)") auto

declare key_loop.simps [simp del]

text \<open>\<open>block\<close> is what the memory held that \<open>malloc\<close> returns for the copy of the message.\<close>

definition aesEncrypt :: "(u8 list \<Rightarrow> u8 list \<Rightarrow> u8 list) \<Rightarrow> u32 \<Rightarrow> u8 list \<Rightarrow> mem \<Rightarrow> mem \<Rightarrow> mem \<Rightarrow> mem \<Rightarrow> mwc
    \<Rightarrow> (u32 \<times> mem \<times> mwc) option" where
  "aesEncrypt aes_enc seed dbuf block sessionKey data encrypted g =
     Option.bind (strlen data 0) (\<lambda>n.
       let nbytes = of_nat n; message = put_bytes block 0 (bytes_of data 0 (unat nbytes))
       in case key_loop sessionKey 0 0 0 [] of
            Inl _ \<Rightarrow> Some (- 1, encrypted, g)
          | Inr (i, key, p) \<Rightarrow>
              if sessionKey p \<noteq> 0 then Some (- 2, encrypted, g)
              else if i < 32 \<or> i mod 16 \<noteq> 0 then Some (- 3, encrypted, g)
              else Some (encfile (aes_enc key) seed dbuf encrypted message nbytes g))"

definition aesDecrypt :: "(u8 list \<Rightarrow> u8 list \<Rightarrow> u8 list) \<Rightarrow> u8 list \<Rightarrow> mem \<Rightarrow> mem \<Rightarrow> mem \<Rightarrow> u32 \<Rightarrow> (u32 \<times> mem) option" where
  "aesDecrypt aes_dec dbuf sessionKey data decrypted nbytes =
     (case key_loop sessionKey 0 0 0 [] of
        Inl _ \<Rightarrow> Some (- 2, decrypted)
      | Inr (i, key, p) \<Rightarrow>
          if sessionKey p \<noteq> 0 then Some (- 3, decrypted)
          else if i < 32 \<or> i mod 16 \<noteq> 0 then Some (- 4, decrypted)
          else decfile (aes_dec key) dbuf data decrypted nbytes)"

section \<open>Buffers: reading and writing\<close>

lemma length_bytes_of [simp]: "length (bytes_of p off n) = n"
  by (simp add: bytes_of_def)

lemma bytes_of_eq_Nil [simp]: "bytes_of p off n = [] \<longleftrightarrow> n = 0"
  by (simp add: bytes_of_def)

lemma bytes_of_0 [simp]: "bytes_of p off 0 = []"
  by simp

lemma nth_bytes_of [simp]: "i < n \<Longrightarrow> bytes_of p off n ! i = p (off + of_nat i)"
  by (simp add: bytes_of_def)

lemma length_xor_upto [simp]: "length (xor_upto n a b) = length a"
  by (simp add: xor_upto_def)

lemma bytes_of_add: "bytes_of p off (n + k) = bytes_of p off n @ bytes_of p (off + of_nat n) k"
  by (rule nth_equalityI) (auto simp: nth_append algebra_simps of_nat_diff)

lemma take_bytes_of: "k \<le> n \<Longrightarrow> take k (bytes_of p off n) = bytes_of p off k"
  by (rule nth_equalityI) auto

lemma drop_bytes_of: "k \<le> n \<Longrightarrow> drop k (bytes_of p off n) = bytes_of p (off + of_nat k) (n - k)"
  by (rule nth_equalityI) (auto simp: add.assoc)

lemma put_bytes_append:
  assumes "length xs + length ys \<le> 4294967296"
  shows "put_bytes (put_bytes p off xs) (off + of_nat (length xs)) ys = put_bytes p off (xs @ ys)"
proof
  fix a
  have d: "unat (a - (off + of_nat (length xs))) = unat (a - off) - length xs"
    if "length xs \<le> unat (a - off)"
  proof -
    have "length xs < 4294967296" using that unat_u32_less [of "a - off"] by linarith
    moreover have "a - (off + of_nat (length xs)) = (a - off) - of_nat (length xs)" by simp
    ultimately show ?thesis using that by (simp only:) (simp add: unat_sub word_le_nat_alt)
  qed
  have o: "unat (a - (off + of_nat (length xs))) < length ys \<longleftrightarrow> length xs \<le> unat (a - off) \<and> unat (a - off) < length xs + length ys"
    using assms by (rule unat_off)
  show "put_bytes (put_bytes p off xs) (off + of_nat (length xs)) ys a = put_bytes p off (xs @ ys) a"
    unfolding put_bytes_def o using d by (auto simp: nth_append)
qed

lemma bytes_of_put_bytes:
  assumes "length bs \<le> 4294967296" "k + n \<le> length bs"
  shows "bytes_of (put_bytes p off bs) (off + of_nat k) n = take n (drop k bs)"
proof (rule nth_equalityI)
  show "length (bytes_of (put_bytes p off bs) (off + of_nat k) n) = length (take n (drop k bs))" using assms(2) by simp
next
  fix i assume "i < length (bytes_of (put_bytes p off bs) (off + of_nat k) n)"
  then have i: "i < n" by simp
  then have "k + i < 4294967296" using assms by linarith
  moreover have "off + of_nat k + of_nat i - off = (of_nat (k + i) :: u32)" by simp
  ultimately have "unat (off + of_nat k + of_nat i - off) = k + i" by (simp only: unat_of_nat_u32)
  then show "bytes_of (put_bytes p off bs) (off + of_nat k) n ! i = take n (drop k bs) ! i"
    using i assms(2) by (simp add: put_bytes_def)
qed

section \<open>Ciphertext stealing on lists\<close>

abbreviation xor_bytes :: "u8 list \<Rightarrow> u8 list \<Rightarrow> u8 list" where
  "xor_bytes a b \<equiv> map2 (XOR) a b"

lemma xor_upto_append: "length a = n \<Longrightarrow> n \<le> length b \<Longrightarrow> xor_upto n (a @ c) b = xor_bytes a b @ c"
  by (rule nth_equalityI) (auto simp: xor_upto_def nth_append)

lemma xor_upto_all: "length a = n \<Longrightarrow> n \<le> length b \<Longrightarrow> xor_upto n a b = xor_bytes a b"
  using xor_upto_append [of a n b "[]"] by simp

lemma xor_cancel: "(x XOR y) XOR x = (y :: u8)" "(x XOR y) XOR y = x"
  by (rule bit_word_eqI; auto simp: bit_simps)+

lemma xor_bytes_cancel:
  "length a = length b \<Longrightarrow> xor_bytes (xor_bytes a b) a = b" "length a = length b \<Longrightarrow> xor_bytes (xor_bytes a b) b = a"
  by (rule nth_equalityI; simp add: xor_cancel)+

text \<open>What is written for the block \<open>x\<close>, chained already, and the rest \<open>r\<close> of the message.\<close>

function cts :: "(u8 list \<Rightarrow> u8 list) \<Rightarrow> u8 list \<Rightarrow> u8 list \<Rightarrow> u8 list" where
  "cts E x r =
     (let y = E x in
        if r = [] then y
        else if length r < 16 then E (xor_bytes r y @ drop (length r) y) @ take (length r) y
        else y @ cts E (xor_bytes (take 16 r) y) (drop 16 r))"
  by pat_completeness auto

termination
  by (relation "measure (\<lambda>(E, x, r). length r)") auto

declare cts.simps [simp del]

lemma length_cts: "(\<And>b. length b = 16 \<Longrightarrow> length (E b) = 16) \<Longrightarrow> length x = 16 \<Longrightarrow> length (cts E x r) = 16 + length r"
proof (induction E x r rule: cts.induct)
  case (1 E x r)
  then show ?case by (subst cts.simps) (auto simp: Let_def)
qed

text \<open>A message shorter than a block is encrypted together with the end of the initial vector.\<close>

definition cbc_cts :: "(u8 list \<Rightarrow> u8 list) \<Rightarrow> u8 list \<Rightarrow> u8 list \<Rightarrow> u8 list" where
  "cbc_cts E iv msg =
     (if length msg < 16
      then take (length msg) iv @ E (drop (length msg) iv @ xor_bytes msg iv)
      else iv @ cts E (xor_bytes iv (take 16 msg)) (drop 16 msg))"

text \<open>The loop of \<open>encfile\<close> appends it to what is written.\<close>

lemma encfile_loop_cts:
  assumes E: "\<And>b. length b = 16 \<Longrightarrow> length (E b) = 16"
  shows "length b1 = 16 \<Longrightarrow> length b2 = 16 \<Longrightarrow> length b3 = 16 \<Longrightarrow> unat (nbytes - rbp) + 16 \<le> 4294967296 \<Longrightarrow>
    encfile_loop E message nbytes rbp wbp b1 b2 b3 16 enc
      = put_bytes enc wbp (cts E (xor_bytes b1 b2) (bytes_of message rbp (unat (nbytes - rbp))))"
proof (induction "unat (nbytes - rbp)" arbitrary: rbp wbp b1 b2 b3 enc rule: less_induct)
  case less
  define n where "n = unat (nbytes - rbp)"
  define r where "r = bytes_of message rbp n"
  define y where "y = E (xor_bytes b1 b2)"
  have y: "length y = 16" unfolding y_def using less.prems by (intro E) simp
  have x: "xor_upto 16 b1 b2 = xor_bytes b1 b2" using less.prems by (intro xor_upto_all) simp_all
  have r: "length r = n" by (simp add: r_def)
  show ?case
  proof (cases "n < 16")
    case small: True
    then have lt: "nbytes - rbp < BLOCK_LEN" by (simp add: n_def BLOCK_LEN_def word_less_nat_alt)
    show ?thesis
    proof (cases "n = 0")
      case True
      then have z: "nbytes - rbp = 0" unfolding n_def by (simp only: unat_eq_zero)
      then show ?thesis using y by (subst encfile_loop.simps, subst cts.simps)
        (simp add: encfile_body_def x y_def [symmetric] BLOCK_LEN_def r_def)
    next
      case False
      define z where "z = E (xor_bytes r y @ drop n y)"
      have z: "length z = 16" unfolding z_def using r y small by (intro E) simp
      have nz: "nbytes - rbp \<noteq> 0" using False unfolding n_def by (metis unat_0)
      have steal: "xor_upto n (r @ drop n b3) y = xor_bytes r y @ drop n b3"
        using r y small by (intro xor_upto_append) simp_all
      have tk: "take n (xor_bytes r y @ drop n b3) = xor_bytes r y" using r y small by simp
      have body: "encfile_body E message rbp wbp (nbytes - rbp) b1 b2 b3 16 enc
        = (y, z, nbytes - rbp, wbp + 16 + 16, put_bytes (put_bytes enc wbp z) (wbp + 16) (take n y))"
        using lt nz by (simp add: encfile_body_def x BLOCK_LEN_def n_def [symmetric] r_def [symmetric] y_def [symmetric]
          steal tk z_def [symmetric] Let_def less_imp_neq del: take_append)
      have "put_bytes (put_bytes enc wbp z) (wbp + 16) (take n y) = put_bytes enc wbp (z @ take n y)"
        using put_bytes_append [of z "take n y" enc wbp] z y by simp
      moreover have "cts E (xor_bytes b1 b2) r = z @ take n y"
        using False small r by (subst cts.simps) (auto simp: y_def [symmetric] z_def)
      ultimately show ?thesis unfolding n_def [symmetric] r_def [symmetric]
        by (subst encfile_loop.simps) (use lt in \<open>simp add: body Let_def less_imp_neq\<close>)
    qed
  next
    case False
    then have ge: "\<not> nbytes - rbp < BLOCK_LEN" by (simp add: n_def BLOCK_LEN_def word_less_nat_alt)
    have n': "unat (nbytes - (rbp + 16)) = n - 16"
      using False by (simp add: n_def diff_diff_eq [symmetric] unat_sub word_le_nat_alt)
    have body: "encfile_body E message rbp wbp BLOCK_LEN b1 b2 b3 16 enc
      = (y, bytes_of message rbp 16, 16, wbp + 16, put_bytes enc wbp y)"
      using less.prems y by (simp add: encfile_body_def x BLOCK_LEN_def y_def [symmetric])
    have st: "encfile_loop E message nbytes rbp wbp b1 b2 b3 16 enc
      = encfile_loop E message nbytes (rbp + 16) (wbp + 16) (bytes_of message rbp 16) y b2 16 (put_bytes enc wbp y)"
      by (subst encfile_loop.simps) (use ge in \<open>simp add: body [unfolded BLOCK_LEN_def] Let_def BLOCK_LEN_def\<close>)
    have IH: "encfile_loop E message nbytes (rbp + 16) (wbp + 16) (bytes_of message rbp 16) y b2 16 (put_bytes enc wbp y)
      = put_bytes (put_bytes enc wbp y) (wbp + 16) (cts E (xor_bytes (bytes_of message rbp 16) y) (bytes_of message (rbp + 16) (n - 16)))"
      using False less.prems y unfolding n' [symmetric] by (intro less.hyps) (simp_all add: n' n_def [symmetric])
    have l: "length (cts E (xor_bytes (bytes_of message rbp 16) y) (bytes_of message (rbp + 16) (n - 16))) = n"
      using length_cts [of E "xor_bytes (bytes_of message rbp 16) y" "bytes_of message (rbp + 16) (n - 16)"] E y False by simp
    have "cts E (xor_bytes b1 b2) r = y @ cts E (xor_bytes (bytes_of message rbp 16) y) (bytes_of message (rbp + 16) (n - 16))"
      using False by (subst cts.simps) (simp add: y_def [symmetric] r_def take_bytes_of drop_bytes_of Let_def)
    then show ?thesis unfolding st IH n_def [symmetric] r_def [symmetric]
      using put_bytes_append [of y "cts E (xor_bytes (bytes_of message rbp 16) y) (bytes_of message (rbp + 16) (n - 16))" enc wbp]
        l y less.prems(4) by (simp add: n_def)
  qed
qed


lemma length_rand_bytes [simp]: "length (fst (rand_bytes n g)) = n"
  by (induction n arbitrary: g) (auto simp: split_def Let_def)

lemma length_fillrand [simp]: "length (fst (fillrand seed n g)) = n"
  by (simp add: fillrand_def)

lemma encfile_cts:
  assumes E: "\<And>b. length b = 16 \<Longrightarrow> length (E b) = 16"
    and dbuf: "length dbuf = 48" and n: "unat nbytes + 16 \<le> 4294967296"
  shows "encfile E seed dbuf enc message nbytes g
    = (OK, put_bytes enc 0 (cbc_cts E (fst (fillrand seed 16 g)) (bytes_of message 0 (unat nbytes))), snd (fillrand seed 16 g))"
proof -
  define iv where "iv = fst (fillrand seed 16 g)"
  define g' where "g' = snd (fillrand seed 16 g)"
  define msg where "msg = bytes_of message 0 (unat nbytes)"
  have fr: "fillrand seed 16 g = (iv, g')" by (simp add: iv_def g'_def)
  have iv: "length iv = 16" by (simp add: iv_def)
  show ?thesis
  proof (cases "nbytes < BLOCK_LEN")
    case True
    then have lt: "unat nbytes < 16" by (simp add: BLOCK_LEN_def word_less_nat_alt)
    define k where "k = unat nbytes"
    define tl where "tl = drop (16 + k) dbuf"
    have l: "length msg = k" "k < 16" using lt by (simp_all add: msg_def k_def)
    have tl: "drop (16 + k) (iv @ drop 16 dbuf) = tl" using iv by (simp add: tl_def add.commute)
    have d: "xor_upto k (msg @ tl) iv = xor_bytes msg iv @ tl" using iv l by (intro xor_upto_append) simp_all
    define w where "w = xor_bytes msg iv"
    have w: "length w = k" using l iv by (simp add: w_def)
    have b: "take k (iv @ w @ tl) = take k iv" "take 16 (drop k (iv @ w @ tl)) = drop k iv @ w" using iv w l by simp_all
    define e where "e = E (drop k iv @ w)"
    have e: "length e = 16" unfolding e_def using iv w l by (intro E) simp
    have len: "unat (nbytes + BLOCK_LEN) = k + 16" using lt by (simp add: BLOCK_LEN_def unat_word_ariths k_def)
    have dbuf1: "take 16 (iv @ drop 16 dbuf) @ msg @ drop (16 + k) (iv @ drop 16 dbuf) = iv @ msg @ tl"
      using iv unfolding tl by simp
    have dbuf2: "take 16 (iv @ msg @ tl) @ xor_upto k (drop 16 (iv @ msg @ tl)) (take 16 (iv @ msg @ tl)) = iv @ w @ tl"
      using iv d by (simp add: w_def)
    have cut: "take (k + 16) (take k iv @ e @ drop (k + 16) (iv @ w @ tl)) = take k iv @ e" using iv e l by simp
    have "encfile E seed dbuf enc message nbytes g = (OK, put_bytes enc 0 (take k iv @ e), g')"
      unfolding encfile_def Let_def fr split_conv if_P [OF True]
      unfolding len k_def [symmetric] msg_def [symmetric, folded k_def]
      by (simp only: dbuf1 dbuf2 b cut e_def [symmetric] if_P [OF True])
    then show ?thesis using lt l by (simp add: cbc_cts_def fr msg_def [symmetric] e_def w_def)
  next
    case False
    then have ge: "16 \<le> unat nbytes" by (simp add: BLOCK_LEN_def word_less_nat_alt)
    then have n': "unat (nbytes - 16) = unat nbytes - 16" by (simp add: unat_sub word_le_nat_alt)
    define c where "c = cts E (xor_bytes iv (take 16 msg)) (drop 16 msg)"
    have msg: "take 16 msg = bytes_of message 0 16" "drop 16 msg = bytes_of message 16 (unat nbytes - 16)"
      using ge by (simp_all add: msg_def take_bytes_of drop_bytes_of)
    have l: "length c = unat nbytes" unfolding c_def using E iv ge by (subst length_cts) (auto simp: msg_def)
    have loop: "encfile_loop E message nbytes 16 16 iv (bytes_of message 0 16) (drop 32 dbuf) 16 (put_bytes enc 0 iv)
      = put_bytes (put_bytes enc 0 iv) 16 c"
      unfolding c_def msg n' [symmetric] using iv dbuf n ge by (intro encfile_loop_cts E) (simp_all add: n')
    have "put_bytes (put_bytes enc 0 iv) 16 c = put_bytes enc 0 (iv @ c)"
      using put_bytes_append [of iv c enc 0] iv l n by simp
    then show ?thesis using False iv dbuf loop ge
      by (simp add: encfile_def fr Let_def BLOCK_LEN_def cbc_cts_def msg_def [symmetric] c_def [symmetric]) (simp add: msg_def)
  qed
qed

text \<open>The loop of \<open>decfile\<close> undoes it. The block \<open>x\<close> is what the decryption of \<open>b2\<close> gives.\<close>

lemma decfile_loop_cts:
  assumes E: "\<And>b. length b = 16 \<Longrightarrow> length (E b) = 16" and D: "\<And>b. length b = 16 \<Longrightarrow> D (E b) = b"
  shows "length x = 16 \<Longrightarrow> length b1 = 16 \<Longrightarrow> length b3 = 16 \<Longrightarrow> b2 = take 16 (cts E x r) \<Longrightarrow>
    nbytes - rbp - BLOCK_LEN + BLOCK_LEN * 2 = of_nat (length r) \<Longrightarrow> length r < 2147483648 \<Longrightarrow>
    bytes_of encd rbp (length r) = drop 16 (cts E x r) \<Longrightarrow>
    decfile_loop D encd nbytes rbp wbp b1 b2 b3 16 dec = Some (put_bytes dec wbp (xor_bytes x b1 @ r))"
proof (induction "length r" arbitrary: rbp wbp b1 b2 b3 x r dec rule: less_induct)
  case less
  define n where "n = length r"
  define y where "y = E x"
  have y: "length y = 16" "D y = x" using less.prems(1) by (simp_all add: y_def E D)
  have p: "xor_upto 16 x b1 = xor_bytes x b1" using less.prems by (intro xor_upto_all) simp_all
  have left: "nbytes - rbp - BLOCK_LEN + BLOCK_LEN * 2 = of_nat n" using less.prems(5) by (simp add: n_def)
  have n: "n < 2147483648" using less.prems(6) by (simp add: n_def)
  have s: "sint (of_nat n :: u32) = int n" using n by (rule sint_of_nat_u32)
  have un: "unat (of_nat n :: u32) = n" using n by simp
  consider "n = 0" | "0 < n" "n < 16" | "16 \<le> n" by linarith
  then show ?case
  proof cases
    case 1
    then have b2: "b2 = y" using less.prems(4) y by (simp add: cts.simps n_def y_def)
    have "length (xor_bytes x b1) = 16" "r = []" using 1 less.prems by (simp_all add: n_def)
    then show ?thesis using 1 p y
      by (subst decfile_loop.simps, simp only: Let_def left s)
        (simp add: decfile_body_def b2 BLOCK_LEN_def n_def [symmetric])
  next
    case 2
    define z where "z = xor_bytes r y @ drop n y"
    have lz: "length z = 16" using y 2 by (simp add: z_def n_def)
    have C: "cts E x r = E z @ take n y" using 2 by (subst cts.simps) (auto simp: y_def z_def n_def Let_def)
    have b2: "b2 = E z" using less.prems(4) lz C by (simp add: E)
    have rd: "bytes_of encd rbp n = take n y" using less.prems(7) lz C by (simp add: E n_def)
    have u1: "xor_upto n z (take n y @ drop n b3) = r @ drop n y"
    proof -
      have "xor_upto n z (take n y @ drop n b3) = xor_bytes (xor_bytes r y) (take n y @ drop n b3) @ drop n y"
        unfolding z_def using y 2 less.prems(3) by (intro xor_upto_append) (simp_all add: n_def)
      moreover have "xor_bytes (xor_bytes r y) (take n y @ drop n b3) = r"
        using y 2 by (intro nth_equalityI) (simp_all add: n_def nth_append xor_cancel)
      ultimately show ?thesis by simp
    qed
    have body: "decfile_body D encd rbp wbp (of_nat n) b1 b2 b3 16 dec
      = (xor_bytes x b1, of_nat n, wbp + 16 + 16, put_bytes (put_bytes dec wbp (xor_bytes x b1)) (wbp + 16) r)"
    proof -
      have ne: "(of_nat n :: u32) \<noteq> 0" "(of_nat n :: u32) \<noteq> 16"
        unfolding word_unat_eq_iff un using 2 by simp_all
      have t: "take n (take n y @ drop n b3) @ drop n (r @ drop n y) = y" "take n (r @ drop n y) = r"
        using y 2 by (simp_all add: n_def)
      show ?thesis unfolding decfile_body_def Let_def BLOCK_LEN_def un rd
        by (simp only: b2 D [OF lz] ne if_False simp_thms split_conv u1 t y(2) p un)
    qed
    have "put_bytes (put_bytes dec wbp (xor_bytes x b1)) (wbp + 16) r = put_bytes dec wbp (xor_bytes x b1 @ r)"
      using put_bytes_append [of "xor_bytes x b1" r dec wbp] less.prems 2 by (simp add: n_def)
    moreover have "\<not> BLOCK_LEN < of_nat n" "of_nat n \<noteq> BLOCK_LEN"
      unfolding BLOCK_LEN_def word_less_nat_alt word_unat_eq_iff un using 2 by simp_all
    ultimately show ?thesis using 2 by (subst decfile_loop.simps, simp only: Let_def left s) (simp add: body)
  next
    case 3
    define x' where "x' = xor_bytes (take 16 r) y"
    define C' where "C' = cts E x' (drop 16 r)"
    have lx': "length x' = 16" using 3 y by (simp add: x'_def n_def)
    have C: "cts E x r = y @ C'" using 3 by (subst cts.simps) (auto simp: y_def x'_def C'_def n_def Let_def)
    have lC': "length C' = n" unfolding C'_def using 3 lx' E by (subst length_cts) (auto simp: n_def)
    have b2: "b2 = y" using less.prems(4) C y by simp
    have rd: "bytes_of encd rbp n = C'" using less.prems(7) C y by (simp add: n_def)
    have rd1: "bytes_of encd rbp 16 = take 16 C'" "bytes_of encd (rbp + 16) (n - 16) = drop 16 C'"
      using 3 by (simp_all add: rd [symmetric] take_bytes_of drop_bytes_of)
    have body: "decfile_body D encd rbp wbp 16 b1 b2 b3 16 dec = (take 16 C', 16, wbp + 16, put_bytes dec wbp (xor_bytes x b1))"
      using less.prems y p by (simp add: decfile_body_def BLOCK_LEN_def b2 rd1)
    have big: "\<not> sint (of_nat n :: u32) < 16" using 3 s by simp
    have IH: "decfile_loop D encd nbytes (rbp + 16) (wbp + 16) y (take 16 C') b1 16 (put_bytes dec wbp (xor_bytes x b1))
      = Some (put_bytes (put_bytes dec wbp (xor_bytes x b1)) (wbp + 16) (xor_bytes x' y @ drop 16 r))"
    proof (rule less.hyps)
      show "nbytes - (rbp + 16) - BLOCK_LEN + BLOCK_LEN * 2 = of_nat (length (drop 16 r))"
        using left 3 by (simp add: n_def of_nat_diff algebra_simps)
      show "bytes_of encd (rbp + 16) (length (drop 16 r)) = drop 16 (cts E x' (drop 16 r))"
        using rd1(2) by (simp add: C'_def n_def)
    qed (use 3 n lx' y less.prems in \<open>simp_all add: n_def C'_def\<close>)
    have "xor_bytes x' y @ drop 16 r = r"
      using 3 y xor_bytes_cancel(2) [of "take 16 r" y] by (simp add: x'_def n_def)
    then have "put_bytes (put_bytes dec wbp (xor_bytes x b1)) (wbp + 16) (xor_bytes x' y @ drop 16 r) = put_bytes dec wbp (xor_bytes x b1 @ r)"
      using put_bytes_append [of "xor_bytes x b1" r dec wbp] less.prems by simp
    then show ?thesis using IH big
      by (subst decfile_loop.simps, simp only: Let_def left) (simp add: body [unfolded b2] b2 BLOCK_LEN_def)
  qed
qed

lemma length_cbc_cts:
  "(\<And>b. length b = 16 \<Longrightarrow> length (E b) = 16) \<Longrightarrow> length iv = 16 \<Longrightarrow> length (cbc_cts E iv msg) = 16 + length msg"
  by (simp add: cbc_cts_def length_cts)

lemma decfile_cts:
  assumes E: "\<And>b. length b = 16 \<Longrightarrow> length (E b) = 16" and D: "\<And>b. length b = 16 \<Longrightarrow> D (E b) = b"
    and iv: "length iv = 16" and n: "length msg < 2147483648"
    and enc: "bytes_of enc 0 (16 + length msg) = cbc_cts E iv msg" and dbuf: "length dbuf = 48"
  shows "decfile D dbuf enc dec (of_nat (length msg)) = Some (OK, put_bytes dec 0 msg)"
proof -
  define n where "n = length msg"
  have n32: "n < 2147483648" using n by (simp add: n_def)
  have un: "unat (of_nat n :: u32) = n" using n32 by simp
  have enc': "bytes_of enc 0 (16 + n) = cbc_cts E iv msg" using enc by (simp add: n_def)
  show ?thesis
  proof (cases "n < 16")
    case True
    define z where "z = drop n iv @ xor_bytes msg iv"
    have z: "length z = 16" using True iv by (simp add: z_def n_def)
    have "bytes_of enc 0 (16 + n) = take n iv @ E z" using True by (simp add: enc cbc_cts_def z_def n_def)
    then have d1: "bytes_of enc 0 (n + 16) @ drop (n + 16) dbuf = take n iv @ E z @ drop (n + 16) dbuf" by (simp add: add.commute)
    have cut: "take n (take n iv @ E z @ drop (n + 16) dbuf) = take n iv"
      "take 16 (drop n (take n iv @ E z @ drop (n + 16) dbuf)) = E z"
      "drop (n + 16) (take n iv @ E z @ drop (n + 16) dbuf) = drop (n + 16) dbuf"
      using True iv z E by simp_all
    have d2: "take n iv @ z @ drop (n + 16) dbuf = iv @ xor_bytes msg iv @ drop (n + 16) dbuf" by (simp add: z_def)
    have x: "xor_upto n (iv @ xor_bytes msg iv @ drop (n + 16) dbuf) (drop 16 (iv @ xor_bytes msg iv @ drop (n + 16) dbuf))
      = msg @ drop n iv @ xor_bytes msg iv @ drop (n + 16) dbuf"
    proof -
      have "xor_upto n (take n iv @ drop n iv @ xor_bytes msg iv @ drop (n + 16) dbuf) (xor_bytes msg iv @ drop (n + 16) dbuf)
        = xor_bytes (take n iv) (xor_bytes msg iv @ drop (n + 16) dbuf) @ drop n iv @ xor_bytes msg iv @ drop (n + 16) dbuf"
        using True iv by (intro xor_upto_append) (simp_all add: n_def)
      moreover have "xor_bytes (take n iv) (xor_bytes msg iv @ drop (n + 16) dbuf) = msg"
        using True iv by (intro nth_equalityI) (simp_all add: n_def nth_append xor_cancel xor.commute [of "iv ! _"])
      moreover have e: "take n iv @ drop n iv @ ys = iv @ ys" for ys by (simp flip: append_assoc)
      ultimately show ?thesis unfolding e using iv by simp
    qed
    have lt: "(of_nat n :: u32) < BLOCK_LEN" using True un by (simp add: BLOCK_LEN_def word_less_nat_alt)
    have len: "unat (of_nat n + BLOCK_LEN) = n + 16" "(of_nat n + BLOCK_LEN < 2 * BLOCK_LEN) = True"
      using True un by (simp_all add: BLOCK_LEN_def unat_word_ariths word_less_nat_alt)
    show ?thesis unfolding decfile_def Let_def n_def [symmetric] if_P [OF lt] len add_diff_cancel_right' un d1 cut D [OF z] d2 x
      by (simp add: n_def)
  next
    case False
    define c where "c = cts E (xor_bytes iv (take 16 msg)) (drop 16 msg)"
    have lc: "length c = n" unfolding c_def using E iv False by (subst length_cts) (auto simp: n_def)
    have enc'': "bytes_of enc 0 (16 + n) = iv @ c" using False by (simp add: enc cbc_cts_def c_def n_def)
    have d: "bytes_of enc 0 32 = iv @ take 16 c" "bytes_of enc 32 (n - 16) = drop 16 c"
      using False iv lc arg_cong [OF enc'', of "take 32"] arg_cong [OF enc'', of "drop 32"]
      by (simp_all add: take_bytes_of drop_bytes_of)
    have nlt: "\<not> (of_nat n :: u32) < BLOCK_LEN" using False un by (simp add: BLOCK_LEN_def word_less_nat_alt)
    have cut: "take 16 ((iv @ take 16 c) @ drop 32 dbuf) = iv" "take 16 (drop 16 ((iv @ take 16 c) @ drop 32 dbuf)) = take 16 c"
      "drop 32 ((iv @ take 16 c) @ drop 32 dbuf) = drop 32 dbuf"
      using iv lc False by simp_all
    have len: "unat (2 * BLOCK_LEN) = 32" by (simp add: BLOCK_LEN_def)
    have x: "xor_bytes (xor_bytes iv (take 16 msg)) iv = take 16 msg"
      using iv False by (intro xor_bytes_cancel) (simp add: n_def)
    have loop: "decfile_loop D enc (of_nat n) 32 0 iv (take 16 c) (drop 32 dbuf) 16 dec
      = Some (put_bytes dec 0 (xor_bytes (xor_bytes iv (take 16 msg)) iv @ drop 16 msg))"
    proof (rule decfile_loop_cts [OF E D])
      show "of_nat n - 32 - BLOCK_LEN + BLOCK_LEN * 2 = of_nat (length (drop 16 msg))"
        using False by (simp add: n_def BLOCK_LEN_def of_nat_diff)
    qed (use iv dbuf False n32 d in \<open>simp_all add: n_def c_def\<close>)
    show ?thesis unfolding decfile_def Let_def n_def [symmetric] if_not_P [OF nlt] len d cut
      using loop by (simp add: x BLOCK_LEN_def OK_def)
  qed
qed

section \<open>What the operations do\<close>

text \<open>A key of hexadecimal digits is read to its end.\<close>

lemma key_loop_digits:
  "cstr s p ds \<Longrightarrow> i + length ds \<le> 64 \<Longrightarrow> \<forall>d \<in> set ds. key_digit d \<noteq> None \<Longrightarrow>
    \<exists>bytes. key_loop s p i byt key = Inr (i + length ds, key @ bytes, p + of_nat (length ds))"
proof (induction ds arbitrary: p i byt key)
  case Nil
  then show ?case by (auto simp: key_loop.simps)
next
  case (Cons d ds)
  from Cons.prems(3) obtain v where v: "key_digit d = Some v" by auto
  define byt' where "byt' = push_bit 4 byt + v"
  define key' where "key' = (if odd i then key @ [ucast (byt' AND 0xFF)] else key)"
  from Cons.prems have "s p = d" "d \<noteq> 0" "cstr s (p + 1) ds" "i < 64" by auto
  then have st: "key_loop s p i byt key = key_loop s (p + 1) (Suc i) byt' key'"
    using v by (subst key_loop.simps) (simp add: byt'_def key'_def Let_def)
  obtain bytes where "key_loop s (p + 1) (Suc i) byt' key' = Inr (Suc i + length ds, key' @ bytes, p + 1 + of_nat (length ds))"
    using Cons.IH [OF \<open>cstr s (p + 1) ds\<close>, of "Suc i" byt' key'] Cons.prems by auto
  then show ?case unfolding st by (auto simp: key'_def algebra_simps)
qed

definition hex_key :: "mem \<Rightarrow> bool" where
  "hex_key s \<longleftrightarrow> (\<exists>ds. cstr s 0 ds \<and> length ds \<in> {32, 48, 64} \<and> (\<forall>d \<in> set ds. key_digit d \<noteq> None))"

lemma hex_key_loop:
  assumes "hex_key s"
  obtains i key p where "key_loop s 0 0 0 [] = Inr (i, key, p)" "s p = 0" "\<not> (i < 32 \<or> i mod 16 \<noteq> 0)"
proof -
  obtain ds where ds: "cstr s 0 ds" "length ds \<in> {32, 48, 64}" "\<forall>d \<in> set ds. key_digit d \<noteq> None"
    using assms by (auto simp: hex_key_def)
  obtain bytes where "key_loop s 0 0 0 [] = Inr (length ds, bytes, of_nat (length ds))"
    using key_loop_digits [OF ds(1) _ ds(3), of 0 0 "[]"] ds(2) by auto
  then show thesis using that [of "length ds" bytes "of_nat (length ds)"] cstr_end [OF ds(1)] ds(2) by auto
qed

definition aes_key :: "mem \<Rightarrow> u8 list" where
  "aes_key s = (case key_loop s 0 0 0 [] of Inr (i, key, p) \<Rightarrow> key | Inl _ \<Rightarrow> [])"

lemma key_loop_cong: "cstr s p ds \<Longrightarrow> cstr s' p ds \<Longrightarrow> key_loop s p i byt key = key_loop s' p i byt key"
proof (induction ds arbitrary: p i byt key)
  case Nil
  then show ?case by (subst (1 2) key_loop.simps) simp
next
  case (Cons d ds)
  then have d: "s p = d" "s' p = d" "cstr s (p + 1) ds" "cstr s' (p + 1) ds" by simp_all
  show ?case by (subst (1 2) key_loop.simps) (simp add: d(1,2) Cons.IH [OF d(3,4)] split: option.split)
qed

lemma aes_key_cong: "cstr s 0 ds \<Longrightarrow> cstr s' 0 ds \<Longrightarrow> aes_key s = aes_key s'"
  unfolding aes_key_def by (simp only: key_loop_cong [of s 0 ds s'])

text \<open>The ciphertext, initial vector included.\<close>

definition aes_text :: "(u8 list \<Rightarrow> u8 list \<Rightarrow> u8 list) \<Rightarrow> mem \<Rightarrow> u32 \<Rightarrow> mwc \<Rightarrow> u8 list \<Rightarrow> u8 list" where
  "aes_text aes_enc sessionKey seed g msg = cbc_cts (aes_enc (aes_key sessionKey)) (fst (fillrand seed 16 g)) msg"

text \<open>What is needed of the block cipher.\<close>

definition cipher_ok :: "(u8 list \<Rightarrow> u8 list \<Rightarrow> u8 list) \<Rightarrow> (u8 list \<Rightarrow> u8 list \<Rightarrow> u8 list) \<Rightarrow> bool" where
  "cipher_ok aes_enc aes_dec \<longleftrightarrow>
     (\<forall>key b. length b = 16 \<longrightarrow> length (aes_enc key b) = 16 \<and> aes_dec key (aes_enc key b) = b)"

lemma bytes_of_cstr: "cstr s p xs \<Longrightarrow> bytes_of s p (length xs) = xs"
proof (induction xs arbitrary: p)
  case (Cons x xs)
  then have "bytes_of s p (1 + length xs) = x # xs" unfolding bytes_of_add by (simp add: bytes_of_def)
  then show ?case by simp
qed simp

lemma bytes_of_copy: "n \<le> 4294967296 \<Longrightarrow> bytes_of (put_bytes b 0 (bytes_of s p n)) 0 n = bytes_of s p n"
  using bytes_of_put_bytes [of "bytes_of s p n" 0 n b 0] by simp

lemma aesEncrypt_writes:
  assumes E: "\<And>b. length b = 16 \<Longrightarrow> length (aes_enc (aes_key sessionKey) b) = 16" and key: "hex_key sessionKey"
    and data: "cstr data 0 msg" "length msg < 2147483648" and dbuf: "length dbuf = 48"
  shows "aesEncrypt aes_enc seed dbuf block sessionKey data encrypted g
      = Some (OK, put_bytes encrypted 0 (aes_text aes_enc sessionKey seed g msg), snd (fillrand seed 16 g))
    \<and> length (aes_text aes_enc sessionKey seed g msg) = 16 + length msg"
proof -
  define k where "k = aes_key sessionKey"
  define iv where "iv = fst (fillrand seed 16 g)"
  have iv: "length iv = 16" by (simp add: iv_def)
  obtain i p where loop: "key_loop sessionKey 0 0 0 [] = Inr (i, k, p)" "sessionKey p = 0" "\<not> (i < 32 \<or> i mod 16 \<noteq> 0)"
    using hex_key_loop [OF key] by (metis (no_types, lifting) k_def aes_key_def sum.simps(6) split_conv)
  have n: "unat (of_nat (length msg) :: u32) = length msg" using data(2) by simp
  have len: "strlen data 0 = Some (length msg)" using data(1) strlen_eq_Some_iff [of data 0 "length msg"] by blast
  have msg: "bytes_of (put_bytes block 0 (bytes_of data 0 (length msg))) 0 (length msg) = msg"
    using bytes_of_copy [of "length msg" block data 0] bytes_of_cstr [OF data(1)] data(2) by simp
  have "encfile (aes_enc k) seed dbuf encrypted (put_bytes block 0 (bytes_of data 0 (length msg))) (of_nat (length msg)) g
    = (OK, put_bytes encrypted 0 (cbc_cts (aes_enc k) iv msg), snd (fillrand seed 16 g))"
    using encfile_cts [of "aes_enc k" dbuf "of_nat (length msg)" seed encrypted _ g] E dbuf data(2)
    by (simp add: n msg iv_def k_def)
  then show ?thesis using loop length_cbc_cts [of "aes_enc k" iv msg] E iv
    by (simp add: aesEncrypt_def len n Let_def aes_text_def k_def iv_def)
qed

lemma aesDecrypt_reads:
  assumes cipher: "cipher_ok aes_enc aes_dec" and key: "hex_key sessionKey" and n: "length msg < 2147483648" and dbuf: "length dbuf = 48"
    and enc: "bytes_of enc 0 (16 + length msg) = aes_text aes_enc sessionKey seed g msg"
  shows "aesDecrypt aes_dec dbuf sessionKey enc decrypted (of_nat (length msg)) = Some (OK, put_bytes decrypted 0 msg)"
proof -
  define k where "k = aes_key sessionKey"
  have E: "length (aes_enc k b) = 16" and D: "aes_dec k (aes_enc k b) = b" if "length b = 16" for b
    using cipher that by (simp_all add: cipher_ok_def)
  obtain i p where loop: "key_loop sessionKey 0 0 0 [] = Inr (i, k, p)" "sessionKey p = 0" "\<not> (i < 32 \<or> i mod 16 \<noteq> 0)"
    using hex_key_loop [OF key] by (metis (no_types, lifting) k_def aes_key_def sum.simps(6) split_conv)
  have "decfile (aes_dec k) dbuf enc decrypted (of_nat (length msg)) = Some (OK, put_bytes decrypted 0 msg)"
    by (rule decfile_cts [OF E D length_fillrand n enc [unfolded aes_text_def, folded k_def] dbuf])
  then show ?thesis using loop by (simp add: aesDecrypt_def)
qed

text \<open>C32: With a key of 32, 48 or 64 hexadecimal digits, \<open>aesEncrypt\<close> writes the initial vector and the ciphertext, as long as the
  message, and nothing else, and \<open>aesDecrypt\<close> with the same key gets the message back from it, whatever the length of the message is
  and whatever the uninitialised buffers hold.\<close>

theorem aes_roundtrip:
  assumes cipher: "cipher_ok aes_enc aes_dec" and key: "hex_key sessionKey"
    and data: "cstr data 0 msg" "length msg < 2147483648" and bufs: "length dbuf = 48" "length dbuf' = 48"
  shows "aesEncrypt aes_enc seed dbuf block sessionKey data encrypted g
      = Some (OK, put_bytes encrypted 0 (aes_text aes_enc sessionKey seed g msg), snd (fillrand seed 16 g))
    \<and> length (aes_text aes_enc sessionKey seed g msg) = 16 + length msg
    \<and> aesDecrypt aes_dec dbuf' sessionKey (put_bytes encrypted 0 (aes_text aes_enc sessionKey seed g msg)) decrypted (of_nat (length msg))
      = Some (OK, put_bytes decrypted 0 msg)"
proof -
  define c where "c = aes_text aes_enc sessionKey seed g msg"
  have w: "aesEncrypt aes_enc seed dbuf block sessionKey data encrypted g = Some (OK, put_bytes encrypted 0 c, snd (fillrand seed 16 g))
    \<and> length c = 16 + length msg"
    unfolding c_def using cipher by (intro aesEncrypt_writes key data bufs) (simp add: cipher_ok_def)
  then have "bytes_of (put_bytes encrypted 0 c) 0 (16 + length msg) = c"
    using bytes_of_put_bytes [of c 0 "16 + length msg" encrypted 0] data(2) by simp
  then show ?thesis using w aesDecrypt_reads [OF cipher key data(2) bufs(2)] unfolding c_def by blast
qed

definition demo_cipher :: "u8 list \<Rightarrow> u8 list \<Rightarrow> u8 list" where
  "demo_cipher key b = map (\<lambda>x. x XOR hd key) b"

definition demo_bytes :: "nat \<Rightarrow> u8 \<Rightarrow> mem" where
  "demo_bytes n v = (\<lambda>a. if unat a < n then v else 0)"

lemma demo_cipher_ok: "cipher_ok demo_cipher demo_cipher"
proof -
  have "map (\<lambda>x. x XOR k) (map (\<lambda>x. x XOR k) b) = b" for k :: u8 and b
    by (intro nth_equalityI) (simp_all add: xor_cancel xor.commute [of "b ! _"])
  then show ?thesis by (simp add: cipher_ok_def demo_cipher_def)
qed

lemma demo_bytes_cstr: "v \<noteq> 0 \<Longrightarrow> n < 4294967296 \<Longrightarrow> cstr (demo_bytes n v) 0 (replicate n v)"
proof -
  assume v: "v \<noteq> 0" and n: "n < 4294967296"
  have "k \<le> n \<Longrightarrow> cstr (demo_bytes n v) (of_nat (n - k)) (replicate k v)" for k
  proof (induction k)
    case 0
    then show ?case using n by (simp add: demo_bytes_def)
  next
    case (Suc k)
    define j where "j = n - Suc k"
    have j: "j < n" "n - k = Suc j" using Suc.prems by (simp_all add: j_def)
    then have "unat (of_nat j :: u32) = j" using n by simp
    then show ?case using Suc v j unfolding j_def [symmetric] by (simp add: demo_bytes_def add.commute)
  qed
  from this [of n] show ?thesis by simp
qed

lemma demo_hex_key: "hex_key (demo_bytes 32 0x41)"
proof -
  have "key_digit 0x41 = Some 10" by code_simp
  then show ?thesis unfolding hex_key_def
    by (intro exI [where x = "replicate 32 0x41"]) (auto intro: demo_bytes_cstr)
qed

lemma aes_roundtrip_witness:
  "aesDecrypt demo_cipher (replicate 48 7) (demo_bytes 32 0x41)
     (put_bytes (\<lambda>_. 0) 0 (aes_text demo_cipher (demo_bytes 32 0x41) 5 mwc_boot (replicate 20 0x62))) (\<lambda>_. 0) 20
   = Some (OK, put_bytes (\<lambda>_. 0) 0 (replicate 20 0x62))"
  using aes_roundtrip [OF demo_cipher_ok demo_hex_key demo_bytes_cstr [of "0x62" 20], of "replicate 48 1" "replicate 48 7"
    5 "\<lambda>_. 3" "\<lambda>_. 0" mwc_boot "\<lambda>_. 0"] by simp

text \<open>C33: \<open>aesEncrypt\<close> returns one of four results, leaves the ciphertext buffer alone when it fails, and never writes behind the first
  sixteen bytes more than the message has.\<close>

theorem aes_encrypt_bounds:
  assumes "\<And>key b. length b = 16 \<Longrightarrow> length (aes_enc key b) = 16" and "length dbuf = 48"
    and "aesEncrypt aes_enc seed dbuf block sessionKey data encrypted g = Some (err, enc', g')"
    and "strlen data 0 = Some n" and "n + 16 \<le> unat off"
  shows "err \<in> {0, - 1, - 2, - 3} \<and> (err \<noteq> 0 \<longrightarrow> enc' = encrypted) \<and> enc' off = encrypted off"
proof (cases "\<exists>key msg. encfile (aes_enc key) seed dbuf encrypted msg (of_nat n) g = (err, enc', g')")
  case False
  then have "(err = - 1 \<or> err = - 2 \<or> err = - 3) \<and> enc' = encrypted"
    using assms(3) unfolding aesEncrypt_def assms(4) Let_def
    by (cases "key_loop sessionKey 0 0 0 []") (auto split: if_splits prod.splits)
  then show ?thesis by auto
next
  case True
  have n: "n + 16 \<le> 4294967296" using assms(5) unat_u32_le [of off] by linarith
  then have un: "unat (of_nat n :: u32) = n" by simp
  from True obtain key msg where e: "encfile (aes_enc key) seed dbuf encrypted msg (of_nat n) g = (err, enc', g')" by blast
  define iv where "iv = fst (fillrand seed 16 g)"
  have r: "err = OK" "enc' = put_bytes encrypted 0 (cbc_cts (aes_enc key) iv (bytes_of msg 0 n))"
  proof -
    have "encfile (aes_enc key) seed dbuf encrypted msg (of_nat n) g
      = (OK, put_bytes encrypted 0 (cbc_cts (aes_enc key) iv (bytes_of msg 0 n)), snd (fillrand seed 16 g))"
      unfolding iv_def by (subst encfile_cts [OF _ assms(2)]) (use assms(1) n in \<open>simp_all add: un\<close>)
    then show "err = OK" "enc' = put_bytes encrypted 0 (cbc_cts (aes_enc key) iv (bytes_of msg 0 n))" using e by simp_all
  qed
  have "length (cbc_cts (aes_enc key) iv (bytes_of msg 0 n)) = 16 + n"
    using length_cbc_cts [of "aes_enc key" iv "bytes_of msg 0 n"] assms(1) by (simp add: iv_def)
  then show ?thesis using r assms(5) by (simp add: put_bytes_def OK_def)
qed

lemma aes_encrypt_bounds_witness:
  "\<exists>enc' g'. aesEncrypt demo_cipher 5 (replicate 48 1) (\<lambda>_. 3) (demo_bytes 32 0x41) (demo_bytes 20 0x62) (\<lambda>_. 9) mwc_boot = Some (0, enc', g')
     \<and> enc' 36 = 9"
proof -
  have len: "length (demo_cipher key b) = 16" if "length b = 16" for key b using that by (simp add: demo_cipher_def)
  have str: "strlen (demo_bytes 20 0x62) 0 = Some 20"
    unfolding strlen_eq_Some_iff by (intro exI [of _ "replicate 20 0x62"] conjI demo_bytes_cstr length_replicate) simp_all
  obtain enc' g' where r: "aesEncrypt demo_cipher 5 (replicate 48 1) (\<lambda>_. 3) (demo_bytes 32 0x41) (demo_bytes 20 0x62) (\<lambda>_. 9) mwc_boot
      = Some (0, enc', g')"
    using aesEncrypt_writes [OF len demo_hex_key demo_bytes_cstr [of "0x62" 20], where dbuf = "replicate 48 1"] unfolding OK_def by auto
  have "enc' 36 = 9" using aes_encrypt_bounds [OF len _ r str, of 36] by simp
  then show ?thesis using r by blast
qed

end
