(* ===== verification/Guest_Service.thy ===== *)
theory Guest_Service
  imports Guest_Aes
begin

text \<open>
  The service of the trusted guest, \<open>guests/trusted/src/trusted_service.c\<close>: the handler of the remote calls, which encrypts a text with a
  random session key, keeps the session key encrypted with RSA, and decrypts the text on request.

  RSA is a parameter, as is the block cipher of \<^theory_text>\<open>Guest_Aes\<close>. What the C code reads without having written it is an argument of
  the calls: the memory behind the session key on the stack, the buffers of the cipher and the argument register of \<open>srand_mwc\<close>.
  \<open>verifyContract\<close> and \<open>calculateSHA\<close> are not reachable, their call is commented out.
\<close>

section \<open>State and constants\<close>

datatype out_event = Print string | PrintStr "u8 list" | PrintNum string u32 | EndRpc

record service =
  encrypted :: mem
  decrypted :: mem
  contract :: mem
  encryptedAESKey :: mem
  decryptedAESKey :: mem
  nbytes :: u32
  rpc_count :: u32
  rng :: mwc
  heap_inits :: nat
  out :: "out_event list"

definition service_start :: service where
  "service_start = \<lparr>encrypted = (\<lambda>_. 0), decrypted = (\<lambda>_. 0), contract = (\<lambda>_. 0), encryptedAESKey = (\<lambda>_. 0), decryptedAESKey = (\<lambda>_. 0),
     nbytes = 0, rpc_count = 0, rng = mwc_boot, heap_inits = 0, out = []\<rparr>"

record crypto =
  aes_enc :: "u8 list \<Rightarrow> u8 list \<Rightarrow> u8 list"
  aes_dec :: "u8 list \<Rightarrow> u8 list \<Rightarrow> u8 list"
  rsaEncrypt :: "mem \<Rightarrow> string \<Rightarrow> string \<Rightarrow> mem \<Rightarrow> u32 \<times> mem"
  rsaDecrypt :: "mem \<Rightarrow> string \<Rightarrow> string \<Rightarrow> mem \<Rightarrow> u32 \<times> mem"

record surroundings =
  behind_key :: mem
  cipher_buf :: "u8 list"
  heap_block :: mem
  seed_reg :: u32

definition g_modulus :: string where
  "g_modulus =
     ''f0f4fa85b4ad3f6d9171995085b31640c4c8ed28e5c9eb5106f62acea46ee83c0c575f03ab918d9aee62fdd5fc7b5a350d4775618f6465''
     @ ''83ef6a0c50985123ac4271ae3cdaba97f5d6527217971f2cc0bdbbfa2886afedfe783e1b170ca5e279e6fd07e9efffd99c1f4f35c30644''
     @ ''f86227cfc32a5253a89ebfb22862f1085b35''"

definition g_d :: string where
  "g_d =
     ''e2d4cc0e18834b859af8c4ea6fa2a29d406322177112bfaa9c921ac4433980f81e6a15b0ffcf5aedf1e250b12428ff479803a035c26631''
     @ ''c69d18491589fe4043f2cf8d591c93256dda125bb1466a2199fab20081b6806ddda740b73e35e73c63e794ba34197aa423064286feb2e0''
     @ ''19b4521a05405b27b2f232619a00bedeac95''"

definition g_e :: string where
  "g_e = ''10001''"

definition data_string :: string where
  "data_string =
     ''Until modern times cryptography referred almost exclusively to encryption, which is the process of converting ''
     @ ''ordinary information (called plaintext) into unintelligible gibberish (called ciphertext).[7] Decryption is th''
     @ ''e reverse, in other words, moving from the unintelligible ciphertext back to plaintext. A cipher (or cypher) i''
     @ ''s a pair of algorithms that create the encryption and the reversing decryption. The detailed operation of a ci''
     @ ''pher is controlled both by the algorithm and in each instance by a key. This is a secret (ideally known only t''
     @ ''o the communicants), usually a short string of characters, which is needed to decrypt the ciphertext. A crypto''
     @ ''system is the ordered list of elements of finite possible plaintexts, finite possible cyphertexts, finite poss''
     @ ''ible keys, and the encryption and decryption algorithms which correspond to each key. Keys are important, as c''
     @ ''iphers without variable keys can be trivially broken with only the knowledge of the cipher used and are theref''
     @ ''ore useless (or even counter-productive) for most purposes. Historically, ciphers were often used directly for''
     @ '' encryption or decryption without additional procedures such as authentication or integrity checks.''"

definition data_text :: "u8 list" where
  "data_text = map of_char data_string @ [10]"

text \<open>The rest of the array is zero.\<close>

definition flash_data :: mem where
  "flash_data = put_bytes (\<lambda>_. 0) 0 data_text"

section \<open>The operations\<close>

definition say :: "out_event \<Rightarrow> service \<Rightarrow> service" where
  "say msg s = s\<lparr>out := out s @ [msg]\<rparr>"

text \<open>\<open>%s\<close>\<close>

definition say_str :: "mem \<Rightarrow> service \<Rightarrow> service option" where
  "say_str p s = map_option (\<lambda>n. say (PrintStr (bytes_of p 0 n)) s) (strlen p 0)"

definition copy_buf :: "mem \<Rightarrow> mem \<Rightarrow> u32 \<Rightarrow> mem" where
  "copy_buf dst src len = put_bytes dst 0 (bytes_of src 0 (unat len))"

definition getContract :: "crypto \<Rightarrow> surroundings \<Rightarrow> service \<Rightarrow> service option" where
  "getContract C env s =
     (let s = say (Print ''In trusted mode getContract()'') s;
          (rsaErr, key) = rsaDecrypt C (encryptedAESKey s) g_d g_modulus (decryptedAESKey s);
          s = s\<lparr>decryptedAESKey := key\<rparr>
      in Option.bind
           (if rsaErr \<noteq> 0 then Some (0, say (Print ''RSA encryption failed.\<newline>'') s)
            else map_option (\<lambda>(aesErr, text). (aesErr, s\<lparr>decrypted := text\<rparr>))
                   (aesDecrypt (aes_dec C) (cipher_buf env) (decryptedAESKey s) (encrypted s) (decrypted s) (nbytes s)))
           (\<lambda>(aesErr, s).
             let s = (if aesErr \<noteq> 0 then say (Print ''AES encryption failed.\<newline>'') s
                      else if aesErr = 0 \<and> rsaErr = 0 then s\<lparr>contract := copy_buf (contract s) (decrypted s) (nbytes s)\<rparr>
                      else s)
             in Some (s\<lparr>decryptedAESKey := put_bytes (decryptedAESKey s) 0 (replicate 128 0)\<rparr>)))"

definition read_contract :: "service \<Rightarrow> service option" where
  "read_contract s = say_str (contract s) s"

definition initFlashData :: "crypto \<Rightarrow> surroundings \<Rightarrow> service \<Rightarrow> service option" where
  "initFlashData C env s =
     (let s = say (Print ''In trusted mode initFlashData\<newline>'') s;
          (key, g) = generateAESKey (rng s);
          s = s\<lparr>rng := g\<rparr>;
          sessionKey = put_bytes (behind_key env) 0 key
      in Option.bind (strlen flash_data 0) (\<lambda>n.
         let s = s\<lparr>nbytes := of_nat n\<rparr>
         in Option.bind (say_str sessionKey
              (say (Print ''\<newline>Encrypting message with random generated AES-128 one time session key:\<newline>'') s)) (\<lambda>s.
            Option.bind (aesEncrypt (aes_enc C) (seed_reg env) (cipher_buf env) (heap_block env) sessionKey flash_data (encrypted s) (rng s))
              (\<lambda>(aesErr, text, g).
                let s = s\<lparr>encrypted := text, rng := g\<rparr>;
                    s = s\<lparr>contract := copy_buf (contract s) (encrypted s) (nbytes s)\<rparr>
                in if aesErr \<noteq> 0 then Some (say (Print ''AES encryption failed.\<newline>'') s)
                   else Option.bind (say_str (encrypted s) (say (Print ''\<newline>Try to print encrypted data! \<newline> '') s)) (\<lambda>s.
                     let s = say (Print ''\<newline> Encrypting AES session key with RSA\<newline>'') s;
                         (rsaErr, key) = rsaEncrypt C sessionKey g_e g_modulus (encryptedAESKey s);
                         s = s\<lparr>encryptedAESKey := key\<rparr>
                     in Some (if rsaErr \<noteq> 0 then say (Print ''RSA encryption failed.\<newline>'') s else s))))))"

definition service_main :: "u32 \<Rightarrow> service \<Rightarrow> service" where
  "service_main seed s =
     (let s = say (PrintNum ''Seed value: %x'' seed) s;
          s = s\<lparr>rng := srand_mwc seed (rng s)\<rparr>
      in s\<lparr>heap_inits := heap_inits s + 1\<rparr>)"

definition finish_rpc :: "service \<Rightarrow> service" where
  "finish_rpc s = say EndRpc s"

definition handler_rpc :: "crypto \<Rightarrow> surroundings \<Rightarrow> u32 \<Rightarrow> u32 \<Rightarrow> service \<Rightarrow> service option" where
  "handler_rpc C env callNum params s =
     map_option finish_rpc
       (if callNum = 0
        then if rpc_count s = 0
             then let s = service_main params (say (Print ''Initializing Trusted Service\<newline>'') s)
                  in Some (s\<lparr>rpc_count := rpc_count s + 1\<rparr>)
             else Some (say (Print ''Already initialized trusted service'') s)
        else if callNum = 1
        then if rpc_count s \<noteq> 0 then initFlashData C env s else Some (say (Print ''Trusted service not initialized'') s)
        else if callNum = 2 then Some s
        else if callNum = 3
        then if rpc_count s \<noteq> 0 then getContract C env s else Some (say (Print ''Trusted service not initialized'') s)
        else if callNum = 4 then read_contract s
        else Some (say (PrintNum ''Unknown trusted operation: %d\<newline>'' callNum) s))"

text \<open>The remote calls one after the other; the hypervisor starts none before the one before has ended.\<close>

fun service_run :: "crypto \<Rightarrow> (surroundings \<times> u32 \<times> u32) list \<Rightarrow> service \<Rightarrow> service option" where
  "service_run C [] s = Some s"
| "service_run C ((env, callNum, params) # calls) s = Option.bind (handler_rpc C env callNum params s) (service_run C calls)"

section \<open>The text and the keys\<close>

lemma of_char_eq_0: "of_char c = (0 :: u8) \<longleftrightarrow> c = CHR 0x00"
proof -
  have "unat (of_nat (of_char c) :: u8) = of_char c"
    using nat_of_char_less_256 [of c] by (simp add: unat_of_nat take_bit_eq_mod del: of_nat_of_char)
  then have "unat (of_char c :: u8) = of_char c" by (simp only: of_nat_of_char)
  then have "of_char c = (0 :: u8) \<longleftrightarrow> of_char c = (0 :: nat)" by (simp add: word_unat_eq_iff)
  also have "\<dots> \<longleftrightarrow> of_char c = (of_char (CHR 0x00) :: nat)" by simp
  also have "\<dots> \<longleftrightarrow> c = CHR 0x00" by (rule of_char_eq_iff)
  finally show ?thesis .
qed

lemma length_data_text: "length data_text = 1200"
  by (simp add: data_text_def data_string_def)

lemma data_string_nonzero: "list_all (\<lambda>c. c \<noteq> CHR 0x00) data_string"
  by (simp add: data_string_def)

lemma cstr_put_bytes: "0 \<notin> set xs \<Longrightarrow> length xs < 4294967296 \<Longrightarrow> p (off + of_nat (length xs)) = 0 \<Longrightarrow> cstr (put_bytes p off xs) off xs"
proof -
  assume nz: "0 \<notin> set xs" and l: "length xs < 4294967296" and z: "p (off + of_nat (length xs)) = 0"
  have "k \<le> length xs \<Longrightarrow> cstr (put_bytes p off xs) (off + of_nat (length xs - k)) (drop (length xs - k) xs)" for k
  proof (induction k)
    case 0
    then show ?case using z l by (simp add: put_bytes_def)
  next
    case (Suc k)
    define j where "j = length xs - Suc k"
    have j: "j < length xs" "length xs - k = Suc j" using Suc.prems by (simp_all add: j_def)
    have u: "unat (of_nat j :: u32) = j" using j l by simp
    have "xs ! j \<noteq> 0" using nz j(1) by (metis nth_mem)
    then show ?case using Suc j u unfolding j_def [symmetric]
      by (simp add: put_bytes_def Cons_nth_drop_Suc [symmetric] algebra_simps)
  qed
  from this [of "length xs"] show ?thesis by simp
qed

lemma flash_data_cstr: "cstr flash_data 0 data_text"
proof -
  have ne: "of_char c \<noteq> (0 :: u8)" if "c \<in> set data_string" for c
    using data_string_nonzero that unfolding list_all_iff of_char_eq_0 by (rule bspec)
  have "0 \<notin> set data_text"
  proof
    assume "0 \<in> set data_text"
    then have "(0 :: u8) \<in> of_char ` set data_string" unfolding data_text_def by simp
    then obtain c where "c \<in> set data_string" "(0 :: u8) = of_char c" by (rule imageE)
    then show False using ne by metis
  qed
  then show ?thesis unfolding flash_data_def by (rule cstr_put_bytes) (simp_all add: length_data_text)
qed

lemma strlen_flash_data: "strlen flash_data 0 = Some 1200"
  unfolding strlen_eq_Some_iff by (intro exI conjI, rule flash_data_cstr, rule length_data_text)

text \<open>The digits of a session key.\<close>

lemma length_key_digits [simp]: "length (fst (key_digits n g)) = n"
  by (induction n arbitrary: g) (auto simp: split_def Let_def)

definition hex_chars :: "u8 list" where
  "hex_chars = [0x30, 0x31, 0x32, 0x33, 0x34, 0x35, 0x36, 0x37, 0x38, 0x39, 0x41, 0x42, 0x43, 0x44, 0x45, 0x46]"

lemma key_char_hex: "(ucast (if sint (v mod 16) < 10 then v mod 16 + 48 else v mod 16 + 55 :: u32) :: u8) \<in> set hex_chars"
proof -
  have "v mod 16 < (16 :: u32)" by (simp add: word_less_nat_alt unat_mod)
  then have "unat (v mod 16) < 16" by (simp add: word_less_nat_alt)
  then obtain k where k: "v mod 16 = of_nat k" "k < 16" using word_unat_of_nat_self [of "v mod 16"] by metis
  then have "k \<in> set [0..<16]" by simp
  then show ?thesis unfolding k(1) by (simp add: upt_rec) (elim disjE; simp add: hex_chars_def)
qed

lemma key_digits_hex: "set (fst (key_digits n g)) \<subseteq> set hex_chars"
proof (induction n arbitrary: g)
  case (Suc n)
  then show ?case using key_char_hex by (simp add: split_def Let_def)
qed simp

lemma hex_chars_digits: "\<forall>c \<in> set hex_chars. key_digit c \<noteq> None \<and> c \<noteq> 0"
  by code_simp

section \<open>Invariants of the service\<close>

definition ends :: "service \<Rightarrow> nat" where
  "ends s = length (filter (\<lambda>e. e = EndRpc) (out s))"

definition key_cleared :: "service \<Rightarrow> bool" where
  "key_cleared s \<longleftrightarrow> (\<forall>a. unat a < 128 \<longrightarrow> decryptedAESKey s a = 0)"

definition untouched :: "service \<Rightarrow> bool" where
  "untouched s \<longleftrightarrow> encrypted s = (\<lambda>_. 0) \<and> decrypted s = (\<lambda>_. 0) \<and> contract s = (\<lambda>_. 0) \<and> encryptedAESKey s = (\<lambda>_. 0)
     \<and> nbytes s = 0 \<and> rng s = mwc_boot"

definition service_inv :: "service \<Rightarrow> bool" where
  "service_inv s \<longleftrightarrow> key_cleared s
     \<and> (rpc_count s = 0 \<and> heap_inits s = 0 \<and> untouched s \<or> rpc_count s = 1 \<and> heap_inits s = 1)"

lemma ends_say [simp]: "ends (say e s) = ends s + (if e = EndRpc then 1 else 0)"
  by (simp add: ends_def say_def)

lemma say_fields [simp]:
  "rpc_count (say e s) = rpc_count s" "heap_inits (say e s) = heap_inits s" "key_cleared (say e s) = key_cleared s"
  "untouched (say e s) = untouched s" "decryptedAESKey (say e s) = decryptedAESKey s" "encrypted (say e s) = encrypted s"
  "contract (say e s) = contract s" "encryptedAESKey (say e s) = encryptedAESKey s" "nbytes (say e s) = nbytes s" "rng (say e s) = rng s"
  "decrypted (say e s) = decrypted s"
  by (simp_all add: say_def key_cleared_def untouched_def)

lemma ends_update [simp]:
  "ends (s\<lparr>encrypted := a\<rparr>) = ends s" "ends (s\<lparr>decrypted := a\<rparr>) = ends s" "ends (s\<lparr>contract := a\<rparr>) = ends s"
  "ends (s\<lparr>encryptedAESKey := a\<rparr>) = ends s" "ends (s\<lparr>decryptedAESKey := a\<rparr>) = ends s" "ends (s\<lparr>nbytes := n\<rparr>) = ends s"
  "ends (s\<lparr>rng := g\<rparr>) = ends s" "ends (s\<lparr>heap_inits := k\<rparr>) = ends s" "ends (s\<lparr>rpc_count := n\<rparr>) = ends s"
  by (simp_all add: ends_def)

text \<open>What an operation leaves alone.\<close>

definition keeps :: "service \<Rightarrow> service \<Rightarrow> bool" where
  "keeps s s' \<longleftrightarrow> rpc_count s' = rpc_count s \<and> heap_inits s' = heap_inits s \<and> ends s' = ends s"

lemma getContract_keeps: "getContract C env s = Some s' \<Longrightarrow> keeps s s' \<and> key_cleared s'"
  unfolding getContract_def Let_def
  by (auto simp: keeps_def key_cleared_def put_bytes_def bind_eq_Some_conv split: prod.splits if_splits)

lemma say_str_Some: "say_str p s = Some s' \<Longrightarrow> \<exists>bs. s' = say (PrintStr bs) s"
  by (auto simp: say_str_def)

lemma initFlashData_keeps: "initFlashData C env s = Some s' \<Longrightarrow> keeps s s' \<and> decryptedAESKey s' = decryptedAESKey s"
  unfolding initFlashData_def Let_def
  by (auto simp: keeps_def bind_eq_Some_conv case_prod_beta dest!: say_str_Some split: if_splits)

lemma read_contract_keeps: "read_contract s = Some s' \<Longrightarrow> keeps s s' \<and> key_cleared s' = key_cleared s \<and> untouched s' = untouched s"
  unfolding read_contract_def by (auto simp: keeps_def dest!: say_str_Some)

lemma keeps_say: "e \<noteq> EndRpc \<Longrightarrow> keeps s (say e s)"
  by (simp add: keeps_def)

lemma service_main_says:
  "rpc_count (service_main n s) = rpc_count s \<and> heap_inits (service_main n s) = heap_inits s + 1
    \<and> ends (service_main n s) = ends s \<and> key_cleared (service_main n s) = key_cleared s"
  by (simp add: service_main_def Let_def key_cleared_def)

lemma handler_rpc_inv:
  assumes "handler_rpc C env callNum params s = Some s'" "service_inv s"
  shows "service_inv s' \<and> ends s' = ends s + 1 \<and> (rpc_count s' = 0 \<longleftrightarrow> rpc_count s = 0 \<and> callNum \<noteq> 0)"
proof -
  have fin: "finish_rpc t = t\<lparr>out := out t @ [EndRpc]\<rparr>" for t by (simp add: finish_rpc_def say_def)
  have inv: "service_inv (finish_rpc t) = service_inv t" "ends (finish_rpc t) = ends t + 1" "rpc_count (finish_rpc t) = rpc_count t" for t
    by (simp_all add: finish_rpc_def service_inv_def)
  have kp: "service_inv t" if "keeps s t" "key_cleared t" "rpc_count s = 0 \<longrightarrow> untouched t" for t
    using that assms(2) by (auto simp: service_inv_def keeps_def)
  have cl: "key_cleared s" using assms(2) by (simp add: service_inv_def)
  have un: "rpc_count s = 0 \<Longrightarrow> untouched s" using assms(2) by (auto simp: service_inv_def)
  obtain t where t: "s' = finish_rpc t" and op: "(if callNum = 0
        then if rpc_count s = 0
             then Some ((service_main params (say (Print ''Initializing Trusted Service\<newline>'') s))\<lparr>rpc_count := rpc_count
                   (service_main params (say (Print ''Initializing Trusted Service\<newline>'') s)) + 1\<rparr>)
             else Some (say (Print ''Already initialized trusted service'') s)
        else if callNum = 1
        then if rpc_count s \<noteq> 0 then initFlashData C env s else Some (say (Print ''Trusted service not initialized'') s)
        else if callNum = 2 then Some s
        else if callNum = 3
        then if rpc_count s \<noteq> 0 then getContract C env s else Some (say (Print ''Trusted service not initialized'') s)
        else if callNum = 4 then read_contract s
        else Some (say (PrintNum ''Unknown trusted operation: %d\<newline>'' callNum) s)) = Some t"
    using assms(1) unfolding handler_rpc_def Let_def by (auto simp del: if_split)
  have "service_inv t \<and> ends t = ends s \<and> (rpc_count t = 0 \<longleftrightarrow> rpc_count s = 0 \<and> callNum \<noteq> 0)"
  proof (cases "callNum = 0 \<and> rpc_count s = 0")
    case True
    then have "heap_inits s = 0" using assms(2) by (auto simp: service_inv_def)
    then show ?thesis using True op cl service_main_says [of params "say (Print ''Initializing Trusted Service\<newline>'') s"]
      by (auto simp: service_inv_def key_cleared_def)
  next
    case False
    have "keeps s t \<and> key_cleared t \<and> (rpc_count s = 0 \<longrightarrow> untouched t)"
      using False op cl un getContract_keeps [of C env s t] initFlashData_keeps [of C env s t] read_contract_keeps [of s t]
      by (auto simp: keeps_say key_cleared_def keeps_def split: if_splits)
    then show ?thesis using kp [of t] False by (auto simp: keeps_def)
  qed
  then show ?thesis unfolding t by (simp add: inv)
qed

lemma service_run_inv:
  assumes "service_run C calls s = Some s'" "service_inv s"
  shows "service_inv s' \<and> ends s' = ends s + length calls \<and> (rpc_count s' = 0 \<longleftrightarrow> rpc_count s = 0 \<and> (\<forall>(env, n, p) \<in> set calls. n \<noteq> 0))"
  using assms
proof (induction calls arbitrary: s)
  case (Cons c calls)
  obtain env n p where c: "c = (env, n, p)" by (cases c)
  from Cons.prems obtain s1 where s1: "handler_rpc C env n p s = Some s1" "service_run C calls s1 = Some s'"
    unfolding c by (auto simp: bind_eq_Some_conv)
  show ?case using handler_rpc_inv [OF s1(1) Cons.prems(2)] Cons.IH [OF s1(2)] unfolding c by auto
qed simp

text \<open>C31: After every sequence of remote calls, the buffer of the decrypted session key is clear, the heap has been initialised at most once,
  by the first call with number 0, every call has ended with one end of call, and before that first call no secret is in memory.\<close>

theorem service_clears_key:
  assumes "service_run C calls service_start = Some s"
  shows "key_cleared s \<and> heap_inits s = (if \<exists>(env, n, p) \<in> set calls. n = 0 then 1 else 0) \<and> ends s = length calls
    \<and> ((\<exists>(env, n, p) \<in> set calls. n = 0) \<or> untouched s)"
proof -
  have "service_inv service_start" "ends service_start = 0" "rpc_count service_start = 0"
    by (simp_all add: service_inv_def service_start_def key_cleared_def untouched_def ends_def)
  then show ?thesis using service_run_inv [OF assms] by (auto simp: service_inv_def split_def)
qed

definition demo_surroundings :: surroundings where
  "demo_surroundings = \<lparr>behind_key = (\<lambda>_. 0), cipher_buf = replicate 48 1, heap_block = (\<lambda>_. 2), seed_reg = 3\<rparr>"

text \<open>The plain text as ciphertext: keys of 32 characters come back.\<close>

definition demo_crypto :: crypto where
  "demo_crypto = \<lparr>aes_enc = demo_cipher, aes_dec = demo_cipher, rsaEncrypt = (\<lambda>m e n old. (0, put_bytes old 0 (bytes_of m 0 32))),
     rsaDecrypt = (\<lambda>m d n old. (0, put_bytes old 0 (bytes_of m 0 32)))\<rparr>"

lemma service_clears_key_witness:
  "\<exists>s. service_run (demo_crypto\<lparr>rsaDecrypt := \<lambda>m d n old. (1, \<lambda>_. 9)\<rparr>) [(demo_surroundings, 0, 7), (demo_surroundings, 3, 0)] service_start = Some s
     \<and> key_cleared s \<and> heap_inits s = 1 \<and> ends s = 2"
proof -
  obtain s where s: "service_run (demo_crypto\<lparr>rsaDecrypt := \<lambda>m d n old. (1, \<lambda>_. 9)\<rparr>) [(demo_surroundings, 0, 7), (demo_surroundings, 3, 0)] service_start = Some s"
    by (simp add: handler_rpc_def getContract_def service_main_def finish_rpc_def say_def Let_def service_start_def)
  show ?thesis using service_clears_key [OF s] s by auto
qed

section \<open>The text comes back\<close>

text \<open>What is needed of RSA: it gives back session keys.\<close>

definition rsa_ok :: "crypto \<Rightarrow> bool" where
  "rsa_ok C \<longleftrightarrow> (\<forall>m ks old old'. cstr m 0 ks \<and> length ks = 32 \<longrightarrow>
     fst (rsaEncrypt C m g_e g_modulus old) = 0
     \<and> rsaDecrypt C (snd (rsaEncrypt C m g_e g_modulus old)) g_d g_modulus old' = (0, put_bytes old' 0 ks))"

lemma strlen_exists: "p (of_nat k) = 0 \<Longrightarrow> \<exists>n. strlen p 0 = Some n"
proof -
  have "p (off + of_nat k) = 0 \<Longrightarrow> \<exists>xs. cstr p off xs" for off
  proof (induction k arbitrary: off)
    case 0
    then show ?case by (intro exI [of _ "[]"]) simp
  next
    case (Suc k)
    show ?case
    proof (cases "p off = 0")
      case True
      then show ?thesis by (intro exI [of _ "[]"]) simp
    next
      case False
      obtain xs where "cstr p (off + 1) xs" using Suc.IH [of "off + 1"] Suc.prems by (auto simp: algebra_simps)
      then show ?thesis using False by (intro exI [of _ "p off # xs"]) simp
    qed
  qed
  from this [of 0] show "p (of_nat k) = 0 \<Longrightarrow> \<exists>n. strlen p 0 = Some n" by (auto simp: strlen_eq_Some_iff)
qed

lemma say_str_returns: "p (of_nat k) = 0 \<Longrightarrow> \<exists>bs. say_str p s = Some (say (PrintStr bs) s)"
  using strlen_exists [of p k] by (auto simp: say_str_def)

lemma session_key:
  assumes "b 32 = 0" and "ks = fst (generateAESKey g)"
  shows "length ks = 32 \<and> 0 \<notin> set ks \<and> cstr (put_bytes b 0 ks) 0 ks \<and> hex_key (put_bytes b 0 ks)"
proof -
  have ks: "length ks = 32" "set ks \<subseteq> set hex_chars" using key_digits_hex by (simp_all add: assms(2) generateAESKey_def)
  then have "0 \<notin> set ks" "\<forall>d \<in> set ks. key_digit d \<noteq> None" using hex_chars_digits by blast+
  moreover from this have "cstr (put_bytes b 0 ks) 0 ks" using ks(1) assms(1) by (intro cstr_put_bytes) simp_all
  ultimately show ?thesis using ks(1) unfolding hex_key_def by blast
qed

lemma initFlashData_encrypts:
  assumes cipher: "cipher_ok (aes_enc C) (aes_dec C)" and rsa: "rsa_ok C" and nul: "behind_key env 32 = 0" and buf: "length (cipher_buf env) = 48"
    and enc: "encrypted s = (\<lambda>_. 0)"
  obtains ks K g s' where "initFlashData C env s = Some s'" "length ks = 32" "0 \<notin> set ks" "cstr K 0 ks" "hex_key K"
    "encrypted s' = put_bytes (\<lambda>_. 0) 0 (aes_text (aes_enc C) K (seed_reg env) g data_text)"
    "length (aes_text (aes_enc C) K (seed_reg env) g data_text) = 1216"
    "encryptedAESKey s' = snd (rsaEncrypt C K g_e g_modulus (encryptedAESKey s))" "nbytes s' = 1200"
    "contract s' = copy_buf (contract s) (encrypted s') 1200" "decryptedAESKey s' = decryptedAESKey s"
    "decrypted s' = decrypted s" "rpc_count s' = rpc_count s"
proof -
  define ks where "ks = fst (generateAESKey (rng s))"
  define g where "g = snd (generateAESKey (rng s))"
  define K where "K = put_bytes (behind_key env) 0 ks"
  define c where "c = aes_text (aes_enc C) K (seed_reg env) g data_text"
  have gen: "generateAESKey (rng s) = (ks, g)" by (simp add: ks_def g_def)
  have ks: "length ks = 32" "0 \<notin> set ks" "cstr K 0 ks" "hex_key K"
    using session_key [of "behind_key env", OF nul ks_def] unfolding K_def [symmetric] by blast+
  have K0: "K (of_nat 32) = 0" using cstr_end [OF ks(3)] ks(1) by simp
  have E: "length (aes_enc C (aes_key K) b) = 16" if "length b = 16" for b using cipher that by (simp add: cipher_ok_def)
  have w: "aesEncrypt (aes_enc C) (seed_reg env) (cipher_buf env) (heap_block env) K flash_data (\<lambda>_. 0) g
      = Some (OK, put_bytes (\<lambda>_. 0) 0 c, snd (fillrand (seed_reg env) 16 g))" "length c = 1216"
    using aesEncrypt_writes [where aes_enc = "aes_enc C", OF E ks(4) flash_data_cstr _ buf, of "seed_reg env" "heap_block env" "\<lambda>_. 0" g] length_data_text
    unfolding c_def by simp_all
  have c0: "put_bytes (\<lambda>_. 0) 0 c (of_nat 1216) = 0" using w(2) by (simp add: put_bytes_def)
  obtain bs1 bs2 where p: "\<And>t. say_str K t = Some (say (PrintStr bs1) t)" "\<And>t. say_str (put_bytes (\<lambda>_. 0) 0 c) t = Some (say (PrintStr bs2) t)"
    using strlen_exists [of K 32] strlen_exists [of "put_bytes (\<lambda>_. 0) 0 c" 1216] K0 c0 by (auto simp: say_str_def)
  have rsaE: "fst (rsaEncrypt C K g_e g_modulus old) = 0" for old
    using rsa ks(1,3) unfolding rsa_ok_def by blast
  have "\<exists>s'. initFlashData C env s = Some s' \<and> encrypted s' = put_bytes (\<lambda>_. 0) 0 c \<and> nbytes s' = 1200
     \<and> encryptedAESKey s' = snd (rsaEncrypt C K g_e g_modulus (encryptedAESKey s))
     \<and> contract s' = copy_buf (contract s) (put_bytes (\<lambda>_. 0) 0 c) 1200 \<and> decryptedAESKey s' = decryptedAESKey s
     \<and> decrypted s' = decrypted s \<and> rpc_count s' = rpc_count s"
    unfolding initFlashData_def Let_def
    by (simp add: gen strlen_flash_data K_def [symmetric] p w enc OK_def case_prod_beta rsaE)
  then show thesis using that [of _ ks K g] ks w(2) unfolding c_def by metis
qed

lemma copy_put_bytes: "length c \<le> 4294967296 \<Longrightarrow> unat n \<le> length c \<Longrightarrow> copy_buf dst (put_bytes p 0 c) n = put_bytes dst 0 (take (unat n) c)"
  using bytes_of_put_bytes [of c 0 "unat n" p 0] by (simp add: copy_buf_def)

lemma put_bytes_twice: "length xs = length ys \<Longrightarrow> put_bytes (put_bytes p off xs) off ys = put_bytes p off ys"
  by (simp add: put_bytes_def fun_eq_iff)

lemma getContract_decrypts:
  assumes cipher: "cipher_ok (aes_enc C) (aes_dec C)" and rsa: "rsa_ok C" and buf: "length (cipher_buf env) = 48"
    and ks: "length ks = 32" "0 \<notin> set ks" "cstr K 0 ks" "hex_key K" and clear: "decryptedAESKey s = (\<lambda>_. 0)"
    and enc: "encrypted s = put_bytes (\<lambda>_. 0) 0 (aes_text (aes_enc C) K seed g data_text)" "nbytes s = 1200"
    and len: "length (aes_text (aes_enc C) K seed g data_text) = 1216"
    and key: "encryptedAESKey s = snd (rsaEncrypt C K g_e g_modulus old)"
  obtains s' where "getContract C env s = Some s'" "contract s' = put_bytes (contract s) 0 data_text"
proof -
  define K' where "K' = put_bytes (\<lambda>_. 0) 0 ks"
  have K': "cstr K' 0 ks" using ks(1,2) unfolding K'_def by (intro cstr_put_bytes) simp_all
  have hex: "hex_key K'" using ks(3,4) K' cstr_unique [of K 0 ks] unfolding hex_key_def by metis
  have same: "aes_text (aes_enc C) K' seed g data_text = aes_text (aes_enc C) K seed g data_text"
    using aes_key_cong [OF K' ks(3)] by (simp add: aes_text_def)
  have R: "rsaDecrypt C (encryptedAESKey s) g_d g_modulus (decryptedAESKey s) = (0, K')"
    using rsa ks(1,3) unfolding rsa_ok_def key clear K'_def by blast
  have rd: "bytes_of (encrypted s) 0 (16 + length data_text) = aes_text (aes_enc C) K' seed g data_text"
    using bytes_of_put_bytes [of "aes_text (aes_enc C) K seed g data_text" 0 1216 "\<lambda>_. 0" 0] len
    by (simp add: enc same length_data_text)
  have D: "aesDecrypt (aes_dec C) (cipher_buf env) K' (encrypted s) (decrypted s) 1200 = Some (OK, put_bytes (decrypted s) 0 data_text)"
    using aesDecrypt_reads [OF cipher hex _ buf rd, of "decrypted s"] by (simp add: length_data_text)
  have cp: "copy_buf (contract s) (put_bytes (decrypted s) 0 data_text) 1200 = put_bytes (contract s) 0 data_text"
    using copy_put_bytes [of data_text 1200 "contract s" "decrypted s"] by (simp add: length_data_text)
  have "\<exists>s'. getContract C env s = Some s' \<and> contract s' = put_bytes (contract s) 0 data_text"
    unfolding getContract_def Let_def by (simp add: R D enc(2) OK_def cp)
  then show thesis using that by blast
qed


lemma demo_crypto_ok: "cipher_ok (aes_enc demo_crypto) (aes_dec demo_crypto) \<and> rsa_ok demo_crypto"
proof
  show "cipher_ok (aes_enc demo_crypto) (aes_dec demo_crypto)" using demo_cipher_ok by (simp add: demo_crypto_def)
  show "rsa_ok demo_crypto"
    unfolding rsa_ok_def
  proof (intro allI impI)
    fix m ks old old' assume "cstr m 0 ks \<and> length ks = 32"
    then have ks: "bytes_of m 0 32 = ks" "length ks = 32" using bytes_of_cstr [of m 0 ks] by auto
    have "bytes_of (put_bytes old 0 ks) 0 32 = ks" using bytes_of_put_bytes [of ks 0 32 old 0] ks(2) by simp
    then show "fst (rsaEncrypt demo_crypto m g_e g_modulus old) = 0
      \<and> rsaDecrypt demo_crypto (snd (rsaEncrypt demo_crypto m g_e g_modulus old)) g_d g_modulus old' = (0, put_bytes old' 0 ks)"
      using ks(1) by (simp add: demo_crypto_def)
  qed
qed


text \<open>The code does not write the zero byte: \<open>generateAESKey\<close> fills the 32 characters of \<open>sessionKey\<close>, and the line that would end the
  string is a comment. When a byte that is no digit follows, the encryption fails and the text is not stored.\<close>

lemma key_loop_bad_digit:
  "cstr (s(x := 0)) p ds \<Longrightarrow> x = p + of_nat (length ds) \<Longrightarrow> i + length ds < 64 \<Longrightarrow> \<forall>d \<in> set ds. key_digit d \<noteq> None \<Longrightarrow>
    s x \<noteq> 0 \<Longrightarrow> key_digit (s x) = None \<Longrightarrow> key_loop s p i byt key = Inl ()"
proof (induction ds arbitrary: p i byt key)
  case Nil
  then show ?case by (subst key_loop.simps) simp
next
  case (Cons d ds)
  have "unat (of_nat (Suc (length ds)) :: u32) \<noteq> unat (0 :: u32)" using Cons.prems(3) by (subst unat_of_nat_u32) simp_all
  then have "of_nat (Suc (length ds)) \<noteq> (0 :: u32)" by metis
  then have "p \<noteq> x" using Cons.prems(2) by simp
  then have d: "s p = d" "d \<noteq> 0" "cstr (s(x := 0)) (p + 1) ds" using Cons.prems(1) by (simp_all add: fun_upd_def)
  obtain v where v: "key_digit d = Some v" using Cons.prems(4) by auto
  have "key_loop s (p + 1) (Suc i) byt' key' = Inl ()" for byt' key'
    using Cons.prems d by (intro Cons.IH) (simp_all add: algebra_simps)
  then show ?case using d v Cons.prems(3) by (subst key_loop.simps) (simp add: Let_def)
qed

lemma session_key_unterminated:
  assumes "behind_key env 32 \<noteq> 0" "key_digit (behind_key env 32) = None" "initFlashData C env s = Some s'"
  shows "encrypted s' = encrypted s \<and> encryptedAESKey s' = encryptedAESKey s \<and> last (out s') = Print ''AES encryption failed.\<newline>''"
proof -
  define ks where "ks = fst (generateAESKey (rng s))"
  define g where "g = snd (generateAESKey (rng s))"
  have gen: "generateAESKey (rng s) = (ks, g)" by (simp add: ks_def g_def)
  define K where "K = put_bytes (behind_key env) 0 ks"
  have ks: "length ks = 32" "set ks \<subseteq> set hex_chars" using key_digits_hex by (simp_all add: ks_def generateAESKey_def)
  have K: "K 32 = behind_key env 32" using ks(1) by (simp add: K_def put_bytes_def)
  have "cstr (put_bytes ((behind_key env)(32 := 0)) 0 ks) 0 ks"
    using session_key [of "(behind_key env)(32 := 0)" ks "rng s"] by (simp add: ks_def)
  moreover have "put_bytes ((behind_key env)(32 := 0)) 0 ks = K(32 := 0)" using ks(1) by (auto simp: K_def put_bytes_def fun_eq_iff)
  ultimately have c: "cstr (K(32 := 0)) 0 ks" by simp
  have "key_loop K 0 0 0 [] = Inl ()"
    using ks hex_chars_digits assms(1,2) by (intro key_loop_bad_digit [OF c]) (auto simp: K)
  then have "aesEncrypt e sd cb hb K flash_data enc g = Some (- 1, enc, g)" for e sd cb hb enc
    by (simp add: aesEncrypt_def strlen_flash_data Let_def)
  then show ?thesis using assms(3) unfolding initFlashData_def Let_def
    by (auto simp: gen K_def [symmetric] strlen_flash_data bind_eq_Some_conv dest!: say_str_Some) (simp add: say_def)
qed

end
