(* ===== verification/Soc_Dev.thy ===== *)
theory Soc_Dev
  imports Sth_Prelude
begin

text \<open>
  Device registers as the drivers under \<open>core/hw/soc/\<close> and \<open>drivers/\<close> see them: volatile words at fixed
  addresses. A register keeps the last value written until the device changes it; \<open>script\<close> holds, for each register, the
  values the device puts there before the coming reads. Every access is recorded in order. The register access functions are those of
  \<open>core/hw/cpu/arm/arm_common/arm_utils.S\<close>.
\<close>

section \<open>Registers\<close>

datatype dev_event = Rd u32 u32 | Wr u32 u32

record dev =
  regs :: "u32 \<Rightarrow> u32"
  script :: "u32 \<Rightarrow> u32 list"
  dlog :: "dev_event list"

definition hwreg_read :: "u32 \<Rightarrow> dev \<Rightarrow> u32 \<times> dev" where
  "hwreg_read adr d =
     (case script d adr of
        [] \<Rightarrow> (regs d adr, d\<lparr>dlog := dlog d @ [Rd adr (regs d adr)]\<rparr>)
      | v # vs \<Rightarrow> (v, d\<lparr>regs := (regs d)(adr := v), script := (script d)(adr := vs), dlog := dlog d @ [Rd adr v]\<rparr>))"

definition hwreg_write :: "u32 \<Rightarrow> u32 \<Rightarrow> dev \<Rightarrow> dev" where
  "hwreg_write adr v d = d\<lparr>regs := (regs d)(adr := v), dlog := dlog d @ [Wr adr v]\<rparr>"

definition hwreg_update :: "u32 \<Rightarrow> u32 \<Rightarrow> u32 \<Rightarrow> dev \<Rightarrow> dev" where
  "hwreg_update adr msk v d =
     (let (r3, d) = hwreg_read adr d; r3 = r3 AND NOT msk; r2 = v AND msk in hwreg_write adr (r3 OR r2) d)"

partial_function (option) hwreg_wait :: "u32 \<Rightarrow> u32 \<Rightarrow> u32 \<Rightarrow> dev \<Rightarrow> dev option" where
  "hwreg_wait adr msk v d =
     (let r2 = v AND msk; (r3, d) = hwreg_read adr d; r3 = r3 AND msk in if r3 = r2 then Some d else hwreg_wait adr msk r2 d)"

text \<open>\<open>*adr |= v\<close> and \<open>*adr &= v\<close>\<close>

definition reg_or :: "u32 \<Rightarrow> u32 \<Rightarrow> dev \<Rightarrow> dev" where
  "reg_or adr v d = (let (r, d) = hwreg_read adr d in hwreg_write adr (r OR v) d)"

definition reg_and :: "u32 \<Rightarrow> u32 \<Rightarrow> dev \<Rightarrow> dev" where
  "reg_and adr v d = (let (r, d) = hwreg_read adr d in hwreg_write adr (r AND v) d)"

text \<open>\<open>while(!(*adr & bits)) ;\<close> and \<open>while(*adr & bits) ;\<close>\<close>

partial_function (option) wait_set :: "u32 \<Rightarrow> u32 \<Rightarrow> dev \<Rightarrow> dev option" where
  "wait_set adr bits d = (let (r, d) = hwreg_read adr d in if r AND bits \<noteq> 0 then Some d else wait_set adr bits d)"

partial_function (option) wait_clear :: "u32 \<Rightarrow> u32 \<Rightarrow> dev \<Rightarrow> dev option" where
  "wait_clear adr bits d = (let (r, d) = hwreg_read adr d in if r AND bits = 0 then Some d else wait_clear adr bits d)"

declare wait_set.simps [code] wait_clear.simps [code] hwreg_wait.simps [code]

section \<open>What the accesses do\<close>

definition reg_writes :: "dev_event list \<Rightarrow> (u32 \<times> u32) list" where
  "reg_writes es = List.map_filter (\<lambda>e. case e of Wr a v \<Rightarrow> Some (a, v) | Rd _ _ \<Rightarrow> None) es"

lemma reg_writes_simps [simp]:
  "reg_writes [] = []" "reg_writes (Wr a v # es) = (a, v) # reg_writes es" "reg_writes (Rd a v # es) = reg_writes es" "reg_writes (es @ fs) = reg_writes es @ reg_writes fs"
  by (simp_all add: reg_writes_def List.map_filter_def)

text \<open>A register the device does not change by itself.\<close>

abbreviation quiet :: "dev \<Rightarrow> u32 \<Rightarrow> bool" where
  "quiet d adr \<equiv> script d adr = []"

lemma read_quiet: "quiet d adr \<Longrightarrow> hwreg_read adr d = (regs d adr, d\<lparr>dlog := dlog d @ [Rd adr (regs d adr)]\<rparr>)"
  by (simp add: hwreg_read_def)

lemma read_regs_other: "a \<noteq> adr \<Longrightarrow> regs (snd (hwreg_read adr d)) a = regs d a"
  by (simp add: hwreg_read_def split: list.split)

lemma read_script_other: "a \<noteq> adr \<Longrightarrow> script (snd (hwreg_read adr d)) a = script d a"
  by (simp add: hwreg_read_def split: list.split)

lemma read_regs_same: "regs (snd (hwreg_read adr d)) adr = fst (hwreg_read adr d)"
  by (simp add: hwreg_read_def split: list.split)

lemma read_log: "dlog (snd (hwreg_read adr d)) = dlog d @ [Rd adr (fst (hwreg_read adr d))]"
  by (simp add: hwreg_read_def split: list.split)

lemma write_sel [simp]:
  "regs (hwreg_write adr v d) = (regs d)(adr := v)" "script (hwreg_write adr v d) = script d"
  "dlog (hwreg_write adr v d) = dlog d @ [Wr adr v]"
  by (simp_all add: hwreg_write_def)

lemma reg_or_quiet:
  "quiet d adr \<Longrightarrow> regs (reg_or adr v d) = (regs d)(adr := regs d adr OR v) \<and> script (reg_or adr v d) = script d
     \<and> reg_writes (dlog (reg_or adr v d)) = reg_writes (dlog d) @ [(adr, regs d adr OR v)]"
  by (simp add: reg_or_def read_quiet)

lemma reg_and_quiet:
  "quiet d adr \<Longrightarrow> regs (reg_and adr v d) = (regs d)(adr := regs d adr AND v) \<and> script (reg_and adr v d) = script d
     \<and> reg_writes (dlog (reg_and adr v d)) = reg_writes (dlog d) @ [(adr, regs d adr AND v)]"
  by (simp add: reg_and_def read_quiet)

text \<open>
  Polling. The loop returns exactly when the device shows the bits at last, and it only reads: when it returns, the last
  thing seen is the register with one of the bits.
\<close>

definition polls :: "(u32 \<Rightarrow> bool) \<Rightarrow> u32 \<Rightarrow> dev \<Rightarrow> dev \<Rightarrow> bool" where
  "polls ok adr d d' \<longleftrightarrow> (\<exists>rs v. dlog d' = dlog d @ map (Rd adr) rs @ [Rd adr v] \<and> ok v \<and> regs d' = (regs d)(adr := v))
     \<and> (\<forall>a. a \<noteq> adr \<longrightarrow> script d' a = script d a)"

lemma polls_first: "ok (fst (hwreg_read adr d)) \<Longrightarrow> polls ok adr d (snd (hwreg_read adr d))"
  unfolding polls_def
  by (intro conjI exI [of _ "[]"] exI [of _ "fst (hwreg_read adr d)"] allI impI)
    (simp_all add: read_log read_script_other fun_eq_iff read_regs_other read_regs_same)

lemma polls_step: "polls ok adr (snd (hwreg_read adr d)) d' \<Longrightarrow> polls ok adr d d'"
  unfolding polls_def
proof (elim conjE exE, intro conjI)
  fix rs v assume "dlog d' = dlog (snd (hwreg_read adr d)) @ map (Rd adr) rs @ [Rd adr v]" "ok v" "regs d' = (regs (snd (hwreg_read adr d)))(adr := v)"
  then show "\<exists>rs v. dlog d' = dlog d @ map (Rd adr) rs @ [Rd adr v] \<and> ok v \<and> regs d' = (regs d)(adr := v)"
    by (intro exI [of _ "fst (hwreg_read adr d) # rs"] exI [of _ v]) (auto simp: read_log read_regs_other fun_eq_iff)
qed (simp add: read_script_other)

lemma wait_set_polls: "wait_set adr bits d = Some d' \<Longrightarrow> polls (\<lambda>v. v AND bits \<noteq> 0) adr d d'"
  by (rule wait_set.raw_induct [where P = "\<lambda>adr bits d d'. polls (\<lambda>v. v AND bits \<noteq> 0) adr d d'"])
    (auto simp: split_def Let_def intro: polls_first polls_step split: if_splits)

lemma wait_clear_polls: "wait_clear adr bits d = Some d' \<Longrightarrow> polls (\<lambda>v. v AND bits = 0) adr d d'"
  by (rule wait_clear.raw_induct [where P = "\<lambda>adr bits d d'. polls (\<lambda>v. v AND bits = 0) adr d d'"])
    (auto simp: split_def Let_def intro: polls_first polls_step split: if_splits)

lemma wait_set_returns:
  "(\<exists>v \<in> set (script d adr). v AND bits \<noteq> 0) \<or> quiet d adr \<and> regs d adr AND bits \<noteq> 0 \<Longrightarrow> \<exists>d'. wait_set adr bits d = Some d'"
proof (induction "script d adr" arbitrary: d)
  case Nil
  then have "quiet d adr" "regs d adr AND bits \<noteq> 0" by auto
  then show ?case by (subst wait_set.simps) (simp add: read_quiet)
next
  case (Cons v vs)
  define d1 where "d1 = snd (hwreg_read adr d)"
  have r: "hwreg_read adr d = (v, d1)" "script d1 adr = vs" by (simp_all add: d1_def hwreg_read_def flip: Cons.hyps(2))
  show ?case
  proof (cases "v AND bits = 0")
    case True
    have "\<exists>w \<in> set (v # vs). w AND bits \<noteq> 0" using Cons.prems unfolding Cons.hyps(2) [symmetric] by auto
    then have "\<exists>w \<in> set (script d1 adr). w AND bits \<noteq> 0" unfolding r(2) using True by simp
    then have "\<exists>d'. wait_set adr bits d1 = Some d'" using r(2) by (intro Cons.hyps(1)) simp_all
    then show ?thesis using True by (subst wait_set.simps) (simp add: r)
  next
    case False
    then show ?thesis by (subst wait_set.simps) (simp add: r)
  qed
qed

text \<open>A register that stays without the bits is waited for without end.\<close>

lemma wait_set_endless: "quiet d adr \<Longrightarrow> regs d adr AND bits = 0 \<Longrightarrow> wait_set adr bits d = None"
proof (rule ccontr)
  assume q: "quiet d adr" "regs d adr AND bits = 0" and "wait_set adr bits d \<noteq> None"
  then obtain d' where "wait_set adr bits d = Some d'" by auto
  then have "quiet d adr \<longrightarrow> regs d adr AND bits \<noteq> 0"
    by (rule wait_set.raw_induct [where P = "\<lambda>adr bits d d'. quiet d adr \<longrightarrow> regs d adr AND bits \<noteq> 0", rotated])
      (fastforce simp: split_def Let_def read_quiet split: if_splits)
  then show False using q by simp
qed

end
