(* ===== verification/Soc_Uart.thy ===== *)
theory Soc_Uart
  imports Soc_Dev Uc_Print
begin

text \<open>
  Serial ports. The first section is \<open>drivers/src/beagleboard/uart.c\<close>, the port of the OMAP processors, with the port's address as an
  argument because \<open>drivers/src/beaglebone/uart.c\<close> and the \<open>soc_uart.c\<close> of both processors differ in nothing else; the second is the
  PL011 of \<open>drivers/src/u8500_ref/uart.c\<close>. A \<open>char\<close> is given as the word that is written.
\<close>

section \<open>The OMAP port\<close>

definition UART_RHR :: u32 where "UART_RHR = 0x00"
definition UART_LCR :: u32 where "UART_LCR = 0x0C"
definition UART_LSR :: u32 where "UART_LSR = 0x14"

definition UART_LCR_DIV_EN :: u32 where "UART_LCR_DIV_EN = 0x80"
definition UART_LSR_TX_FIFO_E :: u32 where "UART_LSR_TX_FIFO_E = 0x20"
definition UART_LSR_RX_FIFO_E :: u32 where "UART_LSR_RX_FIFO_E = 0x01"
definition UART_OP_FLAGS :: u32 where "UART_OP_FLAGS = 0 OR 0 OR 3"

text \<open>Out of the divisor mode, if the port is in it.\<close>

definition uart_op_mode :: "u32 \<Rightarrow> dev \<Rightarrow> dev" where
  "uart_op_mode uart d =
     (let (lcr, d) = hwreg_read (uart + UART_LCR) d
      in if lcr AND UART_LCR_DIV_EN \<noteq> 0 then hwreg_write (uart + UART_LCR) UART_OP_FLAGS d else d)"

definition uart_can_write :: "u32 \<Rightarrow> dev \<Rightarrow> bool \<times> dev" where
  "uart_can_write uart d =
     (let d = uart_op_mode uart d; (lsr, d) = hwreg_read (uart + UART_LSR) d in (lsr AND UART_LSR_TX_FIFO_E \<noteq> 0, d))"

definition uart_can_read :: "u32 \<Rightarrow> dev \<Rightarrow> bool \<times> dev" where
  "uart_can_read uart d =
     (let d = uart_op_mode uart d; (lsr, d) = hwreg_read (uart + UART_LSR) d in (lsr AND UART_LSR_RX_FIFO_E = 0, d))"

partial_function (option) uart_wait :: "u32 \<Rightarrow> dev \<Rightarrow> dev option" where
  "uart_wait uart d = (let (ready, d) = uart_can_write uart d in if ready then Some d else uart_wait uart d)"

definition uart_write_char :: "u32 \<Rightarrow> u32 \<Rightarrow> dev \<Rightarrow> dev option" where
  "uart_write_char uart c d =
     Option.bind (uart_wait uart d) (\<lambda>d.
       let d = hwreg_write (uart + UART_RHR) c d
       in if c = 10 then map_option (hwreg_write (uart + UART_RHR) 13) (uart_wait uart d) else Some d)"

definition uart_read_char :: "u32 \<Rightarrow> dev \<Rightarrow> u32 \<times> dev" where
  "uart_read_char uart d = (let (ready, d) = uart_can_read uart d in if ready then hwreg_read (uart + UART_RHR) d else (- 1, d))"

definition beagleboard_uart :: u32 where "beagleboard_uart = 0x49020000 + 0xB2000000"

definition printf_putchar :: "u32 \<Rightarrow> dev \<Rightarrow> dev option" where
  "printf_putchar c d = uart_write_char beagleboard_uart c d"

declare uart_wait.simps [code]

section \<open>The PL011\<close>

definition PL011_DR :: u32 where "PL011_DR = 4 * 0"
definition PL011_FR :: u32 where "PL011_FR = 4 * 6"

definition pl011_can_write :: "u32 \<Rightarrow> dev \<Rightarrow> bool \<times> dev" where
  "pl011_can_write uart d =
     (if uart \<noteq> 0 then let (fr, d) = hwreg_read (uart + PL011_FR) d in (fr AND 0x20 = 0, d) else (False, d))"

definition pl011_write_char :: "u32 \<Rightarrow> u32 \<Rightarrow> dev \<Rightarrow> dev option" where
  "pl011_write_char uart c d =
     (if uart \<noteq> 0
      then Option.bind (wait_clear (uart + PL011_FR) 0x20 d) (\<lambda>d.
             let d = hwreg_write (uart + PL011_DR) c d
             in if c = 10 then map_option (hwreg_write (uart + PL011_DR) 13) (wait_clear (uart + PL011_FR) 0x20 d) else Some d)
      else Some d)"

section \<open>Characters sent\<close>

text \<open>The words written to the transmit register, and the rule a driver of the port must obey: a character is written only
  straight after the line status has shown an empty transmitter. \<open>armed\<close> says that it just has.\<close>

definition sent :: "u32 \<Rightarrow> dev_event list \<Rightarrow> u32 list" where
  "sent uart es = map snd (filter (\<lambda>(a, v). a = uart + UART_RHR) (reg_writes es))"

fun obeys :: "u32 \<Rightarrow> bool \<Rightarrow> dev_event list \<Rightarrow> bool" where
  "obeys uart armed [] = True"
| "obeys uart armed (Rd a v # es) = obeys uart (a = uart + UART_LSR \<and> v AND UART_LSR_TX_FIFO_E \<noteq> 0) es"
| "obeys uart armed (Wr a v # es) = ((a = uart + UART_RHR \<longrightarrow> armed) \<and> obeys uart False es)"

fun armed_after :: "u32 \<Rightarrow> bool \<Rightarrow> dev_event list \<Rightarrow> bool" where
  "armed_after uart armed [] = armed"
| "armed_after uart armed (Rd a v # es) = armed_after uart (a = uart + UART_LSR \<and> v AND UART_LSR_TX_FIFO_E \<noteq> 0) es"
| "armed_after uart armed (Wr a v # es) = armed_after uart False es"

lemma sent_simps [simp]:
  "sent uart [] = []" "sent uart (Rd a v # es) = sent uart es"
  "sent uart (Wr a v # es) = (if a = uart + UART_RHR then v # sent uart es else sent uart es)"
  "sent uart (es @ fs) = sent uart es @ sent uart fs"
  by (simp_all add: sent_def)

lemma obeys_append [simp]: "obeys uart armed (es @ fs) \<longleftrightarrow> obeys uart armed es \<and> obeys uart (armed_after uart armed es) fs"
  by (induction uart armed es rule: obeys.induct) auto

lemma armed_after_append [simp]: "armed_after uart armed (es @ fs) = armed_after uart (armed_after uart armed es) fs"
  by (induction uart armed es rule: armed_after.induct) auto

text \<open>\<open>logs uart d d' cs armed\<close>: between \<open>d\<close> and \<open>d'\<close> the characters \<open>cs\<close> were sent, by the rule, and \<open>armed\<close> holds at the end.\<close>

definition logs :: "u32 \<Rightarrow> dev \<Rightarrow> dev \<Rightarrow> u32 list \<Rightarrow> bool \<Rightarrow> bool" where
  "logs uart d d' cs armed \<longleftrightarrow>
     (\<exists>es. dlog d' = dlog d @ es \<and> sent uart es = cs \<and> (\<forall>b. obeys uart b es \<and> armed_after uart b es = armed))"

lemma logs_trans: "logs uart d d1 cs a \<Longrightarrow> logs uart d1 d2 cs' a' \<Longrightarrow> logs uart d d2 (cs @ cs') a'"
  unfolding logs_def by (elim exE conjE, rule exI) auto

lemma logs_write: "logs uart d d1 cs True \<Longrightarrow> logs uart d (hwreg_write (uart + UART_RHR) c d1) (cs @ [c]) False"
  unfolding logs_def by (elim exE conjE, rule exI) auto

lemma op_mode_log: "\<exists>es. dlog (uart_op_mode uart d) = dlog d @ es \<and> sent uart es = [] \<and> (\<forall>b. obeys uart b es)"
  by (auto simp: uart_op_mode_def split_def Let_def read_log UART_RHR_def UART_LCR_def UART_LSR_def)

lemma can_write_logs: "logs uart d (snd (uart_can_write uart d)) [] (fst (uart_can_write uart d))"
  unfolding logs_def using op_mode_log [of uart d] by (auto simp: uart_can_write_def split_def Let_def read_log)

lemma can_read_log: "\<exists>es. dlog (snd (uart_can_read uart d)) = dlog d @ es \<and> sent uart es = [] \<and> (\<forall>b. obeys uart b es)"
  using op_mode_log [of uart d] by (auto simp: uart_can_read_def split_def Let_def read_log)

lemma uart_wait_logs: "uart_wait uart d = Some d' \<Longrightarrow> logs uart d d' [] True"
proof (rule uart_wait.raw_induct [where P = "\<lambda>uart d d'. logs uart d d' [] True"])
  fix f uart d d'
  assume IH: "\<And>uart d d'. f uart d = Some d' \<Longrightarrow> logs uart d d' [] True"
    and f: "(let (ready, d) = uart_can_write uart d in if ready then Some d else f uart d) = Some d'"
  show "logs uart d d' [] True"
  proof (cases "fst (uart_can_write uart d)")
    case True
    then show ?thesis using f can_write_logs [of uart d] by (simp add: split_def Let_def)
  next
    case False
    then have "logs uart (snd (uart_can_write uart d)) d' [] True" using f IH by (simp add: split_def Let_def)
    then show ?thesis using logs_trans [OF can_write_logs] by force
  qed
qed

definition crlf :: "u32 \<Rightarrow> u32 list" where
  "crlf c = (if c = 10 then [10, 13] else [c])"

lemma uart_write_char_logs: "uart_write_char uart c d = Some d' \<Longrightarrow> logs uart d d' (crlf c) False"
proof -
  assume "uart_write_char uart c d = Some d'"
  then obtain d1 where d1: "uart_wait uart d = Some d1"
    and r: "(if c = 10 then map_option (hwreg_write (uart + UART_RHR) 13) (uart_wait uart (hwreg_write (uart + UART_RHR) c d1))
       else Some (hwreg_write (uart + UART_RHR) c d1)) = Some d'"
    by (auto simp: uart_write_char_def Let_def bind_eq_Some_conv)
  have w: "logs uart d (hwreg_write (uart + UART_RHR) c d1) [c] False" using logs_write [OF uart_wait_logs [OF d1]] by simp
  show ?thesis
  proof (cases "c = 10")
    case True
    then obtain d2 where "uart_wait uart (hwreg_write (uart + UART_RHR) c d1) = Some d2" "d' = hwreg_write (uart + UART_RHR) 13 d2"
      using r by auto
    then show ?thesis using logs_write [OF logs_trans [OF w uart_wait_logs]] True by (simp add: crlf_def)
  next
    case False
    then show ?thesis using w r by (simp add: crlf_def)
  qed
qed

text \<open>Sending returns when the transmitter gets empty again and again, which is what the port does.\<close>

definition uart_live :: "u32 \<Rightarrow> dev \<Rightarrow> bool" where
  "uart_live uart d \<longleftrightarrow> quiet d (uart + UART_LSR) \<and> regs d (uart + UART_LSR) AND UART_LSR_TX_FIFO_E \<noteq> 0"

lemma op_mode_other:
  "a \<noteq> uart + UART_LCR \<Longrightarrow> regs (uart_op_mode uart d) a = regs d a \<and> script (uart_op_mode uart d) a = script d a"
  by (simp add: uart_op_mode_def split_def Let_def read_regs_other read_script_other)

lemma uart_live_can_write: "uart_live uart d \<Longrightarrow> fst (uart_can_write uart d) \<and> uart_live uart (snd (uart_can_write uart d))"
  using op_mode_other [of "uart + UART_LSR" uart d]
  by (auto simp: uart_live_def uart_can_write_def split_def Let_def UART_LSR_def UART_LCR_def read_quiet)

lemma uart_live_wait: "uart_live uart d \<Longrightarrow> \<exists>d'. uart_wait uart d = Some d' \<and> uart_live uart d'"
  using uart_live_can_write [of uart d] by (subst uart_wait.simps) (simp add: split_def Let_def)

lemma uart_live_write: "uart_live uart d \<Longrightarrow> uart_live uart (hwreg_write (uart + UART_RHR) c d)"
  by (simp add: uart_live_def UART_LSR_def UART_RHR_def)

lemma uart_live_write_char: "uart_live uart d \<Longrightarrow> \<exists>d'. uart_write_char uart c d = Some d' \<and> uart_live uart d'"
proof -
  assume "uart_live uart d"
  then obtain d1 where d1: "uart_wait uart d = Some d1" "uart_live uart d1" using uart_live_wait by blast
  obtain d2 where "uart_wait uart (hwreg_write (uart + UART_RHR) c d1) = Some d2" "uart_live uart d2"
    using uart_live_wait [OF uart_live_write [OF d1(2)]] by blast
  then show ?thesis using d1 uart_live_write by (auto simp: uart_write_char_def Let_def)
qed

text \<open>A text, character by character, as \<open>printf\<close> hands it to \<open>printf_putchar\<close>.\<close>

fun put_chars :: "u32 list \<Rightarrow> dev \<Rightarrow> dev option" where
  "put_chars [] d = Some d"
| "put_chars (c # cs) d = Option.bind (printf_putchar c d) (put_chars cs)"

lemma put_chars_logs: "put_chars cs d = Some d' \<Longrightarrow> \<exists>es. dlog d' = dlog d @ es \<and> sent beagleboard_uart es = concat (map crlf cs)
  \<and> (\<forall>b. obeys beagleboard_uart b es)"
proof (induction cs arbitrary: d)
  case (Cons c cs)
  then obtain d1 where d1: "uart_write_char beagleboard_uart c d = Some d1" "put_chars cs d1 = Some d'"
    by (auto simp: printf_putchar_def bind_eq_Some_conv)
  obtain es where "dlog d1 = dlog d @ es" "sent beagleboard_uart es = crlf c" "\<forall>b. obeys beagleboard_uart b es"
    using uart_write_char_logs [OF d1(1)] unfolding logs_def by blast
  moreover obtain fs where "dlog d' = dlog d1 @ fs" "sent beagleboard_uart fs = concat (map crlf cs)" "\<forall>b. obeys beagleboard_uart b fs"
    using Cons.IH [OF d1(2)] by blast
  ultimately show ?case by (intro exI [of _ "es @ fs"]) simp
qed simp

lemma put_chars_live: "uart_live beagleboard_uart d \<Longrightarrow> \<exists>d'. put_chars cs d = Some d' \<and> uart_live beagleboard_uart d'"
proof (induction cs arbitrary: d)
  case (Cons c cs)
  obtain d1 where "uart_write_char beagleboard_uart c d = Some d1" "uart_live beagleboard_uart d1"
    using uart_live_write_char [OF Cons.prems] by blast
  then show ?case using Cons.IH by (simp add: printf_putchar_def)
qed simp

text \<open>\<open>printf\<close> on the board: its characters, one after the other, to the port.\<close>

definition console :: "mem \<Rightarrow> u32 \<Rightarrow> (nat \<Rightarrow> u32) \<Rightarrow> dev \<Rightarrow> dev option" where
  "console m fmt args d = Option.bind (printf m fmt args) (\<lambda>out. put_chars (map ucast out) d)"

lemma console_returns: "uart_live beagleboard_uart d \<Longrightarrow> printf m fmt args = Some out \<Longrightarrow> \<exists>d'. console m fmt args d = Some d'"
  using put_chars_live by (auto simp: console_def)

text \<open>C35: A \<open>printf\<close> on the board sends the characters of the formatted text, each line feed followed by a carriage return, and writes
  each one straight after the port has shown an empty transmitter.\<close>

theorem console_sends:
  assumes "console m fmt args d = Some d'"
  shows "\<exists>out es. printf m fmt args = Some out \<and> dlog d' = dlog d @ es
    \<and> sent beagleboard_uart es = concat (map (\<lambda>c. if c = 10 then [10, 13] else [ucast c]) out) \<and> (\<forall>b. obeys beagleboard_uart b es)"
proof -
  obtain out where out: "printf m fmt args = Some out" "put_chars (map ucast out) d = Some d'"
    using assms by (auto simp: console_def bind_eq_Some_conv)
  have c: "crlf (ucast c) = (if c = 10 then [10, 13] else [ucast c])" for c :: u8
  proof -
    have "(ucast c :: u32) = 10 \<longleftrightarrow> c = 10"
    proof
      assume "(ucast c :: u32) = 10"
      then have "unat (ucast c :: u32) = 10" by simp
      moreover have "unat (ucast c :: u32) = unat c"
        using unsigned_less [of c, where ?'a = nat] by (simp add: unsigned_ucast_eq take_bit_eq_mod)
      ultimately show "c = 10" by (simp add: word_unat_eq_iff)
    qed simp
    then show ?thesis by (simp add: crlf_def)
  qed
  have "map crlf (map ucast out) = map (\<lambda>c. if c = 10 then [10, 13] else [ucast c]) out"
    unfolding map_map by (rule map_cong [OF refl]) (simp only: comp_def c)
  from put_chars_logs [OF out(2), unfolded this] out(1) show ?thesis by simp
qed

definition demo_dev :: dev where
  "demo_dev = \<lparr>regs = (\<lambda>_. 0), script = (\<lambda>a. if a = beagleboard_uart + UART_LSR then [0, 0x60, 0, 0, 0x20, 0x20, 0x20] else []), dlog = []\<rparr>"

definition demo_fmt :: mem where
  "demo_fmt = (\<lambda>_. 0)(0x1000 := 0x78, 0x1001 := 0x0A)"

lemma console_sends_witness:
  "\<exists>d' es. console demo_fmt 0x1000 (\<lambda>_. 0) demo_dev = Some d' \<and> dlog d' = es
     \<and> sent beagleboard_uart es = [0x78, 10, 13] \<and> (\<forall>b. obeys beagleboard_uart b es)"
proof -
  have p: "printf demo_fmt 0x1000 (\<lambda>_. 0) = Some [0x78, 10]"
    by (subst printf.simps, subst printf.simps, subst printf.simps) (simp add: demo_fmt_def)
  have "put_chars [0x78, 10] demo_dev \<noteq> None" by code_simp
  then obtain d' where d': "console demo_fmt 0x1000 (\<lambda>_. 0) demo_dev = Some d'" using p by (auto simp: console_def)
  show ?thesis using console_sends [OF d'] p d' by (auto simp: demo_dev_def)
qed

end
