(* ===== verification/Soc_Omap35xx.thy ===== *)
theory Soc_Omap35xx
  imports Soc_Uart "HOL-Library.Signed_Division"
begin

text \<open>
  The system-on-chip of the BeagleBoard, \<open>core/hw/soc/omap35xx/\<close>: interrupt controller, tick timer, GPIO, serial port, and the part
  of the interrupt entry in \<open>soc_interrupt_vector.S\<close> between saving and restoring the context. Printing is left out.
\<close>

section \<open>State\<close>

text \<open>The functions that \<open>cpu_callback\<close> pointers of this code can hold; \<open>Callback\<close> is any other one, by its address.\<close>

datatype callback = NullCallback | DefaultHandler | InterruptHandlerStub | TimerTickStub | IrqHandler | Callback u32

text \<open>\<open>calls\<close> lists the calls of functions outside this code and of \<open>default_handler\<close>, with the interrupt number.\<close>

record soc =
  hw :: dev
  irq_function_table :: "nat \<Rightarrow> callback"
  interrupt_handler :: callback
  intc :: u32
  uart_p :: u32
  timer :: u32
  tick_handler :: callback
  calls :: "(callback \<times> u32) list"

definition soc_boot :: "dev \<Rightarrow> soc" where
  "soc_boot d = \<lparr>hw = d, irq_function_table = (\<lambda>_. NullCallback), interrupt_handler = NullCallback, intc = 0, uart_p = 0, timer = 0,
     tick_handler = NullCallback, calls = []\<rparr>"

definition on_hw :: "(dev \<Rightarrow> dev) \<Rightarrow> soc \<Rightarrow> soc" where
  "on_hw f s = s\<lparr>hw := f (hw s)\<rparr>"

definition wait_hw :: "(dev \<Rightarrow> dev option) \<Rightarrow> soc \<Rightarrow> soc option" where
  "wait_hw f s = map_option (\<lambda>d. s\<lparr>hw := d\<rparr>) (f (hw s))"

section \<open>Interrupt controller\<close>

definition INTC_BASE :: u32 where "INTC_BASE = 0x48200000"
definition INTC_SOURCE_COUNT :: nat where "INTC_SOURCE_COUNT = 96"

text \<open>Offsets in \<open>intc_registers\<close> and its sections.\<close>

definition intc_sysconfig :: u32 where "intc_sysconfig = 0x10"
definition intc_sysstatus :: u32 where "intc_sysstatus = 0x14"
definition intc_sir_irq :: u32 where "intc_sir_irq = 0x40"
definition intc_control :: u32 where "intc_control = 0x48"

definition intc_mir :: "u32 \<Rightarrow> u32" where "intc_mir sec = 0x80 + 0x20 * sec + 0x04"
definition intc_mir_clear :: "u32 \<Rightarrow> u32" where "intc_mir_clear sec = 0x80 + 0x20 * sec + 0x08"
definition intc_mir_set :: "u32 \<Rightarrow> u32" where "intc_mir_set sec = 0x80 + 0x20 * sec + 0x0C"

definition mask_interrupt :: "u32 \<Rightarrow> soc \<Rightarrow> soc" where
  "mask_interrupt irq s =
     (let offset = drop_bit 5 irq; irq = irq AND 31 in on_hw (hwreg_write (intc s + intc_mir_set offset) (push_bit (unat irq) 1)) s)"

definition unmask_interrupt :: "u32 \<Rightarrow> soc \<Rightarrow> soc" where
  "unmask_interrupt irq s =
     (let offset = drop_bit 5 irq; irq = irq AND 31 in on_hw (hwreg_write (intc s + intc_mir_clear offset) (push_bit (unat irq) 1)) s)"

definition cpu_irq_get_count :: nat where "cpu_irq_get_count = INTC_SOURCE_COUNT"

definition irq_in_range :: "u32 \<Rightarrow> bool" where
  "irq_in_range n \<longleftrightarrow> \<not> (sint n < 0 \<or> int INTC_SOURCE_COUNT \<le> sint n)"

definition cpu_irq_set_enable :: "u32 \<Rightarrow> bool \<Rightarrow> soc \<Rightarrow> soc" where
  "cpu_irq_set_enable n enable s =
     (if \<not> irq_in_range n then s
      else let sec = drop_bit 5 n; pos = n AND 0x1F; bit = push_bit (unat pos) 1
           in if enable
              then on_hw (hwreg_write (intc s + intc_mir_clear sec) bit) (on_hw (reg_and (intc s + intc_mir sec) (NOT bit)) s)
              else on_hw (hwreg_write (intc s + intc_mir_set sec) bit) (on_hw (reg_or (intc s + intc_mir sec) bit) s))"

definition cpu_irq_set_handler :: "u32 \<Rightarrow> callback \<Rightarrow> soc \<Rightarrow> soc" where
  "cpu_irq_set_handler n handler s =
     (if \<not> irq_in_range n then s
      else let handler = (if handler = NullCallback then InterruptHandlerStub else handler)
           in s\<lparr>irq_function_table := (irq_function_table s)(unat n := handler)\<rparr>)"

definition interrupt_set :: "u32 \<Rightarrow> callback \<Rightarrow> soc \<Rightarrow> soc" where
  "interrupt_set irq irq_handler s = cpu_irq_set_handler irq InterruptHandlerStub (s\<lparr>interrupt_handler := irq_handler\<rparr>)"

fun disable_loop :: "u32 list \<Rightarrow> soc \<Rightarrow> soc" where
  "disable_loop [] s = s"
| "disable_loop (i # is) s = disable_loop is (cpu_irq_set_handler i DefaultHandler (cpu_irq_set_enable i False s))"

definition soc_interrupt_init :: "soc \<Rightarrow> soc option" where
  "soc_interrupt_init s =
     (let s = s\<lparr>interrupt_handler := IrqHandler, intc := IO_VA_ADDRESS INTC_BASE\<rparr>;
          s = on_hw (hwreg_write (intc s + intc_sysconfig) 2) s
      in Option.bind (wait_hw (wait_set (intc s + intc_sysstatus) 1) s) (\<lambda>s.
           let s = disable_loop (map of_nat [0..<INTC_SOURCE_COUNT]) s;
               s = cpu_irq_set_enable 0x4A True s
           in Some (on_hw (hwreg_write (intc s + intc_control) 1) s)))"

section \<open>Tick timer\<close>

definition TIMER_BASES :: "u32 list" where
  "TIMER_BASES = [0x48318000, 0x49032000, 0x49034000, 0x49036000, 0x49038000, 0x4903A000, 0x4903C000, 0x4903E000, 0x49040000,
     0x48086000, 0x48088000, 0x48304000]"

definition INTC_IRQ_TIMER7 :: u32 where "INTC_IRQ_TIMER7 = 95"

definition tidr :: u32 where "tidr = 0x00"
definition tiocp_cfg :: u32 where "tiocp_cfg = 0x10"
definition tistat :: u32 where "tistat = 0x14"
definition tisr :: u32 where "tisr = 0x18"
definition tier :: u32 where "tier = 0x1C"
definition twer :: u32 where "twer = 0x20"
definition tclr :: u32 where "tclr = 0x24"
definition tcrr :: u32 where "tcrr = 0x28"
definition tldr :: u32 where "tldr = 0x2C"
definition tsicr :: u32 where "tsicr = 0x40"

definition timer_get :: "u32 \<Rightarrow> u32" where
  "timer_get n =
     (if n = 0 then 0 else if sint n < 1 \<or> 12 < sint n then 0 else IO_VA_ADDRESS (TIMER_BASES ! (unat n - 1)))"

definition timer_tick_get :: u32 where "timer_tick_get = IO_VA_ADDRESS (TIMER_BASES ! 11)"

definition timer_tick_clear_interrupt :: "soc \<Rightarrow> soc" where
  "timer_tick_clear_interrupt s = on_hw (hwreg_write (timer s + tisr) 2) s"

text \<open>The loop that waits for the reset counts its rounds and prints after 100000 of them, but does not stop.\<close>

definition timer_tick_start :: "callback \<Rightarrow> soc \<Rightarrow> soc option" where
  "timer_tick_start handler s =
     (let s = cpu_irq_set_enable INTC_IRQ_TIMER7 False s;
          s = s\<lparr>timer := timer_get 12\<rparr>;
          s = on_hw (hwreg_write (timer s + tsicr) 6) s
      in Option.bind (wait_hw (wait_set (timer s + tistat) 1) s) (\<lambda>s.
           let (l, d) = hwreg_read (timer s + tiocp_cfg) (hw s);
               s = s\<lparr>hw := d\<rparr>;
               l = l OR push_bit 3 2; l = l OR push_bit 8 2;
               s = on_hw (hwreg_write (timer s + tiocp_cfg) l) s;
               s = on_hw (hwreg_write (timer s + tsicr) 4) s;
               s = on_hw (hwreg_write (timer s + tldr) 0xFFFFFF00) s;
               s = on_hw (hwreg_write (timer s + tcrr) 0xFFFFFF00) s;
               s = s\<lparr>tick_handler := handler\<rparr>;
               s = cpu_irq_set_handler INTC_IRQ_TIMER7 TimerTickStub s;
               s = cpu_irq_set_enable INTC_IRQ_TIMER7 True s;
               s = on_hw (reg_or (timer s + tclr) 3) s;
               s = on_hw (reg_or (timer s + tisr) 7) s;
               s = on_hw (hwreg_write (timer s + tier) 2) s
           in Some (on_hw (hwreg_write (timer s + twer) 2) s)))"

fun timer_init_loop :: "u32 list \<Rightarrow> soc \<Rightarrow> soc" where
  "timer_init_loop [] s = s"
| "timer_init_loop (i # is) s =
     (let timer = timer_get i;
          s = on_hw (\<lambda>d. snd (hwreg_read (timer + tidr) (snd (hwreg_read (timer + tidr) d)))) s;
          s = on_hw (reg_or (timer + tclr) (NOT 1)) s;
          s = on_hw (reg_or (timer + tisr) 7) s
      in timer_init_loop is s)"

definition soc_timer_init :: "soc \<Rightarrow> soc" where
  "soc_timer_init s = timer_init_loop (map of_nat [1..<13]) s"

section \<open>Calling the handlers\<close>

text \<open>\<open>default_handler\<close>, \<open>interrupt_handler_stub\<close> and \<open>timer_tick_handler_stub\<close>, called through a pointer.\<close>

partial_function (option) run_callback :: "callback \<Rightarrow> u32 \<Rightarrow> soc \<Rightarrow> soc option" where
  "run_callback cb irq s =
     (case cb of
        InterruptHandlerStub \<Rightarrow> (if interrupt_handler s \<noteq> NullCallback then run_callback (interrupt_handler s) irq s else Some s)
      | TimerTickStub \<Rightarrow>
          Option.bind (if tick_handler s \<noteq> NullCallback then run_callback (tick_handler s) irq s else Some s)
            (\<lambda>s. Some (timer_tick_clear_interrupt s))
      | _ \<Rightarrow> Some (s\<lparr>calls := calls s @ [(cb, irq)]\<rparr>))"

text \<open>\<open>impl_irq\<close>, steps 2 to 4.\<close>

definition impl_irq :: "soc \<Rightarrow> soc option" where
  "impl_irq s =
     (let (irq, d) = hwreg_read (IO_VA_ADDRESS INTC_BASE + intc_sir_irq) (hw s);
          irq = irq AND 0x7F
      in Option.bind (run_callback (irq_function_table s (unat irq)) irq (s\<lparr>hw := d\<rparr>)) (\<lambda>s.
           Some (on_hw (hwreg_write (IO_VA_ADDRESS INTC_BASE + intc_control) 1) s)))"

section \<open>GPIO\<close>

definition gpio_bank_adr :: "u32 list" where
  "gpio_bank_adr = [0x48310000, 0x49050000, 0x49052000, 0x49054000, 0x49056000, 0x49058000]"

definition gpio_irqenable1 :: u32 where "gpio_irqenable1 = 0x1C"
definition gpio_irqenable2 :: u32 where "gpio_irqenable2 = 0x2C"
definition gpio_oe :: u32 where "gpio_oe = 0x34"
definition gpio_datain :: u32 where "gpio_datain = 0x38"
definition gpio_dataout :: u32 where "gpio_dataout = 0x3C"

definition gpio_get_bank_from_pin :: "u32 \<Rightarrow> u32" where "gpio_get_bank_from_pin pin = of_int (sint pin sdiv 32)"
definition gpio_get_position_from_pin :: "u32 \<Rightarrow> u32" where "gpio_get_position_from_pin pin = of_int (sint pin smod 32)"

definition gpio_get_bank :: "u32 \<Rightarrow> u32" where
  "gpio_get_bank bank = (if sint bank < 0 \<or> 6 \<le> sint bank then 0 else IO_VA_ADDRESS (gpio_bank_adr ! unat bank))"

definition gpio_set_data :: "u32 \<Rightarrow> bool \<Rightarrow> dev \<Rightarrow> dev" where
  "gpio_set_data pin data d =
     (let bank = gpio_get_bank_from_pin pin; pin = gpio_get_position_from_pin pin; r = gpio_get_bank bank
      in if r = 0 then d
         else if data then reg_or (r + gpio_dataout) (push_bit (unat pin) 1) d
         else reg_and (r + gpio_dataout) (NOT (push_bit (unat pin) 1)) d)"

text \<open>\<open>pos\<close> is never assigned: it is what the register or stack slot holds.\<close>

definition gpio_set_direction :: "u32 \<Rightarrow> u32 \<Rightarrow> bool \<Rightarrow> dev \<Rightarrow> dev" where
  "gpio_set_direction pos pin is_input d =
     (let bank = gpio_get_bank_from_pin pin; r = gpio_get_bank bank
      in if r = 0 then d
         else if is_input then reg_or (r + gpio_oe) (push_bit (unat pos) 1) d
         else reg_and (r + gpio_oe) (NOT (push_bit (unat pos) 1)) d)"

definition gpio_get_data :: "u32 \<Rightarrow> dev \<Rightarrow> bool \<times> dev" where
  "gpio_get_data pin d =
     (let bank = gpio_get_bank_from_pin pin; pin = gpio_get_position_from_pin pin; r = gpio_get_bank bank
      in if r = 0 then (False, d) else let (v, d) = hwreg_read (r + gpio_datain) d in (v AND push_bit (unat pin) 1 \<noteq> 0, d))"

fun gpio_init_loop :: "u32 list \<Rightarrow> dev \<Rightarrow> dev" where
  "gpio_init_loop [] d = d"
| "gpio_init_loop (i # is) d =
     gpio_init_loop is (hwreg_write (gpio_get_bank i + gpio_irqenable1) 0 (hwreg_write (gpio_get_bank i + gpio_irqenable2) 0 d))"

definition soc_gpio_init :: "dev \<Rightarrow> dev" where
  "soc_gpio_init d = gpio_init_loop [0, 1, 2, 3, 4, 5] d"

definition SMC_CONTROL_PAD_CONFIG_BASE :: u32 where "SMC_CONTROL_PAD_CONFIG_BASE = 0x48002030"

definition gpio_set_pad_configuration :: "u32 \<Rightarrow> u32 \<Rightarrow> bool \<Rightarrow> bool \<Rightarrow> bool \<Rightarrow> dev \<Rightarrow> dev" where
  "gpio_set_pad_configuration item mode is_input pull_enable pull_up d =
     (let pad_config = IO_VA_ADDRESS (SMC_CONTROL_PAD_CONFIG_BASE + of_int (sint item sdiv 2) * 4);
          val = mode;
          val = (if is_input then val OR 0x100 else val);
          val = (if pull_enable then val OR 0x08 else val);
          val = (if pull_up then val OR 0x10 else val);
          (tmp, d) = hwreg_read pad_config d
      in if item AND 1 \<noteq> 0 then hwreg_write pad_config ((tmp AND 0x0000FFFF) OR push_bit 16 val) d
         else hwreg_write pad_config ((tmp AND 0xFFFF0000) OR val) d)"

section \<open>Serial port, clocks, initialisation\<close>

definition stdio_can_write :: "soc \<Rightarrow> bool \<times> soc" where
  "stdio_can_write s = (if uart_p s = 0 then (False, s) else let (r, d) = uart_can_write (uart_p s) (hw s) in (r, s\<lparr>hw := d\<rparr>))"

definition stdio_can_read :: "soc \<Rightarrow> bool \<times> soc" where
  "stdio_can_read s = (if uart_p s = 0 then (False, s) else let (r, d) = uart_can_read (uart_p s) (hw s) in (r, s\<lparr>hw := d\<rparr>))"

definition stdio_write_char :: "u32 \<Rightarrow> soc \<Rightarrow> soc option" where
  "stdio_write_char c s = (if uart_p s = 0 then Some s else wait_hw (uart_write_char (uart_p s) c) s)"

definition stdio_read_char :: "soc \<Rightarrow> u32 \<times> soc" where
  "stdio_read_char s =
     (let (ready, s) = stdio_can_read s
      in if ready then let (v, d) = hwreg_read (uart_p s + UART_RHR) (hw s) in (v, s\<lparr>hw := d\<rparr>) else (- 1, s))"

definition UART1_BASE :: u32 where "UART1_BASE = 0x4806A000"
definition UART3_BASE :: u32 where "UART3_BASE = 0x49020000"

text \<open>The pad numbers are not used, the lines that would are comments.\<close>

definition soc_uart_set :: "u32 \<Rightarrow> soc \<Rightarrow> soc" where
  "soc_uart_set base s = s\<lparr>uart_p := base\<rparr>"

definition soc_uart_init :: "soc \<Rightarrow> soc" where
  "soc_uart_init s = soc_uart_set (IO_VA_ADDRESS UART3_BASE) (soc_uart_set (IO_VA_ADDRESS UART1_BASE) s)"

definition CLOCK_PER :: u32 where "CLOCK_PER = 0x48005000"

definition soc_ctrl_init :: "dev \<Rightarrow> dev" where
  "soc_ctrl_init d =
     (let d = hwreg_write (IO_VA_ADDRESS CLOCK_PER + 0 * 4) 0x0003FFFF d;
          d = hwreg_write (IO_VA_ADDRESS CLOCK_PER + (0x10 div 4) * 4) 0x0003FFFF d
      in hwreg_write (IO_VA_ADDRESS CLOCK_PER + (0x4C div 4) * 4) 1 d)"

definition soc_init :: "soc \<Rightarrow> soc option" where
  "soc_init s = map_option (cpu_irq_set_handler 0x4A IrqHandler) (soc_interrupt_init (soc_uart_init s))"

declare run_callback.simps [code]

section \<open>Masks and handlers\<close>

text \<open>The mask registers of the three sections, once \<open>intc\<close> is set.\<close>

definition INTC :: u32 where "INTC = 0xFA200000"
definition mirs :: "u32 set" where "mirs = {0xFA200084, 0xFA2000A4, 0xFA2000C4}"

definition masked :: "soc \<Rightarrow> nat \<Rightarrow> bool" where
  "masked s n \<longleftrightarrow> bit (regs (hw s) (INTC + intc_mir (of_nat (n div 32)))) (n mod 32)"

definition intc_set :: "soc \<Rightarrow> bool" where
  "intc_set s \<longleftrightarrow> intc s = INTC \<and> (\<forall>a \<in> mirs. quiet (hw s) a)"

lemma mir_cases: "n < 96 \<Longrightarrow> n div 32 = 0 \<or> n div 32 = 1 \<or> n div 32 = (2 :: nat)"
  by linarith

lemma mir_in_mirs: "n < 96 \<Longrightarrow> INTC + intc_mir (of_nat (n div 32)) \<in> mirs"
  using mir_cases [of n] by (auto simp: INTC_def intc_mir_def mirs_def)

lemma mir_inj: "m < 96 \<Longrightarrow> n < 96 \<Longrightarrow> INTC + intc_mir (of_nat (m div 32)) = INTC + intc_mir (of_nat (n div 32)) \<longleftrightarrow> m div 32 = n div 32"
  using mir_cases [of m] mir_cases [of n] by (auto simp: INTC_def intc_mir_def)

lemma mir_set_clear_notin: "n < 96 \<Longrightarrow> INTC + intc_mir_set (of_nat (n div 32)) \<notin> mirs \<and> INTC + intc_mir_clear (of_nat (n div 32)) \<notin> mirs"
  using mir_cases [of n] by (auto simp: INTC_def intc_mir_set_def intc_mir_clear_def mirs_def)

lemma irq_in_range_nat: "n < 96 \<Longrightarrow> irq_in_range (of_nat n)"
  by (simp add: irq_in_range_def INTC_SOURCE_COUNT_def sint_of_nat_u32)

lemma on_hw_sel [simp]:
  "hw (on_hw f s) = f (hw s)" "irq_function_table (on_hw f s) = irq_function_table s" "interrupt_handler (on_hw f s) = interrupt_handler s"
  "intc (on_hw f s) = intc s" "uart_p (on_hw f s) = uart_p s" "timer (on_hw f s) = timer s" "tick_handler (on_hw f s) = tick_handler s"
  "calls (on_hw f s) = calls s"
  by (simp_all add: on_hw_def)

lemma section_of_nat: "n < 96 \<Longrightarrow> drop_bit 5 (of_nat n :: u32) = of_nat (n div 32) \<and> unat ((of_nat n :: u32) AND 0x1F) = n mod 32"
proof
  assume n: "n < 96"
  then have u: "unat (of_nat n :: u32) = n" by simp
  have "unat (drop_bit 5 (of_nat n :: u32)) = n div 32" using u by (simp add: unat_drop_bit_u32)
  then show "drop_bit 5 (of_nat n :: u32) = of_nat (n div 32)" by (metis word_unat_of_nat_self)
  have "(of_nat n :: u32) AND 0x1F = take_bit 5 (of_nat n)" unfolding take_bit_eq_mask mask_eq_exp_minus_1 by simp
  then have "unat ((of_nat n :: u32) AND 0x1F) = take_bit 5 n" by (simp only: unsigned_take_bit_eq u)
  then show "unat ((of_nat n :: u32) AND 0x1F) = n mod 32" by (simp add: take_bit_eq_mod)
qed

lemma set_enable_quiet:
  assumes "intc_set s" "n < 96"
  shows "regs (hw (cpu_irq_set_enable (of_nat n) e s)) (INTC + intc_mir (of_nat (m div 32))) =
      (if m < 96 \<and> m div 32 = n div 32
       then if e then regs (hw s) (INTC + intc_mir (of_nat (n div 32))) AND NOT (push_bit (n mod 32) 1)
            else regs (hw s) (INTC + intc_mir (of_nat (n div 32))) OR push_bit (n mod 32) 1
       else regs (hw s) (INTC + intc_mir (of_nat (m div 32)))) \<or> \<not> m < 96"
proof (cases "m < 96")
  case True
  have q: "quiet (hw s) (INTC + intc_mir (of_nat (n div 32)))" using assms mir_in_mirs by (simp add: intc_set_def)
  have ne: "INTC + intc_mir (of_nat (k div 32)) \<noteq> INTC + intc_mir_set (of_nat (n div 32))
    \<and> INTC + intc_mir (of_nat (k div 32)) \<noteq> INTC + intc_mir_clear (of_nat (n div 32))" if "k < 96" for k
    using mir_in_mirs [OF that] mir_set_clear_notin [OF assms(2)] by metis
  show ?thesis using ne [OF True] ne [OF assms(2)] assms True q mir_inj [OF True assms(2)] section_of_nat [OF assms(2)] irq_in_range_nat [OF assms(2)]
    by (simp add: cpu_irq_set_enable_def Let_def intc_set_def reg_or_quiet reg_and_quiet)
qed simp

lemma set_enable_masked:
  assumes "intc_set s" "n < 96" "m < 96"
  shows "masked (cpu_irq_set_enable (of_nat n) e s) m \<longleftrightarrow> (if m = n then \<not> e else masked s m)"
proof -
  have "bit (push_bit (n mod 32) 1 :: u32) (m mod 32) \<longleftrightarrow> m mod 32 = n mod 32"
    by (auto simp: bit_simps)
  moreover have "m = n \<longleftrightarrow> m div 32 = n div 32 \<and> m mod 32 = n mod 32" by (metis div_mult_mod_eq)
  ultimately show ?thesis using set_enable_quiet [OF assms(1,2), of e m] assms(3)
    by (auto simp: masked_def bit_simps)
qed

lemma set_enable_frame:
  assumes "intc_set s" "n < 96"
  shows "intc_set (cpu_irq_set_enable (of_nat n) e s)
    \<and> irq_function_table (cpu_irq_set_enable (of_nat n) e s) = irq_function_table s
    \<and> script (hw (cpu_irq_set_enable (of_nat n) e s)) = script (hw s)
    \<and> timer (cpu_irq_set_enable (of_nat n) e s) = timer s \<and> tick_handler (cpu_irq_set_enable (of_nat n) e s) = tick_handler s
    \<and> calls (cpu_irq_set_enable (of_nat n) e s) = calls s"
proof -
  have q: "quiet (hw s) (INTC + intc_mir (of_nat (n div 32)))" using assms mir_in_mirs by (simp add: intc_set_def)
  then show ?thesis using assms section_of_nat [OF assms(2)] irq_in_range_nat [OF assms(2)]
    by (simp add: cpu_irq_set_enable_def Let_def intc_set_def reg_or_quiet reg_and_quiet)
qed

lemma set_handler_nat: "n < 96 \<Longrightarrow> h \<noteq> NullCallback \<Longrightarrow>
  cpu_irq_set_handler (of_nat n) h s = s\<lparr>irq_function_table := (irq_function_table s)(n := h)\<rparr>"
  by (simp add: cpu_irq_set_handler_def irq_in_range_nat)

lemma masked_table [simp]: "masked (s\<lparr>irq_function_table := t\<rparr>) n = masked s n" "intc_set (s\<lparr>irq_function_table := t\<rparr>) = intc_set s"
  by (simp_all add: masked_def intc_set_def)

lemma disable_loop_effect:
  assumes "intc_set s" "\<forall>n \<in> set ns. n < 96"
  defines "s' \<equiv> disable_loop (map of_nat ns) s"
  shows "intc_set s' \<and> (\<forall>m < 96. masked s' m \<longleftrightarrow> m \<in> set ns \<or> masked s m)
    \<and> irq_function_table s' = (\<lambda>n. if n \<in> set ns then DefaultHandler else irq_function_table s n)
    \<and> script (hw s') = script (hw s) \<and> timer s' = timer s \<and> tick_handler s' = tick_handler s \<and> calls s' = calls s"
  using assms(1,2) unfolding s'_def
proof (induction ns arbitrary: s)
  case (Cons n ns)
  define t where "t = cpu_irq_set_handler (of_nat n) DefaultHandler (cpu_irq_set_enable (of_nat n) False s)"
  have n: "n < 96" using Cons.prems(2) by simp
  have t: "t = (cpu_irq_set_enable (of_nat n) False s)\<lparr>irq_function_table := (irq_function_table s)(n := DefaultHandler)\<rparr>"
    using set_enable_frame [OF Cons.prems(1) n, of False] by (simp add: t_def set_handler_nat [OF n])
  have "intc_set t" "\<And>m. m < 96 \<Longrightarrow> masked t m \<longleftrightarrow> m = n \<or> masked s m" "irq_function_table t = (irq_function_table s)(n := DefaultHandler)"
    "script (hw t) = script (hw s)" "timer t = timer s" "tick_handler t = tick_handler s" "calls t = calls s"
    using set_enable_frame [OF Cons.prems(1) n, of False] set_enable_masked [OF Cons.prems(1) n, of _ False] by (simp_all add: t)
  then show ?case using Cons.IH [of t] Cons.prems(2) by (auto simp flip: t_def)
qed simp

text \<open>Steps that leave the interrupt set-up alone.\<close>

definition irq_frame :: "soc \<Rightarrow> soc \<Rightarrow> bool" where
  "irq_frame s s' \<longleftrightarrow> intc s' = intc s \<and> irq_function_table s' = irq_function_table s \<and> calls s' = calls s
     \<and> (\<forall>a \<in> mirs. script (hw s') a = script (hw s) a \<and> regs (hw s') a = regs (hw s) a)"

lemma irq_frame_refl: "irq_frame s s"
  by (simp add: irq_frame_def)

lemma irq_frame_trans: "irq_frame s t \<Longrightarrow> irq_frame t u \<Longrightarrow> irq_frame s u"
  by (simp add: irq_frame_def)

lemma irq_frame_write: "a \<notin> mirs \<Longrightarrow> irq_frame s (on_hw (hwreg_write a v) s)"
  by (auto simp: irq_frame_def)

lemma irq_frame_read: "a \<notin> mirs \<Longrightarrow> irq_frame s (on_hw (\<lambda>d. snd (hwreg_read a d)) s)"
proof -
  assume "a \<notin> mirs"
  then have "b \<noteq> a" if "b \<in> mirs" for b using that by blast
  then show ?thesis by (simp add: irq_frame_def read_regs_other read_script_other)
qed

lemma irq_frame_or: "a \<notin> mirs \<Longrightarrow> irq_frame s (on_hw (reg_or a v) s)"
  using irq_frame_trans [OF irq_frame_read [of a s] irq_frame_write [of a "on_hw (\<lambda>d. snd (hwreg_read a d)) s"]]
  by (simp add: reg_or_def split_def Let_def on_hw_def)

lemma irq_frame_wait: "a \<notin> mirs \<Longrightarrow> wait_hw (wait_set a b) s = Some s' \<Longrightarrow> irq_frame s s'"
  by (auto simp: wait_hw_def irq_frame_def polls_def dest!: wait_set_polls)

lemma irq_frame_fields: "irq_frame s (s\<lparr>timer := p\<rparr>)" "irq_frame s (s\<lparr>tick_handler := h\<rparr>)"
  by (simp_all add: irq_frame_def)

lemma irq_frame_intc: "irq_frame s s' \<Longrightarrow> intc_set s \<Longrightarrow> intc_set s'"
  by (simp add: irq_frame_def intc_set_def)

lemma irq_frame_masked: "irq_frame s s' \<Longrightarrow> n < 96 \<Longrightarrow> masked s' n = masked s n"
  using mir_in_mirs [of n] by (simp add: irq_frame_def masked_def)

text \<open>The controller comes up with every source masked but the one of the serial port.\<close>

lemma soc_interrupt_init_masks:
  assumes "\<exists>v \<in> set (script (hw s) (INTC + intc_sysstatus)). v AND 1 \<noteq> 0" and "\<forall>a \<in> mirs. quiet (hw s) a"
  obtains s' where "soc_interrupt_init s = Some s'" "intc_set s'" "\<And>n. n < 96 \<Longrightarrow> masked s' n \<longleftrightarrow> n \<noteq> 0x4A"
    "irq_function_table s' = (\<lambda>n. if n < 96 then DefaultHandler else irq_function_table s n)" "calls s' = calls s"
    "\<And>a. a \<noteq> INTC + intc_sysstatus \<Longrightarrow> script (hw s') a = script (hw s) a"
proof -
  define s1 where "s1 = on_hw (hwreg_write (INTC + intc_sysconfig) 2) (s\<lparr>interrupt_handler := IrqHandler, intc := INTC\<rparr>)"
  have I: "IO_VA_ADDRESS INTC_BASE = INTC" by (simp add: IO_VA_ADDRESS_def INTC_BASE_def INTC_def)
  have i1: "intc_set s1" using assms(2) by (simp add: s1_def intc_set_def)
  have "script (hw s1) = script (hw s)" by (simp add: s1_def)
  then obtain d2 where d2: "wait_set (INTC + intc_sysstatus) 1 (hw s1) = Some d2"
    using wait_set_returns [of "hw s1" "INTC + intc_sysstatus" 1] assms(1) by auto
  define s2 where "s2 = s1\<lparr>hw := d2\<rparr>"
  have w: "wait_hw (wait_set (INTC + intc_sysstatus) 1) s1 = Some s2" using d2 by (simp add: wait_hw_def s2_def)
  have sc2: "script (hw s2) a = script (hw s) a" if "a \<noteq> INTC + intc_sysstatus" for a
    using wait_set_polls [OF d2] that by (simp add: s2_def polls_def s1_def)
  have ns: "INTC + intc_sysstatus \<notin> mirs" "INTC + intc_control \<notin> mirs"
    by (simp_all add: INTC_def intc_sysstatus_def intc_control_def mirs_def)
  have i2: "intc_set s2" using irq_frame_intc [OF irq_frame_wait [OF ns(1) w] i1] .
  define s3 where "s3 = disable_loop (map of_nat [0..<96]) s2"
  have s3: "intc_set s3" "\<And>m. m < 96 \<Longrightarrow> masked s3 m" "irq_function_table s3 = (\<lambda>n. if n < 96 then DefaultHandler else irq_function_table s2 n)"
    "script (hw s3) = script (hw s2)" "calls s3 = calls s2"
    using disable_loop_effect [OF i2, of "[0..<96]"] by (simp_all add: s3_def)
  define s4 where "s4 = cpu_irq_set_enable (of_nat 0x4A) True s3"
  have s4: "intc_set s4" "\<And>m. m < 96 \<Longrightarrow> masked s4 m \<longleftrightarrow> m \<noteq> 0x4A" "irq_function_table s4 = irq_function_table s3"
    "script (hw s4) = script (hw s3)" "calls s4 = calls s3"
    using set_enable_frame [OF s3(1), of "0x4A" True] set_enable_masked [OF s3(1), of "0x4A" _ True] s3(2) by (simp_all add: s4_def)
  define s5 where "s5 = on_hw (hwreg_write (INTC + intc_control) 1) s4"
  have f: "irq_frame s4 s5" unfolding s5_def by (rule irq_frame_write [OF ns(2)])
  have i4: "intc (cpu_irq_set_enable 74 True s3) = INTC" using s4(1) by (simp add: s4_def intc_set_def)
  have res: "soc_interrupt_init s = Some s5"
    using w by (simp add: soc_interrupt_init_def Let_def I s1_def [symmetric] s3_def [symmetric] INTC_SOURCE_COUNT_def s4_def s5_def)
      (simp add: s1_def wait_hw_def s2_def i4)
  show thesis
  proof (rule that [OF res])
    show "intc_set s5" using irq_frame_intc [OF f s4(1)] .
    show "masked s5 n \<longleftrightarrow> n \<noteq> 0x4A" if "n < 96" for n using irq_frame_masked [OF f that] s4(2) [OF that] by simp
    show "irq_function_table s5 = (\<lambda>n. if n < 96 then DefaultHandler else irq_function_table s n)"
      by (simp add: s5_def s4(3) s3(3)) (simp add: s2_def s1_def cong del: if_weak_cong)
    show "calls s5 = calls s" by (simp add: s5_def s4(5) s3(5)) (simp add: s2_def s1_def)
    show "script (hw s5) a = script (hw s) a" if "a \<noteq> INTC + intc_sysstatus" for a
      using sc2 [OF that] by (simp add: s5_def s4(4) s3(4))
  qed
qed

text \<open>Starting the tick timer opens the mask of its source and nothing else.\<close>

definition TIMER :: u32 where "TIMER = 0xFA304000"

lemma timer_get_12: "timer_get 12 = TIMER"
  by (simp add: timer_get_def TIMER_BASES_def IO_VA_ADDRESS_def TIMER_def)

lemma timer_notin_mirs:
  "TIMER + tsicr \<notin> mirs" "TIMER + tistat \<notin> mirs" "TIMER + tiocp_cfg \<notin> mirs" "TIMER + tldr \<notin> mirs" "TIMER + tcrr \<notin> mirs"
  "TIMER + tclr \<notin> mirs" "TIMER + tisr \<notin> mirs" "TIMER + tier \<notin> mirs" "TIMER + twer \<notin> mirs"
  by (simp_all add: TIMER_def mirs_def tsicr_def tistat_def tiocp_cfg_def tldr_def tcrr_def tclr_def tisr_def tier_def twer_def)

lemma timer_tick_start_masks:
  assumes s: "intc_set s" and r: "\<exists>v \<in> set (script (hw s) (TIMER + tistat)). v AND 1 \<noteq> 0" and h: "h \<noteq> NullCallback"
  obtains s' where "timer_tick_start h s = Some s'" "intc_set s'" "\<And>n. n < 96 \<Longrightarrow> masked s' n \<longleftrightarrow> n \<noteq> 95 \<and> masked s n"
    "irq_function_table s' = (irq_function_table s)(95 := TimerTickStub)" "calls s' = calls s" "timer s' = TIMER" "tick_handler s' = h"
    "regs (hw s') (TIMER + tier) = 2"
proof -
  define s1 where "s1 = cpu_irq_set_enable (of_nat 95) False s"
  have s1: "intc_set s1" "\<And>m. m < 96 \<Longrightarrow> masked s1 m \<longleftrightarrow> m = 95 \<or> masked s m" "irq_function_table s1 = irq_function_table s"
    "script (hw s1) = script (hw s)" "calls s1 = calls s"
    using set_enable_frame [OF s, of 95 False] set_enable_masked [OF s, of 95 _ False] by (simp_all add: s1_def)
  define s2 where "s2 = on_hw (hwreg_write (TIMER + tsicr) 6) (s1\<lparr>timer := TIMER\<rparr>)"
  have f2: "irq_frame s1 s2" unfolding s2_def by (intro irq_frame_trans [OF irq_frame_fields(1) irq_frame_write] timer_notin_mirs)
  have "\<exists>v \<in> set (script (hw s2) (TIMER + tistat)). v AND 1 \<noteq> 0" using r s1(4) by (simp add: s2_def)
  then obtain d3 where d3: "wait_set (TIMER + tistat) 1 (hw s2) = Some d3" using wait_set_returns [of "hw s2" "TIMER + tistat" 1] by auto
  define s3 where "s3 = s2\<lparr>hw := d3\<rparr>"
  have w: "wait_hw (wait_set (TIMER + tistat) 1) s2 = Some s3" using d3 by (simp add: wait_hw_def s3_def)
  have f3: "irq_frame s2 s3" by (rule irq_frame_wait [OF timer_notin_mirs(2) w])
  define s4 where "s4 = on_hw (\<lambda>d. snd (hwreg_read (TIMER + tiocp_cfg) d)) s3"
  define v where "v = fst (hwreg_read (TIMER + tiocp_cfg) (hw s3))"
  define l where "l = (v OR 0x10) OR 0x200"
  define s5 where "s5 = on_hw (hwreg_write (TIMER + tcrr) 0xFFFFFF00) (on_hw (hwreg_write (TIMER + tldr) 0xFFFFFF00)
    (on_hw (hwreg_write (TIMER + tsicr) 4) (on_hw (hwreg_write (TIMER + tiocp_cfg) l) s4)))"
  have f5: "irq_frame s3 s5" unfolding s5_def s4_def
    by (rule irq_frame_trans [OF irq_frame_read irq_frame_trans [OF irq_frame_write irq_frame_trans [OF irq_frame_write
      irq_frame_trans [OF irq_frame_write irq_frame_write]]]]) (rule timer_notin_mirs)+
  define s6 where "s6 = s5\<lparr>tick_handler := h\<rparr>"
  have f6: "irq_frame s1 s6" unfolding s6_def
    by (rule irq_frame_trans [OF irq_frame_trans [OF irq_frame_trans [OF f2 f3] f5] irq_frame_fields(2)])
  define s7 where "s7 = s6\<lparr>irq_function_table := (irq_function_table s)(95 := TimerTickStub)\<rparr>"
  have i6: "intc_set s6" by (rule irq_frame_intc [OF f6 s1(1)])
  have i7: "intc_set s7" using i6 by (simp add: s7_def)
  have m7: "masked s7 n = masked s1 n" if "n < 96" for n using irq_frame_masked [OF f6 that] by (simp add: s7_def)
  have h7: "cpu_irq_set_handler (of_nat 95) TimerTickStub s6 = s7"
    using f6 s1(3) by (subst set_handler_nat) (simp_all add: s7_def irq_frame_def)
  define s8 where "s8 = cpu_irq_set_enable (of_nat 95) True s7"
  have t7: "timer s7 = TIMER" "tick_handler s7 = h" "calls s7 = calls s6"
    by (simp_all add: s7_def s6_def s5_def s4_def s3_def s2_def)
  have s8: "intc_set s8" "\<And>m. m < 96 \<Longrightarrow> masked s8 m \<longleftrightarrow> m \<noteq> 95 \<and> masked s7 m" "irq_function_table s8 = irq_function_table s7"
    "timer s8 = TIMER" "tick_handler s8 = h" "calls s8 = calls s"
    using set_enable_frame [OF i7, of 95 True] set_enable_masked [OF i7, of 95 _ True] t7 f6 s1(5) by (simp_all add: s8_def irq_frame_def)
  define s9 where "s9 = on_hw (hwreg_write (TIMER + twer) 2) (on_hw (hwreg_write (TIMER + tier) 2)
    (on_hw (reg_or (TIMER + tisr) 7) (on_hw (reg_or (TIMER + tclr) 3) s8)))"
  have f9: "irq_frame s8 s9" unfolding s9_def
    by (rule irq_frame_trans [OF irq_frame_or irq_frame_trans [OF irq_frame_or irq_frame_trans [OF irq_frame_write irq_frame_write]]])
      (rule timer_notin_mirs)+
  have e: "cpu_irq_set_enable INTC_IRQ_TIMER7 False s = s1" "cpu_irq_set_handler INTC_IRQ_TIMER7 TimerTickStub s6 = s7"
    "cpu_irq_set_enable INTC_IRQ_TIMER7 True s7 = s8"
    using h7 by (simp_all add: INTC_IRQ_TIMER7_def s1_def s8_def)
  have tm: "timer s2 = TIMER" "timer s3 = TIMER" "timer s4 = TIMER" by (simp_all add: s2_def s3_def s4_def)
  have rd: "hwreg_read (TIMER + tiocp_cfg) (hw s3) = (v, hw s4)" by (simp add: s4_def v_def)
  have s4': "s3\<lparr>hw := hw s4\<rparr> = s4" by (simp add: s4_def on_hw_def)
  have res: "timer_tick_start h s = Some s9"
    unfolding timer_tick_start_def Let_def e(1) timer_get_12
    by (simp add: s2_def [symmetric] w tm) (simp add: rd s4' l_def [symmetric] s5_def [symmetric] s6_def [symmetric] e s8 s9_def [symmetric])
  show thesis
  proof (rule that [OF res])
    show "intc_set s9" by (rule irq_frame_intc [OF f9 s8(1)])
    show "masked s9 n \<longleftrightarrow> n \<noteq> 95 \<and> masked s n" if "n < 96" for n
      using irq_frame_masked [OF f9 that] s8(2) [OF that] m7 [OF that] s1(2) [OF that] by auto
    show "irq_function_table s9 = (irq_function_table s)(95 := TimerTickStub)" by (simp add: s9_def s8(3)) (simp add: s7_def)
    show "calls s9 = calls s" "timer s9 = TIMER" "tick_handler s9 = h" by (simp_all add: s9_def s8)
    show "regs (hw s9) (TIMER + tier) = 2" by (simp add: s9_def tier_def twer_def)
  qed
qed

section \<open>An interrupt after boot\<close>

text \<open>The order of \<open>start_main\<close>: \<open>soc_init\<close>, then \<open>setup_handlers\<close> with the hypervisor's handler for the tick.\<close>

definition boot_interrupts :: "dev \<Rightarrow> soc option" where
  "boot_interrupts d = Option.bind (soc_init (soc_boot d)) (timer_tick_start IrqHandler)"

text \<open>The controller reports source \<open>n\<close> in its next read.\<close>

definition raise_irq :: "nat \<Rightarrow> soc \<Rightarrow> soc" where
  "raise_irq n s = on_hw (\<lambda>d. d\<lparr>script := (script d)(INTC + intc_sir_irq := of_nat n # script d (INTC + intc_sir_irq))\<rparr>) s"

text \<open>A device whose two resets come to an end, and that changes no other register by itself.\<close>

definition resets :: "dev \<Rightarrow> bool" where
  "resets d \<longleftrightarrow> (\<exists>v \<in> set (script d (INTC + intc_sysstatus)). v AND 1 \<noteq> 0) \<and> (\<exists>v \<in> set (script d (TIMER + tistat)). v AND 1 \<noteq> 0)
     \<and> (\<forall>a \<in> mirs. quiet d a)"

lemma run_callback_default: "run_callback DefaultHandler irq s = Some (s\<lparr>calls := calls s @ [(DefaultHandler, irq)]\<rparr>)"
  by (subst run_callback.simps) simp

lemma run_callback_irq: "run_callback IrqHandler irq s = Some (s\<lparr>calls := calls s @ [(IrqHandler, irq)]\<rparr>)"
  by (subst run_callback.simps) simp

lemma run_callback_tick: "tick_handler s = IrqHandler \<Longrightarrow>
  run_callback TimerTickStub irq s = Some (timer_tick_clear_interrupt (s\<lparr>calls := calls s @ [(IrqHandler, irq)]\<rparr>))"
  by (subst run_callback.simps) (simp add: run_callback_irq)

lemma and_7F_nat: "n < 96 \<Longrightarrow> (of_nat n :: u32) AND 0x7F = of_nat n"
proof -
  assume n: "n < 96"
  then have u: "unat (of_nat n :: u32) = n" by simp
  have "(of_nat n :: u32) AND 0x7F = take_bit 7 (of_nat n)" unfolding take_bit_eq_mask mask_eq_exp_minus_1 by simp
  then have "unat ((of_nat n :: u32) AND 0x7F) = take_bit 7 n" by (simp only: unsigned_take_bit_eq u)
  then have "unat ((of_nat n :: u32) AND 0x7F) = n" using n by (simp add: take_bit_eq_mod)
  then show ?thesis by (metis word_unat_of_nat_self)
qed

lemma impl_irq_calls:
  assumes n: "n < 96" and cb: "irq_function_table s n = DefaultHandler \<or> irq_function_table s n = IrqHandler
      \<or> irq_function_table s n = TimerTickStub \<and> tick_handler s = IrqHandler \<and> timer s = TIMER"
  shows "\<exists>s'. impl_irq (raise_irq n s) = Some s'
    \<and> calls s' = calls s @ [(if irq_function_table s n = DefaultHandler then DefaultHandler else IrqHandler, of_nat n)]
    \<and> reg_writes (dlog (hw s')) = reg_writes (dlog (hw s)) @ (if irq_function_table s n = TimerTickStub then [(TIMER + tisr, 2)] else []) @ [(INTC + intc_control, 1)]"
proof -
  have I: "IO_VA_ADDRESS INTC_BASE = INTC" by (simp add: IO_VA_ADDRESS_def INTC_BASE_def INTC_def)
  define d where "d = snd (hwreg_read (INTC + intc_sir_irq) (hw (raise_irq n s)))"
  have r: "hwreg_read (INTC + intc_sir_irq) (hw (raise_irq n s)) = (of_nat n, d)" by (simp add: d_def hwreg_read_def raise_irq_def)
  have w: "reg_writes (dlog d) = reg_writes (dlog (hw s))" using r by (simp add: d_def read_log) (simp add: raise_irq_def)
  have f: "irq_function_table (raise_irq n s) = irq_function_table s" "calls (raise_irq n s) = calls s"
    "tick_handler (raise_irq n s) = tick_handler s" "timer (raise_irq n s) = timer s" by (simp_all add: raise_irq_def)
  have un: "unat (of_nat n :: u32) = n" using n by simp
  show ?thesis using cb
    by (auto simp: impl_irq_def I r and_7F_nat [OF n] un f w run_callback_default run_callback_irq run_callback_tick
        timer_tick_clear_interrupt_def Let_def)
qed

text \<open>C34: Once the controller and the timer have come out of reset, boot leaves every interrupt source masked but the serial port's and the
  tick's. An interrupt of one of these two calls the hypervisor's handler once, with its number, that of any other source only
  the default one; the flag of the timer is cleared, and then the controller is told to go on.\<close>

theorem boot_interrupts_served:
  assumes "resets d"
  shows "\<exists>s. boot_interrupts d = Some s \<and> (\<forall>n < 96. masked s n \<longleftrightarrow> n \<noteq> 0x4A \<and> n \<noteq> 95)
    \<and> (\<forall>n < 96. \<exists>s'. impl_irq (raise_irq n s) = Some s'
        \<and> calls s' = [(if n = 0x4A \<or> n = 95 then IrqHandler else DefaultHandler, of_nat n)]
        \<and> reg_writes (dlog (hw s')) = reg_writes (dlog (hw s)) @ (if n = 95 then [(TIMER + tisr, 2)] else []) @ [(INTC + intc_control, 1)])"
proof -
  define s0 where "s0 = soc_uart_init (soc_boot d)"
  have h0: "hw s0 = d" "calls s0 = []" by (simp_all add: s0_def soc_uart_init_def soc_uart_set_def soc_boot_def)
  have r0: "\<exists>v \<in> set (script (hw s0) (INTC + intc_sysstatus)). v AND 1 \<noteq> 0" "\<forall>a \<in> mirs. quiet (hw s0) a"
    using assms unfolding h0 resets_def by auto
  obtain s1 where s1: "soc_interrupt_init s0 = Some s1" "intc_set s1" "\<And>n. n < 96 \<Longrightarrow> masked s1 n \<longleftrightarrow> n \<noteq> 0x4A"
    "irq_function_table s1 = (\<lambda>n. if n < 96 then DefaultHandler else irq_function_table s0 n)" "calls s1 = calls s0"
    "\<And>a. a \<noteq> INTC + intc_sysstatus \<Longrightarrow> script (hw s1) a = script (hw s0) a"
    by (rule soc_interrupt_init_masks [OF r0]) blast
  define s2 where "s2 = s1\<lparr>irq_function_table := (irq_function_table s1)(0x4A := IrqHandler)\<rparr>"
  have h: "cpu_irq_set_handler 0x4A IrqHandler s1 = s2" using set_handler_nat [of "0x4A" IrqHandler s1] by (simp add: s2_def)
  have i2: "intc_set s2" "\<And>n. masked s2 n = masked s1 n" "calls s2 = []" using s1(2,5) h0 by (simp_all add: s2_def)
  have "TIMER + tistat \<noteq> INTC + intc_sysstatus" by (simp add: TIMER_def tistat_def INTC_def intc_sysstatus_def)
  then have "\<exists>v \<in> set (script (hw s2) (TIMER + tistat)). v AND 1 \<noteq> 0" using s1(6) assms h0 by (simp add: s2_def resets_def)
  then have r2: "\<exists>v \<in> set (script (hw s2) (TIMER + tistat)). v AND 1 \<noteq> 0" .
  obtain s3 where s3: "timer_tick_start IrqHandler s2 = Some s3" "\<And>n. n < 96 \<Longrightarrow> masked s3 n \<longleftrightarrow> n \<noteq> 95 \<and> masked s2 n"
    "irq_function_table s3 = (irq_function_table s2)(95 := TimerTickStub)" "calls s3 = calls s2" "timer s3 = TIMER" "tick_handler s3 = IrqHandler"
    by (rule timer_tick_start_masks [OF i2(1) r2 callback.simps(8) [THEN not_sym]]) blast
  have b: "boot_interrupts d = Some s3" using s1(1) s3(1) h by (simp add: boot_interrupts_def soc_init_def s0_def [symmetric])
  have t: "irq_function_table s3 n = (if n = 95 then TimerTickStub else if n = 0x4A then IrqHandler else DefaultHandler)" if "n < 96" for n
    using that by (simp add: s3(3) s2_def s1(4))
  have m: "\<forall>n < 96. masked s3 n \<longleftrightarrow> n \<noteq> 0x4A \<and> n \<noteq> 95" using s3(2) i2(2) s1(3) by auto
  have "\<exists>s'. impl_irq (raise_irq n s3) = Some s'
      \<and> calls s' = [(if n = 0x4A \<or> n = 95 then IrqHandler else DefaultHandler, of_nat n)]
      \<and> reg_writes (dlog (hw s')) = reg_writes (dlog (hw s3)) @ (if n = 95 then [(TIMER + tisr, 2)] else []) @ [(INTC + intc_control, 1)]"
    if n: "n < 96" for n
    using impl_irq_calls [OF n, of s3] t [OF n] s3(4-6) i2(3) by auto
  then show ?thesis using b m by blast
qed

definition demo_soc_dev :: dev where
  "demo_soc_dev = \<lparr>regs = (\<lambda>_. 0), script = (\<lambda>a. if a = INTC + intc_sysstatus then [0, 1] else if a = TIMER + tistat then [0, 0, 3] else []),
     dlog = []\<rparr>"

lemma boot_interrupts_served_witness:
  "\<exists>s s'. boot_interrupts demo_soc_dev = Some s \<and> \<not> masked s 95 \<and> masked s 3 \<and> impl_irq (raise_irq 95 s) = Some s'
     \<and> calls s' = [(IrqHandler, 95)]"
proof -
  have "resets demo_soc_dev"
    by (simp add: resets_def demo_soc_dev_def mirs_def INTC_def TIMER_def intc_sysstatus_def tistat_def)
  then show ?thesis
  proof (rule boot_interrupts_served [THEN exE], elim conjE)
    fix s
    assume s: "boot_interrupts demo_soc_dev = Some s" "\<forall>n < 96. masked s n \<longleftrightarrow> n \<noteq> 0x4A \<and> n \<noteq> 95"
      and c: "\<forall>n < 96. \<exists>s'. impl_irq (raise_irq n s) = Some s'
        \<and> calls s' = [(if n = 0x4A \<or> n = 95 then IrqHandler else DefaultHandler, of_nat n)]
        \<and> reg_writes (dlog (hw s')) = reg_writes (dlog (hw s)) @ (if n = 95 then [(TIMER + tisr, 2)] else []) @ [(INTC + intc_control, 1)]"
    obtain s' where "impl_irq (raise_irq 95 s) = Some s'" "calls s' = [(IrqHandler, of_nat 95)]"
      using c [THEN spec, of 95] by auto
    moreover have "\<not> masked s 95" "masked s 3" using s(2) by simp_all
    ultimately show ?thesis using s(1) by auto
  qed
qed

section \<open>Further facts\<close>

text \<open>A controller or a timer that never leaves its reset stops the boot.\<close>

lemma soc_interrupt_init_endless:
  assumes "quiet (hw s) (INTC + intc_sysstatus)" "regs (hw s) (INTC + intc_sysstatus) AND 1 = 0"
  shows "soc_interrupt_init s = None"
proof -
  define s1 where "s1 = on_hw (hwreg_write (INTC + intc_sysconfig) 2) (s\<lparr>interrupt_handler := IrqHandler, intc := INTC\<rparr>)"
  have I: "IO_VA_ADDRESS INTC_BASE = INTC" by (simp add: IO_VA_ADDRESS_def INTC_BASE_def INTC_def)
  have "wait_set (INTC + intc_sysstatus) 1 (hw s1) = None"
    using assms by (intro wait_set_endless) (simp_all add: s1_def intc_sysconfig_def intc_sysstatus_def)
  then have "wait_hw (wait_set (INTC + intc_sysstatus) 1) s1 = None" by (simp add: wait_hw_def)
  then show ?thesis by (simp add: soc_interrupt_init_def Let_def I s1_def)
qed

text \<open>\<open>timer_init_loop\<close> means to stop a timer, but sets every bit except the start bit, which it leaves as it was.\<close>

lemma soc_timer_init_does_not_stop:
  assumes "quiet (hw s) (timer_get i + tclr)" "regs (hw s) (timer_get i + tclr) = v"
  shows "regs (hw (timer_init_loop [i] s)) (timer_get i + tclr) = v OR NOT 1"
proof -
  define d where "d = snd (hwreg_read (timer_get i + tidr) (snd (hwreg_read (timer_get i + tidr) (hw s))))"
  have ne: "timer_get i + tclr \<noteq> timer_get i + tidr" "timer_get i + tclr \<noteq> timer_get i + tisr" "tclr \<noteq> tisr" by (simp_all add: tclr_def tidr_def tisr_def)
  have d: "quiet d (timer_get i + tclr)" "regs d (timer_get i + tclr) = v"
    using assms by (simp_all add: d_def read_script_other [OF ne(1)] read_regs_other [OF ne(1)])
  have "regs (reg_or (timer_get i + tisr) 7 e) (timer_get i + tclr) = regs e (timer_get i + tclr)" for e
    by (simp add: reg_or_def split_def Let_def read_regs_other [OF ne(2)] ne)
  then show ?thesis using d by (simp add: Let_def d_def [symmetric] reg_or_quiet)
qed

end
