(* ===== verification/Mpi_Base.thy ===== *)
theory Mpi_Base
  imports Sth_Prelude
begin

text \<open>
  The integers of the trusted guest's big-number library, \<open>guests/trusted/src/mpi/mpi.c\<close>: their representation, storage, copying,
  clamping and shifts by whole digits. An \<open>mp_int\<close> owns the buffer of its digits, the least significant first. Counts of digits are
  naturals: a buffer whose count does not fit a word does not fit the memory. A failed assertion (\<open>ARGCHK\<close>) only prints, in
  \<open>__bad_assert\<close> of \<open>util.c\<close>, and is left out.
\<close>

section \<open>Digits\<close>

text \<open>The value of a list of digits to the base 65536.\<close>

primrec bval :: "u16 list \<Rightarrow> nat" where
  "bval [] = 0"
| "bval (x # xs) = unat x + 65536 * bval xs"

lemma unat_u16_less [simp]: "unat (x :: u16) < 65536"
  using unsigned_less [of x] by simp

lemma bval_append: "bval (xs @ ys) = bval xs + 65536 ^ length xs * bval ys"
  by (induction xs) (simp_all add: algebra_simps)

lemma bval_replicate [simp]: "bval (replicate n 0) = 0"
  by (induction n) simp_all

lemma bval_less: "bval xs < 65536 ^ length xs"
proof (induction xs)
  case (Cons x xs)
  then have "bval xs + 1 \<le> 65536 ^ length xs" by simp
  then have "65536 * (bval xs + 1) \<le> 65536 * 65536 ^ length xs" by (rule mult_le_mono2)
  moreover have "bval (x # xs) < 65536 * (bval xs + 1)" unfolding bval.simps distrib_left using unat_u16_less [of x] by linarith
  ultimately show ?case unfolding length_Cons power_Suc by linarith
qed simp

lemma bval_ge: "xs \<noteq> [] \<Longrightarrow> last xs \<noteq> 0 \<Longrightarrow> 65536 ^ (length xs - 1) \<le> bval xs"
proof -
  assume "xs \<noteq> []" "last xs \<noteq> 0"
  then have "bval xs = bval (butlast xs) + 65536 ^ (length xs - 1) * unat (last xs)"
    using bval_append [of "butlast xs" "[last xs]"] by simp
  moreover have "1 \<le> unat (last xs)" using \<open>last xs \<noteq> 0\<close> by (simp add: Suc_leI unat_gt_0)
  then have "65536 ^ (length xs - 1) * 1 \<le> 65536 ^ (length xs - 1) * unat (last xs)" by (rule mult_le_mono2)
  ultimately show ?thesis by linarith
qed

lemma bval_0_iff: "bval xs = 0 \<longleftrightarrow> (\<forall>x \<in> set xs. x = 0)"
  by (induction xs) (auto simp: unat_eq_0)

lemma bval_inj: "length xs = length ys \<Longrightarrow> bval xs = bval ys \<Longrightarrow> xs = ys"
proof (induction xs ys rule: list_induct2)
  case (Cons x xs y ys)
  have "unat x = unat y"
    using arg_cong [OF Cons.prems, of "\<lambda>v. v mod 65536"] by simp
  moreover have "bval xs = bval ys"
    using arg_cong [OF Cons.prems, of "\<lambda>v. v div 65536"] by simp
  ultimately show ?case using Cons.IH by (simp add: word_unat_eq_iff)
qed simp

text \<open>\<open>ACCUM\<close> stored into a digit, and \<open>CARRYOUT\<close>.\<close>

definition ACCUM :: "u32 \<Rightarrow> u16" where "ACCUM w = ucast w"
definition CARRYOUT :: "u32 \<Rightarrow> u32" where "CARRYOUT w = drop_bit 16 w"
definition RADIX :: u32 where "RADIX = 0xFFFF + 1"

lemma unat_RADIX: "unat RADIX = 65536"
proof -
  have "RADIX = of_nat 65536" by (simp add: RADIX_def)
  then show ?thesis using unat_of_nat_u32 [of 65536] by (simp only: )
qed

lemma unat_ACCUM: "unat (ACCUM w) = unat w mod 65536"
  by (simp add: ACCUM_def unsigned_ucast_eq take_bit_eq_mod)

lemma unat_CARRYOUT: "unat (CARRYOUT w) = unat w div 65536"
  by (simp add: CARRYOUT_def unat_drop_bit_u32)

lemma split_word: "unat (ACCUM w) + 65536 * unat (CARRYOUT w) = unat w"
  by (simp add: unat_ACCUM unat_CARRYOUT)

lemma unat_ucast_digit [simp]: "unat (ucast (x :: u16) :: u32) = unat x"
proof -
  have "unat x < 4294967296" using unat_u16_less [of x] by linarith
  then show ?thesis by (simp add: unsigned_ucast_eq take_bit_eq_mod)
qed

lemma unat_plus_u32: "unat a + unat b < 4294967296 \<Longrightarrow> unat (a + b :: u32) = unat a + unat b"
  by (simp add: unat_word_ariths(1))

lemma unat_times_u32: "unat a * unat b < 4294967296 \<Longrightarrow> unat (a * b :: u32) = unat a * unat b"
  by (simp add: unat_word_ariths(2))

lemma unat_digit_plus: "unat k \<le> 4294901760 \<Longrightarrow> unat (ucast (x :: u16) + k :: u32) = unat x + unat k"
proof -
  assume "unat k \<le> 4294901760"
  then have "unat (ucast x :: u32) + unat k < 4294967296" unfolding unat_ucast_digit using unat_u16_less [of x] by linarith
  then show ?thesis by (simp add: unat_plus_u32)
qed

lemma digit_product_le: "unat (x :: u16) * unat (y :: u16) \<le> 65535 * 65535"
  using unat_u16_less [of x] unat_u16_less [of y] by (intro mult_le_mono) linarith+

lemma unat_digit_product: "unat (ucast (x :: u16) * ucast (y :: u16) :: u32) = unat x * unat y"
  using digit_product_le [of x y] by (subst unat_times_u32) simp_all

section \<open>Integers and memory\<close>

datatype mp_err = MP_OKAY | MP_NO | MP_MEM | MP_RANGE | MP_BADARG | MP_UNDEF

datatype mp_sign = ZPOS | NEG

text \<open>\<open>dp\<close> is empty when the pointer is null.\<close>

record mp_int =
  sign :: mp_sign
  alloc :: nat
  used :: nat
  dp :: "u16 list"

text \<open>
  What the code sees of the heap: \<open>rooms\<close> tells for the coming calls of \<open>calloc\<close> whether they find room, and all calls behind the end
  of the list do. (When the guest's \<open>calloc\<close> finds none it fills memory from address 0 before it returns null, see \<open>Guest_Util\<close>; that is
  not seen here.) \<open>live\<close> counts the digit buffers in use, and \<open>overrun\<close> is set when a digit is written behind the end of its buffer.
\<close>

record mp_mem =
  rooms :: "bool list"
  live :: int
  overrun :: bool

definition s_mp_alloc :: "nat \<Rightarrow> mp_mem \<Rightarrow> u16 list \<times> mp_mem" where
  "s_mp_alloc nb h =
     (case rooms h of
        [] \<Rightarrow> (replicate nb 0, h\<lparr>live := live h + 1\<rparr>)
      | r # rs \<Rightarrow> if r then (replicate nb 0, h\<lparr>rooms := rs, live := live h + 1\<rparr>) else ([], h\<lparr>rooms := rs\<rparr>))"

definition s_mp_free :: "u16 list \<Rightarrow> mp_mem \<Rightarrow> mp_mem" where
  "s_mp_free p h = (if p \<noteq> [] then h\<lparr>live := live h - 1\<rparr> else h)"

text \<open>\<open>dp[i] = v\<close>\<close>

definition store_digit :: "nat \<Rightarrow> u16 \<Rightarrow> mp_int \<Rightarrow> mp_mem \<Rightarrow> mp_int \<times> mp_mem" where
  "store_digit i v a h = (a\<lparr>dp := (dp a)[i := v]\<rparr>, if i < alloc a then h else h\<lparr>overrun := True\<rparr>)"

definition digits :: "mp_int \<Rightarrow> u16 list" where
  "digits a = take (used a) (dp a)"

text \<open>The digits from the first one on replaced by \<open>ds\<close>.\<close>

definition put_digits :: "u16 list \<Rightarrow> mp_int \<Rightarrow> mp_int" where
  "put_digits ds a = a\<lparr>dp := ds @ drop (length ds) (dp a)\<rparr>"

text \<open>\<open>s_mp_defprec\<close> has its initial value.\<close>

definition MP_DEFPREC :: nat where "MP_DEFPREC = 16"

definition mp_init_size :: "nat \<Rightarrow> mp_mem \<Rightarrow> mp_err \<times> mp_int \<times> mp_mem" where
  "mp_init_size prec h =
     (let (p, h) = s_mp_alloc prec h
      in if p = [] then (MP_MEM, \<lparr>sign = ZPOS, alloc = 0, used = 0, dp = []\<rparr>, h)
         else (MP_OKAY, \<lparr>sign = ZPOS, alloc = prec, used = 1, dp = p\<rparr>, h))"

definition mp_init :: "mp_mem \<Rightarrow> mp_err \<times> mp_int \<times> mp_mem" where
  "mp_init h = mp_init_size MP_DEFPREC h"

definition mp_init_copy :: "mp_int \<Rightarrow> mp_mem \<Rightarrow> mp_err \<times> mp_int \<times> mp_mem" where
  "mp_init_copy frm h =
     (let (p, h) = s_mp_alloc (used frm) h
      in if p = [] then (MP_MEM, \<lparr>sign = ZPOS, alloc = 0, used = 0, dp = []\<rparr>, h)
         else (MP_OKAY, \<lparr>sign = sign frm, alloc = used frm, used = used frm, dp = digits frm\<rparr>, h))"

definition mp_clear :: "mp_int \<Rightarrow> mp_mem \<Rightarrow> mp_int \<times> mp_mem" where
  "mp_clear a h = (a\<lparr>dp := [], used := 0, alloc := 0\<rparr>, s_mp_free (dp a) h)"

text \<open>What \<open>mp_clear\<close> does to the heap, where the integer is not used any more.\<close>

abbreviation clear :: "mp_int \<Rightarrow> mp_mem \<Rightarrow> mp_mem" where
  "clear a h \<equiv> snd (mp_clear a h)"

text \<open>With one pointer for both arguments nothing happens; the digits are then the same too.\<close>

definition mp_copy :: "mp_int \<Rightarrow> mp_int \<Rightarrow> mp_mem \<Rightarrow> mp_err \<times> mp_int \<times> mp_mem" where
  "mp_copy frm to h =
     (if used frm \<le> alloc to
      then (MP_OKAY, to\<lparr>dp := digits frm @ replicate (alloc to - used frm) 0, used := used frm, sign := sign frm\<rparr>, h)
      else let (tmp, h) = s_mp_alloc (used frm) h
           in if tmp = [] then (MP_MEM, to, h)
              else (MP_OKAY, \<lparr>sign = sign frm, alloc = used frm, used = used frm, dp = digits frm\<rparr>, s_mp_free (dp to) h))"

definition s_mp_exch :: "mp_int \<Rightarrow> mp_int \<Rightarrow> mp_int \<times> mp_int" where
  "s_mp_exch a b = (b, a)"

definition mp_zero :: "mp_int \<Rightarrow> mp_int" where
  "mp_zero a = a\<lparr>dp := replicate (alloc a) 0, used := 1, sign := ZPOS\<rparr>"

definition mp_set :: "mp_int \<Rightarrow> u16 \<Rightarrow> mp_int" where
  "mp_set a d = (let a = mp_zero a in a\<lparr>dp := (dp a)[0 := d]\<rparr>)"

text \<open>The digits of a buffer that is exchanged for a larger one are freed.\<close>

definition s_mp_grow :: "mp_int \<Rightarrow> nat \<Rightarrow> mp_mem \<Rightarrow> mp_err \<times> mp_int \<times> mp_mem" where
  "s_mp_grow a mn h =
     (if alloc a < mn
      then let mn = (mn + (MP_DEFPREC - 1)) div MP_DEFPREC * MP_DEFPREC;
               (tmp, h) = s_mp_alloc mn h
           in if tmp = [] then (MP_MEM, a, h)
              else (MP_OKAY, a\<lparr>dp := digits a @ drop (used a) tmp, alloc := mn\<rparr>, s_mp_free (dp a) h)
      else (MP_OKAY, a, h))"

definition s_mp_pad :: "mp_int \<Rightarrow> nat \<Rightarrow> mp_mem \<Rightarrow> mp_err \<times> mp_int \<times> mp_mem" where
  "s_mp_pad a mn h =
     (if used a < mn
      then let (res, a, h) = (if alloc a < mn then s_mp_grow a mn h else (MP_OKAY, a, h))
           in if res \<noteq> MP_OKAY then (res, a, h) else (MP_OKAY, a\<lparr>used := mn\<rparr>, h)
      else (MP_OKAY, a, h))"

fun clamp_used :: "u16 list \<Rightarrow> nat \<Rightarrow> nat" where
  "clamp_used ds 0 = 0"
| "clamp_used ds (Suc du) = (if 0 < du \<and> ds ! du = 0 then clamp_used ds du else Suc du)"

definition s_mp_clamp :: "mp_int \<Rightarrow> mp_int" where
  "s_mp_clamp a =
     (let du = clamp_used (dp a) (used a);
          a = (if du = 1 \<and> dp a ! 0 = 0 then a\<lparr>sign := ZPOS\<rparr> else a)
      in a\<lparr>used := du\<rparr>)"

definition s_mp_lshd :: "mp_int \<Rightarrow> nat \<Rightarrow> mp_mem \<Rightarrow> mp_err \<times> mp_int \<times> mp_mem" where
  "s_mp_lshd a p h =
     (if p = 0 then (MP_OKAY, a, h)
      else let ds = digits a; (res, a, h) = s_mp_pad a (used a + p) h
           in if res \<noteq> MP_OKAY then (res, a, h) else (MP_OKAY, put_digits (replicate p 0 @ ds) a, h))"

definition s_mp_rshd :: "mp_int \<Rightarrow> nat \<Rightarrow> mp_int" where
  "s_mp_rshd a p =
     (if p = 0 then a
      else if used a \<le> p then a\<lparr>dp := replicate (alloc a) 0, used := 1, sign := ZPOS\<rparr>
      else s_mp_clamp (put_digits (drop p (digits a) @ replicate p 0) a))"

section \<open>Well-formed integers\<close>

text \<open>The buffer has the recorded size and is zero behind the digits in use.\<close>

definition mp_wf :: "mp_int \<Rightarrow> bool" where
  "mp_wf a \<longleftrightarrow> 1 \<le> used a \<and> used a \<le> alloc a \<and> length (dp a) = alloc a \<and> drop (used a) (dp a) = replicate (alloc a - used a) 0"

definition mag :: "mp_int \<Rightarrow> nat" where "mag a = bval (digits a)"

definition mp_val :: "mp_int \<Rightarrow> int" where "mp_val a = (if sign a = NEG then - int (mag a) else int (mag a))"

text \<open>Without leading zeros, and with a positive zero.\<close>

definition clamped :: "mp_int \<Rightarrow> bool" where
  "clamped a \<longleftrightarrow> used a = 1 \<or> last (digits a) \<noteq> 0"

definition mp_ok :: "mp_int \<Rightarrow> bool" where
  "mp_ok a \<longleftrightarrow> mp_wf a \<and> clamped a \<and> (mag a = 0 \<longrightarrow> sign a = ZPOS)"

lemma mp_okD: "mp_ok a \<Longrightarrow> mp_wf a" "mp_ok a \<Longrightarrow> clamped a" "mp_ok a \<Longrightarrow> mag a = 0 \<Longrightarrow> sign a = ZPOS"
  by (simp_all add: mp_ok_def)

lemma mp_wfD:
  "mp_wf a \<Longrightarrow> length (digits a) = used a" "mp_wf a \<Longrightarrow> digits a \<noteq> []" "mp_wf a \<Longrightarrow> 1 \<le> used a" "mp_wf a \<Longrightarrow> used a \<le> alloc a"
  "mp_wf a \<Longrightarrow> length (dp a) = alloc a" "mp_wf a \<Longrightarrow> dp a \<noteq> []"
  by (auto simp: mp_wf_def digits_def)

lemma mp_wf_dp: "mp_wf a \<Longrightarrow> dp a = digits a @ replicate (alloc a - used a) 0"
  by (metis append_take_drop_id digits_def mp_wf_def)

lemma mp_wfI: "ds \<noteq> [] \<Longrightarrow> length ds \<le> n \<Longrightarrow> mp_wf \<lparr>sign = s, alloc = n, used = length ds, dp = ds @ replicate (n - length ds) 0\<rparr>"
  by (simp add: mp_wf_def Suc_le_eq)

lemma digits_sign [simp]: "digits (a\<lparr>sign := s\<rparr>) = digits a" "mag (a\<lparr>sign := s\<rparr>) = mag a" "mp_wf (a\<lparr>sign := s\<rparr>) = mp_wf a"
  "clamped (a\<lparr>sign := s\<rparr>) = clamped a"
  by (simp_all add: digits_def mag_def mp_wf_def clamped_def)

lemma same_digits:
  assumes "mp_wf a" "mp_wf b" "digits a = digits b"
  shows "used a = used b" "mag a = mag b" "clamped a = clamped b" "sign a = sign b \<Longrightarrow> mp_val a = mp_val b"
    "sign a = sign b \<Longrightarrow> mp_ok a = mp_ok b"
  using assms mp_wfD(1) [OF assms(1)] mp_wfD(1) [OF assms(2)] by (simp_all add: mag_def mp_val_def clamped_def mp_ok_def)

lemma mag_less: "mp_wf a \<Longrightarrow> mag a < 65536 ^ used a"
  using bval_less [of "digits a"] by (simp add: mag_def mp_wfD)

lemma mag_ge: "mp_wf a \<Longrightarrow> clamped a \<Longrightarrow> mag a \<noteq> 0 \<Longrightarrow> 65536 ^ (used a - 1) \<le> mag a"
  using bval_ge [of "digits a"] by (auto simp: mag_def mp_wfD clamped_def)

lemma mp_wf_put:
  assumes "mp_wf a" "length ds = used a"
  shows "mp_wf (put_digits ds a) \<and> digits (put_digits ds a) = ds \<and> used (put_digits ds a) = used a \<and> alloc (put_digits ds a) = alloc a
    \<and> sign (put_digits ds a) = sign a"
  using assms by (auto simp: mp_wf_def put_digits_def digits_def)

text \<open>A heap that has room for every call, and what an operation does to it that succeeds and leaves \<open>k\<close> more buffers in use.\<close>

definition plenty :: "mp_mem \<Rightarrow> bool" where "plenty h \<longleftrightarrow> False \<notin> set (rooms h)"

definition fine :: "int \<Rightarrow> mp_mem \<Rightarrow> mp_mem \<Rightarrow> bool" where
  "fine k h h' \<longleftrightarrow> plenty h' \<and> live h' = live h + k \<and> overrun h' = overrun h"

lemma fine_refl [simp]: "fine 0 h h = plenty h"
  by (simp add: fine_def)

lemma fine_trans: "fine i h h1 \<Longrightarrow> fine j h1 h2 \<Longrightarrow> fine (i + j) h h2"
  by (simp add: fine_def)

lemma fine_plenty [dest]: "fine k h h' \<Longrightarrow> plenty h'"
  by (simp add: fine_def)

lemma s_mp_alloc_plenty: "plenty h \<Longrightarrow> 0 < n \<Longrightarrow> \<exists>h'. s_mp_alloc n h = (replicate n 0, h') \<and> fine 1 h h'"
  by (auto simp: s_mp_alloc_def plenty_def fine_def split: list.split)

lemma s_mp_free_fine: "p \<noteq> [] \<Longrightarrow> fine k h h' \<Longrightarrow> fine (k - 1) h (s_mp_free p h')"
  by (simp add: s_mp_free_def fine_def plenty_def)

lemma clear_fine: "mp_wf a \<Longrightarrow> fine k h h' \<Longrightarrow> fine (k - 1) h (clear a h')"
  by (simp add: mp_clear_def s_mp_free_fine mp_wfD)

lemma mp_init_size_fine:
  assumes "plenty h" "0 < n"
  obtains a h' where "mp_init_size n h = (MP_OKAY, a, h')" "fine 1 h h'" "mp_wf a" "digits a = [0]" "sign a = ZPOS" "used a = 1" "alloc a = n"
    "dp a = replicate n 0" "mag a = 0"
proof -
  obtain h' where h': "s_mp_alloc n h = (replicate n 0, h')" "fine 1 h h'" using s_mp_alloc_plenty [OF assms] by blast
  define a where "a = \<lparr>sign = ZPOS, alloc = n, used = 1, dp = replicate n (0 :: u16)\<rparr>"
  have d: "digits a = [0]" using assms(2) by (cases n) (simp_all add: a_def digits_def)
  have "mp_wf a" using assms(2) by (simp add: mp_wf_def a_def)
  then show thesis using that [of a h'] h' d assms(2) by (simp add: mp_init_size_def a_def mag_def)
qed

lemma mp_init_fine:
  assumes "plenty h"
  obtains a h' where "mp_init h = (MP_OKAY, a, h')" "fine 1 h h'" "mp_wf a" "digits a = [0]" "sign a = ZPOS" "used a = 1" "mag a = 0" "mp_ok a"
    "alloc a = 16"
proof -
  obtain a h' where a: "mp_init_size 16 h = (MP_OKAY, a, h')" "fine 1 h h'" "mp_wf a" "digits a = [0]" "sign a = ZPOS" "used a = 1"
    "alloc a = 16" "mag a = 0"
    by (rule mp_init_size_fine [OF assms, of 16]) simp_all
  then show thesis using that [of a h'] by (simp add: mp_init_def MP_DEFPREC_def mp_ok_def clamped_def)
qed

lemma mp_init_copy_fine:
  assumes "plenty h" "mp_wf b"
  obtains a h' where "mp_init_copy b h = (MP_OKAY, a, h')" "fine 1 h h'" "mp_wf a" "digits a = digits b" "sign a = sign b" "used a = used b"
    "mag a = mag b" "clamped a = clamped b" "mp_val a = mp_val b" "mp_ok a = mp_ok b"
proof -
  obtain h' where h': "s_mp_alloc (used b) h = (replicate (used b) 0, h')" "fine 1 h h'"
    using s_mp_alloc_plenty [OF assms(1), of "used b"] mp_wfD(3) [OF assms(2)] by auto
  define a where "a = \<lparr>sign = sign b, alloc = used b, used = used b, dp = digits b\<rparr>"
  have wf: "mp_wf a" "digits a = digits b" using mp_wfD [OF assms(2)] by (simp_all add: a_def mp_wf_def digits_def)
  have e: "mp_init_copy b h = (MP_OKAY, a, h')" using h' mp_wfD(3) [OF assms(2)] by (simp add: mp_init_copy_def a_def)
  have s: "sign a = sign b" by (simp add: a_def)
  show thesis using that [OF e h'(2) wf s] same_digits [OF wf(1) assms(2) wf(2)] s by simp
qed

lemma mp_copy_fine:
  assumes "plenty h" "mp_wf b" "mp_wf c"
  obtains a h' where "mp_copy b c h = (MP_OKAY, a, h')" "fine 0 h h'" "mp_wf a" "digits a = digits b" "sign a = sign b" "used a = used b"
    "mag a = mag b" "clamped a = clamped b" "mp_val a = mp_val b" "mp_ok a = mp_ok b" "alloc c \<le> alloc a"
proof (cases "used b \<le> alloc c")
  case True
  define a where "a = c\<lparr>dp := digits b @ replicate (alloc c - used b) 0, used := used b, sign := sign b\<rparr>"
  have wf: "mp_wf a" "digits a = digits b" using mp_wfD [OF assms(2)] True by (simp_all add: a_def mp_wf_def digits_def)
  have e: "mp_copy b c h = (MP_OKAY, a, h)" "sign a = sign b" "alloc c \<le> alloc a" using True by (simp_all add: mp_copy_def a_def)
  have f: "fine 0 h h" using assms(1) by simp
  show thesis using that [OF e(1) f wf e(2)] same_digits [OF wf(1) assms(2) wf(2)] e by simp
next
  case False
  obtain h1 where h1: "s_mp_alloc (used b) h = (replicate (used b) 0, h1)" "fine 1 h h1"
    using s_mp_alloc_plenty [OF assms(1), of "used b"] mp_wfD(3) [OF assms(2)] by auto
  define a where "a = \<lparr>sign = sign b, alloc = used b, used = used b, dp = digits b\<rparr>"
  have wf: "mp_wf a" "digits a = digits b" using mp_wfD [OF assms(2)] by (simp_all add: a_def mp_wf_def digits_def)
  have f: "fine 0 h (s_mp_free (dp c) h1)" using s_mp_free_fine [OF _ h1(2), of "dp c"] mp_wfD [OF assms(3)] by simp
  have e: "mp_copy b c h = (MP_OKAY, a, s_mp_free (dp c) h1)" "sign a = sign b" "alloc c \<le> alloc a"
    using h1(1) mp_wfD(3) [OF assms(2)] False by (simp_all add: mp_copy_def a_def)
  show thesis using that [OF e(1) f wf e(2)] same_digits [OF wf(1) assms(2) wf(2)] e by simp
qed

lemma mp_zero_ok: "mp_wf a \<Longrightarrow> mp_ok (mp_zero a) \<and> mag (mp_zero a) = 0 \<and> digits (mp_zero a) = [0] \<and> alloc (mp_zero a) = alloc a
  \<and> used (mp_zero a) = 1 \<and> mp_val (mp_zero a) = 0 \<and> sign (mp_zero a) = ZPOS"
proof -
  assume w: "mp_wf a"
  have d: "digits (mp_zero a) = [0]" using mp_wfD(3,4) [OF w] by (cases "alloc a") (simp_all add: mp_zero_def digits_def)
  then show ?thesis using mp_wfD [OF w] by (simp add: mp_ok_def mp_wf_def mp_zero_def clamped_def mag_def mp_val_def)
qed

lemma mp_set_ok: "mp_wf a \<Longrightarrow> mp_ok (mp_set a d) \<and> mag (mp_set a d) = unat d \<and> digits (mp_set a d) = [d] \<and> alloc (mp_set a d) = alloc a
  \<and> used (mp_set a d) = 1 \<and> mp_val (mp_set a d) = int (unat d) \<and> sign (mp_set a d) = ZPOS"
proof -
  assume w: "mp_wf a"
  have a: "1 \<le> alloc a" using mp_wfD(3,4) [OF w] by linarith
  have d: "digits (mp_set a d) = [d]" using a by (cases "alloc a") (simp_all add: mp_set_def mp_zero_def digits_def)
  then show ?thesis using a by (auto simp: mp_ok_def mp_wf_def mp_set_def mp_zero_def clamped_def mag_def mp_val_def)
qed

section \<open>Growing, clamping, shifting\<close>

lemma s_mp_grow_fine:
  assumes "plenty h" "mp_wf b"
  obtains a h' where "s_mp_grow b n h = (MP_OKAY, a, h')" "fine 0 h h'" "mp_wf a" "digits a = digits b" "sign a = sign b" "used a = used b"
    "n \<le> alloc a" "alloc b \<le> alloc a"
proof (cases "alloc b < n")
  case True
  define m where "m = (n + (MP_DEFPREC - 1)) div MP_DEFPREC * MP_DEFPREC"
  have m: "n \<le> m" "alloc b \<le> m" "0 < m" using True by (simp_all add: m_def MP_DEFPREC_def)
  obtain h1 where h1: "s_mp_alloc m h = (replicate m 0, h1)" "fine 1 h h1" using s_mp_alloc_plenty [OF assms(1) m(3)] by blast
  define a where "a = b\<lparr>dp := digits b @ drop (used b) (replicate m 0), alloc := m\<rparr>"
  have wf: "mp_wf a" "digits a = digits b" using mp_wfD [OF assms(2)] m by (simp_all add: a_def mp_wf_def digits_def)
  have f: "fine 0 h (s_mp_free (dp b) h1)" using s_mp_free_fine [OF _ h1(2), of "dp b"] mp_wfD [OF assms(2)] by simp
  have e: "s_mp_grow b n h = (MP_OKAY, a, s_mp_free (dp b) h1)"
    unfolding s_mp_grow_def m_def [symmetric] Let_def h1(1) using True m(3) by (simp add: a_def)
  show thesis using that [OF e f wf] m by (simp add: a_def)
next
  case False
  then show thesis using that [of b h] assms by (simp add: s_mp_grow_def)
qed

lemma s_mp_pad_fine:
  assumes "plenty h" "mp_wf b"
  obtains a h' where "s_mp_pad b n h = (MP_OKAY, a, h')" "fine 0 h h'" "mp_wf a" "digits a = digits b @ replicate (n - used b) 0" "sign a = sign b"
    "used a = max n (used b)" "mag a = mag b" "alloc b \<le> alloc a"
proof (cases "used b < n")
  case True
  obtain c h1 where c: "(if alloc b < n then s_mp_grow b n h else (MP_OKAY, b, h)) = (MP_OKAY, c, h1)" "fine 0 h h1" "mp_wf c"
    "digits c = digits b" "sign c = sign b" "used c = used b" "n \<le> alloc c" "alloc b \<le> alloc c"
  proof (cases "alloc b < n")
    case True
    then show thesis using s_mp_grow_fine [OF assms, of n] that by (metis (no_types, lifting))
  next
    case False
    then show thesis using that [of b h] assms by simp
  qed
  define a where "a = c\<lparr>used := n\<rparr>"
  have dc: "dp c = digits c @ replicate (alloc c - used c) 0" using mp_wf_dp [OF c(3)] .
  have wf: "mp_wf a" "digits a = digits b @ replicate (n - used b) 0"
    using mp_wfD [OF c(3)] True c(4,6,7) by (simp_all add: a_def mp_wf_def digits_def [of "c\<lparr>used := n\<rparr>"] dc min_def)
  have e: "s_mp_pad b n h = (MP_OKAY, a, h1)" using True c(1) by (simp add: s_mp_pad_def a_def)
  have "mag a = mag b" using wf(2) by (simp add: mag_def bval_append)
  then show thesis using that [OF e c(2) wf] True c(5,8) by (simp add: a_def)
next
  case False
  then show thesis using that [of b h] assms by (simp add: s_mp_pad_def max_def)
qed

lemma clamp_used_le: "clamp_used ds n \<le> n \<and> (1 \<le> n \<longrightarrow> 1 \<le> clamp_used ds n)"
  by (induction ds n rule: clamp_used.induct) auto

lemma clamp_used_zero: "clamp_used ds n \<le> i \<Longrightarrow> i < n \<Longrightarrow> ds ! i = 0"
  by (induction ds n rule: clamp_used.induct) (auto split: if_splits simp: less_Suc_eq)

lemma clamp_used_last: "1 < clamp_used ds n \<Longrightarrow> ds ! (clamp_used ds n - 1) \<noteq> 0"
  by (induction ds n rule: clamp_used.induct) (auto split: if_splits)

lemma s_mp_clamp_fine:
  assumes "mp_wf a"
  shows "mp_wf (s_mp_clamp a) \<and> clamped (s_mp_clamp a) \<and> mag (s_mp_clamp a) = mag a \<and> alloc (s_mp_clamp a) = alloc a
    \<and> sign (s_mp_clamp a) = (if mag a = 0 then ZPOS else sign a) \<and> used (s_mp_clamp a) \<le> used a"
proof -
  define du where "du = clamp_used (dp a) (used a)"
  define b where "b = a\<lparr>used := du\<rparr>"
  have l: "length (dp a) = alloc a" "1 \<le> used a" "used a \<le> alloc a" using mp_wfD [OF assms] by simp_all
  have du: "1 \<le> du" "du \<le> used a" using clamp_used_le [of "dp a" "used a"] l by (simp_all add: du_def)
  have z: "dp a ! i = 0" if "du \<le> i" "i < alloc a" for i
  proof (cases "i < used a")
    case False
    have "drop (used a) (dp a) ! (i - used a) = 0" using assms that False by (simp add: mp_wf_def)
    then show ?thesis using False that l by simp
  qed (use clamp_used_zero [of "dp a" "used a" i] that in \<open>simp add: du_def\<close>)
  have "drop du (dp a) = replicate (alloc a - du) 0"
    using z l du by (intro nth_equalityI) simp_all
  then have wb: "mp_wf b" using l du by (simp add: mp_wf_def b_def)
  have "digits a = digits b @ take (used a - du) (drop du (dp a))"
    using du take_add [of du "used a - du" "dp a"] by (simp add: digits_def b_def)
  moreover have "bval (take (used a - du) (drop du (dp a))) = 0" using z l by (auto simp: bval_0_iff in_set_conv_nth)
  ultimately have m: "mag b = mag a" by (simp add: mag_def bval_append)
  have c: "clamped b"
  proof (cases "du = 1")
    case False
    then have "dp a ! (du - 1) \<noteq> 0" using clamp_used_last [of "dp a" "used a"] du by (simp add: du_def)
    moreover have "last (digits b) = dp a ! (du - 1)"
    proof -
      have "take du (dp a) \<noteq> []" "length (take du (dp a)) = du" using du l by auto
      then show ?thesis using du by (simp add: digits_def b_def last_conv_nth)
    qed
    ultimately show ?thesis by (simp add: clamped_def)
  qed (simp add: clamped_def b_def)
  have "mag b = 0 \<longleftrightarrow> du = 1 \<and> dp a ! 0 = 0"
  proof
    assume "mag b = 0"
    then have "\<forall>x \<in> set (digits b). x = 0" by (simp add: mag_def bval_0_iff)
    then have "last (digits b) = 0" using mp_wfD(2) [OF wb] by simp
    then have d1: "du = 1" using c by (auto simp: clamped_def b_def)
    then show "du = 1 \<and> dp a ! 0 = 0" using \<open>last (digits b) = 0\<close> l by (cases "dp a") (simp_all add: digits_def b_def)
  next
    assume "du = 1 \<and> dp a ! 0 = 0"
    then show "mag b = 0" using l by (cases "dp a") (simp_all add: digits_def b_def mag_def)
  qed
  then have e: "s_mp_clamp a = b\<lparr>sign := (if mag a = 0 then ZPOS else sign a)\<rparr>"
    using m by (simp add: s_mp_clamp_def Let_def b_def flip: du_def)
  show ?thesis unfolding e using wb c m du by (simp add: b_def)
qed

lemma s_mp_clamp_ok: "mp_wf a \<Longrightarrow> mp_ok (s_mp_clamp a) \<and> mp_val (s_mp_clamp a) = mp_val a"
  using s_mp_clamp_fine [of a] by (simp add: mp_ok_def mp_val_def)

lemma s_mp_clamp_id: "mp_wf a \<Longrightarrow> clamped a \<Longrightarrow> (mag a = 0 \<Longrightarrow> sign a = ZPOS) \<Longrightarrow> s_mp_clamp a = a"
proof -
  assume w: "mp_wf a" "clamped a" "mag a = 0 \<Longrightarrow> sign a = ZPOS"
  have "clamp_used (dp a) (used a) = used a"
  proof (cases "used a")
    case (Suc n)
    have "last (digits a) = dp a ! n" using mp_wfD [OF w(1)] Suc by (simp add: digits_def last_conv_nth min_def)
    then show ?thesis using w(2) Suc by (auto simp: clamped_def)
  qed simp
  moreover have "dp a ! 0 = 0 \<Longrightarrow> used a = 1 \<Longrightarrow> mag a = 0" by (cases "dp a") (simp_all add: mag_def digits_def)
  ultimately show ?thesis using w(3) by (auto simp: s_mp_clamp_def Let_def)
qed

lemma s_mp_lshd_fine:
  assumes "plenty h" "mp_wf b"
  obtains a h' where "s_mp_lshd b p h = (MP_OKAY, a, h')" "fine 0 h h'" "mp_wf a" "digits a = replicate p 0 @ digits b" "sign a = sign b"
    "used a = used b + p" "mag a = mag b * 65536 ^ p" "alloc b \<le> alloc a"
proof (cases "p = 0")
  case True
  then show thesis using that [of b h] assms by (simp add: s_mp_lshd_def)
next
  case False
  obtain c h1 where c: "s_mp_pad b (used b + p) h = (MP_OKAY, c, h1)" "fine 0 h h1" "mp_wf c" "sign c = sign b"
    "used c = max (used b + p) (used b)" "alloc b \<le> alloc c"
    using s_mp_pad_fine [OF assms, of "used b + p"] by metis
  have "mp_wf (put_digits (replicate p 0 @ digits b) c) \<and> digits (put_digits (replicate p 0 @ digits b) c) = replicate p 0 @ digits b
      \<and> used (put_digits (replicate p 0 @ digits b) c) = used c \<and> alloc (put_digits (replicate p 0 @ digits b) c) = alloc c
      \<and> sign (put_digits (replicate p 0 @ digits b) c) = sign c"
    using c(5) mp_wfD(1) [OF assms(2)] by (intro mp_wf_put [OF c(3)]) simp
  then show thesis using that [of "put_digits (replicate p 0 @ digits b) c" h1] c False
    by (simp add: s_mp_lshd_def mag_def bval_append mult.commute)
qed

lemma bval_drop: "bval (drop p xs) = bval xs div 65536 ^ p"
proof (induction p arbitrary: xs)
  case (Suc p)
  show ?case
  proof (cases xs)
    case (Cons x ys)
    have "unat x + 65536 * bval ys = unat x + bval ys * 65536" by simp
    then have "bval xs div 65536 = bval ys" using Cons unat_u16_less [of x] by (simp add: div_mult_self3)
    then show ?thesis using Cons Suc by (simp add: div_mult2_eq)
  qed simp
qed simp

lemma s_mp_rshd_fine:
  assumes "mp_wf a" "clamped a" "mag a = 0 \<Longrightarrow> sign a = ZPOS"
  shows "mp_ok (s_mp_rshd a p) \<and> mag (s_mp_rshd a p) = mag a div 65536 ^ p
    \<and> sign (s_mp_rshd a p) = (if mag (s_mp_rshd a p) = 0 then ZPOS else sign a) \<and> alloc (s_mp_rshd a p) = alloc a
    \<and> used (s_mp_rshd a p) \<le> used a"
proof -
  consider "p = 0" | "p \<noteq> 0" "used a \<le> p" | "p \<noteq> 0" "p < used a" by linarith
  then show ?thesis
  proof cases
    case 1
    then show ?thesis using assms by (auto simp: s_mp_rshd_def mp_ok_def)
  next
    case 2
    have "mag a < 65536 ^ p" using mag_less [OF assms(1)] power_increasing [OF 2(2), of "65536 :: nat"] by linarith
    moreover have "s_mp_rshd a p = mp_zero a" using 2 by (simp add: s_mp_rshd_def mp_zero_def)
    ultimately show ?thesis using mp_zero_ok [OF assms(1)] mp_wfD(3) [OF assms(1)] by simp
  next
    case 3
    define ds where "ds = drop p (digits a) @ replicate p (0 :: u16)"
    have l: "length ds = used a" using 3 mp_wfD(1) [OF assms(1)] by (simp add: ds_def)
    note w = mp_wf_put [OF assms(1) l]
    have m: "mag (put_digits ds a) = mag a div 65536 ^ p" using w by (simp add: mag_def ds_def bval_append bval_drop)
    have e: "s_mp_rshd a p = s_mp_clamp (put_digits ds a)" using 3 by (simp add: s_mp_rshd_def ds_def)
    show ?thesis unfolding e using s_mp_clamp_fine [of "put_digits ds a"] s_mp_clamp_ok [of "put_digits ds a"] w m by auto
  qed
qed

end
