(* ===== verification/Mpi_Arith.thy ===== *)
theory Mpi_Arith
  imports Mpi_Base
begin

text \<open>
  Arithmetic on magnitudes, the \<open>s_mp_\<close> functions of \<open>mpi.c\<close>: with one digit, addition, subtraction, multiplication, squaring and
  comparison. A loop that walks pointers along the digits is a recursive function over them. Products of two digits are computed as
  \<open>int\<close> in C; the overflow of that type wraps around with the compiler used, so that the 32 bits are those of the unsigned product.
\<close>

section \<open>One digit\<close>

text \<open>\<open>while(ix < used && k)\<close>, from the second digit on.\<close>

fun carry_digits :: "u16 list \<Rightarrow> u32 \<Rightarrow> u16 list \<times> u32" where
  "carry_digits [] k = ([], k)"
| "carry_digits (x # xs) k =
     (if k = 0 then (x # xs, k)
      else let w = ucast x + k; (ys, k) = carry_digits xs (CARRYOUT w) in (ACCUM w # ys, k))"

definition s_mp_add_d :: "mp_int \<Rightarrow> u16 \<Rightarrow> mp_mem \<Rightarrow> mp_err \<times> mp_int \<times> mp_mem" where
  "s_mp_add_d a d h =
     (let w = ucast (dp a ! 0) + ucast d;
          ix = used a;
          (ds, k) = carry_digits (tl (digits a)) (CARRYOUT w);
          a = put_digits (ACCUM w # ds) a
      in if k \<noteq> 0
         then let (res, a, h) = s_mp_pad a (used a + 1) h
              in if res \<noteq> MP_OKAY then (res, a, h) else let (a, h) = store_digit ix (ucast k) a h in (MP_OKAY, a, h)
         else (MP_OKAY, a, h))"

fun borrow_digits :: "u16 list \<Rightarrow> u32 \<Rightarrow> u16 list \<times> u32" where
  "borrow_digits [] b = ([], b)"
| "borrow_digits (x # xs) b =
     (if b = 0 then (x # xs, b)
      else let w = (RADIX + ucast x) - b; (ys, b) = borrow_digits xs (if CARRYOUT w \<noteq> 0 then 0 else 1) in (ACCUM w # ys, b))"

definition s_mp_sub_d :: "mp_int \<Rightarrow> u16 \<Rightarrow> mp_err \<times> mp_int" where
  "s_mp_sub_d a d =
     (let w = (RADIX + ucast (dp a ! 0)) - ucast d;
          (ds, b) = borrow_digits (tl (digits a)) (if CARRYOUT w \<noteq> 0 then 0 else 1);
          a = s_mp_clamp (put_digits (ACCUM w # ds) a)
      in if b \<noteq> 0 then (MP_RANGE, a) else (MP_OKAY, a))"

fun mul_digits :: "u16 list \<Rightarrow> u16 \<Rightarrow> u32 \<Rightarrow> u16 list \<times> u32" where
  "mul_digits [] d k = ([], k)"
| "mul_digits (x # xs) d k =
     (let w = ucast x * ucast d + k; (ys, k) = mul_digits xs d (CARRYOUT w) in (ACCUM w # ys, k))"

definition s_mp_mul_d :: "mp_int \<Rightarrow> u16 \<Rightarrow> mp_mem \<Rightarrow> mp_err \<times> mp_int \<times> mp_mem" where
  "s_mp_mul_d a d h =
     (let mx = used a;
          w = ucast (dp a ! (mx - 1)) * ucast d;
          (res, a, h) = (if CARRYOUT w \<noteq> 0 then s_mp_pad a (mx + 1) h else (MP_OKAY, a, h))
      in if res \<noteq> MP_OKAY then (res, a, h)
         else let (ds, k) = mul_digits (take mx (dp a)) d 0;
                  a = put_digits ds a;
                  (a, h) = (if k \<noteq> 0 then let (a, h) = store_digit mx (ucast k) a h in (a\<lparr>used := mx + 1\<rparr>, h) else (a, h))
              in (MP_OKAY, s_mp_clamp a, h))"

text \<open>From the last digit down; the quotient is built in a new buffer, which is exchanged with that of the argument, sign included.\<close>

fun div_digits :: "u16 list \<Rightarrow> u32 \<Rightarrow> u16 list \<times> u32" where
  "div_digits [] d = ([], 0)"
| "div_digits (x # xs) d =
     (let (ys, w) = div_digits xs d;
          w = push_bit 16 w OR ucast x;
          (t, w) = (if d \<le> w then (w div d, w mod d) else (0, w))
      in (ucast t # ys, w))"

definition s_mp_div_d :: "mp_int \<Rightarrow> u16 \<Rightarrow> mp_mem \<Rightarrow> mp_err \<times> mp_int \<times> u16 \<times> mp_mem" where
  "s_mp_div_d a d h =
     (if d = 0 then (MP_RANGE, a, 0, h)
      else let (res, quot, h) = mp_init_size (used a) h
           in if res \<noteq> MP_OKAY then (res, a, 0, h)
              else let quot = quot\<lparr>used := used a\<rparr>;
                       (qs, w) = div_digits (digits a) (ucast d);
                       quot = s_mp_clamp (put_digits qs quot);
                       (quot, a) = s_mp_exch quot a
                   in (MP_OKAY, a, ucast w, clear quot h))"

section \<open>Addition, subtraction\<close>

fun add_digits :: "u16 list \<Rightarrow> u16 list \<Rightarrow> u32 \<Rightarrow> u16 list \<times> u32" where
  "add_digits xs [] w = carry_digits xs w"
| "add_digits [] (y # ys) w = ([], w)"
| "add_digits (x # xs) (y # ys) w =
     (let w = w + (ucast x + ucast y); (zs, k) = add_digits xs ys (CARRYOUT w) in (ACCUM w # zs, k))"

definition s_mp_add :: "mp_int \<Rightarrow> mp_int \<Rightarrow> mp_mem \<Rightarrow> mp_err \<times> mp_int \<times> mp_mem" where
  "s_mp_add a b h =
     (let (res, a, h) = (if used a < used b then s_mp_pad a (used b) h else (MP_OKAY, a, h))
      in if res \<noteq> MP_OKAY then (res, a, h)
         else let (ds, w) = add_digits (digits a) (digits b) 0;
                  ix = used a;
                  a = put_digits ds a
              in if w \<noteq> 0
                 then let (res, a, h) = s_mp_pad a (ix + 1) h
                      in if res \<noteq> MP_OKAY then (res, a, h) else let (a, h) = store_digit ix (ucast w) a h in (MP_OKAY, a, h)
                 else (MP_OKAY, a, h))"

text \<open>With more digits in \<open>b\<close> than in \<open>a\<close>, which its callers exclude, \<open>s_mp_sub\<close> reads and writes the digits behind those in use.\<close>

fun sub_digits :: "u16 list \<Rightarrow> u16 list \<Rightarrow> u32 \<Rightarrow> u16 list \<times> u32" where
  "sub_digits [] ys w = ([], w)"
| "sub_digits (x # xs) [] w =
     (let w = (RADIX + ucast x) - w; (zs, b) = sub_digits xs [] (if CARRYOUT w \<noteq> 0 then 0 else 1) in (ACCUM w # zs, b))"
| "sub_digits (x # xs) (y # ys) w =
     (let w = (RADIX + ucast x) - w - ucast y; (zs, b) = sub_digits xs ys (if CARRYOUT w \<noteq> 0 then 0 else 1) in (ACCUM w # zs, b))"

definition s_mp_sub :: "mp_int \<Rightarrow> mp_int \<Rightarrow> mp_err \<times> mp_int" where
  "s_mp_sub a b =
     (let (ds, w) = sub_digits (take (max (used a) (used b)) (dp a)) (digits b) 0;
          a = s_mp_clamp (put_digits ds a)
      in if w \<noteq> 0 then (MP_RANGE, a) else (MP_OKAY, a))"

section \<open>Multiplication, squaring\<close>

text \<open>\<open>ts\<close> are the digits of the product from \<open>pbt + ix\<close> on.\<close>

fun mul_inner :: "u16 list \<Rightarrow> u16 \<Rightarrow> u16 list \<Rightarrow> u32 \<Rightarrow> u16 list \<times> u32" where
  "mul_inner (x # xs) b (t # ts) k =
     (let w = ucast b * ucast x + k + ucast t; (zs, k) = mul_inner xs b ts (CARRYOUT w) in (ACCUM w # zs, k))"
| "mul_inner xs b ts k = ([], k)"

fun mul_outer :: "u16 list \<Rightarrow> u16 list \<Rightarrow> u16 list \<Rightarrow> u16 list" where
  "mul_outer [] xs ts = ts"
| "mul_outer (b # bs) xs ts =
     (let ts = (if b = 0 then ts else let (zs, k) = mul_inner xs b ts 0 in zs @ ucast k # drop (Suc (length xs)) ts)
      in take 1 ts @ mul_outer bs xs (drop 1 ts))"

definition s_mp_mul :: "mp_int \<Rightarrow> mp_int \<Rightarrow> mp_mem \<Rightarrow> mp_err \<times> mp_int \<times> mp_mem" where
  "s_mp_mul a b h =
     (let (res, tmp, h) = mp_init_size (used a + used b) h
      in if res \<noteq> MP_OKAY then (res, a, h)
         else let tmp = tmp\<lparr>used := used a + used b\<rparr>;
                  tmp = s_mp_clamp (put_digits (mul_outer (digits b) (digits a) (digits tmp)) tmp);
                  (tmp, a) = s_mp_exch tmp a
              in (MP_OKAY, a, clear tmp h))"

text \<open>Doubled products need 33 bits, and \<open>u\<close> is the last.\<close>

fun sqr_inner :: "u16 \<Rightarrow> u16 list \<Rightarrow> u16 list \<Rightarrow> u32 \<Rightarrow> u16 list \<times> u32" where
  "sqr_inner x (y # ys) (t # ts) k =
     (let w = ucast x * ucast y;
          u = drop_bit 31 w AND 1;
          w = w * 2;
          v = ucast t + k;
          u = u OR (if 0xFFFFFFFF - v < w then 1 else 0);
          w = w + v;
          (zs, k) = sqr_inner x ys ts (CARRYOUT w OR push_bit 16 u)
      in (ACCUM w # zs, k))"
| "sqr_inner x ys ts k = ([], k)"

text \<open>\<open>while(k)\<close>; the digit gets 1 added, whatever \<open>k\<close> is.\<close>

fun sqr_cascade :: "u16 list \<Rightarrow> u32 \<Rightarrow> u16 list \<times> u32" where
  "sqr_cascade [] k = ([], k)"
| "sqr_cascade (t # ts) k =
     (if k = 0 then (t # ts, k) else let k = ucast t + 1; (zs, k') = sqr_cascade ts (CARRYOUT k) in (ACCUM k # zs, k'))"

text \<open>\<open>ts\<close> are the digits of the square from \<open>pbt + ix + ix\<close> on. The last result tells whether a carry went behind the last digit.\<close>

fun sqr_outer :: "u16 list \<Rightarrow> u16 list \<Rightarrow> u16 list \<times> bool" where
  "sqr_outer [] ts = (ts, False)"
| "sqr_outer (x # xs) ts =
     (let (ts, out) =
        (if x = 0 then (ts, False)
         else let w = ucast (ts ! 0) + ucast x * ucast x;
                  (zs, k) = sqr_inner x xs (drop 1 ts) (CARRYOUT w);
                  n = Suc (length xs);
                  k = ucast (ts ! n) + k;
                  (cs, k') = sqr_cascade (drop (Suc n) ts) (CARRYOUT k)
              in (ACCUM w # zs @ ACCUM k # cs, k' \<noteq> 0));
          (us, out') = sqr_outer xs (drop 2 ts)
      in (take 2 ts @ us, out \<or> out'))"

definition s_mp_sqr :: "mp_int \<Rightarrow> mp_mem \<Rightarrow> mp_err \<times> mp_int \<times> mp_mem" where
  "s_mp_sqr a h =
     (let (res, tmp, h) = mp_init_size (2 * used a) h
      in if res \<noteq> MP_OKAY then (res, a, h)
         else let tmp = tmp\<lparr>used := 2 * used a\<rparr>;
                  (ts, out) = sqr_outer (digits a) (digits tmp);
                  tmp = s_mp_clamp (put_digits ts tmp);
                  h = (if out then h\<lparr>overrun := True\<rparr> else h);
                  (tmp, a) = s_mp_exch tmp a
              in (MP_OKAY, a, clear tmp h))"

section \<open>Comparison\<close>

definition MP_LT :: int where "MP_LT = - 1"
definition MP_EQ :: int where "MP_EQ = 0"
definition MP_GT :: int where "MP_GT = 1"

text \<open>From the last digit down.\<close>

fun cmp_digits :: "u16 list \<Rightarrow> u16 list \<Rightarrow> int" where
  "cmp_digits (x # xs) (y # ys) =
     (let c = cmp_digits xs ys in if c \<noteq> MP_EQ then c else if y < x then MP_GT else if x < y then MP_LT else MP_EQ)"
| "cmp_digits xs ys = MP_EQ"

definition s_mp_cmp :: "mp_int \<Rightarrow> mp_int \<Rightarrow> int" where
  "s_mp_cmp a b =
     (if used b < used a then MP_GT else if used a < used b then MP_LT else cmp_digits (digits a) (digits b))"

definition s_mp_cmp_d :: "mp_int \<Rightarrow> u16 \<Rightarrow> int" where
  "s_mp_cmp_d a d = (if 1 < used a then MP_GT else if dp a ! 0 < d then MP_LT else if d < dp a ! 0 then MP_GT else MP_EQ)"

partial_function (option) pow2d_loop :: "u16 \<Rightarrow> int \<Rightarrow> (u16 \<times> int) option" where
  "pow2d_loop d pow = (if d AND 1 = 0 then pow2d_loop (drop_bit 1 d) (pow + 1) else Some (d, pow))"

definition s_mp_ispow2d :: "u16 \<Rightarrow> int option" where
  "s_mp_ispow2d d = map_option (\<lambda>(d, pow). if d = 1 then pow else - 1) (pow2d_loop d 0)"

declare pow2d_loop.simps [code]

function ispow2_top :: "u16 \<Rightarrow> nat \<Rightarrow> u16 \<times> nat" where
  "ispow2_top d extra = (if d \<noteq> 0 \<and> d AND 1 = 0 then ispow2_top (drop_bit 1 d) (extra + 1) else (d, extra))"
  by pat_completeness auto
termination
proof (relation "measure (\<lambda>(d, extra). unat d)")
  fix d :: u16 and extra :: nat
  assume "d \<noteq> 0 \<and> d AND 1 = 0"
  then have "0 < unat d" by (simp add: unat_gt_0)
  then show "((drop_bit 1 d, extra + 1), d, extra) \<in> measure (\<lambda>(d, extra). unat d)"
    by (simp add: drop_bit_Suc unat_div_distrib)
qed simp

definition s_mp_ispow2 :: "mp_int \<Rightarrow> int" where
  "s_mp_ispow2 v =
     (let (d, extra) = ispow2_top (dp v ! (used v - 1)) 0
      in if d = 1 \<and> (\<forall>x \<in> set (take (used v - 1) (dp v)). x = 0) then int ((used v - 1) * 16 + extra) else - 1)"

section \<open>What they compute\<close>

lemma clampedI: "mp_wf a \<Longrightarrow> 65536 ^ (used a - 1) \<le> mag a \<Longrightarrow> clamped a"
proof (rule ccontr)
  assume w: "mp_wf a" "65536 ^ (used a - 1) \<le> mag a" "\<not> clamped a"
  have l: "digits a \<noteq> []" "last (digits a) = 0" "length (digits a) = used a" using w mp_wfD [OF w(1)] by (simp_all add: clamped_def)
  have "digits a = butlast (digits a) @ [0]" using l by (metis append_butlast_last_id)
  then have "bval (digits a) = bval (butlast (digits a))" using bval_append [of "butlast (digits a)" "[0]"] by simp
  then show False using bval_less [of "butlast (digits a)"] w(2) l by (simp add: mag_def)
qed

lemma clamped_ge: "mp_ok a \<Longrightarrow> used a = 1 \<or> 65536 ^ (used a - 1) \<le> mag a"
  using bval_ge [of "digits a"] mp_wfD [of a] by (auto simp: mp_ok_def clamped_def mag_def)

lemma clamped_mono: "mp_ok a \<Longrightarrow> mp_wf b \<Longrightarrow> used b = used a \<Longrightarrow> mag a \<le> mag b \<Longrightarrow> clamped b"
proof -
  assume a: "mp_ok a" and b: "mp_wf b" "used b = used a" "mag a \<le> mag b"
  show ?thesis
  proof (cases "used a = 1")
    case False
    then have "65536 ^ (used b - 1) \<le> mag b" using clamped_ge [OF a] b(2,3) by simp
    then show ?thesis by (rule clampedI [OF b(1)])
  qed (use b(2) in \<open>simp add: clamped_def\<close>)
qed

lemma carry_digits_val:
  "unat k \<le> 65535 \<Longrightarrow> carry_digits xs k = (ys, k') \<Longrightarrow>
     length ys = length xs \<and> bval ys + 65536 ^ length xs * unat k' = bval xs + unat k \<and> unat k' \<le> unat k"
proof (induction xs k arbitrary: ys k' rule: carry_digits.induct)
  case (2 x xs k)
  show ?case
  proof (cases "k = 0")
    case False
    define w where "w = ucast x + k"
    have uw: "unat w = unat x + unat k" using 2(2) by (simp add: w_def unat_digit_plus)
    obtain zs where zs: "carry_digits xs (CARRYOUT w) = (zs, k')" "ys = ACCUM w # zs"
      using 2(3) False by (auto simp: w_def Let_def split: prod.splits)
    have "unat (CARRYOUT w) \<le> 1" using uw 2(2) unat_u16_less [of x] unfolding unat_CARRYOUT by linarith
    then have "length zs = length xs \<and> bval zs + 65536 ^ length xs * unat k' = bval xs + unat (CARRYOUT w) \<and> unat k' \<le> unat (CARRYOUT w)"
      using 2(1) [OF False w_def _ zs(1)] by simp
    moreover have "1 \<le> unat k" using False by (simp add: Suc_leI unat_gt_0)
    ultimately show ?thesis using zs(2) uw split_word [of w] \<open>unat (CARRYOUT w) \<le> 1\<close> by (auto simp: algebra_simps)
  qed (use 2(3) in simp)
qed simp

lemma digits_hd: "mp_wf a \<Longrightarrow> digits a = dp a ! 0 # tl (digits a)"
  using mp_wfD(1,2,3) [of a] by (cases "dp a") (auto simp: digits_def take_Cons')

lemma digits_last: "mp_wf a \<Longrightarrow> dp a ! (used a - 1) = last (digits a)"
  using mp_wfD [of a] by (simp add: digits_def last_conv_nth)

text \<open>The carry behind the last digit.\<close>

lemma store_carry:
  assumes "plenty h" "mp_wf a" "length ds = used a" "0 < unat k" "unat k \<le> 65535"
  obtains a' h' where "s_mp_pad (put_digits ds a) (used a + 1) h = (MP_OKAY, a', h')"
    "fine 0 h (snd (store_digit (used a) (ucast (k :: u32)) a' h'))"
    "mp_wf (fst (store_digit (used a) (ucast k) a' h'))" "digits (fst (store_digit (used a) (ucast k) a' h')) = ds @ [ucast k]"
    "sign (fst (store_digit (used a) (ucast k) a' h')) = sign a" "clamped (fst (store_digit (used a) (ucast k) a' h'))"
    "mag (fst (store_digit (used a) (ucast k) a' h')) = bval ds + 65536 ^ used a * unat k"
proof -
  note w = mp_wf_put [OF assms(2,3)]
  obtain a1 h1 where a1: "s_mp_pad (put_digits ds a) (used a + 1) h = (MP_OKAY, a1, h1)" "fine 0 h h1" "mp_wf a1"
    "digits a1 = ds @ [0]" "sign a1 = sign a" "used a1 = used a + 1"
    by (rule s_mp_pad_fine [OF assms(1) w [THEN conjunct1], of "used a + 1"], rule that, assumption) (simp_all add: w)
  define a2 where "a2 = fst (store_digit (used a) (ucast k) a1 h1)"
  have a2: "a2 = a1\<lparr>dp := (dp a1)[used a := ucast k]\<rparr>" by (simp add: a2_def store_digit_def)
  have al: "used a < alloc a1" using mp_wfD(4) [OF a1(3)] a1(6) by simp
  have d: "dp a1 = ds @ 0 # drop (Suc (used a)) (dp a1)" using mp_wf_dp [OF a1(3)] a1(4,6) assms(3) by (metis append.assoc append_Cons
    append_Nil append_eq_conv_conj digits_def length_append_singleton mp_wf_def Suc_eq_plus1)
  have d2: "dp a2 = ds @ ucast k # drop (Suc (used a)) (dp a1)" unfolding a2 using d assms(3)
    by (metis (mono_tags, lifting) list_update_length mp_int.select_convs(4) mp_int.surjective mp_int.update_convs(4))
  have wf: "mp_wf a2" "digits a2 = ds @ [ucast k]"
    using a1(3,6) assms(3) d2 by (simp_all add: a2 mp_wf_def digits_def)
  have uk: "unat (ucast k :: u16) = unat k" using assms(5) by (simp add: unsigned_ucast_eq take_bit_eq_mod)
  have "clamped a2" using wf uk assms(4) by (auto simp: clamped_def)
  moreover have "mag a2 = bval ds + 65536 ^ used a * unat k" using wf(2) uk assms(3) by (simp add: mag_def bval_append)
  moreover have "fine 0 h (snd (store_digit (used a) (ucast k) a1 h1))" using a1(2) al by (simp add: store_digit_def)
  ultimately show thesis using that [OF a1(1)] wf a1(5) a2 by (simp add: a2_def [symmetric])
qed

lemma s_mp_add_d_fine:
  assumes "plenty h" "mp_ok a"
  obtains a' h' where "s_mp_add_d a d h = (MP_OKAY, a', h')" "fine 0 h h'" "mp_ok a'" "mag a' = mag a + unat d"
    "sign a' = sign a"
proof -
  have wf: "mp_wf a" by (rule mp_okD(1) [OF assms(2)])
  define x where "x = dp a ! 0"
  define xs where "xs = tl (digits a)"
  have dg: "digits a = x # xs" using digits_hd [OF wf] by (simp add: x_def xs_def)
  define w where "w = (ucast x :: u32) + ucast d"
  have "unat (ucast d :: u32) \<le> 4294901760" unfolding unat_ucast_digit using unat_u16_less [of d] by linarith
  then have uw: "unat w = unat x + unat d" by (simp add: w_def unat_digit_plus)
  have c1: "unat (CARRYOUT w) \<le> 1" using uw unat_u16_less [of x] unat_u16_less [of d] unfolding unat_CARRYOUT by linarith
  obtain ds k where dk: "carry_digits xs (CARRYOUT w) = (ds, k)" by fastforce
  have v: "length ds = length xs" "bval ds + 65536 ^ length xs * unat k = bval xs + unat (CARRYOUT w)" "unat k \<le> 1"
    using carry_digits_val [OF _ dk] c1 by auto
  have l: "length (ACCUM w # ds) = used a" using v(1) dg mp_wfD(1) [OF wf] by simp
  have u: "used a = Suc (length xs)" using l v(1) by simp
  have m: "bval (ACCUM w # ds) + 65536 ^ used a * unat k = mag a + unat d"
  proof -
    have "65536 * bval ds + 65536 ^ used a * unat k = 65536 * (bval xs + unat (CARRYOUT w))" unfolding u using arg_cong [OF v(2), of "\<lambda>n. 65536 * n"]
      by (simp add: algebra_simps)
    then show ?thesis using split_word [of w] uw by (simp add: mag_def dg algebra_simps)
  qed
  note w = mp_wf_put [OF wf l]
  have def1: "s_mp_add_d a d h = (if k \<noteq> 0
         then let (res, a', h) = s_mp_pad (put_digits (ACCUM w # ds) a) (used a + 1) h
              in if res \<noteq> MP_OKAY then (res, a', h) else let (a', h) = store_digit (used a) (ucast k) a' h in (MP_OKAY, a', h)
         else (MP_OKAY, put_digits (ACCUM w # ds) a, h))"
    using w by (simp add: s_mp_add_d_def dk [unfolded xs_def] flip: x_def w_def)
  show thesis
  proof (cases "k = 0")
    case True
    define b where "b = put_digits (ACCUM w # ds) a"
    have b: "mp_wf b" "mag b = mag a + unat d" "sign b = sign a" "used b = used a" using w m True by (simp_all add: b_def mag_def)
    have "clamped b" using clamped_mono [OF assms(2) b(1,4)] b(2) by simp
    then have "mp_ok b" using b assms(2) by (simp add: mp_ok_def)
    then show thesis using that [of b h] b assms(1) def1 True by (simp add: b_def)
  next
    case False
    have k: "0 < unat k" "unat k \<le> 65535" using False v(3) by (simp_all add: unat_gt_0)
    show thesis
    proof (rule store_carry [OF assms(1) wf l k])
      fix a1 h1
      let ?s = "store_digit (used a) (ucast k) a1 h1"
      assume s: "s_mp_pad (put_digits (ACCUM w # ds) a) (used a + 1) h = (MP_OKAY, a1, h1)" "fine 0 h (snd ?s)" "mp_wf (fst ?s)"
        "sign (fst ?s) = sign a" "clamped (fst ?s)" "mag (fst ?s) = bval (ACCUM w # ds) + 65536 ^ used a * unat k"
      have mg: "mag (fst ?s) = mag a + unat d" using s(6) m by simp
      have "0 < mag (fst ?s)" unfolding s(6) using k(1) by simp
      then have ok: "mp_ok (fst ?s)" using s(3,5) by (simp add: mp_ok_def)
      have "s_mp_add_d a d h = (MP_OKAY, fst ?s, snd ?s)" using def1 False s(1) by (simp add: case_prod_beta)
      then show thesis using that s(2) ok mg s(4) by blast
    qed
  qed
qed

lemma borrow_step:
  assumes "unat b \<le> 65536"
  shows "unat (ACCUM ((RADIX + ucast (x :: u16)) - b)) + unat b = unat x + 65536 * (if CARRYOUT ((RADIX + ucast x) - b) \<noteq> 0 then 0 else 1)"
proof -
  define w where "w = (RADIX + ucast x) - b"
  have r: "unat (RADIX + ucast x) = 65536 + unat x"
  proof -
    have "unat RADIX \<le> 4294901760" by (simp only: unat_RADIX)
    then show ?thesis using unat_digit_plus [of RADIX x] by (simp only: add.commute unat_RADIX)
  qed
  have "b \<le> RADIX + ucast x" unfolding word_le_nat_alt r using assms by linarith
  then have uw: "unat w = 65536 + unat x - unat b" unfolding w_def by (simp add: unat_sub r)
  have "CARRYOUT w \<noteq> 0 \<longleftrightarrow> unat b \<le> unat x"
  proof -
    have "CARRYOUT w \<noteq> 0 \<longleftrightarrow> 0 < unat (CARRYOUT w)" by (simp add: unat_gt_0)
    also have "\<dots> \<longleftrightarrow> unat b \<le> unat x" unfolding unat_CARRYOUT uw using assms unat_u16_less [of x] by (auto simp: div_greater_zero_iff)
    finally show ?thesis .
  qed
  moreover have "(65536 + unat x - unat b) mod 65536 + unat b = unat x + 65536 * (if unat b \<le> unat x then 0 else 1)"
  proof (cases "unat b \<le> unat x")
    case True
    then have e: "65536 + unat x - unat b = (unat x - unat b) + 65536" by simp
    have "(unat x - unat b) mod 65536 = unat x - unat b" using unat_u16_less [of x] by (intro mod_less) linarith
    then have "(65536 + unat x - unat b) mod 65536 = unat x - unat b" by (simp only: e mod_add_self2)
    then show ?thesis using True by simp
  next
    case False
    then have "(65536 + unat x - unat b) mod 65536 = 65536 + unat x - unat b" using assms by (intro mod_less) linarith
    then show ?thesis using False assms by simp
  qed
  ultimately show ?thesis unfolding w_def [symmetric] unat_ACCUM uw by simp
qed

lemma borrow_digits_val:
  "unat b \<le> 1 \<Longrightarrow> borrow_digits xs b = (ys, b') \<Longrightarrow>
     length ys = length xs \<and> bval ys + unat b = bval xs + 65536 ^ length xs * unat b' \<and> unat b' \<le> 1"
proof (induction xs b arbitrary: ys b' rule: borrow_digits.induct)
  case (2 x xs b)
  show ?case
  proof (cases "b = 0")
    case False
    define w where "w = (RADIX + ucast x) - b"
    define c where "c = (if CARRYOUT w \<noteq> 0 then 0 else 1 :: u32)"
    obtain zs where zs: "borrow_digits xs c = (zs, b')" "ys = ACCUM w # zs"
      using 2(3) False by (auto simp: w_def c_def Let_def split: prod.splits)
    have c1: "unat c \<le> 1" by (simp add: c_def)
    have "length zs = length xs \<and> bval zs + unat c = bval xs + 65536 ^ length xs * unat b' \<and> unat b' \<le> 1"
      using 2(1) [OF False w_def, folded c_def, OF c1 zs(1)] .
    moreover have "unat (ACCUM w) + unat b = unat x + 65536 * unat c"
      using borrow_step [of b x] 2(2) by (simp add: c_def flip: w_def)
    ultimately show ?thesis using zs(2) by (auto simp: algebra_simps)
  qed (use 2(3) in simp)
qed simp

lemma s_mp_sub_d_fine:
  assumes "mp_ok a" "unat d \<le> mag a"
  obtains a' where "s_mp_sub_d a d = (MP_OKAY, a')" "mp_ok a'" "mag a' = mag a - unat d" "sign a' = sign a \<or> mag a' = 0" "alloc a' = alloc a"
proof -
  have wf: "mp_wf a" by (rule mp_okD(1) [OF assms(1)])
  define x where "x = dp a ! 0"
  define xs where "xs = tl (digits a)"
  have dg: "digits a = x # xs" using digits_hd [OF wf] by (simp add: x_def xs_def)
  define w where "w = (RADIX + ucast x) - (ucast d :: u32)"
  define c where "c = (if CARRYOUT w \<noteq> 0 then 0 else 1 :: u32)"
  have "unat (ucast d :: u32) \<le> 65536" unfolding unat_ucast_digit using unat_u16_less [of d] by linarith
  from borrow_step [OF this, of x] have b: "unat (ACCUM w) + unat d = unat x + 65536 * unat c" by (simp add: c_def flip: w_def)
  have c1: "unat c \<le> 1" by (simp add: c_def)
  obtain ds k where dk: "borrow_digits xs c = (ds, k)" by fastforce
  have v: "length ds = length xs" "bval ds + unat c = bval xs + 65536 ^ length xs * unat k" "unat k \<le> 1"
    using borrow_digits_val [OF c1 dk] by auto
  have l: "length (ACCUM w # ds) = used a" using v(1) dg mp_wfD(1) [OF wf] by simp
  have u: "used a = Suc (length xs)" using l v(1) by simp
  have m: "bval (ACCUM w # ds) + unat d = mag a + 65536 ^ used a * unat k"
    using arg_cong [OF v(2), of "\<lambda>n. 65536 * n"] b by (simp add: u mag_def dg algebra_simps)
  have k: "k = 0"
  proof (rule ccontr)
    assume "k \<noteq> 0"
    then have "1 \<le> unat k" by (simp add: Suc_leI unat_gt_0)
    then have "65536 ^ used a * 1 \<le> 65536 ^ used a * unat k" by (rule mult_le_mono2)
    moreover have "bval (ACCUM w # ds) < 65536 ^ used a" using bval_less [of "ACCUM w # ds"] l by metis
    ultimately show False using m assms(2) by linarith
  qed
  note pw = mp_wf_put [OF wf l]
  define b where "b = s_mp_clamp (put_digits (ACCUM w # ds) a)"
  have "mag (put_digits (ACCUM w # ds) a) = mag a - unat d" using m k pw by (simp add: mag_def)
  then have b: "mp_ok b" "mag b = mag a - unat d" "sign b = sign a \<or> mag b = 0" "alloc b = alloc a"
    using s_mp_clamp_fine [of "put_digits (ACCUM w # ds) a"] s_mp_clamp_ok [of "put_digits (ACCUM w # ds) a"] pw by (auto simp: b_def)
  have "s_mp_sub_d a d = (MP_OKAY, b)"
    using dk k by (simp add: s_mp_sub_d_def Let_def b_def flip: x_def xs_def w_def c_def)
  then show thesis using that b by blast
qed

lemma add_digits_val:
  "length ys \<le> length xs \<Longrightarrow> unat w \<le> 1 \<Longrightarrow> add_digits xs ys w = (zs, w') \<Longrightarrow>
     length zs = length xs \<and> bval zs + 65536 ^ length xs * unat w' = bval xs + bval ys + unat w \<and> unat w' \<le> 1"
proof (induction xs ys w arbitrary: zs w' rule: add_digits.induct)
  case (1 xs w)
  have "unat w \<le> 65535" using 1(2) by simp
  from carry_digits_val [OF this] 1 show ?case by force
next
  case (3 x xs y ys w)
  define v where "v = w + (ucast x + ucast y)"
  have "unat (ucast y :: u32) \<le> 4294901760" unfolding unat_ucast_digit using unat_u16_less [of y] by linarith
  then have xy: "unat (ucast x + ucast y :: u32) = unat x + unat y" by (simp add: unat_digit_plus)
  have uv: "unat v = unat x + unat y + unat w"
    unfolding v_def using 3(3) unat_u16_less [of x] unat_u16_less [of y] xy by (subst unat_plus_u32) linarith+
  have c: "unat (CARRYOUT v) \<le> 1" unfolding unat_CARRYOUT uv using 3(3) unat_u16_less [of x] unat_u16_less [of y] by linarith
  obtain us u where "add_digits xs ys (CARRYOUT v) = (us, u)" by fastforce
  then have us: "add_digits xs ys (CARRYOUT v) = (us, w')" "zs = ACCUM v # us" using 3(4) by (simp_all add: v_def Let_def)
  have "length us = length xs \<and> bval us + 65536 ^ length xs * unat w' = bval xs + bval ys + unat (CARRYOUT v) \<and> unat w' \<le> 1"
    using 3(1) [OF v_def _ c us(1)] 3(2) by simp
  then show ?case using us(2) uv split_word [of v] by (auto simp: algebra_simps)
qed simp

lemma s_mp_add_fine:
  assumes "plenty h" "mp_ok a" "mp_ok b"
  obtains a' h' where "s_mp_add a b h = (MP_OKAY, a', h')" "fine 0 h h'" "mp_ok a'" "mag a' = mag a + mag b"
    "sign a' = sign a"
proof -
  have wa: "mp_wf a" and wb: "mp_wf b" using assms by (simp_all add: mp_ok_def)
  obtain c h1 where c: "(if used a < used b then s_mp_pad a (used b) h else (MP_OKAY, a, h)) = (MP_OKAY, c, h1)" "fine 0 h h1" "mp_wf c"
    "mag c = mag a" "sign c = sign a" "used c = max (used a) (used b)"
  proof (cases "used a < used b")
    case True
    obtain a1 h1 where "s_mp_pad a (used b) h = (MP_OKAY, a1, h1)" "fine 0 h h1" "mp_wf a1" "sign a1 = sign a" "used a1 = max (used b) (used a)"
      "mag a1 = mag a"
      by (rule s_mp_pad_fine [OF assms(1) wa, of "used b"], rule that, assumption) simp_all
    then show thesis using that [of a1 h1] True by simp
  next
    case False
    then show thesis using that [of a h] assms(1) wa by simp
  qed
  obtain ds w where dw: "add_digits (digits c) (digits b) 0 = (ds, w)" by fastforce
  have le: "length (digits b) \<le> length (digits c)" using mp_wfD(1) [OF wb] mp_wfD(1) [OF c(3)] c(6) by simp
  have v: "length ds = used c" "bval ds + 65536 ^ used c * unat w = mag a + mag b" "unat w \<le> 1"
    using add_digits_val [OF le _ dw] c(4) mp_wfD(1) [OF c(3)] by (simp_all add: mag_def)
  note pw = mp_wf_put [OF c(3) v(1)]
  have def1: "s_mp_add a b h = (if w \<noteq> 0
                 then let (res, a', h) = s_mp_pad (put_digits ds c) (used c + 1) h1
                      in if res \<noteq> MP_OKAY then (res, a', h) else let (a', h) = store_digit (used c) (ucast w) a' h in (MP_OKAY, a', h)
                 else (MP_OKAY, put_digits ds c, h1))"
    by (simp add: s_mp_add_def c(1) dw Let_def)
  have z: "mag a \<noteq> 0 \<or> sign a = ZPOS" using assms(2) by (auto simp: mp_ok_def)
  show thesis
  proof (cases "w = 0")
    case True
    define e where "e = put_digits ds c"
    have e: "mp_wf e" "mag e = mag a + mag b" "sign e = sign a" "used e = max (used a) (used b)"
      using pw v True c(5,6) by (simp_all add: e_def mag_def)
    have "clamped e"
    proof (cases "used a < used b")
      case True
      then show ?thesis using clamped_mono [OF assms(3) e(1)] e(2,4) by simp
    next
      case False
      then show ?thesis using clamped_mono [OF assms(2) e(1)] e(2,4) by simp
    qed
    then have "mp_ok e" using e z by (auto simp: mp_ok_def)
    then show thesis using that [of e h1] e c(2) def1 True z by (simp add: e_def)
  next
    case False
    have k: "0 < unat w" "unat w \<le> 65535" using False v(3) by (simp_all add: unat_gt_0)
    have p: "plenty h1" using c(2) by (rule fine_plenty)
    show thesis
    proof (rule store_carry [OF p c(3) v(1) k])
      fix a1 h2
      let ?s = "store_digit (used c) (ucast w) a1 h2"
      assume s: "s_mp_pad (put_digits ds c) (used c + 1) h1 = (MP_OKAY, a1, h2)" "fine 0 h1 (snd ?s)" "mp_wf (fst ?s)"
        "sign (fst ?s) = sign c" "clamped (fst ?s)" "mag (fst ?s) = bval ds + 65536 ^ used c * unat w"
      have mg: "mag (fst ?s) = mag a + mag b" using s(6) v(2) by simp
      have "0 < mag (fst ?s)" unfolding s(6) using k(1) by simp
      then have ok: "mp_ok (fst ?s)" using s(3,5) by (simp add: mp_ok_def)
      have e: "s_mp_add a b h = (MP_OKAY, fst ?s, snd ?s)" using def1 False s(1) by (simp add: case_prod_beta)
      have f: "fine 0 h (snd ?s)" using fine_trans [OF c(2) s(2)] by simp
      show thesis using that [OF e f ok mg] s(4) c(5) z by simp
    qed
  qed
qed

lemma sub_digits_val:
  "length ys \<le> length xs \<Longrightarrow> unat b \<le> 1 \<Longrightarrow> sub_digits xs ys b = (zs, b') \<Longrightarrow>
     length zs = length xs \<and> bval zs + bval ys + unat b = bval xs + 65536 ^ length xs * unat b' \<and> unat b' \<le> 1"
proof (induction xs ys b arbitrary: zs b' rule: sub_digits.induct)
  case (2 x xs b)
  define w where "w = (RADIX + ucast x) - b"
  define c where "c = (if CARRYOUT w \<noteq> 0 then 0 else 1 :: u32)"
  obtain us where us: "sub_digits xs [] c = (us, b')" "zs = ACCUM w # us"
    using 2(4) by (auto simp: w_def c_def Let_def split: prod.splits)
  have c1: "unat c \<le> 1" by (simp add: c_def)
  have "length us = length xs \<and> bval us + bval [] + unat c = bval xs + 65536 ^ length xs * unat b' \<and> unat b' \<le> 1"
    using 2(1) [OF w_def, folded c_def, OF _ c1 us(1)] by simp
  moreover have "unat (ACCUM w) + unat b = unat x + 65536 * unat c"
    using borrow_step [of b x] 2(3) by (simp add: c_def flip: w_def)
  ultimately show ?case using us(2) by (auto simp: algebra_simps)
next
  case (3 x xs y ys b)
  define w where "w = (RADIX + ucast x) - (b + ucast y)"
  define c where "c = (if CARRYOUT w \<noteq> 0 then 0 else 1 :: u32)"
  have w: "w = (RADIX + ucast x) - b - ucast y" by (simp add: w_def algebra_simps)
  obtain us where us: "sub_digits xs ys c = (us, b')" "zs = ACCUM w # us"
    using 3(4) by (auto simp: w c_def Let_def split: prod.splits)
  have c1: "unat c \<le> 1" by (simp add: c_def)
  have *: "length us = length xs \<and> bval us + bval ys + unat c = bval xs + 65536 ^ length xs * unat b' \<and> unat b' \<le> 1"
    using 3(1) [OF w, folded c_def, OF _ c1 us(1)] 3(2) by simp
  have bw: "unat (b + ucast y) = unat b + unat y"
    using unat_digit_plus [of b y] 3(3) by (simp add: add.commute)
  then have "unat (b + ucast y) \<le> 65536" using 3(3) unat_u16_less [of y] by linarith
  from borrow_step [OF this, of x] have "unat (ACCUM w) + (unat b + unat y) = unat x + 65536 * unat c" by (simp add: bw c_def flip: w_def)
  with * show ?case using us(2) by (auto simp: algebra_simps)
qed simp

lemma used_mono: "mp_ok a \<Longrightarrow> mp_ok b \<Longrightarrow> mag a \<le> mag b \<Longrightarrow> used a \<le> used b"
proof (rule ccontr)
  assume a: "mp_ok a" "mp_ok b" "mag a \<le> mag b" "\<not> used a \<le> used b"
  have w: "mp_wf a" "mp_wf b" using a by (simp_all add: mp_ok_def)
  then have "used a \<noteq> 1" using mp_wfD(3) [of b] a(4) by simp
  then have "65536 ^ (used a - 1) \<le> mag a" using clamped_ge [OF a(1)] by simp
  moreover have "mag b < 65536 ^ used b" by (rule mag_less [OF w(2)])
  moreover have "(65536 :: nat) ^ used b \<le> 65536 ^ (used a - 1)" using a(4) by (intro power_increasing) simp_all
  ultimately show False using a(3) by linarith
qed

lemma s_mp_sub_fine:
  assumes "mp_ok a" "mp_ok b" "mag b \<le> mag a"
  obtains a' where "s_mp_sub a b = (MP_OKAY, a')" "mp_ok a'" "mag a' = mag a - mag b" "sign a' = (if mag a' = 0 then ZPOS else sign a)"
    "alloc a' = alloc a"
proof -
  have wa: "mp_wf a" and wb: "mp_wf b" using assms by (simp_all add: mp_ok_def)
  have u: "used b \<le> used a" by (rule used_mono [OF assms(2,1,3)])
  obtain ds w where dw: "sub_digits (digits a) (digits b) 0 = (ds, w)" by fastforce
  have v: "length ds = used a" "bval ds + mag b = mag a + 65536 ^ used a * unat w"
    using sub_digits_val [OF _ _ dw] u mp_wfD(1) [OF wa] mp_wfD(1) [OF wb] by (simp_all add: mag_def)
  have "w = 0"
  proof (rule ccontr)
    assume "w \<noteq> 0"
    then have "1 \<le> unat w" by (simp add: Suc_leI unat_gt_0)
    then have "65536 ^ used a * 1 \<le> 65536 ^ used a * unat w" by (rule mult_le_mono2)
    moreover have "bval ds < 65536 ^ used a" using bval_less [of ds] v(1) by metis
    ultimately show False using v(2) assms(3) by linarith
  qed
  note pw = mp_wf_put [OF wa v(1)]
  define c where "c = s_mp_clamp (put_digits ds a)"
  have "mag (put_digits ds a) = mag a - mag b" using v(2) \<open>w = 0\<close> pw by (simp add: mag_def)
  then have c: "mp_ok c" "mag c = mag a - mag b" "sign c = (if mag c = 0 then ZPOS else sign a)" "alloc c = alloc a"
    using s_mp_clamp_fine [of "put_digits ds a"] s_mp_clamp_ok [of "put_digits ds a"] pw by (auto simp: c_def)
  have "s_mp_sub a b = (MP_OKAY, c)"
    using dw \<open>w = 0\<close> u by (simp add: s_mp_sub_def c_def digits_def max_def)
  then show thesis using that c by blast
qed

end
