(* ===== verification/Mpi_Mul.thy ===== *)
theory Mpi_Mul
  imports Mpi_Arith
begin

text \<open>
  Multiplication, squaring, division by a digit, and comparison of \<open>mpi.c\<close> compute what they mean to, with the storage they have.
\<close>

section \<open>Multiplication by a digit\<close>

lemma mul_digits_val:
  "unat k \<le> 65535 \<Longrightarrow> mul_digits xs d k = (ys, k') \<Longrightarrow>
     length ys = length xs \<and> bval ys + 65536 ^ length xs * unat k' = bval xs * unat d + unat k \<and> unat k' \<le> 65535"
proof (induction xs arbitrary: k ys)
  case (Cons x xs)
  define w where "w = ucast x * ucast d + k"
  have uw: "unat w = unat x * unat d + unat k"
    unfolding w_def using Cons.prems(1) digit_product_le [of x d] by (subst unat_plus_u32) (simp_all add: unat_digit_product)
  have c: "unat (CARRYOUT w) \<le> 65535"
    unfolding unat_CARRYOUT uw using Cons.prems(1) digit_product_le [of x d] by linarith
  obtain zs where zs: "mul_digits xs d (CARRYOUT w) = (zs, k')" "ys = ACCUM w # zs"
    using Cons.prems(2) by (auto simp: w_def Let_def split: prod.splits)
  then show ?case using Cons.IH [OF c zs(1)] uw split_word [of w] by (auto simp: algebra_simps)
qed simp

text \<open>There is room for the product if it has no more digits than \<open>a\<close>, if \<open>a\<close> has a spare one, or if its last digit alone gives a carry.\<close>

lemma s_mp_mul_d_fine:
  assumes "plenty h" "mp_ok a"
    and room: "mag a * unat d < 65536 ^ used a \<or> used a < alloc a \<or> 65536 \<le> unat (last (digits a)) * unat d"
  obtains a' h' where "s_mp_mul_d a d h = (MP_OKAY, a', h')" "fine 0 h h'" "mp_ok a'" "mag a' = mag a * unat d"
    "sign a' = (if mag a' = 0 then ZPOS else sign a)" "alloc a \<le> alloc a'"
proof -
  have wa: "mp_wf a" using assms by (simp add: mp_ok_def)
  define w where "w = ucast (last (digits a)) * (ucast d :: u32)"
  have uw: "unat w = unat (last (digits a)) * unat d" by (simp add: w_def unat_digit_product)
  have cw: "CARRYOUT w \<noteq> 0 \<longleftrightarrow> 65536 \<le> unat (last (digits a)) * unat d"
  proof -
    have "CARRYOUT w \<noteq> 0 \<longleftrightarrow> 0 < unat (CARRYOUT w)" by (simp add: unat_gt_0)
    then show ?thesis unfolding unat_CARRYOUT uw by (simp add: div_greater_zero_iff)
  qed
  obtain c h1 where c: "(if CARRYOUT w \<noteq> 0 then s_mp_pad a (used a + 1) h else (MP_OKAY, a, h)) = (MP_OKAY, c, h1)" "fine 0 h h1" "mp_wf c"
    "take (used a) (dp c) = digits a" "sign c = sign a" "alloc a \<le> alloc c" "used a \<le> alloc c"
    "65536 \<le> unat (last (digits a)) * unat d \<longrightarrow> used a < alloc c" "used a \<le> used c" "used c \<le> used a + 1"
    "drop (used a) (dp c) = replicate (alloc c - used a) 0"
  proof (cases "CARRYOUT w = 0")
    case True
    then show thesis using that [of a h] assms(1) wa cw mp_wfD [OF wa] by (simp add: digits_def mp_wf_def)
  next
    case False
    obtain a1 h1 where p: "s_mp_pad a (used a + 1) h = (MP_OKAY, a1, h1)" "fine 0 h h1" "mp_wf a1" "sign a1 = sign a"
      "used a1 = used a + 1" "alloc a \<le> alloc a1" "digits a1 = digits a @ [0]"
      by (rule s_mp_pad_fine [OF assms(1) wa, of "used a + 1"], rule that, assumption) simp_all
    have d: "dp a1 = digits a @ 0 # replicate (alloc a1 - used a1) 0" using mp_wf_dp [OF p(3)] p(7) by simp
    have "used a < alloc a1" using mp_wfD(4) [OF p(3)] p(5) by simp
    then have "drop (used a) (dp a1) = replicate (alloc a1 - used a) 0" unfolding d using mp_wfD(1) [OF wa] p(5)
      by (simp add: Suc_diff_Suc flip: replicate_Suc)
    then show thesis using that [of a1 h1] p False d mp_wfD(1) [OF wa] \<open>used a < alloc a1\<close> by simp
  qed
  obtain ds k where dk: "mul_digits (digits a) d 0 = (ds, k)" by fastforce
  have v: "length ds = used a" "bval ds + 65536 ^ used a * unat k = mag a * unat d" "unat k \<le> 65535"
    using mul_digits_val [OF _ dk] mp_wfD(1) [OF wa] by (simp_all add: mag_def)
  have len: "length (dp c) = alloc c" by (rule mp_wfD(5) [OF c(3)])
  define e where "e = (if k \<noteq> 0 then c\<lparr>dp := ds @ ucast k # drop (Suc (used a)) (dp c), used := used a + 1\<rparr> else c\<lparr>dp := ds @ drop (used a) (dp c)\<rparr>)"
  have rm: "k \<noteq> 0 \<Longrightarrow> used a < alloc c"
  proof -
    assume "k \<noteq> 0"
    then have "65536 ^ used a * 1 \<le> 65536 ^ used a * unat k" by (intro mult_le_mono2) (simp add: Suc_leI unat_gt_0)
    then have "\<not> mag a * unat d < 65536 ^ used a" using v(2) by linarith
    then show ?thesis using room c(6,8) by auto
  qed
  have uk: "unat (ucast k :: u16) = unat k" using v(3) by (simp add: unsigned_ucast_eq take_bit_eq_mod)
  have we: "mp_wf e \<and> mag e = mag a * unat d \<and> sign e = sign a \<and> alloc e = alloc c"
  proof (cases "k = 0")
    case True
    have "used c \<noteq> used a \<Longrightarrow> used c = used a + 1" using c(9,10) by simp
    moreover have d1: "dp e = ds @ replicate (alloc c - used a) 0" using True c(11) by (simp add: e_def)
    ultimately have "mp_wf e" using True v(1) len c(3,7,9) mp_wfD(4) [OF c(3)] by (auto simp: e_def mp_wf_def c(11))
    moreover have "mag e = bval ds"
    proof -
      have "digits e = ds @ replicate (used c - used a) 0"
        using d1 v(1) c(9) mp_wfD(4) [OF c(3)] True by (simp add: digits_def e_def c(11) min_def)
      then show ?thesis by (simp add: mag_def bval_append)
    qed
    ultimately show ?thesis using v(2) True c(5) by (simp add: e_def)
  next
    case False
    have "drop (Suc (used a)) (dp c) = replicate (alloc c - Suc (used a)) 0"
      using arg_cong [OF c(11), of "drop 1"] by simp
    then have "mp_wf e" using False rm v(1) by (simp add: e_def mp_wf_def)
    moreover have "digits e = ds @ [ucast k]" using False v(1) by (simp add: e_def digits_def)
    ultimately show ?thesis using v(1,2) uk False c(5) by (simp add: mag_def bval_append e_def)
  qed
  have up: "(ds @ drop (length ds) (dp c))[used a := x] = ds @ x # drop (Suc (used a)) (dp c)" if "used a < alloc c" for x
  proof -
    have "drop (used a) (dp c) = dp c ! used a # drop (Suc (used a)) (dp c)" using that len by (simp add: Cons_nth_drop_Suc)
    then show ?thesis using v(1) by (simp add: list_update_append)
  qed
  have res: "s_mp_mul_d a d h = (MP_OKAY, s_mp_clamp e, h1)"
  proof (cases "k = 0")
    case True
    then show ?thesis unfolding s_mp_mul_d_def Let_def digits_last [OF wa] w_def [symmetric] c(1)
      by (simp add: dk c(4) put_digits_def v(1) e_def)
  next
    case False
    then show ?thesis using rm up unfolding s_mp_mul_d_def Let_def digits_last [OF wa] w_def [symmetric] c(1)
      by (simp add: dk c(4) put_digits_def e_def store_digit_def)
  qed
  show thesis using that [OF res c(2)] s_mp_clamp_fine [of e] s_mp_clamp_ok [of e] we c(6) by auto
qed

text \<open>C40: Without that room the multiplication by a digit writes behind the end of the buffer: it grows the buffer only if the product of
  the last digit alone has a carry, and the carry from the digits below can give one too.\<close>
theorem s_mp_mul_d_overrun:
  assumes "mp_ok a" "65536 ^ used a \<le> mag a * unat d" "used a = alloc a" "unat (last (digits a)) * unat d < 65536"
  shows "overrun (snd (snd (s_mp_mul_d a d h)))"
proof -
  have wa: "mp_wf a" using assms by (simp add: mp_ok_def)
  have "CARRYOUT (ucast (last (digits a)) * ucast d) = 0"
    unfolding word_unat_eq_iff unat_CARRYOUT unat_digit_product using assms(4) by simp
  moreover obtain ds k where dk: "mul_digits (digits a) d 0 = (ds, k)" by fastforce
  moreover have "k \<noteq> 0"
  proof
    assume "k = 0"
    then have "bval ds = mag a * unat d" "length ds = used a" using mul_digits_val [OF _ dk] mp_wfD(1) [OF wa] by (simp_all add: mag_def)
    then show False using bval_less [of ds] assms(2) by simp
  qed
  moreover have "mul_digits (take (used a) (dp a)) d 0 = (ds, k)" using dk by (simp add: digits_def)
  ultimately show ?thesis
    unfolding s_mp_mul_d_def Let_def digits_last [OF wa]
    using assms(3) by (simp add: store_digit_def put_digits_def)
qed

theorem s_mp_mul_d_overrun_witness:
  "overrun (snd (snd (s_mp_mul_d \<lparr>sign = ZPOS, alloc = 2, used = 2, dp = [0xFFFF, 1]\<rparr> 0xFFFF \<lparr>rooms = [], live = 1, overrun = False\<rparr>)))"
  by (rule s_mp_mul_d_overrun) (simp_all add: mp_ok_def mp_wf_def clamped_def mag_def digits_def)

section \<open>Division by a digit\<close>

lemma shift_in_digit: "unat w < 65536 \<Longrightarrow> unat (push_bit 16 w OR ucast (x :: u16) :: u32) = unat w * 65536 + unat x"
proof -
  assume w: "unat w < 65536"
  have "push_bit 16 w + ucast x = (push_bit 16 w OR ucast x :: u32)"
    by (rule disjunctive_add) (auto simp: bit_simps dest: bit_imp_le_length)
  moreover have "unat (push_bit 16 w :: u32) = unat w * 65536"
  proof -
    have "unat (push_bit 16 w :: u32) = take_bit 32 (push_bit 16 (unat w))"
      by (simp only: unsigned_push_bit_eq) simp
    then show ?thesis using w by (simp add: take_bit_eq_mod push_bit_eq_mult)
  qed
  moreover have "unat w * 65536 + unat x < 4294967296" using w unat_u16_less [of x] by linarith
  ultimately show ?thesis using unat_plus_u32 [of "push_bit 16 w" "ucast x"] by simp
qed

lemma div_digits_val:
  "0 < unat d \<Longrightarrow> unat d \<le> 65535 \<Longrightarrow> div_digits xs d = (ys, w) \<Longrightarrow>
     length ys = length xs \<and> bval xs = bval ys * unat d + unat w \<and> unat w < unat d"
proof (induction xs arbitrary: ys w)
  case (Cons x xs)
  obtain qs u where qu: "div_digits xs d = (qs, u)" by fastforce
  have IH: "length qs = length xs" "bval xs = bval qs * unat d + unat u" "unat u < unat d"
    using Cons.IH [OF Cons.prems(1,2) qu] by simp_all
  define v where "v = (push_bit 16 u OR ucast x :: u32)"
  have uv: "unat v = unat u * 65536 + unat x" unfolding v_def using IH(3) Cons.prems(2) by (intro shift_in_digit) simp
  have t: "unat v div unat d < 65536"
  proof -
    have "unat v < unat d * 65536" using IH(3) unat_u16_less [of x] uv by linarith
    then show ?thesis by (simp add: less_mult_imp_div_less mult.commute)
  qed
  have ut: "unat (ucast (v div d) :: u16) = unat v div unat d" using t by (simp add: unsigned_ucast_eq take_bit_eq_mod unat_div_distrib)
  have "ys = ucast (v div d) # qs \<and> unat w = unat v mod unat d"
  proof (cases "d \<le> v")
    case True
    then show ?thesis using Cons.prems(3) qu by (auto simp: Let_def unat_mod_distrib simp flip: v_def)
  next
    case False
    then have "unat v < unat d" by (simp add: word_le_nat_alt not_le)
    then have "v div d = 0" "unat v mod unat d = unat v" by (simp_all add: word_unat_eq_iff unat_div_distrib)
    then show ?thesis using Cons.prems(3) qu False by (auto simp: Let_def simp flip: v_def)
  qed
  then show ?case using IH uv ut Cons.prems(1) by (simp add: algebra_simps)
qed simp

text \<open>The sign is lost: that of the new buffer is positive.\<close>

lemma s_mp_div_d_fine:
  assumes "plenty h" "mp_ok a" "d \<noteq> 0"
  obtains a' r h' where "s_mp_div_d a d h = (MP_OKAY, a', r, h')" "fine 0 h h'" "mp_ok a'" "mag a' = mag a div unat d" "unat r = mag a mod unat d"
    "sign a' = ZPOS"
proof -
  have wa: "mp_wf a" using assms by (simp add: mp_ok_def)
  have u0: "0 < used a" using mp_wfD(3) [OF wa] by simp
  obtain q h1 where q: "mp_init_size (used a) h = (MP_OKAY, q, h1)" "fine 1 h h1" "sign q = ZPOS" "alloc q = used a" "dp q = replicate (used a) 0"
    by (rule mp_init_size_fine [OF assms(1) u0], rule that, assumption) simp_all
  obtain qs w where qw: "div_digits (digits a) (ucast d) = (qs, w)" by fastforce
  have "0 < unat d" using assms(3) by (simp add: unat_gt_0)
  then have d: "0 < unat (ucast d :: u32)" "unat (ucast d :: u32) \<le> 65535"
    unfolding unat_ucast_digit using unat_u16_less [of d] by linarith+
  have v: "length qs = used a" "mag a = bval qs * unat d + unat w" "unat w < unat d"
    using div_digits_val [OF d qw] mp_wfD(1) [OF wa] by (simp_all add: mag_def)
  define c where "c = put_digits qs (q\<lparr>used := used a\<rparr>)"
  have c: "mp_wf c" "mag c = mag a div unat d" "sign c = ZPOS"
    using v q mp_wfD(3) [OF wa] by (simp_all add: c_def put_digits_def mp_wf_def mag_def digits_def)
  have uw: "unat (ucast w :: u16) = mag a mod unat d"
  proof -
    have "unat w < 65536" using v(3) unat_u16_less [of d] by linarith
    then show ?thesis using v(2,3) by (simp add: unsigned_ucast_eq take_bit_eq_mod)
  qed
  have f: "fine 0 h (clear a h1)" using clear_fine [OF wa q(2)] by simp
  have "s_mp_div_d a d h = (MP_OKAY, s_mp_clamp c, ucast w, clear a h1)"
    using assms(3) q(1) qw by (simp add: s_mp_div_d_def s_mp_exch_def c_def)
  then show thesis using that f uw c s_mp_clamp_ok [OF c(1)] s_mp_clamp_fine [OF c(1)] by metis
qed

section \<open>Multiplication\<close>

lemma mul_inner_val:
  "unat k \<le> 65535 \<Longrightarrow> length ts = length xs \<Longrightarrow> mul_inner xs b ts k = (zs, k') \<Longrightarrow>
     length zs = length xs \<and> bval zs + 65536 ^ length xs * unat k' = bval xs * unat b + bval ts + unat k \<and> unat k' \<le> 65535"
proof (induction xs b ts k arbitrary: zs rule: mul_inner.induct)
  case (1 x xs b t ts k)
  define w where "w = ucast b * ucast x + k + ucast t"
  have kt: "unat (k + ucast t) = unat k + unat t" using 1(2) unat_digit_plus [of k t] by (simp add: add.commute)
  have w: "w = ucast b * ucast x + (k + ucast t)" by (simp add: w_def add.assoc)
  have "unat b * unat x + (unat k + unat t) < 4294967296" using 1(2) digit_product_le [of b x] unat_u16_less [of t] by linarith
  then have uw: "unat w = unat x * unat b + unat k + unat t"
    unfolding w by (subst unat_plus_u32) (simp_all add: unat_digit_product kt mult.commute)
  have c: "unat (CARRYOUT w) \<le> 65535"
    unfolding unat_CARRYOUT uw using 1(2) digit_product_le [of x b] unat_u16_less [of t] by linarith
  obtain us where us: "mul_inner xs b ts (CARRYOUT w) = (us, k')" "zs = ACCUM w # us"
    using 1(4) by (auto simp: w_def Let_def split: prod.splits)
  have "length us = length xs \<and> bval us + 65536 ^ length xs * unat k' = bval xs * unat b + bval ts + unat (CARRYOUT w) \<and> unat k' \<le> 65535"
    using 1(1) [OF w_def c _ us(1)] 1(3) by simp
  then show ?case using uw split_word [of w] us(2) by (auto simp: algebra_simps)
qed auto

lemma bval_take1: "ts \<noteq> [] \<Longrightarrow> bval ts = bval (take 1 ts) + 65536 * bval (drop 1 ts)"
  by (cases ts) simp_all

lemma mul_outer_val:
  "length us = length xs \<Longrightarrow> length (mul_outer bs xs (us @ replicate (length bs) 0)) = length xs + length bs
     \<and> bval (mul_outer bs xs (us @ replicate (length bs) 0)) = bval us + bval bs * bval xs"
proof (induction bs arbitrary: us)
  case (Cons b bs)
  define ts where "ts = us @ replicate (length (b # bs)) (0 :: u16)"
  obtain zs k where zk: "mul_inner xs b us 0 = (zs, k)" by fastforce
  have v: "length zs = length xs" "bval zs + 65536 ^ length xs * unat k = bval xs * unat b + bval us" "unat k \<le> 65535"
    using mul_inner_val [OF _ Cons.prems zk] by simp_all
  have inner: "mul_inner xs b ts 0 = (zs, k)"
  proof -
    have "mul_inner xs b (us @ vs) j = mul_inner xs b us j" for vs j
      using Cons.prems by (induction xs b us j rule: mul_inner.induct) auto
    then show ?thesis using zk by (simp add: ts_def)
  qed
  have uk: "unat (ucast k :: u16) = unat k" using v(3) by (simp add: unsigned_ucast_eq take_bit_eq_mod)
  define vs where "vs = (if b = 0 then us @ [0] else zs @ [ucast k])"
  have vs: "length vs = Suc (length xs)" "bval vs = bval xs * unat b + bval us"
    using v Cons.prems uk by (simp_all add: vs_def bval_append)
  have st: "(if b = 0 then ts else let (zs, k) = mul_inner xs b ts 0 in zs @ ucast k # drop (Suc (length xs)) ts) = vs @ replicate (length bs) 0"
    using inner Cons.prems by (simp add: ts_def vs_def)
  have d: "drop 1 (vs @ replicate (length bs) 0) = drop 1 vs @ replicate (length bs) 0" "take 1 (vs @ replicate (length bs) (0 :: u16)) = take 1 vs"
    "length (drop 1 vs) = length xs" "length (take 1 vs) = 1"
    using vs(1) by simp_all
  have o: "mul_outer (b # bs) xs ts = take 1 vs @ mul_outer bs xs (drop 1 vs @ replicate (length bs) 0)"
    by (simp only: mul_outer.simps st [unfolded Let_def] Let_def d(1,2))
  have "bval (mul_outer (b # bs) xs ts) = bval (take 1 vs) + 65536 * (bval (drop 1 vs) + bval bs * bval xs)"
    unfolding o using Cons.IH [OF d(3)] d(4) by (simp add: bval_append)
  also have "\<dots> = bval vs + 65536 * (bval bs * bval xs)" using bval_take1 [of vs] vs(1) by (cases vs) (simp_all add: algebra_simps)
  finally have "bval (mul_outer (b # bs) xs ts) = bval us + bval (b # bs) * bval xs" using vs(2) by (simp add: algebra_simps)
  moreover have "length (mul_outer (b # bs) xs ts) = length xs + length (b # bs)" unfolding o using Cons.IH [OF d(3)] d(4) by simp
  ultimately show ?case by (simp add: ts_def)
qed simp

text \<open>A fresh buffer of the size of the result.\<close>

lemma fresh_put:
  assumes "sign q = ZPOS" "alloc q = n" "dp q = replicate n 0" "0 < n" "length ts = n"
  shows "mp_wf (put_digits ts (q\<lparr>used := n\<rparr>)) \<and> mag (put_digits ts (q\<lparr>used := n\<rparr>)) = bval ts \<and> sign (put_digits ts (q\<lparr>used := n\<rparr>)) = ZPOS
    \<and> digits (q\<lparr>used := n\<rparr>) = replicate n 0"
  using assms by (simp add: put_digits_def mp_wf_def mag_def digits_def)

lemma s_mp_mul_fine:
  assumes "plenty h" "mp_ok a" "mp_ok b"
  obtains a' h' where "s_mp_mul a b h = (MP_OKAY, a', h')" "fine 0 h h'" "mp_ok a'" "mag a' = mag a * mag b" "sign a' = ZPOS"
proof -
  have wa: "mp_wf a" and wb: "mp_wf b" using assms by (simp_all add: mp_ok_def)
  define n where "n = used a + used b"
  have n: "0 < n" using mp_wfD(3) [OF wa] by (simp add: n_def)
  obtain q h1 where q: "mp_init_size n h = (MP_OKAY, q, h1)" "fine 1 h h1" "sign q = ZPOS" "alloc q = n" "dp q = replicate n 0"
    by (rule mp_init_size_fine [OF assms(1) n], rule that, assumption) simp_all
  define ts where "ts = mul_outer (digits b) (digits a) (replicate n 0)"
  have "replicate n 0 = replicate (used a) 0 @ replicate (length (digits b)) (0 :: u16)"
    using mp_wfD(1) [OF wb] by (simp add: n_def replicate_add)
  then have ts: "length ts = n" "bval ts = mag a * mag b"
    using mul_outer_val [of "replicate (used a) 0" "digits a" "digits b"] mp_wfD(1) [OF wa] mp_wfD(1) [OF wb]
    by (simp_all add: ts_def n_def mag_def)
  define c where "c = put_digits ts (q\<lparr>used := n\<rparr>)"
  have c: "mp_wf c" "mag c = mag a * mag b" "sign c = ZPOS" "digits (q\<lparr>used := n\<rparr>) = replicate n 0"
    using fresh_put [OF q(3-5) n ts(1)] ts(2) by (simp_all add: c_def)
  have f: "fine 0 h (clear a h1)" using clear_fine [OF wa q(2)] by simp
  have "s_mp_mul a b h = (MP_OKAY, s_mp_clamp c, clear a h1)"
    using q(1) c(4) by (simp add: s_mp_mul_def s_mp_exch_def c_def ts_def flip: n_def)
  then show thesis using that f c s_mp_clamp_ok [OF c(1)] s_mp_clamp_fine [OF c(1)] by metis
qed

section \<open>Comparison\<close>

lemma cmp_digits_val:
  "length xs = length ys \<Longrightarrow> cmp_digits xs ys = (if bval xs < bval ys then MP_LT else if bval xs = bval ys then MP_EQ else MP_GT)"
proof (induction xs ys rule: list_induct2)
  case (Cons x xs y ys)
  have b: "unat x < 65536" "unat y < 65536" by simp_all
  have e: "cmp_digits (x # xs) (y # ys) = (if bval xs < bval ys then MP_LT else if bval ys < bval xs then MP_GT
      else if unat y < unat x then MP_GT else if unat x < unat y then MP_LT else MP_EQ)"
    using Cons.IH by (auto simp: MP_LT_def MP_EQ_def MP_GT_def word_less_nat_alt Let_def)
  consider "bval xs < bval ys" | "bval ys < bval xs" | "bval xs = bval ys" by linarith
  then show ?case
  proof cases
    case 1
    then have "bval (x # xs) < bval (y # ys)" unfolding bval.simps using unat_u16_less [of x] by linarith
    then show ?thesis unfolding e using 1 by simp
  next
    case 2
    then have "bval (y # ys) < bval (x # xs)" unfolding bval.simps using unat_u16_less [of y] by linarith
    then show ?thesis unfolding e using 2 by simp
  next
    case 3
    then show ?thesis unfolding e by auto
  qed
qed (simp add: MP_EQ_def)

lemma s_mp_cmp_val:
  assumes "mp_ok a" "mp_ok b"
  shows "s_mp_cmp a b = (if mag a < mag b then MP_LT else if mag a = mag b then MP_EQ else MP_GT)"
proof -
  have u: "mag a < mag b" if "used a < used b" using that used_mono [OF assms(2,1)] by (meson not_le)
  have v: "mag b < mag a" if "used b < used a" using that used_mono [OF assms] by (meson not_le)
  have w: "length (digits a) = used a" "length (digits b) = used b" using assms by (simp_all add: mp_ok_def mp_wfD)
  consider "used a < used b" | "used b < used a" | "used a = used b" by linarith
  then show ?thesis
  proof cases
    case 3
    then show ?thesis using cmp_digits_val [of "digits a" "digits b"] w by (simp add: s_mp_cmp_def mag_def)
  qed (use u v in \<open>auto simp: s_mp_cmp_def\<close>)
qed

lemma s_mp_cmp_simps:
  assumes "mp_ok a" "mp_ok b"
  shows "s_mp_cmp a b < 0 \<longleftrightarrow> mag a < mag b" "0 < s_mp_cmp a b \<longleftrightarrow> mag b < mag a" "s_mp_cmp a b = 0 \<longleftrightarrow> mag a = mag b"
    "s_mp_cmp a b = MP_EQ \<longleftrightarrow> mag a = mag b"
  by (auto simp: s_mp_cmp_val [OF assms] MP_LT_def MP_EQ_def MP_GT_def)

lemma s_mp_cmp_d_val:
  assumes "mp_ok a"
  shows "s_mp_cmp_d a d = (if mag a < unat d then MP_LT else if mag a = unat d then MP_EQ else MP_GT)"
proof -
  have w: "mp_wf a" using assms by (simp add: mp_ok_def)
  show ?thesis
  proof (cases "used a = 1")
    case True
    then have "digits a = [dp a ! 0]" using digits_hd [OF w] mp_wfD(1) [OF w] by (cases "digits a") simp_all
    then have "mag a = unat (dp a ! 0)" by (simp add: mag_def)
    then show ?thesis using True by (auto simp: s_mp_cmp_d_def word_less_nat_alt word_unat_eq_iff)
  next
    case False
    then have "65536 ^ 1 \<le> (65536 :: nat) ^ (used a - 1)" using mp_wfD(3) [OF w] by (intro power_increasing) simp_all
    then have "65536 \<le> mag a" using clamped_ge [OF assms] False by simp
    then have "unat d < mag a" using unat_u16_less [of d] by linarith
    then show ?thesis using False mp_wfD(3) [OF w] by (simp add: s_mp_cmp_d_def)
  qed
qed

lemma s_mp_cmp_d_zero: "mp_ok a \<Longrightarrow> s_mp_cmp_d a 0 = MP_EQ \<longleftrightarrow> mag a = 0"
  by (simp add: s_mp_cmp_d_val MP_LT_def MP_EQ_def MP_GT_def)

section \<open>Squaring\<close>

lemma or_shift16: "unat c < 65536 \<Longrightarrow> unat (u :: u32) \<le> 1 \<Longrightarrow> unat (c OR push_bit 16 u) = unat c + 65536 * unat u"
proof -
  assume c: "unat c < 65536" and u: "unat u \<le> 1"
  have "unat u = 0 \<or> unat u = 1" using u by linarith
  then have "u = 0 \<or> u = 1" by (auto simp: word_unat_eq_iff)
  then show ?thesis
  proof
    assume "u = 1"
    have "take_bit 16 c = c" by (rule take_bit_less_u32) (use c in simp)
    have "c + push_bit 16 1 = c OR push_bit 16 1"
    proof (rule disjunctive_add)
      fix n
      have "\<not> bit c 16" using \<open>take_bit 16 c = c\<close> by (metis bit_take_bit_iff less_irrefl)
      then show "\<not> bit c n \<or> \<not> bit (push_bit 16 (1 :: u32)) n" unfolding bit_push_bit_iff bit_1_iff by (cases "n = 16") auto
    qed
    moreover have e: "unat (push_bit 16 (1 :: u32)) = 65536" using unat_RADIX by (simp add: RADIX_def)
    moreover have "unat (c + push_bit 16 1) = unat c + 65536" using c e by (subst unat_plus_u32) linarith+
    ultimately show ?thesis using \<open>u = 1\<close> by simp
  qed simp
qed

text \<open>One step of the inner loop: the 33 bits of the doubled product, the digit and the carry.\<close>

lemma sqr_step:
  fixes x y t :: u16 and k :: u32
  assumes k: "unat k < 131072"
  defines "w \<equiv> ucast x * ucast y :: u32" and "v \<equiv> ucast t + k"
  defines "u \<equiv> (drop_bit 31 w AND 1) OR (if 0xFFFFFFFF - v < w * 2 then 1 else 0)"
  defines "k' \<equiv> CARRYOUT (w * 2 + v) OR push_bit 16 u"
  shows "unat (ACCUM (w * 2 + v)) + 65536 * unat k' = 2 * unat x * unat y + unat t + unat k \<and> unat k' < 131072"
proof -
  have uw: "unat w = unat x * unat y" by (simp add: w_def unat_digit_product)
  have wle: "unat w \<le> 65535 * 65535" unfolding uw by (rule digit_product_le)
  have uv: "unat v = unat t + unat k" unfolding v_def using k by (intro unat_digit_plus) simp
  have vlt: "unat v < 196608" using uv k unat_u16_less [of t] by linarith
  define u0 where "u0 = unat w div 2147483648"
  have u0: "u0 \<le> 1" using wle by (simp add: u0_def)
  have bu: "unat (drop_bit 31 w AND 1) = u0"
  proof -
    have d: "unat (drop_bit 31 w) = u0" by (simp add: unat_drop_bit_u32 u0_def)
    have "drop_bit 31 w AND 1 = drop_bit 31 w mod 2" by (simp add: and_one_eq)
    then show ?thesis using u0 d by (simp add: unat_mod_distrib)
  qed
  have u2: "unat (2 :: u32) = 2" by simp
  have w2: "unat (w * 2) + 4294967296 * u0 = 2 * unat w"
  proof -
    have "unat (w * 2) = unat w * 2 mod 4294967296" using unat_word_ariths(2) [of w 2] by simp
    moreover have "unat w * 2 div 4294967296 = u0" by (simp add: u0_def)
    ultimately show ?thesis using div_mult_mod_eq [of "unat w * 2" 4294967296] by linarith
  qed
  define u1 where "u1 = (unat (w * 2) + unat v) div 4294967296"
  have u1: "u1 \<le> 1" unfolding u1_def using vlt unat_u32_less [of "w * 2"] by linarith
  have cmp: "0xFFFFFFFF - v < w * 2 \<longleftrightarrow> 1 \<le> u1"
  proof -
    have m: "unat (0xFFFFFFFF :: u32) = 4294967295" using unat_minus_1_u32 by simp
    have "v \<le> 0xFFFFFFFF" unfolding word_le_nat_alt m using vlt by linarith
    then have "unat (0xFFFFFFFF - v) = 4294967295 - unat v" by (simp only: unat_sub m)
    then show ?thesis unfolding word_less_nat_alt u1_def using vlt by auto
  qed
  have s: "unat (w * 2 + v) + 4294967296 * u1 = unat (w * 2) + unat v"
    using unat_word_ariths(1) [of "w * 2" v] div_mult_mod_eq [of "unat (w * 2) + unat v" 4294967296] by (simp add: u1_def)
  have not_both: "u0 + u1 \<le> 1"
  proof (rule ccontr)
    assume "\<not> u0 + u1 \<le> 1"
    then have "u0 = 1" "u1 = 1" using u0 u1 by linarith+
    then show False using s w2 wle vlt by linarith
  qed
  have uu: "unat u = u0 + u1"
  proof (cases "u1 = 0")
    case True
    then show ?thesis using cmp bu by (simp add: u_def)
  next
    case False
    then have "u0 = 0" "u1 = 1" using not_both u1 by linarith+
    then have "drop_bit 31 w AND 1 = 0" using bu by (simp add: unat_eq_0)
    then show ?thesis using cmp \<open>u0 = 0\<close> \<open>u1 = 1\<close> by (simp add: u_def)
  qed
  have c: "unat (CARRYOUT (w * 2 + v)) < 65536" unfolding unat_CARRYOUT by (simp add: less_mult_imp_div_less)
  have k': "unat k' = unat (CARRYOUT (w * 2 + v)) + 65536 * (u0 + u1)"
    unfolding k'_def uu [symmetric] using c not_both uu by (intro or_shift16) simp_all
  have "unat (ACCUM (w * 2 + v)) + 65536 * unat k' = unat (w * 2 + v) + 4294967296 * (u0 + u1)"
    unfolding k' using split_word [of "w * 2 + v"] by simp
  also have "\<dots> = 2 * unat w + unat v" using s w2 by simp
  finally have "unat (ACCUM (w * 2 + v)) + 65536 * unat k' = 2 * unat x * unat y + unat t + unat k" using uw uv by simp
  moreover have "unat k' < 131072"
  proof -
    define i where "i = unat (CARRYOUT (w * 2 + v))"
    have "unat k' = i + 65536 * (u0 + u1)" "i < 65536" using k' c by (simp_all only: i_def)
    moreover have "65536 * (u0 + u1) \<le> 65536" using not_both by simp
    ultimately show ?thesis by simp
  qed
  ultimately show ?thesis by simp
qed

lemma sqr_inner_val:
  "unat k < 131072 \<Longrightarrow> length ys \<le> length ts \<Longrightarrow> sqr_inner x ys ts k = (zs, k') \<Longrightarrow>
     length zs = length ys \<and> bval zs + 65536 ^ length ys * unat k' = 2 * unat x * bval ys + bval (take (length ys) ts) + unat k
     \<and> unat k' < 131072"
proof (induction ys arbitrary: ts k zs)
  case (Cons y ys)
  obtain t us where ts: "ts = t # us" using Cons.prems(2) by (cases ts) simp_all
  define w where "w = (ucast x * ucast y :: u32)"
  define v where "v = ucast t + k"
  define j where "j = CARRYOUT (w * 2 + v) OR push_bit 16 ((drop_bit 31 w AND 1) OR (if 0xFFFFFFFF - v < w * 2 then 1 else 0))"
  have st: "unat (ACCUM (w * 2 + v)) + 65536 * unat j = 2 * unat x * unat y + unat t + unat k" "unat j < 131072"
    using sqr_step [OF Cons.prems(1), of x y t] by (simp_all add: w_def v_def j_def)
  obtain vs i where vi: "sqr_inner x ys us j = (vs, i)" by fastforce
  have "(ACCUM (w * 2 + v) # vs, i) = (zs, k')"
    using Cons.prems(3) unfolding ts sqr_inner.simps Let_def w_def [symmetric] v_def [symmetric] j_def [symmetric] vi by simp
  then have z: "sqr_inner x ys us j = (vs, k')" "zs = ACCUM (w * 2 + v) # vs" using vi by simp_all
  have "length ys \<le> length us" using Cons.prems(2) ts by simp
  from Cons.IH [OF st(2) this z(1)] show ?case using z(2) st(1) by (auto simp: ts algebra_simps)
qed simp

lemma sqr_cascade_zeros:
  "unat k \<le> 1 \<Longrightarrow> k = 0 \<or> 0 < n \<Longrightarrow> \<exists>cs. sqr_cascade (replicate n 0) k = (cs, 0) \<and> length cs = n \<and> bval cs = unat k"
proof -
  assume k: "unat k \<le> 1" "k = 0 \<or> 0 < n"
  show ?thesis
  proof (cases n)
    case (Suc m)
    have c: "CARRYOUT 1 = 0" "ACCUM 1 = 1" by (simp_all add: CARRYOUT_def ACCUM_def)
    have z: "sqr_cascade (replicate m 0) 0 = (replicate m 0, 0)" by (cases m) simp_all
    have "k = 0 \<or> k = 1" using k(1) by (auto simp: word_unat_eq_iff le_Suc_eq)
    then show ?thesis using c z by (auto simp: Suc)
  qed (use k in auto)
qed

lemma sqr_bound:
  fixes x X P :: nat
  assumes "x \<le> 65535" "X + 1 \<le> P"
  shows "x * x + 131072 * (x * X) + 131072 * P \<le> 8589934592 * P"
proof -
  have "x * X \<le> 65535 * X" "x * x \<le> 65535 * 65535" using assms(1) mult_le_mono [OF assms(1) assms(1)] by simp_all
  then show ?thesis using assms(2) by linarith
qed

text \<open>What is left of the sum stays below twice the power of the digits to come, so that the carry that goes up is at most 1, as the cascade has it.\<close>

lemma sqr_outer_val:
  "length ts = 2 * length xs \<Longrightarrow> bval ts < 2 * 65536 ^ length xs \<Longrightarrow> bval ts + bval xs * bval xs < 65536 ^ (2 * length xs) \<Longrightarrow>
     \<exists>us. sqr_outer xs ts = (us, False) \<and> length us = length ts \<and> bval us = bval ts + bval xs * bval xs"
proof (induction xs arbitrary: ts)
  case (Cons x xs)
  define n where "n = length xs"
  define P where "P = (65536 :: nat) ^ n"
  define X where "X = bval xs"
  define x' where "x' = unat x"
  have P: "65536 ^ Suc n = 65536 * P" "65536 ^ (2 * Suc n) = 4294967296 * (P * P)" by (simp_all add: P_def mult_2 power_add)
  have XP: "X + 1 \<le> P" using bval_less [of xs] by (simp add: X_def P_def n_def)
  have x: "x' \<le> 65535" using unat_u16_less [of x] unfolding x'_def by linarith
  have T: "length ts = 2 * n + 2" "bval ts < 131072 * P" using Cons.prems(1,2) P(1) by (simp_all add: n_def P_def)
  have TA: "bval ts + (x' + 65536 * X) * (x' + 65536 * X) < 4294967296 * (P * P)"
    using Cons.prems(3) P(2) by (simp add: x'_def X_def n_def)
  define D where "D = x' * x' + 131072 * (x' * X)"
  have sq: "(x' + 65536 * X) * (x' + 65536 * X) = D + 4294967296 * (X * X)" by (simp add: D_def algebra_simps)
  have TD: "bval ts + D < 8589934592 * P" using sqr_bound [OF x XP] T(2) by (simp add: D_def)
  have rest: "\<exists>us. sqr_outer xs (drop 2 ts') = (us, False) \<and> length (take 2 ts' @ us) = 2 * n + 2
      \<and> bval (take 2 ts' @ us) = bval ts + (x' + 65536 * X) * (x' + 65536 * X)"
    if t': "length ts' = 2 * n + 2" "bval ts' = bval ts + D" for ts'
  proof -
    have s: "bval ts' = bval (take 2 ts') + 4294967296 * bval (drop 2 ts')"
      using bval_append [of "take 2 ts'" "drop 2 ts'"] t'(1) by simp
    have a: "length (drop 2 ts') = 2 * length xs" using t'(1) by (simp add: n_def)
    have "4294967296 * bval (drop 2 ts') < 8589934592 * P" using s t'(2) TD by linarith
    then have b: "bval (drop 2 ts') < 2 * 65536 ^ length xs" by (simp add: P_def n_def)
    have "4294967296 * bval (drop 2 ts') + 4294967296 * (X * X) < 4294967296 * (P * P)" using TA sq s t'(2) by linarith
    then have c: "bval (drop 2 ts') + bval xs * bval xs < 65536 ^ (2 * length xs)"
      by (simp add: P_def n_def X_def power_mult power2_eq_square power_mult_distrib mult.commute)
    obtain us where "sqr_outer xs (drop 2 ts') = (us, False)" "length us = length (drop 2 ts')" "bval us = bval (drop 2 ts') + bval xs * bval xs"
      using Cons.IH [OF a b c] by blast
    then show ?thesis using a t' s sq by (simp add: bval_append X_def n_def algebra_simps)
  qed
  show ?case
  proof (cases "x = 0")
    case True
    then have D0: "D = 0" by (simp add: D_def x'_def)
    obtain us where "sqr_outer xs (drop 2 ts) = (us, False)" "length (take 2 ts @ us) = 2 * n + 2"
      "bval (take 2 ts @ us) = bval ts + (x' + 65536 * X) * (x' + 65536 * X)"
      using rest [OF T(1)] D0 by auto
    then show ?thesis using True T(1) by (simp add: x'_def X_def)
  next
    case False
    obtain t0 rs where ts: "ts = t0 # rs" "length rs = 2 * n + 1" using T(1) by (cases ts) simp_all
    define w where "w = (ucast t0 + ucast x * ucast x :: u32)"
    have uw: "unat w = unat t0 + x' * x'"
      unfolding w_def using digit_product_le [of x x] by (subst unat_digit_plus) (simp_all add: unat_digit_product x'_def)
    have cw: "unat (CARRYOUT w) < 131072" unfolding unat_CARRYOUT using unat_u32_less [of w] by linarith
    obtain zs k where zk: "sqr_inner x xs rs (CARRYOUT w) = (zs, k)" by fastforce
    have z: "length zs = n" "bval zs + P * unat k = 2 * x' * X + bval (take n rs) + unat (CARRYOUT w)" "unat k < 131072"
      using sqr_inner_val [OF cw _ zk] ts(2) by (simp_all add: n_def P_def x'_def X_def)
    define j where "j = ucast (rs ! n) + k"
    have uj: "unat j = unat (rs ! n) + unat k" unfolding j_def using z(3) by (intro unat_digit_plus) simp
    define Z where "Z = bval (drop (Suc n) rs)"
    have rs: "rs = take n rs @ rs ! n # drop (Suc n) rs" using ts(2) by (simp add: id_take_nth_drop)
    have "bval rs = bval (take n rs) + P * (unat (rs ! n) + 65536 * Z)"
      by (subst rs, subst bval_append) (use ts(2) in \<open>simp add: P_def Z_def\<close>)
    then have bts: "bval ts = unat t0 + 65536 * bval (take n rs) + 65536 * (P * unat (rs ! n)) + 4294967296 * (P * Z)"
      by (simp add: ts(1) algebra_simps)
    have "Z = 0"
    proof (rule ccontr)
      assume "Z \<noteq> 0"
      then have "P * 1 \<le> P * Z" by (intro mult_le_mono2) simp
      then show False using bts T(2) by linarith
    qed
    then have zeros: "drop (Suc n) rs = replicate n 0"
      using ts(2) by (auto simp: Z_def bval_0_iff intro!: replicate_eqI)
    define low where "low = unat (ACCUM w) + 65536 * bval zs"
    have lowv: "low + 65536 * (P * unat j) = bval ts + D"
    proof -
      have "65536 * bval zs + 65536 * (P * unat k) = 65536 * (2 * x' * X + bval (take n rs) + unat (CARRYOUT w))"
        using z(2) by (metis distrib_left)
      then show ?thesis using split_word [of w] uw bts \<open>Z = 0\<close> by (simp add: low_def uj D_def algebra_simps)
    qed
    have jl: "unat j < 131072"
    proof -
      have "65536 * (P * unat j) < 65536 * (P * 131072)" using lowv TD by linarith
      then show ?thesis by simp
    qed
    have cj: "unat (CARRYOUT j) \<le> 1" unfolding unat_CARRYOUT using jl by linarith
    have c0: "CARRYOUT j = 0 \<or> 0 < n"
    proof (cases "n = 0")
      case True
      then have "P = 1" by (simp add: P_def)
      have "bval ts + D < 4294967296" using TA [unfolded sq \<open>P = 1\<close>] by linarith
      then have "unat j < 65536" using lowv \<open>P = 1\<close> by simp
      then show ?thesis by (simp add: word_unat_eq_iff unat_CARRYOUT)
    qed simp
    obtain cs where cs: "sqr_cascade (replicate n 0) (CARRYOUT j) = (cs, 0)" "length cs = n" "bval cs = unat (CARRYOUT j)"
      using sqr_cascade_zeros [OF cj c0] by blast
    define ts' where "ts' = ACCUM w # zs @ ACCUM j # cs"
    have l': "length ts' = 2 * n + 2" using z(1) cs(2) by (simp add: ts'_def)
    have "bval ts' = low + 65536 * (P * (unat (ACCUM j) + 65536 * unat (CARRYOUT j)))"
      using z(1) cs(3) by (simp add: ts'_def low_def bval_append P_def algebra_simps)
    then have v': "bval ts' = bval ts + D" using lowv split_word [of j] by simp
    obtain us where us: "sqr_outer xs (drop 2 ts') = (us, False)" "length (take 2 ts' @ us) = 2 * n + 2"
      "bval (take 2 ts' @ us) = bval ts + (x' + 65536 * X) * (x' + 65536 * X)"
      using rest [OF l' v'] by blast
    have "sqr_outer (x # xs) ts = (take 2 ts' @ us, False)"
      using False zk cs(1) us(1) zeros
      by (simp add: ts(1) Let_def w_def [symmetric] n_def [symmetric] j_def [symmetric] ts'_def)
    then show ?thesis using us T(1) by (simp add: x'_def X_def)
  qed
qed simp

lemma s_mp_sqr_fine:
  assumes "plenty h" "mp_ok a"
  obtains a' h' where "s_mp_sqr a h = (MP_OKAY, a', h')" "fine 0 h h'" "mp_ok a'" "mag a' = mag a * mag a" "sign a' = ZPOS"
proof -
  have wa: "mp_wf a" using assms by (simp add: mp_ok_def)
  define n where "n = 2 * used a"
  have n: "0 < n" using mp_wfD(3) [OF wa] by (simp add: n_def)
  obtain q h1 where q: "mp_init_size n h = (MP_OKAY, q, h1)" "fine 1 h h1" "sign q = ZPOS" "alloc q = n" "dp q = replicate n 0"
    by (rule mp_init_size_fine [OF assms(1) n], rule that, assumption) simp_all
  have l: "length (digits a) = used a" by (rule mp_wfD(1) [OF wa])
  have "mag a * mag a < 65536 ^ used a * 65536 ^ used a" using mag_less [OF wa] by (intro mult_strict_mono) simp_all
  then obtain ts where ts: "sqr_outer (digits a) (replicate n 0) = (ts, False)" "length ts = n" "bval ts = mag a * mag a"
    using sqr_outer_val [of "replicate n 0" "digits a"] l by (auto simp: n_def mag_def mult_2 power_add)
  define c where "c = put_digits ts (q\<lparr>used := n\<rparr>)"
  have c: "mp_wf c" "mag c = mag a * mag a" "sign c = ZPOS" "digits (q\<lparr>used := n\<rparr>) = replicate n 0"
    using fresh_put [OF q(3-5) n ts(2)] ts(3) by (simp_all add: c_def)
  have f: "fine 0 h (clear a h1)" using clear_fine [OF wa q(2)] by simp
  have "s_mp_sqr a h = (MP_OKAY, s_mp_clamp c, clear a h1)"
    using q(1) c(4) ts(1) by (simp add: s_mp_sqr_def s_mp_exch_def c_def flip: n_def)
  then show thesis using that f c s_mp_clamp_ok [OF c(1)] s_mp_clamp_fine [OF c(1)] by metis
qed

end
