(* ===== verification/Mpi_Shift.thy ===== *)
theory Mpi_Shift
  imports Mpi_Mul
begin

text \<open>
  Shifts by bits of \<open>mpi.c\<close>: multiplication, division and remainder by powers of two, their recognition, and the normalisation for
  division.
\<close>

section \<open>Shifting digits\<close>

definition bit_mask :: "nat \<Rightarrow> u16" where "bit_mask d = push_bit d 1 - 1"

text \<open>Upwards, \<open>save\<close> being what the digit below pushed out.\<close>

fun shl_digits :: "nat \<Rightarrow> u16 list \<Rightarrow> u16 \<Rightarrow> u16 list \<times> u16" where
  "shl_digits d [] save = ([], save)"
| "shl_digits d (x # xs) save =
     (let nxt = drop_bit (16 - d) x AND bit_mask d; y = push_bit d x OR save; (ys, save) = shl_digits d xs nxt in (y # ys, save))"

text \<open>From the last digit down, the second result being what the digit pushed out.\<close>

fun shr_digits :: "nat \<Rightarrow> u16 list \<Rightarrow> u16 list \<times> u16" where
  "shr_digits d [] = ([], 0)"
| "shr_digits d (x # xs) =
     (let (ys, save) = shr_digits d xs; nxt = x AND bit_mask d in ((drop_bit d x OR push_bit (16 - d) save) # ys, nxt))"

definition s_mp_mul_2 :: "mp_int \<Rightarrow> mp_mem \<Rightarrow> mp_err \<times> mp_int \<times> mp_mem" where
  "s_mp_mul_2 a h =
     (let (ds, kin) = shl_digits 1 (digits a) 0; ix = used a; a = put_digits ds a
      in if kin \<noteq> 0
         then let (res, a, h) = (if alloc a \<le> ix then s_mp_grow a (alloc a + 1) h else (MP_OKAY, a, h))
              in if res \<noteq> MP_OKAY then (res, a, h)
                 else let (a, h) = store_digit ix kin a h in (MP_OKAY, a\<lparr>used := used a + 1\<rparr>, h)
         else (MP_OKAY, a, h))"

definition s_mp_mul_2d :: "mp_int \<Rightarrow> u16 \<Rightarrow> mp_mem \<Rightarrow> mp_err \<times> mp_int \<times> mp_mem" where
  "s_mp_mul_2d a d h =
     (let (res, a, h) = s_mp_lshd a (unat (d div 16)) h
      in if res \<noteq> MP_OKAY then (res, a, h)
         else let us = used a;
                  d = unat (d mod 16);
                  (res, a, h) = (if drop_bit (16 - d) (dp a ! (us - 1)) AND bit_mask d \<noteq> 0 then s_mp_grow a (us + 1) h else (MP_OKAY, a, h))
              in if res \<noteq> MP_OKAY then (res, a, h)
                 else let (ds, save) = shl_digits d (digits a) 0;
                          a = put_digits ds a;
                          (a, h) = (if save \<noteq> 0 then let (a, h) = store_digit us save a h in (a\<lparr>used := used a + 1\<rparr>, h) else (a, h))
                      in (MP_OKAY, s_mp_clamp a, h))"

definition s_mp_div_2d :: "mp_int \<Rightarrow> u16 \<Rightarrow> mp_int" where
  "s_mp_div_2d a d =
     (let a = s_mp_rshd a (unat (d div 16)); (ds, save) = shr_digits (unat (d mod 16)) (digits a) in s_mp_clamp (put_digits ds a))"

definition s_mp_div_2 :: "mp_int \<Rightarrow> mp_int" where
  "s_mp_div_2 a = s_mp_div_2d a 1"

definition s_mp_mod_2d :: "mp_int \<Rightarrow> u16 \<Rightarrow> mp_int" where
  "s_mp_mod_2d a d =
     (let ndig = unat (d div 16); nbit = unat (d mod 16)
      in if used a \<le> ndig then a
         else s_mp_clamp (put_digits (take ndig (digits a) @ (dp a ! ndig AND bit_mask nbit) # replicate (used a - ndig - 1) 0) a))"

definition s_mp_2expt :: "mp_int \<Rightarrow> u16 \<Rightarrow> mp_mem \<Rightarrow> mp_err \<times> mp_int \<times> mp_mem" where
  "s_mp_2expt a k h =
     (let dig = unat (k div 16); bt = unat (k mod 16); (res, a, h) = s_mp_pad (mp_zero a) (dig + 1) h
      in if res \<noteq> MP_OKAY then (res, a, h) else (MP_OKAY, a\<lparr>dp := (dp a)[dig := dp a ! dig OR push_bit bt 1]\<rparr>, h))"

text \<open>Does not return for the digit 0. The results of the two multiplications are not looked at.\<close>

partial_function (option) norm_loop :: "u16 \<Rightarrow> u16 \<Rightarrow> u16 option" where
  "norm_loop t d = (if t < 0x8000 then norm_loop (push_bit 1 t) (d + 1) else Some d)"

declare norm_loop.simps [code]

definition s_mp_norm :: "mp_int \<Rightarrow> mp_int \<Rightarrow> mp_mem \<Rightarrow> (u16 \<times> mp_int \<times> mp_int \<times> mp_mem) option" where
  "s_mp_norm a b h =
     map_option (\<lambda>d. if d \<noteq> 0
       then let (_, a, h) = s_mp_mul_2d a d h; (_, b, h) = s_mp_mul_2d b d h in (d, a, b, h)
       else (d, a, b, h)) (norm_loop (dp b ! (used b - 1)) 0)"

section \<open>What they compute\<close>

lemma unat_bit_mask: "d < 16 \<Longrightarrow> unat (x AND bit_mask d) = unat x mod 2 ^ d"
proof -
  assume "d < 16"
  have "bit_mask d = mask d" by (simp add: bit_mask_def mask_eq_exp_minus_1 push_bit_eq_mult)
  then have "x AND bit_mask d = take_bit d x" by (simp add: take_bit_eq_mask)
  then show ?thesis by (simp only: unsigned_take_bit_eq) (simp add: take_bit_eq_mod)
qed

lemma unat_drop_bit_u16: "unat (drop_bit n (x :: u16)) = unat x div 2 ^ n"
proof -
  have "unat (drop_bit n x) = drop_bit n (take_bit 16 (unat x))" by (simp only: unsigned_drop_bit_eq) simp
  also have "take_bit 16 (unat x) = unat x" by (simp add: take_bit_nat_eq_self_iff)
  finally show ?thesis by (simp add: drop_bit_eq_div)
qed

lemma unat_push_bit_u16: "unat (push_bit n (x :: u16)) = unat x * 2 ^ n mod 65536"
proof -
  have "unat (push_bit n x) = take_bit 16 (push_bit n (unat x))" by (simp only: unsigned_push_bit_eq) simp
  then show ?thesis by (simp add: take_bit_eq_mod push_bit_eq_mult)
qed

text \<open>A digit shifted by \<open>d\<close> bits, and the bits pushed out.\<close>

lemma shl_split:
  assumes "d < 16"
  shows "unat (push_bit d x) + 65536 * unat (drop_bit (16 - d) (x :: u16)) = unat x * 2 ^ d" "unat (drop_bit (16 - d) x) < 2 ^ d"
    "unat (drop_bit (16 - d) x AND bit_mask d) = unat (drop_bit (16 - d) x)"
proof -
  have e: "(2 :: nat) ^ (16 - d) * 2 ^ d = 65536" using assms by (simp flip: power_add)
  have "unat x * 2 ^ d div 65536 = unat x div 2 ^ (16 - d)" by (simp flip: e)
  then show "unat (push_bit d x) + 65536 * unat (drop_bit (16 - d) x) = unat x * 2 ^ d"
    unfolding unat_push_bit_u16 unat_drop_bit_u16 by (metis add.commute div_mult_mod_eq mult.commute)
  have "unat x < 2 ^ d * 2 ^ (16 - d)" using unat_u16_less [of x] e by (simp add: mult.commute)
  then show l: "unat (drop_bit (16 - d) x) < 2 ^ d" unfolding unat_drop_bit_u16 by (rule less_mult_imp_div_less)
  show "unat (drop_bit (16 - d) x AND bit_mask d) = unat (drop_bit (16 - d) x)"
    using l unat_bit_mask [OF assms, of "drop_bit (16 - d) x"] by simp
qed

lemma or_low: "d < 16 \<Longrightarrow> unat s < 2 ^ d \<Longrightarrow> unat (push_bit d x OR (s :: u16)) = unat (push_bit d x) + unat s"
proof -
  assume d: "d < 16" and s: "unat s < 2 ^ d"
  have "unat (take_bit d s) = unat s" using s by (simp only: unsigned_take_bit_eq) (simp add: take_bit_eq_mod)
  then have "take_bit d s = s" by (simp only: word_unat_eq_iff)
  then have b: "\<not> bit s n" if "d \<le> n" for n using that by (metis bit_take_bit_iff not_le)
  have "push_bit d x + s = push_bit d x OR s" by (rule disjunctive_add) (use b in \<open>auto simp: bit_simps\<close>)
  moreover have "unat (push_bit d x) + unat s < 65536"
  proof -
    have e: "(2 :: nat) ^ (16 - d) * 2 ^ d = 65536" using d by (simp flip: power_add)
    have "unat (push_bit d x) = 2 ^ d * (unat x mod 2 ^ (16 - d))"
      using mod_mult_mult2 [of "unat x" "2 ^ d" "2 ^ (16 - d)"] unfolding unat_push_bit_u16 e by (simp add: mult.commute)
    moreover define r where "r = unat x mod 2 ^ (16 - d)"
    moreover have "r + 1 \<le> 2 ^ (16 - d)" by (simp add: r_def Suc_leI)
    then have "2 ^ d * (r + 1) \<le> 2 ^ d * 2 ^ (16 - d)" by (rule mult_le_mono2)
    ultimately show ?thesis using s e by (simp add: mult.commute)
  qed
  ultimately show ?thesis using unat_word_ariths(1) [of "push_bit d x" s] by simp
qed

lemma shl_digits_val:
  "d < 16 \<Longrightarrow> unat save < 2 ^ d \<Longrightarrow> shl_digits d xs save = (ys, s) \<Longrightarrow>
     length ys = length xs \<and> bval ys + 65536 ^ length xs * unat s = bval xs * 2 ^ d + unat save \<and> unat s < 2 ^ d
     \<and> (xs \<noteq> [] \<longrightarrow> s = drop_bit (16 - d) (last xs) AND bit_mask d)"
proof (induction xs arbitrary: save ys)
  case (Cons x xs)
  define n where "n = drop_bit (16 - d) x AND bit_mask d"
  note sp = shl_split [OF Cons.prems(1), of x]
  obtain zs where zs: "shl_digits d xs n = (zs, s)" "ys = (push_bit d x OR save) # zs"
    using Cons.prems(3) by (auto simp: n_def Let_def split: prod.splits)
  have un: "unat n < 2 ^ d" "unat n = unat (drop_bit (16 - d) x)" using sp by (simp_all add: n_def)
  have IH: "length zs = length xs \<and> bval zs + 65536 ^ length xs * unat s = bval xs * 2 ^ d + unat n \<and> unat s < 2 ^ d
     \<and> (xs \<noteq> [] \<longrightarrow> s = drop_bit (16 - d) (last xs) AND bit_mask d)"
    by (rule Cons.IH [OF Cons.prems(1) un(1) zs(1)])
  have "65536 * bval zs + 65536 * 65536 ^ length xs * unat s = 65536 * (bval xs * 2 ^ d + unat n)"
    using IH by (metis distrib_left mult.assoc)
  then have "unat (push_bit d x OR save) + 65536 * bval zs + 65536 * 65536 ^ length xs * unat s
     = (unat x + 65536 * bval xs) * 2 ^ d + unat save"
    using or_low [OF Cons.prems(1,2), of x] sp(1) un(2) by (simp add: algebra_simps)
  moreover have "xs = [] \<Longrightarrow> s = n" using zs(1) by simp
  ultimately show ?case using IH zs(2) by (auto simp: n_def algebra_simps)
qed simp

lemma shr_digits_val:
  "d < 16 \<Longrightarrow> shr_digits d xs = (ys, s) \<Longrightarrow> length ys = length xs \<and> bval xs = bval ys * 2 ^ d + unat s \<and> unat s < 2 ^ d"
proof (induction xs arbitrary: ys s)
  case (Cons x xs)
  obtain zs r where zr: "shr_digits d xs = (zs, r)" by fastforce
  have IH: "length zs = length xs" "bval xs = bval zs * 2 ^ d + unat r" "unat r < 2 ^ d" using Cons.IH [OF Cons.prems(1) zr] by simp_all
  have ys: "ys = (drop_bit d x OR push_bit (16 - d) r) # zs" "s = x AND bit_mask d" using Cons.prems(2) zr by (simp_all add: Let_def)
  have us: "unat s = unat x mod 2 ^ d" unfolding ys(2) by (rule unat_bit_mask [OF Cons.prems(1)])
  have e: "(2 :: nat) ^ (16 - d) * 2 ^ d = 65536" using Cons.prems(1) by (simp flip: power_add)
  have q: "unat x div 2 ^ d < 2 ^ (16 - d)"
  proof (rule less_mult_imp_div_less)
    show "unat x < 2 ^ (16 - d) * 2 ^ d" unfolding e by (rule unat_u16_less)
  qed
  have uy: "unat (drop_bit d x OR push_bit (16 - d) r) = unat x div 2 ^ d + unat r * 2 ^ (16 - d)"
  proof (cases "d = 0")
    case True
    then have "r = 0" using IH(3) by (simp add: unat_eq_0)
    then show ?thesis using True by simp
  next
    case False
    have "unat r + 1 \<le> 2 ^ d" using IH(3) by simp
    then have "(unat r + 1) * 2 ^ (16 - d) \<le> 2 ^ d * 2 ^ (16 - d)" by (rule mult_le_mono1)
    then have "unat r * 2 ^ (16 - d) + 2 ^ (16 - d) \<le> 65536" using e by (simp add: algebra_simps)
    moreover have "(0 :: nat) < 2 ^ (16 - d)" by simp
    ultimately have "unat r * 2 ^ (16 - d) < 65536" by linarith
    then have "unat (push_bit (16 - d) r) = unat r * 2 ^ (16 - d)" by (simp add: unat_push_bit_u16)
    moreover have "16 - d < 16" using False by simp
    ultimately show ?thesis using or_low [of "16 - d" "drop_bit d x" r] q by (simp add: or.commute unat_drop_bit_u16)
  qed
  have "bval (x # xs) = unat x + unat r * 65536 + 65536 * bval zs * 2 ^ d" by (simp add: IH(2) algebra_simps)
  also have "unat x = unat x div 2 ^ d * 2 ^ d + unat s" unfolding us by (rule div_mult_mod_eq [symmetric])
  also have "unat r * 65536 = unat r * 2 ^ (16 - d) * 2 ^ d" by (simp add: e)
  finally have "bval (x # xs) = bval ys * 2 ^ d + unat s" by (simp add: ys(1) uy algebra_simps)
  moreover have "unat s < 2 ^ d" by (simp add: us)
  ultimately show ?case using ys(1) IH(1) by simp
qed simp

lemma shift_split: "(2 :: nat) ^ unat (d :: u16) = 65536 ^ unat (d div 16) * 2 ^ unat (d mod 16)"
proof -
  have "unat d = 16 * unat (d div 16) + unat (d mod 16)" by (simp add: unat_div_distrib unat_mod_distrib)
  then have "(2 :: nat) ^ unat d = 2 ^ (16 * unat (d div 16)) * 2 ^ unat (d mod 16)" by (simp flip: power_add)
  then show ?thesis by (simp add: power_mult)
qed

lemma store_used:
  assumes "mp_wf c" "length ds = used c" "used c < alloc c"
  shows "snd (store_digit (used c) v (put_digits ds c) h) = h
    \<and> mp_wf ((fst (store_digit (used c) v (put_digits ds c) h))\<lparr>used := used c + 1\<rparr>)
    \<and> digits ((fst (store_digit (used c) v (put_digits ds c) h))\<lparr>used := used c + 1\<rparr>) = ds @ [v]
    \<and> sign ((fst (store_digit (used c) v (put_digits ds c) h))\<lparr>used := used c + 1\<rparr>) = sign c
    \<and> alloc ((fst (store_digit (used c) v (put_digits ds c) h))\<lparr>used := used c + 1\<rparr>) = alloc c"
proof -
  have l: "length (dp c) = alloc c" by (rule mp_wfD(5) [OF assms(1)])
  have "drop (used c) (dp c) = replicate (alloc c - used c) 0" using assms(1) by (simp add: mp_wf_def)
  moreover have "alloc c - used c = Suc (alloc c - Suc (used c))" using assms(3) by simp
  ultimately have d: "drop (used c) (dp c) = 0 # replicate (alloc c - Suc (used c)) 0" by (simp only: replicate_Suc)
  have e: "(ds @ drop (length ds) (dp c))[used c := v] = ds @ v # replicate (alloc c - Suc (used c)) 0"
    using assms(2) by (simp add: d list_update_append)
  define s where "s = fst (store_digit (used c) v (put_digits ds c) h)"
  have s: "dp s = ds @ v # replicate (alloc c - Suc (used c)) 0" "alloc s = alloc c" "sign s = sign c"
    "snd (store_digit (used c) v (put_digits ds c) h) = h"
    using e assms(3) by (simp_all only: s_def store_digit_def put_digits_def) simp_all
  show ?thesis unfolding s_def [symmetric] s(4) using s(1-3) assms(2,3) by (simp add: mp_wf_def digits_def)
qed

lemma s_mp_mul_2d_fine:
  assumes "plenty h" "mp_wf a"
  obtains a' h' where "s_mp_mul_2d a d h = (MP_OKAY, a', h')" "fine 0 h h'" "mp_ok a'" "mag a' = mag a * 2 ^ unat d"
    "sign a' = (if mag a' = 0 then ZPOS else sign a)"
proof -
  define n where "n = unat (d mod 16)"
  have n: "n < 16" by (simp add: n_def unat_mod_distrib)
  obtain b h1 where b: "s_mp_lshd a (unat (d div 16)) h = (MP_OKAY, b, h1)" "fine 0 h h1" "mp_wf b" "sign b = sign a"
    "mag b = mag a * 65536 ^ unat (d div 16)"
    by (rule s_mp_lshd_fine [OF assms, of "unat (d div 16)"], rule that, assumption) simp_all
  define top where "top = drop_bit (16 - n) (last (digits b)) AND bit_mask n"
  obtain c h2 where c: "(if top \<noteq> 0 then s_mp_grow b (used b + 1) h1 else (MP_OKAY, b, h1)) = (MP_OKAY, c, h2)" "fine 0 h h2" "mp_wf c"
    "digits c = digits b" "sign c = sign b" "used c = used b" "top \<noteq> 0 \<Longrightarrow> used c < alloc c"
  proof (cases "top = 0")
    case True
    then show thesis using that [of b h1] b(2,3) by simp
  next
    case False
    obtain c h2 where "s_mp_grow b (used b + 1) h1 = (MP_OKAY, c, h2)" "fine 0 h1 h2" "mp_wf c" "digits c = digits b" "sign c = sign b"
      "used c = used b" "used b + 1 \<le> alloc c"
      by (rule s_mp_grow_fine [OF fine_plenty [OF b(2)] b(3), of "used b + 1"], rule that, assumption) simp_all
    then show thesis using that [of c h2] False fine_trans [OF b(2), of 0 h2] by simp
  qed
  have l: "length (digits c) = used c" "digits c \<noteq> []" using mp_wfD [OF c(3)] by simp_all
  obtain ds save where s: "shl_digits n (digits c) 0 = (ds, save)" by fastforce
  have "save = top" using shl_digits_val [OF n _ s] l(2) c(4) by (simp add: top_def)
  moreover have "length ds = length (digits c) \<and> bval ds + 65536 ^ length (digits c) * unat save = bval (digits c) * 2 ^ n + unat (0 :: u16)"
    using shl_digits_val [OF n _ s] by simp
  ultimately have v: "length ds = used c" "bval ds + 65536 ^ used c * unat save = mag c * 2 ^ n" "save = top"
    unfolding l(1) mag_def by simp_all
  define e where "e = (if save \<noteq> 0 then (fst (store_digit (used c) save (put_digits ds c) h2))\<lparr>used := used c + 1\<rparr> else put_digits ds c)"
  have st: "snd (store_digit (used c) save (put_digits ds c) h2) = h2" if "save \<noteq> 0"
    using store_used [OF c(3) v(1)] c(7) v(3) that by simp
  have e: "mp_wf e \<and> mag e = mag c * 2 ^ n \<and> sign e = sign c"
  proof (cases "save = 0")
    case True
    then show ?thesis using mp_wf_put [OF c(3) v(1)] v(2) by (simp add: e_def mag_def)
  next
    case False
    then have "used c < alloc c" using c(7) v(3) by simp
    from store_used [OF c(3) v(1) this, of save h2] False show ?thesis using v(1,2) by (simp add: e_def mag_def bval_append)
  qed
  have us: "used (fst (store_digit (used c) save (put_digits ds c) h2)) = used c" by (simp add: store_digit_def put_digits_def)
  have res: "s_mp_mul_2d a d h = (MP_OKAY, s_mp_clamp e, h2)"
    using st us unfolding s_mp_mul_2d_def Let_def b(1) prod.case n_def [symmetric]
    unfolding simp_thms if_False digits_last [OF b(3)]
    unfolding top_def [symmetric] c(1) prod.case s
    by (simp add: e_def case_prod_beta c(6))
  have "mag e = mag a * 2 ^ unat d" using e b(5) c(4) by (simp add: mag_def shift_split [of d] n_def)
  then show thesis using that [OF res c(2)] s_mp_clamp_ok [of e] s_mp_clamp_fine [of e] e b(4) c(5) by auto
qed

lemma s_mp_div_2d_fine:
  assumes "mp_ok a"
  shows "mp_ok (s_mp_div_2d a d) \<and> mag (s_mp_div_2d a d) = mag a div 2 ^ unat d
    \<and> sign (s_mp_div_2d a d) = (if mag (s_mp_div_2d a d) = 0 then ZPOS else sign a) \<and> alloc (s_mp_div_2d a d) = alloc a"
proof -
  define n where "n = unat (d mod 16)"
  have n: "n < 16" by (simp add: n_def unat_mod_distrib)
  define b where "b = s_mp_rshd a (unat (d div 16))"
  have b: "mp_wf b" "mag b = mag a div 65536 ^ unat (d div 16)" "mag b = 0 \<or> sign b = sign a" "alloc b = alloc a"
    using s_mp_rshd_fine [of a "unat (d div 16)"] assms by (simp_all add: mp_ok_def b_def)
  obtain ds save where s: "shr_digits n (digits b) = (ds, save)" by fastforce
  have v: "length ds = used b" "mag b = bval ds * 2 ^ n + unat save" "unat save < 2 ^ n"
    using shr_digits_val [OF n s] mp_wfD(1) [OF b(1)] by (simp_all add: mag_def)
  note w = mp_wf_put [OF b(1) v(1)]
  have "mag b div 2 ^ n = bval ds" unfolding v(2) using v(3) by simp
  then have m: "mag (put_digits ds b) = mag a div 2 ^ unat d"
    using w b(2) by (simp add: mag_def shift_split [of d] div_mult2_eq n_def)
  have e: "s_mp_div_2d a d = s_mp_clamp (put_digits ds b)" by (simp add: s_mp_div_2d_def s b_def [symmetric] n_def [symmetric])
  have "mag (put_digits ds b) = 0 \<or> sign b = sign a"
    using b(3) m by (auto simp: b(2) shift_split [of d] div_mult2_eq)
  then show ?thesis unfolding e using s_mp_clamp_fine [of "put_digits ds b"] s_mp_clamp_ok [of "put_digits ds b"] w m b(4) by auto
qed

lemma bval_take_mod: "bval (take p xs) = bval xs mod 65536 ^ p"
proof (cases "p \<le> length xs")
  case True
  have e: "bval xs = bval (take p xs) + 65536 ^ p * bval (drop p xs)" using bval_append [of "take p xs" "drop p xs"] True by (simp add: min_def)
  have "bval (take p xs) < 65536 ^ p" using bval_less [of "take p xs"] True by (simp add: min_absorb2)
  then show ?thesis by (simp add: e)
next
  case False
  have "bval xs < 65536 ^ p" using bval_less [of xs] power_increasing [of "length xs" p "65536 :: nat"] False by linarith
  then show ?thesis using False by simp
qed

lemma s_mp_mod_2d_fine:
  assumes "mp_ok a"
  shows "mp_ok (s_mp_mod_2d a d) \<and> mag (s_mp_mod_2d a d) = mag a mod 2 ^ unat d
    \<and> sign (s_mp_mod_2d a d) = (if mag (s_mp_mod_2d a d) = 0 then ZPOS else sign a) \<and> alloc (s_mp_mod_2d a d) = alloc a"
proof -
  define n where "n = unat (d mod 16)"
  define p where "p = unat (d div 16)"
  have n: "n < 16" by (simp add: n_def unat_mod_distrib)
  have wa: "mp_wf a" using assms by (simp add: mp_ok_def)
  have l: "length (digits a) = used a" by (rule mp_wfD(1) [OF wa])
  show ?thesis
  proof (cases "used a \<le> p")
    case True
    have "(65536 :: nat) ^ used a \<le> 65536 ^ p" using True by (intro power_increasing) simp_all
    also have "\<dots> \<le> 2 ^ unat d" unfolding shift_split [of d] p_def by simp
    finally have "mag a mod 2 ^ unat d = mag a" using mag_less [OF wa] by simp
    then show ?thesis using True assms by (auto simp: s_mp_mod_2d_def mp_ok_def p_def [symmetric])
  next
    case False
    define ds where "ds = take p (digits a) @ (dp a ! p AND bit_mask n) # replicate (used a - p - 1) 0"
    have ld: "length ds = used a" using False l by (simp add: ds_def)
    note w = mp_wf_put [OF wa ld]
    have nth: "dp a ! p = digits a ! p" using False by (simp add: digits_def)
    define D where "D = digits a ! p"
    define r where "r = bval (drop (Suc p) (digits a))"
    have "digits a = take p (digits a) @ D # drop (Suc p) (digits a)" using False l by (simp add: id_take_nth_drop D_def)
    then have "mag a = bval (take p (digits a)) + 65536 ^ p * (unat D + 65536 * r)"
      using bval_append [of "take p (digits a)" "D # drop (Suc p) (digits a)"] False l by (simp add: mag_def r_def)
    moreover have "(unat D + 65536 * r) mod 2 ^ n = unat D mod 2 ^ n"
    proof -
      have "(65536 :: nat) = 2 ^ n * 2 ^ (16 - n)" using n by (simp flip: power_add)
      then have "65536 * r = 2 ^ n * (2 ^ (16 - n) * r)" by (simp only: mult.assoc)
      then show ?thesis by (simp only: mod_mult_self2)
    qed
    moreover have "bval (take p (digits a)) < 65536 ^ p" using bval_less [of "take p (digits a)"] False l by simp
    ultimately have "mag a mod (65536 ^ p * 2 ^ n) = bval (take p (digits a)) + 65536 ^ p * (unat D mod 2 ^ n)"
      by (simp add: mod_mult2_eq)
    then have m: "mag (put_digits ds a) = mag a mod 2 ^ unat d"
      using w False l nth unat_bit_mask [OF n, of D] by (simp add: mag_def ds_def bval_append shift_split [of d] p_def [symmetric] n_def [symmetric] D_def)
    have e: "s_mp_mod_2d a d = s_mp_clamp (put_digits ds a)"
      using False by (simp add: s_mp_mod_2d_def Let_def ds_def p_def [symmetric] n_def [symmetric])
    show ?thesis unfolding e using s_mp_clamp_fine [of "put_digits ds a"] s_mp_clamp_ok [of "put_digits ds a"] w m by auto
  qed
qed

lemma s_mp_mul_2_fine:
  assumes "plenty h" "mp_ok a"
  obtains a' h' where "s_mp_mul_2 a h = (MP_OKAY, a', h')" "fine 0 h h'" "mp_ok a'" "mag a' = 2 * mag a" "sign a' = sign a"
proof -
  have wa: "mp_wf a" using assms by (simp add: mp_ok_def)
  obtain ds k where s: "shl_digits 1 (digits a) 0 = (ds, k)" by fastforce
  have v: "length ds = used a" "bval ds + 65536 ^ used a * unat k = mag a * 2" "unat k < 2"
    using shl_digits_val [OF _ _ s] mp_wfD(1) [OF wa] by (simp_all add: mag_def)
  note w = mp_wf_put [OF wa v(1)]
  show thesis
  proof (cases "k = 0")
    case True
    define e where "e = put_digits ds a"
    have e: "mp_wf e" "used e = used a" "mag e = mag a * 2" "sign e = sign a" using w v True by (simp_all add: e_def mag_def)
    have "clamped e" by (rule clamped_mono [OF assms(2) e(1,2)]) (simp add: e)
    then have "mp_ok e" using e assms(2) by (simp add: mp_ok_def)
    then show thesis using that [of e h] assms(1) e True s by (simp add: s_mp_mul_2_def Let_def e_def)
  next
    case False
    define b where "b = put_digits ds a"
    obtain c h1 where c: "(if alloc b \<le> used a then s_mp_grow b (alloc b + 1) h else (MP_OKAY, b, h)) = (MP_OKAY, c, h1)" "fine 0 h h1"
      "mp_wf c" "digits c = ds" "sign c = sign a" "used c = used a" "used a < alloc c"
    proof (cases "alloc b \<le> used a")
      case True
      have p: "plenty h" "mp_wf b" using assms(1) w by (simp_all add: b_def)
      obtain c h1 where "s_mp_grow b (alloc b + 1) h = (MP_OKAY, c, h1)" "fine 0 h h1" "mp_wf c" "digits c = digits b" "sign c = sign b"
        "used c = used b" "alloc b + 1 \<le> alloc c"
        by (rule s_mp_grow_fine [OF p, of "alloc b + 1"], rule that, assumption) simp_all
      moreover have "used a \<le> alloc b" using w mp_wfD(4) [OF wa] by (simp add: b_def)
      ultimately show thesis using that [of c h1] True w by (simp add: b_def)
    next
      case False
      then show thesis using that [of b h] w assms(1) by (simp add: b_def)
    qed
    define e where "e = (fst (store_digit (used a) k c h1))\<lparr>used := used a + 1\<rparr>"
    have pc: "put_digits ds c = c" using mp_wf_dp [OF c(3)] mp_wfD(1) [OF c(3)] c(4) by (simp add: put_digits_def)
    have e: "mp_wf e" "digits e = ds @ [k]" "sign e = sign a" "snd (store_digit (used a) k c h1) = h1" "used e = Suc (used a)"
      using store_used [OF c(3), of ds k h1] v(1) c(5-7) pc by (simp_all add: e_def)
    have m: "mag e = mag a * 2" using e(2) v(1,2) by (simp add: mag_def bval_append)
    have "clamped e" using e(2) False by (simp add: clamped_def)
    then have ok: "mp_ok e" using e(1,3) m assms(2) by (simp add: mp_ok_def)
    have us: "used (fst (store_digit (used a) k c h1)) = used a" using c(6) by (simp add: store_digit_def)
    have "s_mp_mul_2 a h = (MP_OKAY, e, h1)"
      unfolding s_mp_mul_2_def Let_def s prod.case unfolding b_def [symmetric] c(1) prod.case using False us e(4)
      by (simp add: e_def case_prod_beta)
    then show thesis using that [of e h1] c(2) ok m e(3) by simp
  qed
qed

lemma s_mp_2expt_fine:
  assumes "plenty h" "mp_wf a"
  obtains a' h' where "s_mp_2expt a k h = (MP_OKAY, a', h')" "fine 0 h h'" "mp_ok a'" "mag a' = 2 ^ unat k" "sign a' = ZPOS"
proof -
  define n where "n = unat (k mod 16)"
  define p where "p = unat (k div 16)"
  have n: "n < 16" by (simp add: n_def unat_mod_distrib)
  have z: "mp_wf (mp_zero a)" "digits (mp_zero a) = [0]" "used (mp_zero a) = 1" "sign (mp_zero a) = ZPOS"
    using mp_zero_ok [OF assms(2)] by (simp_all add: mp_ok_def)
  obtain b h1 where b: "s_mp_pad (mp_zero a) (p + 1) h = (MP_OKAY, b, h1)" "fine 0 h h1" "mp_wf b"
    "digits b = digits (mp_zero a) @ replicate (p + 1 - used (mp_zero a)) 0" "sign b = sign (mp_zero a)" "used b = max (p + 1) (used (mp_zero a))"
    by (rule s_mp_pad_fine [OF assms(1) z(1), of "p + 1"], rule that, assumption) simp_all
  have ub: "used b = p + 1" "sign b = ZPOS" using b(5,6) z by simp_all
  have db: "digits b = replicate p 0 @ [0]" using b(4) z by (simp add: replicate_append_same flip: replicate_Suc)
  define e where "e = b\<lparr>dp := (dp b)[p := dp b ! p OR push_bit n 1]\<rparr>"
  have dpb: "dp b = replicate p 0 @ 0 # replicate (alloc b - used b) 0" using mp_wf_dp [OF b(3)] db by simp
  then have "dp e = replicate p 0 @ push_bit n 1 # replicate (alloc b - used b) 0"
    by (simp add: e_def nth_append list_update_append)
  then have e: "mp_wf e" "digits e = replicate p 0 @ [push_bit n 1]" "sign e = ZPOS"
    using mp_wfD [OF b(3)] ub by (simp_all add: mp_wf_def digits_def e_def)
  have u: "unat (push_bit n (1 :: u16)) = 2 ^ n"
  proof -
    have "(2 :: nat) ^ n < 2 ^ 16" by (rule power_strict_increasing [OF n]) simp
    then show ?thesis unfolding unat_push_bit_u16 by simp
  qed
  have m: "mag e = 2 ^ unat k" using e(2) u by (simp add: mag_def bval_append shift_split [of k] n_def p_def)
  have "push_bit n (1 :: u16) \<noteq> 0" using u by (metis power_not_zero unat_0 zero_neq_numeral)
  then have "mp_ok e" using e by (simp add: mp_ok_def clamped_def)
  moreover have "s_mp_2expt a k h = (MP_OKAY, e, h1)" using b(1) by (simp add: s_mp_2expt_def Let_def e_def p_def n_def)
  ultimately show thesis using that [of e h1] b(2) m e(3) by simp
qed

lemma norm_loop_val:
  "t \<noteq> 0 \<Longrightarrow> unat t * 2 ^ n < 65536 \<Longrightarrow> 32768 \<le> unat t * 2 ^ n \<Longrightarrow> norm_loop t d = Some (d + of_nat n)"
proof (induction n arbitrary: t d)
  case 0
  then have "\<not> t < 0x8000" by (simp add: word_less_nat_alt)
  then show ?case by (simp add: norm_loop.simps)
next
  case (Suc n)
  have "unat t * 1 \<le> unat t * 2 ^ n" by (intro mult_le_mono2) simp
  then have "unat t * 2 \<le> unat t * 2 ^ Suc n" by simp
  then have l: "unat t < 32768" using Suc.prems(2) by linarith
  then have u: "unat (push_bit 1 t) = unat t * 2" unfolding unat_push_bit_u16 by simp
  have "norm_loop (push_bit 1 t) (d + 1) = Some (d + 1 + of_nat n)"
  proof (rule Suc.IH)
    show "push_bit 1 t \<noteq> 0" using u Suc.prems(1) by (metis mult_eq_0_iff unat_0 unat_eq_0 zero_neq_numeral)
    show "unat (push_bit 1 t) * 2 ^ n < 65536" "32768 \<le> unat (push_bit 1 t) * 2 ^ n" using Suc.prems(2,3) by (simp_all only: u power_Suc mult.assoc)
  qed
  moreover have "t < 0x8000" using l by (simp add: word_less_nat_alt)
  ultimately show ?case using norm_loop.simps [of t d] by (simp add: algebra_simps)
qed

lemma norm_exists:
  assumes "(t :: u16) \<noteq> 0"
  obtains n where "n < 16" "unat t * 2 ^ n < 65536" "32768 \<le> unat t * 2 ^ n"
proof -
  have u: "0 < unat t" using assms by (simp add: unat_gt_0)
  then obtain m where m: "2 ^ m \<le> unat t" "unat t < 2 ^ (m + 1)" using ex_power_ivl1 [of 2 "unat t"] by auto
  have "m < 16"
  proof (rule ccontr)
    assume "\<not> m < 16"
    then have "(2 :: nat) ^ 16 \<le> 2 ^ m" by (intro power_increasing) simp_all
    then show False using m(1) unat_u16_less [of t] by simp
  qed
  have e: "(2 :: nat) ^ (m + 1) * 2 ^ (15 - m) = 65536" "(2 :: nat) ^ m * 2 ^ (15 - m) = 32768"
    using \<open>m < 16\<close> by (simp_all flip: power_add)
  have "unat t * 2 ^ (15 - m) < 2 ^ (m + 1) * 2 ^ (15 - m)" using m(2) by (intro mult_strict_right_mono) simp_all
  moreover have "2 ^ m * 2 ^ (15 - m) \<le> unat t * 2 ^ (15 - m)" using m(1) by (intro mult_le_mono1)
  ultimately show thesis unfolding e by (intro that [of "15 - m"]) simp_all
qed

lemma s_mp_norm_fine:
  assumes "plenty h" "mp_ok a" "mp_ok b" "mag b \<noteq> 0"
  obtains n a' b' h' where "s_mp_norm a b h = Some (of_nat n, a', b', h')" "n < 16" "fine 0 h h'" "mp_ok a'" "mp_ok b'"
    "mag a' = mag a * 2 ^ n" "mag b' = mag b * 2 ^ n" "32768 \<le> unat (last (digits b'))"
proof -
  have wb: "mp_wf b" using assms by (simp add: mp_ok_def)
  define t where "t = last (digits b)"
  have lb: "digits b = butlast (digits b) @ [t]" using mp_wfD(2) [OF wb] by (simp add: t_def)
  have t0: "t \<noteq> 0"
  proof (cases "used b = 1")
    case True
    then have "digits b = [t]" using mp_wfD(1) [OF wb] lb by (cases "digits b") auto
    then show ?thesis using assms(4) by (auto simp: mag_def)
  qed (use assms(3) in \<open>simp add: mp_ok_def clamped_def t_def\<close>)
  obtain n where n: "n < 16" "unat t * 2 ^ n < 65536" "32768 \<le> unat t * 2 ^ n" using norm_exists [OF t0] .
  define d where "d = (of_nat n :: u16)"
  have l: "norm_loop t 0 = Some d" using norm_loop_val [OF t0 n(2,3)] by (simp add: d_def)
  have ud: "unat d = n" using n(1) by (simp add: d_def unat_of_nat)
  have top: "32768 \<le> unat (last (digits c))" if c: "mp_ok c" "mag c = mag b * 2 ^ n" for c
  proof -
    define m where "m = used b - 1"
    define P where "P = (65536 :: nat) ^ m"
    have lbl: "length (butlast (digits b)) = m" using mp_wfD(1) [OF wb] by (simp add: m_def)
    define B where "B = bval (butlast (digits b))"
    have mb: "mag b = B + P * unat t" unfolding mag_def by (subst lb) (simp only: bval_append lbl, simp add: B_def P_def)
    have BP: "B + 1 \<le> P" using bval_less [of "butlast (digits b)"] lbl by (simp add: B_def P_def)
    have wc: "mp_wf c" using c(1) by (simp add: mp_ok_def)
    have P0: "0 < P" by (simp add: P_def)
    have lo: "P * 32768 \<le> mag c"
    proof -
      have "P * 32768 \<le> P * (unat t * 2 ^ n)" using n(3) by (rule mult_le_mono2)
      also have "\<dots> \<le> (B + P * unat t) * 2 ^ n" by (simp add: algebra_simps)
      finally show ?thesis unfolding c(2) mb .
    qed
    have hi: "mag c < P * 65536"
    proof -
      have "unat t + 1 \<le> 2 ^ (16 - n)"
      proof (rule ccontr)
        assume "\<not> unat t + 1 \<le> 2 ^ (16 - n)"
        then have "2 ^ (16 - n) * 2 ^ n \<le> unat t * 2 ^ n" by (intro mult_le_mono1) simp
        moreover have "(2 :: nat) ^ (16 - n) * 2 ^ n = 65536" using n(1) by (simp flip: power_add)
        ultimately show False using n(2) by simp
      qed
      then have "P * (unat t + 1) \<le> P * 2 ^ (16 - n)" by (rule mult_le_mono2)
      then have "mag b < P * 2 ^ (16 - n)" using mb BP by simp
      then have "mag b * 2 ^ n < P * 2 ^ (16 - n) * 2 ^ n" by simp
      moreover have "(2 :: nat) ^ (16 - n) * 2 ^ n = 65536" using n(1) by (simp flip: power_add)
      ultimately show ?thesis unfolding c(2) by (simp only: mult.assoc)
    qed
    have uc: "used c = Suc m"
    proof -
      have "65536 ^ (used c - 1) \<le> mag c" using mag_ge [OF wc] c(1) lo P0 by (simp add: mp_ok_def)
      then have "(65536 :: nat) ^ (used c - 1) < 65536 ^ Suc m" using hi by (simp add: P_def)
      then have "used c - 1 < Suc m" by (rule power_less_imp_less_exp [rotated]) simp
      moreover have "(65536 :: nat) ^ m < 65536 ^ used c" using lo mag_less [OF wc] P0 unfolding P_def [symmetric] by linarith
      then have "m < used c" by (rule power_less_imp_less_exp [rotated]) simp
      ultimately show ?thesis by linarith
    qed
    define T where "T = last (digits c)"
    have lc: "digits c = butlast (digits c) @ [T]" "length (butlast (digits c)) = m" using mp_wfD [OF wc] uc by (simp_all add: T_def)
    have mc: "mag c = bval (butlast (digits c)) + P * unat T" unfolding mag_def by (subst lc(1)) (simp only: bval_append lc(2), simp add: P_def)
    have "bval (butlast (digits c)) < P" using bval_less [of "butlast (digits c)"] lc(2) by (simp add: P_def)
    then have "P * 32768 < P * (unat T + 1)" using lo mc unfolding distrib_left by linarith
    then show ?thesis using P0 by (simp add: T_def)
  qed
  show thesis
  proof (cases "d = 0")
    case True
    then have "n = 0" using ud by simp
    have "s_mp_norm a b h = Some (of_nat n, a, b, h)"
      unfolding s_mp_norm_def digits_last [OF wb] t_def [symmetric] l option.map(2) using True by (simp add: d_def)
    then show thesis using that [of n a b h] n(1) assms \<open>n = 0\<close> top [OF assms(3)] by simp
  next
    case False
    have wa: "mp_wf a" using assms by (simp add: mp_ok_def)
    obtain a' h1 where a': "s_mp_mul_2d a d h = (MP_OKAY, a', h1)" "fine 0 h h1" "mp_ok a'" "mag a' = mag a * 2 ^ n"
      by (rule s_mp_mul_2d_fine [OF assms(1) wa, of d], rule that, assumption) (simp_all add: ud)
    obtain b' h2 where b': "s_mp_mul_2d b d h1 = (MP_OKAY, b', h2)" "fine 0 h1 h2" "mp_ok b'" "mag b' = mag b * 2 ^ n"
      by (rule s_mp_mul_2d_fine [OF fine_plenty [OF a'(2)] wb, of d], rule that, assumption) (simp_all add: ud)
    have "s_mp_norm a b h = Some (of_nat n, a', b', h2)"
      unfolding s_mp_norm_def digits_last [OF wb] t_def [symmetric] l option.map(2) using False a'(1) b'(1) by (simp add: d_def)
    then show thesis using that [of n a' b' h2] n(1) fine_trans [OF a'(2) b'(2)] a' b' top [OF b'(3,4)] by simp
  qed
qed

lemma ispow2_top_val: "ispow2_top d extra = (d', e) \<Longrightarrow> extra \<le> e \<and> unat d = unat d' * 2 ^ (e - extra)"
proof (induction d extra rule: ispow2_top.induct)
  case (1 d extra)
  show ?case
  proof (cases "d \<noteq> 0 \<and> d AND 1 = 0")
    case True
    have "d AND 1 = d mod 2" by (rule and_one_eq)
    then have "d mod 2 = 0" using True by simp
    then have "unat d mod 2 = 0" using unat_mod_distrib [of d 2] by simp
    moreover have "unat (drop_bit 1 d) = unat d div 2" using unat_drop_bit_u16 [of 1 d] by simp
    ultimately have u: "unat d = unat (drop_bit 1 d) * 2" using div_mult_mod_eq [of "unat d" 2] by linarith
    have r: "ispow2_top (drop_bit 1 d) (extra + 1) = (d', e)" using 1(2) True by (subst (asm) ispow2_top.simps) simp
    have IH: "extra + 1 \<le> e" "unat (drop_bit 1 d) = unat d' * 2 ^ (e - (extra + 1))" using 1(1) [OF True r] by simp_all
    then have "e - extra = Suc (e - (extra + 1))" by simp
    then have "unat d = unat d' * 2 ^ (e - extra)" using u IH(2) by simp
    then show ?thesis using IH(1) by simp
  next
    case False
    then have "(d, extra) = (d', e)" using 1(2) by (subst (asm) ispow2_top.simps) (simp only: if_False)
    then show ?thesis by simp
  qed
qed

lemma s_mp_ispow2_pos:
  assumes "mp_wf v" "0 \<le> s_mp_ispow2 v"
  shows "mag v = 2 ^ nat (s_mp_ispow2 v)"
proof -
  obtain d e where de: "ispow2_top (dp v ! (used v - 1)) 0 = (d, e)" by fastforce
  have c: "d = 1 \<and> (\<forall>x \<in> set (take (used v - 1) (dp v)). x = 0)" and k: "s_mp_ispow2 v = int ((used v - 1) * 16 + e)"
    using assms(2) de by (simp_all add: s_mp_ispow2_def split: if_splits)
  have t: "unat (last (digits v)) = 2 ^ e" using ispow2_top_val [OF de] c unfolding digits_last [OF assms(1)] by simp
  have "take (used v - 1) (dp v) = butlast (digits v)" using mp_wfD [OF assms(1)] by (simp add: digits_def butlast_conv_take min_def)
  then have z: "bval (butlast (digits v)) = 0" using c by (simp add: bval_0_iff)
  have "digits v = butlast (digits v) @ [last (digits v)]" using mp_wfD(2) [OF assms(1)] by simp
  then have "mag v = bval (butlast (digits v)) + 65536 ^ (used v - 1) * unat (last (digits v))"
    using bval_append [of "butlast (digits v)" "[last (digits v)]"] mp_wfD(1) [OF assms(1)] by (simp add: mag_def)
  moreover have "nat (s_mp_ispow2 v) = (used v - 1) * 16 + e" unfolding k by (rule nat_int)
  moreover have "(2 :: nat) ^ ((used v - 1) * 16 + e) = 65536 ^ (used v - 1) * 2 ^ e"
    unfolding power_add mult.commute [of _ 16] by (simp add: power_mult)
  ultimately show ?thesis using z t by simp
qed

lemma s_mp_ispow2_le: "mp_wf v \<Longrightarrow> s_mp_ispow2 v < int (16 * used v)"
proof -
  assume w: "mp_wf v"
  show ?thesis
  proof (cases "0 \<le> s_mp_ispow2 v")
    case True
    have "(2 :: nat) ^ nat (s_mp_ispow2 v) < 65536 ^ used v" using s_mp_ispow2_pos [OF w True] mag_less [OF w] by simp
    also have "(65536 :: nat) ^ used v = 2 ^ (16 * used v)" by (simp add: power_mult)
    finally have "nat (s_mp_ispow2 v) < 16 * used v" by (rule power_less_imp_less_exp [rotated]) simp
    then show ?thesis using True by linarith
  next
    case False
    then show ?thesis by simp
  qed
qed

end
