(* ===== verification/Mpi_Div.thy ===== *)
theory Mpi_Div
  imports Mpi_Shift
begin

text \<open>
  Long division, \<open>s_mp_div\<close> of \<open>mpi.c\<close>. A count \<open>n\<close> of digits stands for the index \<open>ix = n - 1\<close>, which goes down to \<open>-1\<close>.
\<close>

section \<open>The algorithm\<close>

definition mp_cmp_z :: "mp_int \<Rightarrow> int" where
  "mp_cmp_z a = (if sign a = NEG then MP_LT else if used a = 1 \<and> dp a ! 0 = 0 then MP_EQ else MP_GT)"

text \<open>Brings digits of \<open>a\<close> down until the partial remainder is at least \<open>b\<close>.\<close>

fun bring_down :: "mp_int \<Rightarrow> mp_int \<Rightarrow> nat \<Rightarrow> mp_int \<Rightarrow> mp_int \<Rightarrow> mp_mem \<Rightarrow> mp_err \<times> nat \<times> mp_int \<times> mp_int \<times> mp_mem" where
  "bring_down a b 0 quot rem h = (MP_OKAY, 0, quot, rem, h)"
| "bring_down a b (Suc ix) quot rem h =
     (if s_mp_cmp rem b < 0
      then let (res, rem, h) = s_mp_lshd rem 1 h
           in if res \<noteq> MP_OKAY then (res, Suc ix, quot, rem, h)
              else let (res, quot, h) = s_mp_lshd quot 1 h
                   in if res \<noteq> MP_OKAY then (res, Suc ix, quot, rem, h)
                      else let (rem, h) = store_digit 0 (dp a ! ix) rem h in bring_down a b ix quot (s_mp_clamp rem) h
      else (MP_OKAY, Suc ix, quot, rem, h))"

definition guess_digit :: "mp_int \<Rightarrow> mp_int \<Rightarrow> u32" where
  "guess_digit rem b =
     (let top = ucast (dp b ! (used b - 1));
          q = ucast (dp rem ! (used rem - 1));
          q = (if q \<le> top \<and> 1 < used rem then push_bit 16 q OR ucast (dp rem ! (used rem - 2)) else q);
          q = q div top
      in if RADIX \<le> q then RADIX - 1 else q)"

text \<open>\<open>while(s_mp_cmp(&t, &rem) > 0)\<close>\<close>

partial_function (option) back_off :: "mp_int \<Rightarrow> mp_int \<Rightarrow> mp_int \<Rightarrow> u32 \<Rightarrow> (mp_int \<times> u32) option" where
  "back_off b rem t q = (if 0 < s_mp_cmp t rem then back_off b rem (snd (s_mp_sub t b)) (q - 1) else Some (t, q))"

declare back_off.simps [code]

text \<open>The result of the copy is not looked at.\<close>

partial_function (option) div_loop ::
  "mp_int \<Rightarrow> mp_int \<Rightarrow> nat \<Rightarrow> mp_int \<Rightarrow> mp_int \<Rightarrow> mp_int \<Rightarrow> mp_mem \<Rightarrow> (mp_err \<times> mp_int \<times> mp_int \<times> mp_int \<times> mp_mem) option" where
  "div_loop a b n quot rem t h =
     (if n = 0 then Some (MP_OKAY, quot, rem, t, h)
      else let (res, n, quot, rem, h) = bring_down a b n quot rem h
           in if res \<noteq> MP_OKAY then Some (res, quot, rem, t, h)
              else if s_mp_cmp rem b < 0 then Some (MP_OKAY, quot, rem, t, h)
              else let q = guess_digit rem b; (_, t, h) = mp_copy b t h; (res, t, h) = s_mp_mul_d t (ucast q) h
                   in if res \<noteq> MP_OKAY then Some (res, quot, rem, t, h)
                      else Option.bind (back_off b rem t q) (\<lambda>(t, q).
                        let (res, rem) = s_mp_sub rem t
                        in if res \<noteq> MP_OKAY then Some (res, quot, rem, t, h)
                           else let (quot, h) = store_digit 0 (ucast q) quot h in div_loop a b n quot rem t h))"

declare div_loop.simps [code]

text \<open>The quotient replaces \<open>a\<close>, the remainder \<open>b\<close>. The copy for a power of two is not checked either.\<close>

definition s_mp_div :: "mp_int \<Rightarrow> mp_int \<Rightarrow> mp_mem \<Rightarrow> (mp_err \<times> mp_int \<times> mp_int \<times> mp_mem) option" where
  "s_mp_div a b h =
     (if mp_cmp_z b = 0 then Some (MP_RANGE, a, b, h)
      else let ix = s_mp_ispow2 b
      in if 0 \<le> ix then let (_, b, h) = mp_copy a b h in Some (MP_OKAY, s_mp_div_2d a (of_int ix), s_mp_mod_2d b (of_int ix), h)
      else let (res, quot, h) = mp_init_size (used a) h
      in if res \<noteq> MP_OKAY then Some (res, a, b, h)
      else let (res, t, h) = mp_init_size (used a) h
      in if res \<noteq> MP_OKAY then Some (res, a, b, clear quot h)
      else let (res, rem, h) = mp_init_size (used a) h
      in if res \<noteq> MP_OKAY then Some (res, a, b, clear quot (clear t h))
      else Option.bind (s_mp_norm a b h) (\<lambda>(d, a, b, h).
        Option.bind (div_loop a b (used a) quot rem t h) (\<lambda>(res, quot, rem, t, h).
          if res \<noteq> MP_OKAY then Some (res, a, b, clear quot (clear t (clear rem h)))
          else let rem = (if d \<noteq> 0 then s_mp_div_2d rem d else rem);
                   (quot, a) = s_mp_exch (s_mp_clamp quot) a;
                   (rem, b) = s_mp_exch (s_mp_clamp rem) b
               in Some (MP_OKAY, a, b, clear quot (clear t (clear rem h))))))"

section \<open>What it computes\<close>

lemma zero_iff: "mp_wf a \<Longrightarrow> clamped a \<Longrightarrow> mag a = 0 \<longleftrightarrow> used a = 1 \<and> dp a ! 0 = 0"
proof
  assume w: "mp_wf a" "clamped a" and "mag a = 0"
  have "used a = 1 \<or> 65536 ^ (used a - 1) \<le> mag a" using bval_ge [of "digits a"] mp_wfD [OF w(1)] w(2) by (auto simp: clamped_def mag_def)
  then have "used a = 1" using \<open>mag a = 0\<close> by auto
  then show "used a = 1 \<and> dp a ! 0 = 0" using \<open>mag a = 0\<close> digits_hd [OF w(1)] by (cases "digits a") (auto simp: mag_def unat_eq_0)
next
  assume w: "mp_wf a" and u: "used a = 1 \<and> dp a ! 0 = 0"
  then have "tl (digits a) = []" using mp_wfD(1) [OF w] by (cases "digits a") auto
  then show "mag a = 0" using digits_hd [OF w] u by (simp add: mag_def)
qed

lemma mp_cmp_z_val: "mp_ok a \<Longrightarrow> mp_cmp_z a = (if mp_val a < 0 then MP_LT else if mp_val a = 0 then MP_EQ else MP_GT)"
  using zero_iff [of a] by (auto simp: mp_ok_def mp_cmp_z_def mp_val_def)

text \<open>The most significant digits.\<close>

lemma top_digit: "mp_wf a \<Longrightarrow> unat (dp a ! (used a - 1)) = mag a div 65536 ^ (used a - 1)"
proof -
  assume w: "mp_wf a"
  have "drop (used a - 1) (digits a) = [digits a ! (used a - 1)]"
  proof -
    obtain m where m: "used a = Suc m" using mp_wfD(3) [OF w] by (cases "used a") simp_all
    then have "length (digits a) = Suc m" using mp_wfD(1) [OF w] by simp
    then show ?thesis using m Cons_nth_drop_Suc [of m "digits a"] by simp
  qed
  then show ?thesis using bval_drop [of "used a - 1" "digits a"] mp_wfD(3) [OF w] by (simp add: mag_def digits_def)
qed

lemma top_digits:
  "mp_wf a \<Longrightarrow> 1 < used a \<Longrightarrow> 65536 * unat (dp a ! (used a - 1)) + unat (dp a ! (used a - 2)) = mag a div 65536 ^ (used a - 2)"
proof -
  assume w: "mp_wf a" and u: "1 < used a"
  have "drop (used a - 2) (digits a) = [digits a ! (used a - 2), digits a ! (used a - 1)]"
  proof -
    have "used a = Suc (Suc (used a - 2))" using u by simp
    then obtain m where m: "used a = Suc (Suc m)" ..
    then have "length (digits a) = Suc (Suc m)" using mp_wfD(1) [OF w] by simp
    then show ?thesis using m Cons_nth_drop_Suc [of m "digits a"] Cons_nth_drop_Suc [of "Suc m" "digits a"] by simp
  qed
  then show ?thesis using bval_drop [of "used a - 2" "digits a"] u by (simp add: mag_def digits_def)
qed

text \<open>The guess is not below the digit of the quotient.\<close>

lemma guess_digit_ge:
  assumes rem: "mp_ok rem" and b: "mp_ok b" and "mag b \<le> mag rem" "mag rem < 65536 * mag b" and top: "32768 \<le> unat (last (digits b))"
  shows "mag rem div mag b \<le> unat (guess_digit rem b) \<and> unat (guess_digit rem b) \<le> 65535"
proof -
  have wr: "mp_wf rem" and wb: "mp_wf b" using rem b by (simp_all add: mp_ok_def)
  define k where "k = used b - 1"
  have ub: "used b = Suc k" using mp_wfD(3) [OF wb] by (simp add: k_def)
  define P where "P = (65536 :: nat) ^ k"
  have P0: "0 < P" by (simp add: P_def)
  define t where "t = unat (dp b ! k)"
  have t: "t = mag b div P" using top_digit [OF wb] by (simp add: t_def k_def P_def)
  have t1: "32768 \<le> t" "t \<le> 65535" using top unat_u16_less [of "dp b ! k"] unfolding t_def k_def digits_last [OF wb] by linarith+
  have tB: "t * P \<le> mag b" unfolding t by simp
  have Q: "mag rem div mag b \<le> mag rem div P div t"
  proof -
    have "mag rem div mag b \<le> mag rem div (t * P)" using tB t1 P0 by (intro div_le_mono2) simp_all
    then show ?thesis by (simp add: div_mult2_eq mult.commute)
  qed
  have "mag rem div mag b < 65536" using assms(4) by (intro less_mult_imp_div_less) simp
  then have Q2: "mag rem div mag b \<le> 65535" by linarith
  define u where "u = used rem"
  have u1: "Suc k \<le> u" using used_mono [OF b rem assms(3)] ub by (simp add: u_def)
  have u2: "u \<le> Suc (Suc k)"
  proof (rule ccontr)
    assume "\<not> u \<le> Suc (Suc k)"
    then have n: "Suc (Suc k) \<le> u - 1" by simp
    have "65536 ^ (u - 1) \<le> mag rem" using clamped_ge [OF rem] n by (auto simp: u_def)
    moreover have "(65536 :: nat) ^ Suc (Suc k) \<le> 65536 ^ (u - 1)" using n by (intro power_increasing) simp_all
    moreover have "mag b < 65536 ^ Suc k" using mag_less [OF wb] ub by simp
    then have "65536 * mag b < 65536 * 65536 ^ Suc k" by simp
    ultimately show False using assms(4) by simp
  qed
  define X where "X = unat (dp rem ! (u - 1))"
  define q1 where "q1 = (ucast (dp rem ! (u - 1)) :: u32)"
  define q2 where "q2 = (push_bit 16 q1 OR ucast (dp rem ! (u - 2)) :: u32)"
  have uq1: "unat q1 = X" unfolding q1_def X_def by (rule unat_ucast_digit)
  have X: "X \<le> 65535" using unat_u16_less [of "dp rem ! (u - 1)"] unfolding X_def by linarith
  have uq2: "unat q2 = X * 65536 + unat (dp rem ! (u - 2))"
    unfolding q2_def using shift_in_digit [of q1 "dp rem ! (u - 2)"] X uq1 by linarith
  define q where "q = (if q1 \<le> ucast (dp b ! k) \<and> 1 < u then q2 else q1)"
  have c: "q1 \<le> ucast (dp b ! k) \<longleftrightarrow> X \<le> t" by (simp only: word_le_nat_alt uq1 unat_ucast_digit t_def)
  have g: "guess_digit rem b = (if RADIX \<le> q div ucast (dp b ! k) then RADIX - 1 else q div ucast (dp b ! k))"
    by (simp add: guess_digit_def Let_def q_def q2_def q1_def u_def k_def)
  have ud: "unat (q div ucast (dp b ! k)) = unat q div t" by (simp only: unat_div unat_ucast_digit t_def)
  have uR: "unat (RADIX - 1) = 65535"
  proof -
    have "1 \<le> RADIX" unfolding word_le_nat_alt unat_RADIX by simp
    then show ?thesis by (simp add: unat_sub unat_RADIX)
  qed
  have gq: "unat (guess_digit rem b) = min 65535 (unat q div t)"
    unfolding g using ud uR by (auto simp: word_le_nat_alt unat_RADIX min_def)
  have "mag rem div mag b \<le> unat q div t \<or> 65535 \<le> unat q div t"
  proof (cases "u = Suc k")
    case True
    have XR: "X = mag rem div P" using top_digit [OF wr] True by (simp add: X_def u_def P_def)
    show ?thesis
    proof (cases "X \<le> t \<and> 1 < u")
      case False
      then have "unat q = X" using c uq1 by (auto simp: q_def)
      then show ?thesis using Q XR by simp
    next
      case True2: True
      then have "unat q = X * 65536 + unat (dp rem ! (u - 2))" using c uq2 by (auto simp: q_def)
      moreover have "t \<le> X" unfolding XR t using assms(3) by (rule div_le_mono)
      then have "t * 65535 \<le> X * 65536" by (intro mult_le_mono) simp_all
      ultimately have "t * 65535 \<le> unat q" by linarith
      then have "65535 \<le> unat q div t" using t1 by (simp add: less_eq_div_iff_mult_less_eq mult.commute)
      then show ?thesis by simp
    qed
  next
    case False
    then have u: "u = Suc (Suc k)" using u1 u2 by simp
    have XR: "X = mag rem div (65536 * P)" using top_digit [OF wr] u by (simp add: X_def u_def P_def)
    have "X \<le> t"
    proof -
      have "mag rem div 65536 \<le> mag b" using assms(4) by (simp add: less_mult_imp_div_less order_less_imp_le mult.commute)
      then have "mag rem div 65536 div P \<le> mag b div P" by (rule div_le_mono)
      then show ?thesis by (simp add: XR t div_mult2_eq)
    qed
    then have "unat q = X * 65536 + unat (dp rem ! (u - 2))" using c uq2 u by (auto simp: q_def)
    moreover have "65536 * X + unat (dp rem ! (u - 2)) = mag rem div P"
      using top_digits [OF wr] u by (simp add: X_def u_def P_def)
    ultimately have "unat q = mag rem div P" by linarith
    then show ?thesis using Q by simp
  qed
  then show ?thesis using gq Q2 by auto
qed

lemma back_off_val:
  "mp_ok b \<Longrightarrow> mp_ok rem \<Longrightarrow> mp_ok t \<Longrightarrow> mag t = unat q * mag b \<Longrightarrow> 0 < mag b \<Longrightarrow> mag rem div mag b \<le> unat q \<Longrightarrow>
     \<exists>t' q'. back_off b rem t q = Some (t', q') \<and> mp_ok t' \<and> unat q' = mag rem div mag b \<and> mag t' = mag rem div mag b * mag b \<and> alloc t' = alloc t"
proof (induction "unat q - mag rem div mag b" arbitrary: t q)
  case 0
  then have q: "unat q = mag rem div mag b" by simp
  then have "mag t \<le> mag rem" using 0 by simp
  then have "\<not> 0 < s_mp_cmp t rem" using s_mp_cmp_simps(2) [OF 0(4,3)] by simp
  then show ?case using 0 q by (subst back_off.simps) simp
next
  case (Suc n)
  define d where "d = mag rem div mag b"
  have l: "d + 1 \<le> unat q" using Suc.hyps(2) by (simp add: d_def)
  have r: "mag rem < (d + 1) * mag b" using Suc.prems(5) by (simp add: d_def dividend_less_div_times)
  have "(d + 1) * mag b \<le> mag t" unfolding Suc.prems(4) using l by (rule mult_le_mono1)
  then have gt: "0 < s_mp_cmp t rem" using s_mp_cmp_simps(2) [OF Suc.prems(3,2)] r by simp
  have "1 * mag b \<le> unat q * mag b" using l by (intro mult_le_mono1) simp
  then have bt: "mag b \<le> mag t" by (simp add: Suc.prems(4))
  obtain t1 where t1: "s_mp_sub t b = (MP_OKAY, t1)" "mp_ok t1" "mag t1 = mag t - mag b" "alloc t1 = alloc t"
    by (rule s_mp_sub_fine [OF Suc.prems(3,1) bt], rule that, assumption) simp_all
  have "1 \<le> q" using l by (simp add: word_le_nat_alt)
  then have uq: "unat (q - 1) = unat q - 1" by (simp add: unat_sub)
  have "\<exists>t' q'. back_off b rem t1 (q - 1) = Some (t', q') \<and> mp_ok t' \<and> unat q' = mag rem div mag b \<and> mag t' = mag rem div mag b * mag b
     \<and> alloc t' = alloc t1"
  proof (rule Suc.hyps(1) [OF _ Suc.prems(1,2) t1(2) _ Suc.prems(5)])
    show "n = unat (q - 1) - mag rem div mag b" "mag rem div mag b \<le> unat (q - 1)" using Suc.hyps(2) l by (simp_all only: uq d_def)
    show "mag t1 = unat (q - 1) * mag b" by (simp add: uq t1(3) Suc.prems(4) diff_mult_distrib)
  qed
  then show ?case using gt t1 by (subst back_off.simps) simp
qed

lemma bring_down_val:
  assumes "plenty h" "mp_ok a" "mp_ok b" "n \<le> used a" "mp_ok rem" "sign rem = ZPOS" "mp_wf quot" "sign quot = ZPOS"
    "mag quot * mag b + mag rem = mag a div 65536 ^ n" "mag rem < 65536 * mag b" "mag rem < mag b \<or> hd (digits quot) = 0"
  shows "\<exists>n' quot' rem' h'. bring_down a b n quot rem h = (MP_OKAY, n', quot', rem', h') \<and> fine 0 h h' \<and> mp_ok rem' \<and> sign rem' = ZPOS \<and> mp_wf quot'
    \<and> sign quot' = ZPOS \<and> mag quot' * mag b + mag rem' = mag a div 65536 ^ n' \<and> mag rem' < 65536 * mag b \<and> n' \<le> n
    \<and> (mag rem' < mag b \<and> n' = 0 \<or> mag b \<le> mag rem' \<and> hd (digits quot') = 0) \<and> (mag rem < mag b \<longrightarrow> 0 < n \<longrightarrow> n' < n)"
  using assms
proof (induction n arbitrary: quot rem h)
  case 0
  then show ?case by auto
next
  case (Suc ix)
  have wr: "mp_wf rem" using Suc.prems(5) by (simp add: mp_ok_def)
  have wa: "mp_wf a" using Suc.prems(2) by (simp add: mp_ok_def)
  show ?case
  proof (cases "mag rem < mag b")
    case False
    then have "\<not> s_mp_cmp rem b < 0" using s_mp_cmp_simps(1) [OF Suc.prems(5,3)] by simp
    then show ?thesis using Suc.prems False by auto
  next
    case True
    then have lt: "s_mp_cmp rem b < 0" using s_mp_cmp_simps(1) [OF Suc.prems(5,3)] by simp
    obtain r1 h1 where r1: "s_mp_lshd rem 1 h = (MP_OKAY, r1, h1)" "fine 0 h h1" "mp_wf r1" "digits r1 = [0] @ digits rem" "sign r1 = sign rem"
      by (rule s_mp_lshd_fine [OF Suc.prems(1) wr, of 1], rule that, assumption) simp_all
    obtain q1 h2 where q1: "s_mp_lshd quot 1 h1 = (MP_OKAY, q1, h2)" "fine 0 h1 h2" "mp_wf q1" "digits q1 = [0] @ digits quot" "sign q1 = sign quot"
      by (rule s_mp_lshd_fine [OF fine_plenty [OF r1(2)] Suc.prems(7), of 1], rule that, assumption) simp_all
    define x where "x = dp a ! ix"
    define r2 where "r2 = fst (store_digit 0 x r1 h2)"
    have st: "store_digit 0 x r1 h2 = (r2, h2)" using mp_wfD(3,4) [OF r1(3)] by (simp add: store_digit_def r2_def)
    have "dp r1 = 0 # digits rem @ replicate (alloc r1 - used r1) 0" using mp_wf_dp [OF r1(3)] r1(4) by simp
    moreover have "used r1 = Suc (length (digits rem))" using mp_wfD(1) [OF r1(3)] r1(4) by simp
    ultimately have r2: "mp_wf r2" "digits r2 = x # digits rem" "sign r2 = ZPOS"
      using mp_wfD [OF r1(3)] r1(5) Suc.prems(6) by (simp_all add: r2_def store_digit_def mp_wf_def digits_def [of "r1\<lparr>dp := _\<rparr>"])
    define r3 where "r3 = s_mp_clamp r2"
    have r3: "mp_ok r3" "sign r3 = ZPOS" "mag r3 = unat x + 65536 * mag rem"
      using s_mp_clamp_ok [OF r2(1)] s_mp_clamp_fine [OF r2(1)] r2(2,3) by (simp_all add: r3_def mag_def)
    have mq: "mag q1 = 65536 * mag quot" "hd (digits q1) = 0" using q1(4) by (simp_all add: mag_def)
    have sq: "sign q1 = ZPOS" using q1(5) Suc.prems(8) by simp
    have digit: "mag a div 65536 ^ ix = unat x + 65536 * (mag a div 65536 ^ Suc ix)"
    proof -
      have "drop ix (digits a) = x # drop (Suc ix) (digits a)"
        using Suc.prems(4) mp_wfD(1) [OF wa] Cons_nth_drop_Suc [of ix "digits a"] by (simp add: x_def digits_def)
      then show ?thesis using bval_drop [of ix "digits a"] bval_drop [of "Suc ix" "digits a"] by (simp add: mag_def)
    qed
    have v: "mag q1 * mag b + mag r3 = mag a div 65536 ^ ix"
      unfolding digit Suc.prems(9) [symmetric] by (simp add: mq r3(3) algebra_simps)
    have lt2: "mag r3 < 65536 * mag b"
    proof -
      have "65536 * mag rem + 65536 \<le> 65536 * mag b" using True by linarith
      then show ?thesis unfolding r3(3) using unat_u16_less [of x] by linarith
    qed
    have f: "fine 0 h h2" using fine_trans [OF r1(2) q1(2)] by simp
    have e: "bring_down a b (Suc ix) quot rem h = bring_down a b ix q1 r3 h2"
      using lt r1(1) q1(1) st by (simp add: r3_def x_def)
    have "\<exists>n' quot' rem' h'. bring_down a b ix q1 r3 h2 = (MP_OKAY, n', quot', rem', h') \<and> fine 0 h2 h' \<and> mp_ok rem' \<and> sign rem' = ZPOS \<and> mp_wf quot'
      \<and> sign quot' = ZPOS \<and> mag quot' * mag b + mag rem' = mag a div 65536 ^ n' \<and> mag rem' < 65536 * mag b \<and> n' \<le> ix
      \<and> (mag rem' < mag b \<and> n' = 0 \<or> mag b \<le> mag rem' \<and> hd (digits quot') = 0) \<and> (mag r3 < mag b \<longrightarrow> 0 < ix \<longrightarrow> n' < ix)"
      using Suc.IH [OF fine_plenty [OF q1(2)] Suc.prems(2,3) _ r3(1,2) q1(3) sq v lt2] Suc.prems(4) mq(2) by simp
    then obtain n' quot' rem' h' where r: "bring_down a b ix q1 r3 h2 = (MP_OKAY, n', quot', rem', h')" "fine 0 h2 h'"
      "mp_ok rem'" "sign rem' = ZPOS" "mp_wf quot'"
      "sign quot' = ZPOS" "mag quot' * mag b + mag rem' = mag a div 65536 ^ n'" "mag rem' < 65536 * mag b" "n' \<le> ix"
      "mag rem' < mag b \<and> n' = 0 \<or> mag b \<le> mag rem' \<and> hd (digits quot') = 0" by blast
    have "fine 0 h h'" using fine_trans [OF f r(2)] by simp
    then show ?thesis unfolding e using r by (intro exI [of _ n'] exI [of _ quot'] exI [of _ rem'] exI [of _ h']) simp
  qed
qed

text \<open>The digit 0 of the quotient replaced.\<close>

lemma store_first:
  assumes "mp_wf a" "hd (digits a) = 0"
  shows "snd (store_digit 0 x a h) = h \<and> mp_wf (fst (store_digit 0 x a h)) \<and> mag (fst (store_digit 0 x a h)) = mag a + unat x
    \<and> sign (fst (store_digit 0 x a h)) = sign a"
proof -
  obtain y ys where d: "digits a = y # ys" using mp_wfD(2) [OF assms(1)] by (cases "digits a") simp_all
  have "dp a = y # ys @ replicate (alloc a - used a) 0" using mp_wf_dp [OF assms(1)] d by simp
  moreover have "used a = Suc (length ys)" using mp_wfD(1) [OF assms(1)] d by simp
  ultimately have "mp_wf (fst (store_digit 0 x a h)) \<and> digits (fst (store_digit 0 x a h)) = x # ys"
    using mp_wfD [OF assms(1)] by (simp add: store_digit_def mp_wf_def digits_def [of "a\<lparr>dp := _\<rparr>"])
  then show ?thesis using assms(2) mp_wfD(3,4) [OF assms(1)] d by (simp add: mag_def store_digit_def)
qed

lemma div_loop_val:
  assumes "plenty h" "mp_ok a" "mp_ok b" "0 < mag b" "32768 \<le> unat (last (digits b))" "n \<le> used a" "mp_ok rem" "sign rem = ZPOS"
    "mp_wf quot" "sign quot = ZPOS" "mag quot * mag b + mag rem = mag a div 65536 ^ n" "mag rem < mag b" "mp_wf t"
  shows "\<exists>quot' rem' t' h'. div_loop a b n quot rem t h = Some (MP_OKAY, quot', rem', t', h') \<and> fine 0 h h' \<and> mp_ok rem' \<and> sign rem' = ZPOS
    \<and> mp_wf quot' \<and> sign quot' = ZPOS \<and> mp_wf t' \<and> mag quot' * mag b + mag rem' = mag a \<and> mag rem' < mag b"
  using assms
proof (induction n arbitrary: quot rem t h rule: less_induct)
  case (less n)
  have wb: "mp_wf b" using less.prems(3) by (simp add: mp_ok_def)
  show ?case
  proof (cases "n = 0")
    case True
    then show ?thesis using less.prems by (subst div_loop.simps) simp
  next
    case False
    have "mag rem < 65536 * mag b" using less.prems(12) by linarith
    then obtain m q1 r1 h1 where bd: "bring_down a b n quot rem h = (MP_OKAY, m, q1, r1, h1)" "fine 0 h h1" "mp_ok r1" "sign r1 = ZPOS" "mp_wf q1"
      "sign q1 = ZPOS" "mag q1 * mag b + mag r1 = mag a div 65536 ^ m" "mag r1 < 65536 * mag b" "m \<le> n"
      "mag r1 < mag b \<and> m = 0 \<or> mag b \<le> mag r1 \<and> hd (digits q1) = 0" "m < n"
      using bring_down_val [OF less.prems(1-3,6-11)] less.prems(12) False by auto
    show ?thesis
    proof (cases "mag r1 < mag b")
      case True
      then have "s_mp_cmp r1 b < 0" using s_mp_cmp_simps(1) [OF bd(3) less.prems(3)] by simp
      then have "div_loop a b n quot rem t h = Some (MP_OKAY, q1, r1, t, h1)" using False bd(1) by (subst div_loop.simps) simp
      then show ?thesis using bd True less.prems(13) by auto
    next
      case False2: False
      then have ge: "mag b \<le> mag r1" and hd0: "hd (digits q1) = 0" using bd(10) by simp_all
      have ncmp: "\<not> s_mp_cmp r1 b < 0" using s_mp_cmp_simps(1) [OF bd(3) less.prems(3)] False2 by simp
      define q where "q = guess_digit r1 b"
      have q: "mag r1 div mag b \<le> unat q" "unat q \<le> 65535"
        using guess_digit_ge [OF bd(3) less.prems(3) ge bd(8) less.prems(5)] by (simp_all add: q_def)
      have uq: "unat (ucast q :: u16) = unat q" using q(2) by (simp add: unsigned_ucast_eq take_bit_eq_mod)
      have q1: "1 \<le> unat q" using q(1) ge less.prems(4) by (metis One_nat_def Suc_leI div_greater_zero_iff le_trans)
      obtain t1 h2 where t1: "mp_copy b t h1 = (MP_OKAY, t1, h2)" "fine 0 h1 h2" "mp_wf t1" "digits t1 = digits b" "sign t1 = sign b"
        by (rule mp_copy_fine [OF fine_plenty [OF bd(2)] wb less.prems(13)], rule that, assumption) simp_all
      have ok1: "mp_ok t1" "mag t1 = mag b" "used t1 = used b" using same_digits [OF t1(3) wb t1(4)] t1(5) less.prems(3) by simp_all
      have room: "mag t1 * unat (ucast q :: u16) < 65536 ^ used t1 \<or> used t1 < alloc t1 \<or> 65536 \<le> unat (last (digits t1)) * unat (ucast q :: u16)"
      proof (cases "unat q = 1")
        case True
        then show ?thesis using mag_less [OF t1(3)] by (simp only: uq) simp
      next
        case False
        then have "32768 * 2 \<le> unat (last (digits t1)) * unat q" using less.prems(5) t1(4) q1 by (intro mult_le_mono) simp_all
        then show ?thesis by (simp add: uq)
      qed
      obtain t2 h3 where t2: "s_mp_mul_d t1 (ucast q) h2 = (MP_OKAY, t2, h3)" "fine 0 h2 h3" "mp_ok t2" "mag t2 = mag b * unat (ucast q :: u16)"
        by (rule s_mp_mul_d_fine [OF fine_plenty [OF t1(2)] ok1(1) room], rule that, assumption) (simp_all add: ok1(2))
      have mt2: "mag t2 = unat q * mag b" using t2(4) uq by (simp add: mult.commute)
      obtain t3 q' where bo: "back_off b r1 t2 q = Some (t3, q')" "mp_ok t3" "unat q' = mag r1 div mag b" "mag t3 = mag r1 div mag b * mag b"
        using back_off_val [OF less.prems(3) bd(3) t2(3) mt2 less.prems(4) q(1)] by blast
      have le: "mag t3 \<le> mag r1" unfolding bo(4) by simp
      obtain r2 where r2: "s_mp_sub r1 t3 = (MP_OKAY, r2)" "mp_ok r2" "mag r2 = mag r1 - mag t3" "sign r2 = (if mag r2 = 0 then ZPOS else sign r1)"
        by (rule s_mp_sub_fine [OF bd(3) bo(2) le], rule that, assumption) simp_all
      have mr2: "mag r2 = mag r1 mod mag b" by (simp add: r2(3) bo(4) minus_div_mult_eq_mod)
      have "unat q' \<le> 65535" using bo(3) q by linarith
      then have uq': "unat (ucast q' :: u16) = unat q'" by (simp add: unsigned_ucast_eq take_bit_eq_mod)
      define q2 where "q2 = fst (store_digit 0 (ucast q') q1 h3)"
      have q2: "store_digit 0 (ucast q') q1 h3 = (q2, h3)" "mp_wf q2" "mag q2 = mag q1 + mag r1 div mag b" "sign q2 = ZPOS"
        using store_first [OF bd(5) hd0, of "ucast q'" h3] uq' bo(3) bd(6) by (simp_all add: q2_def prod_eq_iff)
      have f: "fine 0 h h3" using fine_trans [OF fine_trans [OF bd(2) t1(2)] t2(2)] by simp
      have wt: "mp_wf t3" using bo(2) by (simp add: mp_ok_def)
      have sr: "sign r2 = ZPOS" using r2(4) bd(4) by simp
      have v: "mag q2 * mag b + mag r2 = mag a div 65536 ^ m" unfolding bd(7) [symmetric] q2(3) mr2 by (simp add: algebra_simps)
      have ml: "m \<le> used a" using bd(9) less.prems(6) by simp
      have lt: "mag r2 < mag b" unfolding mr2 using less.prems(4) by simp
      have "\<exists>quot' rem' t' h'. div_loop a b m q2 r2 t3 h3 = Some (MP_OKAY, quot', rem', t', h') \<and> fine 0 h3 h' \<and> mp_ok rem' \<and> sign rem' = ZPOS
        \<and> mp_wf quot' \<and> sign quot' = ZPOS \<and> mp_wf t' \<and> mag quot' * mag b + mag rem' = mag a \<and> mag rem' < mag b"
        by (rule less.IH [OF bd(11) fine_plenty [OF f] less.prems(2-5) ml r2(2) sr q2(2,4) v lt wt])
      then obtain quot' rem' t' h' where r: "div_loop a b m q2 r2 t3 h3 = Some (MP_OKAY, quot', rem', t', h')" "fine 0 h3 h'" "mp_ok rem'"
        "sign rem' = ZPOS" "mp_wf quot'" "sign quot' = ZPOS" "mp_wf t'" "mag quot' * mag b + mag rem' = mag a" "mag rem' < mag b" by blast
      have "div_loop a b n quot rem t h = div_loop a b m q2 r2 t3 h3"
        using False bd(1) ncmp t1(1) t2(1) bo(1) r2(1) q2(1) by (subst div_loop.simps) (simp flip: q_def)
      then show ?thesis using r fine_trans [OF f r(2)] by auto
    qed
  qed
qed

lemma pow2_index: "0 \<le> k \<Longrightarrow> k < 65536 \<Longrightarrow> unat (of_int k :: u16) = nat k"
proof -
  assume "0 \<le> k" "k < 65536"
  then have "(of_int k :: u16) = of_nat (nat k)" by simp
  then show ?thesis using \<open>0 \<le> k\<close> \<open>k < 65536\<close> by (simp only: unat_of_nat) simp
qed

text \<open>The divisor is kept below the number of bits that a digit can count.\<close>

lemma s_mp_div_fine:
  assumes h: "plenty h" and a: "mp_ok a" and b: "mp_ok b" and nz: "mag b \<noteq> 0" and small: "used b \<le> 4096"
  obtains q r h' where "s_mp_div a b h = Some (MP_OKAY, q, r, h')" "fine 0 h h'" "mp_ok q" "mp_ok r" "mag q = mag a div mag b"
    "mag r = mag a mod mag b"
proof -
  have wa: "mp_wf a" and wb: "mp_wf b" using a b by (simp_all add: mp_ok_def)
  show thesis
  proof (cases "mp_cmp_z b = 0")
    case True
    then show thesis using mp_cmp_z_val [OF b] nz by (auto simp: mp_val_def MP_LT_def MP_GT_def MP_EQ_def split: if_splits)
  next
    case z: False
    show thesis
    proof (cases "0 \<le> s_mp_ispow2 b")
      case True
      define k where "k = (of_int (s_mp_ispow2 b) :: u16)"
      have "s_mp_ispow2 b < 65536" using s_mp_ispow2_le [OF wb] small by linarith
      then have k: "unat k = nat (s_mp_ispow2 b)" using pow2_index [OF True] by (simp add: k_def)
      have mb: "mag b = 2 ^ unat k" unfolding k by (rule s_mp_ispow2_pos [OF wb True])
      obtain c h1 where c: "mp_copy a b h = (MP_OKAY, c, h1)" "fine 0 h h1" "mp_wf c" "digits c = digits a" "sign c = sign a"
        by (rule mp_copy_fine [OF h wa wb], rule that, assumption) simp_all
      have ok: "mp_ok c" "mag c = mag a" using same_digits [OF c(3) wa c(4)] c(5) a by simp_all
      have "s_mp_div a b h = Some (MP_OKAY, s_mp_div_2d a k, s_mp_mod_2d c k, h1)"
        using z True c(1) by (simp add: s_mp_div_def Let_def k_def)
      then show thesis using that c(2) s_mp_div_2d_fine [OF a, of k] s_mp_mod_2d_fine [OF ok(1), of k] ok(2) mb by metis
    next
      case False
      have u0: "0 < used a" using mp_wfD(3) [OF wa] by simp
      obtain q0 h1 where q0: "mp_init_size (used a) h = (MP_OKAY, q0, h1)" "fine 1 h h1" "mp_wf q0" "sign q0 = ZPOS" "mag q0 = 0"
        by (rule mp_init_size_fine [OF h u0], rule that, assumption) simp_all
      obtain t0 h2 where t0: "mp_init_size (used a) h1 = (MP_OKAY, t0, h2)" "fine 1 h1 h2" "mp_wf t0"
        by (rule mp_init_size_fine [OF fine_plenty [OF q0(2)] u0], rule that, assumption) simp_all
      obtain r0 h3 where r0: "mp_init_size (used a) h2 = (MP_OKAY, r0, h3)" "fine 1 h2 h3" "mp_wf r0" "sign r0 = ZPOS" "mag r0 = 0" "used r0 = 1"
        by (rule mp_init_size_fine [OF fine_plenty [OF t0(2)] u0], rule that, assumption) simp_all
      have r0ok: "mp_ok r0" using r0 by (simp add: mp_ok_def clamped_def)
      obtain n a1 b1 h4 where nm: "s_mp_norm a b h3 = Some (of_nat n, a1, b1, h4)" "n < 16" "fine 0 h3 h4" "mp_ok a1" "mp_ok b1"
        "mag a1 = mag a * 2 ^ n" "mag b1 = mag b * 2 ^ n" "32768 \<le> unat (last (digits b1))"
        by (rule s_mp_norm_fine [OF fine_plenty [OF r0(2)] a b nz], rule that, assumption) simp_all
      have w1: "mp_wf a1" "mp_wf b1" using nm by (simp_all add: mp_ok_def)
      have b0: "0 < mag b1" using nz nm(7) by simp
      have "mag a1 div 65536 ^ used a1 = 0" using mag_less [OF w1(1)] by simp
      then have i: "mag q0 * mag b1 + mag r0 = mag a1 div 65536 ^ used a1" using q0(5) r0(5) by simp
      have r0lt: "mag r0 < mag b1" using r0(5) b0 by simp
      obtain q1 r1 t1 h5 where dl: "div_loop a1 b1 (used a1) q0 r0 t0 h4 = Some (MP_OKAY, q1, r1, t1, h5)" "fine 0 h4 h5" "mp_ok r1" "sign r1 = ZPOS"
        "mp_wf q1" "sign q1 = ZPOS" "mp_wf t1" "mag q1 * mag b1 + mag r1 = mag a1" "mag r1 < mag b1"
        using div_loop_val [OF fine_plenty [OF nm(3)] nm(4,5) b0 nm(8) order_refl r0ok r0(4) q0(3,4) i r0lt t0(3)] by blast
      have q: "mag q1 = mag a div mag b"
      proof -
        have "mag q1 = mag a1 div mag b1" using dl(8,9) by (metis add.right_neutral div_less div_mult_self3 less_not_refl2 b0)
        then show ?thesis by (simp add: nm(6,7))
      qed
      have r: "mag r1 = mag a mod mag b * 2 ^ n"
      proof -
        have "mag r1 = mag a1 mod mag b1" using dl(8,9) by (metis add.commute mod_less mod_mult_self1 mult.commute)
        then show ?thesis by (simp add: nm(6,7) mod_mult_mult2)
      qed
      define d where "d = (of_nat n :: u16)"
      have ud: "unat d = n" using nm(2) by (simp add: d_def unat_of_nat)
      define r2 where "r2 = (if d \<noteq> 0 then s_mp_div_2d r1 d else r1)"
      have r2: "mp_ok r2" "mag r2 = mag a mod mag b"
      proof -
        have "mp_ok r2 \<and> mag r2 = mag r1 div 2 ^ unat d"
          using s_mp_div_2d_fine [OF dl(3), of d] dl(3) by (auto simp: r2_def)
        then show "mp_ok r2" "mag r2 = mag a mod mag b" by (simp_all add: ud r)
      qed
      define q3 where "q3 = s_mp_clamp q1"
      define r3 where "r3 = s_mp_clamp r2"
      have wr2: "mp_wf r2" using r2 by (simp add: mp_ok_def)
      have q3: "mp_ok q3" "mag q3 = mag a div mag b" using s_mp_clamp_ok [OF dl(5)] s_mp_clamp_fine [OF dl(5)] q by (simp_all add: q3_def)
      have r3: "mp_ok r3" "mag r3 = mag a mod mag b" using s_mp_clamp_ok [OF wr2] s_mp_clamp_fine [OF wr2] r2 by (simp_all add: r3_def)
      have f5: "fine 3 h h5" using fine_trans [OF fine_trans [OF fine_trans [OF fine_trans [OF q0(2) t0(2)] r0(2)] nm(3)] dl(2)] by simp
      have f: "fine 0 h (clear a1 (clear t1 (clear b1 h5)))"
        using clear_fine [OF w1(1) clear_fine [OF dl(7) clear_fine [OF w1(2) f5]]] by simp
      have "s_mp_div a b h = Some (MP_OKAY, q3, r3, clear a1 (clear t1 (clear b1 h5)))"
        using z False q0(1) t0(1) r0(1) nm(1) dl(1)
        by (simp add: s_mp_div_def Let_def s_mp_exch_def q3_def r3_def r2_def flip: d_def)
      then show thesis using that f q3 r3 by blast
    qed
  qed
qed

end
