(* ===== verification/Mpi_Signed.thy ===== *)
theory Mpi_Signed
  imports Mpi_Div "HOL-Library.Signed_Division"
begin

text \<open>
  The signed operations of \<open>mpi.c\<close>. Where the code asks whether the output is one of the inputs, a flag tells it, and the value of the
  output is then that of the input. An output that may be null is an option.
\<close>

section \<open>The operations\<close>

text \<open>\<open>if((res = f) != MP_OKAY) return res;\<close>, with the value of the output at that point.\<close>

definition on_ok :: "mp_err \<times> 'a \<times> mp_mem \<Rightarrow> ('a \<Rightarrow> mp_mem \<Rightarrow> mp_err \<times> 'a \<times> mp_mem) \<Rightarrow> mp_err \<times> 'a \<times> mp_mem" where
  "on_ok r f = (case r of (res, x, h) \<Rightarrow> if res \<noteq> MP_OKAY then (res, x, h) else f x h)"

lemma on_ok_simps [simp]: "on_ok (MP_OKAY, x, h) f = f x h" "res \<noteq> MP_OKAY \<Longrightarrow> on_ok (res, x, h) f = (res, x, h)"
  by (simp_all add: on_ok_def)

definition mp_cmp_d :: "mp_int \<Rightarrow> u16 \<Rightarrow> int" where
  "mp_cmp_d a d = (if sign a = NEG then MP_LT else s_mp_cmp_d a d)"

definition mp_cmp :: "mp_int \<Rightarrow> mp_int \<Rightarrow> int" where
  "mp_cmp a b =
     (if sign a = sign b
      then let c = s_mp_cmp a b in if c = MP_EQ then MP_EQ else if sign a = ZPOS then c else - c
      else if sign a = ZPOS then MP_GT else MP_LT)"

definition mp_cmp_mag :: "mp_int \<Rightarrow> mp_int \<Rightarrow> int" where
  "mp_cmp_mag a b = s_mp_cmp a b"

definition mp_isodd :: "mp_int \<Rightarrow> bool" where "mp_isodd a \<longleftrightarrow> dp a ! 0 AND 1 \<noteq> 0"
definition mp_iseven :: "mp_int \<Rightarrow> bool" where "mp_iseven a \<longleftrightarrow> \<not> mp_isodd a"

text \<open>\<open>if(USED(c) == 1 && DIGIT(c, 0) == 0) SIGN(c) = MP_ZPOS;\<close>\<close>

definition fix_zero :: "mp_int \<Rightarrow> mp_int" where
  "fix_zero c = (if used c = 1 \<and> dp c ! 0 = 0 then c\<lparr>sign := ZPOS\<rparr> else c)"

definition flip_sign :: "mp_sign \<Rightarrow> mp_sign" where
  "flip_sign s = (if s = NEG then ZPOS else NEG)"

definition mp_abs :: "mp_int \<Rightarrow> mp_int \<Rightarrow> mp_mem \<Rightarrow> mp_err \<times> mp_int \<times> mp_mem" where
  "mp_abs a b h = on_ok (mp_copy a b h) (\<lambda>b h. (MP_OKAY, b\<lparr>sign := ZPOS\<rparr>, h))"

definition mp_neg :: "mp_int \<Rightarrow> mp_int \<Rightarrow> mp_mem \<Rightarrow> mp_err \<times> mp_int \<times> mp_mem" where
  "mp_neg a b h = on_ok (mp_copy a b h) (\<lambda>b h.
     (MP_OKAY, b\<lparr>sign := (if s_mp_cmp_d b 0 = MP_EQ then ZPOS else flip_sign (sign b))\<rparr>, h))"

text \<open>\<open>tmp = a; s_mp_sub(&tmp, b); s_mp_exch(&tmp, c)\<close>\<close>

definition sub_tmp :: "mp_int \<Rightarrow> mp_int \<Rightarrow> mp_int \<Rightarrow> mp_mem \<Rightarrow> mp_err \<times> mp_int \<times> mp_mem" where
  "sub_tmp a b c h =
     (let (res, tmp, h) = mp_init_copy a h
      in if res \<noteq> MP_OKAY then (res, c, h)
         else let (res, tmp) = s_mp_sub tmp b
              in if res \<noteq> MP_OKAY then (res, c, clear tmp h) else let (c, tmp) = s_mp_exch c tmp in (MP_OKAY, c, clear tmp h))"

text \<open>\<open>if(c != a && (res = mp_copy(a, c)) != MP_OKAY) return res; s_mp_sub(c, b)\<close>\<close>

definition copy_unless :: "bool \<Rightarrow> mp_int \<Rightarrow> mp_int \<Rightarrow> mp_mem \<Rightarrow> mp_err \<times> mp_int \<times> mp_mem" where
  "copy_unless same a c h = (if same then (MP_OKAY, c, h) else mp_copy a c h)"

definition sub_from :: "mp_int \<Rightarrow> mp_int \<Rightarrow> mp_mem \<Rightarrow> mp_err \<times> mp_int \<times> mp_mem" where
  "sub_from c b h = (let (res, c) = s_mp_sub c b in (res, c, h))"

definition mp_add :: "bool \<Rightarrow> bool \<Rightarrow> mp_int \<Rightarrow> mp_int \<Rightarrow> mp_int \<Rightarrow> mp_mem \<Rightarrow> mp_err \<times> mp_int \<times> mp_mem" where
  "mp_add ca cb a b c h =
     (if sign a \<noteq> sign b \<and> s_mp_cmp a b = 0 then (MP_OKAY, mp_zero c, h)
      else on_ok
        (if sign a = sign b then if cb then s_mp_add c a h else on_ok (copy_unless ca a c h) (\<lambda>c h. s_mp_add c b h)
         else if 0 < s_mp_cmp a b then if cb then sub_tmp a b c h else on_ok (copy_unless ca a c h) (\<lambda>c h. sub_from c b h)
         else if ca then sub_tmp b a c h else on_ok (copy_unless cb b c h) (\<lambda>c h. sub_from c a h))
        (\<lambda>c h. (MP_OKAY, fix_zero c, h)))"

definition mp_sub :: "bool \<Rightarrow> bool \<Rightarrow> mp_int \<Rightarrow> mp_int \<Rightarrow> mp_int \<Rightarrow> mp_mem \<Rightarrow> mp_err \<times> mp_int \<times> mp_mem" where
  "mp_sub ca cb a b c h =
     (if sign a = sign b \<and> s_mp_cmp a b = 0 then (MP_OKAY, mp_zero c, h)
      else on_ok
        (if sign a \<noteq> sign b
         then if ca then s_mp_add c b h
              else on_ok (on_ok (copy_unless cb b c h) (\<lambda>c h. s_mp_add c a h)) (\<lambda>c h. (MP_OKAY, c\<lparr>sign := sign a\<rparr>, h))
         else if 0 < s_mp_cmp a b then if cb then sub_tmp a b c h else on_ok (copy_unless ca a c h) (\<lambda>c h. sub_from c b h)
         else on_ok (if ca then sub_tmp b a c h else on_ok (copy_unless cb b c h) (\<lambda>c h. sub_from c a h))
                (\<lambda>c h. (MP_OKAY, c\<lparr>sign := flip_sign (sign b)\<rparr>, h)))
        (\<lambda>c h. (MP_OKAY, fix_zero c, h)))"

definition mp_mul :: "bool \<Rightarrow> mp_int \<Rightarrow> mp_int \<Rightarrow> mp_int \<Rightarrow> mp_mem \<Rightarrow> mp_err \<times> mp_int \<times> mp_mem" where
  "mp_mul cb a b c h =
     (let sgn = (if sign a = sign b then ZPOS else NEG)
      in on_ok (if cb then s_mp_mul c a h else on_ok (mp_copy a c h) (\<lambda>c h. s_mp_mul c b h))
           (\<lambda>c h. (MP_OKAY, c\<lparr>sign := (if sgn = ZPOS \<or> s_mp_cmp_d c 0 = MP_EQ then ZPOS else sgn)\<rparr>, h)))"

definition mp_sqr :: "mp_int \<Rightarrow> mp_int \<Rightarrow> mp_mem \<Rightarrow> mp_err \<times> mp_int \<times> mp_mem" where
  "mp_sqr a b h = on_ok (on_ok (mp_copy a b h) s_mp_sqr) (\<lambda>b h. (MP_OKAY, b\<lparr>sign := ZPOS\<rparr>, h))"

definition mp_mul_2 :: "mp_int \<Rightarrow> mp_int \<Rightarrow> mp_mem \<Rightarrow> mp_err \<times> mp_int \<times> mp_mem" where
  "mp_mul_2 a c h = on_ok (mp_copy a c h) s_mp_mul_2"

definition mp_mul_2d :: "mp_int \<Rightarrow> u16 \<Rightarrow> mp_int \<Rightarrow> mp_mem \<Rightarrow> mp_err \<times> mp_int \<times> mp_mem" where
  "mp_mul_2d a d c h = on_ok (mp_copy a c h) (\<lambda>c h. if d = 0 then (MP_OKAY, c, h) else s_mp_mul_2d c d h)"

definition mp_div_2 :: "mp_int \<Rightarrow> mp_int \<Rightarrow> mp_mem \<Rightarrow> mp_err \<times> mp_int \<times> mp_mem" where
  "mp_div_2 a c h = on_ok (mp_copy a c h) (\<lambda>c h. (MP_OKAY, s_mp_div_2 c, h))"

definition mp_div_2d ::
  "mp_int \<Rightarrow> u16 \<Rightarrow> mp_int option \<Rightarrow> mp_int option \<Rightarrow> mp_mem \<Rightarrow> mp_err \<times> (mp_int option \<times> mp_int option) \<times> mp_mem" where
  "mp_div_2d a d q r h =
     on_ok (case q of None \<Rightarrow> (MP_OKAY, (q, r), h)
            | Some q \<Rightarrow> let (res, q, h) = mp_copy a q h in (res, (Some (if res \<noteq> MP_OKAY then q else s_mp_div_2d q d), r), h))
       (\<lambda>(q, r) h. case r of None \<Rightarrow> (MP_OKAY, (q, r), h)
            | Some r \<Rightarrow> let (res, r, h) = mp_copy a r h in (res, (q, Some (if res \<noteq> MP_OKAY then r else s_mp_mod_2d r d)), h))"

definition mp_2expt :: "mp_int \<Rightarrow> u16 \<Rightarrow> mp_mem \<Rightarrow> mp_err \<times> mp_int \<times> mp_mem" where
  "mp_2expt a k h = s_mp_2expt a k h"

text \<open>One digit.\<close>

definition mp_add_d :: "mp_int \<Rightarrow> u16 \<Rightarrow> mp_int \<Rightarrow> mp_mem \<Rightarrow> mp_err \<times> mp_int \<times> mp_mem" where
  "mp_add_d a d b h = on_ok (mp_copy a b h) (\<lambda>b h.
     if sign b = ZPOS then s_mp_add_d b d h
     else if 0 \<le> s_mp_cmp_d b d then let (res, b) = s_mp_sub_d b d in (res, b, h)
     else (MP_OKAY, b\<lparr>sign := ZPOS, dp := (dp b)[0 := d - dp b ! 0]\<rparr>, h))"

definition mp_sub_d :: "mp_int \<Rightarrow> u16 \<Rightarrow> mp_int \<Rightarrow> mp_mem \<Rightarrow> mp_err \<times> mp_int \<times> mp_mem" where
  "mp_sub_d a d b h = on_ok (on_ok (mp_copy a b h) (\<lambda>b h.
     if sign b = NEG then s_mp_add_d b d h
     else if 0 \<le> s_mp_cmp_d b d then let (res, b) = s_mp_sub_d b d in (res, b, h)
     else let (_, b, h) = mp_neg b b h in (MP_OKAY, b\<lparr>dp := (dp b)[0 := d - dp b ! 0], sign := NEG\<rparr>, h)))
     (\<lambda>b h. (MP_OKAY, if s_mp_cmp_d b 0 = 0 then b\<lparr>sign := ZPOS\<rparr> else b, h))"

definition mp_mul_d :: "mp_int \<Rightarrow> u16 \<Rightarrow> mp_int \<Rightarrow> mp_mem \<Rightarrow> mp_err \<times> mp_int \<times> mp_mem" where
  "mp_mul_d a d b h = (if d = 0 then (MP_OKAY, mp_zero b, h) else on_ok (mp_copy a b h) (\<lambda>b h. s_mp_mul_d b d h))"

text \<open>The third result is \<open>*r\<close>; after a failed division it is not defined in the code, and 0 here.\<close>

definition mp_div_d :: "mp_int \<Rightarrow> u16 \<Rightarrow> mp_int option \<Rightarrow> mp_mem \<Rightarrow> (mp_err \<times> mp_int option \<times> u16 \<times> mp_mem) option" where
  "mp_div_d a d q h =
     (if d = 0 then Some (MP_RANGE, q, 0, h)
      else map_option (\<lambda>pow.
        if 0 \<le> pow
        then let rem = dp a ! 0 AND bit_mask (nat pow)
             in case q of None \<Rightarrow> (MP_OKAY, None, rem, h)
                | Some q \<Rightarrow> let (_, q, h) = mp_copy a q h in (MP_OKAY, Some (s_mp_div_2d q (of_int pow)), rem, h)
        else case q of
          Some q \<Rightarrow> let (res, q, h) = mp_copy a q h
                    in if res \<noteq> MP_OKAY then (res, Some q, 0, h)
                       else let (res, q, rem, h) = s_mp_div_d q d h
                            in (res, Some (if s_mp_cmp_d q 0 = MP_EQ then q\<lparr>sign := ZPOS\<rparr> else q), rem, h)
        | None \<Rightarrow> let (res, qp, h) = mp_init_copy a h
                  in if res \<noteq> MP_OKAY then (res, None, 0, h)
                     else let (res, qp, rem, h) = s_mp_div_d qp d h in (res, None, rem, clear qp h))
       (s_mp_ispow2d d))"

definition mp_mod_d :: "mp_int \<Rightarrow> u16 \<Rightarrow> mp_mem \<Rightarrow> (mp_err \<times> u16 \<times> mp_mem) option" where
  "mp_mod_d a d h =
     (if 0 < s_mp_cmp_d a d then map_option (\<lambda>(res, _, rem, h). (res, rem, h)) (mp_div_d a d None h)
      else Some (MP_OKAY, if sign a = NEG then d - dp a ! 0 else dp a ! 0, h))"

text \<open>\<open>long\<close> has 32 bits; \<open>abs\<close> of its least value is that value.\<close>

fun set_bytes :: "nat \<Rightarrow> u32 \<Rightarrow> mp_int \<Rightarrow> mp_mem \<Rightarrow> mp_err \<times> mp_int \<times> mp_mem" where
  "set_bytes 0 v a h = (MP_OKAY, a, h)"
| "set_bytes (Suc ix) v a h =
     on_ok (on_ok (s_mp_mul_2d a 8 h) (\<lambda>a h. s_mp_add_d a (ucast (drop_bit (ix * 8) v AND 0xFF)) h)) (\<lambda>a h. set_bytes ix v a h)"

definition mp_set_int :: "mp_int \<Rightarrow> u32 \<Rightarrow> mp_mem \<Rightarrow> mp_err \<times> mp_int \<times> mp_mem" where
  "mp_set_int a z h =
     (let v = (if sint z < 0 then - z else z); a = mp_zero a
      in if z = 0 then (MP_OKAY, a, h)
         else on_ok (set_bytes 4 v a h) (\<lambda>a h. (MP_OKAY, if sint z < 0 then a\<lparr>sign := NEG\<rparr> else a, h)))"

text \<open>The results of \<open>mp_init\<close> and \<open>mp_set_int\<close> are not looked at.\<close>

definition mp_cmp_int :: "mp_int \<Rightarrow> u32 \<Rightarrow> mp_mem \<Rightarrow> int \<times> mp_mem" where
  "mp_cmp_int a z h = (let (_, tmp, h) = mp_init h; (_, tmp, h) = mp_set_int tmp z h in (mp_cmp a tmp, clear tmp h))"

section \<open>Division\<close>

definition mp_div ::
  "mp_int \<Rightarrow> mp_int \<Rightarrow> mp_int option \<Rightarrow> mp_int option \<Rightarrow> mp_mem \<Rightarrow> (mp_err \<times> mp_int option \<times> mp_int option \<times> mp_mem) option" where
  "mp_div a b q r h =
     (if mp_cmp_z b = MP_EQ then Some (MP_RANGE, q, r, h)
      else if s_mp_cmp a b < 0
      then Some (case r of
             None \<Rightarrow> (MP_OKAY, map_option mp_zero q, None, h)
           | Some r \<Rightarrow> let (res, r, h) = mp_copy a r h in if res \<noteq> MP_OKAY then (res, q, Some r, h) else (MP_OKAY, map_option mp_zero q, Some r, h))
      else if s_mp_cmp a b = 0
      then Some (MP_OKAY, map_option (\<lambda>q. let q = mp_set q 1 in if sign a \<noteq> sign b then q\<lparr>sign := NEG\<rparr> else q) q, map_option mp_zero r, h)
      else let (res, qtmp, h) = mp_init_copy a h
      in if res \<noteq> MP_OKAY then Some (res, q, r, h)
      else let (res, rtmp, h) = mp_init_copy b h
      in if res \<noteq> MP_OKAY then Some (res, q, r, clear qtmp (clear rtmp h))
      else map_option (\<lambda>(res, qtmp, rtmp, h).
        if res \<noteq> MP_OKAY then (res, q, r, clear qtmp (clear rtmp h))
        else let rtmp = rtmp\<lparr>sign := sign a\<rparr>;
                 qtmp = qtmp\<lparr>sign := (if sign a = sign b then ZPOS else NEG)\<rparr>;
                 qtmp = (if s_mp_cmp_d qtmp 0 = MP_EQ then qtmp\<lparr>sign := ZPOS\<rparr> else qtmp);
                 rtmp = (if s_mp_cmp_d rtmp 0 = MP_EQ then rtmp\<lparr>sign := ZPOS\<rparr> else rtmp);
                 (qtmp, q) = (case q of None \<Rightarrow> (qtmp, None) | Some q \<Rightarrow> (q, Some qtmp));
                 (rtmp, r) = (case r of None \<Rightarrow> (rtmp, None) | Some r \<Rightarrow> (r, Some rtmp))
             in (MP_OKAY, q, r, clear qtmp (clear rtmp h)))
       (s_mp_div qtmp rtmp h))"

text \<open>\<open>ca\<close>: the output is \<open>a\<close>; the code does not mean it to be \<open>m\<close>, which it still needs after the division.\<close>

definition mp_mod :: "bool \<Rightarrow> mp_int \<Rightarrow> mp_int \<Rightarrow> mp_int \<Rightarrow> mp_mem \<Rightarrow> (mp_err \<times> mp_int \<times> mp_mem) option" where
  "mp_mod ca a m c h =
     (if sign m = NEG then Some (MP_RANGE, c, h)
      else if 0 < s_mp_cmp a m
      then map_option (\<lambda>(res, _, c', h). on_ok (res, the c', h) (\<lambda>c h. if sign c = NEG then mp_add True False c m c h else (MP_OKAY, c, h)))
             (mp_div a m None (Some c) h)
      else if s_mp_cmp a m < 0
      then Some (on_ok (copy_unless ca a c h) (\<lambda>c h. if mp_cmp_z a < 0 then mp_add True False c m c h else (MP_OKAY, c, h)))
      else Some (MP_OKAY, mp_zero c, h))"

section \<open>What they compute\<close>

text \<open>The call succeeds, with \<open>k\<close> more buffers in use, and its value has the property.\<close>

definition gives :: "int \<Rightarrow> mp_mem \<Rightarrow> mp_err \<times> 'a \<times> mp_mem \<Rightarrow> ('a \<Rightarrow> bool) \<Rightarrow> bool" where
  "gives k h r P \<longleftrightarrow> (\<exists>x h'. r = (MP_OKAY, x, h') \<and> fine k h h' \<and> P x)"

lemma givesI: "r = (MP_OKAY, x, h') \<Longrightarrow> fine k h h' \<Longrightarrow> P x \<Longrightarrow> gives k h r P"
  by (auto simp: gives_def)

lemma givesE: "gives k h r P \<Longrightarrow> (\<And>x h'. r = (MP_OKAY, x, h') \<Longrightarrow> fine k h h' \<Longrightarrow> P x \<Longrightarrow> thesis) \<Longrightarrow> thesis"
  by (auto simp: gives_def)

lemma gives_mono: "gives k h r P \<Longrightarrow> (\<And>x. P x \<Longrightarrow> Q x) \<Longrightarrow> gives k h r Q"
  by (auto simp: gives_def)

lemma gives_ret: "gives 0 h (MP_OKAY, x, h) P \<longleftrightarrow> plenty h \<and> P x"
  by (simp add: gives_def)

lemma gives_on_ok:
  assumes "gives k h r P" "\<And>x h'. plenty h' \<Longrightarrow> P x \<Longrightarrow> gives 0 h' (f x h') Q"
  shows "gives k h (on_ok r f) Q"
proof -
  obtain x h' where x: "r = (MP_OKAY, x, h')" "fine k h h'" "P x" using assms(1) by (rule givesE)
  have "gives 0 h' (f x h') Q" by (rule assms(2) [OF fine_plenty [OF x(2)] x(3)])
  then obtain y h2 where y: "f x h' = (MP_OKAY, y, h2)" "fine 0 h' h2" "Q y" by (rule givesE)
  show ?thesis by (rule givesI [of _ y h2]) (use x(1) y fine_trans [OF x(2) y(2)] in simp_all)
qed

lemma mp_val_ok: "mp_ok a \<Longrightarrow> (mp_val a < 0 \<longleftrightarrow> sign a = NEG)" "\<bar>mp_val a\<bar> = int (mag a)" "mp_ok a \<Longrightarrow> sign a = NEG \<Longrightarrow> 0 < mag a"
  by (auto simp: mp_val_def mp_ok_def)

lemma not_neg: "s \<noteq> NEG \<longleftrightarrow> s = ZPOS"
  by (cases s) simp_all

lemma mp_cmp_val: "mp_ok a \<Longrightarrow> mp_ok b \<Longrightarrow> mp_cmp a b = (if mp_val a < mp_val b then MP_LT else if mp_val a = mp_val b then MP_EQ else MP_GT)"
  using s_mp_cmp_val [of a b] mp_val_ok(3) [of a] mp_val_ok(3) [of b]
  by (auto simp: mp_cmp_def mp_val_def MP_LT_def MP_EQ_def MP_GT_def not_neg split: if_splits)

lemma mp_cmp_d_val: "mp_ok a \<Longrightarrow> mp_cmp_d a d = (if mp_val a < int (unat d) then MP_LT else if mp_val a = int (unat d) then MP_EQ else MP_GT)"
proof -
  assume a: "mp_ok a"
  define n where "n = unat d"
  show ?thesis
    using s_mp_cmp_d_val [OF a, of d] mp_val_ok(3) [OF a] unfolding mp_cmp_d_def n_def [symmetric] by (auto simp: mp_val_def)
qed

lemma mp_isodd_val: "mp_wf a \<Longrightarrow> mp_isodd a \<longleftrightarrow> odd (mp_val a)"
proof -
  assume w: "mp_wf a"
  have "dp a ! 0 AND 1 \<noteq> 0 \<longleftrightarrow> odd (unat (dp a ! 0))"
  proof -
    have "dp a ! 0 AND 1 = dp a ! 0 mod 2" by (rule and_one_eq)
    then have "unat (dp a ! 0 AND 1) = unat (dp a ! 0) mod 2" by (simp add: unat_mod_distrib)
    then show ?thesis by (metis dvd_eq_mod_eq_0 unat_eq_0)
  qed
  moreover have "odd (mag a) \<longleftrightarrow> odd (unat (dp a ! 0))" using digits_hd [OF w] by (metis bval.simps(2) dvd_add_left_iff dvd_mult2 even_numeral mag_def)
  ultimately show ?thesis by (simp add: mp_isodd_def mp_val_def)
qed

lemma fix_zero_ok: "mp_wf c \<Longrightarrow> clamped c \<Longrightarrow> mp_ok (fix_zero c) \<and> mp_val (fix_zero c) = mp_val c"
  using zero_iff [of c] by (auto simp: fix_zero_def mp_ok_def mp_val_def)

lemma mp_copy_gives:
  assumes "plenty h" "mp_ok b" "mp_wf c"
  shows "gives 0 h (mp_copy b c h) (\<lambda>x. mp_ok x \<and> mp_val x = mp_val b \<and> sign x = sign b \<and> mag x = mag b \<and> alloc c \<le> alloc x \<and> used x = used b)"
proof -
  have wb: "mp_wf b" using assms(2) by (simp add: mp_ok_def)
  obtain x h' where "mp_copy b c h = (MP_OKAY, x, h')" "fine 0 h h'" "mp_ok x = mp_ok b" "mp_val x = mp_val b" "sign x = sign b" "mag x = mag b"
    "alloc c \<le> alloc x" "used x = used b"
    by (rule mp_copy_fine [OF assms(1) wb assms(3)], rule that, assumption) simp_all
  then show ?thesis using assms(2) by (intro givesI [of _ x h']) simp_all
qed

lemma copy_unless_gives:
  assumes "plenty h" "mp_ok b" "mp_wf c" "same \<Longrightarrow> c = b"
  shows "gives 0 h (copy_unless same b c h) (\<lambda>x. mp_ok x \<and> mp_val x = mp_val b \<and> sign x = sign b \<and> mag x = mag b)"
  using mp_copy_gives [OF assms(1-3)] assms by (auto simp: copy_unless_def gives_ret elim!: gives_mono)

lemma s_mp_add_gives: "plenty h \<Longrightarrow> mp_ok a \<Longrightarrow> mp_ok b \<Longrightarrow> gives 0 h (s_mp_add a b h) (\<lambda>x. mp_ok x \<and> mag x = mag a + mag b \<and> sign x = sign a)"
  by (rule s_mp_add_fine [of h a b]) (auto intro: givesI)

lemma s_mp_mul_gives: "plenty h \<Longrightarrow> mp_ok a \<Longrightarrow> mp_ok b \<Longrightarrow> gives 0 h (s_mp_mul a b h) (\<lambda>x. mp_ok x \<and> mag x = mag a * mag b \<and> sign x = ZPOS)"
  by (rule s_mp_mul_fine [of h a b]) (auto intro: givesI)

lemma s_mp_sqr_gives: "plenty h \<Longrightarrow> mp_ok a \<Longrightarrow> gives 0 h (s_mp_sqr a h) (\<lambda>x. mp_ok x \<and> mag x = mag a * mag a \<and> sign x = ZPOS)"
  by (rule s_mp_sqr_fine [of h a]) (auto intro: givesI)

lemma sub_from_gives:
  assumes "plenty h" "mp_ok c" "mp_ok b" "mag b \<le> mag c"
  shows "gives 0 h (sub_from c b h) (\<lambda>x. mp_ok x \<and> mag x = mag c - mag b \<and> (mag x = 0 \<or> sign x = sign c))"
proof -
  obtain x where "s_mp_sub c b = (MP_OKAY, x)" "mp_ok x" "mag x = mag c - mag b" "sign x = (if mag x = 0 then ZPOS else sign c)"
    by (rule s_mp_sub_fine [OF assms(2-4)], rule that, assumption) simp_all
  then show ?thesis using assms(1) by (intro givesI [of _ x h]) (simp_all add: sub_from_def)
qed

lemma sub_tmp_gives:
  assumes "plenty h" "mp_ok a" "mp_ok b" "mag b \<le> mag a" "mp_wf c"
  shows "gives 0 h (sub_tmp a b c h) (\<lambda>x. mp_ok x \<and> mag x = mag a - mag b \<and> (mag x = 0 \<or> sign x = sign a))"
proof -
  have wa: "mp_wf a" using assms(2) by (simp add: mp_ok_def)
  obtain t h1 where t: "mp_init_copy a h = (MP_OKAY, t, h1)" "fine 1 h h1" "mp_ok t" "sign t = sign a" "mag t = mag a"
    by (rule mp_init_copy_fine [OF assms(1) wa], rule that, assumption) (simp_all add: assms(2))
  have le: "mag b \<le> mag t" using assms(4) t(5) by simp
  obtain x where x: "s_mp_sub t b = (MP_OKAY, x)" "mp_ok x" "mag x = mag t - mag b" "sign x = (if mag x = 0 then ZPOS else sign t)"
    by (rule s_mp_sub_fine [OF t(3) assms(3) le], rule that, assumption) simp_all
  have f: "fine 0 h (clear c h1)" using clear_fine [OF assms(5) t(2)] by simp
  have "sub_tmp a b c h = (MP_OKAY, x, clear c h1)" using t(1) x(1) by (simp add: sub_tmp_def s_mp_exch_def)
  then show ?thesis using f x t(4,5) by (intro givesI [of _ x "clear c h1"]) simp_all
qed

lemma flip_sign_val: "mp_val (c\<lparr>sign := flip_sign s\<rparr>) = (if s = NEG then int (mag c) else - int (mag c))"
  by (simp add: flip_sign_def mp_val_def)

lemma clamped_sign: "mp_ok c \<Longrightarrow> mp_wf (c\<lparr>sign := s\<rparr>) \<and> clamped (c\<lparr>sign := s\<rparr>)"
  by (simp add: mp_ok_def)

lemma cmp_cases: "mp_ok a \<Longrightarrow> mp_ok b \<Longrightarrow> \<not> 0 < s_mp_cmp a b \<longleftrightarrow> mag a \<le> mag b"
  using s_mp_cmp_simps(2) [of a b] by auto

lemma fix_zero_gives:
  "gives k h r (\<lambda>x. mp_ok x \<and> mp_val x = v) \<Longrightarrow> gives k h (on_ok r (\<lambda>c h. (MP_OKAY, fix_zero c, h))) (\<lambda>x. mp_ok x \<and> mp_val x = v)"
  by (erule gives_on_ok) (use fix_zero_ok in \<open>auto simp: gives_ret mp_ok_def\<close>)

text \<open>A difference of magnitudes, with the sign of the larger one.\<close>

lemma sub_mag_gives:
  assumes "plenty h" "mp_ok a" "mp_ok b" "mag b \<le> mag a" "mp_wf c" "ca \<Longrightarrow> c = a"
  shows "gives 0 h (if cb then sub_tmp a b c h else on_ok (copy_unless ca a c h) (\<lambda>c h. sub_from c b h))
    (\<lambda>x. mp_ok x \<and> mag x = mag a - mag b \<and> (mag x = 0 \<or> sign x = sign a))"
proof -
  have "gives 0 h (on_ok (copy_unless ca a c h) (\<lambda>c h. sub_from c b h)) (\<lambda>x. mp_ok x \<and> mag x = mag a - mag b \<and> (mag x = 0 \<or> sign x = sign a))"
  proof (rule gives_on_ok [OF copy_unless_gives [OF assms(1,2,5,6)]])
    fix u h'
    assume "plenty h'" "mp_ok u \<and> mp_val u = mp_val a \<and> sign u = sign a \<and> mag u = mag a"
    then show "gives 0 h' (sub_from u b h') (\<lambda>x. mp_ok x \<and> mag x = mag a - mag b \<and> (mag x = 0 \<or> sign x = sign a))"
      using sub_from_gives [of h' u b] assms(3,4) by auto
  qed
  then show ?thesis using sub_tmp_gives [OF assms(1-5)] by simp
qed

lemma add_mag_gives:
  assumes "plenty h" "mp_ok a" "mp_ok b" "mp_wf c" "ca \<Longrightarrow> c = a"
  shows "gives 0 h (on_ok (copy_unless ca a c h) (\<lambda>c h. s_mp_add c b h)) (\<lambda>x. mp_ok x \<and> mag x = mag a + mag b \<and> sign x = sign a)"
proof (rule gives_on_ok [OF copy_unless_gives [OF assms(1,2,4,5)]])
  fix x h'
  assume "plenty h'" "mp_ok x \<and> mp_val x = mp_val a \<and> sign x = sign a \<and> mag x = mag a"
  then show "gives 0 h' (s_mp_add x b h') (\<lambda>x. mp_ok x \<and> mag x = mag a + mag b \<and> sign x = sign a)"
    using s_mp_add_gives [of h' x b] assms(3) by auto
qed

lemma mp_add_gives:
  assumes h: "plenty h" and ok: "mp_ok a" "mp_ok b" and c: "mp_wf c" "ca \<Longrightarrow> c = a" "cb \<Longrightarrow> c = b"
  shows "gives 0 h (mp_add ca cb a b c h) (\<lambda>x. mp_ok x \<and> mp_val x = mp_val a + mp_val b)"
proof (cases "sign a \<noteq> sign b \<and> s_mp_cmp a b = 0")
  case True
  then show ?thesis using h mp_zero_ok [OF c(1)] s_mp_cmp_simps(3) [OF ok]
    by (auto simp: mp_add_def gives_ret mp_val_def) (metis not_neg)+
next
  case ne: False
  show ?thesis
  proof (cases "sign a = sign b")
    case True
    have "gives 0 h (if cb then s_mp_add c a h else on_ok (copy_unless ca a c h) (\<lambda>c h. s_mp_add c b h)) (\<lambda>x. mp_ok x \<and> mp_val x = mp_val a + mp_val b)"
    proof (cases cb)
      case cb: True
      have "gives 0 h (s_mp_add c a h) (\<lambda>x. mp_ok x \<and> mp_val x = mp_val a + mp_val b)"
        unfolding c(3) [OF cb] by (rule gives_mono [OF s_mp_add_gives [OF h ok(2,1)]]) (use True in \<open>auto simp: mp_val_def\<close>)
      then show ?thesis using cb by simp
    next
      case False
      have "gives 0 h (on_ok (copy_unless ca a c h) (\<lambda>c h. s_mp_add c b h)) (\<lambda>x. mp_ok x \<and> mp_val x = mp_val a + mp_val b)"
        by (rule gives_mono [OF add_mag_gives [OF h ok c(1,2)]]) (use True in \<open>auto simp: mp_val_def\<close>)
      then show ?thesis using False by simp
    qed
    then show ?thesis using True by (simp add: mp_add_def fix_zero_gives)
  next
    case False
    have v: "mp_val z = mp_val x + mp_val y" if "mag z = mag x - mag y" "mag z = 0 \<or> sign z = sign x" "mag y \<le> mag x" "sign x \<noteq> sign y" for x y z
      using that by (cases "sign x"; cases "sign y") (auto simp: mp_val_def of_nat_diff)
    show ?thesis
    proof (cases "0 < s_mp_cmp a b")
      case True
      then have le: "mag b \<le> mag a" using s_mp_cmp_simps(2) [OF ok] by simp
      have "gives 0 h (if cb then sub_tmp a b c h else on_ok (copy_unless ca a c h) (\<lambda>c h. sub_from c b h)) (\<lambda>x. mp_ok x \<and> mp_val x = mp_val a + mp_val b)"
        by (rule gives_mono [OF sub_mag_gives [OF h ok le c(1,2)]]) (use v [OF _ _ le False] in auto)
      from fix_zero_gives [OF this] show ?thesis using True False by (simp add: mp_add_def)
    next
      case nl: False
      then have le: "mag a \<le> mag b" using cmp_cases [OF ok] by simp
      have "gives 0 h (if ca then sub_tmp b a c h else on_ok (copy_unless cb b c h) (\<lambda>c h. sub_from c a h)) (\<lambda>x. mp_ok x \<and> mp_val x = mp_val a + mp_val b)"
        by (rule gives_mono [OF sub_mag_gives [OF h ok(2,1) le c(1,3)]]) (use v [OF _ _ le False [symmetric]] in \<open>auto simp: add.commute\<close>)
      from fix_zero_gives [OF this] show ?thesis using nl False ne by (simp add: mp_add_def)
    qed
  qed
qed

lemma mp_sub_gives:
  assumes h: "plenty h" and ok: "mp_ok a" "mp_ok b" and c: "mp_wf c" "ca \<Longrightarrow> c = a" "cb \<Longrightarrow> c = b"
  shows "gives 0 h (mp_sub ca cb a b c h) (\<lambda>x. mp_ok x \<and> mp_val x = mp_val a - mp_val b)"
proof (cases "sign a = sign b \<and> s_mp_cmp a b = 0")
  case True
  then show ?thesis using h mp_zero_ok [OF c(1)] s_mp_cmp_simps(3) [OF ok] by (auto simp: mp_sub_def gives_ret mp_val_def)
next
  case ne: False
  show ?thesis
  proof (cases "sign a = sign b")
    case False
    have v: "mp_ok x \<and> mp_val x = mp_val a - mp_val b" if "mp_wf x" "clamped x" "mag x = mag a + mag b" "sign x = sign a" for x
      using that ok False by (cases "sign a"; cases "sign b") (auto simp: mp_val_def mp_ok_def)
    have "gives 0 h (if ca then s_mp_add c b h
              else on_ok (on_ok (copy_unless cb b c h) (\<lambda>c h. s_mp_add c a h)) (\<lambda>c h. (MP_OKAY, c\<lparr>sign := sign a\<rparr>, h)))
       (\<lambda>x. mp_ok x \<and> mp_val x = mp_val a - mp_val b)"
    proof (cases ca)
      case True
      then show ?thesis using s_mp_add_gives [OF h ok] c(2) v by (auto simp: mp_ok_def elim!: gives_mono)
    next
      case nca: False
      have "gives 0 h (on_ok (on_ok (copy_unless cb b c h) (\<lambda>c h. s_mp_add c a h)) (\<lambda>c h. (MP_OKAY, c\<lparr>sign := sign a\<rparr>, h)))
         (\<lambda>x. mp_ok x \<and> mp_val x = mp_val a - mp_val b)"
      proof (rule gives_on_ok [OF add_mag_gives [OF h ok(2,1) c(1,3)]])
        fix x h'
        assume x: "plenty h'" "mp_ok x \<and> mag x = mag b + mag a \<and> sign x = sign b"
        have "mp_ok (x\<lparr>sign := sign a\<rparr>) \<and> mp_val (x\<lparr>sign := sign a\<rparr>) = mp_val a - mp_val b"
          by (rule v) (use x(2) in \<open>simp_all add: mp_ok_def\<close>)
        then show "gives 0 h' (MP_OKAY, x\<lparr>sign := sign a\<rparr>, h') (\<lambda>x. mp_ok x \<and> mp_val x = mp_val a - mp_val b)"
          using x(1) by (simp add: gives_ret)
      qed
      then show ?thesis using nca by simp
    qed
    from fix_zero_gives [OF this] show ?thesis using False by (simp add: mp_sub_def)
  next
    case True
    show ?thesis
    proof (cases "0 < s_mp_cmp a b")
      case gt: True
      then have le: "mag b \<le> mag a" using s_mp_cmp_simps(2) [OF ok] by simp
      have v: "mp_val x = mp_val a - mp_val b" if "mag x = mag a - mag b" "mag x = 0 \<or> sign x = sign a" for x
        using that le True by (cases "sign a") (auto simp: mp_val_def of_nat_diff)
      have "gives 0 h (if cb then sub_tmp a b c h else on_ok (copy_unless ca a c h) (\<lambda>c h. sub_from c b h)) (\<lambda>x. mp_ok x \<and> mp_val x = mp_val a - mp_val b)"
        by (rule gives_mono [OF sub_mag_gives [OF h ok le c(1,2)]]) (use v in auto)
      from fix_zero_gives [OF this] show ?thesis using True gt ne by (simp add: mp_sub_def)
    next
      case nl: False
      then have le: "mag a < mag b" using cmp_cases [OF ok] ne True s_mp_cmp_simps(3) [OF ok] by auto
      have v: "mp_ok (x\<lparr>sign := flip_sign (sign b)\<rparr>) \<and> mp_val (x\<lparr>sign := flip_sign (sign b)\<rparr>) = mp_val a - mp_val b"
        if "mp_ok x" "mag x = mag b - mag a" for x
        using that le True by (cases "sign b") (auto simp: mp_val_def of_nat_diff flip_sign_def mp_ok_def)
      have le': "mag a \<le> mag b" using le by simp
      have "gives 0 h (on_ok (if ca then sub_tmp b a c h else on_ok (copy_unless cb b c h) (\<lambda>c h. sub_from c a h))
          (\<lambda>c h. (MP_OKAY, c\<lparr>sign := flip_sign (sign b)\<rparr>, h))) (\<lambda>x. mp_ok x \<and> mp_val x = mp_val a - mp_val b)"
        by (rule gives_on_ok [OF sub_mag_gives [OF h ok(2,1) le' c(1,3)]]) (use v in \<open>auto simp: gives_ret\<close>)
      from fix_zero_gives [OF this] show ?thesis using nl True ne by (simp add: mp_sub_def)
    qed
  qed
qed

lemma mp_mul_gives:
  assumes h: "plenty h" and ok: "mp_ok a" "mp_ok b" and c: "mp_wf c" "cb \<Longrightarrow> c = b"
  shows "gives 0 h (mp_mul cb a b c h) (\<lambda>x. mp_ok x \<and> mp_val x = mp_val a * mp_val b)"
proof -
  have v: "mp_ok y \<and> mp_val y = mp_val a * mp_val b"
    if "mp_ok x" "mag x = mag a * mag b" "y = x\<lparr>sign := (if (if sign a = sign b then ZPOS else NEG) = ZPOS \<or> s_mp_cmp_d x 0 = MP_EQ then ZPOS
      else if sign a = sign b then ZPOS else NEG)\<rparr>" for x y
    using that ok s_mp_cmp_d_zero [of x] by (cases "sign a"; cases "sign b") (auto simp: mp_val_def mp_ok_def)
  have "gives 0 h (if cb then s_mp_mul c a h else on_ok (mp_copy a c h) (\<lambda>c h. s_mp_mul c b h)) (\<lambda>x. mp_ok x \<and> mag x = mag a * mag b)"
  proof (cases cb)
    case True
    then show ?thesis using s_mp_mul_gives [OF h ok(2,1)] c(2) by (auto simp: mult.commute elim!: gives_mono)
  next
    case False
    have "gives 0 h (on_ok (mp_copy a c h) (\<lambda>c h. s_mp_mul c b h)) (\<lambda>x. mp_ok x \<and> mag x = mag a * mag b)"
    proof (rule gives_on_ok [OF mp_copy_gives [OF h ok(1) c(1)]])
      fix x h'
      assume "plenty h'" "mp_ok x \<and> mp_val x = mp_val a \<and> sign x = sign a \<and> mag x = mag a \<and> alloc c \<le> alloc x \<and> used x = used a"
      then show "gives 0 h' (s_mp_mul x b h') (\<lambda>x. mp_ok x \<and> mag x = mag a * mag b)"
        using s_mp_mul_gives [of h' x b] ok(2) by (auto elim!: gives_mono)
    qed
    then show ?thesis using False by simp
  qed
  then show ?thesis unfolding mp_mul_def Let_def by (rule gives_on_ok) (use v in \<open>simp add: gives_ret\<close>)
qed

text \<open>An output that may be null.\<close>

definition out :: "mp_int option \<Rightarrow> mp_int option \<Rightarrow> int \<Rightarrow> bool" where
  "out q q' v \<longleftrightarrow> (case q of None \<Rightarrow> q' = None | Some _ \<Rightarrow> \<exists>x. q' = Some x \<and> mp_ok x \<and> mp_val x = v)"

lemma mp_set_sign_ok: "mp_wf a \<Longrightarrow> d \<noteq> 0 \<Longrightarrow> mp_ok ((mp_set a d)\<lparr>sign := s\<rparr>) \<and> mp_val ((mp_set a d)\<lparr>sign := s\<rparr>) = (if s = NEG then - int (unat d) else int (unat d))"
  using mp_set_ok [of a d] by (simp add: mp_ok_def mp_val_def unat_eq_0)

lemma sgn_val: "mp_ok a \<Longrightarrow> mp_val a \<noteq> 0 \<Longrightarrow> sgn (mp_val a) = (if sign a = NEG then - 1 else 1)"
  by (auto simp: mp_val_def mp_ok_def sgn_if)

lemma mag_abs: "int (mag a) = \<bar>mp_val a\<bar>"
  by (simp add: mp_val_def)

lemma mag_val_0: "mag a = 0 \<longleftrightarrow> mp_val a = 0"
  by (simp add: mp_val_def)

text \<open>Truncating division; the remainder has the sign of the dividend.\<close>

lemma mp_div_fine:
  assumes h: "plenty h" and a: "mp_ok a" and b: "mp_ok b" and nz: "mp_val b \<noteq> 0" and small: "used b \<le> 4096"
    and q: "\<And>x. q = Some x \<Longrightarrow> mp_wf x" and r: "\<And>x. r = Some x \<Longrightarrow> mp_wf x"
  shows "\<exists>q' r' h'. mp_div a b q r h = Some (MP_OKAY, q', r', h') \<and> fine 0 h h' \<and> out q q' (mp_val a sdiv mp_val b) \<and> out r r' (mp_val a smod mp_val b)"
proof -
  have wa: "mp_wf a" and wb: "mp_wf b" using a b by (simp_all add: mp_ok_def)
  have bz: "mag b \<noteq> 0" using nz by (simp add: mag_val_0)
  have z: "mp_cmp_z b \<noteq> MP_EQ" using mp_cmp_z_val [OF b] nz by (auto simp: MP_LT_def MP_GT_def MP_EQ_def)
  have sd: "mp_val a sdiv mp_val b = sgn (mp_val a) * sgn (mp_val b) * int (mag a div mag b)"
    "mp_val a smod mp_val b = sgn (mp_val a) * int (mag a mod mag b)"
    by (simp_all add: signed_divide_int_def signed_modulo_int_def zdiv_int zmod_int mag_abs)
  consider "mag a < mag b" | "mag a = mag b" | "mag b < mag a" by linarith
  then show ?thesis
  proof cases
    case 1
    then have lt: "s_mp_cmp a b < 0" using s_mp_cmp_simps(1) [OF a b] by simp
    have v: "mp_val a sdiv mp_val b = 0" "mp_val a smod mp_val b = mp_val a" using 1 by (simp_all add: sd mag_abs sgn_mult_abs abs_mult_sgn mult.commute)
    have oq: "out q (map_option mp_zero q) 0" using q mp_zero_ok by (auto simp: out_def split: option.split)
    show ?thesis
    proof (cases r)
      case None
      then show ?thesis using z lt h oq v by (simp add: mp_div_def out_def)
    next
      case (Some r0)
      obtain x h' where x: "mp_copy a r0 h = (MP_OKAY, x, h')" "fine 0 h h'" "mp_ok x \<and> mp_val x = mp_val a \<and> sign x = sign a \<and> mag x = mag a \<and> alloc r0 \<le> alloc x \<and> used x = used a"
        using mp_copy_gives [OF h a r [OF Some]] by (rule givesE)
      then show ?thesis using Some z lt oq v by (simp add: mp_div_def out_def)
    qed
  next
    case 2
    then have eq: "s_mp_cmp a b = 0" "\<not> s_mp_cmp a b < 0" using s_mp_cmp_simps [OF a b] by simp_all
    have nza: "mp_val a \<noteq> 0" using 2 bz by (simp add: mag_val_0 [symmetric])
    have v: "mp_val a sdiv mp_val b = (if sign a \<noteq> sign b then - 1 else 1)" "mp_val a smod mp_val b = 0"
      using 2 bz sgn_val [OF a nza] sgn_val [OF b nz] unfolding sd by (cases "sign a"; cases "sign b"; simp)+
    have "mp_ok (mp_set x 1) \<and> mp_val (mp_set x 1) = 1" "mp_ok ((mp_set x 1)\<lparr>sign := NEG\<rparr>) \<and> mp_val ((mp_set x 1)\<lparr>sign := NEG\<rparr>) = - 1" if "mp_wf x" for x
      using mp_set_ok [OF that, of 1] mp_set_sign_ok [OF that, of 1 NEG] by simp_all
    then have oq: "out q (map_option (\<lambda>q. let q = mp_set q 1 in if sign a \<noteq> sign b then q\<lparr>sign := NEG\<rparr> else q) q) (mp_val a sdiv mp_val b)"
      using q unfolding v by (auto simp: out_def Let_def split: option.split)
    have "out r (map_option mp_zero r) 0" using r mp_zero_ok by (auto simp: out_def split: option.split)
    then show ?thesis using z eq h oq v by (simp add: mp_div_def)
  next
    case 3
    then have gt: "\<not> s_mp_cmp a b < 0" "s_mp_cmp a b \<noteq> 0" using s_mp_cmp_simps [OF a b] by simp_all
    obtain a1 h1 where a1: "mp_init_copy a h = (MP_OKAY, a1, h1)" "fine 1 h h1" "mp_ok a1" "mag a1 = mag a"
      by (rule mp_init_copy_fine [OF h wa], rule that, assumption) (simp_all add: a)
    obtain b1 h2 where b1: "mp_init_copy b h1 = (MP_OKAY, b1, h2)" "fine 1 h1 h2" "mp_ok b1" "mag b1 = mag b" "used b1 = used b"
      by (rule mp_init_copy_fine [OF fine_plenty [OF a1(2)] wb], rule that, assumption) (simp_all add: b)
    have bz1: "mag b1 \<noteq> 0" "used b1 \<le> 4096" using bz small b1 by simp_all
    obtain q1 r1 h3 where d: "s_mp_div a1 b1 h2 = Some (MP_OKAY, q1, r1, h3)" "fine 0 h2 h3" "mp_ok q1" "mp_ok r1" "mag q1 = mag a1 div mag b1"
      "mag r1 = mag a1 mod mag b1"
      by (rule s_mp_div_fine [OF fine_plenty [OF b1(2)] a1(3) b1(3) bz1], rule that, assumption) simp_all
    define q2 where "q2 = q1\<lparr>sign := (if sign a = sign b then ZPOS else NEG)\<rparr>"
    define r2 where "r2 = r1\<lparr>sign := sign a\<rparr>"
    define q3 where "q3 = (if s_mp_cmp_d q2 0 = MP_EQ then q2\<lparr>sign := ZPOS\<rparr> else q2)"
    define r3 where "r3 = (if s_mp_cmp_d r2 0 = MP_EQ then r2\<lparr>sign := ZPOS\<rparr> else r2)"
    have fixz: "mp_ok (if s_mp_cmp_d x 0 = MP_EQ then x\<lparr>sign := ZPOS\<rparr> else x) \<and> mp_val (if s_mp_cmp_d x 0 = MP_EQ then x\<lparr>sign := ZPOS\<rparr> else x) = mp_val x"
      if x: "x = y\<lparr>sign := s\<rparr>" "mp_ok y" for x y s
    proof -
      have "s_mp_cmp_d x 0 = s_mp_cmp_d y 0" by (simp add: s_mp_cmp_d_def x(1))
      then have "s_mp_cmp_d x 0 = MP_EQ \<longleftrightarrow> mag x = 0" using s_mp_cmp_d_zero [OF x(2)] by (simp add: x(1))
      then show ?thesis using x by (auto simp: mp_ok_def mp_val_def)
    qed
    have nza: "mp_val a \<noteq> 0" using 3 by (auto simp: mag_val_0 [symmetric])
    have "mp_val q2 = mp_val a sdiv mp_val b" "mp_val r2 = mp_val a smod mp_val b"
      using sgn_val [OF a nza] sgn_val [OF b nz] d(5,6) a1(4) b1(4)
      unfolding sd q2_def r2_def by (cases "sign a"; cases "sign b"; simp add: mp_val_def [of "q1\<lparr>sign := _\<rparr>"] mp_val_def [of "r1\<lparr>sign := _\<rparr>"])+
    then have q3: "mp_ok q3" "mp_val q3 = mp_val a sdiv mp_val b" and r3: "mp_ok r3" "mp_val r3 = mp_val a smod mp_val b"
      using fixz [OF q2_def d(3)] fixz [OF r2_def d(4)] by (simp_all add: q3_def r3_def)
    define q4 where "q4 = (case q of None \<Rightarrow> q3 | Some q0 \<Rightarrow> q0)"
    define r4 where "r4 = (case r of None \<Rightarrow> r3 | Some r0 \<Rightarrow> r0)"
    have w4: "mp_wf q4" "mp_wf r4" using q r q3 r3 by (auto simp: q4_def r4_def mp_ok_def split: option.split)
    have f: "fine 0 h (clear q4 (clear r4 h3))"
      using clear_fine [OF w4(1) clear_fine [OF w4(2) fine_trans [OF fine_trans [OF a1(2) b1(2)] d(2)]]] by simp
    have "mp_div a b q r h = Some (MP_OKAY, map_option (\<lambda>_. q3) q, map_option (\<lambda>_. r3) r, clear q4 (clear r4 h3))"
      unfolding mp_div_def Let_def
      unfolding a1(1) prod.case
      unfolding b1(1) prod.case
      unfolding d(1) option.map prod.case
      unfolding q2_def [symmetric] r2_def [symmetric]
      unfolding q3_def [symmetric] r3_def [symmetric]
      using z gt by (cases q; cases r) (simp_all add: q4_def r4_def)
    moreover have "out q (map_option (\<lambda>_. q3) q) (mp_val a sdiv mp_val b)" "out r (map_option (\<lambda>_. r3) r) (mp_val a smod mp_val b)"
      using q3 r3 by (simp_all add: out_def split: option.split)
    ultimately show ?thesis using f by blast
  qed
qed

lemma mod_of_smod: "0 < m \<Longrightarrow> (a :: int) mod m = (if a smod m < 0 then a smod m + m else a smod m)"
proof -
  assume m: "0 < m"
  have e: "a smod m = a mod m - m * of_bool (sgn a \<noteq> sgn m \<and> \<not> m dvd a)" by (rule signed_modulo_int_eq_modulo_int)
  have b: "0 \<le> a mod m" "a mod m < m" using m by simp_all
  show ?thesis
  proof (cases "sgn a \<noteq> sgn m \<and> \<not> m dvd a")
    case True
    then show ?thesis using e b by simp
  next
    case False
    then show ?thesis using e b by auto
  qed
qed

lemma mp_mod_fine:
  assumes h: "plenty h" and a: "mp_ok a" and m: "mp_ok m" and pos: "0 < mp_val m" and small: "used m \<le> 4096"
    and c: "mp_wf c" "ca \<Longrightarrow> c = a"
  obtains c' h' where "mp_mod ca a m c h = Some (MP_OKAY, c', h')" "fine 0 h h'" "mp_ok c'" "mp_val c' = mp_val a mod mp_val m"
proof -
  have s: "sign m \<noteq> NEG" using mp_val_ok(1) [OF m] pos by simp
  have wm: "mp_val m = int (mag m)" using s by (simp add: mp_val_def)
  have add: "gives 0 h' (if sign x = NEG then mp_add True False x m x h' else (MP_OKAY, x, h')) (\<lambda>y. mp_ok y \<and> mp_val y = (if mp_val x < 0 then mp_val x + mp_val m else mp_val x))"
    if "plenty h'" "mp_ok x" for x h'
  proof -
    have wx: "mp_wf x" using that by (simp add: mp_ok_def)
    show ?thesis using mp_add_gives [OF that m wx, of True False] that mp_val_ok(1) [OF that(2)] by (simp add: gives_ret)
  qed
  consider "mag m < mag a" | "mag a < mag m" | "mag a = mag m" by linarith
  then show thesis
  proof cases
    case 1
    then have gt: "0 < s_mp_cmp a m" using s_mp_cmp_simps(2) [OF a m] by simp
    have nz: "mp_val m \<noteq> 0" using pos by simp
    obtain q' r' h1 where d: "mp_div a m None (Some c) h = Some (MP_OKAY, q', r', h1)" "fine 0 h h1" "out (Some c) r' (mp_val a smod mp_val m)"
      using mp_div_fine [OF h a m nz small, of None "Some c"] c(1) by auto
    obtain x where x: "r' = Some x" "mp_ok x" "mp_val x = mp_val a smod mp_val m" using d(3) by (auto simp: out_def)
    obtain y h2 where y: "(if sign x = NEG then mp_add True False x m x h1 else (MP_OKAY, x, h1)) = (MP_OKAY, y, h2)" "fine 0 h1 h2"
      "mp_ok y \<and> mp_val y = (if mp_val x < 0 then mp_val x + mp_val m else mp_val x)"
      using add [OF fine_plenty [OF d(2)] x(2)] by (rule givesE)
    have "mp_mod ca a m c h = Some (MP_OKAY, y, h2)" using s gt d(1) x(1) y(1) by (simp add: mp_mod_def split: if_splits)
    then show thesis using that [of y h2] fine_trans [OF d(2) y(2)] y(3) mod_of_smod [OF pos, of "mp_val a"] x(3) by simp
  next
    case 2
    then have lt: "s_mp_cmp a m < 0" "\<not> 0 < s_mp_cmp a m" using s_mp_cmp_simps [OF a m] by simp_all
    have z: "mp_cmp_z a < 0 \<longleftrightarrow> sign a = NEG" using mp_cmp_z_val [OF a] mp_val_ok(1) [OF a] by (simp add: MP_LT_def MP_EQ_def MP_GT_def)
    have "gives 0 h (on_ok (copy_unless ca a c h) (\<lambda>c h. if mp_cmp_z a < 0 then mp_add True False c m c h else (MP_OKAY, c, h)))
      (\<lambda>y. mp_ok y \<and> mp_val y = (if mp_val a < 0 then mp_val a + mp_val m else mp_val a))"
    proof (rule gives_on_ok [OF copy_unless_gives [OF h a c]])
      fix x h'
      assume x: "plenty h'" "mp_ok x \<and> mp_val x = mp_val a \<and> sign x = sign a \<and> mag x = mag a"
      then have sx: "sign x = sign a" "mp_val x = mp_val a" "mp_ok x" by simp_all
      show "gives 0 h' (if mp_cmp_z a < 0 then mp_add True False x m x h' else (MP_OKAY, x, h'))
          (\<lambda>y. mp_ok y \<and> mp_val y = (if mp_val a < 0 then mp_val a + mp_val m else mp_val a))"
        using add [OF x(1) sx(3), unfolded sx(1,2)] unfolding z .
    qed
    then obtain y h2 where y: "on_ok (copy_unless ca a c h) (\<lambda>c h. if mp_cmp_z a < 0 then mp_add True False c m c h else (MP_OKAY, c, h)) = (MP_OKAY, y, h2)"
      "fine 0 h h2" "mp_ok y \<and> mp_val y = (if mp_val a < 0 then mp_val a + mp_val m else mp_val a)" by (rule givesE)
    have "\<bar>mp_val a\<bar> < mp_val m" using 2 wm mag_abs [of a] by simp
    then have "mp_val a mod mp_val m = (if mp_val a < 0 then mp_val a + mp_val m else mp_val a)"
      using mod_pos_pos_trivial [of "mp_val a + mp_val m" "mp_val m"] by (auto simp: mod_pos_pos_trivial)
    then show thesis using that [of y h2] y s lt by (simp add: mp_mod_def)
  next
    case 3
    then have "s_mp_cmp a m = 0" using s_mp_cmp_simps [OF a m] by simp
    moreover have "mp_val a mod mp_val m = 0" using 3 by (auto simp: mp_val_def)
    ultimately show thesis using that [of "mp_zero c" h] h s mp_zero_ok [OF c(1)] by (simp add: mp_mod_def)
  qed
qed

lemma mp_abs_gives:
  assumes "plenty h" "mp_ok a" "mp_wf b"
  shows "gives 0 h (mp_abs a b h) (\<lambda>x. mp_ok x \<and> mp_val x = \<bar>mp_val a\<bar>)"
  unfolding mp_abs_def by (rule gives_on_ok [OF mp_copy_gives [OF assms]]) (auto simp: gives_ret mp_ok_def mp_val_def)

lemma mp_neg_gives:
  assumes "plenty h" "mp_ok a" "mp_wf b"
  shows "gives 0 h (mp_neg a b h) (\<lambda>x. mp_ok x \<and> mp_val x = - mp_val a)"
  unfolding mp_neg_def
proof (rule gives_on_ok [OF mp_copy_gives [OF assms]])
  fix x h'
  assume "plenty h'" "mp_ok x \<and> mp_val x = mp_val a \<and> sign x = sign a \<and> mag x = mag a \<and> alloc b \<le> alloc x \<and> used x = used a"
  then show "gives 0 h' (MP_OKAY, x\<lparr>sign := (if s_mp_cmp_d x 0 = MP_EQ then ZPOS else flip_sign (sign x))\<rparr>, h')
      (\<lambda>x. mp_ok x \<and> mp_val x = - mp_val a)"
    using s_mp_cmp_d_zero [of x] by (cases "sign a") (auto simp: gives_ret mp_ok_def mp_val_def flip_sign_def)
qed

lemma mp_sqr_gives:
  assumes "plenty h" "mp_ok a" "mp_wf b"
  shows "gives 0 h (mp_sqr a b h) (\<lambda>x. mp_ok x \<and> mp_val x = mp_val a * mp_val a)"
  unfolding mp_sqr_def
proof (rule gives_on_ok)
  show "gives 0 h (on_ok (mp_copy a b h) s_mp_sqr) (\<lambda>x. mp_ok x \<and> mag x = mag a * mag a \<and> sign x = ZPOS)"
  proof (rule gives_on_ok [OF mp_copy_gives [OF assms]])
    fix x h'
    assume "plenty h'" "mp_ok x \<and> mp_val x = mp_val a \<and> sign x = sign a \<and> mag x = mag a \<and> alloc b \<le> alloc x \<and> used x = used a"
    then show "gives 0 h' (s_mp_sqr x h') (\<lambda>x. mp_ok x \<and> mag x = mag a * mag a \<and> sign x = ZPOS)" using s_mp_sqr_gives [of h' x] by simp
  qed
next
  fix x h'
  assume "plenty h'" "mp_ok x \<and> mag x = mag a * mag a \<and> sign x = ZPOS"
  then show "gives 0 h' (MP_OKAY, x\<lparr>sign := ZPOS\<rparr>, h') (\<lambda>x. mp_ok x \<and> mp_val x = mp_val a * mp_val a)"
    by (simp add: gives_ret mp_ok_def mp_val_def)
qed

lemma mp_mul_2_gives:
  assumes "plenty h" "mp_ok a" "mp_wf c"
  shows "gives 0 h (mp_mul_2 a c h) (\<lambda>x. mp_ok x \<and> mp_val x = 2 * mp_val a)"
  unfolding mp_mul_2_def
proof (rule gives_on_ok [OF mp_copy_gives [OF assms]])
  fix x h'
  assume x: "plenty h'" "mp_ok x \<and> mp_val x = mp_val a \<and> sign x = sign a \<and> mag x = mag a \<and> alloc c \<le> alloc x \<and> used x = used a"
  have ok: "mp_ok x" using x by simp
  obtain y h2 where "s_mp_mul_2 x h' = (MP_OKAY, y, h2)" "fine 0 h' h2" "mp_ok y" "mag y = 2 * mag x" "sign y = sign x"
    by (rule s_mp_mul_2_fine [OF x(1) ok], rule that, assumption) simp_all
  then show "gives 0 h' (s_mp_mul_2 x h') (\<lambda>x. mp_ok x \<and> mp_val x = 2 * mp_val a)" using x(2) by (auto simp: mp_val_def intro: givesI)
qed

lemma mp_mul_2d_gives:
  assumes "plenty h" "mp_ok a" "mp_wf c"
  shows "gives 0 h (mp_mul_2d a d c h) (\<lambda>x. mp_ok x \<and> mp_val x = mp_val a * 2 ^ unat d)"
  unfolding mp_mul_2d_def
proof (rule gives_on_ok [OF mp_copy_gives [OF assms]])
  fix x h'
  assume x: "plenty h'" "mp_ok x \<and> mp_val x = mp_val a \<and> sign x = sign a \<and> mag x = mag a \<and> alloc c \<le> alloc x \<and> used x = used a"
  have w: "mp_wf x" using x by (simp add: mp_ok_def)
  obtain y h2 where y: "s_mp_mul_2d x d h' = (MP_OKAY, y, h2)" "fine 0 h' h2" "mp_ok y" "mag y = mag x * 2 ^ unat d" "sign y = (if mag y = 0 then ZPOS else sign x)"
    by (rule s_mp_mul_2d_fine [OF x(1) w, of d], rule that, assumption) simp_all
  have "mp_val y = mp_val a * 2 ^ unat d" using y(4,5) x(2) by (auto simp: mp_val_def)
  then show "gives 0 h' (if d = 0 then (MP_OKAY, x, h') else s_mp_mul_2d x d h') (\<lambda>x. mp_ok x \<and> mp_val x = mp_val a * 2 ^ unat d)"
    using x y by (auto simp: gives_ret intro: givesI)
qed

lemma mp_div_2_gives:
  assumes "plenty h" "mp_ok a" "mp_wf c"
  shows "gives 0 h (mp_div_2 a c h) (\<lambda>x. mp_ok x \<and> mp_val x = mp_val a sdiv 2)"
  unfolding mp_div_2_def s_mp_div_2_def
proof (rule gives_on_ok [OF mp_copy_gives [OF assms]])
  fix x h'
  assume x: "plenty h'" "mp_ok x \<and> mp_val x = mp_val a \<and> sign x = sign a \<and> mag x = mag a \<and> alloc c \<le> alloc x \<and> used x = used a"
  have d: "mp_ok (s_mp_div_2d x 1)" "mag (s_mp_div_2d x 1) = mag a div 2" "sign (s_mp_div_2d x 1) = (if mag (s_mp_div_2d x 1) = 0 then ZPOS else sign a)"
    using s_mp_div_2d_fine [of x 1] x by simp_all
  have "mp_val (s_mp_div_2d x 1) = mp_val a sdiv 2"
    using d(2,3) by (auto simp: mp_val_def signed_divide_int_def zdiv_int sgn_if)
  then show "gives 0 h' (MP_OKAY, s_mp_div_2d x 1, h') (\<lambda>x. mp_ok x \<and> mp_val x = mp_val a sdiv 2)" using x d(1) by (simp add: gives_ret)
qed

section \<open>One digit\<close>

lemma replace_digit:
  assumes "mp_ok b" "mag b < unat d"
  shows "mp_wf (b\<lparr>dp := (dp b)[0 := d - dp b ! 0]\<rparr>) \<and> clamped (b\<lparr>dp := (dp b)[0 := d - dp b ! 0]\<rparr>)
    \<and> mag (b\<lparr>dp := (dp b)[0 := d - dp b ! 0]\<rparr>) = unat d - mag b \<and> used b = 1"
proof -
  have w: "mp_wf b" using assms(1) by (simp add: mp_ok_def)
  have u: "used b = 1"
  proof (rule ccontr)
    assume "used b \<noteq> 1"
    then have "65536 ^ (used b - 1) \<le> mag b" "1 \<le> used b - 1" using clamped_ge [OF assms(1)] mp_wfD(3) [OF w] by simp_all
    moreover have "(65536 :: nat) ^ 1 \<le> 65536 ^ (used b - 1)" using calculation(2) by (intro power_increasing) simp_all
    ultimately show False using assms(2) unat_u16_less [of d] unfolding power_one_right by linarith
  qed
  obtain x where x: "digits b = [x]" using mp_wfD(1) [OF w] u by (cases "digits b") auto
  have d: "dp b = x # replicate (alloc b - 1) 0" using mp_wf_dp [OF w] x u by simp
  have m: "mag b = unat x" by (simp add: mag_def x)
  have "x \<le> d" using assms(2) m by (simp add: word_le_nat_alt)
  then have s: "unat (d - x) = unat d - unat x" by (rule unat_sub)
  show ?thesis using u m s mp_wfD(4) [OF w] by (simp add: mp_wf_def clamped_def mag_def digits_def d Suc_le_eq)
qed

lemma gives_if: "(b \<Longrightarrow> gives k h x P) \<Longrightarrow> (\<not> b \<Longrightarrow> gives k h y P) \<Longrightarrow> gives k h (if b then x else y) P"
  by simp

text \<open>The three ways of adding a digit to a magnitude with a sign, or subtracting it.\<close>

lemma s_mp_add_d_gives: "plenty h \<Longrightarrow> mp_ok a \<Longrightarrow> gives 0 h (s_mp_add_d a d h) (\<lambda>x. mp_ok x \<and> mag x = mag a + unat d \<and> sign x = sign a)"
  by (rule s_mp_add_d_fine [of h a d]) (auto intro: givesI)

lemma s_mp_sub_d_gives:
  assumes "plenty h" "mp_ok a" "unat d \<le> mag a"
  shows "gives 0 h (let (res, b) = s_mp_sub_d a d in (res, b, h)) (\<lambda>x. mp_ok x \<and> mag x = mag a - unat d \<and> (mag x = 0 \<or> sign x = sign a))"
proof -
  obtain x where "s_mp_sub_d a d = (MP_OKAY, x)" "mp_ok x" "mag x = mag a - unat d" "sign x = sign a \<or> mag x = 0"
    by (rule s_mp_sub_d_fine [OF assms(2,3)], rule that, assumption) simp_all
  then show ?thesis using assms(1) by (intro givesI [of _ x h]) auto
qed

lemma cmp_d_cases: "mp_ok a \<Longrightarrow> 0 \<le> s_mp_cmp_d a d \<longleftrightarrow> unat d \<le> mag a"
  by (simp add: s_mp_cmp_d_val MP_LT_def MP_EQ_def MP_GT_def)

lemma replace_val:
  assumes "mp_ok b" "mag b < D" "D = unat d"
  shows "mp_ok (b\<lparr>dp := (dp b)[0 := d - dp b ! 0], sign := s\<rparr>)"
    "mp_val (b\<lparr>dp := (dp b)[0 := d - dp b ! 0], sign := s\<rparr>) = (if s = NEG then int (mag b) - int D else int D - int (mag b))"
proof -
  define c where "c = b\<lparr>dp := (dp b)[0 := d - dp b ! 0]\<rparr>"
  have c: "mp_wf c" "clamped c" "mag c = D - mag b" using replace_digit [OF assms(1) assms(2) [unfolded assms(3)]] by (simp_all add: c_def assms(3))
  have e: "b\<lparr>dp := (dp b)[0 := d - dp b ! 0], sign := s\<rparr> = c\<lparr>sign := s\<rparr>" by (simp add: c_def)
  show "mp_ok (b\<lparr>dp := (dp b)[0 := d - dp b ! 0], sign := s\<rparr>)" unfolding e using c assms(2) by (simp add: mp_ok_def)
  show "mp_val (b\<lparr>dp := (dp b)[0 := d - dp b ! 0], sign := s\<rparr>) = (if s = NEG then int (mag b) - int D else int D - int (mag b))"
    unfolding e using c assms(2) by (simp add: mp_val_def of_nat_diff)
qed

lemma mp_add_d_gives:
  assumes "plenty h" "mp_ok a" "mp_wf b"
  shows "gives 0 h (mp_add_d a d b h) (\<lambda>x. mp_ok x \<and> mp_val x = mp_val a + int (unat d))"
  unfolding mp_add_d_def
proof (rule gives_on_ok [OF mp_copy_gives [OF assms]], elim conjE)
  fix x h'
  assume x: "plenty h'" "mp_ok x" "mp_val x = mp_val a" "sign x = sign a" "mag x = mag a"
  define D where "D = unat d"
  have A: "gives 0 h' (s_mp_add_d x d h') (\<lambda>y. mp_ok y \<and> mp_val y = mp_val x + int D)" if "sign x = ZPOS"
    by (rule gives_mono [OF s_mp_add_d_gives [OF x(1,2)]]) (use that in \<open>auto simp: mp_val_def D_def\<close>)
  have B: "gives 0 h' (let (res, b) = s_mp_sub_d x d in (res, b, h')) (\<lambda>y. mp_ok y \<and> mp_val y = mp_val x + int D)" if "sign x = NEG" "D \<le> mag x"
    by (rule gives_mono [OF s_mp_sub_d_gives [OF x(1,2) that(2) [unfolded D_def]]])
      (use that in \<open>auto simp: mp_val_def of_nat_diff D_def [symmetric]\<close>)
  have C: "gives 0 h' (MP_OKAY, x\<lparr>sign := ZPOS, dp := (dp x)[0 := d - dp x ! 0]\<rparr>, h') (\<lambda>y. mp_ok y \<and> mp_val y = mp_val x + int D)"
    if "sign x = NEG" "mag x < D"
  proof -
    have e: "x\<lparr>sign := ZPOS, dp := (dp x)[0 := d - dp x ! 0]\<rparr> = x\<lparr>dp := (dp x)[0 := d - dp x ! 0], sign := ZPOS\<rparr>" by simp
    show ?thesis unfolding e gives_ret using replace_val [OF x(2) that(2) D_def, of ZPOS] that(1) x(1) by (simp add: mp_val_def [of x])
  qed
  show "gives 0 h' (if sign x = ZPOS then s_mp_add_d x d h' else if 0 \<le> s_mp_cmp_d x d then let (res, b) = s_mp_sub_d x d in (res, b, h')
      else (MP_OKAY, x\<lparr>sign := ZPOS, dp := (dp x)[0 := d - dp x ! 0]\<rparr>, h')) (\<lambda>x. mp_ok x \<and> mp_val x = mp_val a + int (unat d))"
    unfolding cmp_d_cases [OF x(2)] D_def [symmetric] x(3) [symmetric]
    by (intro gives_if A B C) (cases "sign x"; simp)+
qed

lemma mp_sub_d_gives:
  assumes "plenty h" "mp_ok a" "mp_wf b"
  shows "gives 0 h (mp_sub_d a d b h) (\<lambda>x. mp_ok x \<and> mp_val x = mp_val a - int (unat d))"
  unfolding mp_sub_d_def
proof (rule gives_on_ok [OF gives_on_ok [OF mp_copy_gives [OF assms]]], elim conjE)
  fix x h'
  assume x: "plenty h'" "mp_ok x" "mp_val x = mp_val a" "sign x = sign a" "mag x = mag a"
  define D where "D = unat d"
  have A: "gives 0 h' (s_mp_add_d x d h') (\<lambda>y. mp_ok y \<and> mp_val y = mp_val x - int D)" if "sign x = NEG"
    by (rule gives_mono [OF s_mp_add_d_gives [OF x(1,2)]]) (use that in \<open>auto simp: mp_val_def D_def\<close>)
  have B: "gives 0 h' (let (res, b) = s_mp_sub_d x d in (res, b, h')) (\<lambda>y. mp_ok y \<and> mp_val y = mp_val x - int D)" if "sign x = ZPOS" "D \<le> mag x"
    by (rule gives_mono [OF s_mp_sub_d_gives [OF x(1,2) that(2) [unfolded D_def]]])
      (use that in \<open>auto simp: mp_val_def of_nat_diff D_def [symmetric]\<close>)
  have C: "gives 0 h' (let (_, b, h) = mp_neg x x h' in (MP_OKAY, b\<lparr>dp := (dp b)[0 := d - dp b ! 0], sign := NEG\<rparr>, h))
      (\<lambda>y. mp_ok y \<and> mp_val y = mp_val x - int D)" if "sign x = ZPOS" "mag x < D"
  proof -
    have wx: "mp_wf x" using x(2) by (simp add: mp_ok_def)
    obtain y h2 where y: "mp_neg x x h' = (MP_OKAY, y, h2)" "fine 0 h' h2" "mp_ok y \<and> mp_val y = - mp_val x"
      using mp_neg_gives [OF x(1,2) wx] by (rule givesE)
    have "mag y = mag x" using y(3) mag_abs [of y] mag_abs [of x] by simp
    then show ?thesis using y(1,2) replace_val [of y D d NEG] y(3) that D_def by (intro givesI) (simp_all add: mp_val_def [of x])
  qed
  show "gives 0 h' (if sign x = NEG then s_mp_add_d x d h' else if 0 \<le> s_mp_cmp_d x d then let (res, b) = s_mp_sub_d x d in (res, b, h')
      else let (_, b, h) = mp_neg x x h' in (MP_OKAY, b\<lparr>dp := (dp b)[0 := d - dp b ! 0], sign := NEG\<rparr>, h)) (\<lambda>x. mp_ok x \<and> mp_val x = mp_val a - int (unat d))"
    unfolding cmp_d_cases [OF x(2)] D_def [symmetric] x(3) [symmetric]
    by (intro gives_if A B C) (cases "sign x"; simp)+
next
  fix x h'
  assume "plenty h'" "mp_ok x \<and> mp_val x = mp_val a - int (unat d)"
  then show "gives 0 h' (MP_OKAY, if s_mp_cmp_d x 0 = 0 then x\<lparr>sign := ZPOS\<rparr> else x, h') (\<lambda>x. mp_ok x \<and> mp_val x = mp_val a - int (unat d))"
    using s_mp_cmp_d_zero [of x] by (auto simp: gives_ret MP_EQ_def mp_ok_def mp_val_def)
qed

text \<open>There must be room for the carry: \<open>s_mp_mul_d\<close> does not always make it.\<close>

lemma mp_mul_d_gives:
  assumes "plenty h" "mp_ok a" "mp_wf b"
    and room: "mag a * unat d < 65536 ^ used a \<or> used a < alloc b"
  shows "gives 0 h (mp_mul_d a d b h) (\<lambda>x. mp_ok x \<and> mp_val x = mp_val a * int (unat d))"
proof (cases "d = 0")
  case True
  then show ?thesis using mp_zero_ok [OF assms(3)] assms(1) by (simp add: mp_mul_d_def gives_ret)
next
  case False
  have "gives 0 h (on_ok (mp_copy a b h) (\<lambda>b h. s_mp_mul_d b d h)) (\<lambda>x. mp_ok x \<and> mp_val x = mp_val a * int (unat d))"
  proof (rule gives_on_ok [OF mp_copy_gives [OF assms(1-3)]], elim conjE)
    fix x h'
    assume x: "plenty h'" "mp_ok x" "mp_val x = mp_val a" "sign x = sign a" "mag x = mag a" "alloc b \<le> alloc x" "used x = used a"
    have rm: "mag x * unat d < 65536 ^ used x \<or> used x < alloc x \<or> 65536 \<le> unat (last (digits x)) * unat d"
      using room unfolding x(5,7) using x(6) by auto
    obtain y h2 where y: "s_mp_mul_d x d h' = (MP_OKAY, y, h2)" "fine 0 h' h2" "mp_ok y" "mag y = mag x * unat d" "sign y = (if mag y = 0 then ZPOS else sign x)"
      by (rule s_mp_mul_d_fine [OF x(1,2) rm], rule that, assumption) simp_all
    define D where "D = unat d"
    have "mp_val y = mp_val x * int D" using y(4,5) unfolding D_def [symmetric] by (auto simp: mp_val_def)
    then show "gives 0 h' (s_mp_mul_d x d h') (\<lambda>x. mp_ok x \<and> mp_val x = mp_val a * int (unat d))" using y x(3) by (intro givesI) (simp_all add: D_def)
  qed
  then show ?thesis using False by (simp add: mp_mul_d_def)
qed

lemma pow2d_loop_val: "d \<noteq> 0 \<Longrightarrow> \<exists>d' n. pow2d_loop d pow = Some (d', pow + int n) \<and> unat d = unat d' * 2 ^ n \<and> n < 16"
proof (induction "unat d" arbitrary: d pow rule: less_induct)
  case less
  show ?case
  proof (cases "d AND 1 = 0")
    case True
    have "d AND 1 = d mod 2" by (rule and_one_eq)
    then have "unat d mod 2 = 0" using True unat_mod_distrib [of d 2] by simp
    moreover have h: "unat (drop_bit 1 d) = unat d div 2" using unat_drop_bit_u16 [of 1 d] by simp
    ultimately have u: "unat d = unat (drop_bit 1 d) * 2" using div_mult_mod_eq [of "unat d" 2] by linarith
    have p: "0 < unat d" using less.prems by (simp add: unat_gt_0)
    then have lt: "unat (drop_bit 1 d) < unat d" "0 < unat (drop_bit 1 d)" using u by simp_all
    have nz: "drop_bit 1 d \<noteq> 0" using lt(2) by (metis less_irrefl unat_0)
    obtain d' n where d': "pow2d_loop (drop_bit 1 d) (pow + 1) = Some (d', pow + 1 + int n)" "unat (drop_bit 1 d) = unat d' * 2 ^ n" "n < 16"
      using less.hyps [OF lt(1) nz, of "pow + 1"] by blast
    have e: "unat d = unat d' * 2 ^ Suc n" using u d'(2) by simp
    moreover have "Suc n < 16"
    proof (rule ccontr)
      assume "\<not> Suc n < 16"
      then have "(2 :: nat) ^ 16 \<le> 2 ^ Suc n" by (intro power_increasing) simp_all
      moreover have "1 \<le> unat d'" using e p by (cases "unat d'") simp_all
      then have "1 * 2 ^ Suc n \<le> unat d' * 2 ^ Suc n" by (rule mult_le_mono1)
      moreover have "(2 :: nat) ^ 16 = 65536" by simp
      ultimately show False using unat_u16_less [of d] unfolding e by linarith
    qed
    moreover have "pow2d_loop d pow = Some (d', pow + int (Suc n))" using True d'(1) by (subst pow2d_loop.simps) simp
    ultimately show ?thesis by blast
  next
    case False
    then have "pow2d_loop d pow = Some (d, pow + int 0)" by (subst pow2d_loop.simps) simp
    then show ?thesis by (intro exI [of _ d] exI [of _ 0]) simp
  qed
qed

lemma s_mp_ispow2d_val:
  assumes "d \<noteq> 0"
  obtains "s_mp_ispow2d d = Some (- 1)" | n where "s_mp_ispow2d d = Some (int n)" "n < 16" "unat d = 2 ^ n"
proof -
  obtain d' n where d: "pow2d_loop d 0 = Some (d', int n)" "unat d = unat d' * 2 ^ n" "n < 16" using pow2d_loop_val [OF assms, of 0] by auto
  show thesis
  proof (cases "d' = 1")
    case True
    then show thesis using that(2) [of n] d by (simp add: s_mp_ispow2d_def)
  next
    case False
    then show thesis using that(1) d by (simp add: s_mp_ispow2d_def)
  qed
qed

lemma mag_mod_digit: "mp_wf a \<Longrightarrow> n < 16 \<Longrightarrow> mag a mod 2 ^ n = unat (dp a ! 0) mod 2 ^ n"
proof -
  assume w: "mp_wf a" and n: "n < 16"
  have "mag a = unat (dp a ! 0) + 65536 * bval (tl (digits a))" using digits_hd [OF w] by (metis bval.simps(2) mag_def)
  moreover have "(65536 :: nat) = 2 ^ n * 2 ^ (16 - n)" using n by (simp flip: power_add)
  then have "65536 * bval (tl (digits a)) = 2 ^ n * (2 ^ (16 - n) * bval (tl (digits a)))" by (simp only: mult.assoc)
  ultimately show ?thesis by (simp only: mod_mult_self2)
qed

lemma sdiv_mag: "mp_ok a \<Longrightarrow> 0 < n \<Longrightarrow> mp_val a sdiv int n = (if sign a = NEG then - int (mag a div n) else int (mag a div n))"
  by (auto simp: mp_val_def mp_ok_def signed_divide_int_def sgn_if zdiv_int)

text \<open>The quotient keeps the sign only for a power of two; the remainder is that of the magnitude.\<close>

lemma mp_div_d_fine:
  assumes h: "plenty h" and a: "mp_ok a" and d: "d \<noteq> 0" and q: "\<And>x. q = Some x \<Longrightarrow> mp_wf x"
  shows "\<exists>q' r h'. mp_div_d a d q h = Some (MP_OKAY, q', r, h') \<and> fine 0 h h' \<and> unat r = mag a mod unat d
    \<and> out q q' (if s_mp_ispow2d d = Some (- 1) then int (mag a div unat d) else mp_val a sdiv int (unat d))"
  using d
proof (cases rule: s_mp_ispow2d_val)
  case 1
  have wa: "mp_wf a" using a by (simp add: mp_ok_def)
  have div: "\<exists>y r h2. s_mp_div_d x d h1 = (MP_OKAY, y, r, h2) \<and> fine 0 h1 h2 \<and> mp_ok y \<and> mp_val y = int (mag a div unat d) \<and> unat r = mag a mod unat d
      \<and> (if s_mp_cmp_d y 0 = MP_EQ then y\<lparr>sign := ZPOS\<rparr> else y) = y"
    if x: "plenty h1" "mp_ok x" "mag x = mag a" for x h1
  proof -
    obtain y r h2 where y: "s_mp_div_d x d h1 = (MP_OKAY, y, r, h2)" "fine 0 h1 h2" "mp_ok y" "mag y = mag x div unat d" "unat r = mag x mod unat d" "sign y = ZPOS"
      by (rule s_mp_div_d_fine [OF x(1,2) d], rule that, assumption) simp_all
    then show ?thesis using x(3) by (intro exI [of _ y] exI [of _ r] exI [of _ h2]) (auto simp: mp_val_def)
  qed
  show ?thesis
  proof (cases q)
    case None
    obtain x h1 where x: "mp_init_copy a h = (MP_OKAY, x, h1)" "fine 1 h h1" "mp_ok x" "mag x = mag a"
      by (rule mp_init_copy_fine [OF h wa], rule that, assumption) (simp_all add: a)
    obtain y r h2 where y: "s_mp_div_d x d h1 = (MP_OKAY, y, r, h2)" "fine 0 h1 h2" "mp_ok y" "unat r = mag a mod unat d"
      using div [OF fine_plenty [OF x(2)] x(3,4)] by blast
    have wy: "mp_wf y" using y(3) by (simp add: mp_ok_def)
    have "fine 0 h (clear y h2)" using clear_fine [OF wy fine_trans [OF x(2) y(2)]] by simp
    then show ?thesis using None 1 d x(1) y(1,4) by (simp add: mp_div_d_def out_def)
  next
    case (Some q0)
    obtain x h1 where x: "mp_copy a q0 h = (MP_OKAY, x, h1)" "fine 0 h h1" "mp_ok x \<and> mp_val x = mp_val a \<and> sign x = sign a \<and> mag x = mag a \<and> alloc q0 \<le> alloc x \<and> used x = used a"
      using mp_copy_gives [OF h a q [OF Some]] by (rule givesE)
    obtain y r h2 where y: "s_mp_div_d x d h1 = (MP_OKAY, y, r, h2)" "fine 0 h1 h2" "mp_ok y" "mp_val y = int (mag a div unat d)" "unat r = mag a mod unat d"
      "(if s_mp_cmp_d y 0 = MP_EQ then y\<lparr>sign := ZPOS\<rparr> else y) = y"
      using div [OF fine_plenty [OF x(2)], of x] x(3) by blast
    have "mp_div_d a d q h = Some (MP_OKAY, Some y, r, h2)"
      unfolding mp_div_d_def using Some 1 d x(1) y(1,6) by (simp only: if_False option.map option.case Let_def prod.case simp_thms) simp
    then show ?thesis using 1 Some fine_trans [OF x(2) y(2)] y(3-5) by (simp add: out_def)
  qed
next
  case (2 n)
  have wa: "mp_wf a" using a by (simp add: mp_ok_def)
  define r where "r = dp a ! 0 AND bit_mask n"
  have r: "unat r = mag a mod unat d" using unat_bit_mask [OF 2(2), of "dp a ! 0"] mag_mod_digit [OF wa 2(2)] 2(3) by (simp add: r_def)
  define k where "k = (of_int (int n) :: u16)"
  have k: "unat k = n" using pow2_index [of "int n"] 2(2) by (simp add: k_def)
  show ?thesis
  proof (cases q)
    case None
    then show ?thesis using 2 d h r by (simp add: mp_div_d_def out_def r_def)
  next
    case (Some q0)
    obtain x h1 where x: "mp_copy a q0 h = (MP_OKAY, x, h1)" "fine 0 h h1" "mp_ok x \<and> mp_val x = mp_val a \<and> sign x = sign a \<and> mag x = mag a \<and> alloc q0 \<le> alloc x \<and> used x = used a"
      using mp_copy_gives [OF h a q [OF Some]] by (rule givesE)
    have y: "mp_ok (s_mp_div_2d x k)" "mag (s_mp_div_2d x k) = mag a div unat d" "sign (s_mp_div_2d x k) = (if mag (s_mp_div_2d x k) = 0 then ZPOS else sign a)"
      using s_mp_div_2d_fine [of x k] x(3) k 2(3) by simp_all
    have "mp_val (s_mp_div_2d x k) = mp_val a sdiv int (unat d)"
      using y(2,3) d unfolding sdiv_mag [OF a, of "unat d", unfolded unat_gt_0, OF d] by (auto simp: mp_val_def [of "s_mp_div_2d x k"])
    moreover have "mp_div_d a d q h = Some (MP_OKAY, Some (s_mp_div_2d x k), r, h1)"
      using Some 2 d x(1) by (simp add: mp_div_d_def r_def k_def)
    ultimately show ?thesis using 2(1) Some x(2) y(1) r by (simp add: out_def)
  qed
qed

text \<open>The result is the remainder of the magnitude above \<open>d\<close>, and it is not reduced at \<open>d\<close> itself.\<close>

lemma mp_mod_d_fine:
  assumes h: "plenty h" and a: "mp_ok a" and d: "d \<noteq> 0"
  shows "\<exists>r h'. mp_mod_d a d h = Some (MP_OKAY, r, h') \<and> fine 0 h h'
    \<and> unat r = (if unat d < mag a then mag a mod unat d else if sign a = NEG then unat d - mag a else mag a)"
proof (cases "unat d < mag a")
  case True
  then have c: "0 < s_mp_cmp_d a d" using s_mp_cmp_d_val [OF a, of d] by (simp add: MP_GT_def)
  obtain q' r h' where "mp_div_d a d None h = Some (MP_OKAY, q', r, h')" "fine 0 h h'" "unat r = mag a mod unat d"
    using mp_div_d_fine [OF h a d, of None] by auto
  then show ?thesis using c True by (simp add: mp_mod_d_def)
next
  case False
  then have c: "\<not> 0 < s_mp_cmp_d a d" using s_mp_cmp_d_val [OF a, of d] by (simp add: MP_LT_def MP_EQ_def)
  have w: "mp_wf a" using a by (simp add: mp_ok_def)
  have u: "used a = 1"
  proof (rule ccontr)
    assume "used a \<noteq> 1"
    then have "65536 ^ (used a - 1) \<le> mag a" "1 \<le> used a - 1" using clamped_ge [OF a] mp_wfD(3) [OF w] by simp_all
    moreover have "(65536 :: nat) ^ 1 \<le> 65536 ^ (used a - 1)" using calculation(2) by (intro power_increasing) simp_all
    ultimately show False using False unat_u16_less [of d] unfolding power_one_right by linarith
  qed
  have m: "unat (dp a ! 0) = mag a" using top_digit [OF w] u by simp
  have "dp a ! 0 \<le> d" using False m by (simp add: word_le_nat_alt)
  then have "unat (d - dp a ! 0) = unat d - mag a" using m by (simp add: unat_sub)
  then show ?thesis using c False m h by (simp add: mp_mod_d_def)
qed

lemma unat_byte: "unat (ucast (drop_bit n v AND 0xFF :: u32) :: u16) = unat v div 2 ^ n mod 256"
proof -
  have "drop_bit n v AND 0xFF = take_bit 8 (drop_bit n v)" by (simp add: take_bit_eq_mask mask_eq_exp_minus_1)
  then have "unat (drop_bit n v AND 0xFF) = unat v div 2 ^ n mod 256"
    by (simp only: unsigned_take_bit_eq unat_drop_bit_u32) (simp add: take_bit_eq_mod)
  then show ?thesis by (simp add: unsigned_ucast_eq take_bit_eq_mod mod_mod_cancel)
qed

lemma set_bytes_gives:
  "plenty h \<Longrightarrow> mp_ok a \<Longrightarrow> sign a = ZPOS \<Longrightarrow>
     gives 0 h (set_bytes n v a h) (\<lambda>x. mp_ok x \<and> mag x = mag a * 256 ^ n + unat v mod 256 ^ n \<and> sign x = ZPOS)"
proof (induction n arbitrary: a h)
  case (Suc n)
  have w: "mp_wf a" using Suc.prems(2) by (simp add: mp_ok_def)
  obtain b h1 where b: "s_mp_mul_2d a 8 h = (MP_OKAY, b, h1)" "fine 0 h h1" "mp_ok b" "mag b = mag a * 2 ^ unat (8 :: u16)" "sign b = (if mag b = 0 then ZPOS else sign a)"
    by (rule s_mp_mul_2d_fine [OF Suc.prems(1) w, of 8], rule that, assumption) simp_all
  define x where "x = (ucast (drop_bit (n * 8) v AND 0xFF :: u32) :: u16)"
  obtain c h2 where c: "s_mp_add_d b x h1 = (MP_OKAY, c, h2)" "fine 0 h1 h2" "mp_ok c \<and> mag c = mag b + unat x \<and> sign c = sign b"
    using s_mp_add_d_gives [OF fine_plenty [OF b(2)] b(3)] by (rule givesE)
  have x: "unat x = unat v div 256 ^ n mod 256" unfolding x_def unat_byte by (simp add: power_mult mult.commute [of n])
  have mc: "mag c = mag a * 256 + unat v div 256 ^ n mod 256" using c(3) b(4) x by simp
  have sc: "sign c = ZPOS" using c(3) b(5) Suc.prems(3) by simp
  obtain y h3 where y: "set_bytes n v c h2 = (MP_OKAY, y, h3)" "fine 0 h2 h3" "mp_ok y \<and> mag y = mag c * 256 ^ n + unat v mod 256 ^ n \<and> sign y = ZPOS"
    using Suc.IH [OF fine_plenty [OF c(2)] _ sc] c(3) by (auto elim: givesE)
  have "unat v mod 256 ^ Suc n = 256 ^ n * (unat v div 256 ^ n mod 256) + unat v mod 256 ^ n"
    using mod_mult2_eq [of "unat v" "256 ^ n" 256] by (simp add: mult.commute)
  then have "mag y = mag a * 256 ^ Suc n + unat v mod 256 ^ Suc n" using y(3) mc by (simp add: algebra_simps)
  then show ?case using b(1) c(1) y fine_trans [OF fine_trans [OF b(2) c(2)] y(2)]
    by (intro givesI [of _ y h3]) (simp_all flip: x_def)
qed (auto simp: gives_ret)

lemma sint_cases: "sint (z :: u32) = (if sint z < 0 then - int (unat (- z)) else int (unat z))"
proof -
  have e: "uint z = sint z mod 4294967296" using uint_sint [of z] by (simp add: take_bit_eq_mod)
  have lo: "- 2147483648 \<le> sint z" "sint z < 2147483648" using sint_greater_eq [of z] sint_less [of z] by simp_all
  show ?thesis
  proof (cases "sint z < 0")
    case True
    have "(sint z + 4294967296) mod 4294967296 = sint z + 4294967296" using True lo by (intro mod_pos_pos_trivial) simp_all
    then have u: "uint z = sint z + 4294967296" using e by simp
    have "uint (- z) = (- uint z) mod 4294967296" by (simp add: uint_word_ariths)
    also have "- uint z = - sint z + (- 1) * 4294967296" using u by simp
    also have "(- sint z + (- 1) * 4294967296) mod 4294967296 = - sint z mod 4294967296" by (rule mod_mult_self1)
    also have "- sint z mod 4294967296 = - sint z" using True lo by (intro mod_pos_pos_trivial) simp_all
    finally have "int (unat (- z)) = - sint z" by simp
    then show ?thesis using True by simp
  next
    case False
    then show ?thesis using e lo by simp
  qed
qed

lemma mp_set_int_gives:
  assumes "plenty h" "mp_wf a"
  shows "gives 0 h (mp_set_int a z h) (\<lambda>x. mp_ok x \<and> mp_val x = sint z)"
proof (cases "z = 0")
  case True
  then show ?thesis using mp_zero_ok [OF assms(2)] assms(1) by (simp add: mp_set_int_def gives_ret)
next
  case False
  define v where "v = (if sint z < 0 then - z else z)"
  have z: "mp_ok (mp_zero a)" "sign (mp_zero a) = ZPOS" "mag (mp_zero a) = 0" using mp_zero_ok [OF assms(2)] by simp_all
  have v0: "0 < unat v" using False by (simp add: v_def unat_gt_0)
  have vs: "sint z = (if sint z < 0 then - int (unat v) else int (unat v))" using sint_cases [of z] unfolding v_def by (cases "sint z < 0") (simp_all only: if_True if_False)
  have "gives 0 h (on_ok (set_bytes 4 v (mp_zero a) h) (\<lambda>a h. (MP_OKAY, if sint z < 0 then a\<lparr>sign := NEG\<rparr> else a, h))) (\<lambda>x. mp_ok x \<and> mp_val x = sint z)"
  proof (rule gives_on_ok [OF set_bytes_gives [OF assms(1) z(1,2)]], elim conjE)
    fix x h'
    assume x: "plenty h'" "mp_ok x" "mag x = mag (mp_zero a) * 256 ^ 4 + unat v mod 256 ^ 4" "sign x = ZPOS"
    have "mag x = unat v" using x(3) z(3) unat_u32_less [of v] by simp
    then show "gives 0 h' (MP_OKAY, if sint z < 0 then x\<lparr>sign := NEG\<rparr> else x, h') (\<lambda>x. mp_ok x \<and> mp_val x = sint z)"
      using x(1,2,4) v0 by (subst vs) (simp add: gives_ret mp_ok_def mp_val_def)
  qed
  then show ?thesis using False by (simp add: mp_set_int_def Let_def v_def)
qed

lemma mp_cmp_int_fine:
  assumes "plenty h" "mp_ok a"
  obtains h' where "mp_cmp_int a z h = (if mp_val a < sint z then MP_LT else if mp_val a = sint z then MP_EQ else MP_GT, h')" "fine 0 h h'"
proof -
  obtain t h1 where t: "mp_init h = (MP_OKAY, t, h1)" "fine 1 h h1" "mp_wf t"
    by (rule mp_init_fine [OF assms(1)], rule that, assumption) simp_all
  obtain x h2 where x: "mp_set_int t z h1 = (MP_OKAY, x, h2)" "fine 0 h1 h2" "mp_ok x \<and> mp_val x = sint z"
    using mp_set_int_gives [OF fine_plenty [OF t(2)] t(3)] by (rule givesE)
  have w: "mp_wf x" using x(3) by (simp add: mp_ok_def)
  have f: "fine 0 h (clear x h2)" using clear_fine [OF w fine_trans [OF t(2) x(2)]] by simp
  have "mp_cmp_int a z h = (mp_cmp a x, clear x h2)" using t(1) x(1) by (simp add: mp_cmp_int_def)
  then show thesis using that [OF _ f] mp_cmp_val [OF assms(2), of x] x(3) by simp
qed

end
