(* ===== verification/Mpi_Power.thy ===== *)
theory Mpi_Power
  imports Mpi_Signed
begin

text \<open>Powers and square roots of \<open>mpi.c\<close>.\<close>

section \<open>The algorithms\<close>

text \<open>The body of the loops over the bits of the exponent: \<open>s\<close> is multiplied if the bit is set, and \<open>x\<close> is squared.\<close>

definition expt_step :: "u16 \<Rightarrow> mp_int \<times> mp_int \<Rightarrow> mp_mem \<Rightarrow> mp_err \<times> (mp_int \<times> mp_int) \<times> mp_mem" where
  "expt_step d sx h =
     (let (s, x) = sx
      in on_ok (if d AND 1 \<noteq> 0 then let (res, s, h) = s_mp_mul s x h in (res, (s, x), h) else (MP_OKAY, (s, x), h))
           (\<lambda>(s, x) h. let (res, x, h) = s_mp_sqr x h in (res, (s, x), h)))"

fun expt_bits :: "nat \<Rightarrow> u16 \<Rightarrow> mp_int \<times> mp_int \<Rightarrow> mp_mem \<Rightarrow> mp_err \<times> (mp_int \<times> mp_int) \<times> mp_mem" where
  "expt_bits 0 d sx h = (MP_OKAY, sx, h)"
| "expt_bits (Suc n) d sx h = on_ok (expt_step d sx h) (\<lambda>sx h. expt_bits n (drop_bit 1 d) sx h)"

lemma unat_half: "d \<noteq> 0 \<Longrightarrow> unat (drop_bit 1 d :: u16) < unat d"
proof -
  assume "d \<noteq> 0"
  then have "0 < unat d" by (simp add: unat_gt_0)
  then show ?thesis unfolding unat_drop_bit_u16 by simp
qed

text \<open>\<open>while(d)\<close>\<close>

function expt_last :: "u16 \<Rightarrow> mp_int \<times> mp_int \<Rightarrow> mp_mem \<Rightarrow> mp_err \<times> (mp_int \<times> mp_int) \<times> mp_mem" where
  "expt_last d sx h = (if d \<noteq> 0 then on_ok (expt_step d sx h) (\<lambda>sx h. expt_last (drop_bit 1 d) sx h) else (MP_OKAY, sx, h))"
  by pat_completeness auto
termination
  by (relation "measure (\<lambda>(d, sx, h). unat d)", rule wf_measure, simp only: in_measure prod.case, rule unat_half)

declare expt_last.simps [simp del]

fun expt_digits :: "u16 list \<Rightarrow> mp_int \<times> mp_int \<Rightarrow> mp_mem \<Rightarrow> mp_err \<times> (mp_int \<times> mp_int) \<times> mp_mem" where
  "expt_digits [] sx h = (MP_OKAY, sx, h)"
| "expt_digits [d] sx h = expt_last d sx h"
| "expt_digits (d # ds) sx h = on_ok (expt_bits 16 d sx h) (\<lambda>sx h. expt_digits ds sx h)"

definition mp_expt_d :: "mp_int \<Rightarrow> u16 \<Rightarrow> mp_int \<Rightarrow> mp_mem \<Rightarrow> mp_err \<times> mp_int \<times> mp_mem" where
  "mp_expt_d a d c h =
     (let (res, s, h) = mp_init h
      in if res \<noteq> MP_OKAY then (res, c, h)
         else let (res, x, h) = mp_init_copy a h
         in if res \<noteq> MP_OKAY then (res, c, clear s h)
         else let s = s\<lparr>dp := (dp s)[0 := 1]\<rparr>;
                  cs = (if d mod 2 = 1 then sign a else ZPOS);
                  (res, (s, x), h) = expt_last d (s, x) h
              in if res \<noteq> MP_OKAY then (res, c, clear s (clear x h))
                 else let (c, s) = s_mp_exch c (s\<lparr>sign := cs\<rparr>) in (MP_OKAY, c, clear s (clear x h)))"

definition mp_expt :: "mp_int \<Rightarrow> mp_int \<Rightarrow> mp_int \<Rightarrow> mp_mem \<Rightarrow> mp_err \<times> mp_int \<times> mp_mem" where
  "mp_expt a b c h =
     (if mp_cmp_z b < 0 then (MP_RANGE, c, h)
      else let (res, s, h) = mp_init h
      in if res \<noteq> MP_OKAY then (res, c, h)
         else let s = mp_set s 1; (res, x, h) = mp_init_copy a h
         in if res \<noteq> MP_OKAY then (res, c, clear s h)
         else let (res, (s, x), h) = expt_digits (digits b) (s, x) h
              in if res \<noteq> MP_OKAY then (res, c, clear s (clear x h))
                 else let s = (if mp_iseven b then s\<lparr>sign := sign a\<rparr> else s); (res, c, h) = mp_copy s c h
                      in (res, c, clear s (clear x h)))"

text \<open>Newton's iteration; the results of some of the calls are not looked at.\<close>

partial_function (option) sqrt_loop :: "mp_int \<Rightarrow> mp_int \<Rightarrow> mp_int \<Rightarrow> mp_mem \<Rightarrow> (mp_err \<times> mp_int \<times> mp_int \<times> mp_mem) option" where
  "sqrt_loop a x t h =
     (let (_, t, h) = mp_copy x t h; (res, t, h) = on_ok (mp_sqr t t h) (\<lambda>t h. mp_sub True False t a t h)
      in if res \<noteq> MP_OKAY then Some (res, x, t, h)
         else let (_, x, h) = s_mp_mul_2 x h
              in Option.bind (mp_div t x (Some t) None h) (\<lambda>(res, t', _, h).
                   let t = the t'
                   in if res \<noteq> MP_OKAY then Some (res, x, t, h)
                      else let x = s_mp_div_2 x
                           in if mp_cmp_z t = MP_EQ then Some (MP_OKAY, x, t, h)
                              else let (res, x, h) = mp_sub True False x t x h
                                   in if res \<noteq> MP_OKAY then Some (res, x, t, h) else sqrt_loop a x t h))"

declare sqrt_loop.simps [code]

definition mp_sqrt :: "mp_int \<Rightarrow> mp_int \<Rightarrow> mp_mem \<Rightarrow> (mp_err \<times> mp_int \<times> mp_mem) option" where
  "mp_sqrt a b h =
     (if sign a = NEG then Some (MP_RANGE, b, h)
      else if mp_cmp_d a 0 = MP_EQ \<or> mp_cmp_d a 1 = MP_EQ then Some (mp_copy a b h)
      else let (res, t, h) = mp_init_size (used a) h
      in if res \<noteq> MP_OKAY then Some (res, b, h)
      else let (res, x, h) = mp_init_copy a h
      in if res \<noteq> MP_OKAY then Some (res, b, clear t h)
      else map_option (\<lambda>(res, x, t, h).
        if res \<noteq> MP_OKAY then (res, b, clear t (clear x h))
        else let (_, x, h) = mp_sub_d x 1 x h; (b, x) = s_mp_exch b x in (MP_OKAY, b, clear t (clear x h)))
       (sqrt_loop a x t h))"

section \<open>What they compute\<close>

lemma expt_step_gives:
  assumes "plenty h" "mp_ok s" "mp_ok x"
  shows "gives 0 h (expt_step d (s, x) h) (\<lambda>(s', x'). mp_ok s' \<and> mp_ok x' \<and> mag s' = mag s * mag x ^ (unat d mod 2) \<and> mag x' = mag x ^ 2
    \<and> (sign s = ZPOS \<longrightarrow> sign s' = ZPOS))"
proof -
  have odd: "d AND 1 \<noteq> 0 \<longleftrightarrow> unat d mod 2 = 1"
  proof -
    have "d AND 1 = d mod 2" by (rule and_one_eq)
    then have "unat (d AND 1) = unat d mod 2" by (simp add: unat_mod_distrib)
    then show ?thesis by (metis mod2_eq_if unat_eq_0 zero_neq_one)
  qed
  have "gives 0 h (if d AND 1 \<noteq> 0 then let (res, s, h) = s_mp_mul s x h in (res, (s, x), h) else (MP_OKAY, (s, x), h))
    (\<lambda>(s', x'). x' = x \<and> mp_ok s' \<and> mag s' = mag s * mag x ^ (unat d mod 2) \<and> (sign s = ZPOS \<longrightarrow> sign s' = ZPOS))"
  proof (cases "d AND 1 \<noteq> 0")
    case True
    obtain s' h' where "s_mp_mul s x h = (MP_OKAY, s', h')" "fine 0 h h'" "mp_ok s' \<and> mag s' = mag s * mag x \<and> sign s' = ZPOS"
      using s_mp_mul_gives [OF assms] by (rule givesE)
    then show ?thesis using True odd by (intro givesI [of _ "(s', x)" h']) simp_all
  next
    case False
    then have "unat d mod 2 = 0" using odd by simp
    then show ?thesis using False assms by (simp add: gives_ret)
  qed
  then show ?thesis unfolding expt_step_def Let_def prod.case
  proof (rule gives_on_ok, clarify)
    fix s' h'
    assume s: "plenty h'" "mp_ok s'" "mag s' = mag s * mag x ^ (unat d mod 2)" "sign s = ZPOS \<longrightarrow> sign s' = ZPOS"
    obtain x' h2 where "s_mp_sqr x h' = (MP_OKAY, x', h2)" "fine 0 h' h2" "mp_ok x' \<and> mag x' = mag x * mag x \<and> sign x' = ZPOS"
      using s_mp_sqr_gives [OF s(1) assms(3)] by (rule givesE)
    then show "gives 0 h' (case s_mp_sqr x h' of (res, x, h) \<Rightarrow> (res, (s', x), h))
        (\<lambda>(s', x'). mp_ok s' \<and> mp_ok x' \<and> mag s' = mag s * mag x ^ (unat d mod 2) \<and> mag x' = mag x ^ 2 \<and> (sign s = ZPOS \<longrightarrow> sign s' = ZPOS))"
      using s by (intro givesI [of _ "(s', x')" h2]) (simp_all add: power2_eq_square)
  qed
qed

lemma power_halves: "(x :: nat) ^ (n mod 2) * (x ^ 2) ^ (n div 2) = x ^ n"
  by (metis power_add power_mult mod_mult_div_eq)

lemma expt_bits_gives:
  "plenty h \<Longrightarrow> mp_ok s \<Longrightarrow> mp_ok x \<Longrightarrow> sign s = ZPOS \<Longrightarrow>
     gives 0 h (expt_bits n d (s, x) h) (\<lambda>(s', x'). mp_ok s' \<and> mp_ok x' \<and> mag s' = mag s * mag x ^ (unat d mod 2 ^ n) \<and> mag x' = mag x ^ 2 ^ n \<and> sign s' = ZPOS)"
proof (induction n arbitrary: d s x h)
  case (Suc n)
  show ?case unfolding expt_bits.simps
  proof (rule gives_on_ok [OF expt_step_gives [OF Suc.prems(1-3)]], clarify)
    fix s' x' h'
    assume s: "plenty h'" "mp_ok s'" "mp_ok x'" "mag s' = mag s * mag x ^ (unat d mod 2)" "mag x' = mag x ^ 2" "sign s = ZPOS \<longrightarrow> sign s' = ZPOS"
    have e: "unat d mod 2 + 2 * (unat d div 2 mod 2 ^ n) = unat d mod 2 ^ Suc n"
      using mod_mult2_eq [of "unat d" 2 "2 ^ n"] by (simp add: add.commute)
    have h2: "unat (drop_bit 1 d) = unat d div 2" using unat_drop_bit_u16 [of 1 d] by simp
    have "mag s' * mag x' ^ (unat (drop_bit 1 d) mod 2 ^ n) = mag s * mag x ^ (unat d mod 2 ^ Suc n)"
      unfolding s(4,5) h2 e [symmetric] by (simp add: power_add power_mult)
    moreover have "mag x' ^ 2 ^ n = mag x ^ 2 ^ Suc n" unfolding s(5) by (simp add: power_mult)
    ultimately show "gives 0 h' (expt_bits n (drop_bit 1 d) (s', x') h')
        (\<lambda>(sa, xa). mp_ok sa \<and> mp_ok xa \<and> mag sa = mag s * mag x ^ (unat d mod 2 ^ Suc n) \<and> mag xa = mag x ^ 2 ^ Suc n \<and> sign sa = ZPOS)"
      using Suc.IH [OF s(1-3), of "drop_bit 1 d"] s(6) Suc.prems(4) by simp
  qed
qed (simp add: gives_ret)

lemma expt_last_gives:
  "plenty h \<Longrightarrow> mp_ok s \<Longrightarrow> mp_ok x \<Longrightarrow> sign s = ZPOS \<Longrightarrow>
     gives 0 h (expt_last d (s, x) h) (\<lambda>(s', x'). mp_ok s' \<and> mp_ok x' \<and> mag s' = mag s * mag x ^ unat d \<and> sign s' = ZPOS)"
proof (induction "unat d" arbitrary: d s x h rule: less_induct)
  case less
  show ?case
  proof (cases "d = 0")
    case True
    then show ?thesis using less.prems by (subst expt_last.simps) (simp add: gives_ret)
  next
    case False
    have "gives 0 h (on_ok (expt_step d (s, x) h) (\<lambda>sx h. expt_last (drop_bit 1 d) sx h))
        (\<lambda>(s', x'). mp_ok s' \<and> mp_ok x' \<and> mag s' = mag s * mag x ^ unat d \<and> sign s' = ZPOS)"
    proof (rule gives_on_ok [OF expt_step_gives [OF less.prems(1-3)]], clarify)
      fix s' x' h'
      assume s: "plenty h'" "mp_ok s'" "mp_ok x'" "mag s' = mag s * mag x ^ (unat d mod 2)" "mag x' = mag x ^ 2" "sign s = ZPOS \<longrightarrow> sign s' = ZPOS"
      have h2: "unat (drop_bit 1 d) = unat d div 2" using unat_drop_bit_u16 [of 1 d] by simp
      have "mag s' * mag x' ^ unat (drop_bit 1 d) = mag s * mag x ^ unat d"
        unfolding s(4,5) h2 mult.assoc power_halves ..
      then show "gives 0 h' (expt_last (drop_bit 1 d) (s', x') h')
          (\<lambda>(s', x'). mp_ok s' \<and> mp_ok x' \<and> mag s' = mag s * mag x ^ unat d \<and> sign s' = ZPOS)"
        using less.hyps [OF unat_half [OF False] s(1-3)] s(6) less.prems(4) by simp
    qed
    then show ?thesis using False by (subst expt_last.simps) simp
  qed
qed

lemma expt_digits_gives:
  "plenty h \<Longrightarrow> mp_ok s \<Longrightarrow> mp_ok x \<Longrightarrow> sign s = ZPOS \<Longrightarrow> ds \<noteq> [] \<Longrightarrow>
     gives 0 h (expt_digits ds (s, x) h) (\<lambda>(s', x'). mp_ok s' \<and> mp_ok x' \<and> mag s' = mag s * mag x ^ bval ds \<and> sign s' = ZPOS)"
proof (induction ds arbitrary: s x h rule: induct_list012)
  case (2 d)
  then show ?case using expt_last_gives by simp
next
  case (3 d e ds)
  show ?case unfolding expt_digits.simps
  proof (rule gives_on_ok [OF expt_bits_gives [OF 3(3-6)]], clarify)
    fix s' x' h'
    assume s: "plenty h'" "mp_ok s'" "mp_ok x'" "mag s' = mag s * mag x ^ (unat d mod 2 ^ 16)" "mag x' = mag x ^ 2 ^ 16" "sign s' = ZPOS"
    have "mag s' * mag x' ^ bval (e # ds) = mag s * mag x ^ bval (d # e # ds)"
      unfolding s(4,5) bval.simps(2) [of d] by (simp add: power_add power_mult)
    then show "gives 0 h' (expt_digits (e # ds) (s', x') h')
        (\<lambda>(s', x'). mp_ok s' \<and> mp_ok x' \<and> mag s' = mag s * mag x ^ bval (d # e # ds) \<and> sign s' = ZPOS)"
      using 3(2) [OF s(1-3,6)] by simp
  qed
qed simp

lemma mp_expt_d_gives:
  assumes h: "plenty h" and a: "mp_ok a" and c: "mp_wf c"
  shows "gives 0 h (mp_expt_d a d c h) (\<lambda>x. mp_ok x \<and> mp_val x = mp_val a ^ unat d)"
proof -
  have wa: "mp_wf a" using a by (simp add: mp_ok_def)
  obtain s h1 where s: "mp_init h = (MP_OKAY, s, h1)" "fine 1 h h1" "mp_wf s" "digits s = [0]" "sign s = ZPOS" "used s = 1" "mag s = 0"
    by (rule mp_init_fine [OF h], rule that, assumption) simp_all
  obtain x h2 where x: "mp_init_copy a h1 = (MP_OKAY, x, h2)" "fine 1 h1 h2" "mp_ok x" "mag x = mag a"
    by (rule mp_init_copy_fine [OF fine_plenty [OF s(2)] wa], rule that, assumption) (simp_all add: a)
  define s1 where "s1 = s\<lparr>dp := (dp s)[0 := 1]\<rparr>"
  have "fst (store_digit 0 1 s h) = s1" by (simp add: s1_def store_digit_def)
  then have s1: "mp_ok s1" "mag s1 = 1" "sign s1 = ZPOS" using store_first [OF s(3), of 1 h] s(4-7) by (simp_all add: mp_ok_def clamped_def s1_def)
  obtain sx h3 where sx: "expt_last d (s1, x) h2 = (MP_OKAY, sx, h3)" "fine 0 h2 h3"
    "case sx of (s', x') \<Rightarrow> mp_ok s' \<and> mp_ok x' \<and> mag s' = mag s1 * mag x ^ unat d \<and> sign s' = ZPOS"
    using expt_last_gives [OF fine_plenty [OF x(2)] s1(1) x(3) s1(3)] by (rule givesE)
  obtain s2 x2 where e: "sx = (s2, x2)" by (cases sx)
  have s2: "mp_ok s2" "mp_ok x2" "mag s2 = mag a ^ unat d" using sx(3) s1(2) x(4) by (simp_all add: e)
  define cs where "cs = (if d mod 2 = 1 then sign a else ZPOS)"
  have w2: "mp_wf x2" using s2(2) by (simp add: mp_ok_def)
  have f: "fine 0 h (clear c (clear x2 h3))"
    using clear_fine [OF c clear_fine [OF w2 fine_trans [OF fine_trans [OF s(2) x(2)] sx(2)]]] by simp
  have r: "mp_expt_d a d c h = (MP_OKAY, s2\<lparr>sign := cs\<rparr>, clear c (clear x2 h3))"
    unfolding mp_expt_d_def Let_def s(1) prod.case
    unfolding x(1) prod.case
    unfolding s1_def [symmetric] cs_def [symmetric] sx(1) e prod.case
    by (simp add: s_mp_exch_def)
  have odd: "d mod 2 = 1 \<longleftrightarrow> odd (unat d)"
  proof -
    have "unat (d mod 2) = unat d mod 2" by (simp add: unat_mod_distrib)
    then have "d mod 2 = 1 \<longleftrightarrow> unat d mod 2 = 1" by (metis unat_1 word_unat_eq_iff)
    then show ?thesis by (simp add: odd_iff_mod_2_eq_one)
  qed
  have "mp_ok (s2\<lparr>sign := cs\<rparr>) \<and> mp_val (s2\<lparr>sign := cs\<rparr>) = mp_val a ^ unat d"
  proof (cases "sign a = NEG")
    case True
    then have "0 < mag a" using mp_val_ok(3) [OF a] by simp
    then have "mag s2 \<noteq> 0" using s2(3) by simp
    then show ?thesis using s2(1,3) True odd by (auto simp: mp_ok_def mp_val_def cs_def)
  next
    case False
    then have "cs = ZPOS" using not_neg [of "sign a"] by (simp add: cs_def)
    then show ?thesis using s2(1,3) False by (simp add: mp_ok_def mp_val_def)
  qed
  then show ?thesis using r f by (intro givesI)
qed

text \<open>The sign of a negative base is kept for the even exponents, and not for the odd ones.\<close>

lemma mp_expt_gives:
  assumes h: "plenty h" and a: "mp_ok a" and b: "mp_ok b" "0 \<le> mp_val b" and c: "mp_wf c"
  shows "gives 0 h (mp_expt a b c h) (\<lambda>x. mp_ok x \<and> mp_val x = (if even (mp_val b) \<and> mp_val a < 0 then - 1 else 1) * \<bar>mp_val a\<bar> ^ nat (mp_val b))"
proof -
  have wa: "mp_wf a" and wb: "mp_wf b" using a b by (simp_all add: mp_ok_def)
  have nz: "\<not> mp_cmp_z b < 0" using mp_cmp_z_val [OF b(1)] b(2) by (auto simp: MP_EQ_def MP_GT_def)
  obtain s h1 where s: "mp_init h = (MP_OKAY, s, h1)" "fine 1 h h1" "mp_wf s"
    by (rule mp_init_fine [OF h], rule that, assumption) simp_all
  obtain x h2 where x: "mp_init_copy a h1 = (MP_OKAY, x, h2)" "fine 1 h1 h2" "mp_ok x" "mag x = mag a"
    by (rule mp_init_copy_fine [OF fine_plenty [OF s(2)] wa], rule that, assumption) (simp_all add: a)
  have s1: "mp_ok (mp_set s 1)" "mag (mp_set s 1) = 1" "sign (mp_set s 1) = ZPOS" using mp_set_ok [OF s(3), of 1] by simp_all
  obtain sx h3 where sx: "expt_digits (digits b) (mp_set s 1, x) h2 = (MP_OKAY, sx, h3)" "fine 0 h2 h3"
    "case sx of (s', x') \<Rightarrow> mp_ok s' \<and> mp_ok x' \<and> mag s' = mag (mp_set s 1) * mag x ^ bval (digits b) \<and> sign s' = ZPOS"
    using expt_digits_gives [OF fine_plenty [OF x(2)] s1(1) x(3) s1(3) mp_wfD(2) [OF wb]] by (rule givesE)
  obtain s2 x2 where e: "sx = (s2, x2)" by (cases sx)
  have mb: "nat (mp_val b) = mag b" using b mp_val_ok(1) [OF b(1)] by (simp add: mp_val_def)
  have s2: "mp_ok s2" "mp_ok x2" "mag s2 = mag a ^ mag b" "sign s2 = ZPOS" using sx(3) s1(2) x(4) by (simp_all add: e mag_def [of b])
  define s3 where "s3 = (if mp_iseven b then s2\<lparr>sign := sign a\<rparr> else s2)"
  have ev: "mp_iseven b \<longleftrightarrow> even (mp_val b)" using mp_isodd_val [OF wb] by (simp add: mp_iseven_def)
  have s3: "mp_ok s3 \<and> mp_val s3 = (if even (mp_val b) \<and> mp_val a < 0 then - 1 else 1) * \<bar>mp_val a\<bar> ^ nat (mp_val b)"
  proof (cases "sign a = NEG")
    case True
    then have "0 < mag a" using mp_val_ok(3) [OF a] by simp
    then have "mag s2 \<noteq> 0" using s2(3) by simp
    then show ?thesis using s2 True mp_val_ok(1) [OF a] by (simp add: s3_def ev mp_ok_def mb mp_val_def [of s2] mp_val_def [of "s2\<lparr>sign := NEG\<rparr>"] mp_val_def [of a])
  next
    case False
    then have "sign a = ZPOS" using not_neg [of "sign a"] by simp
    then show ?thesis using s2 mp_val_ok(1) [OF a] by (simp add: s3_def ev mp_ok_def mb mp_val_def [of s2] mp_val_def [of "s2\<lparr>sign := ZPOS\<rparr>"] mp_val_def [of a])
  qed
  then have ok3: "mp_ok s3" by simp
  obtain y h4 where y: "mp_copy s3 c h3 = (MP_OKAY, y, h4)" "fine 0 h3 h4" "mp_ok y \<and> mp_val y = mp_val s3 \<and> sign y = sign s3 \<and> mag y = mag s3 \<and> alloc c \<le> alloc y \<and> used y = used s3"
    using mp_copy_gives [OF fine_plenty [OF sx(2)] ok3 c] by (rule givesE)
  have w: "mp_wf s3" "mp_wf x2" using ok3 s2(2) by (simp_all add: mp_ok_def)
  have f: "fine 0 h (clear s3 (clear x2 h4))"
    using clear_fine [OF w(1) clear_fine [OF w(2) fine_trans [OF fine_trans [OF fine_trans [OF s(2) x(2)] sx(2)] y(2)]]] by simp
  have r: "mp_expt a b c h = (MP_OKAY, y, clear s3 (clear x2 h4))"
    unfolding mp_expt_def Let_def s(1) prod.case
    unfolding x(1) prod.case
    unfolding sx(1) e prod.case
    unfolding s3_def [symmetric] y(1) prod.case
    using nz by simp
  show ?thesis by (rule givesI [OF r f]) (use y(3) s3 in simp)
qed

section \<open>Square roots\<close>

text \<open>Newton's step stays above the root, and the loop ends within one of it.\<close>

lemma newton_above:
  fixes x a q :: nat
  assumes "a < x * x" "0 < x" "q = (x * x - a) div (2 * x)"
  shows "q \<le> x" "a < (x - q) * (x - q)" "q = 0 \<Longrightarrow> (x - 1) * (x - 1) \<le> a" "q \<noteq> 0 \<Longrightarrow> x - q < x"
proof -
  have "2 * x * q \<le> x * x - a" unfolding assms(3) by simp
  then have c: "2 * x * q + a \<le> x * x" using assms(1) by linarith
  then have "2 * x * q \<le> x * x" by linarith
  then have "x * (2 * q) \<le> x * x" by (simp add: mult.commute mult.left_commute)
  then have q: "2 * q \<le> x" using assms(2) by simp
  then show "q \<le> x" by simp
  define y where "y = x - q"
  have xy: "x = y + q" using q by (simp add: y_def)
  have "2 * (y + q) * q + a \<le> (y + q) * (y + q)" using c by (simp only: xy)
  then have d: "a + q * q \<le> y * y" by (simp add: algebra_simps)
  show "a < (x - q) * (x - q)"
  proof (cases "q = 0")
    case True
    then show ?thesis using assms(1) by simp
  next
    case False
    then have "0 < q * q" by simp
    then show ?thesis using d unfolding y_def by linarith
  qed
  show "(x - 1) * (x - 1) \<le> a" if "q = 0"
  proof -
    have "x * x - a < 2 * x" using that assms(2,3) by (simp add: div_eq_0_iff)
    then have "x * x < a + 2 * x" by linarith
    obtain z where z: "x = Suc z" using assms(2) by (cases x) simp_all
    then show ?thesis using \<open>x * x < a + 2 * x\<close> by (simp add: algebra_simps)
  qed
  show "x - q < x" if "q \<noteq> 0" using that assms(2) by simp
qed

lemma used_le: "mp_ok c \<Longrightarrow> mag c < 65536 ^ n \<Longrightarrow> 0 < n \<Longrightarrow> used c \<le> n"
proof -
  assume c: "mp_ok c" "mag c < 65536 ^ n" "0 < n"
  show ?thesis
  proof (cases "used c = 1")
    case False
    then have "65536 ^ (used c - 1) \<le> mag c" using clamped_ge [OF c(1)] by simp
    then have "(65536 :: nat) ^ (used c - 1) < 65536 ^ n" using c(2) by linarith
    then have "used c - 1 < n" by (rule power_less_imp_less_exp [rotated]) simp
    then show ?thesis by simp
  qed (use c(3) in simp)
qed

lemma sqrt_loop_val:
  assumes "plenty h" "mp_ok a" "sign a = ZPOS" "used a < 4096" "mp_ok x" "sign x = ZPOS" "mag x \<le> mag a" "mag a < mag x * mag x" "mp_wf t"
  shows "\<exists>x' t' h'. sqrt_loop a x t h = Some (MP_OKAY, x', t', h') \<and> fine 0 h h' \<and> mp_ok x' \<and> sign x' = ZPOS \<and> mp_wf t' \<and> mag a < mag x' * mag x'
    \<and> (mag x' - 1) * (mag x' - 1) \<le> mag a"
  using assms
proof (induction "mag x" arbitrary: x t h rule: less_induct)
  case less
  have wa: "mp_wf a" and wx: "mp_wf x" using less.prems by (simp_all add: mp_ok_def)
  have x0: "0 < mag x" using less.prems(8) by (cases "mag x") simp_all
  obtain t1 h1 where t1: "mp_copy x t h = (MP_OKAY, t1, h1)" "fine 0 h h1" "mp_ok t1 \<and> mp_val t1 = mp_val x \<and> sign t1 = sign x \<and> mag t1 = mag x \<and> alloc t \<le> alloc t1 \<and> used t1 = used x"
    using mp_copy_gives [OF less.prems(1,5,9)] by (rule givesE)
  have ok1: "mp_ok t1" using t1(3) by simp
  have w1: "mp_wf t1" by (rule mp_okD(1) [OF ok1])
  have "gives 0 h1 (on_ok (mp_sqr t1 t1 h1) (\<lambda>t h. mp_sub True False t a t h)) (\<lambda>y. mp_ok y \<and> mp_val y = mp_val x * mp_val x - mp_val a)"
  proof (rule gives_on_ok [OF mp_sqr_gives [OF fine_plenty [OF t1(2)] ok1 w1]])
    fix y h'
    assume y: "plenty h'" "mp_ok y \<and> mp_val y = mp_val t1 * mp_val t1"
    then have "mp_ok y" "mp_wf y" by (simp_all add: mp_ok_def)
    then show "gives 0 h' (mp_sub True False y a y h') (\<lambda>y. mp_ok y \<and> mp_val y = mp_val x * mp_val x - mp_val a)"
      using mp_sub_gives [OF y(1) _ less.prems(2), of y y True False] y(2) t1(3) by simp
  qed
  then obtain t2 h2 where t2: "on_ok (mp_sqr t1 t1 h1) (\<lambda>t h. mp_sub True False t a t h) = (MP_OKAY, t2, h2)" "fine 0 h1 h2"
    "mp_ok t2 \<and> mp_val t2 = mp_val x * mp_val x - mp_val a" by (rule givesE)
  have vx: "mp_val x = int (mag x)" "mp_val a = int (mag a)" using less.prems(3,6) by (simp_all add: mp_val_def)
  define D where "D = mag x * mag x - mag a"
  have v2: "mp_val t2 = int D" using t2(3) less.prems(8) by (simp add: vx D_def of_nat_diff)
  obtain x1 h3 where x1: "s_mp_mul_2 x h2 = (MP_OKAY, x1, h3)" "fine 0 h2 h3" "mp_ok x1" "mag x1 = 2 * mag x" "sign x1 = sign x"
    by (rule s_mp_mul_2_fine [OF fine_plenty [OF t2(2)] less.prems(5)], rule that, assumption) simp_all
  have vx1: "mp_val x1 = int (2 * mag x)" using x1(4,5) less.prems(6) by (simp add: mp_val_def)
  have nz: "mp_val x1 \<noteq> 0" using vx1 x0 by simp
  have "mag x1 < 65536 ^ (used a + 1)" using x1(4) less.prems(7) mag_less [OF wa] by simp
  then have small: "used x1 \<le> 4096" using used_le [OF x1(3), of "used a + 1"] less.prems(4) by simp
  have w2: "mp_wf t2" using t2(3) by (simp add: mp_ok_def)
  define q where "q = D div (2 * mag x)"
  have sd: "mp_val t2 sdiv mp_val x1 = int q"
    using x0 by (simp add: v2 vx1 q_def signed_divide_int_def sgn_if zdiv_int)
  obtain t3' r' h4 where d: "mp_div t2 x1 (Some t2) None h3 = Some (MP_OKAY, t3', r', h4)" "fine 0 h3 h4" "out (Some t2) t3' (mp_val t2 sdiv mp_val x1)"
    using mp_div_fine [OF fine_plenty [OF x1(2)] _ x1(3) nz small, of t2 "Some t2" None] t2(3) w2 by auto
  obtain t3 where t3: "t3' = Some t3" "mp_ok t3" "mp_val t3 = int q" using d(3) by (auto simp: out_def sd)
  have mt3: "mag t3 = q" using mag_abs [of t3] t3(3) by simp
  define x2 where "x2 = s_mp_div_2 x1"
  have x2: "mp_ok x2" "mag x2 = mag x" "sign x2 = ZPOS"
    using s_mp_div_2d_fine [OF x1(3), of 1] x1(4,5) less.prems(6) x0 by (simp_all add: x2_def s_mp_div_2_def)
  have f: "fine 0 h h4" using fine_trans [OF fine_trans [OF fine_trans [OF t1(2) t2(2)] x1(2)] d(2)] by simp
  note nw = newton_above [OF less.prems(8) x0 q_def [unfolded D_def]]
  have w3: "mp_wf t3" using t3(2) by (simp add: mp_ok_def)
  have z: "mp_cmp_z t3 = MP_EQ \<longleftrightarrow> q = 0" using mp_cmp_z_val [OF t3(2)] t3(3) by (simp add: MP_LT_def MP_EQ_def MP_GT_def)
  have step: "sqrt_loop a x t h = (if q = 0 then Some (MP_OKAY, x2, t3, h4)
      else let (res, x, h) = mp_sub True False x2 t3 x2 h4 in if res \<noteq> MP_OKAY then Some (res, x, t3, h) else sqrt_loop a x t3 h)"
    using t1(1) t2(1) x1(1) d(1) t3(1) by (subst sqrt_loop.simps) (simp add: z flip: x2_def)
  show ?case
  proof (cases "q = 0")
    case True
    then show ?thesis using step f x2 w3 less.prems(8) nw(3) by simp
  next
    case False
    have wx2: "mp_wf x2" using x2(1) by (simp add: mp_ok_def)
    obtain x3 h5 where x3: "mp_sub True False x2 t3 x2 h4 = (MP_OKAY, x3, h5)" "fine 0 h4 h5" "mp_ok x3 \<and> mp_val x3 = mp_val x2 - mp_val t3"
      using mp_sub_gives [OF fine_plenty [OF d(2)] x2(1) t3(2) wx2, of True False] by (auto elim: givesE)
    have v3: "mp_val x3 = int (mag x - q)" using x3(3) x2(2,3) t3(3) nw(1) by (simp add: mp_val_def [of x2] of_nat_diff)
    have m3: "mag x3 = mag x - q" using mag_abs [of x3] v3 by simp
    have s3: "sign x3 = ZPOS" using mp_val_ok(1) [of x3] x3(3) v3 not_neg [of "sign x3"] by simp
    have ok3: "mp_ok x3" using x3(3) by simp
    have le: "mag x3 \<le> mag a" using m3 less.prems(7) by simp
    have "\<exists>x' t' h'. sqrt_loop a x3 t3 h5 = Some (MP_OKAY, x', t', h') \<and> fine 0 h5 h' \<and> mp_ok x' \<and> sign x' = ZPOS \<and> mp_wf t' \<and> mag a < mag x' * mag x'
      \<and> (mag x' - 1) * (mag x' - 1) \<le> mag a"
      by (rule less.hyps [OF _ fine_plenty [OF x3(2)] less.prems(2-4) ok3 s3 le _ w3]) (use m3 nw(2,4) False in simp_all)
    moreover have "sqrt_loop a x t h = sqrt_loop a x3 t3 h5" using step False x3(1) by simp
    moreover have "fine 0 h h5" using fine_trans [OF f x3(2)] by simp
    ultimately show ?thesis using fine_trans [of 0 h h5 0] by auto
  qed
qed

text \<open>The greatest integer whose square is not above \<open>a\<close>.\<close>

lemma mp_sqrt_floor:
  assumes h: "plenty h" and a: "mp_ok a" "0 \<le> mp_val a" "used a < 4096" and b: "mp_wf b"
  obtains r h' where "mp_sqrt a b h = Some (MP_OKAY, r, h')" "fine 0 h h'" "mp_ok r" "0 \<le> mp_val r" "mp_val r ^ 2 \<le> mp_val a" "mp_val a < (mp_val r + 1) ^ 2"
proof -
  have wa: "mp_wf a" using a(1) by (simp add: mp_ok_def)
  have sa: "sign a \<noteq> NEG" "sign a = ZPOS" using mp_val_ok(1) [OF a(1)] a(2) not_neg [of "sign a"] by simp_all
  have va: "mp_val a = int (mag a)" using sa by (simp add: mp_val_def)
  have c: "mp_cmp_d a 0 = MP_EQ \<longleftrightarrow> mag a = 0" "mp_cmp_d a 1 = MP_EQ \<longleftrightarrow> mag a = 1"
    using mp_cmp_d_val [OF a(1), of 0] mp_cmp_d_val [OF a(1), of 1] va by (auto simp: MP_LT_def MP_EQ_def MP_GT_def)
  show thesis
  proof (cases "mag a \<le> 1")
    case True
    then have m: "mag a = 0 \<or> mag a = 1" by linarith
    obtain x h' where x: "mp_copy a b h = (MP_OKAY, x, h')" "fine 0 h h'" "mp_ok x \<and> mp_val x = mp_val a \<and> sign x = sign a \<and> mag x = mag a \<and> alloc b \<le> alloc x \<and> used x = used a"
      using mp_copy_gives [OF h a(1) b] by (rule givesE)
    have "mp_sqrt a b h = Some (MP_OKAY, x, h')" using sa c m x(1) by (auto simp: mp_sqrt_def)
    then show thesis using that x m va by auto
  next
    case False
    have u0: "0 < used a" using mp_wfD(3) [OF wa] by simp
    obtain t h1 where t: "mp_init_size (used a) h = (MP_OKAY, t, h1)" "fine 1 h h1" "mp_wf t"
      by (rule mp_init_size_fine [OF h u0], rule that, assumption) simp_all
    obtain x h2 where x: "mp_init_copy a h1 = (MP_OKAY, x, h2)" "fine 1 h1 h2" "mp_ok x" "mag x = mag a" "sign x = sign a"
      by (rule mp_init_copy_fine [OF fine_plenty [OF t(2)] wa], rule that, assumption) (simp_all add: a)
    have sx: "sign x = ZPOS" using x(5) sa by simp
    have lt: "mag a < mag x * mag x" unfolding x(4) using False by (simp add: mult_less_cancel1 [of "mag a" 1, simplified])
    have le: "mag x \<le> mag a" using x(4) by simp
    obtain x' t' h3 where l: "sqrt_loop a x t h2 = Some (MP_OKAY, x', t', h3)" "fine 0 h2 h3" "mp_ok x'" "sign x' = ZPOS" "mp_wf t'" "mag a < mag x' * mag x'"
      "(mag x' - 1) * (mag x' - 1) \<le> mag a"
      using sqrt_loop_val [OF fine_plenty [OF x(2)] a(1) sa(2) a(3) x(3) sx le lt t(3)] by blast
    have wx': "mp_wf x'" using l(3) by (simp add: mp_ok_def)
    obtain r h4 where r: "mp_sub_d x' 1 x' h3 = (MP_OKAY, r, h4)" "fine 0 h3 h4" "mp_ok r \<and> mp_val r = mp_val x' - int (unat (1 :: u16))"
      using mp_sub_d_gives [OF fine_plenty [OF l(2)] l(3) wx'] by (rule givesE)
    have m0: "0 < mag x'" using l(6) by (cases "mag x'") simp_all
    have vr: "mp_val r = int (mag x' - 1)" using r(3) l(4) m0 by (simp add: mp_val_def [of x'] of_nat_diff)
    have f: "fine 0 h (clear t' (clear b h4))"
      using clear_fine [OF l(5) clear_fine [OF b fine_trans [OF fine_trans [OF fine_trans [OF t(2) x(2)] l(2)] r(2)]]] by simp
    have e: "mp_sqrt a b h = Some (MP_OKAY, r, clear t' (clear b h4))"
      using sa c False t(1) x(1) l(1) r(1) by (auto simp: mp_sqrt_def s_mp_exch_def)
    have "mp_val r ^ 2 \<le> mp_val a" using l(7) unfolding vr va power2_eq_square by (simp only: of_nat_mult [symmetric] of_nat_le_iff)
    moreover have "mp_val r + 1 = int (mag x')" using vr m0 by simp
    then have "mp_val a < (mp_val r + 1) ^ 2" using l(6) unfolding va power2_eq_square by (simp only: of_nat_mult [symmetric] of_nat_less_iff)
    ultimately show thesis using that [OF e f] r(3) vr by simp
  qed
qed

section \<open>Properties\<close>

text \<open>C36: Addition, subtraction and multiplication compute the sum, the difference and the product of the signed values, also where the
  output is one of the inputs, and their results are in normal form, with the same number of digit buffers in use and no write outside them.\<close>
theorem mp_arithmetic_refines_integers:
  assumes "plenty h" "mp_ok a" "mp_ok b" "mp_wf c" "ca \<Longrightarrow> c = a" "cb \<Longrightarrow> c = b"
  shows "gives 0 h (mp_add ca cb a b c h) (\<lambda>x. mp_ok x \<and> mp_val x = mp_val a + mp_val b)
    \<and> gives 0 h (mp_sub ca cb a b c h) (\<lambda>x. mp_ok x \<and> mp_val x = mp_val a - mp_val b)
    \<and> gives 0 h (mp_mul cb a b c h) (\<lambda>x. mp_ok x \<and> mp_val x = mp_val a * mp_val b)"
  using mp_add_gives [OF assms] mp_sub_gives [OF assms] mp_mul_gives [OF assms(1-4,6)] by blast

text \<open>Two integers for the examples, \<open>-65539\<close> and \<open>6\<close>, and an empty heap.\<close>

definition ex_a :: mp_int where "ex_a = \<lparr>sign = NEG, alloc = 3, used = 2, dp = [3, 1, 0]\<rparr>"
definition ex_b :: mp_int where "ex_b = \<lparr>sign = ZPOS, alloc = 2, used = 1, dp = [6, 0]\<rparr>"
definition ex_h :: mp_mem where "ex_h = \<lparr>rooms = [], live = 2, overrun = False\<rparr>"

lemma ex_ok: "mp_ok ex_a" "mp_ok ex_b" "plenty ex_h" "mp_val ex_a = - 65539" "mp_val ex_b = 6" "used ex_b = 1" "mp_wf ex_a" "mp_wf ex_b"
  "used ex_a = 2"
  by (simp_all add: mp_ok_def mp_wf_def clamped_def mag_def digits_def mp_val_def plenty_def ex_a_def ex_b_def ex_h_def)

theorem mp_arithmetic_refines_integers_witness:
  "gives 0 ex_h (mp_add False True ex_a ex_b ex_b ex_h) (\<lambda>x. mp_ok x \<and> mp_val x = - 65533)
    \<and> gives 0 ex_h (mp_sub False True ex_a ex_b ex_b ex_h) (\<lambda>x. mp_ok x \<and> mp_val x = - 65545)
    \<and> gives 0 ex_h (mp_mul True ex_a ex_b ex_b ex_h) (\<lambda>x. mp_ok x \<and> mp_val x = - 393234)"
  using mp_arithmetic_refines_integers [of ex_h ex_a ex_b ex_b False True] by (simp add: ex_ok)



text \<open>C38: Division gives the quotient rounded towards zero and the remainder with the sign of the dividend, for divisors of up to 4096
  digits: what the normalisation, the guesses of the digits and the steps back arrive at.\<close>
theorem mp_div_truncates:
  assumes "plenty h" "mp_ok a" "mp_ok b" "mp_val b \<noteq> 0" "used b \<le> 4096" "mp_wf q" "mp_wf r"
  shows "\<exists>q' r' h'. mp_div a b (Some q) (Some r) h = Some (MP_OKAY, Some q', Some r', h') \<and> fine 0 h h' \<and> mp_ok q' \<and> mp_ok r'
    \<and> mp_val q' = mp_val a sdiv mp_val b \<and> mp_val r' = mp_val a smod mp_val b"
  using mp_div_fine [OF assms(1-5), of "Some q" "Some r"] assms(6,7) by (auto simp: out_def)

theorem mp_div_truncates_witness:
  "\<exists>q' r' h'. mp_div ex_a ex_b (Some ex_a) (Some ex_b) ex_h = Some (MP_OKAY, Some q', Some r', h') \<and> fine 0 ex_h h' \<and> mp_ok q' \<and> mp_ok r'
    \<and> mp_val q' = - 10923 \<and> mp_val r' = - 1"
  using mp_div_truncates [of ex_h ex_a ex_b ex_a ex_b] by (simp add: ex_ok signed_divide_int_def signed_modulo_int_def)

text \<open>C39: The square root of a number that is not negative, with less than 4096 digits, is found: the greatest integer whose square is not above it.\<close>
theorem mp_sqrt_is_floor:
  assumes "plenty h" "mp_ok a" "0 \<le> mp_val a" "used a < 4096" "mp_wf b"
  shows "\<exists>r h'. mp_sqrt a b h = Some (MP_OKAY, r, h') \<and> fine 0 h h' \<and> mp_ok r \<and> 0 \<le> mp_val r \<and> mp_val r ^ 2 \<le> mp_val a
    \<and> mp_val a < (mp_val r + 1) ^ 2"
  by (rule mp_sqrt_floor [OF assms]) blast

theorem mp_sqrt_is_floor_witness:
  "\<exists>r h'. mp_sqrt ex_b ex_a ex_h = Some (MP_OKAY, r, h') \<and> fine 0 ex_h h' \<and> mp_ok r \<and> 0 \<le> mp_val r \<and> mp_val r ^ 2 \<le> 6 \<and> 6 < (mp_val r + 1) ^ 2"
  using mp_sqrt_is_floor [of ex_h ex_b ex_a] by (simp add: ex_ok)

end
